(* ===== verification/Prelude.thy ===== *)
theory Prelude
  imports Main "HOL-Library.Word" "HOL-Library.Monad_Syntax"
begin

unbundle bit_operations_syntax

section \<open>Shared vocabulary of the kernel model\<close>

text \<open>
  The machine types of \<open>include/phinix/types.h\<close>, the error numbers of
  \<open>include/phinix/errno.h\<close>, the assertion of \<open>include/phinix/assert.h\<close>, checked
  access to byte arrays, and the lemmas the components share.

  A C function that may stop the kernel is a function into \<open>option\<close>: \<open>None\<close> means
  that control never comes back from the call, because an \<open>assert\<close> failed or \<open>panic\<close>
  was called (both print and spin for ever), or because the code touched memory outside the
  object it was given. Ordinary error codes (\<open>EOF\<close>, \<open>-EPROTO\<close> and the like) are
  ordinary results of the model, as they are in the code.
\<close>

named_theorems c_defs \<open>definitions unfolded when a C-level operation is evaluated\<close>

subsection \<open>Machine types\<close>

type_synonym u8 = "8 word"
type_synonym u16 = "16 word"
type_synonym u32 = "32 word"
type_synonym idx_t = u32
type_synonym bytes = "u8 list"

subsection \<open>Error numbers\<close>

datatype (plugins only: code) errno =
    EOK | EPERM | ENOENT | ESRCH | EINTR | EIO | ENXIO | E2BIG | ENOEXEC | EBADF | ECHILD
  | EAGAIN | ENOMEM | EACCES | EFAULT | ENOTBLK | EBUSY | EEXIST | EXDEV | ENODEV | ENOTDIR
  | EISDIR | EINVAL | ENFILE | EMFILE | ENOTTY | ETXTBSY | EFBIG | ENOSPC | ESPIPE | EROFS
  | EMLINK | EPIPE | EDOM | ERANGE | EDEADLK | ENAMETOOLONG | ENOLCK | ENOSYS | ENOTEMPTY
  | ETIME | ERROR | EEOF | EADDR | EPROTO | EOPTION | EFRAG

primrec errno_val :: "errno \<Rightarrow> int" where
  "errno_val EOK = 0" | "errno_val EPERM = 1" | "errno_val ENOENT = 2"
| "errno_val ESRCH = 3" | "errno_val EINTR = 4" | "errno_val EIO = 5"
| "errno_val ENXIO = 6" | "errno_val E2BIG = 7" | "errno_val ENOEXEC = 8"
| "errno_val EBADF = 9" | "errno_val ECHILD = 10" | "errno_val EAGAIN = 11"
| "errno_val ENOMEM = 12" | "errno_val EACCES = 13" | "errno_val EFAULT = 14"
| "errno_val ENOTBLK = 15" | "errno_val EBUSY = 16" | "errno_val EEXIST = 17"
| "errno_val EXDEV = 18" | "errno_val ENODEV = 19" | "errno_val ENOTDIR = 20"
| "errno_val EISDIR = 21" | "errno_val EINVAL = 22" | "errno_val ENFILE = 23"
| "errno_val EMFILE = 24" | "errno_val ENOTTY = 25" | "errno_val ETXTBSY = 26"
| "errno_val EFBIG = 27" | "errno_val ENOSPC = 28" | "errno_val ESPIPE = 29"
| "errno_val EROFS = 30" | "errno_val EMLINK = 31" | "errno_val EPIPE = 32"
| "errno_val EDOM = 33" | "errno_val ERANGE = 34" | "errno_val EDEADLK = 35"
| "errno_val ENAMETOOLONG = 36" | "errno_val ENOLCK = 37" | "errno_val ENOSYS = 38"
| "errno_val ENOTEMPTY = 39" | "errno_val ETIME = 62" | "errno_val ERROR = 99"
| "errno_val EEOF = 100" | "errno_val EADDR = 101" | "errno_val EPROTO = 102"
| "errno_val EOPTION = 103" | "errno_val EFRAG = 104"

text \<open>The negated code a function returns, and \<open>EOF\<close>, which is \<open>-EEOF\<close>.\<close>

definition neg_errno :: "errno \<Rightarrow> int" where
  [c_defs]: "neg_errno e = - errno_val e"

definition EOF :: int where
  [c_defs]: "EOF = - errno_val EEOF"

text \<open>\<open>EOF\<close> stored in a 32-bit unsigned variable.\<close>

definition EOF32 :: u32 where
  [c_defs]: "EOF32 = word_of_int EOF"

lemma EOF_val [simp]: "EOF = - 100"
  by (simp add: EOF_def)

lemma EOF32_val: "EOF32 = 4294967196"
  by (simp add: EOF32_def)

subsection \<open>Assertions\<close>

definition c_assert :: "bool \<Rightarrow> unit option" where
  "c_assert b = (if b then Some () else None)"

lemma c_assert_simps [simp]:
  "c_assert True = Some ()" "c_assert False = None"
  by (simp_all add: c_assert_def)

lemma c_assert_eq_Some [simp]: "c_assert b = Some u \<longleftrightarrow> b"
  by (simp add: c_assert_def)

lemma bind_c_assert [simp]:
  "Option.bind (c_assert b) f = (if b then f () else None)"
  by (simp add: c_assert_def)

subsection \<open>Checked access to arrays\<close>

text \<open>A read or a write outside the array has no result.\<close>

definition rd :: "'a list \<Rightarrow> nat \<Rightarrow> 'a option" where
  "rd xs i = (if i < length xs then Some (xs ! i) else None)"

definition wr :: "'a list \<Rightarrow> nat \<Rightarrow> 'a \<Rightarrow> 'a list option" where
  "wr xs i v = (if i < length xs then Some (xs[i := v]) else None)"

lemma rd_in [simp]: "i < length xs \<Longrightarrow> rd xs i = Some (xs ! i)"
  by (simp add: rd_def)

lemma rd_out [simp]: "length xs \<le> i \<Longrightarrow> rd xs i = None"
  by (simp add: rd_def)

lemma rd_eq_Some: "rd xs i = Some v \<longleftrightarrow> i < length xs \<and> xs ! i = v"
  by (auto simp: rd_def)

lemma wr_in [simp]: "i < length xs \<Longrightarrow> wr xs i v = Some (xs[i := v])"
  by (simp add: wr_def)

lemma wr_out [simp]: "length xs \<le> i \<Longrightarrow> wr xs i v = None"
  by (simp add: wr_def)

lemma wr_eq_Some: "wr xs i v = Some ys \<longleftrightarrow> i < length xs \<and> ys = xs[i := v]"
  by (auto simp: wr_def)

lemma wr_length: "wr xs i v = Some ys \<Longrightarrow> length ys = length xs"
  by (auto simp: wr_eq_Some)

subsection \<open>Iterating an operation that may not return\<close>

fun foldM :: "('a \<Rightarrow> 's \<Rightarrow> 's option) \<Rightarrow> 'a list \<Rightarrow> 's \<Rightarrow> 's option" where
  "foldM f [] s = Some s"
| "foldM f (x # xs) s = do { s \<leftarrow> f x s; foldM f xs s }"

fun repeatM :: "nat \<Rightarrow> ('s \<Rightarrow> ('a \<times> 's) option) \<Rightarrow> 's \<Rightarrow> ('a list \<times> 's) option" where
  "repeatM 0 f s = Some ([], s)"
| "repeatM (Suc n) f s = do { (x, s) \<leftarrow> f s; (xs, s) \<leftarrow> repeatM n f s; Some (x # xs, s) }"

lemma foldM_append: "foldM f (xs @ ys) s = do { s \<leftarrow> foldM f xs s; foldM f ys s }"
  by (induction xs arbitrary: s) (auto split: Option.bind_split)

lemma in_butlast_distinct:
  "distinct xs \<Longrightarrow> xs \<noteq> [] \<Longrightarrow> j \<in> set (butlast xs) \<longleftrightarrow> j \<noteq> last xs \<and> j \<in> set xs"
  by (induction xs rule: rev_induct) auto

lemma remove1_last:
  "distinct xs \<Longrightarrow> xs \<noteq> [] \<Longrightarrow> remove1 (last xs) xs = butlast xs"
  by (induction xs rule: rev_induct) (auto simp: remove1_append)

subsection \<open>Word arithmetic\<close>

lemma unat_plus_bound:
  fixes a b :: "'a::len word"
  shows "unat a + unat b < 2 ^ LENGTH('a) \<Longrightarrow> unat (a + b) = unat a + unat b"
  by (simp add: unat_add_lem)

lemma unat_Suc_bound:
  fixes a :: u32
  shows "unat a + 1 < 4294967296 \<Longrightarrow> unat (a + 1) = unat a + 1"
  using unat_plus_bound [of a 1] by simp

lemma unat_of_nat32: "n < 4294967296 \<Longrightarrow> unat (of_nat n :: u32) = n"
  by (simp add: unat_of_nat take_bit_nat_eq_self)

lemma word_minus_of_nat32: "(of_nat a :: u32) = w \<Longrightarrow> a < 4294967296 \<Longrightarrow> unat w = a"
  using unat_of_nat32 by blast

lemma sint_unat32: "unat (w :: u32) < 2147483648 \<Longrightarrow> sint w = int (unat w)"
  by (simp add: sint_uint signed_take_bit_int_eq_self uint_nat del: of_nat_unat)

lemma drop_bit_word_div: "unat (drop_bit n (w :: 'a::len word)) = unat w div 2 ^ n"
  by (simp add: unat_drop_bit_eq flip: drop_bit_eq_div)

end
