(* ===== verification/Bitmap.thy ===== *)
theory Bitmap
  imports Prelude
begin

section \<open>Bitmaps: \<open>lib/bitmap.c\<close>\<close>

text \<open>
  The record is \<open>bitmap_t\<close>; the buffer the C field \<open>bits\<close> points to is carried in
  the record. \<open>bitmap_test\<close> and \<open>bitmap_set\<close> are the C bodies with their assertions;
  an access outside the buffer has no result. \<open>bitmap_scan\<close> is the two loops of the C
  function; its first loop runs \<open>8 * length\<close> times at most, which is the recursion
  argument. The view of a bitmap is the list of its bits, and every operation is shown to
  be the corresponding operation on that list. The locale \<open>bit_set\<close> states what the
  users of a bitmap (page allocator, block and inode allocator) rely on.
\<close>

subsection \<open>The operations\<close>

record bitmap =
  bm_bits :: bytes
  bm_length :: u32
  bm_offset :: u32

definition bitmap_make :: "bytes \<Rightarrow> u32 \<Rightarrow> u32 \<Rightarrow> bitmap" where
  [c_defs]: "bitmap_make buf len off = \<lparr>bm_bits = buf, bm_length = len, bm_offset = off\<rparr>"

definition bitmap_init :: "bytes \<Rightarrow> u32 \<Rightarrow> u32 \<Rightarrow> bitmap option" where
  [c_defs]: "bitmap_init buf len off =
     (if unat len \<le> length buf
      then Some (bitmap_make (replicate (unat len) 0 @ drop (unat len) buf) len off)
      else None)"

definition bitmap_test :: "bitmap \<Rightarrow> u32 \<Rightarrow> bool option" where
  [c_defs]: "bitmap_test m index = do {
     c_assert (bm_offset m \<le> index);
     let idx = index - bm_offset m;
     let byts = idx div 8;
     let bits = idx mod 8;
     c_assert (byts < bm_length m);
     b \<leftarrow> rd (bm_bits m) (unat byts);
     Some ((b AND push_bit (unat bits) 1) \<noteq> 0) }"

definition bitmap_set :: "bitmap \<Rightarrow> u32 \<Rightarrow> bool \<Rightarrow> bitmap option" where
  [c_defs]: "bitmap_set m index value = do {
     c_assert (bm_offset m \<le> index);
     let idx = index - bm_offset m;
     let byts = idx div 8;
     let bits = idx mod 8;
     b \<leftarrow> rd (bm_bits m) (unat byts);
     bs \<leftarrow> wr (bm_bits m) (unat byts)
             (if value then b OR push_bit (unat bits) 1
              else b AND NOT (push_bit (unat bits) 1));
     Some (m\<lparr>bm_bits := bs\<rparr>) }"

fun scan_find :: "bitmap \<Rightarrow> u32 \<Rightarrow> nat \<Rightarrow> u32 \<Rightarrow> u32 \<Rightarrow> int option" where
  "scan_find m count 0 next_bit counter = Some EOF"
| "scan_find m count (Suc bits_left) next_bit counter = do {
     used \<leftarrow> bitmap_test m (bm_offset m + next_bit);
     let counter' = (if \<not> used then counter + 1 else 0);
     let next_bit' = next_bit + 1;
     if counter' = count then Some (sint (next_bit' - count))
     else scan_find m count bits_left next_bit' counter' }"

fun scan_mark :: "bitmap \<Rightarrow> nat \<Rightarrow> u32 \<Rightarrow> bitmap option" where
  "scan_mark m 0 next_bit = Some m"
| "scan_mark m (Suc bits_left) next_bit = do {
     m' \<leftarrow> bitmap_set m (bm_offset m + next_bit) True;
     scan_mark m' bits_left (next_bit + 1) }"

definition bitmap_scan :: "bitmap \<Rightarrow> u32 \<Rightarrow> (int \<times> bitmap) option" where
  "bitmap_scan m count = do {
     start \<leftarrow> scan_find m count (unat (bm_length m * 8)) 0 0;
     if start = EOF then Some (EOF, m)
     else do {
       m' \<leftarrow> scan_mark m (unat count) (word_of_int start);
       Some (sint (word_of_int start + bm_offset m), m') } }"

subsection \<open>The view of a bitmap as a list of bits\<close>

definition bm_size :: "bitmap \<Rightarrow> nat" where
  "bm_size m = 8 * unat (bm_length m)"

definition bm_view :: "bitmap \<Rightarrow> bool list" where
  "bm_view m = map (\<lambda>i. bit (bm_bits m ! (i div 8)) (i mod 8)) [0..<bm_size m]"

text \<open>
  The buffer is at least \<open>length\<close> bytes long, and the last index fits in a signed \<open>int\<close>,
  which is what \<open>bitmap_scan\<close> returns.
\<close>

definition bm_wf :: "bitmap \<Rightarrow> bool" where
  "bm_wf m \<longleftrightarrow> unat (bm_length m) \<le> length (bm_bits m)
            \<and> bm_size m + unat (bm_offset m) < 2147483648"

definition bm_index :: "bitmap \<Rightarrow> nat \<Rightarrow> u32" where
  "bm_index m i = bm_offset m + of_nat i"

lemma length_bm_view [simp]: "length (bm_view m) = bm_size m"
  by (simp add: bm_view_def)

lemma nth_bm_view:
  "i < bm_size m \<Longrightarrow> bm_view m ! i = bit (bm_bits m ! (i div 8)) (i mod 8)"
  by (simp add: bm_view_def)

lemma bm_index_unat:
  assumes "bm_wf m" "i < bm_size m"
  shows "unat (bm_index m i) = unat (bm_offset m) + i"
proof -
  have "unat (of_nat i :: u32) = i"
    using assms by (intro unat_of_nat32) (simp add: bm_wf_def)
  then show ?thesis
    using assms unat_plus_bound [of "bm_offset m" "of_nat i"] by (simp add: bm_index_def bm_wf_def)
qed

lemma bm_index_parts:
  assumes "bm_wf m" "i < bm_size m"
  shows "bm_offset m \<le> bm_index m i"
    and "unat ((bm_index m i - bm_offset m) div 8) = i div 8"
    and "unat ((bm_index m i - bm_offset m) mod 8) = i mod 8"
    and "(bm_index m i - bm_offset m) div 8 < bm_length m"
proof -
  have u: "unat (of_nat i :: u32) = i"
    using assms by (intro unat_of_nat32) (simp add: bm_wf_def)
  have d: "bm_index m i - bm_offset m = of_nat i"
    by (simp add: bm_index_def)
  show "bm_offset m \<le> bm_index m i"
    using bm_index_unat [OF assms] by (simp add: word_le_nat_alt)
  show e: "unat ((bm_index m i - bm_offset m) div 8) = i div 8"
    unfolding d by (simp add: unat_div u)
  show "unat ((bm_index m i - bm_offset m) mod 8) = i mod 8"
    unfolding d by (simp add: unat_mod u)
  show "(bm_index m i - bm_offset m) div 8 < bm_length m"
    using e assms(2) by (simp add: word_less_nat_alt bm_size_def)
qed

lemma byte_bit_test:
  "(b AND 2 ^ n \<noteq> 0) = bit b n" for b :: u8
  by (simp add: and_exp_eq_0_iff_not_bit)

lemma bitmap_test_view:
  assumes "bm_wf m" "i < bm_size m"
  shows "bitmap_test m (bm_index m i) = Some (bm_view m ! i)"
proof -
  have "i div 8 < length (bm_bits m)"
    using assms by (auto simp: bm_wf_def bm_size_def)
  then show ?thesis
    using bm_index_parts [OF assms] assms(2)
    by (simp add: bitmap_test_def Let_def byte_bit_test nth_bm_view)
qed

definition put_bit :: "nat \<Rightarrow> bool \<Rightarrow> bytes \<Rightarrow> bytes" where
  "put_bit i v bs = bs[i div 8 := (if v then bs ! (i div 8) OR push_bit (i mod 8) 1
                                   else bs ! (i div 8) AND NOT (push_bit (i mod 8) 1))]"

lemma bitmap_set_eq:
  assumes "bm_wf m" "i < bm_size m"
  shows "bitmap_set m (bm_index m i) v = Some (m\<lparr>bm_bits := put_bit i v (bm_bits m)\<rparr>)"
proof -
  have "i div 8 < length (bm_bits m)"
    using assms by (auto simp: bm_wf_def bm_size_def)
  then show ?thesis
    using bm_index_parts [OF assms]
    by (simp add: bitmap_set_def Let_def put_bit_def)
qed

lemma put_bit_bit:
  assumes "i div 8 < length bs" "j div 8 < length bs"
  shows "bit (put_bit i v bs ! (j div 8)) (j mod 8) =
         (if i = j then v else bit (bs ! (j div 8)) (j mod 8))"
proof (cases "i div 8 = j div 8")
  case True
  have "i = j \<longleftrightarrow> i mod 8 = j mod 8"
    using True by (metis div_mult_mod_eq)
  with True assms show ?thesis
    by (auto simp: put_bit_def bit_simps)
qed (use assms in \<open>auto simp: put_bit_def\<close>)

lemma bm_view_put:
  assumes "bm_wf m" "i < bm_size m"
  shows "bm_view (m\<lparr>bm_bits := put_bit i v (bm_bits m)\<rparr>) = (bm_view m)[i := v]"
proof (rule nth_equalityI)
  fix j assume "j < length (bm_view (m\<lparr>bm_bits := put_bit i v (bm_bits m)\<rparr>))"
  then have j: "j < bm_size m" by (simp add: bm_size_def)
  have "i div 8 < length (bm_bits m)" "j div 8 < length (bm_bits m)"
    using assms j by (auto simp: bm_wf_def bm_size_def)
  then show "bm_view (m\<lparr>bm_bits := put_bit i v (bm_bits m)\<rparr>) ! j = (bm_view m)[i := v] ! j"
    using j assms(2) put_bit_bit [of i "bm_bits m" j v]
    by (simp add: nth_bm_view nth_list_update bm_size_def)
qed (simp add: bm_size_def)

lemma bm_wf_put: "bm_wf m \<Longrightarrow> bm_wf (m\<lparr>bm_bits := put_bit i v (bm_bits m)\<rparr>)"
  by (simp add: bm_wf_def bm_size_def put_bit_def)

subsection \<open>Scanning: first fit\<close>

definition free_run :: "bool list \<Rightarrow> nat \<Rightarrow> nat \<Rightarrow> bool" where
  "free_run xs n k \<longleftrightarrow> k + n \<le> length xs \<and> (\<forall>j<n. \<not> xs ! (k + j))"

definition first_run :: "bool list \<Rightarrow> nat \<Rightarrow> nat \<Rightarrow> bool" where
  "first_run xs n k \<longleftrightarrow> free_run xs n k \<and> (\<forall>k'<k. \<not> free_run xs n k')"

definition set_run :: "nat \<Rightarrow> nat \<Rightarrow> bool list \<Rightarrow> bool list" where
  "set_run k n xs = map (\<lambda>i. xs ! i \<or> (k \<le> i \<and> i < k + n)) [0..<length xs]"

lemma length_set_run [simp]: "length (set_run k n xs) = length xs"
  by (simp add: set_run_def)

lemma nth_set_run [simp]:
  "i < length xs \<Longrightarrow> set_run k n xs ! i \<longleftrightarrow> xs ! i \<or> (k \<le> i \<and> i < k + n)"
  by (simp add: set_run_def)

lemma set_run_0 [simp]: "set_run k 0 xs = xs"
  by (rule nth_equalityI) auto

lemma set_run_1: "k < length xs \<Longrightarrow> set_run k (Suc 0) xs = xs[k := True]"
  by (rule nth_equalityI) (auto simp: nth_list_update split: if_splits)

lemma set_run_Suc: "set_run (Suc k) n (xs[k := True]) = set_run k (Suc n) xs"
proof (rule nth_equalityI)
  fix i assume "i < length (set_run (Suc k) n (xs[k := True]))"
  then show "set_run (Suc k) n (xs[k := True]) ! i = set_run k (Suc n) xs ! i"
    by (cases "k = i") auto
qed simp

text \<open>The state of the first loop at position \<open>p\<close> with counter \<open>c\<close>.\<close>

definition scan_inv :: "bool list \<Rightarrow> nat \<Rightarrow> nat \<Rightarrow> nat \<Rightarrow> bool" where
  "scan_inv xs n p c \<longleftrightarrow> c \<le> p \<and> c < n \<and> p \<le> length xs
     \<and> (\<forall>i. p - c \<le> i \<and> i < p \<longrightarrow> \<not> xs ! i)
     \<and> (c < p \<longrightarrow> xs ! (p - c - 1))
     \<and> (\<forall>k. k + n \<le> p \<longrightarrow> \<not> free_run xs n k)"

lemma scan_inv_used:
  assumes inv: "scan_inv xs n p c" and p: "p < length xs" "xs ! p"
  shows "scan_inv xs n (Suc p) 0"
proof -
  have "\<not> free_run xs n k" if "k + n \<le> Suc p" for k
  proof (cases "k + n = Suc p")
    case True
    then have "k + (n - 1) = p" "n - 1 < n" using inv by (auto simp: scan_inv_def)
    then show ?thesis using p(2) unfolding free_run_def by metis
  qed (use that inv in \<open>auto simp: scan_inv_def\<close>)
  then show ?thesis
    using inv p by (auto simp: scan_inv_def)
qed

lemma scan_inv_free:
  assumes inv: "scan_inv xs n p c" and p: "p < length xs" "\<not> xs ! p" and c: "Suc c < n"
  shows "scan_inv xs n (Suc p) (Suc c)"
proof -
  have "\<not> free_run xs n k" if k: "k + n \<le> Suc p" for k
  proof (cases "k + n = Suc p")
    case True
    with c have "c < p" by simp
    with inv have u: "xs ! (p - c - 1)" by (simp add: scan_inv_def)
    have "k + (n - c - 2) = p - c - 1" "n - c - 2 < n" using True c \<open>c < p\<close> by auto
    with u show ?thesis unfolding free_run_def by metis
  qed (use k inv in \<open>auto simp: scan_inv_def\<close>)
  then show ?thesis
    using inv p c by (auto simp: scan_inv_def less_Suc_eq)
qed

lemma scan_inv_found:
  assumes inv: "scan_inv xs n p c" and p: "p < length xs" "\<not> xs ! p" and c: "Suc c = n"
  shows "first_run xs n (Suc p - n)"
proof -
  have "\<not> xs ! (Suc p - n + j)" if "j < n" for j
  proof (cases "Suc p - n + j = p")
    case False
    with that c inv have "p - c \<le> Suc p - n + j \<and> Suc p - n + j < p"
      by (auto simp: scan_inv_def)
    with inv show ?thesis unfolding scan_inv_def by blast
  qed (use p in simp)
  moreover have "\<not> free_run xs n k'" if "k' < Suc p - n" for k'
    using inv that c by (auto simp: scan_inv_def)
  ultimately show ?thesis
    using inv p c by (auto simp: first_run_def free_run_def scan_inv_def)
qed

lemma scan_find_spec:
  assumes "bm_wf m" "left + p = bm_size m" "scan_inv (bm_view m) (unat count) p c"
  shows "(\<exists>k. scan_find m count left (of_nat p) (of_nat c) = Some (int k)
              \<and> first_run (bm_view m) (unat count) k)
       \<or> (scan_find m count left (of_nat p) (of_nat c) = Some EOF
              \<and> (\<forall>k. \<not> free_run (bm_view m) (unat count) k))"
  using assms
proof (induction left arbitrary: p c)
  case 0
  then show ?case by (auto simp: scan_inv_def free_run_def)
next
  case (Suc left)
  let ?xs = "bm_view m" and ?n = "unat count"
  have p: "p < bm_size m" using Suc.prems(2) by simp
  have small: "bm_size m < 2147483648" using \<open>bm_wf m\<close> by (simp add: bm_wf_def)
  have test: "bitmap_test m (bm_offset m + of_nat p) = Some (?xs ! p)"
    using bitmap_test_view [OF \<open>bm_wf m\<close> p] by (simp add: bm_index_def)
  have cp: "c \<le> p" "c < ?n" using Suc.prems(3) by (auto simp: scan_inv_def)
  have next_p: "of_nat p + 1 = (of_nat (Suc p) :: u32)" by simp
  have next_c: "of_nat c + 1 = (of_nat (Suc c) :: u32)" by simp
  have un: "unat (of_nat (Suc c) :: u32) = Suc c"
    using cp p small by (intro unat_of_nat32) simp
  have eqn: "(of_nat (Suc c) = count) = (Suc c = ?n)"
    by (simp only: word_unat_eq_iff un)
  show ?case
  proof (cases "?xs ! p")
    case True
    then have inv: "scan_inv ?xs ?n (Suc p) 0"
      using scan_inv_used [OF Suc.prems(3)] p by simp
    have "count \<noteq> 0" using cp by auto
    with True test have "scan_find m count (Suc left) (of_nat p) (of_nat c)
        = scan_find m count left (of_nat (Suc p)) (of_nat 0)"
      by (simp add: Let_def add.commute)
    then show ?thesis
      using Suc.IH [OF \<open>bm_wf m\<close> _ inv] Suc.prems(2) by simp
  next
    case False
    show ?thesis
    proof (cases "Suc c = ?n")
      case True
      have count: "count = of_nat ?n" by simp
      have "of_nat (Suc p) - count = (of_nat (Suc p - ?n) :: u32)"
        by (subst count) (use cp True in \<open>simp add: of_nat_diff\<close>)
      moreover have "sint (of_nat (Suc p - ?n) :: u32) = int (Suc p - ?n)"
        using p small by (simp add: signed_of_nat signed_take_bit_int_eq_self)
      ultimately have "scan_find m count (Suc left) (of_nat p) (of_nat c)
          = Some (int (Suc p - ?n))"
        using False test True eqn next_p next_c by (simp add: Let_def del: of_nat_Suc)
      then show ?thesis
        using scan_inv_found [OF Suc.prems(3) _ False True] p by auto
    next
      case no: False
      with cp have "Suc c < ?n" by simp
      then have inv: "scan_inv ?xs ?n (Suc p) (Suc c)"
        using scan_inv_free [OF Suc.prems(3) _ False] p by simp
      have "scan_find m count (Suc left) (of_nat p) (of_nat c)
          = scan_find m count left (of_nat (Suc p)) (of_nat (Suc c))"
        using False test no eqn next_p next_c by (simp add: Let_def del: of_nat_Suc)
      then show ?thesis
        using Suc.IH [OF \<open>bm_wf m\<close> _ inv] Suc.prems(2) by (simp del: of_nat_Suc)
    qed
  qed
qed

lemma scan_mark_spec:
  assumes "bm_wf m" "k + n \<le> bm_size m"
  shows "\<exists>bs. scan_mark m n (of_nat k) = Some (m\<lparr>bm_bits := bs\<rparr>)
            \<and> bm_view (m\<lparr>bm_bits := bs\<rparr>) = set_run k n (bm_view m)
            \<and> length bs = length (bm_bits m)"
  using assms
proof (induction n arbitrary: m k)
  case 0
  then show ?case by (intro exI [of _ "bm_bits m"]) simp
next
  case (Suc n)
  let ?m = "m\<lparr>bm_bits := put_bit k True (bm_bits m)\<rparr>"
  have k: "k < bm_size m" using Suc.prems by simp
  have set: "bitmap_set m (bm_offset m + of_nat k) True = Some ?m"
    using bitmap_set_eq [OF Suc.prems(1) k] by (simp add: bm_index_def)
  have wf: "bm_wf ?m" using Suc.prems(1) by (rule bm_wf_put)
  have "Suc k + n \<le> bm_size ?m" using Suc.prems(2) by (simp add: bm_size_def)
  from Suc.IH [OF wf this] obtain bs where bs:
    "scan_mark ?m n (of_nat (Suc k)) = Some (?m\<lparr>bm_bits := bs\<rparr>)"
    "bm_view (?m\<lparr>bm_bits := bs\<rparr>) = set_run (Suc k) n (bm_view ?m)"
    "length bs = length (bm_bits ?m)" by blast
  then show ?case
    using set bm_view_put [OF Suc.prems(1) k, of True]
    by (intro exI [of _ bs]) (simp add: set_run_Suc add.commute put_bit_def)
qed

lemma bitmap_scan_cases:
  assumes "bm_wf m" "0 < count"
  shows "(\<exists>k bs. bitmap_scan m count = Some (int (unat (bm_offset m) + k), m\<lparr>bm_bits := bs\<rparr>)
              \<and> first_run (bm_view m) (unat count) k
              \<and> bm_view (m\<lparr>bm_bits := bs\<rparr>) = set_run k (unat count) (bm_view m)
              \<and> length bs = length (bm_bits m))
       \<or> (bitmap_scan m count = Some (EOF, m)
              \<and> (\<forall>k. \<not> free_run (bm_view m) (unat count) k))"
proof -
  let ?n = "unat count"
  have small: "bm_size m < 2147483648" "8 * unat (bm_length m) < 4294967296"
    using assms(1) by (auto simp: bm_wf_def bm_size_def)
  have iters: "unat (bm_length m * 8) = bm_size m"
    using small by (simp add: unat_word_ariths bm_size_def mult.commute)
  have n0: "0 < ?n" using assms(2) by (simp add: unat_gt_0 word_neq_0_conv)
  then have "scan_inv (bm_view m) ?n 0 0"
    by (simp add: scan_inv_def)
  from scan_find_spec [OF assms(1) _ this, of "bm_size m"]
  consider k where "scan_find m count (bm_size m) 0 0 = Some (int k)" "first_run (bm_view m) ?n k"
    | "scan_find m count (bm_size m) 0 0 = Some EOF" "\<forall>k. \<not> free_run (bm_view m) ?n k"
    by (auto simp del: EOF_val)
  then show ?thesis
  proof cases
    case 1
    then have le: "k + ?n \<le> bm_size m" by (simp add: first_run_def free_run_def)
    from scan_mark_spec [OF assms(1) this] obtain bs where bs:
      "scan_mark m ?n (of_nat k) = Some (m\<lparr>bm_bits := bs\<rparr>)"
      "bm_view (m\<lparr>bm_bits := bs\<rparr>) = set_run k ?n (bm_view m)" "length bs = length (bm_bits m)"
      by blast
    have "k < bm_size m" using le n0 by simp
    then have "unat (of_nat k + bm_offset m) = unat (bm_offset m) + k"
      using bm_index_unat [OF assms(1)] by (simp add: bm_index_def add.commute)
    then have "sint (of_nat k + bm_offset m) = int (unat (bm_offset m) + k)"
      using \<open>k < bm_size m\<close> assms(1) by (simp add: sint_unat32 bm_wf_def)
    then show ?thesis
      using 1 bs iters by (auto simp: bitmap_scan_def)
  next
    case 2
    then show ?thesis using iters by (auto simp: bitmap_scan_def)
  qed
qed

subsection \<open>What the users of a bitmap rely on\<close>

locale bit_set =
  fixes view :: "'m \<Rightarrow> bool list"
    and base :: "'m \<Rightarrow> nat"
    and wf :: "'m \<Rightarrow> bool"
    and test :: "'m \<Rightarrow> u32 \<Rightarrow> bool option"
    and put :: "'m \<Rightarrow> u32 \<Rightarrow> bool \<Rightarrow> 'm option"
    and scan :: "'m \<Rightarrow> u32 \<Rightarrow> (int \<times> 'm) option"
  assumes test_view: "\<lbrakk>wf m; i < length (view m)\<rbrakk>
      \<Longrightarrow> test m (of_nat (base m + i)) = Some (view m ! i)"
    and put_view: "\<lbrakk>wf m; i < length (view m)\<rbrakk>
      \<Longrightarrow> \<exists>m'. put m (of_nat (base m + i)) v = Some m' \<and> view m' = (view m)[i := v]
               \<and> base m' = base m \<and> wf m'"
    and scan_view: "\<lbrakk>wf m; 0 < n\<rbrakk>
      \<Longrightarrow> (\<exists>k m'. scan m n = Some (int (base m + k), m') \<and> first_run (view m) (unat n) k
               \<and> view m' = set_run k (unat n) (view m) \<and> base m' = base m \<and> wf m')
        \<or> (scan m n = Some (EOF, m) \<and> (\<forall>k. \<not> free_run (view m) (unat n) k))"
begin

lemma scan_returns: "\<lbrakk>wf m; 0 < n\<rbrakk> \<Longrightarrow> \<exists>r m'. scan m n = Some (r, m') \<and> wf m'"
  using scan_view [of m n] by blast

lemma scan_hit:
  assumes "wf m" "0 < n" "scan m n = Some (r, m')" "r \<noteq> EOF"
  obtains k where "r = int (base m + k)" "first_run (view m) (unat n) k"
    "view m' = set_run k (unat n) (view m)" "base m' = base m" "wf m'"
  using scan_view [OF assms(1,2)] assms(3,4) by auto

lemma scan_miss:
  "\<lbrakk>wf m; 0 < n; scan m n = Some (EOF, m')\<rbrakk> \<Longrightarrow> m' = m \<and> (\<forall>k. \<not> free_run (view m) (unat n) k)"
  using scan_view [of m n] by auto

text \<open>A second allocation never overlaps the first.\<close>

lemma scan_disjoint:
  assumes m: "wf m" "0 < n" "0 < n'"
    and s1: "scan m n = Some (r, m')" "r \<noteq> EOF"
    and s2: "scan m' n' = Some (r', m'')" "r' \<noteq> EOF"
  shows "r + uint n \<le> r' \<or> r' + uint n' \<le> r"
proof -
  obtain k where k: "r = int (base m + k)" "first_run (view m) (unat n) k"
      "view m' = set_run k (unat n) (view m)" "base m' = base m" "wf m'"
    using m(1,2) s1 by (rule scan_hit)
  obtain k' where k': "r' = int (base m' + k')" "first_run (view m') (unat n') k'"
    using k(5) m(3) s2 by (rule scan_hit)
  have f: "k + unat n \<le> length (view m)" "\<forall>j<unat n. \<not> view m ! (k + j)"
      "k' + unat n' \<le> length (view m)" "\<forall>j<unat n'. \<not> set_run k (unat n) (view m) ! (k' + j)"
    using k(2,3) k'(2) by (auto simp: first_run_def free_run_def)
  have "k + unat n \<le> k' \<or> k' + unat n' \<le> k"
  proof (rule ccontr)
    assume a: "\<not> (k + unat n \<le> k' \<or> k' + unat n' \<le> k)"
    define i where "i = max k k'"
    have "0 < unat n" "0 < unat n'"
      using m(2,3) by (auto simp: unat_gt_0 word_neq_0_conv)
    then have i: "k \<le> i" "i < k + unat n" "k' \<le> i" "i - k' < unat n'" "i < length (view m)"
      using a f(1) unfolding i_def by linarith+
    with f(4) have "\<not> set_run k (unat n) (view m) ! i" by fastforce
    with i show False by simp
  qed
  then show ?thesis
    using k(1,4) k'(1) by (auto simp: uint_nat simp del: of_nat_unat)
qed

text \<open>Allocating one bit and giving it back restores the set.\<close>

lemma scan_one:
  assumes "wf m" "scan m 1 = Some (r, m')" "r \<noteq> EOF"
  obtains k where "r = int (base m + k)" "k < length (view m)" "\<not> view m ! k"
    "\<forall>i<k. view m ! i" "view m' = (view m)[k := True]" "base m' = base m" "wf m'"
proof -
  obtain k where k: "r = int (base m + k)" "first_run (view m) (unat (1 :: u32)) k"
      "view m' = set_run k (unat (1 :: u32)) (view m)" "base m' = base m" "wf m'"
    using assms(1) _ assms(2,3) by (rule scan_hit) simp
  have "\<forall>i<k. view m ! i" "k < length (view m)" "\<not> view m ! k"
    using k(2) by (auto simp: first_run_def free_run_def)
  moreover have "view m' = (view m)[k := True]"
    using k(3) \<open>k < length (view m)\<close> by (simp add: set_run_1)
  ultimately show thesis using k that by blast
qed

lemma scan_put_restores:
  assumes "wf m" "scan m 1 = Some (r, m')" "r \<noteq> EOF"
  shows "test m' (of_nat (nat r)) = Some True
       \<and> (\<exists>m''. put m' (of_nat (nat r)) False = Some m'' \<and> view m'' = view m \<and> wf m'')"
proof -
  obtain k where k: "r = int (base m + k)" "k < length (view m)" "\<not> view m ! k"
      "view m' = (view m)[k := True]" "base m' = base m" "wf m'"
    using assms by (rule scan_one)
  then show ?thesis
    using test_view [of m' k] put_view [of m' k False] by (auto simp: list_update_same_conv)
qed

lemma scan_one_full:
  assumes "wf m" "scan m 1 = Some (EOF, m')" "i < length (view m)"
  shows "view m ! i"
  using scan_miss [OF assms(1) _ assms(2)] assms(3) by (auto simp: free_run_def)

end

interpretation bitmap_set: bit_set bm_view "\<lambda>m. unat (bm_offset m)" bm_wf
    bitmap_test bitmap_set bitmap_scan
proof unfold_locales
  show "bitmap_test m (of_nat (unat (bm_offset m) + i)) = Some (bm_view m ! i)"
    if "bm_wf m" "i < length (bm_view m)" for m i
    using bitmap_test_view [of m i] that by (simp add: bm_index_def)
  show "\<exists>m'. bitmap_set m (of_nat (unat (bm_offset m) + i)) v = Some m'
      \<and> bm_view m' = (bm_view m)[i := v] \<and> unat (bm_offset m') = unat (bm_offset m) \<and> bm_wf m'"
    if "bm_wf m" "i < length (bm_view m)" for m i v
    using bitmap_set_eq [of m i v] bm_view_put [of m i v] bm_wf_put [of m i v] that
    by (simp add: bm_index_def)
  show "(\<exists>k m'. bitmap_scan m n = Some (int (unat (bm_offset m) + k), m')
        \<and> first_run (bm_view m) (unat n) k \<and> bm_view m' = set_run k (unat n) (bm_view m)
        \<and> unat (bm_offset m') = unat (bm_offset m) \<and> bm_wf m')
      \<or> (bitmap_scan m n = Some (EOF, m) \<and> (\<forall>k. \<not> free_run (bm_view m) (unat n) k))"
    if "bm_wf m" "0 < n" for m n
    using bitmap_scan_cases [OF that] that(1) by (fastforce simp: bm_wf_def bm_size_def)
qed

subsection \<open>Properties\<close>

text \<open>C28: On a well-formed bitmap \<open>bitmap_scan\<close> returns for every positive count. It
  finds the lowest run of \<open>count\<close> free bits, returns its index, and marks exactly that
  run and leaves length and offset alone; when there is no such run it returns \<open>EOF\<close> and
  changes nothing.\<close>

theorem bitmap_scan_first_fit:
  assumes "bm_wf m" and "0 < count"
  shows "(\<exists>k bs. bitmap_scan m count = Some (int (unat (bm_offset m) + k), m\<lparr>bm_bits := bs\<rparr>)
              \<and> first_run (bm_view m) (unat count) k
              \<and> bm_view (m\<lparr>bm_bits := bs\<rparr>) = set_run k (unat count) (bm_view m)
              \<and> length bs = length (bm_bits m))
       \<or> (bitmap_scan m count = Some (EOF, m)
              \<and> (\<forall>k. \<not> free_run (bm_view m) (unat count) k))"
  using assms by (rule bitmap_scan_cases)

definition sample_map :: bitmap where
  "sample_map = \<lparr>bm_bits = [255, 5, 0], bm_length = 3, bm_offset = 256\<rparr>"

lemma sample_map_wf: "bm_wf sample_map"
  by (simp add: sample_map_def bm_wf_def bm_size_def)

lemma sample_map_scan1:
  "bitmap_scan sample_map 1 = Some (265, sample_map\<lparr>bm_bits := [255, 7, 0]\<rparr>)"
  by code_simp

theorem bitmap_scan_first_fit_witness:
  "\<exists>k bs. bitmap_scan sample_map 2 = Some (int (256 + k), sample_map\<lparr>bm_bits := bs\<rparr>)
         \<and> first_run (bm_view sample_map) 2 k
         \<and> bm_view (sample_map\<lparr>bm_bits := bs\<rparr>) = set_run k 2 (bm_view sample_map)"
proof -
  have "bitmap_scan sample_map 2 \<noteq> Some (EOF, sample_map)" by code_simp
  moreover have "unat (bm_offset sample_map) = 256" "unat (2 :: u32) = 2"
    by (simp_all add: sample_map_def)
  ultimately show ?thesis
    using bitmap_scan_first_fit [OF sample_map_wf, of 2] by auto
qed

text \<open>Two successive allocations from one bitmap never overlap.\<close>

theorem bitmap_allocs_disjoint:
  assumes "bm_wf m" "0 < n" "0 < n'"
    and "bitmap_scan m n = Some (r, m')" "r \<noteq> EOF"
    and "bitmap_scan m' n' = Some (r', m'')" "r' \<noteq> EOF"
  shows "r + uint n \<le> r' \<or> r' + uint n' \<le> r"
  using assms by (rule bitmap_set.scan_disjoint)

theorem bitmap_allocs_disjoint_witness:
  "\<exists>m' m''. bitmap_scan sample_map 1 = Some (265, m') \<and> bitmap_scan m' 3 = Some (267, m'')
     \<and> ((265 :: int) + uint (1 :: u32) \<le> 267 \<or> (267 :: int) + uint (3 :: u32) \<le> 265)"
proof -
  have s2: "bitmap_scan (sample_map\<lparr>bm_bits := [255, 7, 0]\<rparr>) 3
      = Some (267, sample_map\<lparr>bm_bits := [255, 63, 0]\<rparr>)"
    by code_simp
  have "(265 :: int) + uint (1 :: u32) \<le> 267 \<or> (267 :: int) + uint (3 :: u32) \<le> 265"
    by (rule bitmap_allocs_disjoint [OF sample_map_wf _ _ sample_map_scan1 _ s2]) simp_all
  with s2 sample_map_scan1 show ?thesis by blast
qed

text \<open>A single allocated bit tests as used, and clearing it gives back the bitmap's
  former contents.\<close>

theorem bitmap_alloc_free_roundtrip:
  assumes "bm_wf m" "bitmap_scan m 1 = Some (r, m')" "r \<noteq> EOF"
  shows "bitmap_test m' (of_nat (nat r)) = Some True
       \<and> (\<exists>m''. bitmap_set m' (of_nat (nat r)) False = Some m''
              \<and> bm_view m'' = bm_view m \<and> bm_wf m'')"
  using assms by (rule bitmap_set.scan_put_restores)

theorem bitmap_alloc_free_roundtrip_witness:
  "bitmap_test (sample_map\<lparr>bm_bits := [255, 7, 0]\<rparr>) (of_nat (nat 265)) = Some True
   \<and> (\<exists>m''. bitmap_set (sample_map\<lparr>bm_bits := [255, 7, 0]\<rparr>) (of_nat (nat 265)) False = Some m''
          \<and> bm_view m'' = bm_view sample_map \<and> bm_wf m'')"
  by (rule bitmap_alloc_free_roundtrip [OF sample_map_wf sample_map_scan1]) simp

end
