(* ===== verification/DList.thy ===== *)
theory DList
  imports Prelude "HOL-Library.Multiset"
begin

section \<open>Doubly linked lists: \<open>lib/list.c\<close>\<close>

text \<open>
  The nodes live in an explicit store from addresses to \<open>list_node_t\<close> records, so that
  every aliasing of the C pointers is visible; reading or writing through an address that
  holds no node has no result. A \<open>list_t\<close> at address \<open>l\<close> is its two sentinel nodes,
  \<open>head\<close> at \<open>l\<close> and \<open>tail\<close> eight bytes further. \<open>dlist h l xs\<close> says that the
  list at \<open>l\<close> links the nodes \<open>xs\<close> in this order, forwards and backwards. The
  refinement lemmas state each C function as an operation on \<open>xs\<close>; the other components
  use these list operations.
\<close>

subsection \<open>The store\<close>

type_synonym ptr = nat

record lnode =
  prev :: ptr
  nxt :: ptr

type_synonym lheap = "ptr \<rightharpoonup> lnode"

definition lhead :: "ptr \<Rightarrow> ptr" where "lhead l = l"
definition ltail :: "ptr \<Rightarrow> ptr" where "ltail l = l + 8"

definition set_prev :: "lheap \<Rightarrow> ptr \<Rightarrow> ptr \<Rightarrow> lheap option" where
  "set_prev h p v = do { n \<leftarrow> h p; Some (h(p \<mapsto> n\<lparr>prev := v\<rparr>)) }"

definition set_nxt :: "lheap \<Rightarrow> ptr \<Rightarrow> ptr \<Rightarrow> lheap option" where
  "set_nxt h p v = do { n \<leftarrow> h p; Some (h(p \<mapsto> n\<lparr>nxt := v\<rparr>)) }"

subsection \<open>The C functions\<close>

definition list_init :: "lheap \<Rightarrow> ptr \<Rightarrow> lheap option" where
  "list_init h l = do {
     h \<leftarrow> set_prev h (lhead l) 0;
     h \<leftarrow> set_nxt h (ltail l) 0;
     h \<leftarrow> set_nxt h (lhead l) (ltail l);
     set_prev h (ltail l) (lhead l) }"

definition list_insert_before :: "lheap \<Rightarrow> ptr \<Rightarrow> ptr \<Rightarrow> lheap option" where
  "list_insert_before h anchor node = do {
     a \<leftarrow> h anchor;
     h \<leftarrow> set_prev h node (prev a);
     h \<leftarrow> set_nxt h node anchor;
     a \<leftarrow> h anchor;
     h \<leftarrow> set_nxt h (prev a) node;
     set_prev h anchor node }"

definition list_insert_after :: "lheap \<Rightarrow> ptr \<Rightarrow> ptr \<Rightarrow> lheap option" where
  "list_insert_after h anchor node = do {
     h \<leftarrow> set_prev h node anchor;
     a \<leftarrow> h anchor;
     h \<leftarrow> set_nxt h node (nxt a);
     a \<leftarrow> h anchor;
     h \<leftarrow> set_prev h (nxt a) node;
     set_nxt h anchor node }"

text \<open>The search loop; without a path to \<open>tail\<close> it has no result.\<close>

partial_function (option) search_from :: "lheap \<Rightarrow> ptr \<Rightarrow> ptr \<Rightarrow> ptr \<Rightarrow> bool option" where
  "search_from h tail next node =
     (if next = tail then Some False
      else if next = node then Some True
      else do { n \<leftarrow> h next; search_from h tail (nxt n) node })"

definition list_search :: "lheap \<Rightarrow> ptr \<Rightarrow> ptr \<Rightarrow> bool option" where
  "list_search h l node = do { hd \<leftarrow> h (lhead l); search_from h (ltail l) (nxt hd) node }"

definition list_empty :: "lheap \<Rightarrow> ptr \<Rightarrow> bool option" where
  "list_empty h l = do { hd \<leftarrow> h (lhead l); Some (nxt hd = ltail l) }"

definition list_remove :: "lheap \<Rightarrow> ptr \<Rightarrow> lheap option" where
  "list_remove h node = do {
     n \<leftarrow> h node;
     c_assert (prev n \<noteq> 0);
     c_assert (nxt n \<noteq> 0);
     h \<leftarrow> set_nxt h (prev n) (nxt n);
     n \<leftarrow> h node;
     h \<leftarrow> set_prev h (nxt n) (prev n);
     h \<leftarrow> set_nxt h node 0;
     set_prev h node 0 }"

definition list_push :: "lheap \<Rightarrow> ptr \<Rightarrow> ptr \<Rightarrow> lheap option" where
  "list_push h l node = do {
     found \<leftarrow> list_search h l node;
     c_assert (\<not> found);
     list_insert_after h (lhead l) node }"

definition list_pop :: "lheap \<Rightarrow> ptr \<Rightarrow> (ptr \<times> lheap) option" where
  "list_pop h l = do {
     empty \<leftarrow> list_empty h l;
     c_assert (\<not> empty);
     hd \<leftarrow> h (lhead l);
     h \<leftarrow> list_remove h (nxt hd);
     Some (nxt hd, h) }"

definition list_pushback :: "lheap \<Rightarrow> ptr \<Rightarrow> ptr \<Rightarrow> lheap option" where
  "list_pushback h l node = do {
     found \<leftarrow> list_search h l node;
     c_assert (\<not> found);
     list_insert_before h (ltail l) node }"

definition list_popback :: "lheap \<Rightarrow> ptr \<Rightarrow> (ptr \<times> lheap) option" where
  "list_popback h l = do {
     empty \<leftarrow> list_empty h l;
     c_assert (\<not> empty);
     tl \<leftarrow> h (ltail l);
     h \<leftarrow> list_remove h (prev tl);
     Some (prev tl, h) }"

partial_function (option) size_from :: "lheap \<Rightarrow> ptr \<Rightarrow> ptr \<Rightarrow> u32 \<Rightarrow> u32 option" where
  "size_from h tail next sz =
     (if next = tail then Some sz
      else do { n \<leftarrow> h next; size_from h tail (nxt n) (sz + 1) })"

definition list_size :: "lheap \<Rightarrow> ptr \<Rightarrow> u32 option" where
  "list_size h l = do { hd \<leftarrow> h (lhead l); size_from h (ltail l) (nxt hd) 0 }"

text \<open>
  \<open>element_node_key\<close> reads the signed word at a fixed offset from a node; \<open>key\<close> is this
  read. The loop looks for the first node with a greater key, the tail otherwise.
\<close>

partial_function (option) anchor_from ::
    "lheap \<Rightarrow> (ptr \<Rightarrow> int) \<Rightarrow> ptr \<Rightarrow> int \<Rightarrow> ptr \<Rightarrow> ptr option" where
  "anchor_from h key tail k p =
     (if p = tail then Some tail
      else if k < key p then Some p
      else do { n \<leftarrow> h p; anchor_from h key tail k (nxt n) })"

definition list_insert_sort :: "lheap \<Rightarrow> (ptr \<Rightarrow> int) \<Rightarrow> ptr \<Rightarrow> ptr \<Rightarrow> lheap option" where
  "list_insert_sort h key l node = do {
     hd \<leftarrow> h (lhead l);
     anchor \<leftarrow> anchor_from h key (ltail l) (key node) (nxt hd);
     n \<leftarrow> h node;
     c_assert (nxt n = 0);
     c_assert (prev n = 0);
     list_insert_before h anchor node }"

subsection \<open>Links\<close>

definition nxt_of :: "lheap \<Rightarrow> ptr \<Rightarrow> ptr option" where
  "nxt_of h p = map_option nxt (h p)"

definition prev_of :: "lheap \<Rightarrow> ptr \<Rightarrow> ptr option" where
  "prev_of h p = map_option prev (h p)"

definition linked :: "lheap \<Rightarrow> ptr \<Rightarrow> ptr \<Rightarrow> bool" where
  "linked h p q \<longleftrightarrow> nxt_of h p = Some q \<and> prev_of h q = Some p"

text \<open>The nodes of a list with its sentinels, and the list predicate.\<close>

definition dpath :: "ptr \<Rightarrow> ptr list \<Rightarrow> ptr list" where
  "dpath l xs = lhead l # xs @ [ltail l]"

definition dlist :: "lheap \<Rightarrow> ptr \<Rightarrow> ptr list \<Rightarrow> bool" where
  "dlist h l xs \<longleftrightarrow> distinct (dpath l xs) \<and> 0 \<notin> set (dpath l xs)
     \<and> successively (linked h) (dpath l xs)
     \<and> prev_of h (lhead l) = Some 0 \<and> nxt_of h (ltail l) = Some 0"

lemma nxt_of_Some: "nxt_of h p = Some q \<longleftrightarrow> (\<exists>n. h p = Some n \<and> nxt n = q)"
  by (auto simp: nxt_of_def)

lemma prev_of_Some: "prev_of h p = Some q \<longleftrightarrow> (\<exists>n. h p = Some n \<and> prev n = q)"
  by (auto simp: prev_of_def)

lemma nxt_of_upd [simp]:
  "nxt_of (h(p \<mapsto> n)) q = (if q = p then Some (nxt n) else nxt_of h q)"
  by (simp add: nxt_of_def)

lemma prev_of_upd [simp]:
  "prev_of (h(p \<mapsto> n)) q = (if q = p then Some (prev n) else prev_of h q)"
  by (simp add: prev_of_def)

lemma successively_linked_cong:
  assumes "\<And>x. x \<in> set (butlast ys) \<Longrightarrow> nxt_of h' x = nxt_of h x"
    and "\<And>x. x \<in> set (tl ys) \<Longrightarrow> prev_of h' x = prev_of h x"
  shows "successively (linked h') ys = successively (linked h) ys"
  using assms
proof (induction ys rule: induct_list012)
  case (3 x y zs)
  then have "successively (linked h') (y # zs) = successively (linked h) (y # zs)"
    by (intro "3.IH"(2)) (auto split: if_splits)
  moreover have "linked h' x y = linked h x y"
    using "3.prems" by (simp add: linked_def)
  ultimately show ?case by simp
qed auto

lemma successively_mid:
  "successively P (as @ p # q # bs) \<longleftrightarrow>
     successively P (as @ [p]) \<and> P p q \<and> successively P (q # bs)"
  by (induction as rule: induct_list012) (auto simp: successively_Cons)

subsection \<open>The two insertions and the removal on a path\<close>

lemma insert_between:
  assumes "distinct (as @ p # q # bs)" "n \<notin> set (as @ p # q # bs)" "h n \<noteq> None"
    and "successively (linked h) (as @ p # q # bs)"
  defines "h' \<equiv> h(p \<mapsto> (the (h p))\<lparr>nxt := n\<rparr>,
                 q \<mapsto> (the (h q))\<lparr>prev := n\<rparr>,
                 n \<mapsto> \<lparr>prev = p, nxt = q\<rparr>)"
  shows "list_insert_before h q n = Some h'" and "list_insert_after h p n = Some h'"
    and "successively (linked h') (as @ p # n # q # bs)"
proof -
  obtain P Q N where PQ: "h p = Some P" "nxt P = q" "h q = Some Q" "prev Q = p" "h n = Some N"
    using assms(3,4) by (auto simp: successively_mid linked_def nxt_of_Some prev_of_Some)
  have pp: "prev_of h p = Some (prev (the (h p)))" "nxt_of h q = Some (nxt (the (h q)))"
    using PQ by (simp_all add: prev_of_def nxt_of_def)
  have ne: "p \<noteq> q" "n \<noteq> p" "n \<noteq> q" using assms(1,2) by auto
  show "list_insert_before h q n = Some h'" "list_insert_after h p n = Some h'"
    using PQ ne unfolding h'_def
    by (auto simp: list_insert_before_def list_insert_after_def set_prev_def set_nxt_def
        fun_upd_twist intro!: ext)
  have s: "successively (linked h) (as @ [p])" "successively (linked h) (q # bs)"
    using assms(4) by (simp_all add: successively_mid)
  have "successively (linked h') (as @ [p])"
    using s(1) assms(1,2) unfolding h'_def
    by (subst successively_linked_cong [where h = h]) (auto simp: butlast_append tl_append pp split: list.splits)
  moreover have "successively (linked h') (q # bs)"
    using s(2) assms(1,2) unfolding h'_def
    by (subst successively_linked_cong [where h = h])
      (auto dest: in_set_butlastD simp: pp split: if_splits)
  moreover have "linked h' p n" "linked h' n q"
    using ne unfolding h'_def by (auto simp: linked_def)
  ultimately show "successively (linked h') (as @ p # n # q # bs)"
    by (simp add: successively_mid successively_Cons)
qed

lemma remove_between:
  assumes "distinct (as @ p # n # q # bs)" "p \<noteq> 0" "q \<noteq> 0"
    and "successively (linked h) (as @ p # n # q # bs)"
  defines "h' \<equiv> h(p \<mapsto> (the (h p))\<lparr>nxt := q\<rparr>,
                 q \<mapsto> (the (h q))\<lparr>prev := p\<rparr>,
                 n \<mapsto> \<lparr>prev = 0, nxt = 0\<rparr>)"
  shows "list_remove h n = Some h'"
    and "successively (linked h') (as @ p # q # bs)"
proof -
  obtain P Q N where PQ: "h p = Some P" "nxt P = n" "h q = Some Q" "prev Q = n"
      "h n = Some N" "prev N = p" "nxt N = q"
    using assms(4) by (auto simp: successively_mid successively_Cons linked_def nxt_of_Some prev_of_Some)
  have pp: "prev_of h p = Some (prev (the (h p)))" "nxt_of h q = Some (nxt (the (h q)))"
    using PQ by (simp_all add: prev_of_def nxt_of_def)
  have ne: "p \<noteq> q" "n \<noteq> p" "n \<noteq> q" using assms(1) by auto
  show "list_remove h n = Some h'"
    using PQ ne assms(2,3) unfolding h'_def
    by (auto simp: list_remove_def set_prev_def set_nxt_def fun_upd_twist intro!: ext)
  have s: "successively (linked h) (as @ [p])" "successively (linked h) (q # bs)"
    using assms(4) by (simp_all add: successively_mid successively_Cons)
  have "successively (linked h') (as @ [p])"
    using s(1) assms(1) unfolding h'_def
    by (subst successively_linked_cong [where h = h]) (auto simp: butlast_append tl_append pp split: list.splits)
  moreover have "successively (linked h') (q # bs)"
    using s(2) assms(1) unfolding h'_def
    by (subst successively_linked_cong [where h = h])
      (auto dest: in_set_butlastD simp: pp split: if_splits)
  moreover have "linked h' p q"
    using ne unfolding h'_def by (auto simp: linked_def)
  ultimately show "successively (linked h') (as @ p # q # bs)"
    by (simp add: successively_mid)
qed

subsection \<open>Each function on the list of nodes\<close>

lemma dlist_pathE:
  assumes "dlist h l xs"
  shows "distinct (dpath l xs)" "0 \<notin> set (dpath l xs)" "successively (linked h) (dpath l xs)"
    "prev_of h (lhead l) = Some 0" "nxt_of h (ltail l) = Some 0"
  using assms by (auto simp: dlist_def)

lemma dlist_head: "dlist h l xs \<Longrightarrow> \<exists>n. h (lhead l) = Some n \<and> nxt n = hd (xs @ [ltail l])"
  by (cases xs) (auto simp: dlist_def dpath_def successively_Cons linked_def nxt_of_Some)

lemma dlist_tail: "dlist h l xs \<Longrightarrow> \<exists>n. h (ltail l) = Some n \<and> prev n = last (lhead l # xs)"
  by (cases xs rule: rev_cases)
    (auto simp: dlist_def dpath_def successively_append_iff successively_Cons linked_def prev_of_Some
      split: if_splits)

lemma search_from_path:
  assumes "successively (linked h) (xs @ [t])" "t \<notin> set xs"
  shows "search_from h t (hd (xs @ [t])) node = Some (node \<in> set xs)"
  using assms
proof (induction xs)
  case Nil
  then show ?case by (simp add: search_from.simps)
next
  case (Cons x xs)
  then obtain n where "h x = Some n" "nxt n = hd (xs @ [t])"
    by (auto simp: successively_Cons linked_def nxt_of_Some)
  moreover have "successively (linked h) (xs @ [t])"
    using Cons.prems(1) by (auto simp: successively_Cons)
  ultimately show ?case
    using Cons by (auto simp: search_from.simps [of h t x])
qed

lemma dlist_suffix:
  assumes "dlist h l (ys @ zs)"
  shows "successively (linked h) (zs @ [ltail l])" "ltail l \<notin> set zs"
proof -
  have "successively (linked h) ((lhead l # ys) @ (zs @ [ltail l]))"
    using dlist_pathE(3) [OF assms] by (simp add: dpath_def)
  then show "successively (linked h) (zs @ [ltail l])"
    by (subst (asm) successively_append_iff) blast
  show "ltail l \<notin> set zs"
    using dlist_pathE(1) [OF assms] by (simp add: dpath_def)
qed

lemma list_search_dlist: "dlist h l xs \<Longrightarrow> list_search h l node = Some (node \<in> set xs)"
  using dlist_head [of h l xs] search_from_path [OF dlist_suffix [of h l "[]" xs, simplified]]
  by (auto simp: list_search_def)

lemma list_empty_dlist: "dlist h l xs \<Longrightarrow> list_empty h l = Some (xs = [])"
  using dlist_head [of h l xs] dlist_pathE(1) [of h l xs]
  by (cases xs) (auto simp: list_empty_def dpath_def)

lemma size_from_path:
  assumes "successively (linked h) (xs @ [t])" "t \<notin> set xs"
  shows "size_from h t (hd (xs @ [t])) sz = Some (sz + of_nat (length xs))"
  using assms
proof (induction xs arbitrary: sz)
  case Nil
  then show ?case by (simp add: size_from.simps)
next
  case (Cons x xs)
  then obtain n where "h x = Some n" "nxt n = hd (xs @ [t])"
    by (auto simp: successively_Cons linked_def nxt_of_Some)
  moreover have "successively (linked h) (xs @ [t])"
    using Cons.prems(1) by (auto simp: successively_Cons)
  ultimately show ?case
    using Cons by (auto simp: size_from.simps [of h t x] add.commute add.left_commute)
qed

lemma list_size_dlist: "dlist h l xs \<Longrightarrow> list_size h l = Some (of_nat (length xs))"
  using dlist_head [of h l xs] size_from_path [OF dlist_suffix [of h l "[]" xs, simplified]]
  by (auto simp: list_size_def)

text \<open>A node that can be linked: allocated, and not part of the list or its sentinels.\<close>

definition dfresh :: "lheap \<Rightarrow> ptr \<Rightarrow> ptr list \<Rightarrow> ptr \<Rightarrow> bool" where
  "dfresh h l xs n \<longleftrightarrow> n \<notin> set (dpath l xs) \<and> n \<noteq> 0 \<and> h n \<noteq> None"

text \<open>Cells outside the touched list stay as they are, and no cell disappears.\<close>

definition dframe :: "lheap \<Rightarrow> lheap \<Rightarrow> ptr set \<Rightarrow> bool" where
  "dframe h h' A \<longleftrightarrow> (\<forall>x. x \<notin> A \<longrightarrow> h' x = h x) \<and> dom h' = dom h"

lemma dlist_insert_before:
  assumes "dlist h l (ys @ zs)" "dfresh h l (ys @ zs) n"
  shows "\<exists>h'. list_insert_before h (hd (zs @ [ltail l])) n = Some h' \<and> dlist h' l (ys @ n # zs)
            \<and> dframe h h' (insert n (set (dpath l (ys @ zs))))"
proof -
  define as where "as = butlast (lhead l # ys)"
  define p where "p = last (lhead l # ys)"
  define q where "q = hd (zs @ [ltail l])"
  define bs where "bs = tl (zs @ [ltail l])"
  have split: "lhead l # ys = as @ [p]" "zs @ [ltail l] = q # bs"
    unfolding as_def p_def q_def bs_def by (simp, cases zs) simp_all
  have "dpath l (ys @ zs) = (lhead l # ys) @ (zs @ [ltail l])"
    and "dpath l (ys @ n # zs) = (lhead l # ys) @ n # (zs @ [ltail l])"
    by (simp_all add: dpath_def)
  then have path: "dpath l (ys @ zs) = as @ p # q # bs"
    and path': "dpath l (ys @ n # zs) = as @ p # n # q # bs"
    unfolding split by simp_all
  note dl = dlist_pathE [OF assms(1)]
  have n: "n \<notin> set (as @ p # q # bs)" "h n \<noteq> None" "n \<noteq> 0"
    using assms(2) by (auto simp: dfresh_def path)
  note ib = insert_between [OF dl(1) [unfolded path] n(1,2) dl(3) [unfolded path]]
  let ?h = "h(p \<mapsto> (the (h p))\<lparr>nxt := n\<rparr>, q \<mapsto> (the (h q))\<lparr>prev := n\<rparr>, n \<mapsto> \<lparr>prev = p, nxt = q\<rparr>)"
  obtain P Q where PQ: "h p = Some P" "h q = Some Q"
    using dl(3) by (auto simp: path successively_mid linked_def nxt_of_Some prev_of_Some)
  have hd_p: "lhead l \<in> set (as @ [p])" "lhead l \<noteq> q" "lhead l \<noteq> n"
    using dl(1) n(1) path by (auto simp: as_def p_def q_def dpath_def hd_append split: if_splits)
  have tl_q: "ltail l \<in> set (q # bs)" "ltail l \<noteq> p" "ltail l \<noteq> n"
    using dl(1) n(1) path by (auto simp: bs_def p_def q_def dpath_def split: if_splits)
  have "dlist ?h l (ys @ n # zs)"
    unfolding dlist_def path'
    using ib(3) dl n hd_p tl_q PQ by (auto simp: path prev_of_def nxt_of_def)
  moreover have "dframe h ?h (insert n (set (dpath l (ys @ zs))))"
    using PQ n by (auto simp: dframe_def path)
  ultimately show ?thesis
    using ib(1) unfolding q_def [symmetric] by blast
qed

lemma dlist_insert_after_head:
  assumes "dlist h l xs" "dfresh h l xs n"
  shows "list_insert_after h (lhead l) n = list_insert_before h (hd (xs @ [ltail l])) n"
proof -
  have path: "dpath l xs = [] @ lhead l # hd (xs @ [ltail l]) # tl (xs @ [ltail l])"
    by (cases xs) (auto simp: dpath_def)
  have "n \<notin> set (dpath l xs)" "h n \<noteq> None"
    using assms(2) by (auto simp: dfresh_def)
  then show ?thesis
    using insert_between(1,2) [of "[]" "lhead l" "hd (xs @ [ltail l])" "tl (xs @ [ltail l])" n h]
      dlist_pathE(1,3) [OF assms(1)] unfolding path by simp
qed

lemma dlist_remove:
  assumes "dlist h l (ys @ n # zs)"
  shows "\<exists>h'. list_remove h n = Some h' \<and> dlist h' l (ys @ zs) \<and> h' n = Some \<lparr>prev = 0, nxt = 0\<rparr>
            \<and> dframe h h' (set (dpath l (ys @ n # zs)))"
proof -
  define as where "as = butlast (lhead l # ys)"
  define p where "p = last (lhead l # ys)"
  define q where "q = hd (zs @ [ltail l])"
  define bs where "bs = tl (zs @ [ltail l])"
  have split: "lhead l # ys = as @ [p]" "zs @ [ltail l] = q # bs"
    unfolding as_def p_def q_def bs_def by (simp, cases zs) simp_all
  have "dpath l (ys @ zs) = (lhead l # ys) @ (zs @ [ltail l])"
    and "dpath l (ys @ n # zs) = (lhead l # ys) @ n # (zs @ [ltail l])"
    by (simp_all add: dpath_def)
  then have path: "dpath l (ys @ zs) = as @ p # q # bs"
    and path': "dpath l (ys @ n # zs) = as @ p # n # q # bs"
    unfolding split by simp_all
  note dl = dlist_pathE [OF assms]
  have nz: "p \<noteq> 0" "q \<noteq> 0" using dl(2) by (auto simp: path')
  note rb = remove_between [OF dl(1) [unfolded path'] nz dl(3) [unfolded path']]
  let ?h = "h(p \<mapsto> (the (h p))\<lparr>nxt := q\<rparr>, q \<mapsto> (the (h q))\<lparr>prev := p\<rparr>, n \<mapsto> \<lparr>prev = 0, nxt = 0\<rparr>)"
  obtain P Q N where PQ: "h p = Some P" "h q = Some Q" "h n = Some N"
    using dl(3) by (auto simp: path' successively_mid successively_Cons linked_def nxt_of_Some prev_of_Some)
  have hd_p: "lhead l \<noteq> q" "lhead l \<noteq> n"
    using dl(1) split by (auto simp: path' Cons_eq_append_conv)
  have tl_q: "ltail l \<noteq> p" "ltail l \<noteq> n"
    using dl(1) split by (auto simp: path' append_eq_Cons_conv)
  have "dlist ?h l (ys @ zs)"
    unfolding dlist_def path
    using rb(2) dl hd_p tl_q PQ by (auto simp: path' prev_of_def nxt_of_def)
  moreover have "dframe h ?h (set (dpath l (ys @ n # zs)))"
    using PQ by (auto simp: dframe_def path')
  ultimately show ?thesis
    using rb(1) by auto
qed

lemma anchor_from_path:
  assumes "successively (linked h) (xs @ [t])" "t \<notin> set xs"
  shows "anchor_from h key t k (hd (xs @ [t])) = Some (hd (dropWhile (\<lambda>x. key x \<le> k) xs @ [t]))"
  using assms
proof (induction xs)
  case Nil
  then show ?case by (simp add: anchor_from.simps)
next
  case (Cons x xs)
  then obtain n where "h x = Some n" "nxt n = hd (xs @ [t])"
    by (auto simp: successively_Cons linked_def nxt_of_Some)
  moreover have "successively (linked h) (xs @ [t])"
    using Cons.prems(1) by (auto simp: successively_Cons)
  ultimately show ?case
    using Cons by (auto simp: anchor_from.simps [of h key t k x])
qed

subsection \<open>The functions on sequences\<close>

text \<open>
  What the list functions do on the sequence of linked nodes, with their assertions. The
  other components work on these.
\<close>

definition seq_push :: "'a \<Rightarrow> 'a list \<Rightarrow> 'a list option" where
  [c_defs]: "seq_push x xs = do { c_assert (x \<notin> set xs); Some (x # xs) }"

definition seq_pushback :: "'a \<Rightarrow> 'a list \<Rightarrow> 'a list option" where
  [c_defs]: "seq_pushback x xs = do { c_assert (x \<notin> set xs); Some (xs @ [x]) }"

definition seq_pop :: "'a list \<Rightarrow> ('a \<times> 'a list) option" where
  [c_defs]: "seq_pop xs = do { c_assert (xs \<noteq> []); Some (hd xs, tl xs) }"

definition seq_popback :: "'a list \<Rightarrow> ('a \<times> 'a list) option" where
  [c_defs]: "seq_popback xs = do { c_assert (xs \<noteq> []); Some (last xs, butlast xs) }"

definition seq_insert_sort :: "('a \<Rightarrow> int) \<Rightarrow> 'a \<Rightarrow> 'a list \<Rightarrow> 'a list" where
  "seq_insert_sort key x xs =
     takeWhile (\<lambda>y. key y \<le> key x) xs @ x # dropWhile (\<lambda>y. key y \<le> key x) xs"

lemma seq_insert_sort_mset [simp]: "mset (seq_insert_sort key x xs) = add_mset x (mset xs)"
  unfolding seq_insert_sort_def by simp (metis mset_append takeWhile_dropWhile_id)

lemma seq_insert_sort_set [simp]: "set (seq_insert_sort key x xs) = insert x (set xs)"
  by (metis seq_insert_sort_mset set_mset_add_mset_insert set_mset_mset)

lemma seq_insert_sort_sorted:
  assumes "sorted (map key xs)"
  shows "sorted (map key (seq_insert_sort key x xs))"
proof -
  have "key x < key y" if "y \<in> set (dropWhile (\<lambda>y. key y \<le> key x) xs)" for y
    using assms that by (induction xs) (auto split: if_splits)
  moreover have "key y \<le> key x" if "y \<in> set (takeWhile (\<lambda>y. key y \<le> key x) xs)" for y
    using that by (auto dest: set_takeWhileD)
  moreover have "sorted (map key (takeWhile P xs))" "sorted (map key (dropWhile P xs))" for P
    using assms by (auto simp: sorted_map intro: sorted_wrt_takeWhile sorted_wrt_dropWhile)
  ultimately show ?thesis
    by (fastforce simp: seq_insert_sort_def sorted_append)
qed

lemma list_push_dlist:
  assumes "dlist h l xs" "dfresh h l xs n"
  shows "\<exists>h'. list_push h l n = Some h' \<and> dlist h' l (n # xs)
            \<and> dframe h h' (insert n (set (dpath l xs)))"
  using dlist_insert_before [of h l "[]" xs n] dlist_insert_after_head [OF assms] assms
    list_search_dlist [OF assms(1)]
  by (auto simp: list_push_def dfresh_def dpath_def)

lemma list_push_member: "dlist h l xs \<Longrightarrow> n \<in> set xs \<Longrightarrow> list_push h l n = None"
  by (simp add: list_push_def list_search_dlist)

lemma list_pushback_dlist:
  assumes "dlist h l xs" "dfresh h l xs n"
  shows "\<exists>h'. list_pushback h l n = Some h' \<and> dlist h' l (xs @ [n])
            \<and> dframe h h' (insert n (set (dpath l xs)))"
  using dlist_insert_before [of h l xs "[]" n] assms list_search_dlist [OF assms(1)]
  by (auto simp: list_pushback_def dfresh_def dpath_def)

lemma list_pop_dlist:
  assumes "dlist h l (n # xs)"
  shows "\<exists>h'. list_pop h l = Some (n, h') \<and> dlist h' l xs \<and> h' n = Some \<lparr>prev = 0, nxt = 0\<rparr>
            \<and> dframe h h' (set (dpath l (n # xs)))"
  using dlist_remove [of h l "[]" n xs] dlist_head [OF assms] list_empty_dlist [OF assms] assms
  by (auto simp: list_pop_def)

lemma list_popback_dlist:
  assumes "dlist h l (xs @ [n])"
  shows "\<exists>h'. list_popback h l = Some (n, h') \<and> dlist h' l xs \<and> h' n = Some \<lparr>prev = 0, nxt = 0\<rparr>
            \<and> dframe h h' (set (dpath l (xs @ [n])))"
  using dlist_remove [of h l xs n "[]"] dlist_tail [OF assms] list_empty_dlist [OF assms] assms
  by (auto simp: list_popback_def)

lemma list_pop_empty: "dlist h l [] \<Longrightarrow> list_pop h l = None \<and> list_popback h l = None"
  by (simp add: list_pop_def list_popback_def list_empty_dlist)

text \<open>A node that is in no list: both its links are \<open>NULL\<close>.\<close>

definition unlinked :: "lheap \<Rightarrow> ptr \<Rightarrow> ptr \<Rightarrow> bool" where
  "unlinked h l n \<longleftrightarrow> h n = Some \<lparr>prev = 0, nxt = 0\<rparr> \<and> n \<noteq> 0 \<and> n \<noteq> lhead l \<and> n \<noteq> ltail l"

lemma dlist_member_linked:
  assumes "dlist h l xs" "x \<in> set xs"
  shows "\<exists>n. h x = Some n \<and> prev n \<noteq> 0 \<and> nxt n \<noteq> 0"
proof -
  obtain ys zs where xs: "xs = ys @ x # zs" using assms(2) by (auto dest: split_list)
  note dl = dlist_pathE [OF assms(1)]
  obtain p where "linked h p x" "p \<in> set (lhead l # ys)"
    using dl(3) unfolding xs
    by (cases ys rule: rev_cases) (auto simp: dpath_def successively_append_iff successively_Cons)
  moreover obtain q where "linked h x q" "q \<in> set (zs @ [ltail l])"
    using dl(3) unfolding xs
    by (cases zs) (auto simp: dpath_def successively_append_iff successively_Cons)
  moreover have "p \<in> set (dpath l xs)" "q \<in> set (dpath l xs)"
    using calculation unfolding xs dpath_def by auto
  then have "p \<noteq> 0" "q \<noteq> 0" using dl(2) by metis+
  ultimately show ?thesis
    by (auto simp: linked_def nxt_of_Some prev_of_Some)
qed

lemma unlinked_dfresh: "dlist h l xs \<Longrightarrow> unlinked h l n \<Longrightarrow> dfresh h l xs n"
  using dlist_member_linked [of h l xs n] by (auto simp: unlinked_def dfresh_def dpath_def)

lemma list_insert_sort_dlist:
  assumes "dlist h l xs" "unlinked h l n"
  shows "\<exists>h'. list_insert_sort h key l n = Some h' \<and> dlist h' l (seq_insert_sort key n xs)
            \<and> dframe h h' (insert n (set (dpath l xs)))"
proof -
  let ?ys = "takeWhile (\<lambda>y. key y \<le> key n) xs" and ?zs = "dropWhile (\<lambda>y. key y \<le> key n) xs"
  have "anchor_from h key (ltail l) (key n) (hd (xs @ [ltail l])) = Some (hd (?zs @ [ltail l]))"
    using dlist_suffix [of h l "[]" xs] assms(1) by (simp add: anchor_from_path)
  moreover have "\<exists>h'. list_insert_before h (hd (?zs @ [ltail l])) n = Some h'
      \<and> dlist h' l (?ys @ n # ?zs) \<and> dframe h h' (insert n (set (dpath l (?ys @ ?zs))))"
    by (rule dlist_insert_before) (use assms unlinked_dfresh [OF assms] in simp_all)
  ultimately show ?thesis
    using dlist_head [OF assms(1)] assms(2)
    by (auto simp: list_insert_sort_def unlinked_def seq_insert_sort_def)
qed

lemma list_init_dlist:
  assumes "l \<noteq> 0" "h (lhead l) \<noteq> None" "h (ltail l) \<noteq> None"
  shows "\<exists>h'. list_init h l = Some h' \<and> dlist h' l [] \<and> dframe h h' {lhead l, ltail l}"
  using assms
  by (auto simp: list_init_def set_prev_def set_nxt_def dlist_def dpath_def linked_def dframe_def
      lhead_def ltail_def)

subsection \<open>The queue the clients see\<close>

text \<open>
  The kernel's queues are filled with \<open>list_push\<close> and emptied with \<open>list_popback\<close>:
  receive and send queues of a network card, waiters of a mutex, free buffers.
\<close>

locale push_queue =
  fixes rep :: "'h \<Rightarrow> 'x list \<Rightarrow> bool"
    and free :: "'h \<Rightarrow> 'x \<Rightarrow> bool"
    and push :: "'x \<Rightarrow> 'h \<Rightarrow> 'h option"
    and popback :: "'h \<Rightarrow> ('x \<times> 'h) option"
  assumes push_rep: "\<lbrakk>rep h xs; free h x\<rbrakk>
      \<Longrightarrow> \<exists>h'. push x h = Some h' \<and> rep h' (x # xs) \<and> (\<forall>y. y \<noteq> x \<and> free h y \<longrightarrow> free h' y)"
    and popback_rep: "rep h (xs @ [x])
      \<Longrightarrow> \<exists>h'. popback h = Some (x, h') \<and> rep h' xs \<and> free h' x \<and> (\<forall>y. free h y \<longrightarrow> free h' y)"
begin

lemma push_all:
  assumes "rep h ys" "distinct xs" "\<forall>x\<in>set xs. free h x"
  shows "\<exists>h'. foldM push xs h = Some h' \<and> rep h' (rev xs @ ys)"
  using assms
proof (induction xs arbitrary: h ys)
  case (Cons x xs)
  from push_rep [of h ys x] Cons.prems obtain h' where h': "push x h = Some h'"
    "rep h' (x # ys)" "\<forall>y. y \<noteq> x \<and> free h y \<longrightarrow> free h' y" by auto
  have "\<exists>h''. foldM push xs h' = Some h'' \<and> rep h'' (rev xs @ x # ys)"
    by (rule Cons.IH) (use h' Cons.prems in auto)
  with h'(1) show ?case by auto
qed simp

lemma popback_all:
  "rep h (rev xs) \<Longrightarrow> \<exists>h'. repeatM (length xs) popback h = Some (xs, h') \<and> rep h' []
      \<and> (\<forall>x\<in>set xs. free h' x) \<and> (\<forall>y. free h y \<longrightarrow> free h' y)"
proof (induction xs arbitrary: h)
  case (Cons x xs)
  then obtain h' where h': "popback h = Some (x, h')" "rep h' (rev xs)" "free h' x"
      "\<forall>y. free h y \<longrightarrow> free h' y"
    using popback_rep [of h "rev xs" x] by auto
  from Cons.IH [OF h'(2)] obtain h'' where "repeatM (length xs) popback h' = Some (xs, h'')"
      "rep h'' []" "\<forall>x\<in>set xs. free h'' x" "\<forall>y. free h' y \<longrightarrow> free h'' y" by blast
  with h' show ?case by auto
qed simp

text \<open>First in, first out; afterwards every node is unlinked again.\<close>

lemma fifo:
  assumes "rep h []" "distinct xs" "\<forall>x\<in>set xs. free h x"
  shows "\<exists>h' h''. foldM push xs h = Some h' \<and> repeatM (length xs) popback h' = Some (xs, h'')
           \<and> rep h'' [] \<and> (\<forall>x\<in>set xs. free h'' x)"
  using push_all [OF assms] popback_all [of _ xs] by fastforce

end

interpretation dl_queue: push_queue "\<lambda>h. dlist h l" "\<lambda>h. unlinked h l" "\<lambda>n h. list_push h l n"
    "\<lambda>h. list_popback h l"
  for l
proof unfold_locales
  show "\<exists>h'. list_push h l x = Some h' \<and> dlist h' l (x # xs)
        \<and> (\<forall>y. y \<noteq> x \<and> unlinked h l y \<longrightarrow> unlinked h' l y)"
    if "dlist h l xs" "unlinked h l x" for h xs x
    using list_push_dlist [OF that(1) unlinked_dfresh [OF that]] unlinked_dfresh [OF that(1)]
    by (fastforce simp: dframe_def unlinked_def dfresh_def)
  show "\<exists>h'. list_popback h l = Some (x, h') \<and> dlist h' l xs \<and> unlinked h' l x
        \<and> (\<forall>y. unlinked h l y \<longrightarrow> unlinked h' l y)"
    if "dlist h l (xs @ [x])" for h xs x
    using list_popback_dlist [OF that] unlinked_dfresh [OF that] dlist_pathE(1,2) [OF that]
    by (fastforce simp: dframe_def unlinked_def dfresh_def dpath_def)
qed

subsection \<open>Properties\<close>

text \<open>C26: On a list at \<open>l\<close> that links \<open>xs\<close>, \<open>list_push\<close> of an allocated node that is
  not in the list links it in front and touches no other cell than the node and the list's
  own; a node already in the list fails the assertion.\<close>

theorem list_push_refines:
  assumes "dlist h l xs"
  shows "(n \<in> set xs \<longrightarrow> list_push h l n = None)
       \<and> (dfresh h l xs n \<longrightarrow> (\<exists>h'. list_push h l n = Some h' \<and> dlist h' l (n # xs)
            \<and> dframe h h' (insert n (set (dpath l xs)))))"
  using list_push_dlist [OF assms] list_push_member [OF assms] by blast

text \<open>A store with a list at 8 that links 32, and three unlinked nodes.\<close>

definition sample_heap :: lheap where
  "sample_heap = [8 \<mapsto> \<lparr>prev = 0, nxt = 32\<rparr>, 16 \<mapsto> \<lparr>prev = 32, nxt = 0\<rparr>,
     32 \<mapsto> \<lparr>prev = 8, nxt = 16\<rparr>, 48 \<mapsto> \<lparr>prev = 0, nxt = 0\<rparr>,
     64 \<mapsto> \<lparr>prev = 0, nxt = 0\<rparr>, 80 \<mapsto> \<lparr>prev = 0, nxt = 0\<rparr>]"

lemma sample_heap_dlist: "dlist sample_heap 8 [32]"
  by (simp add: sample_heap_def dlist_def dpath_def lhead_def ltail_def linked_def nxt_of_def
      prev_of_def)

lemma sample_heap_unlinked: "n \<in> {48, 64, 80} \<Longrightarrow> unlinked sample_heap 8 n"
  by (auto simp: sample_heap_def unlinked_def lhead_def ltail_def)

theorem list_push_refines_witness:
  "list_push sample_heap 8 32 = None
   \<and> (\<exists>h'. list_push sample_heap 8 48 = Some h' \<and> dlist h' 8 [48, 32])"
  using list_push_refines [OF sample_heap_dlist, of 32] list_push_refines [OF sample_heap_dlist, of 48]
    unlinked_dfresh [OF sample_heap_dlist sample_heap_unlinked [of 48]] by auto

text \<open>C27: \<open>list_insert_sort\<close> of an unlinked node puts it behind the nodes with a key that is
  not greater: a list sorted by key stays sorted, no node is lost or duplicated, and the list
  remains correctly linked in both directions.\<close>

theorem list_insert_sort_refines:
  assumes "dlist h l xs" "unlinked h l n"
  shows "\<exists>h' ys. list_insert_sort h key l n = Some h' \<and> dlist h' l ys
            \<and> ys = seq_insert_sort key n xs \<and> mset ys = add_mset n (mset xs)
            \<and> (sorted (map key xs) \<longrightarrow> sorted (map key ys))"
  using list_insert_sort_dlist [OF assms, of key] seq_insert_sort_sorted [of key xs n]
  by auto

theorem list_insert_sort_refines_witness:
  "\<exists>h'. list_insert_sort sample_heap int 8 48 = Some h' \<and> dlist h' 8 [32, 48]"
proof -
  have "seq_insert_sort int 48 [32] = [32, 48]" by (simp add: seq_insert_sort_def)
  then show ?thesis
    using list_insert_sort_refines [OF sample_heap_dlist sample_heap_unlinked [of 48], of int]
    by auto
qed

text \<open>Nodes queued with \<open>list_push\<close> come back from \<open>list_popback\<close> in the order they
  were queued, and are unlinked afterwards.\<close>

theorem list_queue_fifo:
  assumes "dlist h l []" "distinct xs" "\<forall>x\<in>set xs. unlinked h l x"
  shows "\<exists>h' h''. foldM (\<lambda>n h. list_push h l n) xs h = Some h'
           \<and> repeatM (length xs) (\<lambda>h. list_popback h l) h' = Some (xs, h'')
           \<and> dlist h'' l [] \<and> (\<forall>x\<in>set xs. unlinked h'' l x)"
  using assms by (rule dl_queue.fifo)

definition sample_heap0 :: lheap where
  "sample_heap0 = [8 \<mapsto> \<lparr>prev = 0, nxt = 16\<rparr>, 16 \<mapsto> \<lparr>prev = 8, nxt = 0\<rparr>,
     48 \<mapsto> \<lparr>prev = 0, nxt = 0\<rparr>, 64 \<mapsto> \<lparr>prev = 0, nxt = 0\<rparr>]"

theorem list_queue_fifo_witness:
  "\<exists>h' h''. foldM (\<lambda>n h. list_push h 8 n) [48, 64] sample_heap0 = Some h'
     \<and> repeatM 2 (\<lambda>h. list_popback h 8) h' = Some ([48, 64], h'') \<and> dlist h'' 8 []"
proof -
  have "dlist sample_heap0 8 []"
    by (simp add: sample_heap0_def dlist_def dpath_def lhead_def ltail_def linked_def nxt_of_def
        prev_of_def)
  moreover have "\<forall>x\<in>set [48, 64]. unlinked sample_heap0 8 x"
    by (simp add: sample_heap0_def unlinked_def lhead_def ltail_def)
  ultimately show ?thesis
    using list_queue_fifo [of sample_heap0 8 "[48, 64]"] by (auto simp: numeral_2_eq_2)
qed

end
