(* ===== verification/Fifo.thy ===== *)
theory Fifo
  imports Prelude
begin

section \<open>Ring buffers: \<open>lib/fifo.c\<close>\<close>

text \<open>
  The record is \<open>fifo_t\<close> with the buffer it points to. A remainder by a zero length
  traps, so \<open>fifo_next\<close> has no result then. The contents of a well-formed ring are the
  bytes from \<open>tail\<close> up to \<open>head\<close>, and the functions are queue operations on them: a ring
  of length \<open>n\<close> holds \<open>n - 1\<close> bytes, and \<open>fifo_put\<close> on a full ring drops the oldest
  byte. The locale \<open>byte_queue\<close> is the interface the pipes use.
\<close>

record fifo =
  ff_buf :: bytes
  ff_length :: u32
  ff_head :: u32
  ff_tail :: u32

definition fifo_next :: "fifo \<Rightarrow> u32 \<Rightarrow> u32 option" where
  [c_defs]: "fifo_next f pos = do { c_assert (ff_length f \<noteq> 0); Some ((pos + 1) mod ff_length f) }"

definition fifo_init :: "bytes \<Rightarrow> u32 \<Rightarrow> fifo" where
  [c_defs]: "fifo_init buf len = \<lparr>ff_buf = buf, ff_length = len, ff_head = 0, ff_tail = 0\<rparr>"

definition fifo_full :: "fifo \<Rightarrow> bool option" where
  [c_defs]: "fifo_full f = do { n \<leftarrow> fifo_next f (ff_head f); Some (n = ff_tail f) }"

definition fifo_empty :: "fifo \<Rightarrow> bool" where
  [c_defs]: "fifo_empty f \<longleftrightarrow> ff_head f = ff_tail f"

definition fifo_get :: "fifo \<Rightarrow> (u8 \<times> fifo) option" where
  [c_defs]: "fifo_get f = do {
     c_assert (\<not> fifo_empty f);
     byte \<leftarrow> rd (ff_buf f) (unat (ff_tail f));
     t \<leftarrow> fifo_next f (ff_tail f);
     Some (byte, f\<lparr>ff_tail := t\<rparr>) }"

text \<open>The loop \<open>while (fifo_full(fifo)) fifo_get(fifo);\<close>.\<close>

partial_function (option) make_room :: "fifo \<Rightarrow> fifo option" where
  "make_room f = do {
     full \<leftarrow> fifo_full f;
     if full then do { (b, f') \<leftarrow> fifo_get f; make_room f' } else Some f }"

declare make_room.simps [code]

definition fifo_put :: "fifo \<Rightarrow> u8 \<Rightarrow> fifo option" where
  "fifo_put f byte = do {
     f \<leftarrow> make_room f;
     buf \<leftarrow> wr (ff_buf f) (unat (ff_head f)) byte;
     h \<leftarrow> fifo_next f (ff_head f);
     Some (f\<lparr>ff_buf := buf, ff_head := h\<rparr>) }"

subsection \<open>Contents\<close>

definition fifo_cap :: "fifo \<Rightarrow> nat" where
  "fifo_cap f = unat (ff_length f) - 1"

definition fifo_wf :: "fifo \<Rightarrow> bool" where
  "fifo_wf f \<longleftrightarrow> 2 \<le> unat (ff_length f) \<and> unat (ff_length f) \<le> length (ff_buf f)
     \<and> unat (ff_length f) < 4294967295
     \<and> ff_head f < ff_length f \<and> ff_tail f < ff_length f"

definition ring_used :: "nat \<Rightarrow> nat \<Rightarrow> nat \<Rightarrow> nat" where
  "ring_used n h t = (h + n - t) mod n"

definition fifo_contents :: "fifo \<Rightarrow> bytes" where
  "fifo_contents f =
     map (\<lambda>i. ff_buf f ! ((unat (ff_tail f) + i) mod unat (ff_length f)))
       [0..<ring_used (unat (ff_length f)) (unat (ff_head f)) (unat (ff_tail f))]"

lemma ring_used_less: "0 < n \<Longrightarrow> ring_used n h t < n"
  by (simp add: ring_used_def)

lemma ring_used_cases:
  assumes "h < n" "t < n"
  shows "ring_used n h t = (if t \<le> h then h - t else h + n - t)"
proof (cases "t \<le> h")
  case True
  then have e: "h + n - t = (h - t) + n" by arith
  have "h - t < n" using assms(1) by simp
  then show ?thesis
    unfolding ring_used_def e mod_add_self2 using True by simp
next
  case False
  then have "h + n - t < n" using assms by simp
  then show ?thesis using False by (simp add: ring_used_def)
qed

lemma wrap_mod: "x < 2 * n \<Longrightarrow> x mod n = (if x < n then x else x - n)" for x n :: nat
  by (simp add: le_mod_geq)

lemma succ_mod: "(i::nat) < n \<Longrightarrow> Suc i mod n = (if Suc i = n then 0 else Suc i)"
  by auto

lemma fifo_next_unat:
  assumes "fifo_wf f" "p < ff_length f"
  shows "fifo_next f p = Some ((p + 1) mod ff_length f)"
    and "unat ((p + 1) mod ff_length f) = Suc (unat p) mod unat (ff_length f)"
proof -
  have "unat (p + 1) = unat p + 1"
    using assms by (intro unat_Suc_bound) (auto simp: fifo_wf_def word_less_nat_alt)
  then show "unat ((p + 1) mod ff_length f) = Suc (unat p) mod unat (ff_length f)"
    by (simp add: unat_mod)
  show "fifo_next f p = Some ((p + 1) mod ff_length f)"
    using assms by (auto simp: fifo_next_def fifo_wf_def)
qed

lemma fifo_next_less: "fifo_wf f \<Longrightarrow> (p + 1) mod ff_length f < ff_length f"
  by (simp add: word_less_nat_alt unat_mod fifo_wf_def)

lemma fifo_wf_nat:
  assumes "fifo_wf f"
  shows "unat (ff_head f) < unat (ff_length f)" "unat (ff_tail f) < unat (ff_length f)"
    "2 \<le> unat (ff_length f)" "unat (ff_length f) \<le> length (ff_buf f)"
  using assms by (auto simp: fifo_wf_def word_less_nat_alt)

lemma fifo_empty_contents:
  assumes "fifo_wf f"
  shows "fifo_empty f \<longleftrightarrow> fifo_contents f = []"
proof -
  have "fifo_contents f = [] \<longleftrightarrow> unat (ff_head f) = unat (ff_tail f)"
    using fifo_wf_nat [OF assms] by (auto simp: fifo_contents_def ring_used_cases)
  then show ?thesis by (simp add: fifo_empty_def word_unat_eq_iff)
qed

lemma length_fifo_contents:
  "length (fifo_contents f) = ring_used (unat (ff_length f)) (unat (ff_head f)) (unat (ff_tail f))"
  by (simp add: fifo_contents_def)

lemma fifo_contents_bound: "fifo_wf f \<Longrightarrow> length (fifo_contents f) \<le> fifo_cap f"
  using ring_used_less [of "unat (ff_length f)" "unat (ff_head f)" "unat (ff_tail f)"]
    fifo_wf_nat(3) [of f]
  by (simp add: length_fifo_contents fifo_cap_def)

lemma fifo_full_contents:
  assumes "fifo_wf f"
  shows "fifo_full f = Some (length (fifo_contents f) = fifo_cap f)"
proof -
  note n = fifo_wf_nat [OF assms]
  have "ff_head f < ff_length f" using assms by (simp add: fifo_wf_def)
  note nx = fifo_next_unat [OF assms this]
  have "((ff_head f + 1) mod ff_length f = ff_tail f)
      \<longleftrightarrow> Suc (unat (ff_head f)) mod unat (ff_length f) = unat (ff_tail f)"
    by (simp only: word_unat_eq_iff nx(2))
  also have "\<dots> \<longleftrightarrow> length (fifo_contents f) = fifo_cap f"
    using n by (auto simp: length_fifo_contents ring_used_cases fifo_cap_def succ_mod)
  finally show ?thesis using nx(1) by (simp add: fifo_full_def)
qed

lemma fifo_get_contents:
  assumes "fifo_wf f" "fifo_contents f = x # xs"
  shows "\<exists>f'. fifo_get f = Some (x, f') \<and> fifo_wf f' \<and> fifo_contents f' = xs
            \<and> fifo_cap f' = fifo_cap f"
proof -
  note n = fifo_wf_nat [OF assms(1)]
  let ?n = "unat (ff_length f)" and ?t = "unat (ff_tail f)" and ?h = "unat (ff_head f)"
  define f' where "f' = f\<lparr>ff_tail := (ff_tail f + 1) mod ff_length f\<rparr>"
  have "ff_tail f < ff_length f" using assms(1) by (simp add: fifo_wf_def)
  note nx = fifo_next_unat [OF assms(1) this]
  have wf: "fifo_wf f'"
    using assms(1) fifo_next_less [OF assms(1)] by (simp add: f'_def fifo_wf_def)
  have used: "ring_used ?n ?h ?t = Suc (length xs)"
    using assms(2) length_fifo_contents [of f] by simp
  have used': "ring_used ?n ?h (Suc ?t mod ?n) = length xs"
    using used n by (auto simp: ring_used_cases succ_mod split: if_splits)
  have "x = ff_buf f ! ?t" "xs = map (\<lambda>i. ff_buf f ! ((?t + i) mod ?n)) [1..<Suc (length xs)]"
    using assms(2) n unfolding fifo_contents_def used
    by (auto simp: upt_conv_Cons simp del: upt_Suc)
  moreover have "fifo_contents f' = map (\<lambda>i. ff_buf f ! ((?t + i) mod ?n)) [1..<Suc (length xs)]"
    by (auto simp: fifo_contents_def f'_def nx(2) used' mod_add_left_eq simp flip: map_Suc_upt
        simp del: upt_Suc)
  moreover have "\<not> fifo_empty f"
    using assms by (simp add: fifo_empty_contents)
  moreover have "fifo_get f = Some (ff_buf f ! ?t, f')"
    using \<open>\<not> fifo_empty f\<close> n nx(1) by (simp add: fifo_get_def f'_def)
  ultimately show ?thesis
    using wf by (auto simp: f'_def fifo_cap_def)
qed

lemma make_room_contents:
  assumes "fifo_wf f"
  shows "\<exists>f'. make_room f = Some f' \<and> fifo_wf f' \<and> fifo_cap f' = fifo_cap f
     \<and> length (fifo_contents f') < fifo_cap f
     \<and> fifo_contents f' = (if length (fifo_contents f) = fifo_cap f then tl (fifo_contents f)
                           else fifo_contents f)"
proof (cases "length (fifo_contents f) = fifo_cap f")
  case True
  have cap: "0 < fifo_cap f" using fifo_wf_nat(3) [OF assms] by (simp add: fifo_cap_def)
  with True obtain x xs where xs: "fifo_contents f = x # xs"
    by (cases "fifo_contents f") auto
  from fifo_get_contents [OF assms xs] obtain f' where f': "fifo_get f = Some (x, f')"
    "fifo_wf f'" "fifo_contents f' = xs" "fifo_cap f' = fifo_cap f" by blast
  have "length xs < fifo_cap f" using True xs by simp
  then have "make_room f' = Some f'"
    using fifo_full_contents [OF f'(2)] f'(3,4) by (simp add: make_room.simps [of f'])
  then show ?thesis
    using True xs f' \<open>length xs < fifo_cap f\<close> fifo_full_contents [OF assms]
    by (simp add: make_room.simps [of f])
next
  case False
  then show ?thesis
    using fifo_full_contents [OF assms] fifo_contents_bound [OF assms] assms
    by (simp add: make_room.simps [of f])
qed

lemma fifo_append_contents:
  assumes "fifo_wf f" "length (fifo_contents f) < fifo_cap f"
    and f'_def: "f' = f\<lparr>ff_buf := (ff_buf f)[unat (ff_head f) := byte],
                 ff_head := (ff_head f + 1) mod ff_length f\<rparr>"
  shows "fifo_wf f'" "fifo_contents f' = fifo_contents f @ [byte]" "fifo_cap f' = fifo_cap f"
proof -
  note n = fifo_wf_nat [OF assms(1)]
  let ?n = "unat (ff_length f)" and ?t = "unat (ff_tail f)" and ?h = "unat (ff_head f)"
  let ?u = "ring_used ?n ?h ?t"
  have "ff_head f < ff_length f" using assms(1) by (simp add: fifo_wf_def)
  note nx = fifo_next_unat [OF assms(1) this]
  show "fifo_wf f'"
    using assms(1) fifo_next_less [OF assms(1)] by (simp add: f'_def fifo_wf_def)
  show "fifo_cap f' = fifo_cap f" by (simp add: f'_def fifo_cap_def)
  have room: "Suc ?u < ?n"
    using assms(2) by (simp add: length_fifo_contents fifo_cap_def)
  have used': "ring_used ?n (Suc ?h mod ?n) ?t = Suc ?u"
    using room n by (auto simp: ring_used_cases succ_mod split: if_splits)
  have at_end: "(?t + ?u) mod ?n = ?h"
    using n by (auto simp: ring_used_cases wrap_mod)
  have off: "?h \<noteq> (?t + i) mod ?n" if "i < ?u" for i
    using that n wrap_mod [of "?t + i" ?n] by (auto simp: ring_used_cases split: if_splits)
  have "fifo_contents f' = map (\<lambda>i. (ff_buf f)[?h := byte] ! ((?t + i) mod ?n)) [0..<Suc ?u]"
    by (simp add: fifo_contents_def f'_def nx(2) used' del: upt_Suc)
  also have "\<dots> = fifo_contents f @ [byte]"
    using off at_end n by (auto simp: fifo_contents_def)
  finally show "fifo_contents f' = fifo_contents f @ [byte]" .
qed

lemma fifo_put_contents:
  assumes "fifo_wf f"
  shows "\<exists>f'. fifo_put f byte = Some f' \<and> fifo_wf f' \<and> fifo_cap f' = fifo_cap f
     \<and> fifo_contents f' = (if length (fifo_contents f) = fifo_cap f then tl (fifo_contents f)
                           else fifo_contents f) @ [byte]"
proof -
  from make_room_contents [OF assms] obtain g where g: "make_room f = Some g" "fifo_wf g"
    "fifo_cap g = fifo_cap f" "length (fifo_contents g) < fifo_cap g"
    "fifo_contents g = (if length (fifo_contents f) = fifo_cap f then tl (fifo_contents f)
                        else fifo_contents f)" by auto
  have "ff_head g < ff_length g" using g(2) by (simp add: fifo_wf_def)
  then show ?thesis
    using g fifo_append_contents [OF g(2,4) refl, of byte] fifo_next_unat(1) [OF g(2)] fifo_wf_nat [OF g(2)]
    by (auto simp: fifo_put_def)
qed

lemma fifo_init_wf:
  "\<lbrakk>2 \<le> unat len; unat len \<le> length buf; unat len < 4294967295\<rbrakk>
     \<Longrightarrow> fifo_wf (fifo_init buf len) \<and> fifo_contents (fifo_init buf len) = []"
  by (auto simp: fifo_wf_def fifo_init_def fifo_contents_def ring_used_def word_less_nat_alt)

subsection \<open>The interface\<close>

locale byte_queue =
  fixes wf :: "'q \<Rightarrow> bool"
    and contents :: "'q \<Rightarrow> u8 list"
    and cap :: "'q \<Rightarrow> nat"
    and empty :: "'q \<Rightarrow> bool"
    and full :: "'q \<Rightarrow> bool option"
    and get :: "'q \<Rightarrow> (u8 \<times> 'q) option"
    and put :: "'q \<Rightarrow> u8 \<Rightarrow> 'q option"
  assumes bounded: "wf q \<Longrightarrow> length (contents q) \<le> cap q"
    and positive: "wf q \<Longrightarrow> 0 < cap q"
    and empty_iff: "wf q \<Longrightarrow> empty q \<longleftrightarrow> contents q = []"
    and full_iff: "wf q \<Longrightarrow> full q = Some (length (contents q) = cap q)"
    and get_empty: "\<lbrakk>wf q; contents q = []\<rbrakk> \<Longrightarrow> get q = None"
    and get_cons: "\<lbrakk>wf q; contents q = x # xs\<rbrakk>
        \<Longrightarrow> \<exists>q'. get q = Some (x, q') \<and> wf q' \<and> contents q' = xs \<and> cap q' = cap q"
    and put_any: "wf q \<Longrightarrow> \<exists>q'. put q b = Some q' \<and> wf q' \<and> cap q' = cap q
          \<and> contents q' = (if length (contents q) = cap q then tl (contents q) else contents q) @ [b]"
begin

lemma put_all_room:
  assumes "wf q" "length (contents q) + length bs \<le> cap q"
  shows "\<exists>q'. foldM (\<lambda>b q. put q b) bs q = Some q' \<and> wf q' \<and> cap q' = cap q
            \<and> contents q' = contents q @ bs"
  using assms
proof (induction bs arbitrary: q)
  case (Cons b bs)
  obtain q' where q': "put q b = Some q'" "wf q'" "cap q' = cap q" "contents q' = contents q @ [b]"
    using put_any [OF Cons.prems(1), of b] Cons.prems(2) by auto
  have "length (contents q') + length bs \<le> cap q'" using q' Cons.prems(2) by simp
  from Cons.IH [OF q'(2) this] show ?case using q' by auto
qed simp

lemma get_all:
  assumes "wf q" "contents q = bs @ rest"
  shows "\<exists>q'. repeatM (length bs) get q = Some (bs, q') \<and> wf q' \<and> cap q' = cap q
            \<and> contents q' = rest"
  using assms
proof (induction bs arbitrary: q)
  case (Cons b bs)
  obtain q' where q': "get q = Some (b, q')" "wf q'" "contents q' = bs @ rest" "cap q' = cap q"
    using get_cons [OF Cons.prems(1)] Cons.prems(2) by auto
  from Cons.IH [OF q'(2,3)] show ?case using q' by auto
qed simp

text \<open>Whatever fits comes out again in order.\<close>

lemma put_get_roundtrip:
  assumes "wf q" "contents q = []" "length bs \<le> cap q"
  shows "\<exists>q' q''. foldM (\<lambda>b q. put q b) bs q = Some q'
            \<and> repeatM (length bs) get q' = Some (bs, q'') \<and> contents q'' = []"
proof -
  obtain q' where q': "foldM (\<lambda>b q. put q b) bs q = Some q'" "wf q'" "contents q' = bs @ []"
    using put_all_room [of q bs] assms by auto
  from get_all [OF q'(2,3)] q'(1) show ?thesis by auto
qed

text \<open>More than that: the queue keeps the newest bytes.\<close>

lemma put_all_newest:
  assumes "wf q"
  shows "\<exists>q'. foldM (\<lambda>b q. put q b) bs q = Some q' \<and> wf q' \<and> cap q' = cap q
    \<and> contents q' = drop (length (contents q) + length bs - cap q) (contents q @ bs)"
  using assms
proof (induction bs arbitrary: q)
  case Nil
  then show ?case using bounded [OF Nil.prems] by simp
next
  case (Cons b bs)
  obtain q' where q': "put q b = Some q'" "wf q'" "cap q' = cap q"
      "contents q' = (if length (contents q) = cap q then tl (contents q) else contents q) @ [b]"
    using put_any [OF Cons.prems, of b] by auto
  have "drop (length (contents q') + length bs - cap q) (contents q' @ bs)
      = drop (length (contents q) + Suc (length bs) - cap q) (contents q @ b # bs)"
  proof (cases "length (contents q) = cap q")
    case True
    moreover obtain x xs where "contents q = x # xs"
      using True positive [OF Cons.prems] by (cases "contents q") auto
    ultimately show ?thesis using q'(4) by (cases "cap q") (auto simp: drop_Cons')
  qed (use q'(4) in simp)
  with Cons.IH [OF q'(2)] q' show ?case by auto
qed

end

interpretation ring: byte_queue fifo_wf fifo_contents fifo_cap fifo_empty fifo_full fifo_get fifo_put
proof unfold_locales
  show "fifo_get q = None" if "fifo_wf q" "fifo_contents q = []" for q
    using that by (simp add: fifo_get_def fifo_empty_contents)
  show "0 < fifo_cap q" if "fifo_wf q" for q
    using that by (simp add: fifo_cap_def fifo_wf_def)
qed (fact fifo_contents_bound fifo_empty_contents fifo_full_contents fifo_get_contents
       fifo_put_contents)+

subsection \<open>Properties\<close>

text \<open>C25: \<open>fifo_get\<close> and \<open>fifo_put\<close> are the operations of a bounded queue: a get returns
  the oldest byte and removes it, and on an empty ring fails its assertion; a put always
  returns, appends the byte, and drops the oldest one first when the ring is full.\<close>

theorem fifo_refines_queue:
  assumes "fifo_wf f"
  shows "(case fifo_contents f of
            [] \<Rightarrow> fifo_get f = None
          | x # xs \<Rightarrow> \<exists>f'. fifo_get f = Some (x, f') \<and> fifo_wf f' \<and> fifo_contents f' = xs)
    \<and> (\<exists>f'. fifo_put f b = Some f' \<and> fifo_wf f' \<and> fifo_cap f' = fifo_cap f
         \<and> fifo_contents f' = (if length (fifo_contents f) = fifo_cap f
                                then tl (fifo_contents f) else fifo_contents f) @ [b])"
proof (rule conjI)
  show "case fifo_contents f of
            [] \<Rightarrow> fifo_get f = None
          | x # xs \<Rightarrow> \<exists>f'. fifo_get f = Some (x, f') \<and> fifo_wf f' \<and> fifo_contents f' = xs"
    using ring.get_empty [OF assms] ring.get_cons [OF assms] by (fastforce split: list.splits)
qed (rule ring.put_any [OF assms])

definition sample_ring :: fifo where
  "sample_ring = \<lparr>ff_buf = [10, 20, 30, 40], ff_length = 4, ff_head = 1, ff_tail = 2\<rparr>"

lemma sample_ring_wf: "fifo_wf sample_ring"
  by (simp add: sample_ring_def fifo_wf_def)

lemma sample_ring_contents: "fifo_contents sample_ring = [30, 40, 10]"
  by code_simp

theorem fifo_refines_queue_witness:
  "(\<exists>f'. fifo_get sample_ring = Some (30, f') \<and> fifo_contents f' = [40, 10])
   \<and> (\<exists>f'. fifo_put sample_ring 50 = Some f' \<and> fifo_contents f' = [40, 10, 50])"
proof -
  have "fifo_cap sample_ring = 3" by code_simp
  then show ?thesis
    using fifo_refines_queue [OF sample_ring_wf, of 50] by (auto simp: sample_ring_contents)
qed

text \<open>Any sequence of puts returns, and leaves the newest bytes in order, as many as
  the ring can hold.\<close>

theorem fifo_keeps_newest:
  assumes "fifo_wf f"
  shows "\<exists>f'. foldM (\<lambda>b f. fifo_put f b) bs f = Some f' \<and> fifo_wf f'
    \<and> fifo_contents f' = drop (length (fifo_contents f) + length bs - fifo_cap f)
                              (fifo_contents f @ bs)"
  using ring.put_all_newest [OF assms, of bs] by blast

theorem fifo_keeps_newest_witness:
  "\<exists>f'. foldM (\<lambda>b f. fifo_put f b) [1, 2] sample_ring = Some f' \<and> fifo_contents f' = [10, 1, 2]"
proof -
  have "fifo_cap sample_ring = 3" by code_simp
  then show ?thesis
    using fifo_keeps_newest [OF sample_ring_wf, of "[1, 2]"]
    by (auto simp: sample_ring_contents numeral_2_eq_2)
qed

end
