(* ===== verification/Pipe.thy ===== *)
theory Pipe
  imports Fifo
begin

section \<open>Pipes: \<open>fs/pipe.c\<close>\<close>

text \<open>
  A pipe inode keeps a ring buffer (through its \<open>desc\<close> field) and at most one waiting
  reader and one waiting writer. System calls run with interrupts off, so a task gives up
  the processor inside \<open>pipe_read\<close> or \<open>pipe_write\<close> only in \<open>task_block\<close>. Each body is
  therefore two segments: the test before the transfer (which may block), and the transfer
  of one byte, which also wakes the other side. A task that was woken continues with the
  transfer and does not test again.

  The system is a pipe with any number of tasks in a read or a write; a step is one segment
  of one task. A segment without result is a failed assertion, which stops the kernel.
\<close>

type_synonym pid = nat

record pipe =
  pi_fifo :: fifo
  pi_rxwaiter :: "pid option"
  pi_txwaiter :: "pid option"

subsection \<open>The segments\<close>

text \<open>True: the task blocks.\<close>

definition pipe_read_test :: "pid \<Rightarrow> pipe \<Rightarrow> (bool \<times> pipe) option" where
  "pipe_read_test me p =
     (if fifo_empty (pi_fifo p)
      then do { c_assert (pi_rxwaiter p = None); Some (True, p\<lparr>pi_rxwaiter := Some me\<rparr>) }
      else Some (False, p))"

text \<open>The byte, the task that is unblocked, and the pipe.\<close>

definition pipe_read_byte :: "pipe \<Rightarrow> (u8 \<times> pid option \<times> pipe) option" where
  "pipe_read_byte p = do {
     (b, f) \<leftarrow> fifo_get (pi_fifo p);
     Some (b, pi_txwaiter p, p\<lparr>pi_fifo := f, pi_txwaiter := None\<rparr>) }"

definition pipe_write_test :: "pid \<Rightarrow> pipe \<Rightarrow> (bool \<times> pipe) option" where
  "pipe_write_test me p = do {
     full \<leftarrow> fifo_full (pi_fifo p);
     if full
     then do { c_assert (pi_txwaiter p = None); Some (True, p\<lparr>pi_txwaiter := Some me\<rparr>) }
     else Some (False, p) }"

definition pipe_write_byte :: "u8 \<Rightarrow> pipe \<Rightarrow> (pid option \<times> pipe) option" where
  "pipe_write_byte b p = do {
     f \<leftarrow> fifo_put (pi_fifo p) b;
     Some (pi_rxwaiter p, p\<lparr>pi_fifo := f, pi_rxwaiter := None\<rparr>) }"

subsection \<open>The system\<close>

text \<open>
  Where a task is: before the test, blocked, or unblocked and about to transfer. A reader
  carries how many bytes are left to read and the bytes it has; a writer the bytes left.
\<close>

datatype pstate =
    Idle
  | Reading nat bytes | RdBlocked nat bytes | RdWoken nat bytes
  | Writing bytes | WrBlocked bytes | WrWoken bytes

fun unblock :: "pstate \<Rightarrow> pstate" where
  "unblock (RdBlocked n got) = RdWoken n got"
| "unblock (WrBlocked bs) = WrWoken bs"
| "unblock s = s"

definition wake :: "pid option \<Rightarrow> (pid \<Rightarrow> pstate) \<Rightarrow> pid \<Rightarrow> pstate" where
  "wake w procs = (case w of None \<Rightarrow> procs | Some j \<Rightarrow> procs(j := unblock (procs j)))"

record psys =
  sp_pipe :: pipe
  sp_procs :: "pid \<Rightarrow> pstate"

text \<open>One segment of task \<open>i\<close>; \<open>None\<close> stops the kernel. A blocked or idle task does nothing.\<close>

definition transfer_in :: "pid \<Rightarrow> nat \<Rightarrow> bytes \<Rightarrow> pipe \<Rightarrow> psys \<Rightarrow> psys option" where
  "transfer_in i n got p s = do {
     (b, w, p) \<leftarrow> pipe_read_byte p;
     Some (s\<lparr>sp_pipe := p, sp_procs := wake w ((sp_procs s)(i := Reading n (got @ [b])))\<rparr>) }"

definition transfer_out :: "pid \<Rightarrow> u8 \<Rightarrow> bytes \<Rightarrow> pipe \<Rightarrow> psys \<Rightarrow> psys option" where
  "transfer_out i b bs p s = do {
     (w, p) \<leftarrow> pipe_write_byte b p;
     Some (s\<lparr>sp_pipe := p, sp_procs := wake w ((sp_procs s)(i := Writing bs))\<rparr>) }"

definition seg :: "pid \<Rightarrow> psys \<Rightarrow> psys option" where
  "seg i s = (case sp_procs s i of
       Reading (Suc n) got \<Rightarrow> do {
         (blocks, p) \<leftarrow> pipe_read_test i (sp_pipe s);
         if blocks
         then Some (s\<lparr>sp_pipe := p, sp_procs := (sp_procs s)(i := RdBlocked (Suc n) got)\<rparr>)
         else transfer_in i n got p s }
     | RdWoken (Suc n) got \<Rightarrow> transfer_in i n got (sp_pipe s) s
     | Writing (b # bs) \<Rightarrow> do {
         (blocks, p) \<leftarrow> pipe_write_test i (sp_pipe s);
         if blocks
         then Some (s\<lparr>sp_pipe := p, sp_procs := (sp_procs s)(i := WrBlocked (b # bs))\<rparr>)
         else transfer_out i b bs p s }
     | WrWoken (b # bs) \<Rightarrow> transfer_out i b bs (sp_pipe s) s
     | _ \<Rightarrow> Some s)"

inductive pipe_reach :: "psys \<Rightarrow> psys \<Rightarrow> bool" for s0 where
  start: "pipe_reach s0 s0"
| step: "pipe_reach s0 s \<Longrightarrow> seg i s = Some s' \<Longrightarrow> pipe_reach s0 s'"

text \<open>The result of running a schedule.\<close>

definition run_schedule :: "pid list \<Rightarrow> psys \<Rightarrow> psys option" where
  "run_schedule is s = foldM seg is s"

definition fresh_pipe :: "bytes \<Rightarrow> u32 \<Rightarrow> pipe" where
  "fresh_pipe buf len = \<lparr>pi_fifo = fifo_init buf len, pi_rxwaiter = None, pi_txwaiter = None\<rparr>"

subsection \<open>One reader, one writer\<close>

text \<open>Task \<open>r\<close> has read \<open>got\<close>, task \<open>w\<close> has \<open>rest\<close> left to write.\<close>

definition reader_ok :: "pid \<Rightarrow> psys \<Rightarrow> bytes \<Rightarrow> bool" where
  "reader_ok r s got \<longleftrightarrow>
     (case sp_procs s r of
        Reading n g \<Rightarrow> g = got \<and> pi_rxwaiter (sp_pipe s) = None
      | RdBlocked n g \<Rightarrow> g = got \<and> 0 < n \<and> pi_rxwaiter (sp_pipe s) = Some r
                        \<and> fifo_contents (pi_fifo (sp_pipe s)) = []
      | RdWoken n g \<Rightarrow> g = got \<and> 0 < n \<and> pi_rxwaiter (sp_pipe s) = None
                        \<and> fifo_contents (pi_fifo (sp_pipe s)) \<noteq> []
      | _ \<Rightarrow> False)"

definition writer_ok :: "pid \<Rightarrow> psys \<Rightarrow> bytes \<Rightarrow> bool" where
  "writer_ok w s rest \<longleftrightarrow>
     (case sp_procs s w of
        Writing bs \<Rightarrow> bs = rest \<and> pi_txwaiter (sp_pipe s) = None
      | WrBlocked bs \<Rightarrow> bs = rest \<and> bs \<noteq> [] \<and> pi_txwaiter (sp_pipe s) = Some w
          \<and> length (fifo_contents (pi_fifo (sp_pipe s))) = fifo_cap (pi_fifo (sp_pipe s))
      | WrWoken bs \<Rightarrow> bs = rest \<and> bs \<noteq> [] \<and> pi_txwaiter (sp_pipe s) = None
          \<and> length (fifo_contents (pi_fifo (sp_pipe s))) < fifo_cap (pi_fifo (sp_pipe s))
      | _ \<Rightarrow> False)"

definition pipe_inv :: "pid \<Rightarrow> pid \<Rightarrow> bytes \<Rightarrow> psys \<Rightarrow> bool" where
  "pipe_inv r w msg s \<longleftrightarrow> r \<noteq> w \<and> fifo_wf (pi_fifo (sp_pipe s))
     \<and> (\<forall>i. i \<noteq> r \<and> i \<noteq> w \<longrightarrow> sp_procs s i = Idle)
     \<and> (\<exists>got rest. reader_ok r s got \<and> writer_ok w s rest
          \<and> got @ fifo_contents (pi_fifo (sp_pipe s)) @ rest = msg)"

lemma pipe_read_byte_ok:
  assumes "fifo_wf (pi_fifo p)" "fifo_contents (pi_fifo p) = x # xs"
  obtains f where "pipe_read_byte p = Some (x, pi_txwaiter p, p\<lparr>pi_fifo := f, pi_txwaiter := None\<rparr>)"
    "fifo_wf f" "fifo_contents f = xs" "fifo_cap f = fifo_cap (pi_fifo p)"
  using ring.get_cons [OF assms] that by (auto simp: pipe_read_byte_def)

lemma pipe_write_byte_ok:
  assumes "fifo_wf (pi_fifo p)" "length (fifo_contents (pi_fifo p)) < fifo_cap (pi_fifo p)"
  obtains f where "pipe_write_byte b p = Some (pi_rxwaiter p, p\<lparr>pi_fifo := f, pi_rxwaiter := None\<rparr>)"
    "fifo_wf f" "fifo_contents f = fifo_contents (pi_fifo p) @ [b]"
    "fifo_cap f = fifo_cap (pi_fifo p)"
  using ring.put_any [OF assms(1), of b] assms(2) that by (auto simp: pipe_write_byte_def)

text \<open>A transfer by the reader, and by the writer, keeps the invariant.\<close>

lemma transfer_in_inv:
  assumes "fifo_wf (pi_fifo (sp_pipe s))" "fifo_contents (pi_fifo (sp_pipe s)) \<noteq> []" "r \<noteq> w"
    and "\<forall>i. i \<noteq> r \<and> i \<noteq> w \<longrightarrow> sp_procs s i = Idle"
    and "pi_rxwaiter (sp_pipe s) = None" "writer_ok w s rest"
    and "got @ fifo_contents (pi_fifo (sp_pipe s)) @ rest = msg"
  shows "\<exists>s'. transfer_in r n got (sp_pipe s) s = Some s' \<and> pipe_inv r w msg s'"
proof -
  obtain x xs where x: "fifo_contents (pi_fifo (sp_pipe s)) = x # xs"
    using assms(2) by (cases "fifo_contents (pi_fifo (sp_pipe s))") auto
  obtain f where f: "pipe_read_byte (sp_pipe s)
      = Some (x, pi_txwaiter (sp_pipe s), (sp_pipe s)\<lparr>pi_fifo := f, pi_txwaiter := None\<rparr>)"
      "fifo_wf f" "fifo_contents f = xs" "fifo_cap f = fifo_cap (pi_fifo (sp_pipe s))"
    using assms(1) x by (rule pipe_read_byte_ok)
  have "Suc (length xs) \<le> fifo_cap (pi_fifo (sp_pipe s))"
    using fifo_contents_bound [OF assms(1)] x by simp
  then show ?thesis
    using assms f x
    by (cases "sp_procs s w")
      (auto simp: transfer_in_def pipe_inv_def reader_ok_def writer_ok_def wake_def
        split: option.splits)
qed

lemma transfer_out_inv:
  assumes "fifo_wf (pi_fifo (sp_pipe s))"
    and "length (fifo_contents (pi_fifo (sp_pipe s))) < fifo_cap (pi_fifo (sp_pipe s))" "r \<noteq> w"
    and "\<forall>i. i \<noteq> r \<and> i \<noteq> w \<longrightarrow> sp_procs s i = Idle"
    and "pi_txwaiter (sp_pipe s) = None" "reader_ok r s got"
    and "got @ fifo_contents (pi_fifo (sp_pipe s)) @ b # rest = msg"
  shows "\<exists>s'. transfer_out w b rest (sp_pipe s) s = Some s' \<and> pipe_inv r w msg s'"
proof -
  obtain f where f: "pipe_write_byte b (sp_pipe s)
      = Some (pi_rxwaiter (sp_pipe s), (sp_pipe s)\<lparr>pi_fifo := f, pi_rxwaiter := None\<rparr>)"
      "fifo_wf f" "fifo_contents f = fifo_contents (pi_fifo (sp_pipe s)) @ [b]"
      "fifo_cap f = fifo_cap (pi_fifo (sp_pipe s))"
    using assms(1,2) by (rule pipe_write_byte_ok)
  then show ?thesis
    using assms
    by (cases "sp_procs s r")
      (auto simp: transfer_out_def pipe_inv_def reader_ok_def writer_ok_def wake_def
        split: option.splits)
qed

lemma seg_reader:
  assumes "pipe_inv r w msg s"
  shows "\<exists>s'. seg r s = Some s' \<and> pipe_inv r w msg s'"
proof -
  let ?p = "sp_pipe s"
  from assms obtain got rest where inv: "r \<noteq> w" "fifo_wf (pi_fifo ?p)"
      "\<forall>i. i \<noteq> r \<and> i \<noteq> w \<longrightarrow> sp_procs s i = Idle" "reader_ok r s got" "writer_ok w s rest"
      "got @ fifo_contents (pi_fifo ?p) @ rest = msg"
    by (auto simp: pipe_inv_def)
  note go = transfer_in_inv [OF inv(2) _ inv(1,3) _ inv(5,6)]
  have idle: "seg r s = Some s \<Longrightarrow> ?thesis" using assms by blast
  show ?thesis
  proof (cases "sp_procs s r")
    case (Reading n g)
    show ?thesis
    proof (cases n)
      case 0
      then show ?thesis using Reading idle by (simp add: seg_def)
    next
      case (Suc m)
      show ?thesis
      proof (cases "fifo_contents (pi_fifo ?p) = []")
        case True
        with Reading Suc inv fifo_empty_contents [OF inv(2)] show ?thesis
          by (auto simp: seg_def pipe_read_test_def pipe_inv_def reader_ok_def writer_ok_def
              split: pstate.splits)
      next
        case False
        with Reading Suc inv(4) go [of m] fifo_empty_contents [OF inv(2)] show ?thesis
          by (simp add: seg_def pipe_read_test_def reader_ok_def)
      qed
    qed
  next
    case (RdWoken n g)
    then show ?thesis
      using inv(4) go [of "n - 1"] by (cases n) (auto simp: seg_def reader_ok_def)
  qed (use inv(4) idle in \<open>auto simp: reader_ok_def seg_def\<close>)
qed

lemma seg_writer:
  assumes "pipe_inv r w msg s"
  shows "\<exists>s'. seg w s = Some s' \<and> pipe_inv r w msg s'"
proof -
  let ?p = "sp_pipe s"
  from assms obtain got rest where inv: "r \<noteq> w" "fifo_wf (pi_fifo ?p)"
      "\<forall>i. i \<noteq> r \<and> i \<noteq> w \<longrightarrow> sp_procs s i = Idle" "reader_ok r s got" "writer_ok w s rest"
      "got @ fifo_contents (pi_fifo ?p) @ rest = msg"
    by (auto simp: pipe_inv_def)
  note go = transfer_out_inv [OF inv(2) _ inv(1,3) _ inv(4)]
  have idle: "seg w s = Some s \<Longrightarrow> ?thesis" using assms by blast
  show ?thesis
  proof (cases "sp_procs s w")
    case (Writing bs)
    show ?thesis
    proof (cases bs)
      case Nil
      then show ?thesis using Writing idle by (simp add: seg_def)
    next
      case (Cons b cs)
      show ?thesis
      proof (cases "length (fifo_contents (pi_fifo ?p)) = fifo_cap (pi_fifo ?p)")
        case True
        with Writing Cons inv fifo_full_contents [OF inv(2)] show ?thesis
          by (auto simp: seg_def pipe_write_test_def pipe_inv_def reader_ok_def writer_ok_def
              split: pstate.splits)
      next
        case False
        with fifo_contents_bound [OF inv(2)]
        have "length (fifo_contents (pi_fifo ?p)) < fifo_cap (pi_fifo ?p)" by simp
        with False Writing Cons inv(5,6) go [of b cs] fifo_full_contents [OF inv(2)] show ?thesis
          by (auto simp: seg_def pipe_write_test_def writer_ok_def)
      qed
    qed
  next
    case (WrWoken bs)
    then show ?thesis
      using inv(5,6) go [of "hd bs" "tl bs"] by (cases bs) (auto simp: seg_def writer_ok_def)
  qed (use inv(5) idle in \<open>auto simp: writer_ok_def seg_def\<close>)
qed

lemma pipe_inv_step:
  assumes "pipe_inv r w msg s"
  shows "\<exists>s'. seg i s = Some s' \<and> pipe_inv r w msg s'"
proof (cases "i = r \<or> i = w")
  case True
  then show ?thesis using seg_reader [OF assms] seg_writer [OF assms] by blast
next
  case False
  then have "sp_procs s i = Idle" using assms by (auto simp: pipe_inv_def)
  then show ?thesis using assms by (simp add: seg_def)
qed

lemma pipe_inv_reach: "pipe_reach s0 s \<Longrightarrow> pipe_inv r w msg s0 \<Longrightarrow> pipe_inv r w msg s"
proof (induction rule: pipe_reach.induct)
  case (step s i s')
  then show ?case using pipe_inv_step [of r w msg s i] by auto
qed

text \<open>Never are both sides blocked: an empty ring is not full.\<close>

lemma pipe_inv_no_deadlock:
  assumes "pipe_inv r w msg s"
  shows "\<not> ((\<exists>n g. sp_procs s r = RdBlocked n g) \<and> (\<exists>bs. sp_procs s w = WrBlocked bs))"
  using assms ring.positive [of "pi_fifo (sp_pipe s)"]
  by (auto simp: pipe_inv_def reader_ok_def writer_ok_def)

subsection \<open>Properties\<close>

definition pipe_start :: "pipe \<Rightarrow> pid \<Rightarrow> nat \<Rightarrow> pid \<Rightarrow> bytes \<Rightarrow> psys" where
  "pipe_start p r n w msg =
     \<lparr>sp_pipe = p, sp_procs = (\<lambda>_. Idle)(r := Reading n [], w := Writing msg)\<rparr>"

lemma pipe_start_inv:
  assumes "r \<noteq> w" "2 \<le> unat len" "unat len \<le> length buf" "unat len < 4294967295"
  shows "pipe_inv r w msg (pipe_start (fresh_pipe buf len) r n w msg)"
  using assms fifo_init_wf [of len buf]
  by (auto simp: pipe_inv_def pipe_start_def fresh_pipe_def reader_ok_def writer_ok_def)

definition bytes_read :: "pstate \<Rightarrow> bytes" where
  "bytes_read ps = (case ps of Reading n g \<Rightarrow> g | RdBlocked n g \<Rightarrow> g | RdWoken n g \<Rightarrow> g | _ \<Rightarrow> [])"

definition bytes_left :: "pstate \<Rightarrow> bytes" where
  "bytes_left ps = (case ps of Writing b \<Rightarrow> b | WrBlocked b \<Rightarrow> b | WrWoken b \<Rightarrow> b | _ \<Rightarrow> [])"

lemma reader_ok_read: "reader_ok r s got \<Longrightarrow> bytes_read (sp_procs s r) = got"
  by (cases "sp_procs s r") (simp_all add: reader_ok_def bytes_read_def)

lemma writer_ok_left: "writer_ok w s rest \<Longrightarrow> bytes_left (sp_procs s w) = rest"
  by (cases "sp_procs s w") (simp_all add: writer_ok_def bytes_left_def)

lemma pipe_inv_data:
  "pipe_inv r w msg s \<Longrightarrow>
     bytes_read (sp_procs s r) @ fifo_contents (pi_fifo (sp_pipe s)) @ bytes_left (sp_procs s w) = msg"
  by (auto simp: pipe_inv_def dest: reader_ok_read writer_ok_left)

text \<open>C17: With one reader and one writer, in every order of their segments, no assertion of
  \<open>pipe_read\<close> or \<open>pipe_write\<close> fails, the bytes read so far, the bytes in the ring and the
  bytes not yet written are together the message in its order, and the two tasks are never
  blocked at the same time.\<close>

theorem pipe_one_reader_one_writer:
  assumes "r \<noteq> w" "2 \<le> unat len" "unat len \<le> length buf" "unat len < 4294967295"
    and "pipe_reach (pipe_start (fresh_pipe buf len) r n w msg) s"
  shows "seg i s \<noteq> None
    \<and> bytes_read (sp_procs s r) @ fifo_contents (pi_fifo (sp_pipe s)) @ bytes_left (sp_procs s w) = msg
    \<and> \<not> ((\<exists>n g. sp_procs s r = RdBlocked n g) \<and> (\<exists>bs. sp_procs s w = WrBlocked bs))"
proof -
  have inv: "pipe_inv r w msg s"
    using assms(5) pipe_start_inv [OF assms(1-4)] by (rule pipe_inv_reach)
  then have "bytes_read (sp_procs s r) @ fifo_contents (pi_fifo (sp_pipe s))
      @ bytes_left (sp_procs s w) = msg"
    by (rule pipe_inv_data)
  then show ?thesis
    using pipe_inv_step [OF inv, of i] pipe_inv_no_deadlock [OF inv] by auto
qed

definition demo_pipe :: pipe where
  "demo_pipe = fresh_pipe [0, 0, 0] 3"

lemma run_schedule_reach: "run_schedule is s = Some s' \<Longrightarrow> pipe_reach s0 s \<Longrightarrow> pipe_reach s0 s'"
  by (induction "is" arbitrary: s)
    (auto simp: run_schedule_def split: Option.bind_split_asm intro: pipe_reach.step)

theorem pipe_one_reader_one_writer_witness:
  "\<exists>s. pipe_reach (pipe_start (fresh_pipe [0, 0, 0] 3) 1 2 2 [7, 8, 9]) s
     \<and> seg 1 s \<noteq> None
     \<and> bytes_read (sp_procs s 1) @ fifo_contents (pi_fifo (sp_pipe s)) @ bytes_left (sp_procs s 2)
       = [7, 8, 9]
     \<and> bytes_read (sp_procs s 1) = [7]"
proof -
  let ?s0 = "pipe_start (fresh_pipe [0, 0, 0] 3) 1 2 2 [7, 8, 9]"
  have "map_option (\<lambda>s. bytes_read (sp_procs s 1)) (run_schedule [1, 2, 1, 2] ?s0) = Some [7]"
    by code_simp
  then obtain s where s: "run_schedule [1, 2, 1, 2] ?s0 = Some s" "bytes_read (sp_procs s 1) = [7]"
    by auto
  have r: "pipe_reach ?s0 s" using s(1) pipe_reach.start by (rule run_schedule_reach)
  have "(1::nat) \<noteq> 2 \<and> 2 \<le> unat (3 :: u32) \<and> unat (3 :: u32) \<le> length [0, 0, 0 :: u8]
      \<and> unat (3 :: u32) < 4294967295" by simp
  then show ?thesis
    using pipe_one_reader_one_writer [of 1 2 3 "[0, 0, 0]" 2 "[7, 8, 9]" s 1] r s(2) by blast
qed

text \<open>C35: A reader that was woken does not look at the ring again before it takes a byte. With
  two readers there is an order of segments in which a second reader takes the byte that woke
  the first, and the first then fails the assertion in \<open>fifo_get\<close>, which stops the
  kernel.\<close>

theorem pipe_two_readers_stop:
  "\<exists>s. run_schedule [1, 2, 3]
        \<lparr>sp_pipe = demo_pipe,
         sp_procs = (\<lambda>_. Idle)(1 := Reading 1 [], 2 := Writing [7], 3 := Reading 1 [])\<rparr> = Some s
     \<and> sp_procs s 1 = RdWoken 1 [] \<and> seg 1 s = None"
proof -
  have "(case run_schedule [1, 2, 3]
        \<lparr>sp_pipe = demo_pipe,
         sp_procs = (\<lambda>_. Idle)(1 := Reading 1 [], 2 := Writing [7], 3 := Reading 1 [])\<rparr> of
      None \<Rightarrow> False | Some s \<Rightarrow> sp_procs s 1 = RdWoken 1 [] \<and> seg 1 s = None)"
    by code_simp
  then show ?thesis by (auto split: option.splits)
qed

end
