(* ===== verification/CString.thy ===== *)
theory CString
  imports Prelude
begin

section \<open>Strings and memory blocks: \<open>lib/string.c\<close>\<close>

text \<open>
  Byte memory is a partial map from addresses; touching an address outside its domain has no
  result. \<open>char\<close> is signed, as it is for the compiler this kernel is built with, so the
  comparisons of \<open>strcmp\<close> and \<open>memcmp\<close> are signed. The loops without a bound
  follow the string until its end; they have no result when memory ends first. \<open>cstr m p s\<close>
  says that the bytes \<open>s\<close>, none of them zero, stand at \<open>p\<close> with their terminator.
\<close>

type_synonym mem = "nat \<rightharpoonup> u8"

definition EOS :: u8 where [c_defs]: "EOS = 0"

definition store :: "mem \<Rightarrow> nat \<Rightarrow> u8 \<Rightarrow> mem option" where
  "store m p b = (if m p = None then None else Some (m(p \<mapsto> b)))"

text \<open>The comparison both \<open>strcmp\<close> and \<open>memcmp\<close> end with.\<close>

definition char_order :: "u8 \<Rightarrow> u8 \<Rightarrow> int" where
  "char_order a b = (if sint a < sint b then -1 else if sint b < sint a then 1 else 0)"

subsection \<open>The functions\<close>

partial_function (option) copy_string :: "mem \<Rightarrow> nat \<Rightarrow> nat \<Rightarrow> mem option" where
  "copy_string m ptr src = do {
     b \<leftarrow> m src;
     m \<leftarrow> store m ptr b;
     c \<leftarrow> m src;
     if c = EOS then Some m else copy_string m (ptr + 1) (src + 1) }"

definition strcpy :: "mem \<Rightarrow> nat \<Rightarrow> nat \<Rightarrow> mem option" where
  "strcpy m dest src = copy_string m dest src"

text \<open>True: the loop returned at a terminator.\<close>

fun strncpy_loop :: "mem \<Rightarrow> nat \<Rightarrow> nat \<Rightarrow> nat \<Rightarrow> (bool \<times> mem) option" where
  "strncpy_loop m ptr src 0 = Some (False, m)"
| "strncpy_loop m ptr src (Suc left) = do {
     b \<leftarrow> m src;
     m \<leftarrow> store m ptr b;
     c \<leftarrow> m src;
     if c = EOS then Some (True, m) else strncpy_loop m (ptr + 1) (src + 1) left }"

text \<open>\<open>dest[count - 1]\<close> for a zero count is an address outside the destination.\<close>

definition strncpy :: "mem \<Rightarrow> nat \<Rightarrow> nat \<Rightarrow> u32 \<Rightarrow> mem option" where
  "strncpy m dest src count = do {
     (returned, m) \<leftarrow> strncpy_loop m dest src (unat count);
     if returned then Some m
     else do { c_assert (count \<noteq> 0); store m (dest + unat (count - 1)) EOS } }"

partial_function (option) find_end :: "mem \<Rightarrow> nat \<Rightarrow> nat option" where
  "find_end m ptr = do { b \<leftarrow> m ptr; if b \<noteq> EOS then find_end m (ptr + 1) else Some ptr }"

definition strcat :: "mem \<Rightarrow> nat \<Rightarrow> nat \<Rightarrow> mem option" where
  "strcat m dest src = do { ptr \<leftarrow> find_end m dest; copy_string m ptr src }"

definition strlen :: "mem \<Rightarrow> nat \<Rightarrow> nat option" where
  "strlen m src = do { ptr \<leftarrow> find_end m src; Some (ptr - src) }"

partial_function (option) strcmp :: "mem \<Rightarrow> nat \<Rightarrow> nat \<Rightarrow> int option" where
  "strcmp m lhs rhs = do {
     a \<leftarrow> m lhs;
     b \<leftarrow> m rhs;
     if a = b \<and> a \<noteq> EOS \<and> b \<noteq> EOS then strcmp m (lhs + 1) (rhs + 1)
     else Some (char_order a b) }"

text \<open>Searching: the result \<open>Some None\<close> is \<open>NULL\<close>. \<open>ch\<close> is the \<open>int\<close> compared.\<close>

partial_function (option) strchr :: "mem \<Rightarrow> nat \<Rightarrow> int \<Rightarrow> nat option option" where
  "strchr m ptr ch = do {
     b \<leftarrow> m ptr;
     if sint b = ch then Some (Some ptr)
     else if b = EOS then Some None
     else strchr m (ptr + 1) ch }"

partial_function (option) last_from :: "(u8 \<Rightarrow> bool) \<Rightarrow> mem \<Rightarrow> nat option \<Rightarrow> nat \<Rightarrow> nat option option" where
  "last_from P m lst ptr = do {
     b \<leftarrow> m ptr;
     let lst = (if P b then Some ptr else lst);
     if b = EOS then Some lst else last_from P m lst (ptr + 1) }"

definition strrchr :: "mem \<Rightarrow> nat \<Rightarrow> int \<Rightarrow> nat option option" where
  "strrchr m src ch = last_from (\<lambda>b. sint b = ch) m None src"

fun memcmp :: "mem \<Rightarrow> nat \<Rightarrow> nat \<Rightarrow> nat \<Rightarrow> int option" where
  "memcmp m lhs rhs 0 = Some 0"
| "memcmp m lhs rhs (Suc count) = do {
     a \<leftarrow> m lhs;
     b \<leftarrow> m rhs;
     if a = b then memcmp m (lhs + 1) (rhs + 1) count else Some (char_order a b) }"

fun memset :: "mem \<Rightarrow> nat \<Rightarrow> u8 \<Rightarrow> nat \<Rightarrow> mem option" where
  "memset m ptr ch 0 = Some m"
| "memset m ptr ch (Suc count) = do { m \<leftarrow> store m ptr ch; memset m (ptr + 1) ch count }"

fun memcpy :: "mem \<Rightarrow> nat \<Rightarrow> nat \<Rightarrow> nat \<Rightarrow> mem option" where
  "memcpy m ptr src 0 = Some m"
| "memcpy m ptr src (Suc count) = do {
     b \<leftarrow> m src;
     m \<leftarrow> store m ptr b;
     memcpy m (ptr + 1) (src + 1) count }"

text \<open>The C function ends without a \<open>return\<close> when nothing is found.\<close>

fun memchr :: "mem \<Rightarrow> nat \<Rightarrow> int \<Rightarrow> nat \<Rightarrow> nat option" where
  "memchr m ptr ch 0 = None"
| "memchr m ptr ch (Suc count) = do {
     b \<leftarrow> m ptr;
     if sint b = ch then Some ptr else memchr m (ptr + 1) ch count }"

definition SEPARATOR1 :: u8 where [c_defs]: "SEPARATOR1 = 47"
definition SEPARATOR2 :: u8 where [c_defs]: "SEPARATOR2 = 92"

definition IS_SEPARATOR :: "u8 \<Rightarrow> bool" where
  [c_defs]: "IS_SEPARATOR c \<longleftrightarrow> c = SEPARATOR1 \<or> c = SEPARATOR2"

partial_function (option) strsep :: "mem \<Rightarrow> nat \<Rightarrow> nat option option" where
  "strsep m ptr = do {
     b \<leftarrow> m ptr;
     if IS_SEPARATOR b then Some (Some ptr)
     else if b = EOS then Some None
     else strsep m (ptr + 1) }"

definition strrsep :: "mem \<Rightarrow> nat \<Rightarrow> nat option option" where
  "strrsep m str = last_from IS_SEPARATOR m None str"

declare copy_string.simps [code] find_end.simps [code] strcmp.simps [code] strchr.simps [code]
  last_from.simps [code] strsep.simps [code]

subsection \<open>Strings in memory\<close>

definition region :: "mem \<Rightarrow> nat \<Rightarrow> bytes \<Rightarrow> bool" where
  "region m p bs \<longleftrightarrow> (\<forall>i<length bs. m (p + i) = Some (bs ! i))"

definition cstr :: "mem \<Rightarrow> nat \<Rightarrow> bytes \<Rightarrow> bool" where
  "cstr m p s \<longleftrightarrow> region m p (s @ [EOS]) \<and> EOS \<notin> set s"

definition mapped :: "mem \<Rightarrow> nat \<Rightarrow> nat \<Rightarrow> bool" where
  "mapped m p n \<longleftrightarrow> (\<forall>i<n. m (p + i) \<noteq> None)"

definition overwrite :: "mem \<Rightarrow> nat \<Rightarrow> bytes \<Rightarrow> mem" where
  "overwrite m p bs = (\<lambda>q. if p \<le> q \<and> q < p + length bs then Some (bs ! (q - p)) else m q)"

definition apart :: "nat \<Rightarrow> nat \<Rightarrow> nat \<Rightarrow> nat \<Rightarrow> bool" where
  "apart p n q k \<longleftrightarrow> p + n \<le> q \<or> q + k \<le> p"

lemma region_Nil [simp]: "region m p []"
  by (simp add: region_def)

lemma region_Cons [simp]: "region m p (b # bs) \<longleftrightarrow> m p = Some b \<and> region m (Suc p) bs"
  unfolding region_def list.size add_0_right add_Suc_right All_less_Suc2 nth_Cons_0 nth_Cons_Suc
    add_Suc by (rule refl)

lemma region_append: "region m p (xs @ ys) \<longleftrightarrow> region m p xs \<and> region m (p + length xs) ys"
  by (induction xs arbitrary: p) auto

lemma cstr_Nil: "cstr m p [] \<longleftrightarrow> m p = Some EOS"
  by (simp add: cstr_def)

lemma cstr_Cons: "cstr m p (b # s) \<longleftrightarrow> m p = Some b \<and> b \<noteq> EOS \<and> cstr m (Suc p) s"
  by (auto simp: cstr_def)

lemma mapped_Suc: "mapped m p (Suc n) \<longleftrightarrow> m p \<noteq> None \<and> mapped m (Suc p) n"
  unfolding mapped_def All_less_Suc2 add_0_right add_Suc_right add_Suc by (rule refl)

lemma mapped_0 [simp]: "mapped m p 0"
  by (simp add: mapped_def)

lemma mapped_upd: "m q \<noteq> None \<Longrightarrow> mapped (m(q \<mapsto> b)) p n = mapped m p n"
  by (auto simp: mapped_def)

lemma region_mapped: "region m p bs \<Longrightarrow> mapped m p (length bs)"
  by (simp add: region_def mapped_def)

lemma store_mapped [simp]: "m p \<noteq> None \<Longrightarrow> store m p b = Some (m(p \<mapsto> b))"
  by (auto simp: store_def)

lemma region_upd: "q < p \<or> p + length bs \<le> q \<Longrightarrow> region (m(q \<mapsto> b)) p bs = region m p bs"
  unfolding region_def by (intro all_cong1 imp_cong refl) (simp, arith)

lemma overwrite_Nil [simp]: "overwrite m p [] = m"
  by (auto simp: overwrite_def fun_eq_iff)

lemma overwrite_Cons: "overwrite (m(p \<mapsto> b)) (Suc p) bs = overwrite m p (b # bs)"
proof
  fix q
  show "overwrite (m(p \<mapsto> b)) (Suc p) bs q = overwrite m p (b # bs) q"
  proof (cases "q \<le> p")
    case False
    then have "q - p = Suc (q - Suc p)" by arith
    with False show ?thesis by (simp add: overwrite_def)
  qed (auto simp: overwrite_def)
qed

lemma overwrite_region [simp]: "region (overwrite m p bs) p bs"
  by (simp add: overwrite_def region_def)

lemma overwrite_apart: "apart p (length bs) q (length xs) \<Longrightarrow> region (overwrite m p bs) q xs = region m q xs"
  unfolding region_def apart_def by (intro all_cong1 imp_cong refl) (simp add: overwrite_def, arith)

subsection \<open>What the functions compute\<close>

lemma find_end_cstr: "cstr m p s \<Longrightarrow> find_end m p = Some (p + length s)"
proof (induction s arbitrary: p)
  case Nil
  then show ?case by (simp add: find_end.simps [of m p] cstr_Nil)
next
  case (Cons b s)
  then show ?case by (simp add: find_end.simps [of m p] cstr_Cons)
qed

lemma strlen_cstr: "cstr m p s \<Longrightarrow> strlen m p = Some (length s)"
  by (simp add: strlen_def find_end_cstr)

lemma copy_string_cstr:
  assumes "cstr m src s" "mapped m dest (Suc (length s))" "apart dest (Suc (length s)) src (Suc (length s))"
  shows "copy_string m dest src = Some (overwrite m dest (s @ [EOS]))"
  using assms
proof (induction s arbitrary: m dest src)
  case Nil
  then show ?case
    by (auto simp: copy_string.simps [of m dest src] cstr_Nil mapped_Suc apart_def
        overwrite_def fun_eq_iff)
next
  case (Cons b s)
  let ?m = "m(dest \<mapsto> b)"
  have ne: "src \<noteq> dest" using Cons.prems(3) by (auto simp: apart_def)
  have "cstr ?m (Suc src) s"
    using Cons.prems(1,3) by (auto simp: cstr_def region_def apart_def)
  moreover have "mapped ?m (Suc dest) (Suc (length s))"
    using Cons.prems(2) by (auto simp: mapped_Suc mapped_upd)
  moreover have "apart (Suc dest) (Suc (length s)) (Suc src) (Suc (length s))"
    using Cons.prems(3) by (auto simp: apart_def)
  ultimately have "copy_string ?m (Suc dest) (Suc src) = Some (overwrite ?m (Suc dest) (s @ [EOS]))"
    by (rule Cons.IH)
  then show ?case
    using Cons.prems ne
    by (auto simp: copy_string.simps [of m dest src] cstr_Cons mapped_Suc overwrite_Cons)
qed

lemma strncpy_loop_cstr:
  assumes "cstr m src s" "mapped m dest (min n (Suc (length s)))"
    and "apart dest (min n (Suc (length s))) src (Suc (length s))"
  shows "strncpy_loop m dest src n
       = Some (length s < n, overwrite m dest (take n (s @ [EOS])))"
  using assms
proof (induction n arbitrary: m dest src s)
  case (Suc n)
  show ?case
  proof (cases s)
    case Nil
    then show ?thesis
      using Suc.prems by (auto simp: cstr_Nil mapped_Suc apart_def overwrite_def fun_eq_iff)
  next
    case (Cons b t)
    let ?m = "m(dest \<mapsto> b)"
    have ne: "src \<noteq> dest" using Suc.prems(3) by (auto simp: apart_def)
    have "cstr ?m (Suc src) t"
      using Suc.prems(1,3) Cons by (auto simp: cstr_def region_def apart_def min_def split: if_splits)
    moreover have "mapped ?m (Suc dest) (min n (Suc (length t)))"
      using Suc.prems(2) Cons by (auto simp: mapped_Suc mapped_upd)
    moreover have "apart (Suc dest) (min n (Suc (length t))) (Suc src) (Suc (length t))"
      using Suc.prems(3) Cons by (auto simp: apart_def)
    ultimately have "strncpy_loop ?m (Suc dest) (Suc src) n
        = Some (length t < n, overwrite ?m (Suc dest) (take n (t @ [EOS])))"
      by (rule Suc.IH)
    then show ?thesis
      using Suc.prems ne Cons by (auto simp: cstr_Cons mapped_Suc overwrite_Cons)
  qed
qed simp

lemma strcat_cstr:
  assumes "cstr m dest s" "cstr m src t" "mapped m (dest + length s) (Suc (length t))"
    and "apart (dest + length s) (Suc (length t)) src (Suc (length t))"
  shows "strcat m dest src = Some (overwrite m (dest + length s) (t @ [EOS]))"
  using assms by (simp add: strcat_def find_end_cstr copy_string_cstr)

text \<open>The order \<open>strcmp\<close> decides: lexicographic, on signed characters.\<close>

fun str_order :: "bytes \<Rightarrow> bytes \<Rightarrow> int" where
  "str_order [] [] = 0"
| "str_order [] (b # t) = char_order EOS b"
| "str_order (a # s) [] = char_order a EOS"
| "str_order (a # s) (b # t) = (if a = b then str_order s t else char_order a b)"

lemma char_order_0 [simp]: "char_order a b = 0 \<longleftrightarrow> a = b"
  by (auto simp: char_order_def intro: signed_word_eqI)

lemma char_order_anti: "char_order b a = - char_order a b"
  by (simp add: char_order_def)

lemma str_order_0: "EOS \<notin> set s \<Longrightarrow> EOS \<notin> set t \<Longrightarrow> str_order s t = 0 \<longleftrightarrow> s = t"
  by (induction s t rule: str_order.induct) auto

lemma str_order_anti: "str_order t s = - str_order s t"
  by (induction s t rule: str_order.induct) (simp_all flip: char_order_anti)

lemma cstr_nonzero: "cstr m p s \<Longrightarrow> EOS \<notin> set s"
  by (simp add: cstr_def)

lemma strcmp_str_order:
  "cstr m p s \<Longrightarrow> cstr m q t \<Longrightarrow> strcmp m p q = Some (str_order s t)"
proof (induction s t arbitrary: p q rule: str_order.induct)
  case 1
  then show ?case by (simp add: strcmp.simps [of m p q] cstr_Nil)
next
  case (2 b t)
  then show ?case by (auto simp: strcmp.simps [of m p q] cstr_Nil cstr_Cons)
next
  case (3 a s)
  then show ?case by (auto simp: strcmp.simps [of m p q] cstr_Nil cstr_Cons)
next
  case (4 a s b t)
  then show ?case by (auto simp: strcmp.simps [of m p q] cstr_Cons)
qed

fun first_at :: "(u8 \<Rightarrow> bool) \<Rightarrow> nat \<Rightarrow> bytes \<Rightarrow> nat option" where
  "first_at P p [] = None"
| "first_at P p (b # s) = (if P b then Some p else first_at P (Suc p) s)"

lemma first_at_SomeD:
  "first_at P p s = Some q \<Longrightarrow> \<exists>i. q = p + i \<and> i < length s \<and> P (s ! i) \<and> (\<forall>j<i. \<not> P (s ! j))"
proof (induction s arbitrary: p)
  case (Cons b s)
  show ?case
  proof (cases "P b")
    case True
    with Cons.prems show ?thesis by (intro exI [of _ 0]) simp
  next
    case False
    with Cons.prems have "first_at P (Suc p) s = Some q" by simp
    from Cons.IH [OF this] obtain i
      where i: "q = Suc p + i" "i < length s" "P (s ! i)" "\<forall>j<i. \<not> P (s ! j)"
      by blast
    have "\<forall>j<Suc i. \<not> P ((b # s) ! j)" unfolding All_less_Suc2 using False i(4) by simp
    with i(1-3) show ?thesis by (intro exI [of _ "Suc i"]) simp
  qed
qed simp

lemma first_at_None: "first_at P p s = None \<longleftrightarrow> (\<forall>b\<in>set s. \<not> P b)"
  by (induction s arbitrary: p) auto

lemma strchr_first:
  "cstr m p s \<Longrightarrow> strchr m p ch = Some (first_at (\<lambda>b. sint b = ch) p (s @ [EOS]))"
proof (induction s arbitrary: p)
  case Nil
  then show ?case by (simp add: strchr.simps [of m p] cstr_Nil)
next
  case (Cons b s)
  then show ?case by (auto simp: strchr.simps [of m p] cstr_Cons)
qed

lemma strsep_first: "cstr m p s \<Longrightarrow> strsep m p = Some (first_at IS_SEPARATOR p s)"
proof (induction s arbitrary: p)
  case Nil
  then show ?case by (simp add: strsep.simps [of m p] cstr_Nil c_defs)
next
  case (Cons b s)
  then show ?case by (auto simp: strsep.simps [of m p] cstr_Cons)
qed

fun last_at :: "(u8 \<Rightarrow> bool) \<Rightarrow> nat option \<Rightarrow> nat \<Rightarrow> bytes \<Rightarrow> nat option" where
  "last_at P l p [] = l"
| "last_at P l p (b # s) = last_at P (if P b then Some p else l) (Suc p) s"

lemma last_from_cstr: "cstr m p s \<Longrightarrow> last_from P m l p = Some (last_at P l p (s @ [EOS]))"
proof (induction s arbitrary: p l)
  case Nil
  then show ?case by (simp add: last_from.simps [of P m l p] cstr_Nil Let_def)
next
  case (Cons b s)
  then show ?case by (simp add: last_from.simps [of P m l p] cstr_Cons Let_def)
qed

lemma last_at_append: "last_at P l p (s @ [b]) = (if P b then Some (p + length s) else last_at P l p s)"
  by (induction s arbitrary: p l) auto

lemma memcpy_copies:
  assumes "region m src bs" "mapped m dest (length bs)" "apart dest (length bs) src (length bs)"
  shows "memcpy m dest src (length bs) = Some (overwrite m dest bs)"
  using assms
proof (induction bs arbitrary: m dest src)
  case (Cons b bs)
  let ?m = "m(dest \<mapsto> b)"
  have "region ?m (Suc src) bs" "mapped ?m (Suc dest) (length bs)"
    using Cons.prems by (auto simp: region_upd apart_def mapped_Suc mapped_upd)
  moreover have "apart (Suc dest) (length bs) (Suc src) (length bs)"
    using Cons.prems(3) by (auto simp: apart_def)
  ultimately have "memcpy ?m (Suc dest) (Suc src) (length bs) = Some (overwrite ?m (Suc dest) bs)"
    by (rule Cons.IH)
  then show ?case using Cons.prems by (simp add: mapped_Suc overwrite_Cons)
qed simp

lemma memset_fills:
  "mapped m p n \<Longrightarrow> memset m p ch n = Some (overwrite m p (replicate n ch))"
  by (induction n arbitrary: m p) (simp_all add: mapped_Suc mapped_upd overwrite_Cons)

lemma memcmp_regions:
  "length xs = length ys \<Longrightarrow> region m p xs \<Longrightarrow> region m q ys
   \<Longrightarrow> \<exists>r. memcmp m p q (length xs) = Some r \<and> (r = 0 \<longleftrightarrow> xs = ys)"
  by (induction xs ys arbitrary: p q rule: list_induct2) auto

lemma memchr_region:
  "region m p bs \<Longrightarrow> memchr m p ch (length bs) = first_at (\<lambda>b. sint b = ch) p bs"
  by (induction bs arbitrary: p) auto

lemma mapped_mono: "mapped m p n \<Longrightarrow> k \<le> n \<Longrightarrow> mapped m p k"
  by (simp add: mapped_def)

lemma mapped_overwrite: "mapped m p n \<Longrightarrow> mapped (overwrite m q bs) p n"
  by (auto simp: mapped_def overwrite_def)

lemma overwrite_outside: "q < p \<or> p + length bs \<le> q \<Longrightarrow> overwrite m p bs q = m q"
  by (auto simp: overwrite_def)

lemma overwrite_last:
  "0 < length bs \<Longrightarrow> (overwrite m p bs)(p + (length bs - 1) \<mapsto> b) = overwrite m p (butlast bs @ [b])"
proof
  fix q
  assume bs: "0 < length bs"
  consider "q = p + (length bs - 1)" | "p \<le> q" "q < p + (length bs - 1)"
    | "q < p \<or> p + length bs \<le> q" by arith
  then show "((overwrite m p bs)(p + (length bs - 1) \<mapsto> b)) q = overwrite m p (butlast bs @ [b]) q"
  proof cases
    case 1
    then have "q - p = length bs - 1" "p \<le> q" "q < p + length bs" using bs by arith+
    then show ?thesis using 1 by (simp add: overwrite_def nth_append)
  next
    case 2
    then have "q - p < length bs - 1" by arith
    then show ?thesis using 2 bs by (simp add: overwrite_def nth_append nth_butlast)
  next
    case 3
    then have "q \<noteq> p + (length bs - 1)" using bs by arith
    then have "((overwrite m p bs)(p + (length bs - 1) \<mapsto> b)) q = overwrite m p bs q"
      by (rule fun_upd_other)
    then have "((overwrite m p bs)(p + (length bs - 1) \<mapsto> b)) q = m q"
      using 3 overwrite_outside by simp
    moreover have "overwrite m p (butlast bs @ [b]) q = m q"
      using 3 bs by (intro overwrite_outside) auto
    ultimately show ?thesis by (rule trans [OF _ sym])
  qed
qed

lemma strncpy_cstr:
  assumes s: "cstr m src s" and d: "mapped m dest (unat count)" and c: "0 < unat count"
    and a: "apart dest (unat count) src (Suc (length s))"
  shows "strncpy m dest src count = Some (overwrite m dest (take (unat count - 1) s @ [EOS]))"
proof -
  let ?n = "unat count"
  have loop: "strncpy_loop m dest src ?n = Some (length s < ?n, overwrite m dest (take ?n (s @ [EOS])))"
    by (rule strncpy_loop_cstr [OF s mapped_mono [OF d]]) (use a in \<open>auto simp: apart_def\<close>)
  have n0: "count \<noteq> 0" using c by auto
  then have pred: "unat (count - 1) = ?n - 1" by (simp add: unat_minus_one)
  show ?thesis
  proof (cases "length s < ?n")
    case True
    then show ?thesis by (simp add: strncpy_def loop)
  next
    case False
    let ?b = "take ?n (s @ [EOS])"
    have len: "length ?b = ?n" using False by simp
    have "mapped (overwrite m dest ?b) dest ?n" using d by (rule mapped_overwrite)
    then have room: "overwrite m dest ?b (dest + (?n - 1)) \<noteq> None"
      unfolding mapped_def by (rule allE [of _ "?n - 1"]) (use c in arith)
    then have "strncpy m dest src count = Some ((overwrite m dest ?b)(dest + (length ?b - 1) \<mapsto> EOS))"
      unfolding strncpy_def loop using False n0 len room pred by (simp del: take_append)
    also have "\<dots> = Some (overwrite m dest (butlast ?b @ [EOS]))"
      using overwrite_last [of ?b m dest EOS] len c by simp
    also have "butlast ?b = take (?n - 1) s"
      using False c by (simp add: butlast_take)
    finally show ?thesis .
  qed
qed

subsection \<open>Properties\<close>

text \<open>The memory of the examples: two strings and twelve bytes of room.\<close>

definition sample_mem :: mem where
  "sample_mem = (\<lambda>a. if a < 20 then rd ([104, 105, 0, 104, 111, 0, 0, 0] @ replicate 12 170) a else None)"

lemma sample_strings: "cstr sample_mem 0 [104, 105]" "cstr sample_mem 3 [104, 111]"
  by (simp_all add: cstr_def sample_mem_def rd_def c_defs)

lemma sample_room: "mapped sample_mem p n" if "p + n \<le> 20"
  using that by (auto simp: mapped_def sample_mem_def)

text \<open>C32: \<open>strncpy\<close> into a non-overlapping destination of \<open>count > 0\<close> bytes always leaves
  a terminated string there: the source, cut to \<open>count - 1\<close> characters. Nothing outside the
  \<open>count\<close> bytes changes.\<close>

theorem strncpy_terminates_string:
  assumes "cstr m src s" "mapped m dest (unat count)" "count \<noteq> 0"
    and "apart dest (unat count) src (Suc (length s))"
  shows "\<exists>m'. strncpy m dest src count = Some m'
    \<and> cstr m' dest (take (unat count - 1) s)
    \<and> (\<forall>q. q < dest \<or> dest + unat count \<le> q \<longrightarrow> m' q = m q)"
proof (intro exI conjI allI impI)
  have c: "0 < unat count" using assms(3) by (simp add: unat_gt_0)
  show "strncpy m dest src count = Some (overwrite m dest (take (unat count - 1) s @ [EOS]))"
    by (rule strncpy_cstr [OF assms(1,2) c assms(4)])
  show "cstr (overwrite m dest (take (unat count - 1) s @ [EOS])) dest (take (unat count - 1) s)"
    using cstr_nonzero [OF assms(1)] by (auto simp: cstr_def dest: in_set_takeD)
  fix q assume "q < dest \<or> dest + unat count \<le> q"
  then show "overwrite m dest (take (unat count - 1) s @ [EOS]) q = m q"
    using c by (intro overwrite_outside) auto
qed

theorem strncpy_terminates_string_witness:
  "\<exists>m'. strncpy sample_mem 8 3 2 = Some m' \<and> cstr m' 8 (take 1 [104, 111])
    \<and> (\<forall>q. q < 8 \<or> 8 + 2 \<le> q \<longrightarrow> m' q = sample_mem q)"
  using strncpy_terminates_string [OF sample_strings(2) sample_room, of 8 2]
  by (simp add: apart_def)

text \<open>On terminated strings \<open>strcmp\<close> returns the lexicographic order by signed characters;
  the result is 0 exactly when the strings are equal, and swapping the arguments negates it.\<close>

theorem strcmp_orders:
  assumes "cstr m p s" "cstr m q t"
  shows "strcmp m p q = Some (str_order s t) \<and> (str_order s t = 0 \<longleftrightarrow> s = t)
    \<and> strcmp m q p = Some (- str_order s t)"
  using assms by (simp add: strcmp_str_order str_order_0 cstr_nonzero str_order_anti [of t s])

theorem strcmp_orders_witness:
  "strcmp sample_mem 0 3 = Some (str_order [104, 105] [104, 111])
    \<and> (str_order [104, 105] [104, 111] = 0 \<longleftrightarrow> [104, 105] = [104, 111 :: u8])
    \<and> strcmp sample_mem 3 0 = Some (- str_order [104, 105] [104, 111])"
  by (rule strcmp_orders [OF sample_strings])

end
