(* ===== verification/Stdlib.thy ===== *)
theory Stdlib
  imports CString
begin

section \<open>Conversions: \<open>lib/stdlib.c\<close>\<close>

text \<open>
  The conversions of \<open>lib/stdlib.c\<close>: packed decimal, rounded division, decimal text to
  \<open>int\<close>. \<open>delay\<close> and \<open>hang\<close>, which only spin, are left out. \<open>int32\<close> is the
  check on every signed computation whose result C requires to fit: outside the range of
  \<open>int\<close> there is no result.
\<close>

definition int32 :: "int \<Rightarrow> int option" where
  "int32 x = (if - (2 ^ 31) \<le> x \<and> x < 2 ^ 31 then Some x else None)"

lemma int32_Some [simp]: "- 2147483648 \<le> x \<Longrightarrow> x < 2147483648 \<Longrightarrow> int32 x = Some x"
  by (simp add: int32_def)

definition bcd_to_bin :: "u8 \<Rightarrow> u8" where
  "bcd_to_bin v = (v AND 0xf) + drop_bit 4 v * 10"

definition bin_to_bcd :: "u8 \<Rightarrow> u8" where
  "bin_to_bcd v = push_bit 4 (v div 10) + v mod 10"

definition div_round_up :: "u32 \<Rightarrow> u32 \<Rightarrow> u32 option" where
  "div_round_up num sz = (if sz = 0 then None else Some ((num + sz - 1) div sz))"

definition isdigit :: "int \<Rightarrow> bool" where
  "isdigit c \<longleftrightarrow> 48 \<le> c \<and> c \<le> 57"

text \<open>The loop of \<open>atoi\<close> does not look whether the characters are digits.\<close>

partial_function (option) atoi_loop :: "mem \<Rightarrow> nat \<Rightarrow> int \<Rightarrow> int option" where
  "atoi_loop m str result = do {
     b \<leftarrow> m str;
     if b = 0 then Some result
     else do {
       ten \<leftarrow> int32 (result * 10);
       result \<leftarrow> int32 (ten + (sint b - 48));
       atoi_loop m (str + 1) result } }"

declare atoi_loop.simps [code]

definition atoi :: "mem \<Rightarrow> nat option \<Rightarrow> int option" where
  "atoi m str = (case str of None \<Rightarrow> Some 0 | Some str \<Rightarrow> do {
     b \<leftarrow> m str;
     if b = 45 then do { result \<leftarrow> atoi_loop m (str + 1) 0; int32 (result * -1) }
     else do { result \<leftarrow> atoi_loop m str 0; int32 (result * 1) } })"

subsection \<open>Packed decimal\<close>

lemma all_below_100: "(\<forall>n<100. P (n :: nat)) \<longleftrightarrow> list_all P [0..<100]"
  by (auto simp: list_all_iff)

lemma bcd_roundtrip_list: "list_all (\<lambda>n. bcd_to_bin (bin_to_bcd (of_nat n)) = (of_nat n :: u8)) [0..<100]"
  by code_simp

text \<open>Packing a number below 100 into decimal digits and unpacking it gives it back.\<close>

lemma bcd_roundtrip:
  assumes "v < 100"
  shows "bcd_to_bin (bin_to_bcd v) = v"
proof -
  have "\<forall>n<100. bcd_to_bin (bin_to_bcd (of_nat n)) = (of_nat n :: u8)"
    unfolding all_below_100 by (rule bcd_roundtrip_list)
  moreover have "unat v < 100" using assms by (simp add: word_less_nat_alt)
  ultimately have "bcd_to_bin (bin_to_bcd (of_nat (unat v))) = (of_nat (unat v) :: u8)" by blast
  then show ?thesis by simp
qed

subsection \<open>Rounded division\<close>

lemma div_round_up_ceiling:
  assumes "sz \<noteq> 0" "unat num + unat sz \<le> 2 ^ 32"
  shows "\<exists>q. div_round_up num sz = Some q \<and> unat q = (unat num + unat sz - 1) div unat sz"
proof -
  have s0: "0 < unat sz" using assms(1) by (simp add: unat_gt_0)
  have "num + sz - 1 = num + (sz - 1)" by (rule add_diff_eq [symmetric])
  moreover have p: "unat (sz - 1) = unat sz - 1" using assms(1) by (simp add: unat_minus_one)
  moreover have "unat (num + (sz - 1)) = unat num + unat (sz - 1)"
    by (rule unat_plus_bound) (use assms(2) s0 p in simp)
  ultimately have "unat (num + sz - 1) = unat num + unat sz - 1" using s0 by (simp only:)
  then show ?thesis using assms(1) by (simp add: div_round_up_def unat_div)
qed

subsection \<open>Decimal text\<close>

definition digits_val :: "bytes \<Rightarrow> int" where
  "digits_val = foldl (\<lambda>r b. r * 10 + (sint b - 48)) 0"

definition digit :: "u8 \<Rightarrow> bool" where
  "digit b \<longleftrightarrow> isdigit (sint b)"

lemma digit_sint: "digit b \<Longrightarrow> 48 \<le> sint b \<and> sint b \<le> 57"
  by (simp add: digit_def isdigit_def)

lemma atoi_loop_digits:
  assumes "cstr m p s" "\<forall>b\<in>set s. digit b" "0 \<le> r" "(r + 1) * 10 ^ length s \<le> 2147483647"
  shows "atoi_loop m p r = Some (foldl (\<lambda>r b. r * 10 + (sint b - 48)) r s)
    \<and> 0 \<le> foldl (\<lambda>r b. r * 10 + (sint b - 48)) r s
    \<and> foldl (\<lambda>r b. r * 10 + (sint b - 48)) r s < (r + 1) * 10 ^ length s"
  using assms
proof (induction s arbitrary: p r)
  case Nil
  then show ?case by (simp add: atoi_loop.simps [of m p] cstr_Nil EOS_def)
next
  case (Cons b s)
  let ?r = "r * 10 + (sint b - 48)"
  have b: "48 \<le> sint b" "sint b \<le> 57" using Cons.prems(2) digit_sint by auto
  have pw: "(1 :: int) \<le> 10 ^ length s" by simp
  have "(?r + 1) * 10 ^ length s \<le> ((r + 1) * 10) * 10 ^ length s"
    by (rule mult_right_mono) (use b in auto)
  then have le: "(?r + 1) * 10 ^ length s \<le> (r + 1) * 10 ^ length (b # s)" by simp
  have r0: "0 \<le> ?r" using Cons.prems(3) b by simp
  have "(?r + 1) * 1 \<le> (?r + 1) * 10 ^ length s" by (rule mult_left_mono) (use pw r0 in auto)
  also have "\<dots> \<le> 2147483647" using order_trans [OF le Cons.prems(4)] .
  finally have bound: "?r < 2147483647" by simp
  have IH: "atoi_loop m (Suc p) ?r = Some (foldl (\<lambda>r b. r * 10 + (sint b - 48)) ?r s)
    \<and> 0 \<le> foldl (\<lambda>r b. r * 10 + (sint b - 48)) ?r s
    \<and> foldl (\<lambda>r b. r * 10 + (sint b - 48)) ?r s < (?r + 1) * 10 ^ length s"
    by (rule Cons.IH) (use Cons.prems r0 order_trans [OF le Cons.prems(4)] in \<open>auto simp: cstr_Cons\<close>)
  have "int32 (r * 10) = Some (r * 10)" "int32 ?r = Some ?r"
    using bound b Cons.prems(3) r0 by auto
  moreover have "m p = Some b" "b \<noteq> 0" using Cons.prems(1) by (auto simp: cstr_Cons EOS_def)
  ultimately show ?case
    using IH less_le_trans [OF conjunct2 [OF conjunct2 [OF IH]] le]
    by (simp add: atoi_loop.simps [of m p r])
qed

lemma atoi_decimal:
  assumes "cstr m p (sign @ ds)" "sign = [] \<or> sign = [45]" "\<forall>b\<in>set ds. digit b" "length ds \<le> 9"
  shows "atoi m (Some p) = Some (if sign = [] then digits_val ds else - digits_val ds)"
proof -
  have "(10 :: int) ^ length ds \<le> 10 ^ 9" using assms(4) by (intro power_increasing) auto
  then have b: "(0 + 1 :: int) * 10 ^ length ds \<le> 2147483647" by simp
  have loop: "atoi_loop m q 0 = Some (digits_val ds) \<and> 0 \<le> digits_val ds \<and> digits_val ds < 2147483647"
    if "cstr m q ds" for q
    using atoi_loop_digits [OF that assms(3) _ b] b unfolding digits_val_def by simp
  show ?thesis
  proof (cases "sign = []")
    case True
    have c: "cstr m p ds" using assms(1) True by simp
    obtain c' where c': "m p = Some c'" "c' \<noteq> 45"
    proof (cases ds)
      case Nil
      with c that show ?thesis by (auto simp: cstr_Nil EOS_def)
    next
      case (Cons d ds')
      moreover have "d \<noteq> 45" using assms(3) Cons digit_sint [of d] by auto
      ultimately show ?thesis using c that by (auto simp: cstr_Cons)
    qed
    then show ?thesis using loop [OF c] True by (simp add: atoi_def)
  next
    case False
    then have c: "m p = Some 45" "cstr m (Suc p) ds" using assms(1,2) by (auto simp: cstr_Cons)
    then show ?thesis using loop [OF c(2)] False by (simp add: atoi_def)
  qed
qed

text \<open>\<open>atoi\<close> reads a decimal numeral of at most nine digits, with an optional minus sign,
  as the number it denotes, and never overflows on it.\<close>

theorem atoi_reads_decimal:
  assumes "cstr m p (sign @ ds)" "sign = [] \<or> sign = [45]" "\<forall>b\<in>set ds. digit b" "length ds \<le> 9"
  shows "atoi m (Some p) = Some (if sign = [] then digits_val ds else - digits_val ds)"
  using assms by (rule atoi_decimal)

theorem atoi_reads_decimal_witness:
  "atoi (\<lambda>a. rd [45, 52, 50, 0] a) (Some 0)
   = Some (if [45 :: u8] = [] then digits_val [52, 50] else - digits_val [52, 50])"
  by (rule atoi_reads_decimal) (auto simp: cstr_def digit_def isdigit_def rd_def c_defs)

end
