(* ===== verification/Time.thy ===== *)
theory Time
  imports Stdlib "HOL-Library.Signed_Division"
begin

section \<open>Calendar time: \<open>kernel/time.c\<close>\<close>

text \<open>
  The broken-down time of \<open>include/phinix/time.h\<close> and the conversions of
  \<open>kernel/time.c\<close> (\<open>lib/time.c\<close> holds a second copy of \<open>localtime\<close>). \<open>time_t\<close>
  is a 32-bit unsigned number; the \<open>int\<close> computations are checked with \<open>int32\<close>. The CMOS
  chip is a parameter: \<open>cmos n r\<close> is the byte the \<open>n\<close>-th read gives for register \<open>r\<close>.
  The reference calendar is the Gregorian one, written as a sum over years and months.
\<close>

record tm =
  sec :: int
  tm_min :: int
  hour :: int
  mday :: int
  mon :: int
  year :: int
  wday :: int
  yday :: int
  isdst :: int

definition MINUTE :: int where [c_defs]: "MINUTE = 60"
definition HOUR :: int where [c_defs]: "HOUR = 60 * MINUTE"
definition DAY :: int where [c_defs]: "DAY = 24 * HOUR"
definition YEAR :: int where [c_defs]: "YEAR = 365 * DAY"

definition month :: "int list" where
  "month = [0, 0, 31, 31 + 29, 31 + 29 + 31, 31 + 29 + 31 + 30, 31 + 29 + 31 + 30 + 31,
    31 + 29 + 31 + 30 + 31 + 30, 31 + 29 + 31 + 30 + 31 + 30 + 31,
    31 + 29 + 31 + 30 + 31 + 30 + 31 + 31, 31 + 29 + 31 + 30 + 31 + 30 + 31 + 31 + 30,
    31 + 29 + 31 + 30 + 31 + 30 + 31 + 31 + 30 + 31,
    31 + 29 + 31 + 30 + 31 + 30 + 31 + 31 + 30 + 31 + 30]"

definition month_at :: "int \<Rightarrow> int option" where
  "month_at m = (if m < 0 then None else rd month (nat m))"

definition get_yday :: "tm \<Rightarrow> int option" where
  "get_yday time = do {
     res \<leftarrow> month_at (mon time);
     res \<leftarrow> int32 (res + mday time);
     let y = (if year time \<ge> 70 then year time - 70 else year time - 70 + 100);
     Some (if (y + 2) smod 4 \<noteq> 0 \<and> mon time > 2 then res - 1 else res) }"

subsection \<open>Reading the CMOS clock\<close>

definition CMOS_SECOND :: u8 where [c_defs]: "CMOS_SECOND = 0x00"
definition CMOS_MINUTE :: u8 where [c_defs]: "CMOS_MINUTE = 0x02"
definition CMOS_HOUR :: u8 where [c_defs]: "CMOS_HOUR = 0x04"
definition CMOS_WEEKDAY :: u8 where [c_defs]: "CMOS_WEEKDAY = 0x06"
definition CMOS_DAY :: u8 where [c_defs]: "CMOS_DAY = 0x07"
definition CMOS_MONTH :: u8 where [c_defs]: "CMOS_MONTH = 0x08"
definition CMOS_YEAR :: u8 where [c_defs]: "CMOS_YEAR = 0x09"
definition CMOS_CENTURY :: u8 where [c_defs]: "CMOS_CENTURY = 0x32"

text \<open>Nine reads per round; the result carries the century and the number of reads so far.\<close>

partial_function (option) time_read_bcd ::
  "(nat \<Rightarrow> u8 \<Rightarrow> u8) \<Rightarrow> nat \<Rightarrow> tm \<Rightarrow> (tm \<times> int \<times> nat) option" where
  "time_read_bcd cmos n time =
     (let rd8 = (\<lambda>k r. uint (cmos (n + k) r));
          time = time\<lparr>sec := rd8 0 CMOS_SECOND, tm_min := rd8 1 CMOS_MINUTE, hour := rd8 2 CMOS_HOUR,
            wday := rd8 3 CMOS_WEEKDAY, mday := rd8 4 CMOS_DAY, mon := rd8 5 CMOS_MONTH,
            year := rd8 6 CMOS_YEAR\<rparr>;
          century = rd8 7 CMOS_CENTURY
      in if sec time \<noteq> rd8 8 CMOS_SECOND then time_read_bcd cmos (n + 9) time
         else Some (time, century, n + 9))"

declare time_read_bcd.simps [code]

definition bin :: "int \<Rightarrow> int" where
  "bin v = uint (bcd_to_bin (word_of_int v))"

definition time_read :: "(nat \<Rightarrow> u8 \<Rightarrow> u8) \<Rightarrow> nat \<Rightarrow> tm \<Rightarrow> (tm \<times> int \<times> nat) option" where
  "time_read cmos n time = do {
     (time, century, n) \<leftarrow> time_read_bcd cmos n time;
     let time = time\<lparr>sec := bin (sec time), tm_min := bin (tm_min time), hour := bin (hour time),
       wday := bin (wday time), mday := bin (mday time), mon := bin (mon time),
       year := bin (year time)\<rparr>;
     yd \<leftarrow> get_yday time;
     Some (time\<lparr>yday := yd, isdst := -1\<rparr>, bin century, n) }"

subsection \<open>Conversions\<close>

definition elapsed_leap_years :: "int \<Rightarrow> int" where
  "elapsed_leap_years y =
     (y - 1) sdiv 4 - (y - 1) sdiv 100 + (y + 299) sdiv 400 - (1970 - 1900) sdiv 4"

definition is_leap_year :: "int \<Rightarrow> bool" where
  "is_leap_year y \<longleftrightarrow>
     (y smod 4 = 0 \<and> y smod 100 \<noteq> 0) \<or> (y + 1900) smod 400 = 0"

function mon_loop :: "int \<Rightarrow> int \<Rightarrow> nat \<Rightarrow> nat" where
  "mon_loop offset yd i =
     (if i < 13 \<and> \<not> (month ! i - offset > yd) then mon_loop offset yd (i + 1) else i)"
  by auto
termination by (relation "measure (\<lambda>(offset, yd, i). 13 - i)") auto

declare mon_loop.simps [simp del]

definition localtime :: "u32 \<Rightarrow> tm \<Rightarrow> tm option" where
  "localtime stamp time =
     (let time = time\<lparr>sec := uint (stamp mod 60)\<rparr>;
          remain = stamp div 60;
          time = time\<lparr>tm_min := uint (remain mod 60)\<rparr>;
          remain = remain div 60;
          time = time\<lparr>hour := uint (remain mod 24)\<rparr>;
          days = remain div 24;
          time = time\<lparr>wday := uint ((days + 4) mod 7)\<rparr>;
          years = sint (days div 365 + 70);
          time = time\<lparr>year := years\<rparr>;
          offset = (if is_leap_year years then 0 else 1);
          days = days - word_of_int (elapsed_leap_years years);
          time = time\<lparr>yday := uint (days mod word_of_int (366 - offset))\<rparr>;
          m = mon_loop offset (yday time) 1;
          time = time\<lparr>mon := int m - 1\<rparr>
      in do { start \<leftarrow> month_at (mon time);
              Some (time\<lparr>mday := yday time - start + offset + 1\<rparr>) })"

definition mktime :: "tm \<Rightarrow> u32 option" where
  "mktime time = do {
     y \<leftarrow> int32 (if year time \<ge> 70 then year time - 70 else year time - 70 + 100);
     secs \<leftarrow> int32 (YEAR * y);
     let res = word_of_int secs;
     secs \<leftarrow> int32 (DAY * ((y + 1) sdiv 4));
     let res = res + word_of_int secs;
     start \<leftarrow> month_at (mon time);
     secs \<leftarrow> int32 (start * DAY);
     let res = res + word_of_int secs;
     let res = (if mon time > 2 \<and> (y + 2) smod 4 \<noteq> 0 then res - word_of_int DAY else res);
     secs \<leftarrow> int32 (DAY * (mday time - 1));
     let res = res + word_of_int secs;
     secs \<leftarrow> int32 (HOUR * hour time);
     let res = res + word_of_int secs;
     secs \<leftarrow> int32 (MINUTE * tm_min time);
     let res = res + word_of_int secs;
     Some (res + word_of_int (sec time)) }"

subsection \<open>The real-time clock alarm and the system clock\<close>

text \<open>\<open>set_alarm\<close> of \<open>kernel/rtc.c\<close>, after the time has been read: the registers it
  writes, in order, with their values. The variables \<open>sec\<close>, \<open>tm_min\<close> and \<open>hour\<close> are
  bytes; \<open>secs\<close> is unsigned.\<close>

definition set_alarm :: "tm \<Rightarrow> u32 \<Rightarrow> (u8 \<times> u8) list" where
  "set_alarm time secs =
     (let s = uint (ucast (secs mod 60) :: u8); secs = secs div 60;
          m = uint (ucast (secs mod 60) :: u8); secs = secs div 60;
          h = uint (ucast (secs mod 60) :: u8);
          time = time\<lparr>sec := sec time + s\<rparr>;
          time = (if sec time \<ge> 60
                  then time\<lparr>sec := sec time smod 60, tm_min := tm_min time + 1\<rparr> else time);
          time = time\<lparr>tm_min := tm_min time + m\<rparr>;
          time = (if tm_min time \<ge> 60
                  then time\<lparr>tm_min := tm_min time smod 60, hour := hour time + 1\<rparr> else time);
          time = time\<lparr>hour := hour time + h\<rparr>;
          time = (if hour time \<ge> 24 then time\<lparr>hour := hour time smod 24\<rparr> else time)
      in [(0x05, bin_to_bcd (word_of_int (hour time))), (0x03, bin_to_bcd (word_of_int (tm_min time))),
          (0x01, bin_to_bcd (word_of_int (sec time))), (0x0b, 0b00100010)])"

definition JIFFY :: u32 where [c_defs]: "JIFFY = 1000 div 100"

definition sys_time :: "u32 \<Rightarrow> u32 \<Rightarrow> u32" where
  "sys_time startup_time jiffies = startup_time + jiffies * JIFFY div 1000"

subsection \<open>The reference calendar\<close>

definition leap :: "int \<Rightarrow> bool" where
  "leap y \<longleftrightarrow> (y mod 4 = 0 \<and> y mod 100 \<noteq> 0) \<or> y mod 400 = 0"

definition month_days :: "int \<Rightarrow> int \<Rightarrow> int" where
  "month_days y m = (if m = 2 then if leap y then 29 else 28
     else if m \<in> {4, 6, 9, 11} then 30 else 31)"

definition year_start :: "int \<Rightarrow> int" where
  "year_start y = (\<Sum>i\<leftarrow>[1970..y - 1]. if leap i then 366 else 365)"

definition month_start :: "int \<Rightarrow> int \<Rightarrow> int" where
  "month_start y m = (\<Sum>i\<leftarrow>[1..m - 1]. month_days y i)"

definition epoch_secs :: "int \<Rightarrow> tm \<Rightarrow> int" where
  "epoch_secs y t = ((year_start y + month_start y (mon t) + (mday t - 1)) * 24 + hour t) * 3600
     + tm_min t * 60 + sec t"

definition valid_tm :: "int \<Rightarrow> tm \<Rightarrow> bool" where
  "valid_tm y t \<longleftrightarrow> 1970 \<le> y \<and> y \<le> 2038 \<and> 1 \<le> mon t \<and> mon t \<le> 12
     \<and> 1 \<le> mday t \<and> mday t \<le> month_days y (mon t)
     \<and> 0 \<le> hour t \<and> hour t < 24 \<and> 0 \<le> tm_min t \<and> tm_min t < 60 \<and> 0 \<le> sec t \<and> sec t < 60"

lemma sdiv_nonneg: "0 \<le> a \<Longrightarrow> 0 \<le> b \<Longrightarrow> a sdiv b = a div b" for a b :: int
  by (auto simp: signed_divide_int_def sgn_if)

lemma smod_nonneg: "0 \<le> a \<Longrightarrow> 0 \<le> b \<Longrightarrow> a smod b = a mod b" for a b :: int
  by (auto simp: signed_modulo_int_def sgn_if)

lemma leap_every_4:
  assumes "1970 \<le> y" "y \<le> 2099"
  shows "leap y \<longleftrightarrow> (y - 1968) mod 4 = 0"
proof -
  have "y = 2000" if "y mod 100 = 0"
  proof -
    have "y = 100 * (y div 100)" using that mult_div_mod_eq [of 100 y] by linarith
    moreover from this have "19 < y div 100" "y div 100 < 21" using assms by linarith+
    then have "y div 100 = 20" by linarith
    ultimately show ?thesis by linarith
  qed
  moreover have "y mod 400 = 0 \<Longrightarrow> y mod 100 = 0"
    using mod_mod_cancel [of 100 400 y] by simp
  moreover have "(y - 1968) mod 4 = 0 \<longleftrightarrow> y mod 4 = 0"
    using mod_mult_self2 [of "y - 1968" 4 492] by simp
  ultimately show ?thesis unfolding leap_def by fastforce
qed

lemma div4_pred:
  fixes z q r :: int
  assumes "z = 4 * q + r" "0 \<le> r" "r < 4"
  shows "(z - 1) div 4 = q - (if r = 0 then 1 else 0)"
proof (cases "r = 0")
  case True
  have "(z - 1) div 4 = q - 1" by (rule int_div_pos_eq [where r = 3]) (use assms True in auto)
  with True show ?thesis by simp
next
  case False
  have "(z - 1) div 4 = q" by (rule int_div_pos_eq [where r = "r - 1"]) (use assms False in auto)
  with False show ?thesis by simp
qed

lemma leap_days_step: "(y - 1968) div 4 = (y - 1969) div 4 + (if (y - 1968) mod 4 = 0 then 1 else 0)"
  for y :: int
  using div4_pred [of "y - 1968" "(y - 1968) div 4" "(y - 1968) mod 4"] by auto

lemma year_start_closed:
  assumes "1970 \<le> y" "y \<le> 2099"
  shows "year_start y = 365 * (y - 1970) + (y - 1969) div 4"
  using assms
proof (induction y rule: int_ge_induct)
  case base
  then show ?case by (simp add: year_start_def)
next
  case (step i)
  have "[1970..i] = [1970..i - 1] @ [i]" using step.hyps by (simp add: upto_rec2)
  then have "year_start (i + 1) = year_start i + (if leap i then 366 else 365)"
    by (simp add: year_start_def)
  moreover have "leap i \<longleftrightarrow> (i - 1968) mod 4 = 0" using step by (intro leap_every_4) auto
  moreover have "i + 1 - 1969 = i - 1968" by simp
  ultimately show ?case using step leap_days_step [of i] by simp
qed

lemma elapsed_leap_years_closed:
  assumes "1970 \<le> y" "y \<le> 2099"
  shows "elapsed_leap_years (y - 1900) = (y - 1969) div 4"
proof -
  have "(y - 1901) div 100 = (y - 1601) div 400"
    using assms by (cases "y \<le> 2000") (simp_all add: div_pos_geq div_pos_pos_trivial)
  moreover have "(y - 1901) div 4 - 17 = (y - 1969) div 4" by presburger
  ultimately show ?thesis using assms by (simp add: elapsed_leap_years_def sdiv_nonneg)
qed

lemma is_leap_year_leap:
  assumes "1970 \<le> y"
  shows "is_leap_year (y - 1900) = leap y"
proof -
  have "(y - 1900) mod 4 = y mod 4" "(y - 1900) mod 100 = y mod 100"
    using mod_mult_self2 [of "y - 1900" 4 475] mod_mult_self2 [of "y - 1900" 100 19] by simp_all
  then show ?thesis using assms by (simp add: is_leap_year_def leap_def smod_nonneg)
qed

lemma month_cases:
  assumes "1 \<le> m" "m \<le> (12 :: int)"
  shows "m \<in> {1, 2, 3, 4, 5, 6, 7, 8, 9, 10, 11, 12}"
proof -
  have "[1..12] = [1, 2, 3, 4, 5, 6, 7, 8, 9, 10, 11, 12 :: int]" by (simp add: upto_rec1)
  moreover have "m \<in> set [1..12]" using assms by simp
  ultimately show ?thesis by (simp only: list.set)
qed

lemma month_facts:
  assumes "1 \<le> m" "m \<le> 12"
  shows "month_at m = Some (month ! nat m)"
    "month_start y m = month ! nat m - (if m > 2 \<and> \<not> leap y then 1 else 0)"
    "0 \<le> month ! nat m" "month ! nat m \<le> 335" "month_days y m \<le> 31"
  using month_cases [OF assms]
  by (auto simp: month_at_def month_def month_start_def month_days_def upto_rec1)

subsection \<open>Correctness of \<open>mktime\<close>\<close>

lemma uint_word_of_int32: "0 \<le> x \<Longrightarrow> x < 4294967296 \<Longrightarrow> uint (word_of_int x :: u32) = x"
  by (simp add: uint_word_of_int)

lemma c_time_units: "MINUTE = 60" "HOUR = 3600" "DAY = 86400" "YEAR = 31536000"
  by (simp_all add: c_defs)

lemma leap_days_bound: "1970 \<le> y \<Longrightarrow> y \<le> 2038 \<Longrightarrow> 0 \<le> (y - 1969) div 4 \<and> (y - 1969) div 4 \<le> 17"
  for y :: int by presburger

lemma epoch_days_bound:
  assumes "valid_tm y t"
  shows "0 \<le> year_start y + month_start y (mon t) + (mday t - 1)"
    "year_start y + month_start y (mon t) + (mday t - 1) \<le> 25300"
proof -
  have m: "0 \<le> month ! nat (mon t)" "month ! nat (mon t) \<le> 335" "month_days y (mon t) \<le> 31"
    "month_start y (mon t) = month ! nat (mon t) - (if mon t > 2 \<and> \<not> leap y then 1 else 0)"
    using month_facts [of "mon t"] assms by (auto simp: valid_tm_def)
  have pos: "0 \<le> month_start y (mon t)"
    unfolding month_start_def by (rule sum_list_nonneg) (auto simp: month_days_def)
  have ys: "year_start y = 365 * (y - 1970) + (y - 1969) div 4"
    using assms by (intro year_start_closed) (auto simp: valid_tm_def)
  show "0 \<le> year_start y + month_start y (mon t) + (mday t - 1)"
    using pos ys leap_days_bound [of y] assms by (auto simp: valid_tm_def)
  have "month_start y (mon t) \<le> 335" using m by auto
  then show "year_start y + month_start y (mon t) + (mday t - 1) \<le> 25300"
    using m ys leap_days_bound [of y] assms by (auto simp: valid_tm_def)
qed

text \<open>What \<open>mktime\<close> makes of a month and of a year as the comments of the header describe them: month 0
  is month 1, and a year below 70 counts from 2000.\<close>

lemma mktime_month_zero: "mktime (t\<lparr>mon := 0\<rparr>) = mktime (t\<lparr>mon := 1\<rparr>)"
  by (simp add: mktime_def month_at_def month_def)

lemma mktime_year_1970: "0 \<le> y \<Longrightarrow> y < 70 \<Longrightarrow> mktime (t\<lparr>year := y\<rparr>) = mktime (t\<lparr>year := y + 100\<rparr>)"
  by (simp add: mktime_def)

text \<open>C24: For every valid date of 1970 to 2038, with the year given as years since 1900 or as the
  two digits the CMOS clock holds, \<open>mktime\<close> returns the number of seconds since the epoch in
  the Gregorian calendar, without an overflow on the way. The month counts from 1. The comments of
  \<open>include/phinix/time.h\<close> say otherwise: a month of 0 to 11, and a year that counts from 1970; the code
  works with neither (\<open>mktime_month_zero\<close>, \<open>mktime_year_1970\<close>).\<close>

theorem mktime_counts_seconds:
  assumes "valid_tm y t" "year t = y - 1900 \<or> year t = y mod 100"
  shows "\<exists>r. mktime t = Some r \<and> uint r = epoch_secs y t"
proof -
  have v: "1970 \<le> y" "y \<le> 2038" "1 \<le> mon t" "mon t \<le> 12" "1 \<le> mday t" "mday t \<le> 31"
    "0 \<le> hour t" "hour t < 24" "0 \<le> tm_min t" "tm_min t < 60" "0 \<le> sec t" "sec t < 60"
    using assms(1) month_facts(5) [of "mon t" y] by (auto simp: valid_tm_def)
  have idx: "(if year t \<ge> 70 then year t - 70 else year t - 70 + 100) = y - 1970"
    using assms(2)
  proof
    assume m: "year t = y mod 100"
    have "y mod 100 = (if y < 2000 then y - 1900 else y - 2000)"
      using v mod_mult_self2 [of "y - 1900" 100 19] mod_mult_self2 [of "y - 2000" 100 20] by auto
    with m v show ?thesis by auto
  qed (use v in auto)
  note m = month_facts(1,3,4) [OF v(3,4)] month_facts(2) [OF v(3,4), of y]
  have leap: "leap y \<longleftrightarrow> (y - 1968) smod 4 = 0"
    using v leap_every_4 [of y] by (simp add: smod_nonneg)
  have q: "(y - 1969) sdiv 4 = (y - 1969) div 4" using v by (intro sdiv_nonneg) auto
  let ?corr = "if mon t > 2 \<and> \<not> leap y then 86400 else 0 :: int"
  have "mktime t = Some (word_of_int (31536000 * (y - 1970)) + word_of_int (86400 * ((y - 1969) div 4))
      + word_of_int (month ! nat (mon t) * 86400) - word_of_int ?corr
      + word_of_int (86400 * (mday t - 1)) + word_of_int (3600 * hour t)
      + word_of_int (60 * tm_min t) + word_of_int (sec t))"
    unfolding mktime_def idx c_time_units Let_def
    using v m leap q leap_days_bound [of y] by simp
  also have "\<dots> = Some (word_of_int (31536000 * (y - 1970) + 86400 * ((y - 1969) div 4)
      + month ! nat (mon t) * 86400 - ?corr + 86400 * (mday t - 1) + 3600 * hour t
      + 60 * tm_min t + sec t))"
    by (simp only: of_int_add of_int_diff)
  also have "\<dots> = Some (word_of_int (epoch_secs y t))"
    by (rule arg_cong [where f = "\<lambda>x. Some (word_of_int x)"])
      (use m(4) v in \<open>auto simp: epoch_secs_def year_start_closed\<close>)
  finally have "mktime t = Some (word_of_int (epoch_secs y t))" .
  moreover have "0 \<le> epoch_secs y t" "epoch_secs y t < 4294967296"
    unfolding epoch_secs_def using v epoch_days_bound [OF assms(1)] by auto
  ultimately show ?thesis using uint_word_of_int32 by auto
qed

definition sample_tm :: tm where
  "sample_tm = \<lparr>sec = 7, tm_min = 30, hour = 12, mday = 29, mon = 2, year = 24, wday = 4,
     yday = 0, isdst = -1\<rparr>"

theorem mktime_counts_seconds_witness:
  "\<exists>r. mktime sample_tm = Some r \<and> uint r = epoch_secs 2024 sample_tm"
  by (rule mktime_counts_seconds) (simp_all add: sample_tm_def valid_tm_def month_days_def leap_def)

subsection \<open>What \<open>localtime\<close> gets right, and what it does not\<close>

lemma mon_loop_stop:
  assumes "k \<le> i" "i \<le> 13" "\<forall>j\<in>set [k..<i]. month ! j - offset \<le> yd"
    and "i = 13 \<or> month ! i - offset > yd"
  shows "mon_loop offset yd k = i"
  using assms
proof (induction "i - k" arbitrary: k)
  case 0
  then show ?case by (auto simp: mon_loop.simps [of _ _ k])
next
  case (Suc n)
  then have k: "k < i" by simp
  have "mon_loop offset yd (k + 1) = i" using Suc k by (intro Suc.hyps) auto
  moreover have "month ! k - offset \<le> yd" using Suc.prems(3) k by simp
  ultimately show ?case using k Suc.prems(2) by (simp add: mon_loop.simps [of _ _ k])
qed

lemma mon_loop_common_year:
  assumes "3 \<le> m" "m \<le> 12" "1 \<le> d" "d \<le> month_days y m" "\<not> leap y"
  shows "mon_loop 1 (month ! nat m - 1 + (d - 1)) 1 = nat m + 1"
proof (rule mon_loop_stop)
  have "sorted month" by (simp add: month_def)
  then have mono: "month ! j \<le> month ! nat m" if "j \<le> nat m" for j
    using that assms(2) by (intro sorted_nth_mono) (auto simp: month_def)
  show "\<forall>j\<in>set [1..<nat m + 1]. month ! j - 1 \<le> month ! nat m - 1 + (d - 1)"
    using mono assms(3) by fastforce
  show "nat m + 1 = 13 \<or> month ! (nat m + 1) - 1 > month ! nat m - 1 + (d - 1)"
    using month_cases [of m] assms by (auto simp: month_def month_days_def)
qed (use assms in auto)

lemma uint_by_unit:
  "uint (w mod 60) = uint w mod 60" "uint (w div 60) = uint w div 60"
  "uint (w mod 24) = uint w mod 24" "uint (w div 24) = uint w div 24" for w :: u32
  by (simp_all add: uint_mod uint_div)

lemma day_split:
  fixes D h mi s :: int
  assumes "0 \<le> h" "h < 24" "0 \<le> mi" "mi < 60" "0 \<le> s" "s < 60"
  shows "((D * 24 + h) * 3600 + mi * 60 + s) mod 60 = s"
    "((D * 24 + h) * 3600 + mi * 60 + s) div 60 = (D * 24 + h) * 60 + mi"
    "((D * 24 + h) * 60 + mi) mod 60 = mi" "((D * 24 + h) * 60 + mi) div 60 = D * 24 + h"
    "(D * 24 + h) mod 24 = h" "(D * 24 + h) div 24 = D"
proof -
  have e: "(D * 24 + h) * 3600 + mi * 60 + s = s + 60 * ((D * 24 + h) * 60 + mi)" by simp
  have f: "(D * 24 + h) * 60 + mi = mi + 60 * (D * 24 + h)" by simp
  show "((D * 24 + h) * 3600 + mi * 60 + s) mod 60 = s"
    "((D * 24 + h) * 3600 + mi * 60 + s) div 60 = (D * 24 + h) * 60 + mi"
    unfolding e using assms by (simp_all del: distrib_left_numeral)
  show "((D * 24 + h) * 60 + mi) mod 60 = mi" "((D * 24 + h) * 60 + mi) div 60 = D * 24 + h"
    unfolding f using assms by (simp_all del: distrib_left_numeral)
  show "(D * 24 + h) mod 24 = h" "(D * 24 + h) div 24 = D" using assms by simp_all
qed

text \<open>\<open>localtime\<close> inverts the calendar from the first of March of every common year up to
  the days at its end that the leap days since 1970 have displaced: there the fields are the
  date and time of the stamp.\<close>

theorem localtime_common_year:
  assumes "valid_tm y t" "\<not> leap y" "3 \<le> mon t"
    and "month_start y (mon t) + (mday t - 1) + (y - 1969) div 4 < 365"
    and "uint stamp = epoch_secs y t"
  shows "\<exists>u. localtime stamp old = Some u \<and> year u = y - 1900 \<and> mon u = mon t \<and> mday u = mday t
    \<and> hour u = hour t \<and> tm_min u = tm_min t \<and> sec u = sec t
    \<and> wday u = (year_start y + month_start y (mon t) + mday t + 3) mod 7"
proof -
  have v: "1970 \<le> y" "y \<le> 2038" "1 \<le> mon t" "mon t \<le> 12" "1 \<le> mday t"
    "mday t \<le> month_days y (mon t)" "0 \<le> hour t" "hour t < 24" "0 \<le> tm_min t" "tm_min t < 60"
    "0 \<le> sec t" "sec t < 60"
    using assms(1) by (auto simp: valid_tm_def)
  let ?L = "(y - 1969) div 4"
  let ?yd = "month ! nat (mon t) - 1 + (mday t - 1)"
  let ?D = "year_start y + month_start y (mon t) + (mday t - 1)"
  note m = month_facts(1,3,4) [OF v(3,4)] month_facts(2) [OF v(3,4), of y]
  have ys: "year_start y = 365 * (y - 1970) + ?L" using v by (intro year_start_closed) auto
  have ms: "month_start y (mon t) = month ! nat (mon t) - 1" using m(4) assms(2,3) by simp
  have L: "0 \<le> ?L" "?L \<le> 17" using leap_days_bound v by blast+
  have m3: "59 \<le> month ! nat (mon t) - 1"
    using month_cases [OF v(3,4)] assms(3) by (auto simp: month_def)
  have D: "?D = 365 * (y - 1970) + (?L + ?yd)" using ys ms by simp
  have Db: "0 \<le> ?D" "?D \<le> 25300" using epoch_days_bound [OF assms(1)] by auto
  note sp = day_split [OF v(7-12), of ?D]
  have st: "uint stamp = (?D * 24 + hour t) * 3600 + tm_min t * 60 + sec t"
    using assms(5) by (simp add: epoch_secs_def)
  have secs: "uint (stamp mod 60) = sec t" by (simp only: uint_by_unit st sp)
  have mins: "uint (stamp div 60 mod 60) = tm_min t" by (simp only: uint_by_unit st sp)
  have hours: "uint (stamp div 60 div 60 mod 24) = hour t" by (simp only: uint_by_unit st sp)
  define days where "days = stamp div 60 div 60 div 24"
  have days: "uint days = ?D" by (simp only: days_def uint_by_unit st sp)
  have D365: "uint days = 365 * (y - 1970) + (?L + ?yd)" using days D by simp
  have r: "0 \<le> ?L + ?yd" "?L + ?yd < 365" using assms(4) L m3 v(5) ms by auto
  have "uint days div 365 = y - 1970" by (rule int_div_pos_eq [OF D365 r])
  then have "uint (days div 365) = y - 1970" by (simp add: uint_div)
  moreover have "uint (days div 365 + 70) = uint (days div 365) + 70"
    using calculation v by (simp add: uint_word_ariths)
  ultimately have "uint (days div 365 + 70) = y - 1900" by simp
  then have yrs: "sint (days div 365 + 70) = y - 1900"
    using v by (simp add: sint_uint signed_take_bit_int_eq_self)
  have el: "elapsed_leap_years (y - 1900) = ?L" using v by (intro elapsed_leap_years_closed) auto
  have ly: "\<not> is_leap_year (y - 1900)" using assms(2) is_leap_year_leap v by blast
  have "uint (days - word_of_int ?L) = uint days - ?L"
    using L D365 r v m3 by (simp add: uint_word_ariths uint_word_of_int)
  moreover have "uint days - ?L = 365 * (y - 1970) + ?yd" using D365 by simp
  moreover have "(365 * (y - 1970) + ?yd) mod 365 = ?yd"
    using r L m3 v(5) by (intro int_mod_pos_eq [of _ _ "y - 1970"]) auto
  ultimately have yd: "uint ((days - word_of_int ?L) mod 365) = ?yd" by (simp add: uint_mod)
  have sc: "mon_loop 1 ?yd 1 = nat (mon t) + 1"
    using v assms(2,3) by (intro mon_loop_common_year) auto
  have "uint (days + 4) = uint days + 4" using days Db by (simp add: uint_word_ariths)
  then have "uint (days + 4) = year_start y + month_start y (mon t) + mday t + 3"
    using days by simp
  then have wd: "uint ((days + 4) mod 7) = (year_start y + month_start y (mon t) + mday t + 3) mod 7"
    by (simp only: uint_mod) simp
  show ?thesis
    unfolding localtime_def Let_def days_def [symmetric]
    using secs mins hours yrs el ly yd sc wd m(1) v by simp
qed

text \<open>The sample: 15 March 2023, 08:05:09.\<close>

definition sample_day :: tm where
  "sample_day = \<lparr>sec = 9, tm_min = 5, hour = 8, mday = 15, mon = 3, year = 123, wday = 3,
     yday = 0, isdst = -1\<rparr>"

lemma year_start_2023: "year_start 2023 = 19358"
  by (simp add: year_start_closed)

lemma month_start_sample: "month_start 2023 3 = 59"
  by (simp add: month_facts(2) month_def leap_def)

theorem localtime_common_year_witness:
  "\<exists>u. localtime 1678867509 sample_tm = Some u \<and> year u = 2023 - 1900 \<and> mon u = mon sample_day
    \<and> mday u = mday sample_day \<and> hour u = hour sample_day \<and> tm_min u = tm_min sample_day
    \<and> sec u = sec sample_day
    \<and> wday u = (year_start 2023 + month_start 2023 (mon sample_day) + mday sample_day + 3) mod 7"
  by (rule localtime_common_year)
    (simp_all add: sample_day_def valid_tm_def month_days_def leap_def epoch_secs_def
      year_start_2023 month_start_sample)

text \<open>The dates \<open>localtime\<close> does not get right: it calls the epoch, 1 January 1970,
  the second of January, the first day of 1972 the thirtieth of December 1972, and the last day
  of 1972 the last of 1973.\<close>

theorem localtime_wrong_dates:
  "map_option (\<lambda>u. (year u, mon u, mday u)) (localtime 0 sample_tm) = Some (70, 1, 2)
   \<and> map_option (\<lambda>u. (year u, mon u, mday u)) (localtime (730 * 86400) sample_tm) = Some (72, 12, 30)
   \<and> map_option (\<lambda>u. (year u, mon u, mday u)) (localtime (1095 * 86400) sample_tm) = Some (73, 12, 31)"
  by code_simp

subsection \<open>The alarm and the system clock\<close>

text \<open>The time of day after some seconds, when no field of the sum carries more than once.\<close>

definition alarm_fields :: "tm \<Rightarrow> int \<Rightarrow> int \<times> int \<times> int" where
  "alarm_fields t secs =
     (let T = (hour t * 3600 + tm_min t * 60 + sec t + secs) mod 86400
      in (T div 3600, T div 60 mod 60, T mod 60))"

lemma uint_ucast_u8: "uint (w :: u32) < 256 \<Longrightarrow> uint (ucast w :: u8) = uint w"
  unfolding ucast_eq uint_word_of_int by (simp add: take_bit_eq_mod)

lemma clock_carry:
  fixes h mi s :: int
  assumes "0 \<le> h" "0 \<le> mi" "mi < 60" "0 \<le> s" "s < 60"
  shows "(h * 3600 + mi * 60 + s) mod 86400 = (h mod 24) * 3600 + mi * 60 + s"
proof -
  have "h * 3600 + mi * 60 + s = 86400 * (h div 24) + ((h mod 24) * 3600 + mi * 60 + s)"
    using mult_div_mod_eq [of 24 h] by linarith
  moreover have "0 \<le> (h mod 24) * 3600 + mi * 60 + s" using assms by simp
  moreover have "(h mod 24) * 3600 + mi * 60 + s < 86400"
    using assms pos_mod_bound [of 24 h] by linarith
  ultimately show ?thesis by (rule int_mod_pos_eq)
qed

lemma clock_fields:
  fixes h mi s :: int
  assumes "0 \<le> h" "0 \<le> mi" "mi < 60" "0 \<le> s" "s < 60"
  shows "(h * 3600 + mi * 60 + s) div 3600 = h" "(h * 3600 + mi * 60 + s) div 60 mod 60 = mi"
    "(h * 3600 + mi * 60 + s) mod 60 = s"
proof -
  show "(h * 3600 + mi * 60 + s) div 3600 = h"
    by (rule int_div_pos_eq [where r = "mi * 60 + s"]) (use assms in auto)
  have "(h * 3600 + mi * 60 + s) div 60 = h * 60 + mi"
    by (rule int_div_pos_eq [where r = s]) (use assms in auto)
  then show "(h * 3600 + mi * 60 + s) div 60 mod 60 = mi" using assms by simp
  show "(h * 3600 + mi * 60 + s) mod 60 = s"
    by (rule int_mod_pos_eq [where q = "h * 60 + mi"]) (use assms in auto)
qed

text \<open>For a delay of less than sixty hours \<open>set_alarm\<close> programs the clock registers with the
  time of day that many seconds ahead, in packed decimal, and enables the interrupt last.\<close>

lemma set_alarm_adds:
  assumes "0 \<le> hour t" "hour t < 24" "0 \<le> tm_min t" "tm_min t < 60" "0 \<le> sec t" "sec t < 60"
    and "uint secs < 216000"
  shows "set_alarm t secs = (let (h, m, s) = alarm_fields t (uint secs) in
     [(0x05, bin_to_bcd (word_of_int h)), (0x03, bin_to_bcd (word_of_int m)),
      (0x01, bin_to_bcd (word_of_int s)), (0x0b, 0b00100010)])"
proof -
  define a b c where abc: "a = uint secs div 60 div 60" "b = uint secs div 60 mod 60" "c = uint secs mod 60"
  have secs: "uint secs = a * 3600 + b * 60 + c"
    unfolding abc
    using mult_div_mod_eq [of 60 "uint secs"] mult_div_mod_eq [of 60 "uint secs div 60"] by linarith
  have range: "0 \<le> a" "a < 60" "0 \<le> b" "b < 60" "0 \<le> c" "c < 60"
  proof -
    have "0 \<le> uint secs" "uint secs < 216000" using assms(7) by simp_all
    then show "0 \<le> a" "a < 60" unfolding abc by linarith+
  qed (simp_all add: abc)
  have w: "uint (secs mod 60) = c" "uint (secs div 60 mod 60) = b" "uint (secs div 60 div 60) = a"
    by (simp_all add: abc uint_mod uint_div)
  have "uint (secs div 60 div 60 mod 60) = a mod 60" unfolding uint_mod w by simp
  then have w4: "uint (secs div 60 div 60 mod 60) = a" using range by simp
  have u: "uint (ucast (secs mod 60) :: u8) = c" "uint (ucast (secs div 60 mod 60) :: u8) = b"
    "uint (ucast (secs div 60 div 60 mod 60) :: u8) = a"
    using uint_ucast_u8 [of "secs mod 60"] uint_ucast_u8 [of "secs div 60 mod 60"]
      uint_ucast_u8 [of "secs div 60 div 60 mod 60"] w w4 range by linarith+
  define cs where "cs = (if sec t + c \<ge> 60 then 1 else 0 :: int)"
  define s where "s = sec t + c - 60 * cs"
  define cm where "cm = (if tm_min t + cs + b \<ge> 60 then 1 else 0 :: int)"
  define m where "m = tm_min t + cs + b - 60 * cm"
  define h where "h = hour t + cm + a"
  have r: "0 \<le> s" "s < 60" "0 \<le> m" "m < 60" "0 \<le> h"
    using assms range by (auto simp: s_def m_def h_def cs_def cm_def)
  have "hour t * 3600 + tm_min t * 60 + sec t + uint secs = h * 3600 + m * 60 + s"
    by (simp add: secs h_def m_def s_def)
  then have "alarm_fields t (uint secs) = (h mod 24, m, s)"
    using clock_carry [OF r(5,3,4,1,2)] clock_fields [OF _ r(3,4,1,2), of "h mod 24"]
    by (simp only: alarm_fields_def Let_def)
  then have fields: "(let (h, m, s) = alarm_fields t (uint secs) in
     [(0x05, bin_to_bcd (word_of_int h)), (0x03, bin_to_bcd (word_of_int m)),
      (0x01, bin_to_bcd (word_of_int s)), (0x0b, 0b00100010)])
    = [(0x05, bin_to_bcd (word_of_int (h mod 24))), (0x03, bin_to_bcd (word_of_int m)),
       (0x01, bin_to_bcd (word_of_int s)), (0x0b, 0b00100010)]"
    by simp
  have s1: "(sec t + c) smod 60 = s" if "sec t + c \<ge> 60"
  proof -
    have "(sec t + c) mod 60 = s"
      by (rule int_mod_pos_eq [of _ _ 1]) (use that r in \<open>auto simp: s_def cs_def\<close>)
    then show ?thesis using that by (simp add: smod_nonneg)
  qed
  have m1: "(tm_min t + cs + b) smod 60 = m" if "tm_min t + cs + b \<ge> 60"
  proof -
    have "(tm_min t + cs + b) mod 60 = m"
      by (rule int_mod_pos_eq [of _ _ 1]) (use that r in \<open>auto simp: m_def cm_def\<close>)
    then show ?thesis using that by (simp add: smod_nonneg)
  qed
  have h1: "(if h \<ge> 24 then h smod 24 else h) = h mod 24" using r by (simp add: smod_nonneg)
  show ?thesis
    unfolding fields unfolding set_alarm_def u Let_def h1 [symmetric]
    by (cases "sec t + c \<ge> 60"; cases "tm_min t + cs + b \<ge> 60")
      (use m1 in \<open>simp_all add: s1 cs_def cm_def s_def m_def h_def\<close>)
qed

lemma sys_time_exact:
  assumes "unat jiffies < 429496730"
  shows "sys_time start jiffies = start + jiffies div 100"
proof -
  have "unat (jiffies * 10) = unat jiffies * 10" using assms by (simp add: unat_word_ariths)
  then have "unat (jiffies * 10 div 1000) = unat (jiffies div 100)" by (simp add: unat_div)
  then show ?thesis by (simp add: sys_time_def JIFFY_def word_unat_eq_iff [symmetric] del: word_unat_eq_iff)
qed

text \<open>After about 49.7 days the product \<open>jiffies * JIFFY\<close> wraps and the clock jumps back.\<close>

lemma sys_time_wraps: "sys_time start 429496729 = start + 4294967 \<and> sys_time start 429496730 = start"
  by (simp add: sys_time_def JIFFY_def)

end
