(* ===== verification/Vsprintf.thy ===== *)
theory Vsprintf
  imports Stdlib
begin

section \<open>Formatted output: \<open>lib/vsprintf.c\<close>\<close>

text \<open>
  The output is the list of bytes written so far; the format is the list of its characters, and
  \<open>peek\<close> reads its terminator as zero. An argument is a 32-bit word or a \<open>double\<close>, of which
  the code only observes the sign, the integer part and the first six decimals of its absolute
  value, the three components of \<open>dbl\<close>; an argument of the wrong kind has no result, and so
  has a read outside the memory that \<open>\<open>%s\<close>\<close>, \<open>\<open>%m\<close>\<close> and \<open>\<open>%r\<close>\<close> point to.
  \<open>\<open>%n\<close>\<close> stores are collected in order.
\<close>

definition ZERO_PAD :: u32 where [c_defs]: "ZERO_PAD = 0x01"
definition SIGN :: u32 where [c_defs]: "SIGN = 0x02"
definition PLUS :: u32 where [c_defs]: "PLUS = 0x04"
definition SPACE :: u32 where [c_defs]: "SPACE = 0x08"
definition LEFT :: u32 where [c_defs]: "LEFT = 0x10"
definition SPECIAL :: u32 where [c_defs]: "SPECIAL = 0x20"
definition SMALL :: u32 where [c_defs]: "SMALL = 0x40"
definition DOUBLE :: u32 where [c_defs]: "DOUBLE = 0x80"

definition has :: "u32 \<Rightarrow> u32 \<Rightarrow> bool" where
  [c_defs]: "has flags f \<longleftrightarrow> flags AND f \<noteq> 0"

definition is_digit :: "u8 \<Rightarrow> bool" where
  "is_digit c \<longleftrightarrow> 48 \<le> sint c \<and> sint c \<le> 57"

definition peek :: "bytes \<Rightarrow> u8" where
  "peek fmt = (case fmt of [] \<Rightarrow> 0 | c # _ \<Rightarrow> c)"

record dbl =
  dneg :: bool
  dival :: u32
  dfval :: u32

datatype arg = Word u32 | Dbl dbl

fun skip_atoi :: "int \<Rightarrow> bytes \<Rightarrow> (int \<times> bytes) option" where
  "skip_atoi i [] = Some (i, [])"
| "skip_atoi i (c # fmt) =
     (if is_digit c
      then do { ten \<leftarrow> int32 (i * 10); sum \<leftarrow> int32 (ten + sint c); i \<leftarrow> int32 (sum - 48);
                skip_atoi i fmt }
      else Some (i, c # fmt))"

subsection \<open>One number\<close>

definition chm_table :: "u32 \<Rightarrow> bytes" where
  "chm_table flags = map of_nat ([48..<58] @ (if has flags SMALL then [97..<123] else [65..<91]))"

text \<open>The digit loops, with the digits in the order they enter \<open>tmp\<close>: \<open>while\<close> for
  integers, \<open>do ... while\<close> for the two parts of a \<open>double\<close>.\<close>

function digits :: "bytes \<Rightarrow> u32 \<Rightarrow> u32 \<Rightarrow> bytes" where
  "digits chm base num =
     (if base < 2 \<or> num = 0 then [] else chm ! unat (num mod base) # digits chm base (num div base))"
  by auto
termination
proof (relation "measure (\<lambda>(chm, base, num). unat num)")
  fix base num :: u32
  assume "\<not> (base < 2 \<or> num = 0)"
  then have "1 < unat base" "0 < unat num" by (auto simp: word_less_nat_alt unat_gt_0)
  then show "((chm, base, num div base), (chm, base, num)) \<in> measure (\<lambda>(chm, base, num). unat num)"
    for chm :: bytes by (simp add: unat_div)
qed simp

declare digits.simps [simp del]

definition digits1 :: "bytes \<Rightarrow> u32 \<Rightarrow> u32 \<Rightarrow> bytes" where
  "digits1 chm base num = chm ! unat (num mod base) # digits chm base (num div base)"

text \<open>\<open>while (size-- > 0) *ptr++ = c\<close>: the bytes and the final value of \<open>size\<close>.\<close>

definition pad_loop :: "u8 \<Rightarrow> int \<Rightarrow> bytes \<times> int" where
  "pad_loop c n = (replicate (nat n) c, if n > 0 then -1 else n - 1)"

text \<open>A negative number printed with a sign is lost: \<open>num = -(int)(*num)\<close> stores its absolute
  value in the pointer, which is then dereferenced. The inner \<open>None\<close> is the null pointer
  returned for an unsupported base.\<close>

definition number :: "arg \<Rightarrow> int \<Rightarrow> int \<Rightarrow> int \<Rightarrow> u32 \<Rightarrow> bytes option option" where
  "number num base sz precision flags =
     (let chm = chm_table flags;
          flags = (if has flags LEFT then flags AND NOT ZERO_PAD else flags)
      in if base < 2 \<or> base > 32 then Some None
      else let
          pad = (if has flags ZERO_PAD then 48 else 32);
          negative = (case num of Dbl d \<Rightarrow> has flags DOUBLE \<and> dneg d
                      | Word w \<Rightarrow> has flags SIGN \<and> \<not> has flags DOUBLE \<and> sint w < 0)
        in do {
          c_assert (case num of Dbl d \<Rightarrow> has flags DOUBLE | Word w \<Rightarrow> \<not> has flags DOUBLE \<and> \<not> negative);
          let sign = (if negative then 45 :: u8
             else if has flags PLUS then 43 else if has flags SPACE then 32 else 0);
          let sz = (if sign \<noteq> 0 then sz - 1 else sz);
          let sz = (if has flags SPECIAL
             then if base = 16 then sz - 2 else if base = 8 then sz - 1 else sz else sz);
          let b = word_of_int base;
          let tmp = (case num of
             Dbl d \<Rightarrow> digits1 chm b (dfval d) @ [46] @ digits1 chm b (dival d)
           | Word w \<Rightarrow> if w = 0 then [48] else digits chm b w);
          c_assert (length tmp \<le> 36);
          let i = int (length tmp);
          let precision = (if i > precision then i else precision);
          let sz = sz - precision;
          let (spaces, sz) = (if \<not> has flags (LEFT + ZERO_PAD) then pad_loop 32 sz else ([], sz));
          let prefix = (if has flags SPECIAL
             then if base = 8 then [48] else if base = 16 then [48, chm ! 33] else [] else []);
          let (fill, sz) = (if \<not> has flags LEFT then pad_loop pad sz else ([], sz));
          let zeros = replicate (nat (precision - i)) 48;
          let trail = fst (pad_loop 32 sz);
          Some (Some (spaces @ (if sign \<noteq> 0 then [sign] else []) @ prefix @ fill @ zeros
            @ rev tmp @ trail)) })"

subsection \<open>The format\<close>

text \<open>The state of \<open>vsprintf\<close>: output, \<open>%n\<close> stores, remaining arguments.\<close>

record vstate =
  out :: bytes
  stores :: "(u32 \<times> int) list"
  args :: "arg list"

definition emit :: "bytes \<Rightarrow> vstate \<Rightarrow> vstate" where
  "emit bs s = s\<lparr>out := out s @ bs\<rparr>"

definition va_word :: "vstate \<Rightarrow> (u32 \<times> vstate) option" where
  "va_word s = (case args s of Word w # as \<Rightarrow> Some (w, s\<lparr>args := as\<rparr>) | _ \<Rightarrow> None)"

definition va_double :: "vstate \<Rightarrow> (dbl \<times> vstate) option" where
  "va_double s = (case args s of Dbl d # as \<Rightarrow> Some (d, s\<lparr>args := as\<rparr>) | _ \<Rightarrow> None)"

fun fmt_flags :: "u32 \<Rightarrow> bytes \<Rightarrow> u32 \<times> bytes" where
  "fmt_flags flags [] = (flags, [])"
| "fmt_flags flags (c # fmt) =
     (if c = 45 then fmt_flags (flags OR LEFT) fmt
      else if c = 43 then fmt_flags (flags OR PLUS) fmt
      else if c = 32 then fmt_flags (flags OR SPACE) fmt
      else if c = 35 then fmt_flags (flags OR SPECIAL) fmt
      else if c = 48 then fmt_flags (flags OR ZERO_PAD) fmt
      else (flags, c # fmt))"

definition fmt_width :: "u32 \<Rightarrow> bytes \<Rightarrow> vstate \<Rightarrow> (u32 \<times> int \<times> bytes \<times> vstate) option" where
  "fmt_width flags fmt s =
     (if is_digit (peek fmt) then do { (w, fmt) \<leftarrow> skip_atoi 0 fmt; Some (flags, w, fmt, s) }
      else if peek fmt = 42 then do {
        (w, s) \<leftarrow> va_word s;
        if sint w < 0 then do { n \<leftarrow> int32 (- sint w); Some (flags OR LEFT, n, tl fmt, s) }
        else Some (flags, sint w, tl fmt, s) }
      else Some (flags, -1, fmt, s))"

definition fmt_precision :: "bytes \<Rightarrow> vstate \<Rightarrow> (int \<times> bytes \<times> vstate) option" where
  "fmt_precision fmt s =
     (if peek fmt = 46 then do {
        let fmt = tl fmt;
        (p, fmt, s) \<leftarrow>
          (if is_digit (peek fmt) then do { (p, fmt) \<leftarrow> skip_atoi 0 fmt; Some (p, fmt, s) }
           else if peek fmt = 42 then do { (w, s) \<leftarrow> va_word s; Some (sint w, tl fmt, s) }
           else Some (-1, fmt, s));
        Some (if p < 0 then 0 else p, fmt, s) }
      else Some (-1, fmt, s))"

definition fmt_qualifier :: "bytes \<Rightarrow> bytes" where
  "fmt_qualifier fmt = (if peek fmt \<in> {104, 108, 76} then tl fmt else fmt)"

definition conv_char :: "u32 \<Rightarrow> int \<Rightarrow> vstate \<Rightarrow> vstate option" where
  "conv_char flags w s = do {
     let (before, w) = (if \<not> has flags LEFT then (replicate (nat (w - 1)) 32, if w > 0 then 0 else w - 1)
                        else ([], w));
     (c, s) \<leftarrow> va_word s;
     Some (emit (before @ [ucast c] @ replicate (nat (w - 1)) 32) s) }"

fun read_bytes :: "mem \<Rightarrow> nat \<Rightarrow> nat \<Rightarrow> bytes option" where
  "read_bytes m p 0 = Some []"
| "read_bytes m p (Suc n) = do { b \<leftarrow> m p; bs \<leftarrow> read_bytes m (p + 1) n; Some (b # bs) }"

definition conv_string :: "mem \<Rightarrow> u32 \<Rightarrow> int \<Rightarrow> int \<Rightarrow> vstate \<Rightarrow> vstate option" where
  "conv_string m flags w precision s = do {
     (p, s) \<leftarrow> va_word s;
     n \<leftarrow> strlen m (unat p);
     let len = int n;
     let len = (if precision < 0 then len else if len > precision then precision else len);
     let (before, w) = (if \<not> has flags LEFT then (replicate (nat (w - len)) 32, if w > len then len - 1 else w - 1)
                        else ([], w));
     bs \<leftarrow> read_bytes m (unat p) (nat len);
     Some (emit (before @ bs @ replicate (nat (w - len)) 32) s) }"

definition put_number :: "arg \<Rightarrow> int \<Rightarrow> int \<Rightarrow> int \<Rightarrow> u32 \<Rightarrow> vstate \<Rightarrow> vstate option" where
  "put_number num base w precision flags s = do {
     r \<leftarrow> number num base w precision flags;
     bs \<leftarrow> r;
     Some (emit bs s) }"

definition conv_number :: "int \<Rightarrow> int \<Rightarrow> int \<Rightarrow> u32 \<Rightarrow> vstate \<Rightarrow> vstate option" where
  "conv_number base w precision flags s = do {
     (num, s) \<leftarrow> va_word s;
     put_number (Word num) base w precision flags s }"

text \<open>The bytes of an address, each as a number followed by a separator that the next one
  (or, at the end, \<open>str--\<close>) follows or removes.\<close>

fun conv_octets :: "int \<Rightarrow> int \<Rightarrow> int \<Rightarrow> u32 \<Rightarrow> u8 \<Rightarrow> bytes \<Rightarrow> vstate \<Rightarrow> vstate option" where
  "conv_octets base w precision flags sep [] s = Some s"
| "conv_octets base w precision flags sep (b # bs) s = do {
     s \<leftarrow> put_number (Word (ucast b)) base w precision flags s;
     conv_octets base w precision flags sep bs (if bs = [] then s else emit [sep] s) }"

definition convert :: "mem \<Rightarrow> u32 \<Rightarrow> int \<Rightarrow> int \<Rightarrow> bytes \<Rightarrow> vstate \<Rightarrow> (bytes \<times> vstate) option" where
  "convert m flags w precision fmt s =
     (let c = peek fmt; done = map_option (Pair (tl fmt)) in
      if c = 99 then done (conv_char flags w s)
      else if c = 115 then done (conv_string m flags w precision s)
      else if c = 111 then done (conv_number 8 w precision flags s)
      else if c = 112 then
        (if precision = -1 then done (conv_number 16 w 8 (flags OR ZERO_PAD) s)
         else done (conv_number 16 w precision flags s))
      else if c = 120 then done (conv_number 16 w precision (flags OR SMALL) s)
      else if c = 88 then done (conv_number 16 w precision flags s)
      else if c = 100 \<or> c = 105 then done (conv_number 10 w precision (flags OR SIGN) s)
      else if c = 117 then done (conv_number 10 w precision flags s)
      else if c = 110 then do {
        (p, s) \<leftarrow> va_word s;
        Some (tl fmt, s\<lparr>stores := stores s @ [(p, int (length (out s)))]\<rparr>) }
      else if c = 102 then do {
        (d, s) \<leftarrow> va_double s;
        done (put_number (Dbl d) 10 w precision (flags OR SIGN OR DOUBLE) s) }
      else if c = 98 then done (conv_number 2 w precision flags s)
      else if c = 109 then do {
        (p, s) \<leftarrow> va_word s;
        bs \<leftarrow> read_bytes m (unat p) 6;
        done (conv_octets 16 2 precision (flags OR SMALL OR ZERO_PAD) 58 bs s) }
      else if c = 114 then do {
        (p, s) \<leftarrow> va_word s;
        bs \<leftarrow> read_bytes m (unat p) 4;
        done (conv_octets 10 w precision (flags OR SMALL) 46 bs s) }
      else let s = (if c \<noteq> 37 then emit [37] s else s) in
        if fmt \<noteq> [] then Some (tl fmt, emit [c] s) else Some ([], s))"

definition directive :: "mem \<Rightarrow> bytes \<Rightarrow> vstate \<Rightarrow> (bytes \<times> vstate) option" where
  "directive m fmt s = do {
     let (flags, fmt) = fmt_flags 0 fmt;
     (flags, w, fmt, s) \<leftarrow> fmt_width flags fmt s;
     (precision, fmt, s) \<leftarrow> fmt_precision fmt s;
     convert m flags w precision (fmt_qualifier fmt) s }"

text \<open>The loop over the format. A directive never gives characters back, which is all the
  termination of the loop needs.\<close>

lemma skip_atoi_length: "skip_atoi i fmt = Some (n, fmt') \<Longrightarrow> length fmt' \<le> length fmt"
proof (induction fmt arbitrary: i)
  case (Cons c fmt)
  show ?case
  proof (cases "is_digit c")
    case True
    with Cons.prems obtain j where "skip_atoi j fmt = Some (n, fmt')"
      by (auto simp: Option.bind_eq_Some_conv)
    then show ?thesis using Cons.IH by fastforce
  qed (use Cons.prems in auto)
qed simp

lemma fmt_flags_length: "fmt_flags flags fmt = (flags', fmt') \<Longrightarrow> length fmt' \<le> length fmt"
  by (induction flags fmt rule: fmt_flags.induct) (auto split: if_splits)

lemma fmt_width_length: "fmt_width flags fmt s = Some (flags', w, fmt', s') \<Longrightarrow> length fmt' \<le> length fmt"
  by (auto simp: fmt_width_def Option.bind_eq_Some_conv dest!: skip_atoi_length split: if_splits)

lemma fmt_precision_length: "fmt_precision fmt s = Some (p, fmt', s') \<Longrightarrow> length fmt' \<le> length fmt"
  by (cases "is_digit (peek (tl fmt))"; cases "peek (tl fmt) = 42")
    (auto simp: fmt_precision_def Let_def Option.bind_eq_Some_conv dest!: skip_atoi_length split: if_splits)

lemma convert_length: "convert m flags w precision fmt s = Some (fmt', s') \<Longrightarrow> length fmt' \<le> length fmt"
  by (auto simp: convert_def Let_def Option.bind_eq_Some_conv split: if_splits)

lemma directive_length:
  assumes "directive m fmt s = Some (fmt', s')"
  shows "length fmt' \<le> length fmt"
proof -
  obtain flags f1 where 1: "fmt_flags 0 fmt = (flags, f1)" by (cases "fmt_flags 0 fmt")
  from assms 1 obtain flags' w f2 s2 p f3 s3
    where 2: "fmt_width flags f1 s = Some (flags', w, f2, s2)"
      and 3: "fmt_precision f2 s2 = Some (p, f3, s3)"
      and 4: "convert m flags' w p (fmt_qualifier f3) s3 = Some (fmt', s')"
    by (auto simp: directive_def Option.bind_eq_Some_conv)
  have "length (fmt_qualifier f3) \<le> length f3" by (simp add: fmt_qualifier_def)
  with fmt_flags_length [OF 1] fmt_width_length [OF 2] fmt_precision_length [OF 3]
    convert_length [OF 4] show ?thesis by linarith
qed

function format :: "mem \<Rightarrow> bytes \<Rightarrow> vstate \<Rightarrow> vstate option" where
  "format m [] s = Some s"
| "format m (c # fmt) s =
     (if c \<noteq> 37 then format m fmt (emit [c] s)
      else case directive m fmt s of None \<Rightarrow> None | Some (fmt, s) \<Rightarrow> format m fmt s)"
  by pat_completeness auto
termination
  by (relation "measure (\<lambda>(m, fmt, s). length fmt)") (auto dest!: directive_length)

declare format.simps(2) [simp del]

definition vsprintf :: "mem \<Rightarrow> bytes \<Rightarrow> arg list \<Rightarrow> (int \<times> bytes \<times> (u32 \<times> int) list) option" where
  "vsprintf m fmt as = do {
     s \<leftarrow> format m fmt \<lparr>out = [], stores = [], args = as\<rparr>;
     let i = int (length (out s));
     c_assert (i < 1024);
     Some (i, out s @ [EOS], stores s) }"

subsection \<open>What a printed number says\<close>

definition digit_val :: "u8 \<Rightarrow> nat" where
  "digit_val c = (if c < 58 then unat c - 48 else if c < 91 then unat c - 55 else unat c - 87)"

definition numeral_val :: "nat \<Rightarrow> bytes \<Rightarrow> nat" where
  "numeral_val b = foldl (\<lambda>v c. v * b + digit_val c) 0"

lemma numeral_val_snoc: "numeral_val b (s @ [c]) = numeral_val b s * b + digit_val c"
  by (simp add: numeral_val_def)

lemma numeral_val_Nil [simp]: "numeral_val b [] = 0"
  by (simp add: numeral_val_def)

lemma numeral_val_zeros: "numeral_val b (replicate n 48 @ s) = numeral_val b s"
  by (induction n) (simp_all add: numeral_val_def digit_val_def)

lemma chm_digit_list:
  "list_all (\<lambda>i. digit_val (map of_nat ([48..<58] @ [97..<123]) ! i) = i
     \<and> digit_val (map of_nat ([48..<58] @ [65..<91]) ! i) = i) [0..<36]"
  by code_simp

lemma chm_digit: "i < 36 \<Longrightarrow> digit_val (chm_table flags ! i) = i"
  using chm_digit_list unfolding list_all_iff chm_table_def by simp

lemma digits_step:
  "2 \<le> base \<Longrightarrow> w \<noteq> 0 \<Longrightarrow> digits chm base w = chm ! unat (w mod base) # digits chm base (w div base)"
  by (auto simp: digits.simps [of chm base w])

lemma digits_zero [simp]: "digits chm base 0 = []"
  by (simp add: digits.simps)

lemma digits_value:
  assumes "2 \<le> base" "base \<le> 32"
  shows "numeral_val (unat base) (rev (digits (chm_table flags) base w)) = unat w"
  using assms
proof (induction "chm_table flags" base w rule: digits.induct)
  case (1 base w)
  show ?case
  proof (cases "w = 0")
    case False
    have ub: "2 \<le> unat base" "unat base \<le> 32" using 1(2,3) by (simp_all add: word_le_nat_alt)
    have "unat w mod unat base < unat base" using ub by (intro mod_less_divisor) simp
    then have m: "unat (w mod base) < 36" unfolding unat_mod using ub by linarith
    have "numeral_val (unat base) (rev (digits (chm_table flags) base (w div base))) = unat (w div base)"
      using 1 False by auto
    with False 1(2) m show ?thesis
      by (simp add: digits_step numeral_val_snoc chm_digit unat_div unat_mod)
  qed simp
qed

lemma digits_length: "2 \<le> base \<Longrightarrow> unat w < unat base ^ n \<Longrightarrow> length (digits chm base w) \<le> n"
proof (induction n arbitrary: w)
  case 0
  then have "w = 0" by (simp add: unat_eq_zero)
  then show ?case by simp
next
  case (Suc n)
  have "unat w div unat base < unat base ^ n"
    using Suc.prems(2) by (intro less_mult_imp_div_less) (simp add: mult.commute)
  then have "length (digits chm base (w div base)) \<le> n"
    using Suc by (simp add: unat_div)
  then show ?case using Suc.prems(1) by (cases "w = 0") (simp_all add: digits_step)
qed

lemma digits_length32: "2 \<le> base \<Longrightarrow> length (digits chm base w) \<le> 32"
proof (rule digits_length)
  assume "2 \<le> base"
  then have "2 ^ 32 \<le> unat base ^ 32" by (intro power_mono) (auto simp: word_le_nat_alt)
  moreover have "unat w < 2 ^ 32" using unsigned_less [of w, where ?'a = nat] by simp
  ultimately show "unat w < unat base ^ 32" by linarith
qed

lemma has_cleared:
  "has (flags AND NOT ZERO_PAD) LEFT = has flags LEFT"
  "has (flags AND NOT ZERO_PAD) SIGN = has flags SIGN"
  "has (flags AND NOT ZERO_PAD) PLUS = has flags PLUS"
  "has (flags AND NOT ZERO_PAD) SPACE = has flags SPACE"
  "has (flags AND NOT ZERO_PAD) SPECIAL = has flags SPECIAL"
  "has (flags AND NOT ZERO_PAD) DOUBLE = has flags DOUBLE"
  "\<not> has (flags AND NOT ZERO_PAD) ZERO_PAD"
  by (simp_all add: c_defs and.assoc)

lemma has_either: "has flags (LEFT + ZERO_PAD) \<longleftrightarrow> has flags LEFT \<or> has flags ZERO_PAD"
proof -
  have "LEFT + ZERO_PAD = LEFT OR ZERO_PAD" by (simp add: c_defs)
  then show ?thesis by (simp add: has_def bit.conj_disj_distrib or_eq_0_iff)
qed

lemma nat_max: "nat (max a b) = max (nat a) (nat b)"
  by (auto simp: max_def)

text \<open>The characters of one number: leading fill, the digits, and the trailing fill.\<close>

definition number_digits :: "u32 \<Rightarrow> int \<Rightarrow> u32 \<Rightarrow> bytes" where
  "number_digits flags base w =
     rev (if w = 0 then [48] else digits (chm_table flags) (word_of_int base) w)"

definition plain :: "u32 \<Rightarrow> u32 \<Rightarrow> bool" where
  "plain flags w \<longleftrightarrow> \<not> has flags DOUBLE \<and> \<not> has flags SPECIAL \<and> \<not> has flags PLUS \<and> \<not> has flags SPACE
     \<and> \<not> (has flags SIGN \<and> sint w < 0)"

lemma base_word: "2 \<le> base \<Longrightarrow> base \<le> 32 \<Longrightarrow>
  (2 :: u32) \<le> word_of_int base \<and> (word_of_int base :: u32) \<le> 32 \<and> unat (word_of_int base :: u32) = nat base"
  by (auto simp: word_le_nat_alt unat_eq_nat_uint uint_word_of_int take_bit_int_eq_self)

lemma number_digits_value:
  assumes "2 \<le> base" "base \<le> 32"
  shows "numeral_val (nat base) (number_digits flags base w) = unat w"
  using digits_value [of "word_of_int base" flags w] base_word [OF assms] assms
  by (simp add: number_digits_def) (simp add: numeral_val_def digit_val_def)

lemma number_digits_length:
  assumes "2 \<le> base" "base \<le> 32"
  shows "length (number_digits flags base w) \<le> 32"
  using digits_length32 [of "word_of_int base"] base_word [OF assms] by (simp add: number_digits_def)

lemma number_plain:
  assumes "2 \<le> base" "base \<le> 32" "plain flags w"
  shows "number (Word w) base sz p flags =
    (let ds = number_digits flags base w;
         zs = replicate (nat (p - int (length ds))) 48 @ ds;
         room = nat (sz - max p (int (length ds)))
     in Some (Some (if has flags LEFT then zs @ replicate room 32
                    else if has flags ZERO_PAD then replicate room 48 @ zs
                    else replicate room 32 @ zs)))"
proof -
  have np: "\<not> has flags DOUBLE" "\<not> has flags SPECIAL" "\<not> has flags PLUS" "\<not> has flags SPACE"
    "(has flags SIGN \<and> sint w < 0) = False"
    using assms(3) by (auto simp: plain_def)
  let ?tmp = "if w = 0 then [48] else digits (chm_table flags) (word_of_int base) w"
  have l: "length ?tmp \<le> 36" using number_digits_length [OF assms(1,2), of flags w]
    by (simp add: number_digits_def)
  have z: "(if int (length ?tmp) > p then int (length ?tmp) else p) - int (length ?tmp)
      = max 0 (p - int (length ?tmp))" by simp
  show ?thesis
    using assms(1,2) np l
    unfolding number_def number_digits_def
    by (cases "has flags LEFT"; cases "has flags ZERO_PAD"; cases "has flags SIGN")
      (simp_all add: Let_def has_cleared has_either pad_loop_def max_def)
qed

lemma number_digits_Cons:
  assumes "2 \<le> base" "base \<le> 32"
  shows "number_digits flags base w \<noteq> []"
  using base_word [OF assms] by (simp add: number_digits_def digits_step)

text \<open>C29: A 32-bit integer, unsigned or not negative, printed without the flags for a plus, a leading blank, a base
  prefix or a double, is padded to exactly the larger of
  the width, the precision and its own number of digits; the padding is blanks, or zeros counted
  to the number, on the side the flags ask for; and read back in its base the digits give the
  integer.\<close>

theorem number_prints_value:
  assumes "2 \<le> base" "base \<le> 32" "plain flags w"
  shows "\<exists>before ds after. number (Word w) base sz p flags = Some (Some (before @ ds @ after))
    \<and> numeral_val (nat base) ds = unat w \<and> ds \<noteq> [] \<and> nat p \<le> length ds
    \<and> set before \<subseteq> {32} \<and> set after \<subseteq> {32}
    \<and> (if has flags LEFT then before = [] else after = [])
    \<and> length (before @ ds @ after)
        = max (nat sz) (max (nat p) (length (number_digits flags base w)))"
proof -
  define n where "n = number_digits flags base w"
  define room where "room = nat (sz - max p (int (length n)))"
  define zs where "zs = replicate (nat (p - int (length n))) 48 @ n"
  have v: "numeral_val (nat base) (replicate k 48 @ zs) = unat w" for k
    using number_digits_value [OF assms(1,2)] by (simp add: zs_def numeral_val_zeros n_def)
  then have v0: "numeral_val (nat base) zs = unat w" using v [of 0] by simp
  have zl: "length zs = max (nat p) (length n)" by (simp add: zs_def)
  have n0: "n \<noteq> []" using number_digits_Cons [OF assms(1,2)] by (simp add: n_def)
  then have ne: "zs \<noteq> []" by (simp add: zs_def)
  have room: "room + length zs = max (nat sz) (max (nat p) (length n))"
    unfolding zl room_def by simp
  have eq: "number (Word w) base sz p flags =
    Some (Some (if has flags LEFT then zs @ replicate room 32
      else if has flags ZERO_PAD then replicate room 48 @ zs else replicate room 32 @ zs))"
    using number_plain [OF assms] by (simp add: Let_def n_def zs_def room_def)
  have fill: "set (replicate room 32) \<subseteq> {32 :: u8}" by (rule set_replicate_conv_if [THEN ord_eq_le_trans]) simp
  show ?thesis
  proof (cases "has flags LEFT")
    case True
    show ?thesis
      by (rule exI [of _ "[]"], rule exI [of _ zs], rule exI [of _ "replicate room 32"])
        (use True eq v0 ne zl room fill n_def in auto)
  next
    case left: False
    show ?thesis
    proof (cases "has flags ZERO_PAD")
      case True
      show ?thesis
        by (rule exI [of _ "[]"], rule exI [of _ "replicate room 48 @ zs"], rule exI [of _ "[]"])
          (use True left eq v [of room] ne zl room n_def in \<open>auto intro: max.coboundedI2\<close>)
    next
      case False
      show ?thesis
        by (rule exI [of _ "replicate room 32"], rule exI [of _ zs], rule exI [of _ "[]"])
          (use False left eq v0 ne zl room fill n_def in auto)
    qed
  qed
qed

lemma plain_zero: "plain 0 w"
  by (simp add: plain_def has_def)

theorem number_prints_value_witness:
  "\<exists>before ds after. number (Word 42) 10 6 3 0 = Some (Some (before @ ds @ after))
    \<and> numeral_val (nat 10) ds = unat (42 :: u32) \<and> ds \<noteq> [] \<and> nat 3 \<le> length ds
    \<and> set before \<subseteq> {32} \<and> set after \<subseteq> {32}
    \<and> (if has 0 LEFT then before = [] else after = [])
    \<and> length (before @ ds @ after) = max (nat 6) (max (nat 3) (length (number_digits 0 10 42)))"
  by (rule number_prints_value) (simp_all add: plain_zero)

subsection \<open>Numbers that come out wrong\<close>

lemma directive_d:
  "directive m [100] s = do { (w, s) \<leftarrow> va_word s; s \<leftarrow> put_number (Word w) 10 (-1) (-1) (0 OR SIGN) s;
     Some ([], s) }"
  by (cases "va_word s")
    (auto simp: directive_def fmt_width_def fmt_precision_def fmt_qualifier_def convert_def peek_def
      is_digit_def conv_number_def map_option_case split: option.splits)

lemma number_negative: "sint w < 0 \<Longrightarrow> has flags SIGN \<Longrightarrow> \<not> has flags DOUBLE \<Longrightarrow> 2 \<le> base \<Longrightarrow> base \<le> 32
    \<Longrightarrow> number (Word w) base sz p flags = None"
  by (auto simp: number_def Let_def has_cleared)

text \<open>Printing a negative integer with \<open>%d\<close> never returns: \<open>number\<close> replaces the pointer
  to the value by the absolute value and dereferences it.\<close>

theorem vsprintf_negative_faults:
  assumes "sint w < 0"
  shows "vsprintf m [37, 100] [Word w] = None"
proof -
  have "number (Word w) 10 (-1) (-1) (0 OR SIGN) = None"
    by (rule number_negative) (use assms in \<open>simp_all add: c_defs\<close>)
  then show ?thesis
    by (simp add: vsprintf_def format.simps(2) directive_d va_word_def put_number_def)
qed

theorem vsprintf_negative_faults_witness: "vsprintf Map.empty [37, 100] [Word 4294967291] = None"
  by (rule vsprintf_negative_faults) simp

text \<open>The six decimals of a \<open>double\<close> lose their leading zeros: 1.05 prints as \<open>1.50000\<close>.\<close>

lemma double_loses_zeros:
  "number (Dbl \<lparr>dneg = False, dival = 1, dfval = 50000\<rparr>) 10 (-1) (-1) (SIGN OR DOUBLE)
   = Some (Some [49, 46, 53, 48, 48, 48, 48])"
  by code_simp

subsection \<open>Round trip with \<open>atoi\<close>\<close>

lemma digit_char_list:
  "list_all (\<lambda>i. digit (map of_nat ([48..<58] @ [97..<123]) ! i)
     \<and> digit (map of_nat ([48..<58] @ [65..<91]) ! i)) [0..<10]"
  by code_simp

lemma digit_char: "i < 10 \<Longrightarrow> digit (chm_table flags ! i)"
  using digit_char_list unfolding list_all_iff chm_table_def by simp

lemma decimal_digits: "\<forall>c\<in>set (digits (chm_table flags) 10 w). digit c"
proof (induction "chm_table flags" "10 :: u32" w rule: digits.induct)
  case (1 w)
  have "unat w mod 10 < 10" by simp
  then have "unat (w mod 10) < 10" unfolding unat_mod by simp
  then have "digit (chm_table flags ! unat (w mod 10))" by (rule digit_char)
  with 1 show ?case by (cases "w = 0") (auto simp: digits_step)
qed

lemma digit_val_list: "list_all (\<lambda>k. int (digit_val (word_of_int k)) = k - 48) [48..57]"
  by code_simp

lemma digit_val_sint:
  assumes "digit c"
  shows "int (digit_val c) = sint c - 48"
proof -
  have "sint c \<in> set [48..57]" unfolding set_upto using digit_sint [OF assms] by simp
  then have "int (digit_val (word_of_int (sint c))) = sint c - 48"
    using digit_val_list unfolding list_all_iff by blast
  then show ?thesis by simp
qed

lemma digits_val_numeral: "\<forall>c\<in>set s. digit c \<Longrightarrow> digits_val s = int (numeral_val 10 s)"
proof (induction s rule: rev_induct)
  case (snoc c s)
  then show ?case using digit_val_sint [of c] by (simp add: digits_val_def numeral_val_def)
qed (simp add: digits_val_def)

text \<open>C30: A number from 0 to 999999999 printed with \<open>%d\<close> and read back with \<open>atoi\<close>
  is unchanged, and the result of \<open>vsprintf\<close> is the length of the text. Negative numbers are not
  covered: printing one faults (\<open>vsprintf_negative_faults\<close>).\<close>

theorem print_then_read:
  assumes "unat w < 10 ^ 9"
  shows "\<exists>s. vsprintf m [37, 100] [Word w] = Some (int (length s), s @ [EOS], [])
    \<and> (\<forall>m' p. region m' p (s @ [EOS]) \<longrightarrow> atoi m' (Some p) = Some (int (unat w)))"
proof -
  let ?f = "0 OR SIGN :: u32"
  let ?s = "number_digits ?f 10 w"
  have "unat w < 2147483648" using assms by simp
  then have pos: "\<not> sint w < 0" by (simp add: sint_unat32)
  have plain: "plain ?f w" using pos by (simp add: plain_def c_defs)
  have nl: "\<not> has ?f LEFT" "\<not> has ?f ZERO_PAD" by (simp_all add: c_defs)
  have num: "number (Word w) 10 (-1) (-1) ?f = Some (Some ?s)"
    using number_plain [of 10 ?f w "-1" "-1"] plain nl by (simp add: Let_def max_def)
  have l9: "length ?s \<le> 9"
    using digits_length [of 10 w 9] assms by (simp add: number_digits_def)
  have "vsprintf m [37, 100] [Word w] = Some (int (length ?s), ?s @ [EOS], [])"
    using l9 num
    by (simp add: vsprintf_def format.simps(2) directive_d va_word_def put_number_def emit_def)
  moreover have "atoi m' (Some p) = Some (int (unat w))" if r: "region m' p (?s @ [EOS])" for m' p
  proof -
    have ds: "\<forall>c\<in>set ?s. digit c"
      using decimal_digits [of ?f w] by (auto simp: number_digits_def digit_def isdigit_def)
    then have "EOS \<notin> set ?s" by (auto simp: EOS_def digit_def isdigit_def)
    then have "cstr m' p ([] @ ?s)" using r by (simp add: cstr_def)
    then have "atoi m' (Some p) = Some (digits_val ?s)"
      using atoi_decimal [of m' p "[]" ?s] ds l9 by simp
    also have "\<dots> = Some (int (unat w))"
      using digits_val_numeral [OF ds] number_digits_value [of 10 ?f w] by simp
    finally show ?thesis .
  qed
  ultimately show ?thesis by blast
qed

theorem print_then_read_witness:
  "\<exists>s. vsprintf Map.empty [37, 100] [Word 4095] = Some (int (length s), s @ [EOS], [])
    \<and> (\<forall>m' p. region m' p (s @ [EOS]) \<longrightarrow> atoi m' (Some p) = Some (int (unat (4095 :: u32))))"
  by (rule print_then_read) simp

end
