(* ===== verification/Addr.thy ===== *)
theory Addr
  imports Stdlib
begin

section \<open>Network addresses and checksums: \<open>net/addr.c\<close>, \<open>net/chksum.c\<close>\<close>

text \<open>
  An IPv4 address is the little-endian 32-bit word its four bytes make, which is how the code
  reads it; a MAC address is a list of six bytes. \<open>htons\<close> and \<open>htonl\<close> are the macros of
  \<open>include/phinix/net/types.h\<close>. A block to be summed is the list of its bytes.
\<close>

type_synonym ip_addr = u32
type_synonym eth_addr = bytes

definition htons :: "u16 \<Rightarrow> u16" where
  "htons s = push_bit 8 (s AND 0xFF) OR drop_bit 8 (s AND 0xFF00)"

definition htonl :: "u32 \<Rightarrow> u32" where
  "htonl l = push_bit 24 (l AND 0xFF) OR push_bit 8 (l AND 0xFF00)
     OR drop_bit 8 (l AND 0xFF0000) OR drop_bit 24 (l AND 0xFF000000)"

abbreviation ntohs :: "u16 \<Rightarrow> u16" where "ntohs \<equiv> htons"
abbreviation ntohl :: "u32 \<Rightarrow> u32" where "ntohl \<equiv> htonl"

definition le16 :: "u8 \<Rightarrow> u8 \<Rightarrow> u16" where
  "le16 a b = ucast a OR push_bit 8 (ucast b)"

definition le32 :: "u8 \<Rightarrow> u8 \<Rightarrow> u8 \<Rightarrow> u8 \<Rightarrow> u32" where
  "le32 a b c d = ucast a OR push_bit 8 (ucast b) OR push_bit 16 (ucast c) OR push_bit 24 (ucast d)"

lemma bit_htons: "bit (htons s) n \<longleftrightarrow> (if n < 8 then bit s (n + 8) else n < 16 \<and> bit s (n - 8))"
proof -
  have m: "(0xFF :: u16) = mask 8" "(0xFF00 :: u16) = push_bit 8 (mask 8)"
    by (simp_all add: mask_eq_exp_minus_1)
  have "n - 8 < 8 \<longleftrightarrow> n < 16" if "8 \<le> n" using that by arith
  then show ?thesis unfolding htons_def m by (auto simp: bit_simps add.commute [of 8 n])
qed

lemma htons_htons [simp]: "htons (htons s) = s"
proof (rule bit_word_eqI)
  fix n assume "n < LENGTH(16)"
  then have "n - 8 < 8" by simp
  then show "bit (htons (htons s)) n = bit s n" by (auto simp: bit_htons)
qed

subsection \<open>Addresses\<close>

text \<open>One decimal part: \<open>Inl\<close> is the error return from inside the loop; \<open>Inr\<close> carries the
  value, the number of digits and the position of the separator.\<close>

partial_function (option) inet_part ::
  "mem \<Rightarrow> nat \<Rightarrow> int \<Rightarrow> int \<Rightarrow> (errno + int \<times> int \<times> nat) option" where
  "inet_part m ptr val k = do {
     b \<leftarrow> m ptr;
     if b = 46 \<or> b = 0 then Some (Inr (val, k, ptr))
     else if \<not> isdigit (sint b) then Some (Inl EADDR)
     else do {
       ten \<leftarrow> int32 (val * 10);
       val \<leftarrow> int32 (ten + (sint b - 48));
       k \<leftarrow> int32 (k + 1);
       inet_part m (ptr + 1) val k } }"

declare inet_part.simps [code]

text \<open>The loop over the parts; the last argument counts down from four. \<open>parts\<close> starts with
  whatever the stack held.\<close>

fun inet_parts :: "mem \<Rightarrow> nat \<Rightarrow> bytes \<Rightarrow> nat \<Rightarrow> nat \<Rightarrow> (errno + bytes) option" where
  "inet_parts m ptr parts i 0 = Some (Inr parts)"
| "inet_parts m ptr parts i (Suc n) = do {
     b \<leftarrow> m ptr;
     if b = 0 then Some (Inr parts)
     else do {
       r \<leftarrow> inet_part m ptr 0 0;
       case r of Inl e \<Rightarrow> Some (Inl e)
       | Inr (val, k, ptr) \<Rightarrow>
           if k = 0 \<or> val < 0 \<or> val > 255 then Some (Inl EADDR)
           else do {
             parts \<leftarrow> wr parts i (word_of_int val);
             inet_parts m (ptr + 1) parts (i + 1) n } } }"

definition inet_aton :: "mem \<Rightarrow> nat \<Rightarrow> bytes \<Rightarrow> ip_addr \<Rightarrow> (int \<times> ip_addr) option" where
  "inet_aton m str stack addr = do {
     r \<leftarrow> inet_parts m str stack 0 4;
     case r of Inl e \<Rightarrow> Some (neg_errno e, addr)
     | Inr parts \<Rightarrow> do {
         a \<leftarrow> rd parts 0; b \<leftarrow> rd parts 1; c \<leftarrow> rd parts 2; d \<leftarrow> rd parts 3;
         Some (neg_errno EOK, le32 a b c d) } }"

definition ip_addr_cmp :: "ip_addr \<Rightarrow> ip_addr \<Rightarrow> bool" where
  "ip_addr_cmp a1 a2 \<longleftrightarrow> a1 = a2"

definition ip_addr_maskcmp :: "ip_addr \<Rightarrow> ip_addr \<Rightarrow> ip_addr \<Rightarrow> bool" where
  "ip_addr_maskcmp a1 a2 m \<longleftrightarrow> a1 AND m = a2 AND m"

definition ip_addr_isbroadcast :: "ip_addr \<Rightarrow> ip_addr \<Rightarrow> bool" where
  "ip_addr_isbroadcast a netmask =
     (let m = NOT netmask in a AND m = -1 AND m \<or> a = -1 \<or> a = 0)"

text \<open>\<open>None\<close> is the null pointer.\<close>

definition ip_addr_isany :: "ip_addr option \<Rightarrow> bool" where
  "ip_addr_isany addr = (case addr of None \<Rightarrow> True | Some a \<Rightarrow> a = 0)"

text \<open>\<open>==\<close> binds tighter than \<open>&\<close>: the address is masked with the truth value of a
  comparison of two constants.\<close>

definition ip_addr_ismulticast :: "ip_addr \<Rightarrow> bool" where
  "ip_addr_ismulticast a \<longleftrightarrow>
     a AND (if ntohl 0xF0000000 = ntohl 0xE0000000 then 1 else 0) \<noteq> 0"

subsection \<open>Checksums\<close>

definition CRC_POLY :: u32 where [c_defs]: "CRC_POLY = 0xEDB88320"

definition crc_bit :: "u32 \<Rightarrow> u32" where
  "crc_bit crc = (if crc AND 1 \<noteq> 0 then drop_bit 1 crc XOR CRC_POLY else drop_bit 1 crc)"

definition crc_byte :: "u32 \<Rightarrow> u8 \<Rightarrow> u32" where
  "crc_byte crc b = (crc_bit ^^ 8) (crc XOR ucast b)"

definition eth_fcs :: "bytes \<Rightarrow> u32" where
  "eth_fcs data = NOT (foldl crc_byte (-1) data)"

definition csum_guard :: "u32 \<Rightarrow> u32" where
  "csum_guard acc = (if acc AND 0x80000000 \<noteq> 0 then (acc AND 0xFFFF) + drop_bit 16 acc else acc)"

fun csum_words :: "bytes \<Rightarrow> u32 \<Rightarrow> u32" where
  "csum_words (a # b # data) acc = csum_words data (csum_guard acc + ucast (le16 a b))"
| "csum_words [a] acc = acc + ucast a"
| "csum_words [] acc = acc"

lemma fold16_unat:
  fixes acc :: u32
  shows "unat ((acc AND 0xFFFF) + drop_bit 16 acc) = unat acc mod 65536 + unat acc div 65536"
proof -
  have m: "acc AND 0xFFFF = take_bit 16 acc" by (simp add: take_bit_eq_mask mask_eq_exp_minus_1)
  have a: "unat (acc AND 0xFFFF) = unat acc mod 65536"
    unfolding m unsigned_take_bit_eq by (simp add: take_bit_eq_mod)
  have d: "unat (drop_bit 16 acc) = unat acc div 65536" by (simp add: drop_bit_word_div)
  have lt: "unat acc < 4294967296" using unsigned_less [of acc, where ?'a = nat] by simp
  have "unat (acc AND 0xFFFF) + unat (drop_bit 16 acc) < 2 ^ LENGTH(32)"
    unfolding a d using lt by simp
  then show ?thesis using unat_plus_bound a d by metis
qed

lemma fold16_less:
  fixes acc :: u32
  assumes "drop_bit 16 acc \<noteq> 0"
  shows "unat ((acc AND 0xFFFF) + drop_bit 16 acc) < unat acc"
proof -
  have "unat (drop_bit 16 acc) \<noteq> 0" using assms by (simp only: unat_eq_zero) simp
  then have "unat acc div 65536 \<noteq> 0" by (simp add: drop_bit_word_div)
  moreover have "unat acc = 65536 * (unat acc div 65536) + unat acc mod 65536" by simp
  ultimately show ?thesis unfolding fold16_unat by linarith
qed

function csum_fold :: "u32 \<Rightarrow> u32" where
  "csum_fold acc =
     (if drop_bit 16 acc \<noteq> 0 then csum_fold ((acc AND 0xFFFF) + drop_bit 16 acc) else acc)"
  by auto
termination by (relation "measure unat") (auto simp: fold16_less)

declare csum_fold.simps [simp del]

definition chksum :: "bytes \<Rightarrow> u32 \<Rightarrow> u16" where
  "chksum data acc = ucast (csum_fold (csum_words data acc))"

definition ip_chksum :: "bytes \<Rightarrow> u16" where
  "ip_chksum data = NOT (chksum data 0)"

subsection \<open>The sum as ones' complement arithmetic\<close>

text \<open>The value summed: the 16-bit little-endian words of the block.\<close>

fun words_sum :: "bytes \<Rightarrow> nat" where
  "words_sum (a # b # data) = unat (le16 a b) + words_sum data"
| "words_sum [a] = unat a"
| "words_sum [] = 0"

text \<open>\<open>csum_of n w\<close>: \<open>w\<close> stands for the sum \<open>n\<close> in ones' complement.\<close>

definition csum_of :: "nat \<Rightarrow> u32 \<Rightarrow> bool" where
  "csum_of n w \<longleftrightarrow> unat w mod 65535 = n mod 65535 \<and> (w = 0 \<longleftrightarrow> n = 0)"

lemma fold16_mod: "(s mod 65536 + s div 65536) mod 65535 = s mod (65535 :: nat)"
proof -
  have "s = 65536 * (s div 65536) + s mod 65536" by simp
  then have "s = (s mod 65536 + s div 65536) + 65535 * (s div 65536)" by linarith
  then show ?thesis by (metis mod_mult_self2)
qed

lemma csum_of_fold:
  assumes "csum_of n w"
  shows "csum_of n ((w AND 0xFFFF) + drop_bit 16 w)"
proof -
  have "unat w mod 65536 + unat w div 65536 = 0 \<longleftrightarrow> unat w = 0"
    using div_mult_mod_eq [of "unat w" 65536] by fastforce
  then have "(w AND 0xFFFF) + drop_bit 16 w = 0 \<longleftrightarrow> w = 0"
    unfolding unat_eq_zero [symmetric] fold16_unat .
  then show ?thesis using assms unfolding csum_of_def fold16_unat fold16_mod by (simp only:)
qed

lemma csum_of_add:
  assumes "csum_of n w" "unat w + unat v < 4294967296"
  shows "csum_of (n + unat v) (w + v)"
proof -
  have u: "unat (w + v) = unat w + unat v" by (rule unat_plus_bound) (use assms(2) in simp)
  have "(unat w + unat v) mod 65535 = (n + unat v) mod 65535"
    using assms(1) mod_add_cong [of "unat w" 65535 n "unat v" "unat v"] by (simp add: csum_of_def)
  moreover have "w + v = 0 \<longleftrightarrow> n + unat v = 0"
    using assms(1) unfolding csum_of_def unat_eq_zero [of "w + v", symmetric] u
    by (auto simp: unat_eq_zero)
  ultimately show ?thesis unfolding csum_of_def u by simp
qed

lemma guard_small:
  "unat (csum_guard w) < 2147483648" "csum_of n w \<Longrightarrow> csum_of n (csum_guard w)"
proof -
  have b: "w AND 0x80000000 \<noteq> 0 \<longleftrightarrow> bit w 31"
    using and_exp_eq_0_iff_not_bit [of w 31] by simp
  show "unat (csum_guard w) < 2147483648"
  proof (cases "bit w 31")
    case True
    have "unat w < 4294967296" using unsigned_less [of w, where ?'a = nat] by simp
    then have "unat w mod 65536 + unat w div 65536 < 2147483648"
      using mod_less_divisor [of 65536 "unat w"] by linarith
    then show ?thesis using True b by (simp add: csum_guard_def fold16_unat)
  next
    case False
    then have "drop_bit 31 w = 0"
    proof (intro bit_word_eqI)
      fix n assume "\<not> bit w 31"
      then have "\<not> bit w (31 + n)" using bit_imp_le_length [of w "31 + n"] by (cases n) auto
      then show "bit (drop_bit 31 w) n = bit 0 n" by (simp add: bit_simps)
    qed
    then have "unat w div 2 ^ 31 = 0" using drop_bit_word_div [of 31 w] by simp
    then have "unat w < 2147483648" by (simp add: div_eq_0_iff)
    then show ?thesis using False b by (simp add: csum_guard_def)
  qed
  show "csum_of n w \<Longrightarrow> csum_of n (csum_guard w)"
    by (simp add: csum_guard_def csum_of_fold)
qed

lemma unat_ucast16: "unat (ucast (v :: u16) :: u32) = unat v"
proof -
  have "unat v < 2 ^ 32" using unsigned_less [of v, where ?'a = nat] by simp
  then show ?thesis unfolding unsigned_ucast_eq by (simp add: take_bit_nat_eq_self)
qed

lemma unat_ucast8: "unat (ucast (v :: u8) :: u32) = unat v"
proof -
  have "unat v < 2 ^ 32" using unsigned_less [of v, where ?'a = nat] by simp
  then show ?thesis unfolding unsigned_ucast_eq by (simp add: take_bit_nat_eq_self)
qed

lemma csum_words_of:
  "csum_of n w \<Longrightarrow> unat w < 2147549184 \<Longrightarrow> csum_of (n + words_sum data) (csum_words data w)"
proof (induction data w arbitrary: n rule: csum_words.induct)
  case (1 a b data w)
  have l: "unat (le16 a b) < 65536" using unsigned_less [of "le16 a b", where ?'a = nat] by simp
  have g: "unat (csum_guard w) < 2147483648" "csum_of n (csum_guard w)"
    using guard_small 1 by auto
  have "csum_of (n + unat (ucast (le16 a b) :: u32)) (csum_guard w + ucast (le16 a b))"
    by (rule csum_of_add) (use g l unat_ucast16 in auto)
  moreover have "unat (csum_guard w + ucast (le16 a b)) < 2147549184"
    using g(1) l unat_plus_bound [of "csum_guard w" "ucast (le16 a b)"] by (simp add: unat_ucast16)
  ultimately show ?case using 1(1) by (fastforce simp: unat_ucast16 add.assoc)
next
  case (2 a w)
  have "unat a < 256" using unsigned_less [of a, where ?'a = nat] by simp
  then have "csum_of (n + unat (ucast a :: u32)) (w + ucast a)"
    using 2 by (intro csum_of_add) (simp_all add: unat_ucast8)
  then show ?case by (simp add: unat_ucast8)
qed simp

lemma csum_fold_of: "csum_of n w \<Longrightarrow> csum_of n (csum_fold w) \<and> unat (csum_fold w) < 65536"
proof (induction w rule: csum_fold.induct)
  case (1 w)
  show ?case
  proof (cases "drop_bit 16 w = 0")
    case True
    then have "unat w div 65536 = 0" using drop_bit_word_div [of 16 w] by simp
    then have "unat w < 65536" by (simp add: div_eq_0_iff)
    with True 1 show ?thesis by (simp add: csum_fold.simps [of w])
  next
    case False
    then show ?thesis using 1 csum_of_fold by (simp add: csum_fold.simps [of w])
  qed
qed

lemma chksum_value:
  "unat (chksum data 0) mod 65535 = words_sum data mod 65535
   \<and> (chksum data 0 = 0 \<longleftrightarrow> words_sum data = 0)"
proof -
  have "csum_of (0 + words_sum data) (csum_words data 0)"
    by (rule csum_words_of) (simp_all add: csum_of_def)
  then have c: "csum_of (words_sum data) (csum_fold (csum_words data 0))"
    "unat (csum_fold (csum_words data 0)) < 65536"
    using csum_fold_of by auto
  have u: "unat (chksum data 0) = unat (csum_fold (csum_words data 0))"
    using c(2) unfolding chksum_def unsigned_ucast_eq by (simp add: take_bit_nat_eq_self)
  then have "chksum data 0 = 0 \<longleftrightarrow> csum_fold (csum_words data 0) = 0"
    by (metis unat_eq_zero)
  with c u show ?thesis by (simp add: csum_of_def)
qed

lemma words_sum_append: "even (length xs) \<Longrightarrow> words_sum (xs @ ys) = words_sum xs + words_sum ys"
  by (induction xs rule: words_sum.induct) auto

text \<open>C31: The checksum that the sender stores over an even-length block, with the field zero
  while it is computed, makes the checksum of the finished block zero, which is what a receiver
  checks.\<close>

theorem ip_chksum_verifies:
  assumes "even (length xs)"
    and "le16 lo hi = ip_chksum (xs @ [0, 0] @ ys)"
  shows "ip_chksum (xs @ [lo, hi] @ ys) = 0"
proof -
  let ?r = "chksum (xs @ [0, 0] @ ys) 0" and ?S = "words_sum xs + words_sum ys"
  have z: "le16 0 0 = 0" by (simp add: le16_def)
  have S: "words_sum (xs @ [0, 0] @ ys) = ?S" by (simp add: words_sum_append assms(1) z)
  have r: "unat ?r mod 65535 = ?S mod 65535" using chksum_value [of "xs @ [0, 0] @ ys"] S by simp
  have rb: "unat ?r \<le> 65535" using unsigned_less [of ?r, where ?'a = nat] by simp
  have m1: "unat (-1 :: u16) = 65535" by (simp add: unsigned_minus_1_eq_mask mask_eq_exp_minus_1)
  have "NOT ?r = -1 - ?r" by (simp add: not_eq_complement)
  moreover have "unat (-1 - ?r) = unat (-1 :: u16) - unat ?r" by (rule unat_sub) simp
  ultimately have "unat (NOT ?r) = 65535 - unat ?r" using m1 by (simp only:)
  then have c: "unat (le16 lo hi) = 65535 - unat ?r" using assms(2) by (simp add: ip_chksum_def)
  let ?T = "words_sum (xs @ [lo, hi] @ ys)" and ?t = "chksum (xs @ [lo, hi] @ ys) 0"
  have T: "?T = ?S + (65535 - unat ?r)" by (simp add: words_sum_append assms(1) c)
  have "?T mod 65535 = (unat ?r + (65535 - unat ?r)) mod 65535"
    unfolding T by (rule mod_add_cong) (use r in simp_all)
  then have t0: "unat ?t mod 65535 = 0" using chksum_value [of "xs @ [lo, hi] @ ys"] rb by simp
  have "?T \<noteq> 0"
  proof
    assume "?T = 0"
    then have "?S = 0" "unat ?r = 65535" using T rb by auto
    then show False using chksum_value [of "xs @ [0, 0] @ ys"] S by (simp add: unat_eq_zero)
  qed
  then have "unat ?t \<noteq> 0" using chksum_value [of "xs @ [lo, hi] @ ys"] by (simp add: unat_eq_zero)
  moreover have "unat ?t < 65536" using unsigned_less [of ?t, where ?'a = nat] by simp
  moreover obtain q where q: "unat ?t = 65535 * q" using t0 by (auto simp: mod_eq_0_iff_dvd elim: dvdE)
  ultimately have "0 < q" "q < 2" by (simp_all add: neq0_conv)
  then have "unat ?t = 65535" using q by (cases q) auto
  then have "?t = -1" unfolding word_unat_eq_iff m1 .
  then show ?thesis by (simp add: ip_chksum_def)
qed

theorem ip_chksum_verifies_witness:
  "ip_chksum ([0x45, 0, 0, 0x3c] @ [0x7f, 0xc3] @ [0x3b]) = 0"
  by (rule ip_chksum_verifies) (simp, code_simp)

text \<open>The frame check sequence of the one-byte block \<open>a\<close> is the standard CRC-32 of it.\<close>

lemma eth_fcs_check: "eth_fcs [97] = 0xE8B7BE43"
  by code_simp

subsection \<open>Properties of addresses\<close>

text \<open>\<open>ip_addr_ismulticast\<close> holds of no address at all, not even of the multicast
  address 224.0.0.1.\<close>

lemma ip_addr_ismulticast_never [simp]: "\<not> ip_addr_ismulticast a"
  by (simp add: ip_addr_ismulticast_def htonl_def)

lemma multicast_sample: "le32 224 0 0 1 AND ntohl 0xF0000000 = ntohl 0xE0000000"
  by code_simp

lemma maskcmp_equivalence:
  "ip_addr_maskcmp a a m" "ip_addr_maskcmp a b m \<Longrightarrow> ip_addr_maskcmp b a m"
  "ip_addr_maskcmp a b m \<Longrightarrow> ip_addr_maskcmp b c m \<Longrightarrow> ip_addr_maskcmp a c m"
  by (simp_all add: ip_addr_maskcmp_def)

text \<open>A part of an address: digits up to the separator.\<close>

lemma inet_part_digits:
  assumes "region m p (s @ [c])" "\<forall>b\<in>set s. digit b" "c = 46 \<or> c = 0" "0 \<le> r" "0 \<le> k"
    and "(r + 1) * 10 ^ length s \<le> 2147483647" "k + int (length s) < 2147483648"
  shows "inet_part m p r k = Some (Inr (foldl (\<lambda>r b. r * 10 + (sint b - 48)) r s,
    k + int (length s), p + length s))"
  using assms
proof (induction s arbitrary: p r k)
  case Nil
  then show ?case by (auto simp: inet_part.simps [of m p])
next
  case (Cons b s)
  have d: "48 \<le> sint b" "sint b \<le> 57" using Cons.prems(2) digit_sint by auto
  let ?r = "r * 10 + (sint b - 48)"
  have le: "(?r + 1) * 10 ^ length s \<le> (r + 1) * 10 ^ length (b # s)"
    using mult_right_mono [of "?r + 1" "(r + 1) * 10" "10 ^ length s"] d by simp
  have r0: "0 \<le> ?r" using Cons.prems(4) d by simp
  have "(?r + 1) * 1 \<le> (?r + 1) * 10 ^ length s" by (rule mult_left_mono) (use r0 in auto)
  also have "\<dots> \<le> 2147483647" using order_trans [OF le Cons.prems(6)] .
  finally have bound: "?r < 2147483647" by simp
  have IH: "inet_part m (Suc p) ?r (k + 1) = Some (Inr (foldl (\<lambda>r b. r * 10 + (sint b - 48)) ?r s,
      (k + 1) + int (length s), Suc p + length s))"
    by (rule Cons.IH) (use Cons.prems r0 order_trans [OF le Cons.prems(6)] in auto)
  have nz: "b \<noteq> 46" "b \<noteq> 0" "isdigit (sint b)" using d by (auto simp: isdigit_def)
  have i: "int32 (r * 10) = Some (r * 10)" "int32 ?r = Some ?r" "int32 (k + 1) = Some (k + 1)"
    using bound d Cons.prems(4,5,7) r0 by auto
  show ?case using Cons.prems(1) nz i IH by (simp add: inet_part.simps [of m p r k])
qed

text \<open>A number an address part may be: one to three digits, at most 255.\<close>

definition octet :: "bytes \<Rightarrow> bool" where
  "octet s \<longleftrightarrow> s \<noteq> [] \<and> length s \<le> 3 \<and> (\<forall>b\<in>set s. digit b) \<and> digits_val s \<le> 255"

lemma octet_part:
  assumes "octet s" "region m p (s @ [c])" "c = 46 \<or> c = 0"
  shows "inet_part m p 0 0 = Some (Inr (digits_val s, int (length s), p + length s))"
    "0 \<le> digits_val s"
proof -
  have "(10 :: int) ^ length s \<le> 10 ^ 3" using assms(1) by (intro power_increasing) (auto simp: octet_def)
  then show "inet_part m p 0 0 = Some (Inr (digits_val s, int (length s), p + length s))"
    using inet_part_digits [OF assms(2) _ assms(3), of 0 0] assms(1)
    by (simp add: octet_def digits_val_def)
  have "\<forall>b\<in>set s. digit b \<Longrightarrow> 0 \<le> r \<Longrightarrow> 0 \<le> foldl (\<lambda>r b. r * 10 + (sint b - 48)) r s" for r
    by (induction s arbitrary: r) (auto dest: digit_sint)
  then show "0 \<le> digits_val s" using assms(1) by (simp add: digits_val_def octet_def)
qed

lemma octet_first: "octet s \<Longrightarrow> region m p (s @ t) \<Longrightarrow> \<exists>b. m p = Some b \<and> b \<noteq> 0"
  by (cases s) (auto simp: octet_def digit_def isdigit_def)

lemma inet_parts_step:
  assumes "octet s" "region m p (s @ [c])" "c = 46 \<or> c = 0" "i < length parts"
  shows "inet_parts m p parts i (Suc n)
    = inet_parts m (p + length s + 1) (parts[i := word_of_int (digits_val s)]) (i + 1) n"
proof -
  obtain b where "m p = Some b" "b \<noteq> 0" using octet_first [OF assms(1,2)] by blast
  then show ?thesis
    using octet_part [OF assms(1-3)] assms(1,4) by (simp add: octet_def)
qed

definition dotted :: "bytes \<Rightarrow> bytes \<Rightarrow> bytes \<Rightarrow> bytes \<Rightarrow> bytes" where
  "dotted a b c d = a @ [46] @ b @ [46] @ c @ [46] @ d"

text \<open>\<open>inet_aton\<close> reads every address in dotted decimal notation as the word of its four
  bytes, whatever the stack held, and touches nothing past the terminator.\<close>

theorem inet_aton_dotted:
  assumes "region m p (dotted a b c d @ [0])" "octet a" "octet b" "octet c" "octet d"
    and "length stack = 4"
  shows "inet_aton m p stack addr = Some (0, le32 (word_of_int (digits_val a))
    (word_of_int (digits_val b)) (word_of_int (digits_val c)) (word_of_int (digits_val d)))"
proof -
  obtain s0 s1 s2 s3 where st: "stack = [s0, s1, s2, s3]"
    using assms(6) by (auto simp: length_Suc_conv numeral_eq_Suc)
  have r: "region m p (a @ [46])" "region m (p + length a + 1) (b @ [46])"
    "region m (p + length a + 1 + length b + 1) (c @ [46])"
    "region m (p + length a + 1 + length b + 1 + length c + 1) (d @ [0])"
    using assms(1) by (simp_all add: dotted_def region_append add.assoc)
  have four: "(4 :: nat) = Suc (Suc (Suc (Suc 0)))" by simp
  show ?thesis
    unfolding inet_aton_def four st
    using inet_parts_step [OF assms(2) r(1)] inet_parts_step [OF assms(3) r(2)]
      inet_parts_step [OF assms(4) r(3)] inet_parts_step [OF assms(5) r(4)]
    by (simp add: neg_errno_def)
qed

theorem inet_aton_dotted_witness:
  "inet_aton (rd (dotted [49, 48] [48] [50] [49, 53] @ [0])) 0 [9, 9, 9, 9] 0
   = Some (0, le32 (word_of_int (digits_val [49, 48])) (word_of_int (digits_val [48]))
       (word_of_int (digits_val [50])) (word_of_int (digits_val [49, 53])))"
  by (rule inet_aton_dotted)
    (simp_all add: dotted_def octet_def digit_def isdigit_def digits_val_def region_def rd_def All_less_Suc)

text \<open>A string with fewer than four parts is read past its end: with the string \<open>1.2.3\<close> at
  the end of memory there is no result, and when a zero byte follows the call succeeds with a
  fourth byte that comes from the stack.\<close>

lemma inet_aton_short:
  "inet_aton (rd [49, 46, 50, 46, 51, 0]) 0 [9, 9, 9, 9] 0 = None
   \<and> inet_aton (rd [49, 46, 50, 46, 51, 0, 0]) 0 [9, 9, 9, 77] 0 = Some (0, le32 1 2 3 77)"
  by code_simp

end
