(* ===== verification/Packet.thy ===== *)
theory Packet
  imports Addr DList Vsprintf
begin

section \<open>Packet buffers and interfaces: \<open>net/pbuf.c\<close>, \<open>net/netif.c\<close>, \<open>net/eth.c\<close>\<close>

text \<open>
  A packet buffer is a 2K block whose payload is an array of bytes; the protocol structures are
  views of that array, read and written at the offsets their packed layout gives. Buffers,
  interfaces and address-resolution entries are objects named by their addresses, and the lists
  that link them are sequences of addresses, as \<open>DList\<close> justifies; \<open>linked\<close> says whether a
  buffer's node is in a list (its \<open>next\<close> and \<open>prev\<close> are set), and linking it a second time,
  which would corrupt both lists, has no result. \<open>pages\<close> and \<open>objs\<close> are what the memory
  allocators hand out next: the address of a page with its old contents, the address of a heap
  block with the word an \<open>arp_entry_t\<close> would find in its field \<open>query\<close>.
\<close>

record pbuf =
  payload :: bytes
  plen :: u32
  pcount :: u32
  linked :: bool

record netif =
  name :: bytes
  rx_pbuf_list :: "nat list"
  tx_pbuf_list :: "nat list"
  hwaddr :: eth_addr
  ipaddr :: ip_addr
  netmask :: ip_addr
  gateway :: ip_addr

record arp_entry =
  e_hwaddr :: eth_addr
  e_ipaddr :: ip_addr
  expires :: u32
  used :: u32
  query :: u32
  retry :: u32
  e_pbuf_list :: "nat list"
  e_netif :: nat

record net =
  pbufs :: "nat \<rightharpoonup> pbuf"
  free_pbuf_list :: "nat list"
  pbuf_count :: u32
  free_count :: u32
  netifs :: "nat \<rightharpoonup> netif"
  netif_list :: "nat list"
  arps :: "nat \<rightharpoonup> arp_entry"
  arp_entry_list :: "nat list"
  neti_waiting :: bool
  neto_waiting :: bool
  now :: u32
  pages :: "(nat \<times> bytes) list"
  objs :: "(nat \<times> u32) list"

subsection \<open>Bytes of a payload\<close>

definition PAYLOAD_SIZE :: nat where [c_defs]: "PAYLOAD_SIZE = 2032"

definition ld8 :: "nat \<Rightarrow> nat \<Rightarrow> net \<Rightarrow> u8 option" where
  "ld8 p i s = do { b \<leftarrow> pbufs s p; rd (payload b) i }"

definition st8 :: "nat \<Rightarrow> nat \<Rightarrow> u8 \<Rightarrow> net \<Rightarrow> net option" where
  "st8 p i v s = do { b \<leftarrow> pbufs s p; bs \<leftarrow> wr (payload b) i v;
     Some (s\<lparr>pbufs := (pbufs s)(p \<mapsto> b\<lparr>payload := bs\<rparr>)\<rparr>) }"

fun ldn :: "nat \<Rightarrow> nat \<Rightarrow> nat \<Rightarrow> net \<Rightarrow> bytes option" where
  "ldn p i 0 s = Some []"
| "ldn p i (Suc n) s = do { b \<leftarrow> ld8 p i s; bs \<leftarrow> ldn p (i + 1) n s; Some (b # bs) }"

fun stn :: "nat \<Rightarrow> nat \<Rightarrow> bytes \<Rightarrow> net \<Rightarrow> net option" where
  "stn p i [] s = Some s"
| "stn p i (b # bs) s = do { s \<leftarrow> st8 p i b s; stn p (i + 1) bs s }"

definition lo8 :: "u16 \<Rightarrow> u8" where "lo8 w = ucast w"
definition hi8 :: "u16 \<Rightarrow> u8" where "hi8 w = ucast (drop_bit 8 w)"

definition ld16 :: "nat \<Rightarrow> nat \<Rightarrow> net \<Rightarrow> u16 option" where
  "ld16 p i s = do { a \<leftarrow> ld8 p i s; b \<leftarrow> ld8 p (i + 1) s; Some (le16 a b) }"

definition st16 :: "nat \<Rightarrow> nat \<Rightarrow> u16 \<Rightarrow> net \<Rightarrow> net option" where
  "st16 p i v s = stn p i [lo8 v, hi8 v] s"

definition ip_bytes :: "ip_addr \<Rightarrow> bytes" where
  "ip_bytes a = [ucast a, ucast (drop_bit 8 a), ucast (drop_bit 16 a), ucast (drop_bit 24 a)]"

definition ld_ip :: "nat \<Rightarrow> nat \<Rightarrow> net \<Rightarrow> ip_addr option" where
  "ld_ip p i s = do { a \<leftarrow> ld8 p i s; b \<leftarrow> ld8 p (i + 1) s; c \<leftarrow> ld8 p (i + 2) s;
     d \<leftarrow> ld8 p (i + 3) s; Some (le32 a b c d) }"

text \<open>\<open>ip_addr_copy\<close> and \<open>eth_addr_copy\<close> into a packet.\<close>

definition ip_addr_copy :: "nat \<Rightarrow> nat \<Rightarrow> ip_addr \<Rightarrow> net \<Rightarrow> net option" where
  "ip_addr_copy p i a s = stn p i (ip_bytes a) s"

definition eth_addr_copy :: "nat \<Rightarrow> nat \<Rightarrow> eth_addr \<Rightarrow> net \<Rightarrow> net option" where
  "eth_addr_copy p i a s = stn p i (take 6 a) s"

subsection \<open>Layouts\<close>

text \<open>Offsets in the payload of the fields of \<open>eth_t\<close>.\<close>

definition eth_dst :: nat where [c_defs]: "eth_dst = 0"
definition eth_src :: nat where [c_defs]: "eth_src = 6"
definition eth_type :: nat where [c_defs]: "eth_type = 12"
definition sizeof_eth :: nat where [c_defs]: "sizeof_eth = 14"

definition ETH_TYPE_IP :: u16 where [c_defs]: "ETH_TYPE_IP = 0x0800"
definition ETH_TYPE_ARP :: u16 where [c_defs]: "ETH_TYPE_ARP = 0x0806"
definition ETH_TYPE_IPV6 :: u16 where [c_defs]: "ETH_TYPE_IPV6 = 0x86DD"
definition ETH_BROADCAST :: eth_addr where [c_defs]: "ETH_BROADCAST = replicate 6 0xff"

subsection \<open>Buffers\<close>

text \<open>A list node of a buffer, set and cleared with its list.\<close>

definition link_pbuf :: "nat \<Rightarrow> net \<Rightarrow> net option" where
  "link_pbuf p s = do { b \<leftarrow> pbufs s p; c_assert (\<not> linked b);
     Some (s\<lparr>pbufs := (pbufs s)(p \<mapsto> b\<lparr>linked := True\<rparr>)\<rparr>) }"

definition unlink_pbuf :: "nat \<Rightarrow> net \<Rightarrow> net option" where
  "unlink_pbuf p s = do { b \<leftarrow> pbufs s p;
     Some (s\<lparr>pbufs := (pbufs s)(p \<mapsto> b\<lparr>linked := False\<rparr>)\<rparr>) }"

definition free_push :: "nat \<Rightarrow> net \<Rightarrow> net option" where
  "free_push p s = do { l \<leftarrow> seq_push p (free_pbuf_list s); s \<leftarrow> link_pbuf p s;
     Some (s\<lparr>free_pbuf_list := l\<rparr>) }"

text \<open>The half page at \<open>off\<close> seen as a buffer: whatever its bytes say.\<close>

definition page_pbuf :: "bytes \<Rightarrow> nat \<Rightarrow> pbuf" where
  "page_pbuf c off = (let c = drop off c in
     \<lparr>payload = take PAYLOAD_SIZE (drop 16 c),
      plen = le32 (c ! 8) (c ! 9) (c ! 10) (c ! 11), pcount = le32 (c ! 12) (c ! 13) (c ! 14) (c ! 15),
      linked = False\<rparr>)"

definition pbuf_refill :: "net \<Rightarrow> net option" where
  "pbuf_refill s = (case pages s of [] \<Rightarrow> None | (page, c) # rest \<Rightarrow> do {
     c_assert (length c = 4096);
     let s = s\<lparr>pages := rest, pbufs := (pbufs s)(page \<mapsto> page_pbuf c 0, page + 2048 \<mapsto> page_pbuf c 2048)\<rparr>;
     s \<leftarrow> free_push page s;
     s \<leftarrow> free_push (page + 2048) s;
     Some (s\<lparr>pbuf_count := pbuf_count s + 2, free_count := free_count s + 2\<rparr>) })"

definition set_pcount :: "nat \<Rightarrow> u32 \<Rightarrow> net \<Rightarrow> net option" where
  "set_pcount p n s = do { b \<leftarrow> pbufs s p; Some (s\<lparr>pbufs := (pbufs s)(p \<mapsto> b\<lparr>pcount := n\<rparr>)\<rparr>) }"

definition set_plen :: "nat \<Rightarrow> u32 \<Rightarrow> net \<Rightarrow> net option" where
  "set_plen p n s = do { b \<leftarrow> pbufs s p; Some (s\<lparr>pbufs := (pbufs s)(p \<mapsto> b\<lparr>plen := n\<rparr>)\<rparr>) }"

definition pbuf_get :: "net \<Rightarrow> (nat \<times> net) option" where
  "pbuf_get s = do {
     s \<leftarrow> (if free_pbuf_list s = [] then pbuf_refill s else Some s);
     (p, l) \<leftarrow> seq_popback (free_pbuf_list s);
     s \<leftarrow> unlink_pbuf p (s\<lparr>free_pbuf_list := l\<rparr>);
     c_assert (p mod 2048 = 0);
     s \<leftarrow> set_pcount p 1 s;
     Some (p, s\<lparr>free_count := free_count s - 1\<rparr>) }"

definition pbuf_put :: "nat \<Rightarrow> net \<Rightarrow> net option" where
  "pbuf_put p s = do {
     c_assert (p mod 2048 = 0);
     b \<leftarrow> pbufs s p;
     c_assert (pcount b > 0);
     s \<leftarrow> set_pcount p (pcount b - 1) s;
     if pcount b - 1 > 0 then do { c_assert (linked b); Some s }
     else do { s \<leftarrow> free_push p s; Some (s\<lparr>free_count := free_count s + 1\<rparr>) } }"

definition pbuf_init :: "net \<Rightarrow> net" where
  "pbuf_init s = s\<lparr>free_pbuf_list := []\<rparr>"

subsection \<open>Interfaces\<close>

text \<open>\<open>kmalloc\<close> of an object; the word is its old contents at \<open>query\<close>.\<close>

definition kmalloc_obj :: "net \<Rightarrow> ((nat \<times> u32) \<times> net) option" where
  "kmalloc_obj s = (case objs s of [] \<Rightarrow> None | a # rest \<Rightarrow> Some (a, s\<lparr>objs := rest\<rparr>))"

text \<open>A string literal of the source, with its terminator.\<close>

definition addr_text :: "string \<Rightarrow> bytes" where
  "addr_text t = map (of_nat \<circ> of_char) t @ [0]"

definition aton_const :: "string \<Rightarrow> bytes \<Rightarrow> ip_addr option" where
  "aton_const t stack = do {
     (err, a) \<leftarrow> inet_aton (rd (addr_text t)) 0 stack 0;
     c_assert (err = neg_errno EOK);
     Some a }"

definition netif_setup :: "bytes \<Rightarrow> eth_addr \<Rightarrow> net \<Rightarrow> (nat \<times> net) option" where
  "netif_setup stack hw s = do {
     ((n, _), s) \<leftarrow> kmalloc_obj s;
     (_, nm, _) \<leftarrow> vsprintf Map.empty (butlast (addr_text ''eth%d'')) [Word (of_nat (length (netif_list s)))];
     c_assert (length nm \<le> 16);
     l \<leftarrow> seq_push n (netif_list s);
     ip \<leftarrow> aton_const ''192.168.31.33'' stack;
     msk \<leftarrow> aton_const ''255.255.255.0'' stack;
     gw \<leftarrow> aton_const ''192.168.31.2'' stack;
     Some (n, s\<lparr>netif_list := l, netifs := (netifs s)(n \<mapsto>
       \<lparr>name = nm, rx_pbuf_list = [], tx_pbuf_list = [], hwaddr = take 6 hw, ipaddr = ip,
        netmask = msk, gateway = gw\<rparr>)\<rparr>) }"

text \<open>The null pointer is the inner \<open>None\<close>.\<close>

definition netif_get :: "net \<Rightarrow> nat option" where
  "netif_get s = (case netif_list s of [] \<Rightarrow> None | n # _ \<Rightarrow> Some n)"

fun route_from :: "ip_addr \<Rightarrow> nat list \<Rightarrow> net \<Rightarrow> nat option option" where
  "route_from a [] s = Some None"
| "route_from a (n # ns) s = do {
     i \<leftarrow> netifs s n;
     if ip_addr_maskcmp a (ipaddr i) (netmask i) then Some (Some n) else route_from a ns s }"

definition netif_route :: "ip_addr \<Rightarrow> net \<Rightarrow> nat option option" where
  "netif_route a s = do {
     r \<leftarrow> route_from a (netif_list s) s;
     Some (case r of Some n \<Rightarrow> Some n | None \<Rightarrow> netif_get s) }"

definition netif_remove :: "nat \<Rightarrow> net \<Rightarrow> net option" where
  "netif_remove n s = do {
     c_assert (n \<in> set (netif_list s));
     Some (s\<lparr>netif_list := remove1 n (netif_list s), netifs := (netifs s)(n := None)\<rparr>) }"

definition netif_input :: "nat \<Rightarrow> nat \<Rightarrow> net \<Rightarrow> net option" where
  "netif_input n p s = do {
     i \<leftarrow> netifs s n;
     l \<leftarrow> seq_push p (rx_pbuf_list i);
     s \<leftarrow> link_pbuf p s;
     Some (s\<lparr>netifs := (netifs s)(n \<mapsto> i\<lparr>rx_pbuf_list := l\<rparr>), neti_waiting := False\<rparr>) }"

definition netif_output :: "nat \<Rightarrow> nat \<Rightarrow> net \<Rightarrow> net option" where
  "netif_output n p s = do {
     i \<leftarrow> netifs s n;
     l \<leftarrow> seq_push p (tx_pbuf_list i);
     s \<leftarrow> link_pbuf p s;
     Some (s\<lparr>netifs := (netifs s)(n \<mapsto> i\<lparr>tx_pbuf_list := l\<rparr>), neto_waiting := False\<rparr>) }"

definition eth_output :: "nat \<Rightarrow> nat \<Rightarrow> eth_addr \<Rightarrow> u16 \<Rightarrow> u32 \<Rightarrow> net \<Rightarrow> (int \<times> net) option" where
  "eth_output n p dst type len s = do {
     i \<leftarrow> netifs s n;
     s \<leftarrow> st16 p eth_type (htons type) s;
     s \<leftarrow> eth_addr_copy p eth_dst dst s;
     s \<leftarrow> eth_addr_copy p eth_src (hwaddr i) s;
     s \<leftarrow> set_plen p (of_nat sizeof_eth + len) s;
     s \<leftarrow> netif_output n p s;
     Some (neg_errno EOK, s) }"

subsection \<open>Reading what was written\<close>

definition slice :: "'a list \<Rightarrow> nat \<Rightarrow> nat \<Rightarrow> 'a list" where
  "slice xs i n = take n (drop i xs)"

definition splice :: "'a list \<Rightarrow> nat \<Rightarrow> 'a list \<Rightarrow> 'a list" where
  "splice xs i bs = take i xs @ bs @ drop (i + length bs) xs"

lemma length_splice [simp]: "i + length bs \<le> length xs \<Longrightarrow> length (splice xs i bs) = length xs"
  by (simp add: splice_def)

lemma length_slice [simp]: "i + n \<le> length xs \<Longrightarrow> length (slice xs i n) = n"
  by (simp add: slice_def)

lemma slice_splice_same [simp]:
  "i + length bs \<le> length xs \<Longrightarrow> n = length bs \<Longrightarrow> slice (splice xs i bs) i n = bs"
  by (simp add: slice_def splice_def)

lemma slice_splice_before: "j + n \<le> i \<Longrightarrow> i + length bs \<le> length xs \<Longrightarrow> slice (splice xs i bs) j n = slice xs j n"
  by (simp add: slice_def splice_def take_drop min_def)

lemma slice_splice_after: "i + length bs \<le> j \<Longrightarrow> i + length bs \<le> length xs \<Longrightarrow> slice (splice xs i bs) j n = slice xs j n"
  by (simp add: slice_def splice_def)

lemma splice_Cons: "i + length bs < length xs \<Longrightarrow> splice (xs[i := b]) (Suc i) bs = splice xs i (b # bs)"
  by (simp add: splice_def upd_conv_take_nth_drop add.commute [of i])

lemma slice_Suc: "i < length xs \<Longrightarrow> slice xs i (Suc n) = xs ! i # slice xs (Suc i) n"
  by (simp add: slice_def Cons_nth_drop_Suc [symmetric])

lemma slice_0 [simp]: "slice xs i 0 = []"
  by (simp add: slice_def)

definition set_payload :: "nat \<Rightarrow> bytes \<Rightarrow> net \<Rightarrow> net" where
  "set_payload p bs s = s\<lparr>pbufs := (pbufs s)(p \<mapsto> the (pbufs s p)\<lparr>payload := bs\<rparr>)\<rparr>"

lemma stn_splice:
  "pbufs s p = Some b \<Longrightarrow> i + length bs \<le> length (payload b)
   \<Longrightarrow> stn p i bs s = Some (set_payload p (splice (payload b) i bs) s)"
proof (induction bs arbitrary: s b i)
  case Nil
  then show ?case by (simp add: set_payload_def splice_def map_upd_triv)
next
  case (Cons c bs)
  let ?s = "s\<lparr>pbufs := (pbufs s)(p \<mapsto> b\<lparr>payload := (payload b)[i := c]\<rparr>)\<rparr>"
  have "st8 p i c s = Some ?s" using Cons.prems by (simp add: st8_def)
  moreover have "stn p (Suc i) bs ?s
      = Some (set_payload p (splice ((payload b)[i := c]) (Suc i) bs) ?s)"
    using Cons.IH [of ?s "b\<lparr>payload := (payload b)[i := c]\<rparr>" "Suc i"] Cons.prems by simp
  ultimately show ?case
    using Cons.prems by (simp add: splice_Cons set_payload_def)
qed

lemma st8_splice:
  "pbufs s p = Some b \<Longrightarrow> i < length (payload b)
   \<Longrightarrow> st8 p i c s = Some (set_payload p (splice (payload b) i [c]) s)"
  using stn_splice [of s p b i "[c]"] by (simp split: Option.bind_splits)

lemma ldn_slice:
  "pbufs s p = Some b \<Longrightarrow> i + n \<le> length (payload b) \<Longrightarrow> ldn p i n s = Some (slice (payload b) i n)"
  by (induction n arbitrary: i) (simp_all add: ld8_def slice_Suc)

lemma ldn_out: "pbufs s p = Some b \<Longrightarrow> i \<le> length (payload b) \<Longrightarrow> length (payload b) < i + n \<Longrightarrow> ldn p i n s = None"
  by (induction n arbitrary: i) (auto simp: ld8_def rd_def Suc_le_eq split: Option.bind_splits)

lemma ld8_slice:
  "pbufs s p = Some b \<Longrightarrow> i < length (payload b) \<Longrightarrow> ld8 p i s = Some (hd (slice (payload b) i 1))"
  by (simp add: ld8_def slice_def hd_drop_conv_nth)

lemma set_payload_simps [simp]:
  "pbufs (set_payload p bs s) = (pbufs s)(p \<mapsto> the (pbufs s p)\<lparr>payload := bs\<rparr>)"
  "netifs (set_payload p bs s) = netifs s" "netif_list (set_payload p bs s) = netif_list s"
  "arps (set_payload p bs s) = arps s" "arp_entry_list (set_payload p bs s) = arp_entry_list s"
  "now (set_payload p bs s) = now s" "free_pbuf_list (set_payload p bs s) = free_pbuf_list s"
  "neto_waiting (set_payload p bs s) = neto_waiting s" "neti_waiting (set_payload p bs s) = neti_waiting s"
  "set_payload p bs (set_payload p cs s) = set_payload p bs s"
  by (simp_all add: set_payload_def)

text \<open>16-bit and address fields.\<close>

definition u16_of :: "bytes \<Rightarrow> u16" where "u16_of bs = le16 (bs ! 0) (bs ! 1)"
definition ip_of :: "bytes \<Rightarrow> ip_addr" where "ip_of bs = le32 (bs ! 0) (bs ! 1) (bs ! 2) (bs ! 3)"

lemma le16_lo_hi [simp]: "le16 (lo8 w) (hi8 w) = w"
proof (rule bit_word_eqI)
  fix n assume n: "n < LENGTH(16)"
  consider "n < 8" | "8 \<le> n" by linarith
  then show "bit (le16 (lo8 w) (hi8 w)) n = bit w n"
    by cases (use n in \<open>auto simp: le16_def lo8_def hi8_def bit_simps\<close>)
qed

lemma u16_of_split [simp]: "u16_of [lo8 w, hi8 w] = w"
  by (simp add: u16_of_def)

lemma ip_of_bytes [simp]: "ip_of (ip_bytes a) = a"
proof (rule bit_word_eqI)
  fix n assume n: "n < LENGTH(32)"
  consider "n < 8" | "8 \<le> n" "n < 16" | "16 \<le> n" "n < 24" | "24 \<le> n" by linarith
  then show "bit (ip_of (ip_bytes a)) n = bit a n"
    by cases (use n in \<open>auto simp: ip_of_def ip_bytes_def le32_def bit_simps\<close>)
qed

lemma length_ip_bytes [simp]: "length (ip_bytes a) = 4"
  by (simp add: ip_bytes_def)

lemma slice_nth: "k < n \<Longrightarrow> i + n \<le> length xs \<Longrightarrow> slice xs i n ! k = xs ! (i + k)"
  by (simp add: slice_def)

lemma ld16_slice:
  "pbufs s p = Some b \<Longrightarrow> i + 2 \<le> length (payload b) \<Longrightarrow> ld16 p i s = Some (u16_of (slice (payload b) i 2))"
  by (simp add: ld16_def ld8_def u16_of_def slice_nth)

lemma ld_ip_slice:
  "pbufs s p = Some b \<Longrightarrow> i + 4 \<le> length (payload b) \<Longrightarrow> ld_ip p i s = Some (ip_of (slice (payload b) i 4))"
  by (simp add: ld_ip_def ld8_def ip_of_def slice_nth)

lemmas slice_splice_other = slice_splice_before slice_splice_after

lemma st16_splice:
  "pbufs s p = Some b \<Longrightarrow> i + 2 \<le> length (payload b)
   \<Longrightarrow> st16 p i v s = Some (set_payload p (splice (payload b) i [lo8 v, hi8 v]) s)"
  unfolding st16_def by (rule stn_splice) simp_all

lemma addr_copy_splice:
  "pbufs s p = Some b \<Longrightarrow> i + 4 \<le> length (payload b)
   \<Longrightarrow> ip_addr_copy p i a s = Some (set_payload p (splice (payload b) i (ip_bytes a)) s)"
  "pbufs s p = Some b \<Longrightarrow> i + 6 \<le> length (payload b) \<Longrightarrow> length hw = 6
   \<Longrightarrow> eth_addr_copy p i hw s = Some (set_payload p (splice (payload b) i hw) s)"
  unfolding ip_addr_copy_def eth_addr_copy_def by (subst stn_splice; simp)+

lemmas packet_access = ld8_slice ld16_slice ld_ip_slice ldn_slice st8_splice st16_splice addr_copy_splice

subsection \<open>The pool of buffers\<close>

definition pages_ok :: "net \<Rightarrow> bool" where
  "pages_ok s \<longleftrightarrow> distinct (map fst (pages s))
     \<and> (\<forall>(a, c) \<in> set (pages s). a mod 4096 = 0 \<and> length c = 4096
          \<and> pbufs s a = None \<and> pbufs s (a + 2048) = None)"

definition pbuf_inv :: "net \<Rightarrow> bool" where
  "pbuf_inv s \<longleftrightarrow> distinct (free_pbuf_list s)
     \<and> (\<forall>p\<in>set (free_pbuf_list s). \<exists>b. pbufs s p = Some b \<and> linked b)
     \<and> free_count s = of_nat (length (free_pbuf_list s))
     \<and> (\<forall>p b. pbufs s p = Some b \<longrightarrow> p mod 2048 = 0 \<and> length (payload b) = PAYLOAD_SIZE)
     \<and> pages_ok s"

lemma page_pbuf_simps [simp]:
  "linked (page_pbuf c off) = False"
  "length c = 4096 \<Longrightarrow> off + 2048 \<le> 4096 \<Longrightarrow> length (payload (page_pbuf c off)) = PAYLOAD_SIZE"
  by (simp_all add: page_pbuf_def Let_def PAYLOAD_SIZE_def)

lemma half_page_aligned: "a mod 4096 = 0 \<Longrightarrow> a mod 2048 = 0 \<and> (a + 2048) mod 2048 = (0 :: nat)"
  using mod_mod_cancel [of 2048 4096 a] by simp

lemma page_distinct: "a mod 4096 = 0 \<Longrightarrow> b mod 4096 = 0 \<Longrightarrow> a \<noteq> b + (2048 :: nat)"
proof
  assume a: "a mod 4096 = 0" "b mod 4096 = 0" "a = b + 2048"
  have "(b + 2048) mod 4096 = (b mod 4096 + 2048) mod 4096" by (rule mod_add_left_eq [symmetric])
  then show False unfolding a(2) a(3) [symmetric] a(1) by simp
qed

lemma pages_ok_mono:
  "pages_ok s \<Longrightarrow> pages s' = pages s \<Longrightarrow> (\<And>a. pbufs s a = None \<Longrightarrow> pbufs s' a = None) \<Longrightarrow> pages_ok s'"
  by (fastforce simp: pages_ok_def)

lemma pbuf_refill_inv:
  assumes inv: "pbuf_inv s" and empty: "free_pbuf_list s = []" and pg: "pages s = (a, c) # rest"
  shows "\<exists>s'. pbuf_refill s = Some s' \<and> pbuf_inv s' \<and> free_pbuf_list s' = [a + 2048, a]
    \<and> (\<forall>q. q \<noteq> a \<longrightarrow> q \<noteq> a + 2048 \<longrightarrow> pbufs s' q = pbufs s q) \<and> pbufs s a = None \<and> pbufs s (a + 2048) = None
    \<and> pages s' = rest \<and> netifs s' = netifs s"
proof -
  have a: "a mod 4096 = 0" "length c = 4096" "pbufs s a = None" "pbufs s (a + 2048) = None"
    using inv pg by (auto simp: pbuf_inv_def pages_ok_def)
  have al: "a mod 2048 = 0" "(a + 2048) mod 2048 = 0" using half_page_aligned [OF a(1)] by auto
  let ?s = "s\<lparr>pages := rest, pbuf_count := pbuf_count s + 2, free_count := free_count s + 2,
    pbufs := (pbufs s)(a \<mapsto> page_pbuf c 0, a + 2048 \<mapsto> page_pbuf c 2048,
      a \<mapsto> (page_pbuf c 0)\<lparr>linked := True\<rparr>,
      a + 2048 \<mapsto> (page_pbuf c 2048)\<lparr>linked := True\<rparr>), free_pbuf_list := [a + 2048, a]\<rparr>"
  have r: "pbuf_refill s = Some ?s"
    using empty pg a(2) by (simp add: pbuf_refill_def free_push_def seq_push_def link_pbuf_def Let_def)
  have rest: "b mod 4096 = 0 \<and> b \<noteq> a \<and> length d = 4096 \<and> pbufs s b = None \<and> pbufs s (b + 2048) = None"
    if "(b, d) \<in> set rest" for b d
  proof -
    have ok: "pages_ok s" using inv by (simp add: pbuf_inv_def)
    then have "a \<notin> fst ` set rest" unfolding pages_ok_def pg by simp
    then have "b \<noteq> a" using that by (metis fst_conv image_eqI)
    then show ?thesis using ok that unfolding pages_ok_def pg by auto
  qed
  have sep: "b \<noteq> a + 2048 \<and> b + 2048 \<noteq> a" if "(b, d) \<in> set rest" for b d
    using rest [OF that] a(1) page_distinct [of b a] page_distinct [of a b] by metis
  have "distinct (map fst rest)" using inv pg by (simp add: pbuf_inv_def pages_ok_def)
  then have "pages_ok ?s"
    unfolding pages_ok_def using rest sep by auto
  then have "pbuf_inv ?s"
    using inv empty a al by (auto simp: pbuf_inv_def)
  then show ?thesis using r a by (intro exI [of _ ?s]) simp
qed

lemma pop_free:
  assumes inv: "pbuf_inv s" and ne: "free_pbuf_list s \<noteq> []"
  shows "\<exists>p s' b. pbuf_get s = Some (p, s') \<and> pbuf_inv s' \<and> p = last (free_pbuf_list s)
    \<and> free_pbuf_list s' = butlast (free_pbuf_list s)
    \<and> pbufs s' p = Some b \<and> pcount b = 1 \<and> \<not> linked b
    \<and> (\<forall>q. q \<noteq> p \<longrightarrow> pbufs s' q = pbufs s q) \<and> netifs s' = netifs s"
proof -
  let ?l = "free_pbuf_list s"
  let ?p = "last ?l"
  have mem: "?p \<in> set ?l" using ne by simp
  then obtain b where b: "pbufs s ?p = Some b" "linked b" using inv by (auto simp: pbuf_inv_def)
  have al: "?p mod 2048 = 0" using inv b by (auto simp: pbuf_inv_def)
  let ?b = "b\<lparr>linked := False, pcount := 1\<rparr>"
  let ?s = "s\<lparr>free_pbuf_list := butlast ?l, pbufs := (pbufs s)(?p \<mapsto> ?b), free_count := free_count s - 1\<rparr>"
  have g: "pbuf_get s = Some (?p, ?s)"
    using ne b al by (simp add: pbuf_get_def seq_popback_def unlink_pbuf_def set_pcount_def)
  have d: "distinct ?l" using inv by (simp add: pbuf_inv_def)
  then have nb: "?p \<notin> set (butlast ?l)"
    using ne by (metis append_butlast_last_id distinct_butlast not_distinct_conv_prefix)
  have len: "of_nat (length (butlast ?l)) = (of_nat (length ?l) - 1 :: u32)"
    using ne by (cases ?l rule: rev_cases) simp_all
  have "pages_ok ?s"
    by (rule pages_ok_mono [of s]) (use inv b in \<open>auto simp: pbuf_inv_def\<close>)
  then have "pbuf_inv ?s"
    using inv b al nb d len by (auto simp: pbuf_inv_def distinct_butlast dest: in_set_butlastD)
  then show ?thesis using g by (intro exI [of _ ?p] exI [of _ ?s] exI [of _ ?b]) simp
qed

lemma pbuf_get_ok:
  assumes "pbuf_inv s" "free_pbuf_list s \<noteq> [] \<or> pages s \<noteq> []"
  shows "\<exists>p s' b. pbuf_get s = Some (p, s') \<and> pbuf_inv s' \<and> p \<notin> set (free_pbuf_list s')
    \<and> pbufs s' p = Some b \<and> pcount b = 1 \<and> \<not> linked b
    \<and> (pbufs s p = None \<or> p \<in> set (free_pbuf_list s)) \<and> netifs s' = netifs s
    \<and> (\<forall>q. q \<in> dom (pbufs s) - {p} \<longrightarrow> pbufs s' q = pbufs s q)"
proof (cases "free_pbuf_list s = []")
  case False
  obtain p s' b where g: "pbuf_get s = Some (p, s')" "pbuf_inv s'" "p = last (free_pbuf_list s)"
    "free_pbuf_list s' = butlast (free_pbuf_list s)" "pbufs s' p = Some b" "pcount b = 1" "\<not> linked b"
    "\<forall>q. q \<noteq> p \<longrightarrow> pbufs s' q = pbufs s q" "netifs s' = netifs s"
    using pop_free [OF assms(1) False] by blast
  moreover have "p \<notin> set (free_pbuf_list s')" using g(2,5,7) by (auto simp: pbuf_inv_def)
  ultimately show ?thesis using False by (intro exI [of _ p] exI [of _ s'] exI [of _ b]) auto
next
  case True
  then obtain a c rest where pg: "pages s = (a, c) # rest" using assms(2) by (cases "pages s") auto
  obtain s1 where r: "pbuf_refill s = Some s1" "pbuf_inv s1" "free_pbuf_list s1 = [a + 2048, a]"
    "\<forall>q. q \<noteq> a \<longrightarrow> q \<noteq> a + 2048 \<longrightarrow> pbufs s1 q = pbufs s q" "pbufs s a = None" "pbufs s (a + 2048) = None"
    "netifs s1 = netifs s"
    using pbuf_refill_inv [OF assms(1) True pg] by blast
  obtain p s' b where g: "pbuf_get s1 = Some (p, s')" "pbuf_inv s'" "p = a"
    "pbufs s' p = Some b" "pcount b = 1" "\<not> linked b" "\<forall>q. q \<noteq> p \<longrightarrow> pbufs s' q = pbufs s1 q"
    "netifs s' = netifs s1"
    using pop_free [OF r(2)] r(3) by auto
  have "pbuf_get s = pbuf_get s1" using True r(1,3) by (simp add: pbuf_get_def)
  moreover have "p \<notin> set (free_pbuf_list s')" using g(2,4,6) by (auto simp: pbuf_inv_def)
  moreover have "pbufs s' q = pbufs s q" if "q \<in> dom (pbufs s) - {p}" for q
  proof -
    have "q \<noteq> a" "q \<noteq> a + 2048" using that r(5,6) by auto
    then show ?thesis using g(3,7) r(4) by simp
  qed
  ultimately show ?thesis using g r(5,7) by (intro exI [of _ p] exI [of _ s'] exI [of _ b]) simp
qed

lemma pbuf_put_last:
  assumes inv: "pbuf_inv s" and b: "pbufs s p = Some b" "pcount b = 1" "\<not> linked b"
  shows "\<exists>s'. pbuf_put p s = Some s' \<and> pbuf_inv s' \<and> free_pbuf_list s' = p # free_pbuf_list s"
proof -
  have al: "p mod 2048 = 0" using inv b by (auto simp: pbuf_inv_def)
  have nf: "p \<notin> set (free_pbuf_list s)" using inv b by (auto simp: pbuf_inv_def)
  let ?s = "s\<lparr>pbufs := (pbufs s)(p \<mapsto> b\<lparr>pcount := 0, linked := True\<rparr>),
    free_pbuf_list := p # free_pbuf_list s, free_count := free_count s + 1\<rparr>"
  have "pbuf_put p s = Some ?s"
    using b al nf by (simp add: pbuf_put_def set_pcount_def free_push_def seq_push_def link_pbuf_def)
  moreover have "pages_ok ?s"
    by (rule pages_ok_mono [of s]) (use inv b in \<open>auto simp: pbuf_inv_def\<close>)
  then have "pbuf_inv ?s" using inv b al nf by (auto simp: pbuf_inv_def)
  ultimately show ?thesis by auto
qed

definition sample_net :: net where
  "sample_net = \<lparr>pbufs = Map.empty, free_pbuf_list = [], pbuf_count = 0, free_count = 0,
     netifs = Map.empty, netif_list = [], arps = Map.empty, arp_entry_list = [],
     neti_waiting = True, neto_waiting = True, now = 0, pages = [(8192, replicate 4096 0)], objs = []\<rparr>"

lemma sample_net_inv: "pbuf_inv sample_net"
  by (simp add: pbuf_inv_def pages_ok_def sample_net_def)

text \<open>C19: As long as the pool has a buffer or a page can be had, \<open>pbuf_get\<close> returns a buffer
  that is in nobody's hands, aligned to 2K, with a count of one, and leaves every buffer in use as it
  was; \<open>pbuf_put\<close> of it succeeds and makes it free again. The pool stays consistent: distinct
  linked free buffers, counted by \<open>free_count\<close>.\<close>

theorem pbuf_pool:
  assumes "pbuf_inv s" "free_pbuf_list s \<noteq> [] \<or> pages s \<noteq> []"
  shows "\<exists>p s' s''. pbuf_get s = Some (p, s') \<and> pbuf_inv s' \<and> p mod 2048 = 0
    \<and> (pbufs s p = None \<or> p \<in> set (free_pbuf_list s)) \<and> p \<notin> set (free_pbuf_list s')
    \<and> (\<forall>q \<in> dom (pbufs s) - {p}. pbufs s' q = pbufs s q)
    \<and> pbuf_put p s' = Some s'' \<and> pbuf_inv s'' \<and> free_pbuf_list s'' = p # free_pbuf_list s'"
proof -
  obtain p s' b where g: "pbuf_get s = Some (p, s')" "pbuf_inv s'" "p \<notin> set (free_pbuf_list s')"
    "pbufs s' p = Some b" "pcount b = 1" "\<not> linked b"
    "pbufs s p = None \<or> p \<in> set (free_pbuf_list s)"
    "\<forall>q. q \<in> dom (pbufs s) - {p} \<longrightarrow> pbufs s' q = pbufs s q"
    using pbuf_get_ok [OF assms] by blast
  obtain s'' where "pbuf_put p s' = Some s''" "pbuf_inv s''" "free_pbuf_list s'' = p # free_pbuf_list s'"
    using pbuf_put_last [OF g(2,4,5,6)] by blast
  moreover have "p mod 2048 = 0" using g(2,4) by (auto simp: pbuf_inv_def)
  ultimately show ?thesis using g by (intro exI [of _ p] exI [of _ s'] exI [of _ s'']) simp
qed

theorem pbuf_pool_witness:
  "\<exists>p s' s''. pbuf_get sample_net = Some (p, s') \<and> pbuf_inv s' \<and> p mod 2048 = 0
    \<and> (pbufs sample_net p = None \<or> p \<in> set (free_pbuf_list sample_net)) \<and> p \<notin> set (free_pbuf_list s')
    \<and> (\<forall>q \<in> dom (pbufs sample_net) - {p}. pbufs s' q = pbufs sample_net q)
    \<and> pbuf_put p s' = Some s'' \<and> pbuf_inv s'' \<and> free_pbuf_list s'' = p # free_pbuf_list s'"
  by (rule pbuf_pool [OF sample_net_inv]) (simp add: sample_net_def)

end
