(* ===== verification/Protocols.thy ===== *)
theory Protocols
  imports Packet
begin

section \<open>Address resolution, IP and ICMP: \<open>net/arp.c\<close>, \<open>net/ip.c\<close>, \<open>net/icmp.c\<close>\<close>

text \<open>
  The handlers a received frame passes through, on the state of \<open>Packet\<close>, from \<open>eth_input\<close>
  to the frames they queue for sending; the two service threads of \<open>net/netif.c\<close>, one visit of
  an interface at a time. A field of a header is named by its offset in the payload. Log output
  is left out.
\<close>

subsection \<open>Layouts\<close>

text \<open>\<open>arp_t\<close> after the Ethernet header.\<close>

definition arp_hwtype :: nat where [c_defs]: "arp_hwtype = 14"
definition arp_proto :: nat where [c_defs]: "arp_proto = 16"
definition arp_hwlen :: nat where [c_defs]: "arp_hwlen = 18"
definition arp_protolen :: nat where [c_defs]: "arp_protolen = 19"
definition arp_opcode :: nat where [c_defs]: "arp_opcode = 20"
definition arp_hwsrc :: nat where [c_defs]: "arp_hwsrc = 22"
definition arp_ipsrc :: nat where [c_defs]: "arp_ipsrc = 28"
definition arp_hwdst :: nat where [c_defs]: "arp_hwdst = 32"
definition arp_ipdst :: nat where [c_defs]: "arp_ipdst = 38"
definition sizeof_arp :: u32 where [c_defs]: "sizeof_arp = 28"

definition ARP_OP_REQUEST :: u16 where [c_defs]: "ARP_OP_REQUEST = 1"
definition ARP_OP_REPLY :: u16 where [c_defs]: "ARP_OP_REPLY = 2"
definition ARP_HARDWARE_ETH :: u16 where [c_defs]: "ARP_HARDWARE_ETH = 1"
definition ARP_HARDWARE_ETH_LEN :: u8 where [c_defs]: "ARP_HARDWARE_ETH_LEN = 6"
definition ARP_PROTOCAL_IP :: u16 where [c_defs]: "ARP_PROTOCAL_IP = 0x0800"
definition ARP_PROTOCAL_IP_LEN :: u8 where [c_defs]: "ARP_PROTOCAL_IP_LEN = 4"
definition ARP_ENTRY_TIMEOUT :: u32 where [c_defs]: "ARP_ENTRY_TIMEOUT = 600"
definition ARP_RETRY :: u32 where [c_defs]: "ARP_RETRY = 5"
definition ARP_DELAY :: u32 where [c_defs]: "ARP_DELAY = 2"

text \<open>\<open>ip_t\<close> and \<open>icmp_t\<close>. The first byte holds \<open>header\<close> in its low half and
  \<open>version\<close> in its high half; the byte at \<open>ip_flags\<close> holds \<open>offset0\<close> in its low five
  bits and \<open>flags\<close> in its high three.\<close>

definition ip_vh :: nat where [c_defs]: "ip_vh = 14"
definition ip_tos :: nat where [c_defs]: "ip_tos = 15"
definition ip_length :: nat where [c_defs]: "ip_length = 16"
definition ip_id :: nat where [c_defs]: "ip_id = 18"
definition ip_flags :: nat where [c_defs]: "ip_flags = 20"
definition ip_offset1 :: nat where [c_defs]: "ip_offset1 = 21"
definition ip_ttl :: nat where [c_defs]: "ip_ttl = 22"
definition ip_proto :: nat where [c_defs]: "ip_proto = 23"
definition ip_sum :: nat where [c_defs]: "ip_sum = 24"
definition ip_src :: nat where [c_defs]: "ip_src = 26"
definition ip_dst :: nat where [c_defs]: "ip_dst = 30"
definition sizeof_ip :: u16 where [c_defs]: "sizeof_ip = 20"

definition IP_VERSION_4 :: u8 where [c_defs]: "IP_VERSION_4 = 4"
definition IP_TTL :: u8 where [c_defs]: "IP_TTL = 64"
definition IP_PROTOCOL_ICMP :: u8 where [c_defs]: "IP_PROTOCOL_ICMP = 1"
definition IP_PROTOCOL_TCP :: u8 where [c_defs]: "IP_PROTOCOL_TCP = 6"
definition IP_PROTOCOL_UDP :: u8 where [c_defs]: "IP_PROTOCOL_UDP = 17"
definition IP_FLAT_NOLAST :: u8 where [c_defs]: "IP_FLAT_NOLAST = 0b100"

definition icmp_type :: nat where [c_defs]: "icmp_type = 34"
definition icmp_code :: nat where [c_defs]: "icmp_code = 35"
definition icmp_chksum :: nat where [c_defs]: "icmp_chksum = 36"
definition echo_id :: nat where [c_defs]: "echo_id = 38"
definition echo_seq :: nat where [c_defs]: "echo_seq = 40"
definition echo_payload :: nat where [c_defs]: "echo_payload = 42"
definition sizeof_echo :: u32 where [c_defs]: "sizeof_echo = 8"

definition ICMP_ER :: u8 where [c_defs]: "ICMP_ER = 0"
definition ICMP_ECHO :: u8 where [c_defs]: "ICMP_ECHO = 8"

subsection \<open>The address-resolution cache\<close>

text \<open>The list is kept sorted by \<open>expires\<close>, compared as an \<open>int\<close>.\<close>

definition entry_key :: "net \<Rightarrow> nat \<Rightarrow> int" where
  "entry_key s e = (case arps s e of Some a \<Rightarrow> sint (expires a) | None \<Rightarrow> 0)"

definition arp_entry_get :: "nat \<Rightarrow> ip_addr \<Rightarrow> net \<Rightarrow> (nat \<times> net) option" where
  "arp_entry_get n addr s = do {
     ((e, old), s) \<leftarrow> kmalloc_obj s;
     let s = s\<lparr>arps := (arps s)(e \<mapsto>
       \<lparr>e_hwaddr = ETH_BROADCAST, e_ipaddr = addr, expires = 0, used = 1, query = old, retry = 0,
        e_pbuf_list = [], e_netif = n\<rparr>)\<rparr>;
     Some (e, s\<lparr>arp_entry_list := seq_insert_sort (entry_key s) e (arp_entry_list s)\<rparr>) }"

text \<open>The buffers still waiting are released, then the entry.\<close>

function put_waiting :: "nat list \<Rightarrow> net \<Rightarrow> net option" where
  "put_waiting ps s =
     (if ps = [] then Some s
      else do {
        (p, ps) \<leftarrow> seq_popback ps;
        s \<leftarrow> unlink_pbuf p s;
        b \<leftarrow> pbufs s p;
        c_assert (pcount b = 1);
        s \<leftarrow> pbuf_put p s;
        put_waiting ps s })"
  by auto
termination by (relation "measure (\<lambda>(ps, s). length ps)") (auto simp: seq_popback_def)

declare put_waiting.simps [simp del]

definition arp_entry_put :: "nat \<Rightarrow> net \<Rightarrow> net option" where
  "arp_entry_put e s = do {
     a \<leftarrow> arps s e;
     s \<leftarrow> put_waiting (e_pbuf_list a) s;
     c_assert (e \<in> set (arp_entry_list s));
     Some (s\<lparr>arp_entry_list := remove1 e (arp_entry_list s), arps := (arps s)(e := None)\<rparr>) }"

fun lookup_from :: "nat \<Rightarrow> ip_addr \<Rightarrow> nat list \<Rightarrow> net \<Rightarrow> nat option option" where
  "lookup_from n a [] s = Some None"
| "lookup_from n a (e # es) s = do {
     entry \<leftarrow> arps s e;
     if ip_addr_cmp (e_ipaddr entry) a \<and> n = e_netif entry then Some (Some e)
     else lookup_from n a es s }"

definition arp_lookup :: "nat \<Rightarrow> ip_addr \<Rightarrow> net \<Rightarrow> (nat \<times> net) option" where
  "arp_lookup n addr s = do {
     i \<leftarrow> netifs s n;
     let q = (if \<not> ip_addr_maskcmp (ipaddr i) addr (netmask i) then gateway i else addr);
     r \<leftarrow> lookup_from n q (arp_entry_list s) s;
     case r of Some e \<Rightarrow> Some (e, s) | None \<Rightarrow> arp_entry_get n q s }"

definition upd_entry :: "nat \<Rightarrow> (arp_entry \<Rightarrow> arp_entry) \<Rightarrow> net \<Rightarrow> net option" where
  "upd_entry e f s = do { a \<leftarrow> arps s e; Some (s\<lparr>arps := (arps s)(e \<mapsto> f a)\<rparr>) }"

definition arp_query :: "nat \<Rightarrow> net \<Rightarrow> (int \<times> net) option" where
  "arp_query e s = do {
     a \<leftarrow> arps s e;
     if query a + ARP_DELAY > now s then Some (neg_errno ETIME, s)
     else do {
       s \<leftarrow> upd_entry e (\<lambda>a. a\<lparr>query := now s, retry := retry a + 1\<rparr>) s;
       s \<leftarrow> (if retry a + 1 > 2 then upd_entry e (\<lambda>a. a\<lparr>e_hwaddr := ETH_BROADCAST\<rparr>) s else Some s);
       a \<leftarrow> arps s e;
       (p, s) \<leftarrow> pbuf_get s;
       i \<leftarrow> netifs s (e_netif a);
       s \<leftarrow> st16 p arp_opcode (htons ARP_OP_REQUEST) s;
       s \<leftarrow> st16 p arp_hwtype (htons ARP_HARDWARE_ETH) s;
       s \<leftarrow> st8 p arp_hwlen ARP_HARDWARE_ETH_LEN s;
       s \<leftarrow> st16 p arp_proto (htons ARP_PROTOCAL_IP) s;
       s \<leftarrow> st8 p arp_protolen ARP_PROTOCAL_IP_LEN s;
       s \<leftarrow> eth_addr_copy p arp_hwdst (e_hwaddr a) s;
       s \<leftarrow> ip_addr_copy p arp_ipdst (e_ipaddr a) s;
       s \<leftarrow> eth_addr_copy p arp_hwsrc (hwaddr i) s;
       s \<leftarrow> ip_addr_copy p arp_ipsrc (ipaddr i) s;
       (_, s) \<leftarrow> eth_output (e_netif a) p (e_hwaddr a) ETH_TYPE_ARP sizeof_arp s;
       Some (neg_errno EOK, s) } }"

text \<open>The loop that sends what waited for the address, oldest first.\<close>

function send_waiting :: "nat \<Rightarrow> eth_addr \<Rightarrow> nat list \<Rightarrow> net \<Rightarrow> net option" where
  "send_waiting n hw ps s =
     (if ps = [] then Some s
      else do {
        (p, ps) \<leftarrow> seq_popback ps;
        s \<leftarrow> unlink_pbuf p s;
        s \<leftarrow> eth_addr_copy p eth_dst hw s;
        s \<leftarrow> netif_output n p s;
        send_waiting n hw ps s })"
  by auto
termination by (relation "measure (\<lambda>(n, hw, ps, s). length ps)") (auto simp: seq_popback_def)

declare send_waiting.simps [simp del]

definition arp_refresh :: "nat \<Rightarrow> nat \<Rightarrow> net \<Rightarrow> (int \<times> net) option" where
  "arp_refresh n p s = do {
     i \<leftarrow> netifs s n;
     src \<leftarrow> ld_ip p arp_ipsrc s;
     if \<not> ip_addr_maskcmp src (ipaddr i) (netmask i) then Some (neg_errno EADDR, s)
     else do {
       (e, s) \<leftarrow> arp_lookup n src s;
       hw \<leftarrow> ldn p arp_hwsrc 6 s;
       s \<leftarrow> upd_entry e (\<lambda>a. a\<lparr>e_hwaddr := hw, expires := now s + ARP_ENTRY_TIMEOUT,
              retry := 0, used := 0\<rparr>) s;
       c_assert (e \<in> set (arp_entry_list s));
       let l = remove1 e (arp_entry_list s);
       let s = s\<lparr>arp_entry_list := seq_insert_sort (entry_key s) e l\<rparr>;
       a \<leftarrow> arps s e;
       s \<leftarrow> send_waiting n hw (e_pbuf_list a) s;
       s \<leftarrow> upd_entry e (\<lambda>a. a\<lparr>e_pbuf_list := []\<rparr>) s;
       Some (neg_errno EOK, s) } }"

definition arp_reply :: "nat \<Rightarrow> nat \<Rightarrow> net \<Rightarrow> (int \<times> net) option" where
  "arp_reply n p s = do {
     i \<leftarrow> netifs s n;
     s \<leftarrow> st16 p arp_opcode (htons ARP_OP_REPLY) s;
     hw \<leftarrow> ldn p arp_hwsrc 6 s;
     s \<leftarrow> eth_addr_copy p arp_hwdst hw s;
     ip \<leftarrow> ld_ip p arp_ipsrc s;
     s \<leftarrow> ip_addr_copy p arp_ipdst ip s;
     s \<leftarrow> eth_addr_copy p arp_hwsrc (hwaddr i) s;
     s \<leftarrow> ip_addr_copy p arp_ipsrc (ipaddr i) s;
     b \<leftarrow> pbufs s p;
     s \<leftarrow> set_pcount p (pcount b + 1) s;
     dst \<leftarrow> ldn p arp_hwdst 6 s;
     eth_output n p dst ETH_TYPE_ARP sizeof_arp s }"

definition arp_input :: "nat \<Rightarrow> nat \<Rightarrow> net \<Rightarrow> (int \<times> net) option" where
  "arp_input n p s = do {
     i \<leftarrow> netifs s n;
     hwtype \<leftarrow> ld16 p arp_hwtype s;
     if ntohs hwtype \<noteq> ARP_HARDWARE_ETH then Some (neg_errno EPROTO, s)
     else do {
       proto \<leftarrow> ld16 p arp_proto s;
       if ntohs proto \<noteq> ARP_PROTOCAL_IP then Some (neg_errno EPROTO, s)
       else do {
         dst \<leftarrow> ld_ip p arp_ipdst s;
         if \<not> ip_addr_cmp (ipaddr i) dst then Some (neg_errno EPROTO, s)
         else do {
           op \<leftarrow> ld16 p arp_opcode s;
           if ntohs op = ARP_OP_REQUEST then arp_reply n p s
           else if ntohs op = ARP_OP_REPLY then arp_refresh n p s
           else Some (neg_errno EPROTO, s) } } } }"

definition arp_eth_output :: "nat \<Rightarrow> nat \<Rightarrow> ip_addr \<Rightarrow> u16 \<Rightarrow> u32 \<Rightarrow> net \<Rightarrow> (int \<times> net) option" where
  "arp_eth_output n p addr type len s = do {
     i \<leftarrow> netifs s n;
     s \<leftarrow> st16 p eth_type (htons type) s;
     s \<leftarrow> eth_addr_copy p eth_src (hwaddr i) s;
     s \<leftarrow> set_plen p (of_nat sizeof_eth + len) s;
     (e, s) \<leftarrow> arp_lookup n addr s;
     a \<leftarrow> arps s e;
     if expires a > now s then do {
       s \<leftarrow> upd_entry e (\<lambda>a. a\<lparr>used := used a + 1\<rparr>) s;
       s \<leftarrow> eth_addr_copy p eth_dst (e_hwaddr a) s;
       s \<leftarrow> netif_output n p s;
       Some (neg_errno EOK, s) }
     else do {
       l \<leftarrow> seq_push p (e_pbuf_list a);
       s \<leftarrow> link_pbuf p s;
       s \<leftarrow> upd_entry e (\<lambda>a. a\<lparr>e_pbuf_list := l\<rparr>) s;
       (_, s) \<leftarrow> arp_query e s;
       Some (neg_errno EOK, s) } }"

text \<open>One round of the refresh thread, from the tail of the list; the previous node is read
  before the entry may be released.\<close>

definition arp_visit :: "nat \<Rightarrow> net \<Rightarrow> net option" where
  "arp_visit e s = do {
     a \<leftarrow> arps s e;
     if expires a > now s then Some s
     else if retry a > ARP_RETRY then arp_entry_put e s
     else if used a = 0 then arp_entry_put e s
     else map_option snd (arp_query e s) }"

definition arp_round :: "net \<Rightarrow> net option" where
  "arp_round s = foldM arp_visit (rev (arp_entry_list s)) s"

subsection \<open>IP and ICMP\<close>

definition ip_output :: "nat \<Rightarrow> nat \<Rightarrow> ip_addr \<Rightarrow> u8 \<Rightarrow> u16 \<Rightarrow> net \<Rightarrow> (int \<times> net) option" where
  "ip_output n p dst proto len s = do {
     i \<leftarrow> netifs s n;
     s \<leftarrow> st8 p ip_vh (push_bit 4 4 OR 5) s;
     s \<leftarrow> st8 p ip_flags 0 s;
     s \<leftarrow> st8 p ip_offset1 0 s;
     s \<leftarrow> st8 p ip_tos 0 s;
     s \<leftarrow> st16 p ip_id 0 s;
     s \<leftarrow> st8 p ip_ttl IP_TTL s;
     s \<leftarrow> st8 p ip_proto proto s;
     let length = sizeof_ip + len;
     s \<leftarrow> st16 p ip_length (htons length) s;
     s \<leftarrow> ip_addr_copy p ip_dst dst s;
     s \<leftarrow> ip_addr_copy p ip_src (ipaddr i) s;
     s \<leftarrow> st16 p ip_sum 0 s;
     hdr \<leftarrow> ldn p ip_vh (unat sizeof_ip) s;
     s \<leftarrow> st16 p ip_sum (ip_chksum hdr) s;
     d \<leftarrow> ld_ip p ip_dst s;
     arp_eth_output n p d ETH_TYPE_IP (ucast length) s }"

definition icmp_echo_reply :: "nat \<Rightarrow> nat \<Rightarrow> net \<Rightarrow> (int \<times> net) option" where
  "icmp_echo_reply n p s = do {
     i \<leftarrow> netifs s n;
     dst \<leftarrow> ld_ip p ip_dst s;
     if ip_addr_isbroadcast dst (netmask i) \<or> ip_addr_ismulticast dst then Some (neg_errno EPROTO, s)
     else if \<not> ip_addr_cmp dst (ipaddr i) then Some (neg_errno EPROTO, s)
     else do {
       s \<leftarrow> st8 p icmp_type ICMP_ER s;
       s \<leftarrow> st16 p icmp_chksum 0 s;
       length \<leftarrow> ld16 p ip_length s;
       let len = length - sizeof_ip;
       data \<leftarrow> ldn p icmp_type (unat len) s;
       s \<leftarrow> st16 p icmp_chksum (ip_chksum data) s;
       b \<leftarrow> pbufs s p;
       s \<leftarrow> set_pcount p (pcount b + 1) s;
       src \<leftarrow> ld_ip p ip_src s;
       ip_output n p src IP_PROTOCOL_ICMP len s } }"

definition icmp_input :: "nat \<Rightarrow> nat \<Rightarrow> net \<Rightarrow> (int \<times> net) option" where
  "icmp_input n p s = do {
     t \<leftarrow> ld8 p icmp_type s;
     if t = ICMP_ER then Some (neg_errno EOK, s)
     else if t = ICMP_ECHO then icmp_echo_reply n p s
     else Some (neg_errno EOK, s) }"

definition icmp_echo :: "nat \<Rightarrow> nat \<Rightarrow> ip_addr \<Rightarrow> net \<Rightarrow> (int \<times> net) option" where
  "icmp_echo n p dst s = do {
     s \<leftarrow> st8 p icmp_code 0 s;
     s \<leftarrow> st8 p icmp_type ICMP_ECHO s;
     s \<leftarrow> st16 p echo_id 1 s;
     s \<leftarrow> st16 p echo_seq 1 s;
     let message = butlast (addr_text ''Phinix icmp echo 123456789 asdfghjkl;'') @ [39, 0];
     s \<leftarrow> stn p echo_payload message s;
     let len = sizeof_echo + of_nat (length message);
     s \<leftarrow> st16 p icmp_chksum 0 s;
     data \<leftarrow> ldn p icmp_type (unat len) s;
     s \<leftarrow> st16 p icmp_chksum (ip_chksum data) s;
     ip_output n p dst IP_PROTOCOL_ICMP (ucast len) s }"

definition ip_input :: "nat \<Rightarrow> nat \<Rightarrow> net \<Rightarrow> (int \<times> net) option" where
  "ip_input n p s = do {
     i \<leftarrow> netifs s n;
     vh \<leftarrow> ld8 p ip_vh s;
     if drop_bit 4 vh \<noteq> IP_VERSION_4 then Some (neg_errno EPROTO, s)
     else do {
       ttl \<leftarrow> ld8 p ip_ttl s;
       if ttl = 0 then Some (neg_errno ETIME, s)
       else if vh AND 0xf \<noteq> ucast (sizeof_ip div 4) then Some (neg_errno EOPTION, s)
       else do {
         fl \<leftarrow> ld8 p ip_flags s;
         if drop_bit 5 fl AND IP_FLAT_NOLAST \<noteq> 0 then Some (neg_errno EFRAG, s)
         else do {
           dst \<leftarrow> ld_ip p ip_dst s;
           if \<not> ip_addr_cmp dst (ipaddr i) then Some (neg_errno EADDR, s)
           else do {
             length \<leftarrow> ld16 p ip_length s;
             s \<leftarrow> st16 p ip_length (ntohs length) s;
             ident \<leftarrow> ld16 p ip_id s;
             s \<leftarrow> st16 p ip_id (ntohs ident) s;
             proto \<leftarrow> ld8 p ip_proto s;
             if proto = IP_PROTOCOL_TCP then Some (neg_errno EOK, s)
             else if proto = IP_PROTOCOL_UDP then Some (neg_errno EOK, s)
             else if proto = IP_PROTOCOL_ICMP then icmp_input n p s
             else Some (neg_errno EPROTO, s) } } } } }"

definition eth_input :: "nat \<Rightarrow> nat \<Rightarrow> net \<Rightarrow> (int \<times> net) option" where
  "eth_input n p s = do {
     type \<leftarrow> ld16 p eth_type s;
     if ntohs type = ETH_TYPE_IP then ip_input n p s
     else if ntohs type = ETH_TYPE_IPV6 then Some (neg_errno EOK, s)
     else if ntohs type = ETH_TYPE_ARP then arp_input n p s
     else Some (neg_errno EPROTO, s) }"

subsection \<open>The service threads\<close>

text \<open>What a thread does for one interface; the result says whether it found a packet.
  \<open>nic_output\<close> is the driver's function.\<close>

definition neti_visit :: "nat \<Rightarrow> net \<Rightarrow> (bool \<times> net) option" where
  "neti_visit n s = do {
     i \<leftarrow> netifs s n;
     if rx_pbuf_list i \<noteq> [] then do {
       (p, l) \<leftarrow> seq_popback (rx_pbuf_list i);
       s \<leftarrow> unlink_pbuf p (s\<lparr>netifs := (netifs s)(n \<mapsto> i\<lparr>rx_pbuf_list := l\<rparr>)\<rparr>);
       (_, s) \<leftarrow> eth_input n p s;
       s \<leftarrow> pbuf_put p s;
       Some (True, s) }
     else Some (False, s) }"

definition neto_visit :: "(nat \<Rightarrow> nat \<Rightarrow> net \<Rightarrow> net option) \<Rightarrow> nat \<Rightarrow> net \<Rightarrow> (bool \<times> net) option" where
  "neto_visit nic_output n s = do {
     i \<leftarrow> netifs s n;
     if tx_pbuf_list i \<noteq> [] then do {
       (p, l) \<leftarrow> seq_popback (tx_pbuf_list i);
       s \<leftarrow> unlink_pbuf p (s\<lparr>netifs := (netifs s)(n \<mapsto> i\<lparr>tx_pbuf_list := l\<rparr>)\<rparr>);
       s \<leftarrow> nic_output n p s;
       Some (True, s) }
     else Some (False, s) }"

fun thread_round :: "(nat \<Rightarrow> net \<Rightarrow> (bool \<times> net) option) \<Rightarrow> nat list \<Rightarrow> net \<Rightarrow> (nat \<times> net) option" where
  "thread_round visit [] s = Some (0, s)"
| "thread_round visit (n # ns) s = do {
     (found, s) \<leftarrow> visit n s;
     (count, s) \<leftarrow> thread_round visit ns s;
     Some ((if found then count + 1 else count), s) }"

text \<open>A round of a thread, which blocks when no interface had a packet.\<close>

definition neti_thread :: "net \<Rightarrow> net option" where
  "neti_thread s = do {
     (count, s) \<leftarrow> thread_round neti_visit (netif_list s) s;
     Some (if count = 0 then s\<lparr>neti_waiting := True\<rparr> else s) }"

definition neto_thread :: "(nat \<Rightarrow> nat \<Rightarrow> net \<Rightarrow> net option) \<Rightarrow> net \<Rightarrow> net option" where
  "neto_thread nic_output s = do {
     (count, s) \<leftarrow> thread_round (neto_visit nic_output) (netif_list s) s;
     Some (if count = 0 then s\<lparr>neto_waiting := True\<rparr> else s) }"

subsection \<open>Answering an ARP request\<close>

text \<open>A buffer that holds an ARP request for the interface's address, as it leaves the receive
  queue.\<close>

definition fld :: "pbuf \<Rightarrow> nat \<Rightarrow> nat \<Rightarrow> bytes" where
  "fld b i n = slice (payload b) i n"

definition arp_frame :: "pbuf \<Rightarrow> u16 \<Rightarrow> ip_addr \<Rightarrow> bool" where
  "arp_frame b op dst \<longleftrightarrow> length (payload b) = PAYLOAD_SIZE
     \<and> u16_of (fld b eth_type 2) = htons ETH_TYPE_ARP
     \<and> u16_of (fld b arp_hwtype 2) = htons ARP_HARDWARE_ETH
     \<and> u16_of (fld b arp_proto 2) = htons ARP_PROTOCAL_IP
     \<and> u16_of (fld b arp_opcode 2) = htons op \<and> ip_of (fld b arp_ipdst 4) = dst"

lemmas arp_offsets = arp_hwtype_def arp_proto_def arp_hwlen_def arp_protolen_def arp_opcode_def
  arp_hwsrc_def arp_ipsrc_def arp_hwdst_def arp_ipdst_def eth_dst_def eth_src_def eth_type_def

lemma eth_output_ok:
  assumes "netifs s n = Some i" "pbufs s p = Some b" "14 \<le> length (payload b)" "\<not> linked b"
    and "p \<notin> set (tx_pbuf_list i)" "length dst = 6" "length (hwaddr i) = 6"
  shows "\<exists>s' b'. eth_output n p dst type len s = Some (neg_errno EOK, s') \<and> pbufs s' p = Some b'
    \<and> netifs s' = (netifs s)(n \<mapsto> i\<lparr>tx_pbuf_list := p # tx_pbuf_list i\<rparr>)
    \<and> fld b' eth_dst 6 = dst \<and> fld b' eth_src 6 = hwaddr i \<and> u16_of (fld b' eth_type 2) = htons type
    \<and> (\<forall>j k. 14 \<le> j \<longrightarrow> fld b' j k = fld b j k) \<and> pcount b' = pcount b \<and> plen b' = 14 + len
    \<and> length (payload b') = length (payload b) \<and> linked b' \<and> \<not> neto_waiting s'"
  using assms
  by (auto simp: eth_output_def packet_access set_plen_def netif_output_def
      seq_push_def link_pbuf_def fld_def slice_splice_other arp_offsets sizeof_eth_def)

lemma arp_reply_ok:
  assumes "netifs s n = Some i" "pbufs s p = Some b" "42 \<le> length (payload b)" "\<not> linked b"
    and "p \<notin> set (tx_pbuf_list i)" "length (hwaddr i) = 6"
  shows "\<exists>s' b'. arp_reply n p s = Some (neg_errno EOK, s') \<and> pbufs s' p = Some b'
    \<and> netifs s' = (netifs s)(n \<mapsto> i\<lparr>tx_pbuf_list := p # tx_pbuf_list i\<rparr>)
    \<and> fld b' eth_dst 6 = fld b arp_hwsrc 6 \<and> fld b' eth_src 6 = hwaddr i
    \<and> u16_of (fld b' eth_type 2) = htons ETH_TYPE_ARP
    \<and> u16_of (fld b' arp_opcode 2) = htons ARP_OP_REPLY
    \<and> fld b' arp_hwdst 6 = fld b arp_hwsrc 6 \<and> fld b' arp_ipdst 4 = ip_bytes (ip_of (fld b arp_ipsrc 4))
    \<and> fld b' arp_hwsrc 6 = hwaddr i \<and> fld b' arp_ipsrc 4 = ip_bytes (ipaddr i)
    \<and> fld b' arp_hwtype 2 = fld b arp_hwtype 2 \<and> fld b' arp_proto 2 = fld b arp_proto 2
    \<and> pcount b' = pcount b + 1 \<and> plen b' = 42 \<and> linked b' \<and> length (payload b') = length (payload b)
    \<and> \<not> neto_waiting s'"
proof -
  define c where "c = b\<lparr>payload := splice (splice (splice (splice (splice (payload b)
      arp_opcode [lo8 (htons ARP_OP_REPLY), hi8 (htons ARP_OP_REPLY)])
      arp_hwdst (fld b arp_hwsrc 6)) arp_ipdst (ip_bytes (ip_of (fld b arp_ipsrc 4))))
      arp_hwsrc (hwaddr i)) arp_ipsrc (ip_bytes (ipaddr i)), pcount := pcount b + 1\<rparr>"
  define t where "t = s\<lparr>pbufs := (pbufs s)(p \<mapsto> c)\<rparr>"
  have hl: "length (fld b arp_hwsrc 6) = 6" using assms(3) by (simp add: fld_def arp_hwsrc_def)
  have "arp_reply n p s = eth_output n p (fld c arp_hwdst 6) ETH_TYPE_ARP sizeof_arp t"
    using assms hl
    by (simp add: arp_reply_def packet_access set_pcount_def arp_offsets fld_def slice_splice_other
        c_def t_def set_payload_def)
  moreover have c: "fld c arp_hwdst 6 = fld b arp_hwsrc 6" "u16_of (fld c arp_opcode 2) = htons ARP_OP_REPLY"
    "fld c arp_ipdst 4 = ip_bytes (ip_of (fld b arp_ipsrc 4))" "fld c arp_hwsrc 6 = hwaddr i"
    "fld c arp_ipsrc 4 = ip_bytes (ipaddr i)" "length (payload c) = length (payload b)"
    "\<not> linked c" "pcount c = pcount b + 1"
    "fld c arp_hwtype 2 = fld b arp_hwtype 2" "fld c arp_proto 2 = fld b arp_proto 2"
    using assms hl by (simp_all add: c_def fld_def arp_offsets slice_splice_other)
  have "\<exists>s' b'. eth_output n p (fld c arp_hwdst 6) ETH_TYPE_ARP sizeof_arp t = Some (neg_errno EOK, s')
    \<and> pbufs s' p = Some b' \<and> netifs s' = (netifs t)(n \<mapsto> i\<lparr>tx_pbuf_list := p # tx_pbuf_list i\<rparr>)
    \<and> fld b' eth_dst 6 = fld c arp_hwdst 6 \<and> fld b' eth_src 6 = hwaddr i
    \<and> u16_of (fld b' eth_type 2) = htons ETH_TYPE_ARP
    \<and> (\<forall>j k. 14 \<le> j \<longrightarrow> fld b' j k = fld c j k) \<and> pcount b' = pcount c \<and> plen b' = 14 + sizeof_arp
    \<and> length (payload b') = length (payload c) \<and> linked b' \<and> \<not> neto_waiting s'"
    by (rule eth_output_ok) (use assms c hl in \<open>simp_all add: t_def\<close>)
  ultimately show ?thesis
    using c by (auto simp: t_def arp_offsets sizeof_arp_def)
qed

lemma arp_request_dispatch:
  assumes "netifs s n = Some i" "pbufs s p = Some b" "arp_frame b ARP_OP_REQUEST (ipaddr i)"
  shows "eth_input n p s = arp_reply n p s"
  using assms
  by (simp add: eth_input_def arp_input_def packet_access arp_frame_def fld_def arp_offsets
      PAYLOAD_SIZE_def ip_addr_cmp_def ETH_TYPE_IP_def ETH_TYPE_IPV6_def ETH_TYPE_ARP_def)

text \<open>C18: An ARP request for the address of an interface is answered: the same buffer is queued
  for sending, addressed to the sender, as a reply that gives the interface's own MAC and IP address
  to the sender's, with one more reference.\<close>

theorem arp_request_answered:
  assumes "netifs s n = Some i" "pbufs s p = Some b" "arp_frame b ARP_OP_REQUEST (ipaddr i)"
    and "\<not> linked b" "p \<notin> set (tx_pbuf_list i)" "length (hwaddr i) = 6"
  shows "\<exists>s' b'. eth_input n p s = Some (neg_errno EOK, s') \<and> pbufs s' p = Some b'
    \<and> netifs s' = (netifs s)(n \<mapsto> i\<lparr>tx_pbuf_list := p # tx_pbuf_list i\<rparr>)
    \<and> fld b' eth_dst 6 = fld b arp_hwsrc 6 \<and> fld b' eth_src 6 = hwaddr i
    \<and> arp_frame b' ARP_OP_REPLY (ip_of (fld b arp_ipsrc 4))
    \<and> fld b' arp_hwdst 6 = fld b arp_hwsrc 6
    \<and> fld b' arp_hwsrc 6 = hwaddr i \<and> ip_of (fld b' arp_ipsrc 4) = ipaddr i
    \<and> pcount b' = pcount b + 1 \<and> plen b' = 42"
proof -
  have "eth_input n p s = arp_reply n p s" by (rule arp_request_dispatch [OF assms(1-3)])
  moreover have "42 \<le> length (payload b)" using assms(3) by (simp add: arp_frame_def PAYLOAD_SIZE_def)
  ultimately show ?thesis
    using arp_reply_ok [OF assms(1,2) _ assms(4-6)] assms(3)
    unfolding arp_frame_def by fastforce
qed

text \<open>The example: interface 10.0.0.2 asked by 10.0.0.1.\<close>

definition sample_if :: netif where
  "sample_if = \<lparr>name = [101, 0], rx_pbuf_list = [], tx_pbuf_list = [], hwaddr = [2, 0, 0, 0, 0, 2],
     ipaddr = 0x0200000a, netmask = 0x00ffffff, gateway = 0x0100000a\<rparr>"

definition sample_request :: pbuf where
  "sample_request = \<lparr>payload = replicate 6 0xff @ [2, 0, 0, 0, 0, 1] @ [8, 6] @ [0, 1, 8, 0, 6, 4, 0, 1]
     @ [2, 0, 0, 0, 0, 1, 10, 0, 0, 1] @ [0, 0, 0, 0, 0, 0, 10, 0, 0, 2] @ replicate 1990 0,
     plen = 60, pcount = 1, linked = False\<rparr>"

definition sample_state :: "pbuf \<Rightarrow> net" where
  "sample_state b = sample_net\<lparr>pbufs := [4096 \<mapsto> b], netifs := [100 \<mapsto> sample_if], netif_list := [100]\<rparr>"

lemma sample_request_frame: "arp_frame sample_request ARP_OP_REQUEST (ipaddr sample_if)"
  by (simp add: arp_frame_def sample_request_def sample_if_def fld_def slice_def arp_offsets u16_of_def ip_of_def
      le16_def le32_def htons_def PAYLOAD_SIZE_def ETH_TYPE_ARP_def ARP_HARDWARE_ETH_def ARP_PROTOCAL_IP_def
      ARP_OP_REQUEST_def)

theorem arp_request_answered_witness:
  "\<exists>s' b'. eth_input 100 4096 (sample_state sample_request) = Some (neg_errno EOK, s') \<and> pbufs s' 4096 = Some b'
    \<and> netifs s' = (netifs (sample_state sample_request))
        (100 \<mapsto> sample_if\<lparr>tx_pbuf_list := 4096 # tx_pbuf_list sample_if\<rparr>)
    \<and> fld b' eth_dst 6 = fld sample_request arp_hwsrc 6 \<and> fld b' eth_src 6 = hwaddr sample_if
    \<and> arp_frame b' ARP_OP_REPLY (ip_of (fld sample_request arp_ipsrc 4))
    \<and> fld b' arp_hwdst 6 = fld sample_request arp_hwsrc 6
    \<and> fld b' arp_hwsrc 6 = hwaddr sample_if \<and> ip_of (fld b' arp_ipsrc 4) = ipaddr sample_if
    \<and> pcount b' = pcount sample_request + 1 \<and> plen b' = 42"
  by (rule arp_request_answered [OF _ _ sample_request_frame])
    (simp_all add: sample_state_def sample_request_def sample_if_def)

subsection \<open>What a packet can do to the kernel\<close>

lemmas ip_offsets = ip_vh_def ip_tos_def ip_length_def ip_id_def ip_flags_def ip_offset1_def ip_ttl_def
  ip_proto_def ip_sum_def ip_src_def ip_dst_def icmp_type_def icmp_code_def icmp_chksum_def

text \<open>A received IP packet for an interface: version 4, five header words, time to live.\<close>

definition ip_frame :: "pbuf \<Rightarrow> u8 \<Rightarrow> ip_addr \<Rightarrow> bool" where
  "ip_frame b proto dst \<longleftrightarrow> length (payload b) = PAYLOAD_SIZE
     \<and> u16_of (fld b eth_type 2) = htons ETH_TYPE_IP \<and> fld b ip_vh 1 = [0x45]
     \<and> hd (fld b ip_ttl 1) \<noteq> 0 \<and> hd (fld b ip_proto 1) = proto \<and> ip_of (fld b ip_dst 4) = dst"

lemma flag_bit: "drop_bit 5 (w :: u8) AND 4 = 0 \<longleftrightarrow> \<not> bit w 7"
  using and_exp_eq_0_iff_not_bit [of "drop_bit 5 w" 2] by (simp add: bit_simps)

text \<open>An echo request whose IP length field reaches past the buffer, or is smaller than the
  header, makes \<open>icmp_echo_reply\<close> sum memory outside the buffer: the length of a received
  packet is never compared with what was received.\<close>

theorem echo_length_unchecked:
  assumes "netifs s n = Some i" "pbufs s p = Some b" "ip_frame b IP_PROTOCOL_ICMP (ipaddr i)"
    and "\<not> bit (hd (fld b ip_flags 1)) 7" "hd (fld b icmp_type 1) = ICMP_ECHO"
    and "\<not> ip_addr_isbroadcast (ipaddr i) (netmask i)"
    and "PAYLOAD_SIZE - 34 < unat (htons (u16_of (fld b ip_length 2)) - sizeof_ip)"
  shows "eth_input n p s = None"
proof -
  define c where "c = b\<lparr>payload := splice (splice (payload b) ip_length
      [lo8 (htons (u16_of (fld b ip_length 2))), hi8 (htons (u16_of (fld b ip_length 2)))])
      ip_id [lo8 (htons (u16_of (fld b ip_id 2))), hi8 (htons (u16_of (fld b ip_id 2)))]\<rparr>"
  define t where "t = s\<lparr>pbufs := (pbufs s)(p \<mapsto> c)\<rparr>"
  have len: "length (payload b) = PAYLOAD_SIZE" using assms(3) by (simp add: ip_frame_def)
  have c: "length (payload c) = PAYLOAD_SIZE" "hd (fld c icmp_type 1) = ICMP_ECHO"
    "ip_of (fld c ip_dst 4) = ipaddr i" "u16_of (fld c ip_length 2) = htons (u16_of (fld b ip_length 2))"
    using assms(3,5) len
    by (simp_all add: c_def fld_def ip_offsets slice_splice_other PAYLOAD_SIZE_def ip_frame_def)
  have "eth_input n p s = icmp_echo_reply n p t"
    using assms(1-5) len c
    by (simp add: eth_input_def ip_input_def icmp_input_def packet_access ip_frame_def fld_def ip_offsets
        eth_type_def PAYLOAD_SIZE_def ip_addr_cmp_def c_defs flag_bit slice_splice_other c_def t_def
        set_payload_def)
  also have "\<dots> = None"
    using assms(1,6,7) c len
    by (simp add: icmp_echo_reply_def t_def packet_access ip_addr_cmp_def fld_def ip_offsets PAYLOAD_SIZE_def slice_splice_other ldn_out)
  finally show ?thesis .
qed

text \<open>The ping of death for the sample interface: an echo request that claims 4000 bytes.\<close>

definition sample_echo :: "u8 \<Rightarrow> u8 \<Rightarrow> u8 \<Rightarrow> pbuf" where
  "sample_echo hi lo fl = \<lparr>payload = [2, 0, 0, 0, 0, 2] @ [2, 0, 0, 0, 0, 1] @ [8, 0]
     @ [0x45, 0, hi, lo, 0, 0, fl, 0, 64, 1, 0, 0, 10, 0, 0, 1, 10, 0, 0, 2] @ [8, 0] @ replicate 1996 0,
     plen = 60, pcount = 1, linked = False\<rparr>"

lemma sample_echo_frame: "ip_frame (sample_echo hi lo fl) IP_PROTOCOL_ICMP (ipaddr sample_if)"
  by (simp add: ip_frame_def sample_echo_def sample_if_def fld_def slice_def ip_offsets eth_type_def
      u16_of_def ip_of_def le16_def le32_def htons_def PAYLOAD_SIZE_def ETH_TYPE_IP_def IP_PROTOCOL_ICMP_def)

lemma sample_echo_length: "unat (htons (le16 15 160) - sizeof_ip) = 3980" "\<not> bit (0 :: u8) 7"
  by (code_simp, simp)

theorem echo_length_unchecked_witness: "eth_input 100 4096 (sample_state (sample_echo 0x0f 0xa0 0)) = None"
  by (rule echo_length_unchecked [OF _ _ sample_echo_frame [of 15 160 0]])
    (simp_all add: sample_state_def sample_echo_def sample_if_def fld_def slice_def ip_offsets
      ICMP_ECHO_def ip_addr_isbroadcast_def Let_def u16_of_def sample_echo_length PAYLOAD_SIZE_def)

text \<open>The flag that should stop fragments is the reserved bit: a packet with the more-fragments
  bit set is taken as complete.\<close>

lemma fragment_accepted:
  assumes "netifs s n = Some i" "pbufs s p = Some b" "ip_frame b IP_PROTOCOL_UDP (ipaddr i)"
    and "hd (fld b ip_flags 1) = 0x20"
  shows "\<exists>s'. eth_input n p s = Some (neg_errno EOK, s')"
  using assms
  by (simp add: eth_input_def ip_input_def packet_access ip_frame_def fld_def ip_offsets
      eth_type_def PAYLOAD_SIZE_def ip_addr_cmp_def c_defs slice_splice_other)

end
