(* ===== verification/Memory.thy ===== *)
theory Memory
  imports Bitmap Stdlib
begin

section \<open>Physical pages and page tables: \<open>kernel/memory.c\<close>\<close>

text \<open>
  The page allocator, the page tables behind their recursive mapping, copy on write, the break and
  the user mappings. A frame of physical memory is a page table of 1024 entries or opaque data;
  the processor's translation is \<open>translate\<close>, which walks the two levels from \<open>cr3\<close>, so the
  tables are reached through the last directory entry exactly as the code reaches them. There is
  no translation cache in the model, which is what \<open>flush_tlb\<close> keeps true. An access to an
  unmapped address from the kernel itself has no result. \<open>mm\<close> holds the static variables of the
  file, the frames, \<open>cr3\<close> and the fields of the running task that the file uses.
\<close>

definition PAGE_SIZE :: u32 where [c_defs]: "PAGE_SIZE = 0x1000"
definition MEMORY_BASE :: u32 where [c_defs]: "MEMORY_BASE = 0x100000"
definition KERNEL_MEMORY_SIZE :: u32 where [c_defs]: "KERNEL_MEMORY_SIZE = 0x100000 * 16"
definition USER_EXEC_ADDR :: u32 where [c_defs]: "USER_EXEC_ADDR = 0x1000000"
definition USER_MMAP_ADDR :: u32 where [c_defs]: "USER_MMAP_ADDR = 0x8000000"
definition USER_STACK_TOP :: u32 where [c_defs]: "USER_STACK_TOP = 0x10000000"
definition USER_STACK_BOTTOM :: u32 where [c_defs]: "USER_STACK_BOTTOM = USER_STACK_TOP - 0x200000"
definition KERNEL_PAGE_DIR :: u32 where [c_defs]: "KERNEL_PAGE_DIR = 0x1000"
definition KERNEL_PAGE_TABLE :: "u32 list" where
  [c_defs]: "KERNEL_PAGE_TABLE = [0x2000, 0x3000, 0x4000, 0x5000]"
definition PDE_MASK :: u32 where [c_defs]: "PDE_MASK = 0xFFC00000"
definition ZONE_VALID :: u32 where [c_defs]: "ZONE_VALID = 1"

definition IDX :: "u32 \<Rightarrow> u32" where "IDX addr = drop_bit 12 addr"
definition DIDX :: "u32 \<Rightarrow> u32" where "DIDX addr = drop_bit 22 addr AND 0x3ff"
definition TIDX :: "u32 \<Rightarrow> u32" where "TIDX addr = drop_bit 12 addr AND 0x3ff"
definition PAGE :: "u32 \<Rightarrow> u32" where "PAGE idx = push_bit 12 idx"
definition ASSERT_PAGE :: "u32 \<Rightarrow> unit option" where "ASSERT_PAGE addr = c_assert (addr AND 0xfff = 0)"

record page_entry =
  present :: bool
  writable :: bool
  user :: bool
  pwt :: bool
  pcd :: bool
  accessed :: bool
  dirty :: bool
  pat :: bool
  global :: bool
  shared :: bool
  private_page :: bool
  readonly :: bool
  index :: u32

datatype frame = Table "page_entry list" | Data bytes

record mtask =
  t_uid :: u32
  t_pde :: u32
  t_brk :: u32
  t_end :: u32
  t_vmap :: bitmap

record mm =
  memory_base :: u32
  memory_size :: u32
  total_pages :: u32
  free_pages :: u32
  start_page :: u32
  memory_map :: bytes
  memory_map_pages :: u32
  kernel_map :: bitmap
  frames :: "u32 \<Rightarrow> frame"
  cr3 :: u32
  running :: mtask

subsection \<open>Finding out about memory\<close>

record ards =
  a_base :: "64 word"
  a_size :: "64 word"
  a_type :: u32

definition ards_pick :: "ards list \<Rightarrow> mm \<Rightarrow> mm" where
  "ards_pick ds m = foldl (\<lambda>m d.
     if a_type d = ZONE_VALID \<and> a_size d > ucast (memory_size m)
     then m\<lparr>memory_base := ucast (a_base d), memory_size := ucast (a_size d)\<rparr> else m) m ds"

text \<open>The multiboot loop assigns the comparison's result to the type instead of comparing it: the
  entry's type becomes the truth value.\<close>

fun mmap_pick :: "ards list \<Rightarrow> mm \<Rightarrow> ards list \<times> mm" where
  "mmap_pick [] m = ([], m)"
| "mmap_pick (d # ds) m =
     (let c = (ZONE_VALID \<noteq> 0 \<and> a_size d > ucast (memory_size m));
          d' = d\<lparr>a_type := if c then 1 else 0\<rparr>;
          m = (if c then m\<lparr>memory_base := ucast (a_base d), memory_size := ucast (a_size d)\<rparr> else m);
          (ds, m) = mmap_pick ds m
      in (d' # ds, m))"

definition memory_init_end :: "mm \<Rightarrow> mm option" where
  "memory_init_end m = do {
     c_assert (memory_base m = MEMORY_BASE);
     c_assert (memory_size m AND 0xfff = 0);
     let m = m\<lparr>total_pages := IDX (memory_size m) + IDX MEMORY_BASE, free_pages := IDX (memory_size m)\<rparr>;
     if memory_size m < KERNEL_MEMORY_SIZE then None else Some m }"

definition memory_map_init :: "mm \<Rightarrow> mm option" where
  "memory_map_init m = do {
     pages \<leftarrow> div_round_up (total_pages m) PAGE_SIZE;
     let start = IDX MEMORY_BASE + pages;
     let len = unat (pages * PAGE_SIZE);
     c_assert (unat start \<le> len);
     let mp = replicate (unat start) 1 @ replicate (len - unat start) 0;
     let length = (IDX KERNEL_MEMORY_SIZE - IDX MEMORY_BASE) div 8;
     km \<leftarrow> bitmap_init (replicate (unat length) 0) length (IDX MEMORY_BASE);
     (_, km) \<leftarrow> bitmap_scan km pages;
     Some (m\<lparr>memory_map_pages := pages, start_page := start, memory_map := mp, kernel_map := km\<rparr>) }"

lemma mmap_pick_ignores_type:
  "a_size d > ucast (memory_size m)
   \<Longrightarrow> mmap_pick [d] m = ([d\<lparr>a_type := 1\<rparr>], m\<lparr>memory_base := ucast (a_base d), memory_size := ucast (a_size d)\<rparr>)"
  by (simp add: mmap_pick.simps ZONE_VALID_def)

subsection \<open>Physical pages\<close>

definition map_at :: "mm \<Rightarrow> u32 \<Rightarrow> u8 option" where
  "map_at m i = rd (memory_map m) (unat i)"

definition map_set :: "u32 \<Rightarrow> u8 \<Rightarrow> mm \<Rightarrow> mm option" where
  "map_set i v m = do { mp \<leftarrow> wr (memory_map m) (unat i) v; Some (m\<lparr>memory_map := mp\<rparr>) }"

fun get_page_from :: "u32 \<Rightarrow> nat \<Rightarrow> mm \<Rightarrow> (u32 \<times> mm) option" where
  "get_page_from i 0 m = None"
| "get_page_from i (Suc n) m = do {
     v \<leftarrow> map_at m i;
     if v = 0 then do {
       m \<leftarrow> map_set i 1 m;
       c_assert (free_pages m > 0);
       Some (PAGE i, m\<lparr>free_pages := free_pages m - 1\<rparr>) }
     else get_page_from (i + 1) n m }"

definition get_page :: "mm \<Rightarrow> (u32 \<times> mm) option" where
  "get_page m = get_page_from (start_page m) (unat (total_pages m) - unat (start_page m)) m"

definition put_page :: "u32 \<Rightarrow> mm \<Rightarrow> mm option" where
  "put_page addr m = do {
     ASSERT_PAGE addr;
     let idx = IDX addr;
     c_assert (idx \<ge> start_page m \<and> idx < total_pages m);
     v \<leftarrow> map_at m idx;
     c_assert (v \<ge> 1);
     m \<leftarrow> map_set idx (v - 1) m;
     let m = (if v - 1 = 0 then m\<lparr>free_pages := free_pages m + 1\<rparr> else m);
     c_assert (free_pages m > 0 \<and> free_pages m < total_pages m);
     Some m }"

subsection \<open>Page tables\<close>

definition zero_entry :: page_entry where
  "zero_entry = \<lparr>present = False, writable = False, user = False, pwt = False, pcd = False,
     accessed = False, dirty = False, pat = False, global = False, shared = False,
     private_page = False, readonly = False, index = 0\<rparr>"

definition entry_init :: "u32 \<Rightarrow> page_entry" where
  "entry_init i = zero_entry\<lparr>present := True, writable := True, user := True, index := i\<rparr>"

definition table :: "mm \<Rightarrow> u32 \<Rightarrow> page_entry list option" where
  "table m f = (case frames m f of Table t \<Rightarrow> if length t = 1024 then Some t else None | Data _ \<Rightarrow> None)"

text \<open>The walk of the processor: the frame a virtual address is in.\<close>

definition translate :: "mm \<Rightarrow> u32 \<Rightarrow> u32 option" where
  "translate m va = do {
     dir \<leftarrow> table m (cr3 m);
     let e = dir ! unat (DIDX va);
     c_assert (present e);
     tab \<leftarrow> table m (index e);
     let e = tab ! unat (TIDX va);
     c_assert (present e);
     Some (index e) }"

definition ld_entry :: "u32 \<Rightarrow> mm \<Rightarrow> page_entry option" where
  "ld_entry va m = do {
     f \<leftarrow> translate m va;
     t \<leftarrow> table m f;
     Some (t ! (unat (va AND 0xfff) div 4)) }"

definition st_entry :: "u32 \<Rightarrow> page_entry \<Rightarrow> mm \<Rightarrow> mm option" where
  "st_entry va e m = do {
     f \<leftarrow> translate m va;
     t \<leftarrow> table m f;
     Some (m\<lparr>frames := (frames m)(f := Table (t[unat (va AND 0xfff) div 4 := e]))\<rparr>) }"

definition upd_at :: "u32 \<Rightarrow> (page_entry \<Rightarrow> page_entry) \<Rightarrow> mm \<Rightarrow> mm option" where
  "upd_at va f m = do { e \<leftarrow> ld_entry va m; st_entry va (f e) m }"

text \<open>\<open>get_pde\<close> and the address of its entry for an index.\<close>

definition get_pde :: u32 where "get_pde = 0xfffff000"

definition pde_at :: "u32 \<Rightarrow> u32" where "pde_at i = get_pde + 4 * i"

definition clear_table :: "u32 \<Rightarrow> mm \<Rightarrow> mm option" where
  "clear_table va m = do {
     f \<leftarrow> translate m va;
     Some (m\<lparr>frames := (frames m)(f := Table (replicate 1024 zero_entry))\<rparr>) }"

definition get_pte :: "u32 \<Rightarrow> bool \<Rightarrow> mm \<Rightarrow> (u32 \<times> mm) option" where
  "get_pte vaddr create m = do {
     let idx = DIDX vaddr;
     e \<leftarrow> ld_entry (pde_at idx) m;
     c_assert (create \<or> \<not> create \<and> present e);
     let tab = PDE_MASK OR push_bit 12 idx;
     if \<not> present e then do {
       (page, m) \<leftarrow> get_page m;
       m \<leftarrow> st_entry (pde_at idx) (entry_init (IDX page)) m;
       m \<leftarrow> clear_table tab m;
       Some (tab, m) }
     else Some (tab, m) }"

definition get_entry :: "u32 \<Rightarrow> bool \<Rightarrow> mm \<Rightarrow> (u32 \<times> mm) option" where
  "get_entry vaddr create m = do {
     (pte, m) \<leftarrow> get_pte vaddr create m;
     Some (pte + 4 * TIDX vaddr, m) }"

definition get_paddr :: "u32 \<Rightarrow> mm \<Rightarrow> (u32 \<times> mm) option" where
  "get_paddr vaddr m = do {
     e \<leftarrow> ld_entry (pde_at (DIDX vaddr)) m;
     if \<not> present e then Some (0, m)
     else do {
       (a, m) \<leftarrow> get_entry vaddr False m;
       e \<leftarrow> ld_entry a m;
       if \<not> present e then Some (0, m)
       else Some (PAGE (index e) OR (vaddr AND 0xfff), m) } }"

text \<open>The kernel's first tables: every page of the first 16M mapped to itself, but the first.\<close>

definition kernel_table :: "nat \<Rightarrow> bool \<Rightarrow> page_entry list" where
  "kernel_table k usr = map (\<lambda>j. if k = 0 \<and> j = 0 then zero_entry
     else (entry_init (of_nat (1024 * k + j)))\<lparr>user := usr\<rparr>) [0..<1024]"

definition mapping_init :: "bool \<Rightarrow> mm \<Rightarrow> mm option" where
  "mapping_init USER_MEMORY m = do {
     let dir = map (\<lambda>i. if i < 4 then (entry_init (IDX (KERNEL_PAGE_TABLE ! i)))\<lparr>user := USER_MEMORY\<rparr>
                        else if i = 1023 then entry_init (IDX KERNEL_PAGE_DIR) else zero_entry) [0..<1024];
     c_assert (4096 \<le> length (memory_map m));
     let mp = map (\<lambda>i. if 0 < i \<and> i < 4096 then 1 else memory_map m ! i) [0..<length (memory_map m)];
     let fr = foldl (\<lambda>fr k. fr(IDX (KERNEL_PAGE_TABLE ! k) := Table (kernel_table k USER_MEMORY)))
                ((frames m)(IDX KERNEL_PAGE_DIR := Table dir)) [0..<4];
     Some (m\<lparr>frames := fr, memory_map := mp, cr3 := IDX KERNEL_PAGE_DIR\<rparr>) }"

subsection \<open>Kernel pages\<close>

definition scan_page :: "bitmap \<Rightarrow> u32 \<Rightarrow> (u32 \<times> bitmap) option" where
  "scan_page bm count = do {
     c_assert (count > 0);
     (i, bm) \<leftarrow> bitmap_scan bm count;
     if i = EOF then None else Some (PAGE (word_of_int i), bm) }"

fun reset_from :: "u32 \<Rightarrow> nat \<Rightarrow> bitmap \<Rightarrow> bitmap option" where
  "reset_from i 0 bm = Some bm"
| "reset_from i (Suc n) bm = do {
     used \<leftarrow> bitmap_test bm i;
     c_assert used;
     bm \<leftarrow> bitmap_set bm i False;
     reset_from (i + 1) n bm }"

definition reset_page :: "bitmap \<Rightarrow> u32 \<Rightarrow> u32 \<Rightarrow> bitmap option" where
  "reset_page bm addr count = do {
     ASSERT_PAGE addr;
     c_assert (count > 0);
     reset_from (IDX addr) (unat count) bm }"

definition alloc_kpage :: "u32 \<Rightarrow> mm \<Rightarrow> (u32 \<times> mm) option" where
  "alloc_kpage count m = do {
     c_assert (count > 0);
     (vaddr, km) \<leftarrow> scan_page (kernel_map m) count;
     Some (vaddr, m\<lparr>kernel_map := km\<rparr>) }"

definition free_kpage :: "u32 \<Rightarrow> u32 \<Rightarrow> mm \<Rightarrow> mm option" where
  "free_kpage vaddr count m = do {
     ASSERT_PAGE vaddr;
     c_assert (count > 0);
     km \<leftarrow> reset_page (kernel_map m) vaddr count;
     Some (m\<lparr>kernel_map := km\<rparr>) }"

subsection \<open>Mapping and unmapping\<close>

definition link_page :: "u32 \<Rightarrow> mm \<Rightarrow> mm option" where
  "link_page vaddr m = do {
     ASSERT_PAGE vaddr;
     (a, m) \<leftarrow> get_entry vaddr True m;
     e \<leftarrow> ld_entry a m;
     if present e then Some m
     else do {
       (paddr, m) \<leftarrow> get_page m;
       st_entry a (entry_init (IDX paddr)) m } }"

definition unlink_page :: "u32 \<Rightarrow> mm \<Rightarrow> mm option" where
  "unlink_page vaddr m = do {
     ASSERT_PAGE vaddr;
     e \<leftarrow> ld_entry (pde_at (DIDX vaddr)) m;
     if \<not> present e then Some m
     else do {
       (a, m) \<leftarrow> get_entry vaddr False m;
       e \<leftarrow> ld_entry a m;
       if \<not> present e then Some m
       else do {
         m \<leftarrow> st_entry a (e\<lparr>present := False\<rparr>) m;
         put_page (PAGE (index e)) m } } }"

definition map_page :: "u32 \<Rightarrow> u32 \<Rightarrow> mm \<Rightarrow> mm option" where
  "map_page vaddr paddr m = do {
     ASSERT_PAGE vaddr;
     ASSERT_PAGE paddr;
     (a, m) \<leftarrow> get_entry vaddr True m;
     e \<leftarrow> ld_entry a m;
     if present e then Some m
     else do {
       (paddr, m) \<leftarrow> (if paddr = 0 then get_page m else Some (paddr, m));
       st_entry a (entry_init (IDX paddr)) m } }"

definition map_area :: "u32 \<Rightarrow> u32 \<Rightarrow> mm \<Rightarrow> mm option" where
  "map_area paddr sz m = do {
     ASSERT_PAGE paddr;
     n \<leftarrow> div_round_up sz PAGE_SIZE;
     foldM (\<lambda>i. map_page (paddr + of_nat i * PAGE_SIZE) (paddr + of_nat i * PAGE_SIZE)) [0..<unat n] m }"

subsection \<open>Sharing and copying\<close>

text \<open>A page is copied through the unused first page of the address space.\<close>

definition copy_page :: "u32 \<Rightarrow> mm \<Rightarrow> (u32 \<times> mm) option" where
  "copy_page page m = do {
     (paddr, m) \<leftarrow> get_page m;
     let vaddr = 0;
     (a, m) \<leftarrow> get_pte vaddr False m;
     m \<leftarrow> st_entry a (entry_init (IDX paddr)) m;
     dst \<leftarrow> translate m vaddr;
     src \<leftarrow> translate m page;
     let m = m\<lparr>frames := (frames m)(dst := frames m src)\<rparr>;
     m \<leftarrow> upd_at a (\<lambda>e. e\<lparr>present := False\<rparr>) m;
     Some (paddr, m) }"

definition bump :: "u32 \<Rightarrow> mm \<Rightarrow> mm option" where
  "bump i m = do {
     v \<leftarrow> map_at m i;
     c_assert (v > 0);
     m \<leftarrow> map_set i (v + 1) m;
     c_assert (v + 1 < 255);
     Some m }"

definition copy_pte :: "u32 \<Rightarrow> mm \<Rightarrow> mm option" where
  "copy_pte a m = do {
     e \<leftarrow> ld_entry a m;
     if \<not> present e then Some m
     else do {
       v \<leftarrow> map_at m (index e);
       c_assert (v > 0);
       m \<leftarrow> (if \<not> shared e then st_entry a (e\<lparr>writable := False\<rparr>) m else Some m);
       bump (index e) m } }"

text \<open>The directory is first reached by its own address, which the kernel maps to itself, then its
  tables through the recursive mapping.\<close>

definition copy_dentry :: "nat \<Rightarrow> mm \<Rightarrow> mm option" where
  "copy_dentry didx m = do {
     let a = t_pde (running m) + 4 * of_nat didx;
     d \<leftarrow> ld_entry a m;
     if \<not> present d then Some m
     else do {
       v \<leftarrow> map_at m (index d);
       c_assert (v > 0);
       m \<leftarrow> st_entry a (d\<lparr>writable := False\<rparr>) m;
       m \<leftarrow> bump (index d) m;
       let pte = PDE_MASK OR push_bit 12 (of_nat didx);
       foldM (\<lambda>t. copy_pte (pte + 4 * of_nat t)) [0..<1024] m } }"

definition copy_pde :: "mm \<Rightarrow> (u32 \<times> mm) option" where
  "copy_pde m = do {
     m \<leftarrow> foldM copy_dentry [4..<unat (drop_bit 22 USER_STACK_TOP)] m;
     (pde, m) \<leftarrow> alloc_kpage 1 m;
     src \<leftarrow> translate m (t_pde (running m));
     dst \<leftarrow> translate m pde;
     let m = m\<lparr>frames := (frames m)(dst := frames m src)\<rparr>;
     m \<leftarrow> st_entry (pde + 4 * 1023) (entry_init (IDX pde)) m;
     ASSERT_PAGE (t_pde (running m));
     Some (pde, m\<lparr>cr3 := IDX (t_pde (running m))\<rparr>) }"

definition free_pte :: "u32 \<Rightarrow> mm \<Rightarrow> mm option" where
  "free_pte a m = do {
     e \<leftarrow> ld_entry a m;
     if \<not> present e then Some m
     else do {
       v \<leftarrow> map_at m (index e);
       c_assert (v > 0);
       put_page (PAGE (index e)) m } }"

definition free_dentry :: "nat \<Rightarrow> mm \<Rightarrow> mm option" where
  "free_dentry didx m = do {
     d \<leftarrow> ld_entry (pde_at (of_nat didx)) m;
     if \<not> present d then Some m
     else do {
       let pte = PDE_MASK OR push_bit 12 (of_nat didx);
       m \<leftarrow> foldM (\<lambda>t. free_pte (pte + 4 * of_nat t)) [0..<1024] m;
       put_page (PAGE (index d)) m } }"

definition free_pde :: "mm \<Rightarrow> mm option" where
  "free_pde m = do {
     c_assert (t_uid (running m) \<noteq> 0);
     m \<leftarrow> foldM free_dentry [4..<unat (drop_bit 22 USER_STACK_TOP)] m;
     free_kpage (t_pde (running m)) 1 m }"

text \<open>The entry is addressed virtually: once the table that holds it has been copied by the
  recursive call, the same address is the entry of the copy.\<close>

fun copy_on_write :: "u32 \<Rightarrow> nat \<Rightarrow> mm \<Rightarrow> mm option" where
  "copy_on_write vaddr 0 m = Some m"
| "copy_on_write vaddr (Suc level) m = do {
     (a, m) \<leftarrow> get_entry vaddr False m;
     m \<leftarrow> copy_on_write a level m;
     e \<leftarrow> ld_entry a m;
     if writable e then Some m
     else do {
       v \<leftarrow> map_at m (index e);
       c_assert (v > 0);
       m \<leftarrow> (if v = 1 then st_entry a (e\<lparr>writable := True\<rparr>) m
         else do {
           (paddr, m) \<leftarrow> copy_page (PAGE (IDX vaddr)) m;
           e \<leftarrow> ld_entry a m;
           v \<leftarrow> map_at m (index e);
           m \<leftarrow> map_set (index e) (v - 1) m;
           st_entry a (e\<lparr>index := IDX paddr, writable := True\<rparr>) m });
       e \<leftarrow> ld_entry a m;
       v \<leftarrow> map_at m (index e);
       c_assert (v > 0);
       Some m } }"

subsection \<open>System calls and faults\<close>

definition unlink_range :: "u32 \<Rightarrow> u32 \<Rightarrow> mm \<Rightarrow> mm option" where
  "unlink_range brk old m = foldM (\<lambda>i. unlink_page (brk + of_nat i * PAGE_SIZE))
     [0..<(unat old - unat brk + 4095) div 4096] m"

definition sys_brk :: "u32 \<Rightarrow> mm \<Rightarrow> (int \<times> mm) option" where
  "sys_brk brk m = do {
     ASSERT_PAGE brk;
     c_assert (t_uid (running m) \<noteq> 0);
     c_assert (t_end (running m) \<le> brk \<and> brk \<le> USER_MMAP_ADDR);
     let old_brk = t_brk (running m);
     if old_brk > brk then do {
       m \<leftarrow> unlink_range brk old_brk m;
       Some (0, m\<lparr>running := (running m)\<lparr>t_brk := brk\<rparr>\<rparr>) }
     else if IDX (brk - old_brk) > free_pages m then Some (-1, m)
     else Some (0, m\<lparr>running := (running m)\<lparr>t_brk := brk\<rparr>\<rparr>) }"

text \<open>The outcome of a fault: handled, or the task is killed. A panic has no result.\<close>

datatype fault = Handled mm | Killed

definition page_fault :: "u32 \<Rightarrow> bool \<Rightarrow> bool \<Rightarrow> mm \<Rightarrow> fault option" where
  "page_fault vaddr code_present code_write m =
     (if vaddr < USER_EXEC_ADDR \<or> vaddr \<ge> USER_STACK_TOP
      then do { c_assert (t_uid (running m) \<noteq> 0); Some Killed }
      else if code_present then do {
        c_assert code_write;
        (a, m) \<leftarrow> get_entry vaddr False m;
        e \<leftarrow> ld_entry a m;
        c_assert (present e);
        c_assert (\<not> shared e);
        c_assert (\<not> readonly e);
        m \<leftarrow> copy_on_write vaddr 3 m;
        Some (Handled m) }
      else if vaddr < t_brk (running m) \<or> vaddr \<ge> USER_STACK_BOTTOM
      then map_option Handled (link_page (PAGE (IDX vaddr)) m)
      else None)"

definition mmap_one :: "u32 \<Rightarrow> u32 \<Rightarrow> u32 \<Rightarrow> mm \<Rightarrow> mm option" where
  "mmap_one prot flags page m = do {
     m \<leftarrow> link_page page m;
     vm \<leftarrow> bitmap_set (t_vmap (running m)) (IDX page) True;
     let m = m\<lparr>running := (running m)\<lparr>t_vmap := vm\<rparr>\<rparr>;
     (a, m) \<leftarrow> get_entry page False m;
     e \<leftarrow> ld_entry a m;
     let e = e\<lparr>user := True, writable := False, readonly := True\<rparr>;
     let e = (if prot AND 2 \<noteq> 0 then e\<lparr>readonly := False, writable := True\<rparr> else e);
     let e = (if flags AND 1 \<noteq> 0 then e\<lparr>shared := True\<rparr> else e);
     let e = (if flags AND 2 \<noteq> 0 then e\<lparr>private_page := True\<rparr> else e);
     st_entry a e m }"

text \<open>\<open>fill\<close> is the seek and read of the file into the mapping.\<close>

definition sys_mmap :: "(int \<Rightarrow> u32 \<Rightarrow> u32 \<Rightarrow> int \<Rightarrow> mm \<Rightarrow> mm option) \<Rightarrow>
    u32 \<Rightarrow> u32 \<Rightarrow> u32 \<Rightarrow> u32 \<Rightarrow> int \<Rightarrow> int \<Rightarrow> mm \<Rightarrow> (u32 \<times> mm) option" where
  "sys_mmap fill addr len prot flags fd offset m = do {
     ASSERT_PAGE addr;
     count \<leftarrow> div_round_up len PAGE_SIZE;
     (vaddr, m) \<leftarrow> (if addr = 0 then do {
         (v, vm) \<leftarrow> scan_page (t_vmap (running m)) count;
         Some (v, m\<lparr>running := (running m)\<lparr>t_vmap := vm\<rparr>\<rparr>) }
       else Some (addr, m));
     c_assert (vaddr \<ge> USER_MMAP_ADDR \<and> vaddr < USER_STACK_BOTTOM);
     m \<leftarrow> foldM (\<lambda>i. mmap_one prot flags (vaddr + PAGE_SIZE * of_nat i)) [0..<unat count] m;
     m \<leftarrow> (if fd \<noteq> EOF then fill fd vaddr len offset m else Some m);
     Some (vaddr, m) }"

definition munmap_one :: "u32 \<Rightarrow> mm \<Rightarrow> mm option" where
  "munmap_one page m = do {
     m \<leftarrow> unlink_page page m;
     used \<leftarrow> bitmap_test (t_vmap (running m)) (IDX page);
     c_assert used;
     vm \<leftarrow> bitmap_set (t_vmap (running m)) (IDX page) False;
     Some (m\<lparr>running := (running m)\<lparr>t_vmap := vm\<rparr>\<rparr>) }"

definition sys_munmap :: "u32 \<Rightarrow> u32 \<Rightarrow> mm \<Rightarrow> (int \<times> mm) option" where
  "sys_munmap vaddr len m = do {
     c_assert (vaddr \<ge> USER_MMAP_ADDR \<and> vaddr < USER_STACK_BOTTOM);
     ASSERT_PAGE vaddr;
     count \<leftarrow> div_round_up len PAGE_SIZE;
     m \<leftarrow> foldM (\<lambda>i. munmap_one (vaddr + PAGE_SIZE * of_nat i)) [0..<unat count] m;
     Some (0, m) }"

subsection \<open>The page allocator\<close>

text \<open>The free pages, and the invariant that ties the counter to them: the counter may run ahead
  of the map by a fixed amount, which the start-up code leaves, but never falls behind.\<close>

definition free_set :: "mm \<Rightarrow> nat set" where
  "free_set m = {i. unat (start_page m) \<le> i \<and> i < unat (total_pages m) \<and> memory_map m ! i = 0}"

definition mem_wf :: "mm \<Rightarrow> bool" where
  "mem_wf m \<longleftrightarrow> unat (total_pages m) \<le> length (memory_map m) \<and> unat (total_pages m) \<le> 1048576
     \<and> unat (start_page m) \<le> unat (total_pages m)
     \<and> card (free_set m) \<le> unat (free_pages m) \<and> unat (free_pages m) < unat (total_pages m)"

definition surplus :: "mm \<Rightarrow> nat" where
  "surplus m = unat (free_pages m) - card (free_set m)"

lemma finite_free_set [simp]: "finite (free_set m)"
  by (rule finite_subset [of _ "{..<unat (total_pages m)}"]) (auto simp: free_set_def)

lemma get_page_from_spec:
  assumes "\<forall>j. unat i \<le> j \<and> j < k \<longrightarrow> memory_map m ! j \<noteq> 0" "memory_map m ! k = 0"
    and "unat i \<le> k" "k < unat i + n" "k < length (memory_map m)" "k < 4294967295" "free_pages m > 0"
  shows "get_page_from i n m = Some (PAGE (of_nat k),
    m\<lparr>memory_map := (memory_map m)[k := 1], free_pages := free_pages m - 1\<rparr>)"
  using assms
proof (induction n arbitrary: i)
  case (Suc n)
  show ?case
  proof (cases "unat i = k")
    case True
    moreover have "i = of_nat k" unfolding True [symmetric] by simp
    ultimately show ?thesis using Suc.prems by (simp add: map_at_def map_set_def)
  next
    case False
    then have lt: "unat i < k" using Suc.prems(3) by simp
    then have s: "unat (i + 1) = unat i + 1" using Suc.prems(6) by (intro unat_Suc_bound) simp
    have "get_page_from (i + 1) n m = Some (PAGE (of_nat k),
        m\<lparr>memory_map := (memory_map m)[k := 1], free_pages := free_pages m - 1\<rparr>)"
      by (rule Suc.IH) (use Suc.prems lt s in auto)
    moreover have "memory_map m ! unat i \<noteq> 0" using Suc.prems(1) lt by auto
    ultimately show ?thesis using lt Suc.prems(5) by (simp add: map_at_def)
  qed
qed simp

lemma get_page_from_none:
  assumes "\<forall>j. unat i \<le> j \<and> j < unat i + n \<longrightarrow> memory_map m ! j \<noteq> 0" "unat i + n \<le> 1048576"
  shows "get_page_from i n m = None"
  using assms
proof (induction n arbitrary: i)
  case (Suc n)
  have s: "unat (i + 1) = unat i + 1" using Suc.prems(2) by (intro unat_Suc_bound) simp
  have "get_page_from (i + 1) n m = None" by (rule Suc.IH) (use Suc.prems s in auto)
  moreover have "map_at m i = Some v \<Longrightarrow> v \<noteq> 0" for v
    using Suc.prems(1) by (auto simp: map_at_def rd_eq_Some)
  ultimately show ?case by (cases "map_at m i") auto
qed simp

definition lowest_free :: "mm \<Rightarrow> nat" where
  "lowest_free m = Min (free_set m)"

lemma lowest_free:
  assumes "free_set m \<noteq> {}"
  shows "lowest_free m \<in> free_set m" "\<And>j. j \<in> free_set m \<Longrightarrow> lowest_free m \<le> j"
  using assms by (simp_all add: lowest_free_def)

definition take_page :: "nat \<Rightarrow> mm \<Rightarrow> mm" where
  "take_page k m = m\<lparr>memory_map := (memory_map m)[k := 1], free_pages := free_pages m - 1\<rparr>"

lemma get_page_lowest:
  assumes "mem_wf m" "free_set m \<noteq> {}"
  shows "get_page m = Some (PAGE (of_nat (lowest_free m)), take_page (lowest_free m) m)"
proof -
  let ?k = "lowest_free m"
  have k: "unat (start_page m) \<le> ?k" "?k < unat (total_pages m)" "memory_map m ! ?k = 0"
    using lowest_free(1) [OF assms(2)] by (auto simp: free_set_def)
  have "0 < card (free_set m)" using assms(2) by (simp add: card_gt_0_iff)
  then have "0 < unat (free_pages m)" using assms(1) by (simp add: mem_wf_def)
  then have f: "free_pages m > 0" by (simp add: word_less_nat_alt)
  have "\<forall>j. unat (start_page m) \<le> j \<and> j < ?k \<longrightarrow> memory_map m ! j \<noteq> 0"
    using lowest_free(2) [OF assms(2)] k(2) by (fastforce simp: free_set_def)
  then show ?thesis
    using k f assms(1) unfolding get_page_def take_page_def
    by (intro get_page_from_spec) (auto simp: mem_wf_def)
qed

lemma get_page_exhausted: "mem_wf m \<Longrightarrow> free_set m = {} \<Longrightarrow> get_page m = None"
  unfolding get_page_def by (rule get_page_from_none) (auto simp: free_set_def mem_wf_def)

lemma take_page_free_set:
  "k < length (memory_map m) \<Longrightarrow> free_set (take_page k m) = free_set m - {k}"
  by (auto simp: take_page_def free_set_def nth_list_update)

lemma take_page_wf:
  assumes "mem_wf m" "k \<in> free_set m"
  shows "mem_wf (take_page k m)" "surplus (take_page k m) = surplus m"
    "card (free_set (take_page k m)) + 1 = card (free_set m)"
proof -
  have k: "k < length (memory_map m)" using assms by (auto simp: free_set_def mem_wf_def)
  have c: "card (free_set (take_page k m)) + 1 = card (free_set m)"
    unfolding take_page_free_set [OF k] using card_Suc_Diff1 [OF finite_free_set assms(2)] by linarith
  have pos: "0 < unat (free_pages m)" using c assms(1) by (simp add: mem_wf_def)
  then have "free_pages m \<noteq> 0" by (simp add: unat_gt_0)
  then have f: "unat (free_pages m - 1) = unat (free_pages m) - 1" by (simp add: unat_minus_one)
  then have f': "unat (free_pages (take_page k m)) = unat (free_pages m) - 1" by (simp add: take_page_def)
  show "card (free_set (take_page k m)) + 1 = card (free_set m)" by (rule c)
  show "surplus (take_page k m) = surplus m" using c f' pos by (simp add: surplus_def)
  show "mem_wf (take_page k m)"
    using assms(1) c f' pos by (auto simp: mem_wf_def take_page_def)
qed

lemma unat_PAGE: "i < 1048576 \<Longrightarrow> unat (PAGE (of_nat i)) = 4096 * i"
  by (simp add: PAGE_def push_bit_eq_mult unat_word_ariths unat_of_nat32)

lemma IDX_PAGE [simp]: "i < 1048576 \<Longrightarrow> IDX (PAGE (of_nat i)) = of_nat i"
  by (simp add: IDX_def word_unat_eq_iff drop_bit_word_div unat_PAGE unat_of_nat32)

lemma low_bits: "unat ((w :: u32) AND 0xfff) = unat w mod 4096"
proof -
  have m: "w AND 0xfff = take_bit 12 w" by (simp add: take_bit_eq_mask mask_eq_exp_minus_1)
  show ?thesis unfolding m unsigned_take_bit_eq by (simp add: take_bit_eq_mod)
qed

lemma ASSERT_PAGE_PAGE [simp]: "i < 1048576 \<Longrightarrow> ASSERT_PAGE (PAGE (of_nat i)) = Some ()"
  using low_bits [of "PAGE (of_nat i)"] by (simp add: ASSERT_PAGE_def unat_PAGE unat_eq_zero)

lemma put_page_last:
  assumes "mem_wf m" "unat (start_page m) \<le> i" "i < unat (total_pages m)" "memory_map m ! i = 1"
    and "surplus m + card (free_set m) + 1 < unat (total_pages m)"
  shows "put_page (PAGE (of_nat i)) m =
    Some (m\<lparr>memory_map := (memory_map m)[i := 0], free_pages := free_pages m + 1\<rparr>)"
proof -
  have i: "i < 1048576" "i < length (memory_map m)" using assms by (auto simp: mem_wf_def)
  have u: "unat (of_nat i :: u32) = i" using i by (intro unat_of_nat32) simp
  have fp: "unat (free_pages m) + 1 < unat (total_pages m)"
    using assms(1,5) by (simp add: surplus_def mem_wf_def)
  then have s: "unat (free_pages m + 1) = unat (free_pages m) + 1"
    using assms(1) by (intro unat_Suc_bound) (simp add: mem_wf_def)
  then have "free_pages m + 1 > 0" "free_pages m + 1 < total_pages m"
    using fp by (simp_all add: word_less_nat_alt)
  then show ?thesis
    using i u assms(2-4)
    by (simp add: put_page_def map_at_def map_set_def word_le_nat_alt word_less_nat_alt)
qed

lemma put_page_shared:
  assumes "mem_wf m" "unat (start_page m) \<le> i" "i < unat (total_pages m)" "memory_map m ! i > 1"
    and "free_pages m > 0"
  shows "put_page (PAGE (of_nat i)) m = Some (m\<lparr>memory_map := (memory_map m)[i := memory_map m ! i - 1]\<rparr>)"
proof -
  have i: "i < 1048576" "i < length (memory_map m)" using assms by (auto simp: mem_wf_def)
  have u: "unat (of_nat i :: u32) = i" using i by (intro unat_of_nat32) simp
  have v: "memory_map m ! i \<ge> 1" "memory_map m ! i - 1 \<noteq> 0"
    using assms(4) by (auto simp: order_less_imp_le)
  have "free_pages m < total_pages m" using assms(1) by (simp add: mem_wf_def word_less_nat_alt)
  then show ?thesis
    using i u v assms(2,3,5)
    by (simp add: put_page_def map_at_def map_set_def word_le_nat_alt [of "start_page m"]
        word_less_nat_alt [of "of_nat i"])
qed

lemma take_put_restores:
  assumes "mem_wf m" "k \<in> free_set m"
  shows "put_page (PAGE (of_nat k)) (take_page k m) = Some m"
proof -
  let ?m = "take_page k m"
  have il: "k < length (memory_map m)" "memory_map m ! k = 0" "unat (start_page m) \<le> k" "k < unat (total_pages m)"
    using assms by (auto simp: free_set_def mem_wf_def)
  note wf = take_page_wf [OF assms]
  have "surplus m + card (free_set m) = unat (free_pages m)" using assms by (simp add: surplus_def mem_wf_def)
  moreover have "unat (free_pages m) < unat (total_pages m)" using assms by (simp add: mem_wf_def)
  ultimately have "surplus ?m + card (free_set ?m) + 1 < unat (total_pages ?m)"
    using wf(2,3) by (simp add: take_page_def)
  then have "put_page (PAGE (of_nat k)) ?m =
      Some (?m\<lparr>memory_map := (memory_map ?m)[k := 0], free_pages := free_pages ?m + 1\<rparr>)"
    using il by (intro put_page_last [OF wf(1)]) (simp_all add: take_page_def)
  also have "?m\<lparr>memory_map := (memory_map ?m)[k := 0], free_pages := free_pages ?m + 1\<rparr> = m"
    using il by (simp add: take_page_def list_update_same_conv)
  finally show ?thesis .
qed

definition sample_mm :: mm where
  "sample_mm = \<lparr>memory_base = MEMORY_BASE, memory_size = 0x4000, total_pages = 4, free_pages = 2,
     start_page = 1, memory_map = [1, 1, 0, 0], memory_map_pages = 1,
     kernel_map = \<lparr>bm_bits = [0], bm_length = 1, bm_offset = 0\<rparr>,
     frames = (\<lambda>f. if f = 0 then Table ((replicate 1024 zero_entry)[0 := entry_init 1, 1023 := entry_init 0])
       else if f = 1 then Table (replicate 1024 zero_entry)
       else if f = 7 then Table ((replicate 1024 zero_entry)[0 := entry_init 1, 1023 := entry_init 7]) else Data []),
     cr3 = 0,
     running = \<lparr>t_uid = 1, t_pde = 0, t_brk = 0, t_end = 0, t_vmap = \<lparr>bm_bits = [0], bm_length = 1, bm_offset = 0\<rparr>\<rparr>\<rparr>"

lemma sample_free: "free_set sample_mm = {2, 3}"
proof -
  have "i < 4 \<Longrightarrow> 1 \<le> i \<Longrightarrow> i = 1 \<or> i = 2 \<or> i = 3" for i :: nat by arith
  then show ?thesis by (force simp: free_set_def sample_mm_def)
qed

lemma sample_wf: "mem_wf sample_mm"
  unfolding mem_wf_def sample_free by (simp add: sample_mm_def)

text \<open>C22: \<open>get_page\<close> takes the lowest page without a reference, or the kernel stops when there
  is none; the free counter keeps its distance from the number of free pages; and \<open>put_page\<close> of
  the page restores the state.\<close>

theorem get_page_takes_lowest:
  assumes "mem_wf m"
  shows "if free_set m = {} then get_page m = None
    else \<exists>i m'. get_page m = Some (PAGE (of_nat i), m') \<and> i \<in> free_set m \<and> (\<forall>j\<in>free_set m. i \<le> j)
      \<and> mem_wf m' \<and> surplus m' = surplus m \<and> free_set m' = free_set m - {i}
      \<and> frames m' = frames m \<and> put_page (PAGE (of_nat i)) m' = Some m"
proof (cases "free_set m = {}")
  case True
  then show ?thesis using get_page_exhausted [OF assms] by simp
next
  case False
  let ?i = "lowest_free m"
  have i: "?i \<in> free_set m" using lowest_free [OF False] by blast
  have "?i < length (memory_map m)" using assms i by (auto simp: free_set_def mem_wf_def)
  from take_page_free_set [OF this] show ?thesis
    using False get_page_lowest [OF assms False] i lowest_free(2) [OF False] take_page_wf [OF assms i]
      take_put_restores [OF assms i]
    by (auto simp: take_page_def intro!: exI [of _ ?i] exI [of _ "take_page ?i m"])
qed

theorem get_page_takes_lowest_witness:
  "mem_wf sample_mm \<and> (\<exists>i m'. get_page sample_mm = Some (PAGE (of_nat i), m') \<and> i \<in> {2, 3})"
  using get_page_takes_lowest [OF sample_wf] sample_wf unfolding sample_free by auto

subsection \<open>The recursive mapping\<close>

text \<open>The last entry of the current directory points to the directory itself.\<close>

definition self_map :: "mm \<Rightarrow> page_entry list \<Rightarrow> bool" where
  "self_map m dir \<longleftrightarrow> frames m (cr3 m) = Table dir \<and> length dir = 1024
     \<and> present (dir ! 1023) \<and> index (dir ! 1023) = cr3 m"

definition has_table :: "mm \<Rightarrow> u32 \<Rightarrow> page_entry list \<Rightarrow> bool" where
  "has_table m f t \<longleftrightarrow> frames m f = Table t \<and> length t = 1024"

lemma has_tableD: "has_table m f t \<Longrightarrow> table m f = Some t"
  by (simp add: has_table_def table_def)

lemma self_map_table: "self_map m dir \<Longrightarrow> table m (cr3 m) = Some dir"
  by (simp add: self_map_def table_def)

lemma and_3ff: "unat ((w :: u32) AND 0x3ff) = unat w mod 1024"
proof -
  have m: "w AND 0x3ff = take_bit 10 w" by (simp add: take_bit_eq_mask mask_eq_exp_minus_1)
  show ?thesis unfolding m unsigned_take_bit_eq by (simp add: take_bit_eq_mod)
qed

lemma unat_DIDX: "unat (DIDX va) = unat va div 4194304 mod 1024"
  unfolding DIDX_def and_3ff drop_bit_word_div by simp

lemma unat_TIDX: "unat (TIDX va) = unat va div 4096 mod 1024"
  unfolding TIDX_def and_3ff drop_bit_word_div by simp

lemma DIDX_less: "unat (DIDX va) < 1024" and TIDX_less: "unat (TIDX va) < 1024"
  by (simp_all add: unat_DIDX unat_TIDX)

lemma unat_pde_at:
  assumes "unat i < 1024"
  shows "unat (pde_at i) = 4294963200 + 4 * unat i"
proof -
  have "unat (4 * i) = 4 * unat i" using assms by (simp add: unat_word_ariths)
  then show ?thesis using assms unat_plus_bound [of get_pde "4 * i"] by (simp add: pde_at_def get_pde_def)
qed

definition pte_at :: "u32 \<Rightarrow> u32 \<Rightarrow> u32" where
  "pte_at d t = (PDE_MASK OR push_bit 12 d) + 4 * t"

lemma unat_pde_mask:
  assumes "unat d < 1024"
  shows "unat (PDE_MASK OR push_bit 12 d) = 4290772992 + 4096 * unat d"
proof -
  have "PDE_MASK + push_bit 12 d = PDE_MASK OR push_bit 12 d"
  proof (rule disjunctive_add)
    fix n
    have m: "PDE_MASK = push_bit 22 (mask 10)" by (simp add: PDE_MASK_def mask_eq_exp_minus_1)
    have d: "d = take_bit 10 d"
      using assms by (simp add: word_unat_eq_iff unsigned_take_bit_eq take_bit_nat_eq_self)
    have "\<not> bit d (n - 12)" if "22 \<le> n"
    proof -
      have "\<not> n - 12 < 10" using that by arith
      then have "\<not> bit (take_bit 10 d) (n - 12)" unfolding bit_take_bit_iff by blast
      then show ?thesis using d by simp
    qed
    then show "\<not> bit PDE_MASK n \<or> \<not> bit (push_bit 12 d) n"
      unfolding m by (auto simp: bit_simps)
  qed
  moreover have "unat (push_bit 12 d) = 4096 * unat d"
    using assms by (simp add: push_bit_eq_mult unat_word_ariths)
  ultimately show ?thesis
    using assms unat_plus_bound [of PDE_MASK "push_bit 12 d"] by (simp add: PDE_MASK_def)
qed

lemma unat_pte_at:
  assumes "unat d < 1024" "unat t < 1024"
  shows "unat (pte_at d t) = 4290772992 + 4096 * unat d + 4 * unat t"
proof -
  have "unat (4 * t) = 4 * unat t" using assms by (simp add: unat_word_ariths)
  then show ?thesis
    using assms unat_pde_mask [OF assms(1)] unat_plus_bound [of "PDE_MASK OR push_bit 12 d" "4 * t"]
    by (simp add: pte_at_def)
qed

lemma split_address:
  fixes a b c :: nat
  assumes "b < 1024" "c < 4096"
  shows "(a * 4194304 + b * 4096 + c) div 4194304 = a" "(a * 4194304 + b * 4096 + c) div 4096 = a * 1024 + b"
    "(a * 4194304 + b * 4096 + c) mod 4096 = c"
proof -
  show "(a * 4194304 + b * 4096 + c) div 4194304 = a" using assms by (intro div_nat_eqI) auto
  show "(a * 4194304 + b * 4096 + c) div 4096 = a * 1024 + b" using assms by (intro div_nat_eqI) auto
  have "a * 4194304 + b * 4096 + c = c + (a * 1024 + b) * 4096" by simp
  then have "(a * 4194304 + b * 4096 + c) mod 4096 = c mod 4096" by (simp only: mod_mult_self1)
  then show "(a * 4194304 + b * 4096 + c) mod 4096 = c" using assms(2) by simp
qed

lemma pde_at_parts:
  assumes "unat i < 1024"
  shows "unat (DIDX (pde_at i)) = 1023" "unat (TIDX (pde_at i)) = 1023"
    "unat (pde_at i AND 0xfff) div 4 = unat i"
proof -
  have e: "unat (pde_at i) = 1023 * 4194304 + 1023 * 4096 + 4 * unat i"
    using unat_pde_at [OF assms] by simp
  have c: "4 * unat i < 4096" using assms by simp
  note sp = split_address [of 1023 "4 * unat i" 1023, OF _ c]
  show "unat (DIDX (pde_at i)) = 1023" "unat (TIDX (pde_at i)) = 1023"
    unfolding unat_DIDX unat_TIDX e using sp by simp_all
  show "unat (pde_at i AND 0xfff) div 4 = unat i" unfolding low_bits e using sp(3) by simp
qed

lemma pte_at_parts:
  assumes "unat d < 1024" "unat t < 1024"
  shows "unat (DIDX (pte_at d t)) = 1023" "unat (TIDX (pte_at d t)) = unat d"
    "unat (pte_at d t AND 0xfff) div 4 = unat t"
proof -
  have e: "unat (pte_at d t) = 1023 * 4194304 + unat d * 4096 + 4 * unat t"
    using unat_pte_at [OF assms] by simp
  have c: "4 * unat t < 4096" using assms by simp
  note sp = split_address [OF assms(1) c, of 1023]
  show "unat (DIDX (pte_at d t)) = 1023" unfolding unat_DIDX e sp(1) by simp
  show "unat (TIDX (pte_at d t)) = unat d" unfolding unat_TIDX e sp(2) mod_mult_self3 using assms by simp
  show "unat (pte_at d t AND 0xfff) div 4 = unat t" unfolding low_bits e using sp(3) by simp
qed

lemma translate_pde_at: "self_map m dir \<Longrightarrow> unat i < 1024 \<Longrightarrow> translate m (pde_at i) = Some (cr3 m)"
  using self_map_table [of m dir] by (simp add: translate_def pde_at_parts self_map_def)

lemma ld_pde: "self_map m dir \<Longrightarrow> unat i < 1024 \<Longrightarrow> ld_entry (pde_at i) m = Some (dir ! unat i)"
  by (simp add: ld_entry_def translate_pde_at self_map_table pde_at_parts)

lemma translate_pte_at:
  "self_map m dir \<Longrightarrow> unat d < 1024 \<Longrightarrow> unat t < 1024 \<Longrightarrow> present (dir ! unat d)
   \<Longrightarrow> translate m (pte_at d t) = Some (index (dir ! unat d))"
  using self_map_table [of m dir] by (simp add: translate_def pte_at_parts self_map_def)

lemma ld_pte:
  "self_map m dir \<Longrightarrow> unat d < 1024 \<Longrightarrow> unat t < 1024 \<Longrightarrow> present (dir ! unat d)
   \<Longrightarrow> has_table m (index (dir ! unat d)) tab \<Longrightarrow> ld_entry (pte_at d t) m = Some (tab ! unat t)"
  by (simp add: ld_entry_def translate_pte_at has_tableD pte_at_parts)

lemma st_pte:
  "self_map m dir \<Longrightarrow> unat d < 1024 \<Longrightarrow> unat t < 1024 \<Longrightarrow> present (dir ! unat d)
   \<Longrightarrow> has_table m (index (dir ! unat d)) tab
   \<Longrightarrow> st_entry (pte_at d t) e m
     = Some (m\<lparr>frames := (frames m)(index (dir ! unat d) := Table (tab[unat t := e]))\<rparr>)"
  by (simp add: st_entry_def translate_pte_at has_tableD pte_at_parts)

text \<open>Entries seen from an address.\<close>

lemma pte_at_1023: "unat i < 1024 \<Longrightarrow> pte_at 1023 i = pde_at i"
  by (simp add: word_unat_eq_iff unat_pte_at unat_pde_at)

lemma get_entry_present:
  "self_map m dir \<Longrightarrow> present (dir ! unat (DIDX va))
   \<Longrightarrow> get_entry va c m = Some (pte_at (DIDX va) (TIDX va), m)"
  by (simp add: get_entry_def get_pte_def ld_pde DIDX_less pte_at_def Let_def)

lemma pte_at_DIDX: "unat d < 1024 \<Longrightarrow> unat t < 1024 \<Longrightarrow> DIDX (pte_at d t) = 1023 \<and> TIDX (pte_at d t) = d"
  by (simp add: word_unat_eq_iff pte_at_parts)

lemma pde_at_DIDX: "unat i < 1024 \<Longrightarrow> DIDX (pde_at i) = 1023 \<and> TIDX (pde_at i) = 1023"
  by (simp add: word_unat_eq_iff pde_at_parts)

lemma translate_va:
  "self_map m dir \<Longrightarrow> present (dir ! unat (DIDX va)) \<Longrightarrow> has_table m (index (dir ! unat (DIDX va))) tab
   \<Longrightarrow> translate m va = (if present (tab ! unat (TIDX va)) then Some (index (tab ! unat (TIDX va))) else None)"
  using self_map_table [of m dir] by (simp add: translate_def has_tableD)

lemma self_map_upd:
  "self_map m dir \<Longrightarrow> f \<noteq> cr3 m \<Longrightarrow> self_map (m\<lparr>frames := (frames m)(f := x)\<rparr>) dir"
  by (simp add: self_map_def)

lemma take_page_simps [simp]:
  "frames (take_page k m) = frames m" "cr3 (take_page k m) = cr3 m" "start_page (take_page k m) = start_page m"
  "total_pages (take_page k m) = total_pages m" "running (take_page k m) = running m"
  "memory_map (take_page k m) = (memory_map m)[k := 1]"
  by (simp_all add: take_page_def)

lemma self_map_frames: "frames m' = frames m \<Longrightarrow> cr3 m' = cr3 m \<Longrightarrow> self_map m' dir = self_map m dir"
  by (simp add: self_map_def)

lemma has_table_frames: "frames m' f = frames m f \<Longrightarrow> has_table m' f t = has_table m f t"
  by (simp add: has_table_def)

lemma page_bound: "mem_wf m \<Longrightarrow> i \<in> free_set m \<Longrightarrow> i < 1048576"
  by (auto simp: free_set_def mem_wf_def)

lemma mem_wf_frames: "mem_wf (m\<lparr>frames := f\<rparr>) = mem_wf m" "free_set (m\<lparr>frames := f\<rparr>) = free_set m"
  "surplus (m\<lparr>frames := f\<rparr>) = surplus m"
  by (simp_all add: mem_wf_def free_set_def surplus_def)

lemma link_page_new:
  assumes "mem_wf m" "free_set m \<noteq> {}" "self_map m dir" "unat va mod 4096 = 0"
    and "present (dir ! unat (DIDX va))" "has_table m (index (dir ! unat (DIDX va))) tab"
    and "\<not> present (tab ! unat (TIDX va))"
  shows "link_page va m = Some ((take_page (lowest_free m) m)\<lparr>frames := (frames m)
    (index (dir ! unat (DIDX va)) := Table (tab[unat (TIDX va) := entry_init (of_nat (lowest_free m))]))\<rparr>)"
proof -
  let ?k = "lowest_free m" and ?f = "index (dir ! unat (DIDX va))"
  note dt = DIDX_less [of va] TIDX_less [of va]
  have "?k \<in> free_set m" using lowest_free [OF assms(2)] by blast
  then have kb: "?k < 1048576" using page_bound [OF assms(1)] by blast
  have al: "ASSERT_PAGE va = Some ()"
    using assms(4) low_bits [of va] by (simp add: ASSERT_PAGE_def unat_eq_zero)
  have sm1: "self_map (take_page ?k m) dir" using assms(3) by (simp add: self_map_def)
  have ht1: "has_table (take_page ?k m) ?f tab" using assms(6) by (simp add: has_table_def)
  show ?thesis
    using al get_entry_present [OF assms(3,5)] ld_pte [OF assms(3) dt assms(5,6)] assms(7)
      get_page_lowest [OF assms(1,2)] st_pte [OF sm1 dt assms(5) ht1] kb
    by (simp add: link_page_def)
qed

lemma put_page_frames:
  "put_page a (m\<lparr>frames := f\<rparr>) = map_option (\<lambda>m. m\<lparr>frames := f\<rparr>) (put_page a m)"
  by (simp add: put_page_def map_at_def map_set_def Let_def split: option.splits Option.bind_split)

text \<open>C23: Linking an unmapped user page whose page table exists already maps it to a page that was
  free, and unlinking it gives the page back: the map and the counter of pages are as they were, and
  the address is unmapped again. A page table that \<open>link_page\<close> has to make is not covered: unlinking
  does not give it back.\<close>

theorem link_then_unlink:
  assumes "mem_wf m" "free_set m \<noteq> {}" "self_map m dir" "unat va mod 4096 = 0"
    and "present (dir ! unat (DIDX va))" "index (dir ! unat (DIDX va)) \<noteq> cr3 m"
    and "has_table m (index (dir ! unat (DIDX va))) tab" "\<not> present (tab ! unat (TIDX va))"
  shows "\<exists>k m' m''. link_page va m = Some m' \<and> k \<in> free_set m \<and> free_set m' = free_set m - {k}
    \<and> translate m' va = Some (of_nat k)
    \<and> unlink_page va m' = Some m'' \<and> translate m'' va = None
    \<and> memory_map m'' = memory_map m \<and> free_pages m'' = free_pages m"
proof -
  let ?d = "DIDX va" and ?t = "TIDX va" and ?k = "lowest_free m"
  let ?f = "index (dir ! unat ?d)" and ?a = "pte_at ?d ?t"
  note dt = DIDX_less [of va] TIDX_less [of va]
  have k: "?k \<in> free_set m" using lowest_free [OF assms(2)] by blast
  have al: "ASSERT_PAGE va = Some ()"
    using assms(4) low_bits [of va] by (simp add: ASSERT_PAGE_def unat_eq_zero)
  let ?tab = "tab[unat ?t := entry_init (of_nat ?k)]"
  let ?m1 = "take_page ?k m"
  let ?m' = "?m1\<lparr>frames := (frames m)(?f := Table ?tab)\<rparr>"
  have len: "length tab = 1024" using assms(7) by (simp add: has_table_def)
  have sm1: "self_map ?m1 dir" using assms(3) by (simp add: self_map_def)
  note link = link_page_new [OF assms(1-5,7,8)]
  have sm': "self_map ?m' dir" using self_map_upd [OF sm1, of ?f] assms(6) by simp
  have ht': "has_table ?m' ?f ?tab" using len by (simp add: has_table_def)
  have tr: "translate ?m' va = Some (of_nat ?k)"
    using translate_va [OF sm' assms(5) ht'] dt len by (simp add: entry_init_def)
  let ?tab2 = "tab[unat ?t := (entry_init (of_nat ?k))\<lparr>present := False\<rparr>]"
  let ?m2 = "?m1\<lparr>frames := (frames m)(?f := Table ?tab2)\<rparr>"
  have ld: "ld_entry ?a ?m' = Some (entry_init (of_nat ?k))"
    using ld_pte [OF sm' dt assms(5) ht'] dt len by simp
  have st: "st_entry ?a ((entry_init (of_nat ?k))\<lparr>present := False\<rparr>) ?m' = Some ?m2"
    using st_pte [OF sm' dt assms(5) ht'] by simp
  have "put_page (PAGE (of_nat ?k)) ?m1 = Some m" by (rule take_put_restores [OF assms(1) k])
  then have restored: "put_page (PAGE (of_nat ?k)) ?m2 = Some (m\<lparr>frames := frames ?m2\<rparr>)"
    using put_page_frames [of "PAGE (of_nat ?k)" "frames ?m2" ?m1] by simp
  let ?m'' = "m\<lparr>frames := frames ?m2\<rparr>"
  have unlink: "unlink_page va ?m' = Some ?m''"
    using al ld_pde [OF sm' dt(1)] assms(5) get_entry_present [OF sm' assms(5)] ld st restored
    by (simp add: unlink_page_def entry_init_def)
  have sm2: "self_map ?m'' dir" using self_map_upd [OF assms(3), of ?f] assms(6) by simp
  have ht2: "has_table ?m'' ?f ?tab2" using len by (simp add: has_table_def)
  have "translate ?m'' va = None" using translate_va [OF sm2 assms(5) ht2] dt len by simp
  moreover have "free_set ?m' = free_set m - {?k}"
    using take_page_free_set [of ?k m] k assms(1) by (simp add: mem_wf_frames free_set_def mem_wf_def)
  moreover have "memory_map ?m'' = memory_map m" "free_pages ?m'' = free_pages m" by simp_all
  ultimately show ?thesis using link k tr unlink by blast
qed

lemma sample_tables:
  "self_map sample_mm ((replicate 1024 zero_entry)[0 := entry_init 1, 1023 := entry_init 0])"
  "has_table sample_mm 1 (replicate 1024 zero_entry)" "cr3 sample_mm = 0"
  by (simp_all add: self_map_def has_table_def sample_mm_def entry_init_def)

lemma zero_address: "DIDX 0 = 0" "TIDX 0 = 0"
  by (simp_all add: DIDX_def TIDX_def)

lemma sample_entries:
  "(replicate 1024 zero_entry)[0 := entry_init 1, 1023 := e] ! 0 = entry_init 1"
  "replicate 1024 zero_entry ! 0 = zero_entry" "index (entry_init i) = i"
  by (simp_all add: entry_init_def)

lemma sample_present: "present (entry_init i)" "\<not> present zero_entry" "memory_map sample_mm = [1, 1, 0, 0]"
  by (simp_all add: entry_init_def zero_entry_def sample_mm_def)

theorem link_then_unlink_witness:
  "\<exists>k m' m''. link_page 0 sample_mm = Some m' \<and> k \<in> {2, 3} \<and> translate m' 0 = Some (of_nat k)
    \<and> unlink_page 0 m' = Some m'' \<and> translate m'' 0 = None \<and> memory_map m'' = [1, 1, 0, 0]"
  using link_then_unlink [OF sample_wf _ sample_tables(1), of 0 "replicate 1024 zero_entry"]
    sample_tables(2) sample_present
  unfolding sample_free zero_address unsigned_0 sample_entries sample_tables(3) by auto

subsection \<open>Copy on write\<close>

text \<open>The state after a page has been copied to the free page \<open>k\<close> through the first entry of the
  first table.\<close>

definition copied :: "nat \<Rightarrow> u32 \<Rightarrow> u32 \<Rightarrow> page_entry list \<Rightarrow> mm \<Rightarrow> mm" where
  "copied k src f0 tab0 m = (take_page k m)\<lparr>frames := (frames m)
     (f0 := Table (tab0[0 := (entry_init (of_nat k))\<lparr>present := False\<rparr>]), of_nat k := frames m src)\<rparr>"

lemma copied_simps [simp]:
  "cr3 (copied k src f0 tab0 m) = cr3 m" "memory_map (copied k src f0 tab0 m) = (memory_map m)[k := 1]"
  "f \<noteq> f0 \<Longrightarrow> f \<noteq> of_nat k \<Longrightarrow> frames (copied k src f0 tab0 m) f = frames m f"
  "frames (copied k src f0 tab0 m) (of_nat k) = frames m src"
  "has_table m f0 tab0 \<Longrightarrow> f0 \<noteq> of_nat k
   \<Longrightarrow> has_table (copied k src f0 tab0 m) f0 (tab0[0 := (entry_init (of_nat k))\<lparr>present := False\<rparr>])"
  by (simp_all add: copied_def has_table_def)

lemma pte_0: "PDE_MASK = pte_at 0 0"
  by (simp add: pte_at_def)

lemma page_parts: "DIDX (PAGE (IDX va)) = DIDX va" "TIDX (PAGE (IDX va)) = TIDX va"
proof -
  have "unat (PAGE (IDX va)) = unat va div 4096 * 4096"
  proof -
    have "unat va div 4096 < 1048576" using unsigned_less [of va, where ?'a = nat] by simp
    then have "IDX va = of_nat (unat va div 4096)" and "unat va div 4096 < 1048576"
      by (simp_all add: IDX_def word_unat_eq_iff drop_bit_word_div unat_of_nat32)
    then show ?thesis using unat_PAGE [of "unat va div 4096"] by simp
  qed
  moreover have "x div 4096 * 4096 div 4194304 = x div 4194304" for x :: nat
    using div_mult2_eq [of "x div 4096 * 4096" 4096 1024] div_mult2_eq [of x 4096 1024] by simp
  ultimately show "DIDX (PAGE (IDX va)) = DIDX va" "TIDX (PAGE (IDX va)) = TIDX va"
    by (simp_all add: word_unat_eq_iff unat_DIDX unat_TIDX)
qed

lemma copy_page_spec:
  assumes "mem_wf m" "free_set m \<noteq> {}" "self_map m dir"
    and z: "present (dir ! 0)" "has_table m f0 tab0" "f0 = index (dir ! 0)"
    and p: "present (dir ! unat (DIDX page))" "has_table m (index (dir ! unat (DIDX page))) tp"
      "present (tp ! unat (TIDX page))" "src = index (tp ! unat (TIDX page))"
    and n: "index (dir ! unat (DIDX page)) \<noteq> f0" "cr3 m \<noteq> f0" "src \<noteq> f0"
      "of_nat (lowest_free m) \<noteq> f0" "of_nat (lowest_free m) \<noteq> cr3 m"
  shows "copy_page page m = Some (PAGE (of_nat (lowest_free m)), copied (lowest_free m) src f0 tab0 m)"
proof -
  let ?k = "lowest_free m" and ?K = "of_nat (lowest_free m) :: u32"
  let ?m1 = "take_page ?k m"
  let ?m2 = "?m1\<lparr>frames := (frames m)(f0 := Table (tab0[0 := entry_init ?K]))\<rparr>"
  let ?m3 = "?m2\<lparr>frames := (frames ?m2)(?K := frames m src)\<rparr>"
  have "?k \<in> free_set m" using lowest_free [OF assms(2)] by blast
  then have kb: "?k < 1048576" using page_bound [OF assms(1)] by blast
  have len: "length tab0 = 1024" using z(2) by (simp add: has_table_def)
  have sm: "self_map ?m1 dir" "self_map ?m2 dir" "self_map ?m3 dir"
    using assms(3) n(2,4,5) by (simp_all add: self_map_def)
  have ht: "has_table ?m1 f0 tab0" "has_table ?m2 f0 (tab0[0 := entry_init ?K])"
    "has_table ?m3 f0 (tab0[0 := entry_init ?K])"
    "has_table ?m2 (index (dir ! unat (DIDX page))) tp"
    using z(2) p(2) len n(1,4) by (simp_all add: has_table_def)
  have pte: "get_pte 0 False ?m1 = Some (pte_at 0 0, ?m1)"
    using ld_pde [OF sm(1), of 0] z(1) by (simp add: get_pte_def zero_address pte_0)
  have st: "st_entry (pte_at 0 0) (entry_init ?K) ?m1 = Some ?m2"
    using st_pte [OF sm(1), of 0 0 tab0] z ht(1) by simp
  have dst: "translate ?m2 0 = Some ?K"
    using translate_va [OF sm(2), of 0] z(1,3) ht(2) len by (simp add: zero_address entry_init_def)
  have tr: "translate ?m2 page = Some src"
    using translate_va [OF sm(2) p(1) ht(4)] p(3,4) by simp
  have upd: "upd_at (pte_at 0 0) (\<lambda>e. e\<lparr>present := False\<rparr>) ?m3
      = Some (?m3\<lparr>frames := (frames ?m3)(f0 := Table (tab0[0 := (entry_init ?K)\<lparr>present := False\<rparr>]))\<rparr>)"
    using ld_pte [OF sm(3), of 0 0] st_pte [OF sm(3), of 0 0] z ht(3) len by (simp add: upd_at_def)
  have fin: "?m3\<lparr>frames := (frames ?m3)(f0 := Table (tab0[0 := (entry_init ?K)\<lparr>present := False\<rparr>]))\<rparr>
      = copied ?k src f0 tab0 m"
    using n(4) by (simp add: copied_def fun_upd_twist)
  have "frames ?m2 src = frames m src" using n(3) by simp
  then show ?thesis
    using get_page_lowest [OF assms(1,2)] kb pte st dst tr upd fin by (simp add: copy_page_def)
qed

text \<open>One level of the copy, after the entry that is written has been made writable.\<close>

definition cow_done :: "nat \<Rightarrow> u32 \<Rightarrow> u32 \<Rightarrow> page_entry list \<Rightarrow> u32 \<Rightarrow> page_entry list \<Rightarrow> nat \<Rightarrow> mm \<Rightarrow> mm" where
  "cow_done k src f0 tab0 f tab t m = (let m' = copied k src f0 tab0 m in
     m'\<lparr>memory_map := (memory_map m')[unat src := memory_map m ! unat src - 1],
        frames := (frames m')(f := Table (tab[t := (tab ! t)\<lparr>index := of_nat k, writable := True\<rparr>]))\<rparr>)"

lemma cow_done_self_map:
  assumes "self_map m dir" "cr3 m \<noteq> f0" "of_nat k \<noteq> cr3 m" "f = cr3 m \<Longrightarrow> t \<noteq> 1023 \<and> tab = dir"
  shows "self_map (cow_done k src f0 tab0 f tab t m)
    (if f = cr3 m then tab[t := (tab ! t)\<lparr>index := of_nat k, writable := True\<rparr>] else dir)"
  using assms by (auto simp: self_map_def cow_done_def Let_def)

lemma cow_level_copies:
  assumes "mem_wf m" "free_set m \<noteq> {}" "self_map m dir"
    and up: "get_entry va False m0 = Some (pte_at d t, m0)" "copy_on_write (pte_at d t) level m0 = Some m"
    and z: "present (dir ! 0)" "has_table m f0 tab0" "f0 = index (dir ! 0)"
    and p: "present (dir ! unat d)" "has_table m f tab" "f = index (dir ! unat d)"
      "present (tab ! unat t)" "src = index (tab ! unat t)" "\<not> writable (tab ! unat t)"
    and va: "DIDX va = d" "TIDX va = t"
    and n: "f \<noteq> f0" "cr3 m \<noteq> f0" "src \<noteq> f0" "of_nat (lowest_free m) \<noteq> f0" "of_nat (lowest_free m) \<noteq> cr3 m"
      "of_nat (lowest_free m) \<noteq> f"
    and top: "f = cr3 m \<Longrightarrow> d = 1023 \<and> t \<noteq> 1023 \<and> tab = dir"
    and v: "unat src < length (memory_map m)" "memory_map m ! unat src > 1"
  shows "copy_on_write va (Suc level) m0 = Some (cow_done (lowest_free m) src f0 tab0 f tab (unat t) m)"
proof -
  let ?k = "lowest_free m" and ?K = "of_nat (lowest_free m) :: u32"
  let ?m1 = "copied ?k src f0 tab0 m" and ?p = "PAGE (IDX va)"
  have k: "?k \<in> free_set m" using lowest_free [OF assms(2)] by blast
  have kb: "?k < 1048576" using page_bound [OF assms(1) k] .
  have kl: "?k < length (memory_map m)" "memory_map m ! ?k = 0" using k assms(1) by (auto simp: free_set_def mem_wf_def)
  have ks: "unat src \<noteq> ?k" using kl(2) v(2) by auto
  have dt: "unat d < 1024" "unat t < 1024" using va DIDX_less [of va] TIDX_less [of va] by simp_all
  have len: "length tab = 1024" using p(2) by (simp add: has_table_def)
  have pp: "DIDX ?p = d" "TIDX ?p = t" using page_parts [of va] va by simp_all
  have e: "ld_entry (pte_at d t) m = Some (tab ! unat t)"
    using ld_pte [OF assms(3) dt p(1)] p(2,3) by simp
  have cp: "copy_page ?p m = Some (PAGE ?K, ?m1)"
    using copy_page_spec [OF assms(1-3) z, of ?p tab src] p n unfolding pp by simp
  have sm: "self_map ?m1 dir" using assms(3) n(2,5) by (simp add: self_map_def)
  have ht: "has_table ?m1 f tab" using p(2) n(1,6) by (simp add: has_table_def)
  have e1: "ld_entry (pte_at d t) ?m1 = Some (tab ! unat t)"
    using ld_pte [OF sm dt p(1)] ht p(3) by simp
  let ?mp = "(memory_map ?m1)[unat src := memory_map m ! unat src - 1]"
  let ?m2 = "?m1\<lparr>memory_map := ?mp\<rparr>"
  have st: "st_entry (pte_at d t) ((tab ! unat t)\<lparr>index := ?K, writable := True\<rparr>) ?m2
      = Some (cow_done ?k src f0 tab0 f tab (unat t) m)"
    using st_pte [OF _ dt p(1), of ?m2 tab] sm ht p(3)
    by (simp add: self_map_def has_table_def cow_done_def Let_def)
  have at: "map_at m src = Some (memory_map m ! unat src)" "map_at ?m1 src = Some (memory_map m ! unat src)"
    "map_set src (memory_map m ! unat src - 1) ?m1 = Some ?m2"
    using v(1) ks by (simp_all add: map_at_def map_set_def)
  let ?m3 = "cow_done ?k src f0 tab0 f tab (unat t) m"
  have ld_new: "has_table ?m3 f (tab[unat t := (tab ! unat t)\<lparr>index := ?K, writable := True\<rparr>])"
    using len by (simp add: has_table_def cow_done_def Let_def)
  have tn: "f = cr3 m \<Longrightarrow> unat t \<noteq> 1023 \<and> unat d = 1023 \<and> tab = dir" using top by (simp add: word_unat_eq_iff)
  have sm3: "self_map ?m3 (if f = cr3 m then tab[unat t := (tab ! unat t)\<lparr>index := ?K, writable := True\<rparr>] else dir)"
    using cow_done_self_map [OF assms(3) n(2,5), of f "unat t" tab src tab0] tn by simp
  have d3: "(if f = cr3 m then tab[unat t := (tab ! unat t)\<lparr>index := ?K, writable := True\<rparr>] else dir) ! unat d
      = dir ! unat d" using tn by (cases "f = cr3 m") (simp_all add: nth_list_update)
  have ld: "ld_entry (pte_at d t) ?m3 = Some ((tab ! unat t)\<lparr>index := ?K, writable := True\<rparr>)"
    using ld_pte [OF sm3 dt] ld_new p(1,3) len dt unfolding d3 by simp
  have "map_at ?m3 ?K = Some 1"
    using ks kl kb by (simp add: map_at_def cow_done_def Let_def unat_of_nat32)
  moreover have "memory_map m ! unat src \<noteq> 1" "0 < memory_map m ! unat src"
    using v(2) by (auto intro: order_less_trans [of 0 1])
  ultimately show ?thesis
    using up e cp e1 at st ld p(5,6) kb by simp
qed

lemma cow_done_map: "memory_map (cow_done k src f0 tab0 f tab t m)
    = (memory_map m)[k := 1, unat src := memory_map m ! unat src - 1]"
  "cr3 (cow_done k src f0 tab0 f tab t m) = cr3 m"
  by (simp_all add: cow_done_def Let_def)

lemma cow_done_wf:
  assumes "mem_wf m" "k \<in> free_set m" "memory_map m ! unat src > 1"
  shows "mem_wf (cow_done k src f0 tab0 f tab t m)"
    "free_set (cow_done k src f0 tab0 f tab t m) = free_set m - {k}"
proof -
  let ?m = "cow_done k src f0 tab0 f tab t m"
  have k: "k < length (memory_map m)" "memory_map m ! k = 0" using assms by (auto simp: free_set_def mem_wf_def)
  have s: "unat src \<noteq> k" using k(2) assms(3) by auto
  have v: "memory_map m ! unat src - 1 \<noteq> 0" "memory_map m ! unat src \<noteq> 0" using assms(3) by auto
  note mp = cow_done_map(1) [of k src f0 tab0 f tab t m]
  have z: "memory_map ?m ! i = 0 \<longleftrightarrow> (memory_map m)[k := 1] ! i = 0" for i
    unfolding mp using v s by (cases "unat src < length (memory_map m)") (auto simp: nth_list_update list_update_beyond)
  have fs: "free_set ?m = free_set (take_page k m)"
    unfolding free_set_def z by (simp add: cow_done_def copied_def Let_def)
  then show "free_set ?m = free_set m - {k}" using take_page_free_set [OF k(1)] by simp
  show "mem_wf ?m" using take_page_wf(1) [OF assms(1,2)] fs unfolding mem_wf_def mp
    by (simp add: cow_done_def copied_def Let_def)
qed

lemma cow_done_frames:
  "frames (cow_done k src f0 tab0 f tab t m) = (frames m)
     (f0 := Table (tab0[0 := (entry_init (of_nat k))\<lparr>present := False\<rparr>]), of_nat k := frames m src,
      f := Table (tab[t := (tab ! t)\<lparr>index := of_nat k, writable := True\<rparr>]))"
  by (simp add: cow_done_def copied_def Let_def)

lemma cow_directory:
  assumes "self_map m dir" "writable (dir ! 1023)" "unat i < 1024"
  shows "copy_on_write (pde_at i) 1 m = Some m"
proof -
  have d: "dir ! unat (DIDX (pde_at i)) = dir ! 1023" using pde_at_DIDX [OF assms(3)] by simp
  have p: "present (dir ! 1023)" using assms(1) by (simp add: self_map_def)
  have "get_entry (pde_at i) False m = Some (pde_at 1023, m)"
    using get_entry_present [OF assms(1), of "pde_at i" False] p unfolding d
    by (simp add: pde_at_DIDX [OF assms(3)] pte_at_1023)
  moreover have "ld_entry (pde_at 1023) m = Some (dir ! 1023)" using ld_pde [OF assms(1), of 1023] by simp
  ultimately show ?thesis using assms(2) by simp
qed

text \<open>C3: A write to a page whose frame and whose page table are both shared after a fork copies the
  table and then the page: the address is then backed by a fresh frame with the old content and is
  writable, both old frames lose one reference, and every other frame keeps its content, the
  shared table and the shared page among them.\<close>

theorem copy_on_write_isolates:
  assumes "mem_wf m" "1 < card (free_set m)" "self_map m dir" "writable (dir ! 1023)"
    and d: "DIDX va \<noteq> 0" "DIDX va \<noteq> 1023"
    and z: "present (dir ! 0)" "has_table m f0 tab0" "f0 = index (dir ! 0)"
    and p: "present (dir ! unat (DIDX va))" "has_table m tf tab" "tf = index (dir ! unat (DIDX va))"
      "\<not> writable (dir ! unat (DIDX va))"
    and e: "present (tab ! unat (TIDX va))" "src = index (tab ! unat (TIDX va))" "\<not> writable (tab ! unat (TIDX va))"
    and n: "distinct [cr3 m, f0, tf, src]" "unat (cr3 m) \<notin> free_set m" "unat f0 \<notin> free_set m"
    and v: "unat tf < length (memory_map m)" "memory_map m ! unat tf > 1"
      "unat src < length (memory_map m)" "memory_map m ! unat src > 1"
  shows "\<exists>j k m'. copy_on_write va 3 m = Some m' \<and> j \<in> free_set m \<and> k \<in> free_set m \<and> j \<noteq> k
    \<and> translate m' va = Some (of_nat k) \<and> frames m' (of_nat k) = frames m src
    \<and> has_table m' (of_nat j) (tab[unat (TIDX va) := (tab ! unat (TIDX va))\<lparr>index := of_nat k, writable := True\<rparr>])
    \<and> memory_map m' = (memory_map m)[j := 1, unat tf := memory_map m ! unat tf - 1, k := 1,
         unat src := memory_map m ! unat src - 1]
    \<and> (\<forall>f. f \<notin> {cr3 m, f0, of_nat j, of_nat k} \<longrightarrow> frames m' f = frames m f)"
proof -
  let ?d = "DIDX va" and ?t = "TIDX va" and ?j = "lowest_free m"
  note dt = DIDX_less [of va] TIDX_less [of va]
  let ?m2 = "cow_done ?j tf f0 tab0 (cr3 m) dir (unat ?d) m"
  let ?k = "lowest_free ?m2"
  have ne: "free_set m \<noteq> {}" using assms(2) by auto
  have j: "?j \<in> free_set m" using lowest_free [OF ne] by blast
  note wf2 = cow_done_wf [OF assms(1) j v(2)]
  have "card (free_set m - {?j}) + 1 = card (free_set m)"
    using card_Suc_Diff1 [OF finite_free_set j] by linarith
  then have "card (free_set m - {?j}) \<noteq> 0" using assms(2) by linarith
  then have ne2: "free_set m - {?j} \<noteq> {}" by (metis card.empty)
  have k: "?k \<in> free_set m - {?j}" using lowest_free [of ?m2] ne2 unfolding wf2(2) by blast
  have ob: "unat (of_nat i :: u32) = i" if "i \<in> free_set m" for i
    using page_bound [OF assms(1) that] by (intro unat_of_nat32) simp
  have nf: "of_nat i \<noteq> cr3 m" "of_nat i \<noteq> f0" if "i \<in> free_set m" for i using ob [OF that] that n(2,3) by auto
  have used: "x \<noteq> (of_nat i :: u32)" if "i \<in> free_set m" "memory_map m ! unat x > 1" for i x
  proof
    assume x: "x = of_nat i"
    have "memory_map m ! i = 0" using that(1) by (simp add: free_set_def)
    then show False using that(2) unfolding x ob [OF that(1)] by simp
  qed
  have t1: "dir = dir" "length dir = 1024" using assms(3) by (simp_all add: self_map_def)
  have d1: "unat ?d \<noteq> 1023" "unat ?d \<noteq> 0" using d by (simp_all add: word_unat_eq_iff)
  have parts: "DIDX (pte_at ?d ?t) = 1023" "TIDX (pte_at ?d ?t) = ?d" using pte_at_DIDX [OF dt] by simp_all
  have top: "dir ! unat (1023 :: u32) = dir ! 1023" "present (dir ! 1023)" "index (dir ! 1023) = cr3 m"
    "has_table m (cr3 m) dir"
    using assms(3) by (simp_all add: self_map_def has_table_def)
  have up: "get_entry (pte_at ?d ?t) False m = Some (pte_at 1023 ?d, m)"
    using get_entry_present [OF assms(3), of "pte_at ?d ?t" False] top(1,2) unfolding parts by simp
  have step2: "copy_on_write (pte_at ?d ?t) (Suc 1) m = Some ?m2"
    by (rule cow_level_copies [OF assms(1) ne assms(3) up _ z, where src = tf and level = 1])
      (use cow_directory [OF assms(3,4) dt(1)] top p parts n(1) nf [OF j] d(2) v(1,2) pte_at_1023 [OF dt(1)] in auto)
  let ?dir = "dir[unat ?d := (dir ! unat ?d)\<lparr>index := of_nat ?j, writable := True\<rparr>]"
  let ?tab0 = "tab0[0 := (entry_init (of_nat ?j))\<lparr>present := False\<rparr>]"
  have jj: "of_nat ?j \<noteq> cr3 m" "of_nat ?j \<noteq> f0" "of_nat ?j \<noteq> tf" "of_nat ?j \<noteq> src"
    using nf [OF j] used [OF j v(2)] used [OF j v(4)] by auto
  have kj: "?k \<in> free_set m" "?k \<noteq> ?j" using k by auto
  have kk: "of_nat ?k \<noteq> cr3 m" "of_nat ?k \<noteq> f0" "(of_nat ?k :: u32) \<noteq> of_nat ?j" "of_nat ?k \<noteq> src"
    using nf [OF kj(1)] used [OF kj(1) v(4)] ob [OF kj(1)] ob [OF j] kj(2) by auto
  have sm2: "self_map ?m2 ?dir"
    using cow_done_self_map [OF assms(3), of f0 ?j "cr3 m" "unat ?d" dir] n(1) nf(1) [OF j] d1(1) by auto
  have fr2: "frames ?m2 = (frames m)(f0 := Table ?tab0, of_nat ?j := frames m tf, cr3 m := Table ?dir)"
    unfolding cow_done_frames ..
  have z2: "present (?dir ! 0)" "has_table ?m2 f0 ?tab0" "f0 = index (?dir ! 0)"
  proof -
    show "present (?dir ! 0)" "f0 = index (?dir ! 0)" using z(1,3) d1(2) by simp_all
    have "length tab0 = 1024" using z(2) by (simp add: has_table_def)
    moreover have "frames ?m2 f0 = Table ?tab0" unfolding fr2 using n(1) jj(2) by auto
    ultimately show "has_table ?m2 f0 ?tab0" by (simp add: has_table_def)
  qed
  have dd: "?dir ! unat ?d = (dir ! unat ?d)\<lparr>index := of_nat ?j, writable := True\<rparr>"
    using t1 dt by simp
  have p2: "present (?dir ! unat ?d)" "has_table ?m2 (of_nat ?j) tab" "of_nat ?j = index (?dir ! unat ?d)"
  proof -
    have "frames ?m2 (of_nat ?j) = frames m tf" unfolding fr2 using jj(1) by auto
    then show "has_table ?m2 (of_nat ?j) tab" using p(2) by (simp add: has_table_def)
    show "present (?dir ! unat ?d)" "of_nat ?j = index (?dir ! unat ?d)" unfolding dd using p(1) by simp_all
  qed
  have v2: "unat src < length (memory_map ?m2)" "memory_map ?m2 ! unat src = memory_map m ! unat src"
  proof -
    have "unat src \<noteq> ?j"
    proof
      assume "unat src = ?j"
      then have "of_nat ?j = src" using ob [OF j] by (simp add: word_unat_eq_iff)
      then show False using jj(4) by blast
    qed
    moreover have "unat src \<noteq> unat tf" using n(1) by (auto simp: word_unat_eq_iff)
    ultimately show "unat src < length (memory_map ?m2)" "memory_map ?m2 ! unat src = memory_map m ! unat src"
      using v(3) unfolding cow_done_map(1) by simp_all
  qed
  let ?m3 = "cow_done ?k src f0 ?tab0 (of_nat ?j) tab (unat ?t) ?m2"
  have up3: "get_entry va False m = Some (pte_at ?d ?t, m)"
    by (rule get_entry_present [OF assms(3) p(1)])
  have step3: "copy_on_write va (Suc (Suc 1)) m = Some ?m3"
    by (rule cow_level_copies [OF wf2(1) _ sm2 up3 step2 z2 p2 e refl refl])
      (use ne2 n(1) jj kk v2 v(4) in \<open>auto simp: wf2(2) cow_done_map(2)\<close>)
  have fr3: "frames ?m3 = (frames ?m2)(f0 := Table (?tab0[0 := (entry_init (of_nat ?k))\<lparr>present := False\<rparr>]),
      of_nat ?k := frames ?m2 src,
      of_nat ?j := Table (tab[unat ?t := (tab ! unat ?t)\<lparr>index := of_nat ?k, writable := True\<rparr>]))"
    unfolding cow_done_frames ..
  have len: "length tab = 1024" using p(2) by (simp add: has_table_def)
  have j3: "has_table ?m3 (of_nat ?j) (tab[unat ?t := (tab ! unat ?t)\<lparr>index := of_nat ?k, writable := True\<rparr>])"
    using len by (simp add: has_table_def fr3)
  have sm3: "self_map ?m3 ?dir"
  proof -
    have "frames ?m3 (cr3 m) = frames ?m2 (cr3 m)" unfolding fr3 using n(1) jj(1) kk(1) by auto
    then show ?thesis using sm2 by (simp add: self_map_def cow_done_map(2))
  qed
  have tr3: "translate ?m3 va = Some (of_nat ?k)"
    using translate_va [OF sm3 p2(1), of "tab[unat ?t := (tab ! unat ?t)\<lparr>index := of_nat ?k, writable := True\<rparr>]"] j3 e(1) len dt
    unfolding dd by simp
  have mp3: "memory_map ?m3 = (memory_map m)[?j := 1, unat tf := memory_map m ! unat tf - 1, ?k := 1,
       unat src := memory_map m ! unat src - 1]"
    unfolding cow_done_map(1) [of ?k] v2(2) unfolding cow_done_map(1) ..
  have src3: "frames ?m3 (of_nat ?k) = frames m src" using n(1) jj kk by (auto simp: fr3 fr2)
  have rest: "frames ?m3 f = frames m f" if "f \<notin> {cr3 m, f0, of_nat ?j, of_nat ?k}" for f
    using that by (simp add: fr3 fr2)
  have three: "Suc (Suc 1) = (3 :: nat)" by simp
  show ?thesis
    by (rule exI [of _ ?j], rule exI [of _ ?k], rule exI [of _ ?m3])
      (intro conjI allI impI step3 [unfolded three] j kj(1) kj(2) [symmetric] tr3 src3 j3 mp3 rest)
qed


definition forked_dir :: "page_entry list" where
  "forked_dir = (replicate 1024 zero_entry)
     [0 := entry_init 1, 4 := (entry_init 2)\<lparr>writable := False\<rparr>, 1023 := entry_init 0]"

definition forked_table :: "page_entry list" where
  "forked_table = (replicate 1024 zero_entry)[0 := (entry_init 3)\<lparr>writable := False\<rparr>]"

definition forked_mm :: mm where
  "forked_mm = sample_mm\<lparr>total_pages := 6, memory_map := [1, 1, 2, 2, 0, 0],
     frames := (\<lambda>f. if f = 0 then Table forked_dir else if f = 1 then Table (replicate 1024 zero_entry)
       else if f = 2 then Table forked_table else Data [42])\<rparr>"

lemma forked_wf: "mem_wf forked_mm" "free_set forked_mm = {4, 5}"
proof -
  have "i < 6 \<Longrightarrow> 1 \<le> i \<Longrightarrow> i = 1 \<or> i = 2 \<or> i = 3 \<or> i = 4 \<or> i = 5" for i :: nat by arith
  then show fs: "free_set forked_mm = {4, 5}"
    by (force simp: free_set_def forked_mm_def sample_mm_def)
  show "mem_wf forked_mm" unfolding mem_wf_def fs by (simp add: forked_mm_def sample_mm_def)
qed

lemma forked_entries:
  "forked_dir ! 0 = entry_init 1" "forked_dir ! 4 = (entry_init 2)\<lparr>writable := False\<rparr>"
  "forked_dir ! 1023 = entry_init 0" "forked_table ! 0 = (entry_init 3)\<lparr>writable := False\<rparr>"
  "length forked_dir = 1024" "length forked_table = 1024"
  by (simp_all add: forked_dir_def forked_table_def)

lemma forked_tables:
  "self_map forked_mm forked_dir" "has_table forked_mm 1 (replicate 1024 zero_entry)"
  "has_table forked_mm 2 forked_table" "cr3 forked_mm = 0" "frames forked_mm 3 = Data [42]"
  "memory_map forked_mm = [1, 1, 2, 2, 0, 0]"
  by (simp_all add: self_map_def has_table_def forked_mm_def sample_mm_def forked_entries entry_init_def)

theorem copy_on_write_isolates_witness:
  "\<exists>j k m'. copy_on_write 0x1000000 3 forked_mm = Some m' \<and> j \<noteq> k
    \<and> translate m' 0x1000000 = Some (of_nat k) \<and> frames m' (of_nat k) = Data [42]"
proof -
  have i: "DIDX 0x1000000 = 4" "TIDX 0x1000000 = 0"
    by (simp_all add: word_unat_eq_iff unat_DIDX unat_TIDX)
  have u: "unat (4 :: u32) = 4" "unat (0 :: u32) = 0" by simp_all
  have "1 < card (free_set forked_mm)" unfolding forked_wf(2) by simp
  from copy_on_write_isolates [OF forked_wf(1) this forked_tables(1), of "0x1000000" 1 "replicate 1024 zero_entry" 2
      forked_table 3]
  show ?thesis using forked_tables
    unfolding i u forked_entries forked_wf(2) by (auto simp: entry_init_def)
qed

subsection \<open>A table shared with a child\<close>

text \<open>C36: After a fork parent and child share their page tables until one of them writes. When a
  page that is not there yet is linked under a shared table, the new page appears in the other
  task's address space as well, at the same address and writable.\<close>

theorem link_page_in_shared_table:
  assumes "mem_wf m" "free_set m \<noteq> {}" "self_map m dir" "unat va mod 4096 = 0"
    and "present (dir ! unat (DIDX va))" "index (dir ! unat (DIDX va)) \<noteq> cr3 m"
    and "has_table m (index (dir ! unat (DIDX va))) tab" "\<not> present (tab ! unat (TIDX va))"
    and "self_map (m\<lparr>cr3 := c\<rparr>) cdir" "cdir ! unat (DIDX va) = dir ! unat (DIDX va)"
    and "c \<noteq> index (dir ! unat (DIDX va))"
  shows "\<exists>k m'. link_page va m = Some m' \<and> k \<in> free_set m \<and> memory_map m' = (memory_map m)[k := 1]
    \<and> translate (m\<lparr>cr3 := c\<rparr>) va = None
    \<and> translate m' va = Some (of_nat k) \<and> translate (m'\<lparr>cr3 := c\<rparr>) va = Some (of_nat k)"
proof -
  let ?d = "DIDX va" and ?t = "TIDX va" and ?k = "lowest_free m"
  let ?f = "index (dir ! unat ?d)" and ?tab = "tab[unat ?t := entry_init (of_nat ?k)]"
  let ?m' = "(take_page ?k m)\<lparr>frames := (frames m)(?f := Table ?tab)\<rparr>"
  have k: "?k \<in> free_set m" using lowest_free [OF assms(2)] by blast
  have len: "length tab = 1024" using assms(7) by (simp add: has_table_def)
  note link = link_page_new [OF assms(1-5,7,8)]
  have old: "translate (m\<lparr>cr3 := c\<rparr>) va = None"
    using translate_va [OF assms(9), of va tab] assms(5,7,8,10) by (simp add: has_table_def)
  have ht: "has_table ?m' ?f ?tab" "has_table (?m'\<lparr>cr3 := c\<rparr>) ?f ?tab"
    using len by (simp_all add: has_table_def)
  have "self_map ?m' dir" "self_map (?m'\<lparr>cr3 := c\<rparr>) cdir"
    using assms(3,6,9,11) by (simp_all add: self_map_def)
  then have "translate ?m' va = Some (of_nat ?k)" "translate (?m'\<lparr>cr3 := c\<rparr>) va = Some (of_nat ?k)"
    using translate_va [of ?m' dir va] translate_va [of "?m'\<lparr>cr3 := c\<rparr>" cdir va] ht assms(5,10) len TIDX_less [of va]
    by (simp_all add: entry_init_def)
  moreover have "memory_map ?m' = (memory_map m)[?k := 1]" by simp
  ultimately show ?thesis using link k old by blast
qed

theorem link_page_in_shared_table_witness:
  "\<exists>k m'. link_page 0 sample_mm = Some m' \<and> translate (sample_mm\<lparr>cr3 := 7\<rparr>) 0 = None
    \<and> translate m' 0 = Some (of_nat k) \<and> translate (m'\<lparr>cr3 := 7\<rparr>) 0 = Some (of_nat k)"
proof -
  have "self_map (sample_mm\<lparr>cr3 := 7\<rparr>) ((replicate 1024 zero_entry)[0 := entry_init 1, 1023 := entry_init 7])"
    by (simp add: self_map_def sample_mm_def entry_init_def)
  then show ?thesis
    using link_page_in_shared_table [OF sample_wf _ sample_tables(1), of 0 "replicate 1024 zero_entry" 7
        "(replicate 1024 zero_entry)[0 := entry_init 1, 1023 := entry_init 7]"] sample_tables(2) sample_present
    unfolding sample_free zero_address unsigned_0 sample_entries sample_tables(3) by auto
qed

end
