(* ===== verification/Task.thy ===== *)
theory Task
  imports DList Stdlib
begin

section \<open>Tasks, the scheduler and timers: \<open>kernel/task.c\<close>, \<open>kernel/timer.c\<close>, \<open>kernel/clock.c\<close>\<close>

text \<open>
  A task is the record of the fields of \<open>task_t\<close> that the files modelled here read or write; it
  is named by its slot of \<open>task_table\<close>. The lists a task waits on are Isabelle lists of slots:
  \<open>list_push\<close> puts a node in front and \<open>list_remove\<close> takes it out, as \<open>DList\<close> shows of the C
  functions; \<open>node\<close> says which of them \<open>task->node\<close> is linked in. Timers are blocks of the
  kernel heap, found by their address in \<open>timer_at\<close>; a block that has been released is no longer
  there, so that using it has no result. \<open>timer_list\<close> is the list of their addresses.
  A switch of tasks is the change of \<open>running\<close>: what a C function does after \<open>schedule\<close> returns
  is a step of its own, taken when the task runs again.
\<close>

subsection \<open>Data\<close>

datatype task_state = TASK_INIT | TASK_RUNNING | TASK_READY | TASK_BLOCKED | TASK_SLEEPING
  | TASK_WAITING | TASK_DIED

record sigaction =
  sa_handler :: u32
  sa_mask :: u32
  sa_flags :: u32
  sa_restorer :: u32

record task =
  page :: u32
  node :: "nat option"
  state :: task_state
  priority :: u32
  ticks :: u32
  last_jiffies :: u32
  uid :: u32
  pid :: nat
  ppid :: nat
  pgid :: int
  sid :: nat
  tty :: int
  status :: int
  waitpid :: int
  pde :: u32
  vmap :: u32
  vmap_bits :: u32
  fpu :: u32
  fpu_flags :: u32
  pwd :: u32
  ipwd :: nat
  iroot :: nat
  iexec :: "nat option"
  umask :: "16 word"
  files :: "nat option list"
  sigs :: u32
  blocked :: u32
  alarm :: "nat option"
  timeout :: "nat option"
  actions :: "sigaction list"

datatype handler = Default | Task_alarm | Handler nat

record timer =
  t_task :: nat
  expires :: u32
  handler :: handler
  active :: bool

record 'r ks =
  task_table :: "task option list"
  running :: nat
  idle_task :: nat
  intr :: bool
  waiters :: "nat \<Rightarrow> nat list"
  timer_at :: "nat \<rightharpoonup> timer"
  timer_list :: "nat list"
  heap_next :: nat
  jiffies :: u32
  rest :: 'r

definition TASK_NR :: nat where [c_defs]: "TASK_NR = 64"
definition KERNEL_USER :: u32 where [c_defs]: "KERNEL_USER = 0"
definition JIFFY :: u32 where [c_defs]: "JIFFY = 10"
definition TIMELESS :: int where [c_defs]: "TIMELESS = -1"

text \<open>\<open>block_list\<close> and \<open>sleep_list\<close> are two of the lists.\<close>

definition block_list :: nat where [c_defs]: "block_list = 0"
definition sleep_list :: nat where [c_defs]: "sleep_list = 1"

definition task_of :: "nat \<Rightarrow> 'r ks \<Rightarrow> task option" where
  "task_of i s = do { e \<leftarrow> rd (task_table s) i; e }"

definition set_task :: "nat \<Rightarrow> task \<Rightarrow> 'r ks \<Rightarrow> 'r ks option" where
  "set_task i t s = do { tb \<leftarrow> wr (task_table s) i (Some t); Some (s\<lparr>task_table := tb\<rparr>) }"

definition upd_task :: "nat \<Rightarrow> (task \<Rightarrow> task) \<Rightarrow> 'r ks \<Rightarrow> 'r ks option" where
  "upd_task i f s = do { t \<leftarrow> task_of i s; set_task i (f t) s }"

subsection \<open>Finding tasks\<close>

definition find_pid :: "int \<Rightarrow> nat \<Rightarrow> 'r ks \<Rightarrow> bool" where
  "find_pid p i s = (case task_of i s of None \<Rightarrow> False | Some t \<Rightarrow> int (pid t) = p)"

definition get_task :: "int \<Rightarrow> 'r ks \<Rightarrow> nat option" where
  "get_task p s = List.find (\<lambda>i. find_pid p i s) [0..<TASK_NR]"

definition sys_getpid :: "'r ks \<Rightarrow> nat option" where
  "sys_getpid s = map_option pid (task_of (running s) s)"

definition sys_getppid :: "'r ks \<Rightarrow> nat option" where
  "sys_getppid s = map_option ppid (task_of (running s) s)"

definition task_get_fd :: "task \<Rightarrow> nat option" where
  "task_get_fd t = List.find (\<lambda>i. files t ! i = None) [3..<16]"

definition task_put_fd :: "task \<Rightarrow> nat \<Rightarrow> task option" where
  "task_put_fd t fd = do { c_assert (fd < 16); Some (t\<lparr>files := (files t)[fd := None]\<rparr>) }"

definition task_leader :: "task \<Rightarrow> bool" where
  "task_leader t \<longleftrightarrow> sid t = pid t"

definition preferred :: "task \<Rightarrow> task \<Rightarrow> bool" where
  "preferred t p \<longleftrightarrow> sint (ticks t) < sint (ticks p) \<or> last_jiffies p < last_jiffies t"

definition search_visit :: "task_state \<Rightarrow> 'r ks \<Rightarrow> (nat \<times> task) option \<Rightarrow> nat \<Rightarrow> (nat \<times> task) option" where
  "search_visit st s best i = (case task_of i s of
       None \<Rightarrow> best
     | Some p \<Rightarrow>
         if state p \<noteq> st then best
         else if running s = i then best
         else (case best of None \<Rightarrow> Some (i, p)
               | Some (j, t) \<Rightarrow> if preferred t p then Some (i, p) else best))"

definition task_search :: "task_state \<Rightarrow> 'r ks \<Rightarrow> nat option option" where
  "task_search st s = do {
     c_assert (\<not> intr s);
     Some (case foldl (search_visit st s) None [0..<TASK_NR] of
         Some (i, _) \<Rightarrow> Some i
       | None \<Rightarrow> if st = TASK_READY then Some (idle_task s) else None) }"

definition schedule :: "'r ks \<Rightarrow> 'r ks option" where
  "schedule s = do {
     c_assert (\<not> intr s);
     next \<leftarrow> task_search TASK_READY s;
     next \<leftarrow> next;
     t \<leftarrow> task_of (running s) s;
     s \<leftarrow> (if state t = TASK_RUNNING then upd_task (running s) (\<lambda>t. t\<lparr>state := TASK_READY\<rparr>) s else Some s);
     s \<leftarrow> upd_task next (\<lambda>t. t\<lparr>state := TASK_RUNNING\<rparr>) s;
     Some (s\<lparr>running := next\<rparr>) }"

definition task_yield :: "'r ks \<Rightarrow> 'r ks option" where
  "task_yield s = schedule s"

subsection \<open>Timers\<close>

definition timer_put :: "nat \<Rightarrow> 'r ks \<Rightarrow> 'r ks option" where
  "timer_put a s = do {
     timer_at s a;
     c_assert (a \<in> set (timer_list s));
     Some (s\<lparr>timer_list := remove1 a (timer_list s), timer_at := (timer_at s)(a := None)\<rparr>) }"

text \<open>The list is sorted by the expiry read as a signed number, as \<open>list_insert_sort\<close> does.\<close>

definition timer_key :: "'r ks \<Rightarrow> nat \<Rightarrow> int" where
  "timer_key s a = (case timer_at s a of Some t \<Rightarrow> sint (expires t) | None \<Rightarrow> 0)"

definition timer_link :: "nat \<Rightarrow> 'r ks \<Rightarrow> 'r ks" where
  "timer_link a s = s\<lparr>timer_list := seq_insert_sort (timer_key s) a (timer_list s)\<rparr>"

definition timer_add :: "u32 \<Rightarrow> handler \<Rightarrow> 'r ks \<Rightarrow> nat \<times> 'r ks" where
  "timer_add expire_ms h s =
     (let a = heap_next s;
          t = \<lparr>t_task = running s, expires = jiffies s + expire_ms div JIFFY, handler = h, active = False\<rparr>;
          s = s\<lparr>heap_next := a + 1, timer_at := (timer_at s)(a \<mapsto> t)\<rparr>
      in (a, timer_link a s))"

definition timer_update :: "nat \<Rightarrow> u32 \<Rightarrow> 'r ks \<Rightarrow> 'r ks option" where
  "timer_update a expire_ms s = do {
     t \<leftarrow> timer_at s a;
     c_assert (a \<in> set (timer_list s));
     let s = s\<lparr>timer_list := remove1 a (timer_list s)\<rparr>;
     let s = s\<lparr>timer_at := (timer_at s)(a \<mapsto> t\<lparr>expires := jiffies s + expire_ms div JIFFY\<rparr>)\<rparr>;
     Some (timer_link a s) }"

definition timer_expires :: "'r ks \<Rightarrow> u32 option" where
  "timer_expires s = (case timer_list s of [] \<Rightarrow> Some EOF32 | a # _ \<Rightarrow> map_option expires (timer_at s a))"

definition timer_expire_jiffies :: "u32 \<Rightarrow> 'r ks \<Rightarrow> u32" where
  "timer_expire_jiffies expire_ms s = jiffies s + expire_ms div JIFFY"

definition timer_is_expires :: "u32 \<Rightarrow> 'r ks \<Rightarrow> bool" where
  "timer_is_expires e s \<longleftrightarrow> jiffies s > e"

definition remove_visit :: "nat \<Rightarrow> nat \<Rightarrow> 'r ks \<Rightarrow> 'r ks option" where
  "remove_visit task a s = do {
     t \<leftarrow> timer_at s a;
     if t_task t \<noteq> task then Some s else timer_put a s }"

definition timer_remove :: "nat \<Rightarrow> 'r ks \<Rightarrow> 'r ks option" where
  "timer_remove task s = foldM (remove_visit task) (timer_list s) s"

subsection \<open>Blocking and waking\<close>

text \<open>\<open>list_push\<close> and \<open>list_remove\<close> of a task's node.\<close>

definition push_node :: "nat \<Rightarrow> nat \<Rightarrow> 'r ks \<Rightarrow> 'r ks option" where
  "push_node l i s = do {
     c_assert (i \<notin> set (waiters s l));
     upd_task i (\<lambda>t. t\<lparr>node := Some l\<rparr>) (s\<lparr>waiters := (waiters s)(l := i # waiters s l)\<rparr>) }"

definition remove_node :: "nat \<Rightarrow> 'r ks \<Rightarrow> 'r ks option" where
  "remove_node i s = do {
     t \<leftarrow> task_of i s;
     l \<leftarrow> node t;
     upd_task i (\<lambda>t. t\<lparr>node := None\<rparr>) (s\<lparr>waiters := (waiters s)(l := remove1 i (waiters s l))\<rparr>) }"

definition task_block :: "nat \<Rightarrow> nat \<Rightarrow> task_state \<Rightarrow> int \<Rightarrow> 'r ks \<Rightarrow> 'r ks option" where
  "task_block i blist st timeout_ms s = do {
     c_assert (\<not> intr s);
     t \<leftarrow> task_of i s;
     c_assert (node t = None);
     c_assert (st \<noteq> TASK_READY \<and> st \<noteq> TASK_RUNNING);
     s \<leftarrow> push_node blist i s;
     s \<leftarrow> (if timeout_ms > 0 then do {
         c_assert (timeout t = None);
         let (a, s) = timer_add (word_of_int timeout_ms) Default s;
         upd_task i (\<lambda>t. t\<lparr>timeout := Some a\<rparr>) s }
       else Some s);
     s \<leftarrow> upd_task i (\<lambda>t. t\<lparr>state := st\<rparr>) s;
     if running s = i then schedule s else Some s }"

definition drop_timeout :: "nat \<Rightarrow> 'r ks \<Rightarrow> 'r ks option" where
  "drop_timeout i s = do {
     t \<leftarrow> task_of i s;
     case timeout t of
       None \<Rightarrow> Some s
     | Some a \<Rightarrow> do {
         tm \<leftarrow> timer_at s a;
         s \<leftarrow> (if \<not> active tm then timer_put a s else Some s);
         upd_task i (\<lambda>t. t\<lparr>timeout := None\<rparr>) s } }"

definition task_unblock :: "nat \<Rightarrow> int \<Rightarrow> 'r ks \<Rightarrow> 'r ks option" where
  "task_unblock i reason s = do {
     c_assert (\<not> intr s);
     t \<leftarrow> task_of i s;
     s \<leftarrow> (if node t \<noteq> None then remove_node i s else Some s);
     s \<leftarrow> drop_timeout i s;
     t \<leftarrow> task_of i s;
     c_assert (node t = None);
     c_assert (state t \<noteq> TASK_RUNNING);
     upd_task i (\<lambda>t. t\<lparr>status := reason, state := TASK_READY\<rparr>) s }"

definition task_sleep :: "u32 \<Rightarrow> 'r ks \<Rightarrow> 'r ks option" where
  "task_sleep ms s = do {
     c_assert (\<not> intr s);
     task_block (running s) sleep_list TASK_SLEEPING (sint ms) s }"

subsection \<open>Signals that wake\<close>

definition MINSIG :: int where [c_defs]: "MINSIG = 1"
definition MAXSIG :: int where [c_defs]: "MAXSIG = 31"
definition SIGHUP :: int where [c_defs]: "SIGHUP = 1"
definition SIGKILL :: int where [c_defs]: "SIGKILL = 9"
definition SIGALRM :: int where [c_defs]: "SIGALRM = 14"
definition SIGCHLD :: int where [c_defs]: "SIGCHLD = 17"
definition SIGMASK :: "int \<Rightarrow> u32" where "SIGMASK sig = push_bit (nat (sig - 1)) 1"

definition sys_kill :: "int \<Rightarrow> int \<Rightarrow> 'r ks \<Rightarrow> (int \<times> 'r ks) option" where
  "sys_kill p sig s =
     (if sig < MINSIG \<or> sig > MAXSIG then Some (EOF, s)
      else case get_task p s of
        None \<Rightarrow> Some (EOF, s)
      | Some i \<Rightarrow> do {
          t \<leftarrow> task_of i s;
          if uid t = KERNEL_USER then Some (EOF, s)
          else if pid t = 1 then Some (EOF, s)
          else do {
            s \<leftarrow> upd_task i (\<lambda>t. t\<lparr>sigs := sigs t OR SIGMASK sig\<rparr>) s;
            s \<leftarrow> (if state t = TASK_WAITING \<or> state t = TASK_SLEEPING
                 then task_unblock i (neg_errno EINTR) s else Some s);
            Some (0, s) } })"

text \<open>\<open>kernel/alarm.c\<close>; the return value of \<open>sys_alarm\<close> is not set.\<close>

definition task_alarm :: "nat \<Rightarrow> 'r ks \<Rightarrow> 'r ks option" where
  "task_alarm a s = do {
     tm \<leftarrow> timer_at s a;
     s \<leftarrow> upd_task (t_task tm) (\<lambda>t. t\<lparr>alarm := None\<rparr>) s;
     t \<leftarrow> task_of (t_task tm) s;
     (_, s) \<leftarrow> sys_kill (int (pid t)) SIGALRM s;
     Some s }"

definition sys_alarm :: "u32 \<Rightarrow> 'r ks \<Rightarrow> 'r ks option" where
  "sys_alarm sec s = do {
     t \<leftarrow> task_of (running s) s;
     s \<leftarrow> (case alarm t of Some a \<Rightarrow> timer_put a s | None \<Rightarrow> Some s);
     let (a, s) = timer_add (sec * 1000) Task_alarm s;
     upd_task (running s) (\<lambda>t. t\<lparr>alarm := Some a\<rparr>) s }"

subsection \<open>The clock\<close>

definition default_timeout :: "nat \<Rightarrow> 'r ks \<Rightarrow> 'r ks option" where
  "default_timeout a s = do { tm \<leftarrow> timer_at s a; task_unblock (t_task tm) (neg_errno ETIME) s }"

text \<open>Other drivers' handlers are the parameter \<open>run\<close>.\<close>

definition fire :: "(nat \<Rightarrow> nat \<Rightarrow> 'r ks \<Rightarrow> 'r ks option) \<Rightarrow> nat \<Rightarrow> 'r ks \<Rightarrow> 'r ks option" where
  "fire run a s = do {
     tm \<leftarrow> timer_at s a;
     let s = s\<lparr>timer_at := (timer_at s)(a \<mapsto> tm\<lparr>active := True\<rparr>)\<rparr>;
     c_assert (expires tm \<le> jiffies s);
     s \<leftarrow> (case handler tm of
         Default \<Rightarrow> default_timeout a s
       | Task_alarm \<Rightarrow> task_alarm a s
       | Handler h \<Rightarrow> run h a s);
     timer_put a s }"

partial_function (option) timer_wakeup :: "(nat \<Rightarrow> nat \<Rightarrow> 'r ks \<Rightarrow> 'r ks option) \<Rightarrow> 'r ks \<Rightarrow> 'r ks option" where
  "timer_wakeup run s = do {
     e \<leftarrow> timer_expires s;
     if e \<le> jiffies s then
       (case timer_list s of
          [] \<Rightarrow> None
        | a # _ \<Rightarrow> do { s \<leftarrow> fire run a s; timer_wakeup run s })
     else Some s }"

definition clock_handler :: "(nat \<Rightarrow> nat \<Rightarrow> 'r ks \<Rightarrow> 'r ks option) \<Rightarrow> 'r ks \<Rightarrow> 'r ks option" where
  "clock_handler run s = do {
     s \<leftarrow> timer_wakeup run (s\<lparr>jiffies := jiffies s + 1\<rparr>);
     s \<leftarrow> upd_task (running s) (\<lambda>t. t\<lparr>last_jiffies := jiffies s, ticks := ticks t - 1\<rparr>) s;
     t \<leftarrow> task_of (running s) s;
     if ticks t = 0 then do {
       s \<leftarrow> upd_task (running s) (\<lambda>t. t\<lparr>ticks := priority t\<rparr>) s;
       schedule s }
     else Some s }"

subsection \<open>The task table\<close>

definition put :: "nat \<Rightarrow> task \<Rightarrow> 'r ks \<Rightarrow> 'r ks" where
  "put i t s = s\<lparr>task_table := (task_table s)[i := Some t]\<rparr>"

lemma put_simps [simp]:
  "running (put i t s) = running s" "idle_task (put i t s) = idle_task s" "intr (put i t s) = intr s"
  "waiters (put i t s) = waiters s" "timer_at (put i t s) = timer_at s" "timer_list (put i t s) = timer_list s"
  "heap_next (put i t s) = heap_next s" "jiffies (put i t s) = jiffies s" "rest (put i t s) = rest s"
  "length (task_table (put i t s)) = length (task_table s)"
  by (simp_all add: put_def)

lemma task_of_less: "task_of i s = Some t \<Longrightarrow> i < length (task_table s)"
  by (simp add: task_of_def rd_def split: if_splits)

lemma upd_task_Some [simp]: "task_of i s = Some t \<Longrightarrow> upd_task i f s = Some (put i (f t) s)"
  using task_of_less [of i s t] by (simp add: upd_task_def set_task_def put_def)

lemma task_of_put:
  "i < length (task_table s) \<Longrightarrow> task_of j (put i t s) = (if j = i then Some t else task_of j s)"
  by (simp add: task_of_def put_def rd_def nth_list_update)

lemma task_of_put_Some [simp]:
  "task_of i s = Some u \<Longrightarrow> task_of j (put i t s) = (if j = i then Some t else task_of j s)"
  using task_of_less [of i s u] by (simp add: task_of_put)

lemma task_of_cong [simp]:
  "task_of i (s\<lparr>running := r\<rparr>) = task_of i s" "task_of i (s\<lparr>waiters := w\<rparr>) = task_of i s"
  "task_of i (s\<lparr>timer_at := ta\<rparr>) = task_of i s" "task_of i (s\<lparr>timer_list := ts\<rparr>) = task_of i s"
  "task_of i (s\<lparr>heap_next := h\<rparr>) = task_of i s" "task_of i (s\<lparr>jiffies := j\<rparr>) = task_of i s"
  "task_of i (s\<lparr>rest := x\<rparr>) = task_of i s"
  by (simp_all add: task_of_def)

subsection \<open>The scheduler\<close>

definition runnable :: "'r ks \<Rightarrow> nat set" where
  "runnable s = {i. i \<noteq> running s \<and> i < TASK_NR \<and> (\<exists>t. task_of i s = Some t \<and> state t = TASK_READY)}"

definition wait_state :: "task_state \<Rightarrow> bool" where
  "wait_state st \<longleftrightarrow> st = TASK_BLOCKED \<or> st = TASK_SLEEPING \<or> st = TASK_WAITING"

text \<open>At a switch, the current task may already be marked as waiting or dead; otherwise it is the
  one task marked as running.\<close>

definition switch_inv :: "'r ks \<Rightarrow> bool" where
  "switch_inv s \<longleftrightarrow> length (task_table s) = TASK_NR \<and> \<not> intr s
     \<and> task_of (running s) s \<noteq> None
     \<and> (\<forall>i t. task_of i s = Some t \<and> state t = TASK_RUNNING \<longrightarrow> i = running s)
     \<and> (\<exists>t. task_of (idle_task s) s = Some t \<and> (state t = TASK_READY \<or> idle_task s = running s \<and> state t = TASK_RUNNING))
     \<and> (\<forall>l. distinct (waiters s l))
     \<and> (\<forall>l. \<forall>i\<in>set (waiters s l). \<exists>t. task_of i s = Some t \<and> node t = Some l)
     \<and> (\<forall>i t l. task_of i s = Some t \<and> node t = Some l \<longrightarrow> i \<in> set (waiters s l) \<and> wait_state (state t))"

lemma waiters_node: "switch_inv s \<Longrightarrow> j \<in> set (waiters s l) \<Longrightarrow> \<exists>u. task_of j s = Some u \<and> node u = Some l"
  by (simp add: switch_inv_def)

lemma node_waits:
  "switch_inv s \<Longrightarrow> task_of i s = Some t \<Longrightarrow> node t = Some l \<Longrightarrow> i \<in> set (waiters s l) \<and> wait_state (state t)"
  by (simp add: switch_inv_def)

lemma one_running: "switch_inv s \<Longrightarrow> task_of i s = Some t \<Longrightarrow> state t = TASK_RUNNING \<Longrightarrow> i = running s"
  by (simp add: switch_inv_def)

lemma idle_ready:
  "switch_inv s \<Longrightarrow> \<exists>t. task_of (idle_task s) s = Some t
     \<and> (state t = TASK_READY \<or> idle_task s = running s \<and> state t = TASK_RUNNING)"
  by (simp add: switch_inv_def)

lemma switch_inv_cong:
  "task_table s' = task_table s \<Longrightarrow> running s' = running s \<Longrightarrow> idle_task s' = idle_task s \<Longrightarrow> intr s' = intr s
   \<Longrightarrow> waiters s' = waiters s \<Longrightarrow> switch_inv s' = switch_inv s"
  by (simp only: switch_inv_def task_of_def)

definition sched_inv :: "'r ks \<Rightarrow> bool" where
  "sched_inv s \<longleftrightarrow> switch_inv s \<and> (\<exists>t. task_of (running s) s = Some t \<and> state t = TASK_RUNNING)"

lemma search_visit_cases:
  "search_visit st s best i = best
   \<or> (\<exists>p. search_visit st s best i = Some (i, p) \<and> task_of i s = Some p \<and> state p = st \<and> running s \<noteq> i)"
  by (cases best) (auto simp: search_visit_def split: option.splits)

lemma search_visit_None:
  "search_visit st s None i = None \<longleftrightarrow> \<not> (\<exists>p. task_of i s = Some p \<and> state p = st \<and> running s \<noteq> i)"
  by (auto simp: search_visit_def split: option.splits)

lemma search_visit_Some: "search_visit st s (Some b) i \<noteq> None"
  by (cases b) (auto simp: search_visit_def split: option.splits)

lemma search_foldl_Some: "foldl (search_visit st s) (Some b) xs \<noteq> None"
proof (induction xs arbitrary: b)
  case (Cons x xs)
  show ?case using search_visit_Some [of st s b x] Cons by auto
qed simp

lemma search_foldl_None:
  "foldl (search_visit st s) None xs = None
   \<longleftrightarrow> \<not> (\<exists>i\<in>set xs. \<exists>p. task_of i s = Some p \<and> state p = st \<and> running s \<noteq> i)"
proof (induction xs)
  case (Cons x xs)
  show ?case
  proof (cases "search_visit st s None x")
    case None
    then show ?thesis using Cons search_visit_None [of st s x] by auto
  next
    case (Some b)
    then have "\<exists>p. task_of x s = Some p \<and> state p = st \<and> running s \<noteq> x"
      using search_visit_None [of st s x] by auto
    then show ?thesis using search_foldl_Some [of st s b xs] Some by auto
  qed
qed simp

lemma search_foldl_found:
  "foldl (search_visit st s) best xs = Some (i, p)
   \<Longrightarrow> best = Some (i, p) \<or> i \<in> set xs \<and> task_of i s = Some p \<and> state p = st \<and> running s \<noteq> i"
proof (induction xs arbitrary: best)
  case (Cons x xs)
  from Cons.IH [of "search_visit st s best x"] Cons.prems show ?case
    using search_visit_cases [of st s best x] by auto
qed simp

lemma task_search_ready:
  assumes "\<not> intr s"
  shows "\<exists>i. task_search TASK_READY s = Some (Some i) \<and>
    (if runnable s = {} then i = idle_task s else i \<in> runnable s)"
proof (cases "foldl (search_visit TASK_READY s) None [0..<TASK_NR]")
  case None
  then have "runnable s = {}" unfolding search_foldl_None by (auto simp: runnable_def)
  then show ?thesis using None assms by (simp add: task_search_def)
next
  case (Some b)
  obtain i p where b: "b = (i, p)" by (cases b)
  have "i \<in> runnable s" using search_foldl_found [OF Some [unfolded b]] by (auto simp: runnable_def)
  then show ?thesis using Some b assms by (auto simp: task_search_def)
qed

definition preempted :: "task \<Rightarrow> task" where
  "preempted t = (if state t = TASK_RUNNING then t\<lparr>state := TASK_READY\<rparr> else t)"

lemma preempted_simps [simp]:
  "node (preempted t) = node t" "state (preempted t) \<noteq> TASK_RUNNING"
  "state (preempted t) = TASK_READY \<longleftrightarrow> state t = TASK_READY \<or> state t = TASK_RUNNING"
  "wait_state (state (preempted t)) = wait_state (state t)"
  by (auto simp: preempted_def wait_state_def)

definition switched :: "nat \<Rightarrow> 'r ks \<Rightarrow> 'r ks \<Rightarrow> bool" where
  "switched i s s' \<longleftrightarrow> running s' = i \<and> idle_task s' = idle_task s \<and> intr s' = intr s \<and> waiters s' = waiters s
     \<and> timer_at s' = timer_at s \<and> timer_list s' = timer_list s \<and> jiffies s' = jiffies s \<and> rest s' = rest s
     \<and> length (task_table s') = length (task_table s)
     \<and> (\<forall>j. task_of j s' = (if j = i then map_option (state_update (\<lambda>_. TASK_RUNNING)) (task_of i s)
          else if j = running s then map_option preempted (task_of j s) else task_of j s))"

lemma schedule_switched:
  assumes "\<not> intr s" "task_of (running s) s = Some c" "task_search TASK_READY s = Some (Some i)" "task_of i s = Some t"
  shows "\<exists>s'. schedule s = Some s' \<and> switched i s s'"
proof -
  let ?s1 = "if state c = TASK_RUNNING then put (running s) (c\<lparr>state := TASK_READY\<rparr>) s else s"
  have c1: "task_of (running s) ?s1 = Some (preempted c)" using assms(2) by (simp add: preempted_def)
  have s1: "(if state c = TASK_RUNNING then upd_task (running s) (\<lambda>t. t\<lparr>state := TASK_READY\<rparr>) s else Some s) = Some ?s1"
    using assms(2) by simp
  let ?t = "if i = running s then preempted c else t"
  have t1: "task_of i ?s1 = Some ?t" using c1 assms(2,4) by auto
  have "schedule s = Some ((put i (?t\<lparr>state := TASK_RUNNING\<rparr>) ?s1)\<lparr>running := i\<rparr>)"
    unfolding schedule_def using assms(1-3) s1 t1 by (simp del: upd_task_Some add: upd_task_Some [OF t1])
  moreover have "switched i s ((put i (?t\<lparr>state := TASK_RUNNING\<rparr>) ?s1)\<lparr>running := i\<rparr>)"
    using assms(2,4) t1 by (auto simp: switched_def preempted_def)
  ultimately show ?thesis by blast
qed

lemma switched_inv:
  assumes "switch_inv s" "switched i s s'" "if runnable s = {} then i = idle_task s else i \<in> runnable s"
  shows "sched_inv s'"
proof -
  obtain c where c: "task_of (running s) s = Some c" using assms(1) by (auto simp: switch_inv_def)
  obtain t where t: "task_of i s = Some t" "i = running s \<or> state t = TASK_READY" "\<not> wait_state (state t)"
    using assms(1,3) by (auto simp: switch_inv_def runnable_def wait_state_def split: if_splits)
  have e: "task_of j s' = (if j = i then Some (t\<lparr>state := TASK_RUNNING\<rparr>)
          else if j = running s then Some (preempted c) else task_of j s)" for j
    using assms(2) c t by (simp add: switched_def)
  have nt: "node t = None" using assms(1) t(1,3) by (cases "node t") (auto simp: switch_inv_def)
  have r: "running s' = i" "idle_task s' = idle_task s" "waiters s' = waiters s"
    using assms(2) by (simp_all add: switched_def)
  have run: "\<forall>j u. task_of j s' = Some u \<and> state u = TASK_RUNNING \<longrightarrow> j = running s'"
    using one_running [OF assms(1)] unfolding e r by (auto split: if_splits)
  have idle: "\<exists>u. task_of (idle_task s') s' = Some u \<and> (state u = TASK_READY \<or> idle_task s' = running s' \<and> state u = TASK_RUNNING)"
    using idle_ready [OF assms(1)] c unfolding e r by auto
  have w1: "\<forall>l. \<forall>j\<in>set (waiters s' l). \<exists>u. task_of j s' = Some u \<and> node u = Some l"
  proof (intro allI ballI)
    fix l j
    assume "j \<in> set (waiters s' l)"
    then obtain u where "task_of j s = Some u" "node u = Some l"
      using waiters_node [OF assms(1)] unfolding r by blast
    then show "\<exists>u. task_of j s' = Some u \<and> node u = Some l" unfolding e using c t(1) nt by auto
  qed
  have w2: "\<forall>j u l. task_of j s' = Some u \<and> node u = Some l \<longrightarrow> j \<in> set (waiters s' l) \<and> wait_state (state u)"
  proof (intro allI impI, elim conjE)
    fix j u l
    assume "task_of j s' = Some u" "node u = Some l"
    then show "j \<in> set (waiters s' l) \<and> wait_state (state u)"
      using node_waits [OF assms(1), of j _ l] c nt unfolding e r by (auto split: if_splits)
  qed
  have "task_of (running s') s' = Some (t\<lparr>state := TASK_RUNNING\<rparr>)" using e [of i] assms(2) by (simp add: switched_def)
  moreover have "length (task_table s') = TASK_NR" "\<not> intr s'" "\<forall>l. distinct (waiters s' l)"
    using assms(1,2) by (simp_all add: switch_inv_def switched_def)
  ultimately show ?thesis using run idle w1 w2 unfolding sched_inv_def switch_inv_def by simp
qed

lemma schedule_ok:
  assumes "switch_inv s"
  shows "\<exists>i s'. schedule s = Some s' \<and> switched i s s' \<and> sched_inv s'
    \<and> (if runnable s = {} then i = idle_task s else i \<in> runnable s)"
proof -
  obtain i where i: "task_search TASK_READY s = Some (Some i)" "if runnable s = {} then i = idle_task s else i \<in> runnable s"
    using task_search_ready [of s] assms by (auto simp: switch_inv_def)
  obtain c where c: "task_of (running s) s = Some c" using assms by (auto simp: switch_inv_def)
  obtain t where "task_of i s = Some t" using assms i(2) by (auto simp: switch_inv_def runnable_def split: if_splits)
  then obtain s' where s': "schedule s = Some s'" "switched i s s'"
    using schedule_switched [OF _ c i(1)] assms by (auto simp: switch_inv_def)
  then show ?thesis using switched_inv [OF assms s'(2) i(2)] i(2) by blast
qed

text \<open>C12: \<open>schedule\<close> never fails between consistent states. It switches to a task that was ready, or
  to the idle task when no other task is; afterwards exactly the new running task is marked as
  running, and the lists of waiting tasks are untouched.\<close>

theorem schedule_picks_ready:
  assumes "switch_inv s"
  shows "\<exists>i s'. schedule s = Some s' \<and> running s' = i \<and> sched_inv s' \<and> waiters s' = waiters s
    \<and> (if runnable s = {} then i = idle_task s else i \<in> runnable s)
    \<and> {j. \<exists>t. task_of j s' = Some t \<and> state t = TASK_RUNNING} = {i}"
proof -
  obtain i s' where s': "schedule s = Some s'" "switched i s s'" "sched_inv s'"
    "if runnable s = {} then i = idle_task s else i \<in> runnable s"
    using schedule_ok [OF assms] by blast
  have "{j. \<exists>t. task_of j s' = Some t \<and> state t = TASK_RUNNING} = {running s'}"
    using s'(3) unfolding sched_inv_def switch_inv_def by blast
  then show ?thesis using s' by (auto simp: switched_def)
qed

subsection \<open>Blocking and waking up\<close>

text \<open>A task whose state has changed outside the running one.\<close>

lemma push_node_spec:
  assumes "switch_inv s" "task_of i s = Some t" "node t = None"
  shows "push_node l i s = Some (put i (t\<lparr>node := Some l\<rparr>) (s\<lparr>waiters := (waiters s)(l := i # waiters s l)\<rparr>))"
proof -
  have "i \<notin> set (waiters s l)" using waiters_node [OF assms(1)] assms(2,3) by fastforce
  then show ?thesis using assms(2) by (simp add: push_node_def)
qed

lemma blocked_switch_inv:
  assumes "sched_inv s" "task_of i s = Some t" "i = running s" "i \<noteq> idle_task s" "node t = None" "wait_state st"
  shows "switch_inv (put i (t\<lparr>node := Some l, state := st\<rparr>) (s\<lparr>waiters := (waiters s)(l := i # waiters s l)\<rparr>))"
    (is "switch_inv ?s")
proof -
  have inv: "switch_inv s" using assms(1) by (simp add: sched_inv_def)
  have e: "task_of j ?s = (if j = i then Some (t\<lparr>node := Some l, state := st\<rparr>) else task_of j s)" for j
    using assms(2) by simp
  have i: "i \<notin> set (waiters s k)" for k using waiters_node [OF inv, of i k] assms(2,5) by auto
  have st: "st \<noteq> TASK_RUNNING" using assms(6) by (auto simp: wait_state_def)
  have r: "running ?s = running s" "idle_task ?s = idle_task s" "waiters ?s = (waiters s)(l := i # waiters s l)"
    "intr ?s = intr s" "length (task_table ?s) = length (task_table s)" by simp_all
  have run: "\<forall>j u. task_of j ?s = Some u \<and> state u = TASK_RUNNING \<longrightarrow> j = running ?s"
    using one_running [OF inv] st unfolding e r by (auto split: if_splits)
  have idle: "\<exists>u. task_of (idle_task ?s) ?s = Some u \<and> (state u = TASK_READY \<or> idle_task ?s = running ?s \<and> state u = TASK_RUNNING)"
    using idle_ready [OF inv] assms(4) unfolding e r by auto
  have w1: "\<forall>k. \<forall>j\<in>set (waiters ?s k). \<exists>u. task_of j ?s = Some u \<and> node u = Some k"
    using waiters_node [OF inv] i unfolding e r by (auto split: if_splits)
  have w2: "\<forall>j u k. task_of j ?s = Some u \<and> node u = Some k \<longrightarrow> j \<in> set (waiters ?s k) \<and> wait_state (state u)"
    using node_waits [OF inv] assms(6) unfolding e r by (auto split: if_splits)
  have d: "\<forall>k. distinct (waiters ?s k)" using inv i unfolding r by (auto simp: switch_inv_def)
  show ?thesis
    using run idle w1 w2 d e [of "running s"] assms(3) inv unfolding switch_inv_def [of ?s] r
    by (simp add: switch_inv_def [of s])
qed

text \<open>A task that blocks without a time limit is put in front of the list it waits on, marked as
  waiting, and is not running any more; another task runs.\<close>

lemma task_block_ok:
  assumes "sched_inv s" "task_of (running s) s = Some t" "node t = None" "running s \<noteq> idle_task s" "wait_state st"
  shows "\<exists>s'. task_block (running s) l st TIMELESS s = Some s' \<and> sched_inv s' \<and> running s' \<noteq> running s
    \<and> waiters s' = (waiters s)(l := running s # waiters s l)
    \<and> task_of (running s) s' = Some (t\<lparr>node := Some l, state := st\<rparr>)"
proof -
  let ?i = "running s"
  let ?s = "put ?i (t\<lparr>node := Some l, state := st\<rparr>) (s\<lparr>waiters := (waiters s)(l := ?i # waiters s l)\<rparr>)"
  have inv: "switch_inv s" using assms(1) by (simp add: sched_inv_def)
  have sw: "switch_inv ?s" by (rule blocked_switch_inv [OF assms(1,2) refl assms(4,3,5)])
  have st: "st \<noteq> TASK_READY" "st \<noteq> TASK_RUNNING" using assms(5) by (auto simp: wait_state_def)
  have put2: "put i b (put i a u) = put i b u" for i and a b and u :: "'a ks" by (simp add: put_def)
  have blk: "task_block ?i l st TIMELESS s = schedule ?s"
    using push_node_spec [OF inv assms(2,3), of l] assms(2,3) st inv
    by (simp add: task_block_def TIMELESS_def put2 switch_inv_def)
  have c: "task_of (running ?s) ?s = Some (t\<lparr>node := Some l, state := st\<rparr>)" using assms(2) by simp
  obtain i s' where s': "schedule ?s = Some s'" "switched i ?s s'" "sched_inv s'"
    and i: "if runnable ?s = {} then i = idle_task ?s else i \<in> runnable ?s"
    using schedule_ok [OF sw] by blast
  have ir: "i \<noteq> running s" using i assms(4) by (auto simp: runnable_def split: if_splits)
  have "task_of ?i s' = map_option preempted (task_of ?i ?s)" using s'(2) ir by (simp add: switched_def)
  then have "task_of ?i s' = Some (t\<lparr>node := Some l, state := st\<rparr>)"
    using assms(2) st by (simp add: preempted_def)
  then show ?thesis using blk s' ir by (simp add: switched_def)
qed

definition drop_timer :: "nat option \<Rightarrow> 'r ks \<Rightarrow> 'r ks" where
  "drop_timer ta s = (case ta of None \<Rightarrow> s | Some a \<Rightarrow>
     (case timer_at s a of None \<Rightarrow> s | Some tm \<Rightarrow>
        if active tm then s
        else s\<lparr>timer_list := remove1 a (timer_list s), timer_at := (timer_at s)(a := None)\<rparr>))"

lemma drop_timer_simps [simp]:
  "task_table (drop_timer ta s) = task_table s" "running (drop_timer ta s) = running s"
  "idle_task (drop_timer ta s) = idle_task s" "intr (drop_timer ta s) = intr s" "waiters (drop_timer ta s) = waiters s"
  "jiffies (drop_timer ta s) = jiffies s" "rest (drop_timer ta s) = rest s" "heap_next (drop_timer ta s) = heap_next s"
  "task_of i (drop_timer ta s) = task_of i s"
  by (auto simp: drop_timer_def task_of_def split: option.splits)

definition woken :: "nat \<Rightarrow> task \<Rightarrow> int \<Rightarrow> 'r ks \<Rightarrow> 'r ks" where
  "woken i t r s = put i (t\<lparr>node := None, timeout := None, status := r, state := TASK_READY\<rparr>)
     (drop_timer (timeout t) (s\<lparr>waiters := \<lambda>l. remove1 i (waiters s l)\<rparr>))"

definition timeout_ok :: "'r ks \<Rightarrow> task \<Rightarrow> bool" where
  "timeout_ok s t \<longleftrightarrow> (case timeout t of None \<Rightarrow> True
     | Some a \<Rightarrow> (case timer_at s a of None \<Rightarrow> False | Some tm \<Rightarrow> active tm \<or> a \<in> set (timer_list s)))"

lemma timeout_ok_cong:
  "timer_at s' = timer_at s \<Longrightarrow> timer_list s' = timer_list s \<Longrightarrow> timeout t' = timeout t
   \<Longrightarrow> timeout_ok s' t' = timeout_ok s t"
  by (simp only: timeout_ok_def)

lemma put_put [simp]: "put i b (put i a s) = put i b s"
  by (simp add: put_def)

lemma put_same: "task_of i s = Some t \<Longrightarrow> put i t s = s"
  by (auto simp: put_def task_of_def rd_def list_update_same_conv split: if_splits Option.bind_split_asm)

lemma put_waiters: "(put i t s)\<lparr>waiters := w\<rparr> = put i t (s\<lparr>waiters := w\<rparr>)"
  and put_timers: "(put i t s)\<lparr>timer_list := tl'\<rparr> = put i t (s\<lparr>timer_list := tl'\<rparr>)"
    "(put i t s)\<lparr>timer_at := ta\<rparr> = put i t (s\<lparr>timer_at := ta\<rparr>)"
  by (simp_all add: put_def)

lemma remove_node_spec:
  assumes "switch_inv s" "task_of i s = Some t"
  shows "(if node t \<noteq> None then remove_node i s else Some s)
    = Some (put i (t\<lparr>node := None\<rparr>) (s\<lparr>waiters := \<lambda>l. remove1 i (waiters s l)\<rparr>))"
proof -
  have other: "remove1 i (waiters s k) = waiters s k" if "node t \<noteq> Some k" for k
  proof -
    have "i \<notin> set (waiters s k)" using waiters_node [OF assms(1), of i k] assms(2) that by auto
    then show ?thesis by (simp add: remove1_idem)
  qed
  show ?thesis
  proof (cases "node t")
    case None
    then have "(\<lambda>l. remove1 i (waiters s l)) = waiters s" using other by auto
    moreover have "t\<lparr>node := None\<rparr> = t" using None by simp
    ultimately show ?thesis using None assms(2) by (simp add: put_same)
  next
    case (Some l)
    have "(waiters s)(l := remove1 i (waiters s l)) = (\<lambda>k. remove1 i (waiters s k))"
      using other Some by auto
    then show ?thesis using Some assms(2) by (simp add: remove_node_def)
  qed
qed

lemma drop_timeout_spec:
  assumes "task_of i s = Some t" "timeout_ok s t"
  shows "drop_timeout i s = Some (put i (t\<lparr>timeout := None\<rparr>) (drop_timer (timeout t) s))"
proof (cases "timeout t")
  case None
  then have "t\<lparr>timeout := None\<rparr> = t" by simp
  then show ?thesis using assms None by (simp add: drop_timeout_def drop_timer_def put_same)
next
  case (Some a)
  then obtain tm where "timer_at s a = Some tm" "active tm \<or> a \<in> set (timer_list s)"
    using assms(2) by (auto simp: timeout_ok_def split: option.splits)
  then show ?thesis using Some assms(1) by (auto simp: drop_timeout_def drop_timer_def timer_put_def)
qed

lemma drop_timer_put: "drop_timer ta (put i t s) = put i t (drop_timer ta s)"
  by (auto simp: drop_timer_def put_timers split: option.splits)

lemma task_unblock_spec:
  assumes "switch_inv s" "task_of i s = Some t" "state t \<noteq> TASK_RUNNING" "timeout_ok s t"
  shows "task_unblock i r s = Some (woken i t r s)"
proof -
  let ?t = "t\<lparr>node := None\<rparr>" and ?w = "s\<lparr>waiters := \<lambda>l. remove1 i (waiters s l)\<rparr>"
  have t1: "task_of i (put i ?t ?w) = Some ?t" using assms(2) by simp
  have drop: "drop_timeout i (put i ?t ?w) = Some (put i (?t\<lparr>timeout := None\<rparr>) (drop_timer (timeout t) ?w))"
  proof -
    have "timeout_ok (put i ?t ?w) ?t = timeout_ok s t" by (rule timeout_ok_cong) simp_all
    then have "timeout_ok (put i ?t ?w) ?t" using assms(4) by simp
    then show ?thesis using drop_timeout_spec [OF t1] by (simp add: drop_timer_put)
  qed
  have "task_of i (drop_timer (timeout t) ?w) = Some t" using assms(2) by simp
  then show ?thesis
    using remove_node_spec [OF assms(1,2)] drop assms(1-3)
    unfolding task_unblock_def by (simp add: woken_def switch_inv_def)
qed

lemma task_of_woken:
  "task_of i s = Some t \<Longrightarrow> task_of j (woken i t r s) =
     (if j = i then Some (t\<lparr>node := None, timeout := None, status := r, state := TASK_READY\<rparr>) else task_of j s)"
  by (simp add: woken_def)

lemma woken_switch_inv:
  assumes "switch_inv s" "task_of i s = Some t"
  shows "switch_inv (woken i t r s)" (is "switch_inv ?s")
proof -
  note e = task_of_woken [OF assms(2)]
  have r: "running ?s = running s" "idle_task ?s = idle_task s" "waiters ?s = (\<lambda>l. remove1 i (waiters s l))"
    "intr ?s = intr s" "length (task_table ?s) = length (task_table s)" by (simp_all add: woken_def)
  have run: "\<forall>j u. task_of j ?s = Some u \<and> state u = TASK_RUNNING \<longrightarrow> j = running ?s"
    using one_running [OF assms(1)] unfolding e r by (auto split: if_splits)
  have idle: "\<exists>u. task_of (idle_task ?s) ?s = Some u \<and> (state u = TASK_READY \<or> idle_task ?s = running ?s \<and> state u = TASK_RUNNING)"
    using idle_ready [OF assms(1)] unfolding e r by auto
  have d: "\<forall>k. distinct (waiters s k)" using assms(1) by (simp add: switch_inv_def)
  have w1: "\<forall>k. \<forall>j\<in>set (waiters ?s k). \<exists>u. task_of j ?s = Some u \<and> node u = Some k"
    using waiters_node [OF assms(1)] d unfolding e r by (auto simp: set_remove1_eq)
  have w2: "\<forall>j u k. task_of j ?s = Some u \<and> node u = Some k \<longrightarrow> j \<in> set (waiters ?s k) \<and> wait_state (state u)"
    using node_waits [OF assms(1)] d unfolding e r by (auto simp: set_remove1_eq split: if_splits)
  have "task_of (running s) ?s \<noteq> None" using assms(1) unfolding e by (simp add: switch_inv_def)
  then show ?thesis
    using run idle w1 w2 d assms(1) unfolding switch_inv_def [of ?s] r
    by (simp add: switch_inv_def [of s] distinct_remove1)
qed

lemma woken_sched_inv:
  "sched_inv s \<Longrightarrow> task_of i s = Some t \<Longrightarrow> i \<noteq> running s \<Longrightarrow> sched_inv (woken i t r s)"
  using woken_switch_inv [of s i t r] by (auto simp: sched_inv_def task_of_woken woken_def)

subsection \<open>Timers and the clock\<close>

text \<open>Between two operations the timers in the list are the allocated ones, in the order of their
  expiry, and the time limits of waiting tasks and the default timers belong together.\<close>

definition timer_inv :: "'r ks \<Rightarrow> bool" where
  "timer_inv s \<longleftrightarrow> distinct (timer_list s) \<and> dom (timer_at s) = set (timer_list s)
     \<and> sorted (map (timer_key s) (timer_list s))
     \<and> (\<forall>a tm. timer_at s a = Some tm \<longrightarrow> \<not> active tm \<and> (handler tm = Default \<longrightarrow>
          (\<exists>t. task_of (t_task tm) s = Some t \<and> timeout t = Some a \<and> wait_state (state t))))
     \<and> (\<forall>i t a. task_of i s = Some t \<and> timeout t = Some a \<longrightarrow>
          (\<exists>tm. timer_at s a = Some tm \<and> t_task tm = i \<and> handler tm = Default))"

lemma timer_facts:
  assumes "timer_inv s"
  shows "distinct (timer_list s)" "dom (timer_at s) = set (timer_list s)" "sorted (map (timer_key s) (timer_list s))"
    "timer_at s a = Some tm \<Longrightarrow> \<not> active tm"
    "timer_at s a = Some tm \<Longrightarrow> handler tm = Default \<Longrightarrow>
       \<exists>t. task_of (t_task tm) s = Some t \<and> timeout t = Some a \<and> wait_state (state t)"
    "task_of i s = Some t \<Longrightarrow> timeout t = Some a \<Longrightarrow> \<exists>tm. timer_at s a = Some tm \<and> t_task tm = i \<and> handler tm = Default"
  using assms by (simp_all add: timer_inv_def)

lemma woken_with_timer:
  assumes "timer_at s a = Some tm" "\<not> active tm" "timeout t = Some a"
  shows "woken i t r s = put i (t\<lparr>node := None, timeout := None, status := r, state := TASK_READY\<rparr>)
    (s\<lparr>waiters := \<lambda>l. remove1 i (waiters s l), timer_list := remove1 a (timer_list s), timer_at := (timer_at s)(a := None)\<rparr>)"
  using assms by (simp add: woken_def drop_timer_def)

text \<open>Firing a default timer is waking its task with \<open>-ETIME\<close>.\<close>

lemma waiting_not_running: "sched_inv s \<Longrightarrow> task_of i s = Some t \<Longrightarrow> wait_state (state t) \<Longrightarrow> i \<noteq> running s"
  by (auto simp: sched_inv_def wait_state_def)

lemma fire_default:
  assumes "sched_inv s" "timer_inv s" "timer_at s a = Some tm" "handler tm = Default" "expires tm \<le> jiffies s"
    "task_of (t_task tm) s = Some t"
  shows "fire run a s = Some (woken (t_task tm) t (neg_errno ETIME) s)"
proof -
  let ?i = "t_task tm"
  let ?s = "s\<lparr>timer_at := (timer_at s)(a \<mapsto> tm\<lparr>active := True\<rparr>)\<rparr>"
  have t: "timeout t = Some a" "state t \<noteq> TASK_RUNNING" and na: "\<not> active tm"
    using timer_facts(4,5) [OF assms(2,3)] assms(4,6) by (auto simp: wait_state_def)
  have al: "a \<in> set (timer_list s)" using timer_facts(2) [OF assms(2)] assms(3) by auto
  have sw: "switch_inv ?s" using assms(1) switch_inv_cong [of ?s s] by (simp add: sched_inv_def)
  have t': "task_of ?i ?s = Some t" using assms(6) by simp
  have "timeout_ok ?s t" using t(1) by (simp add: timeout_ok_def)
  then have "task_unblock ?i (neg_errno ETIME) ?s = Some (woken ?i t (neg_errno ETIME) ?s)"
    by (rule task_unblock_spec [OF sw t' t(2)])
  moreover have "woken ?i t r ?s = put ?i (t\<lparr>node := None, timeout := None, status := r, state := TASK_READY\<rparr>)
      (?s\<lparr>waiters := \<lambda>l. remove1 ?i (waiters s l)\<rparr>)" for r
    using t(1) by (simp add: woken_def drop_timer_def)
  ultimately show ?thesis
    using assms(3-5) al woken_with_timer [OF assms(3) na t(1)]
    by (simp add: fire_def default_timeout_def timer_put_def put_timers)
qed

lemma woken_timer_inv:
  assumes "timer_inv s" "timer_at s a = Some tm" "handler tm = Default" "task_of (t_task tm) s = Some t"
  shows "timer_inv (woken (t_task tm) t r s)" (is "timer_inv ?s")
proof -
  let ?i = "t_task tm"
  have t: "timeout t = Some a" and na: "\<not> active tm"
    using timer_facts(4,5) [OF assms(1,2)] assms(3,4) by auto
  note w = woken_with_timer [OF assms(2) na t(1), of ?i r]
  have f: "timer_list ?s = remove1 a (timer_list s)" "timer_at ?s = (timer_at s)(a := None)" "running ?s = running s"
    unfolding w by simp_all
  note e = task_of_woken [OF assms(4), of _ r]
  have d: "distinct (timer_list s)" by (rule timer_facts(1) [OF assms(1)])
  have only: "timeout u = Some a \<Longrightarrow> task_of j s = Some u \<Longrightarrow> j = ?i" for j u
    using timer_facts(6) [OF assms(1), of j u a] assms(2) by auto
  have mine: "timer_at s b = Some tb \<Longrightarrow> handler tb = Default \<Longrightarrow> b \<noteq> a \<Longrightarrow> t_task tb \<noteq> ?i" for b tb
    using timer_facts(5) [OF assms(1), of b tb] assms(4) t by auto
  have key: "map (timer_key ?s) (remove1 a (timer_list s)) = map (timer_key s) (remove1 a (timer_list s))"
    using d by (auto simp: timer_key_def f set_remove1_eq)
  have "sorted (map (timer_key s) (remove1 a (timer_list s)))"
    using timer_facts(3) [OF assms(1)] by (rule sorted_map_remove1)
  then have srt: "sorted (map (timer_key ?s) (timer_list ?s))" unfolding f(1) key .
  have "dom (timer_at ?s) = set (timer_list ?s)"
    using timer_facts(2) [OF assms(1)] d unfolding f by (auto simp: set_remove1_eq)
  moreover have "\<forall>b tb. timer_at ?s b = Some tb \<longrightarrow> \<not> active tb \<and> (handler tb = Default \<longrightarrow>
      (\<exists>t. task_of (t_task tb) ?s = Some t \<and> timeout t = Some b \<and> wait_state (state t)))"
  proof (intro allI impI)
    fix b tb
    assume "timer_at ?s b = Some tb"
    then have b: "timer_at s b = Some tb" "b \<noteq> a" unfolding f by (auto split: if_splits)
    show "\<not> active tb \<and> (handler tb = Default \<longrightarrow>
      (\<exists>t. task_of (t_task tb) ?s = Some t \<and> timeout t = Some b \<and> wait_state (state t)))"
      using timer_facts(4,5) [OF assms(1) b(1)] mine [OF b(1) _ b(2)] unfolding e f by auto
  qed
  moreover have "\<forall>j u b. task_of j ?s = Some u \<and> timeout u = Some b \<longrightarrow>
      (\<exists>tb. timer_at ?s b = Some tb \<and> t_task tb = j \<and> handler tb = Default)"
  proof (intro allI impI, elim conjE)
    fix j u b
    assume "task_of j ?s = Some u" "timeout u = Some b"
    then have j: "j \<noteq> ?i" "task_of j s = Some u" unfolding e by (auto split: if_splits)
    then have "b \<noteq> a" using only \<open>timeout u = Some b\<close> by blast
    then show "\<exists>tb. timer_at ?s b = Some tb \<and> t_task tb = j \<and> handler tb = Default"
      using timer_facts(6) [OF assms(1) j(2) \<open>timeout u = Some b\<close>] unfolding f by auto
  qed
  ultimately show ?thesis using srt d unfolding timer_inv_def [of ?s] f by (simp add: distinct_remove1)
qed

definition expired :: "'r ks \<Rightarrow> task \<Rightarrow> bool" where
  "expired s t \<longleftrightarrow> (case timeout t of None \<Rightarrow> False
     | Some a \<Rightarrow> (case timer_at s a of None \<Rightarrow> False | Some tm \<Rightarrow> expires tm \<le> jiffies s))"

definition timed_out :: "task \<Rightarrow> task" where
  "timed_out t = t\<lparr>node := None, timeout := None, status := neg_errno ETIME, state := TASK_READY\<rparr>"

definition default_timers :: "'r ks \<Rightarrow> bool" where
  "default_timers s \<longleftrightarrow> (\<forall>a tm. timer_at s a = Some tm \<longrightarrow> handler tm = Default \<and> unat (expires tm) < 2147483648)"

definition due :: "'r ks \<Rightarrow> nat \<Rightarrow> bool" where
  "due s a \<longleftrightarrow> (case timer_at s a of None \<Rightarrow> False | Some tm \<Rightarrow> expires tm \<le> jiffies s)"

lemma head_not_due:
  assumes "timer_inv s" "default_timers s" "timer_list s = a # xs" "\<not> due s a"
  shows "\<forall>b\<in>set (timer_list s). \<not> due s b"
proof
  fix b
  assume b: "b \<in> set (timer_list s)"
  obtain ta where ta: "timer_at s a = Some ta" using timer_facts(2) [OF assms(1)] assms(3) by auto
  obtain tb where tb: "timer_at s b = Some tb" using timer_facts(2) [OF assms(1)] b by auto
  have "timer_key s a \<le> timer_key s b"
    using timer_facts(3) [OF assms(1)] b assms(3) by auto
  then have "sint (expires ta) \<le> sint (expires tb)" using ta tb by (simp add: timer_key_def)
  moreover have "unat (expires ta) < 2147483648" "unat (expires tb) < 2147483648"
    using ta tb assms(2) by (auto simp: default_timers_def)
  ultimately have "expires ta \<le> expires tb" by (simp only: sint_unat32 word_le_nat_alt of_nat_le_iff)
  moreover have "jiffies s < expires ta" using assms(4) ta by (simp add: due_def)
  ultimately show "\<not> due s b" using tb by (auto simp: due_def)
qed

lemma timer_wakeup_end:
  assumes "timer_inv s" "default_timers s" "unat (jiffies s) < 2147483648" "\<forall>a\<in>set (timer_list s). \<not> due s a"
  shows "timer_wakeup run s = Some s"
proof (cases "timer_list s")
  case Nil
  have "unat EOF32 = 4294967196" by (simp add: EOF32_val)
  then have "\<not> EOF32 \<le> jiffies s" using assms(3) unfolding word_le_nat_alt by simp
  then show ?thesis using Nil by (simp add: timer_wakeup.simps timer_expires_def)
next
  case (Cons a xs)
  then obtain tm where tm: "timer_at s a = Some tm" using timer_facts(2) [OF assms(1)] by auto
  have "\<not> expires tm \<le> jiffies s" using assms(4) Cons tm by (simp add: due_def)
  then show ?thesis using Cons tm by (simp add: timer_wakeup.simps timer_expires_def)
qed

lemma timer_wakeup_spec:
  assumes "sched_inv s" "timer_inv s" "default_timers s" "unat (jiffies s) < 2147483648"
  shows "\<exists>s'. timer_wakeup run s = Some s' \<and> sched_inv s' \<and> timer_inv s' \<and> running s' = running s
    \<and> jiffies s' = jiffies s \<and> timer_list s' = filter (\<lambda>a. \<not> due s a) (timer_list s)
    \<and> (\<forall>i. task_of i s' = map_option (\<lambda>t. if expired s t then timed_out t else t) (task_of i s))"
  using assms
proof (induction "length (timer_list s)" arbitrary: s rule: less_induct)
  case less
  note inv = less.prems
  show ?case
  proof (cases "\<forall>a\<in>set (timer_list s). \<not> due s a")
    case True
    have "\<not> expired s t" if "task_of i s = Some t" for i t
      using timer_facts(2,6) [OF inv(2)] that True by (fastforce simp: expired_def due_def split: option.splits)
    then have "task_of i s = map_option (\<lambda>t. if expired s t then timed_out t else t) (task_of i s)" for i
      by (cases "task_of i s") auto
    then show ?thesis using timer_wakeup_end [OF inv(2-4) True] inv True by (auto simp: filter_id_conv)
  next
    case False
    then obtain a xs where l: "timer_list s = a # xs" "due s a"
      using head_not_due [OF inv(2,3)] by (cases "timer_list s") auto
    then obtain tm where tm: "timer_at s a = Some tm" "expires tm \<le> jiffies s"
      by (auto simp: due_def split: option.splits)
    have h: "handler tm = Default" using inv(3) tm(1) by (simp add: default_timers_def)
    obtain t where t: "task_of (t_task tm) s = Some t" "timeout t = Some a"
      using timer_facts(5) [OF inv(2) tm(1) h] by blast
    let ?s = "woken (t_task tm) t (neg_errno ETIME) s"
    note w = woken_with_timer [OF tm(1) timer_facts(4) [OF inv(2) tm(1)] t(2), of "t_task tm" "neg_errno ETIME"]
    have f: "timer_list ?s = xs" "timer_at ?s = (timer_at s)(a := None)" "jiffies ?s = jiffies s" "running ?s = running s"
      unfolding w by (simp_all add: l(1))
    have due: "due ?s b = due s b" if "b \<noteq> a" for b using that unfolding due_def f by simp
    have "timer_wakeup run s = timer_wakeup run ?s"
      using fire_default [OF inv(1,2) tm(1) h tm(2) t(1)] l tm
      by (subst timer_wakeup.simps) (simp add: timer_expires_def)
    moreover have "\<exists>s'. timer_wakeup run ?s = Some s' \<and> sched_inv s' \<and> timer_inv s' \<and> running s' = running ?s
      \<and> jiffies s' = jiffies ?s \<and> timer_list s' = filter (\<lambda>a. \<not> due ?s a) (timer_list ?s)
      \<and> (\<forall>i. task_of i s' = map_option (\<lambda>t. if expired ?s t then timed_out t else t) (task_of i ?s))"
    proof (rule less.hyps)
      show "length (timer_list ?s) < length (timer_list s)" using l f by simp
      show "sched_inv ?s"
        using woken_sched_inv [OF inv(1) t(1)] timer_facts(5) [OF inv(2) tm(1) h] t(1) waiting_not_running [OF inv(1) t(1)]
        by auto
      show "timer_inv ?s" by (rule woken_timer_inv [OF inv(2) tm(1) h t(1)])
      show "default_timers ?s" using inv(3) by (simp add: default_timers_def f)
      show "unat (jiffies ?s) < 2147483648" using inv(4) f by simp
    qed
    moreover have "filter (\<lambda>a. \<not> due ?s a) xs = filter (\<lambda>a. \<not> due s a) (timer_list s)"
    proof -
      have "a \<notin> set xs" using timer_facts(1) [OF inv(2)] l by simp
      have "filter (\<lambda>b. \<not> due ?s b) xs = filter (\<lambda>b. \<not> due s b) xs"
      proof (rule filter_cong [OF refl])
        fix b
        assume "b \<in> set xs"
        then have "b \<noteq> a" using \<open>a \<notin> set xs\<close> by blast
        then show "(\<not> due ?s b) = (\<not> due s b)" using due by simp
      qed
      then show ?thesis using l by simp
    qed
    moreover have "map_option (\<lambda>t. if expired ?s t then timed_out t else t) (task_of i ?s)
        = map_option (\<lambda>t. if expired s t then timed_out t else t) (task_of i s)" for i
    proof (cases "i = t_task tm")
      case True
      have "expired s t" using t(2) tm by (simp add: expired_def)
      moreover have "timeout (timed_out t) = None" by (simp add: timed_out_def)
      ultimately show ?thesis using True t by (simp add: task_of_woken [OF t(1)] expired_def timed_out_def)
    next
      case False
      have "expired ?s u = expired s u" if "task_of i s = Some u" for u
      proof -
        have "timeout u \<noteq> Some a" using timer_facts(6) [OF inv(2) that, of a] tm(1) False by auto
        then show ?thesis unfolding expired_def f by (cases "timeout u") auto
      qed
      then show ?thesis using False by (cases "task_of i s") (simp_all add: task_of_woken [OF t(1)])
    qed
    ultimately show ?thesis unfolding f by auto
  qed
qed

lemma put_sched_inv:
  assumes "sched_inv s" "task_of i s = Some t" "state t' = state t" "node t' = node t"
  shows "sched_inv (put i t' s)"
proof -
  have inv: "switch_inv s" using assms(1) by (simp add: sched_inv_def)
  have e: "task_of j (put i t' s) = (if j = i then Some t' else task_of j s)" for j using assms(2) by simp
  have "\<forall>j u. task_of j (put i t' s) = Some u \<and> state u = TASK_RUNNING \<longrightarrow> j = running s"
    using one_running [OF inv] assms(2,3) unfolding e by (auto split: if_splits)
  moreover have "\<exists>u. task_of (idle_task s) (put i t' s) = Some u \<and> (state u = TASK_READY \<or> idle_task s = running s \<and> state u = TASK_RUNNING)"
    using idle_ready [OF inv] assms(2,3) unfolding e by auto
  moreover have "\<forall>k. \<forall>j\<in>set (waiters s k). \<exists>u. task_of j (put i t' s) = Some u \<and> node u = Some k"
    using waiters_node [OF inv] assms(2,4) unfolding e by fastforce
  moreover have "\<forall>j u k. task_of j (put i t' s) = Some u \<and> node u = Some k \<longrightarrow> j \<in> set (waiters s k) \<and> wait_state (state u)"
    using node_waits [OF inv] assms(2-4) unfolding e by (auto split: if_splits)
  moreover have "\<exists>u. task_of (running s) (put i t' s) = Some u \<and> state u = TASK_RUNNING"
    using assms(1-3) unfolding e by (auto simp: sched_inv_def)
  moreover have "length (task_table s) = TASK_NR" "\<not> intr s" "\<forall>l. distinct (waiters s l)"
    using inv by (simp_all add: switch_inv_def)
  moreover have "task_of (running s) (put i t' s) \<noteq> None"
    using inv assms(2) unfolding e by (simp add: switch_inv_def)
  ultimately show ?thesis unfolding sched_inv_def switch_inv_def put_simps by blast
qed

lemma timer_inv_cong:
  assumes "timer_inv s" "timer_at s' = timer_at s" "timer_list s' = timer_list s"
    and "\<And>i t. task_of i s = Some t \<Longrightarrow> wait_state (state t) \<Longrightarrow> \<exists>t'. task_of i s' = Some t' \<and> timeout t' = timeout t \<and> wait_state (state t')"
    and "\<And>i t'. task_of i s' = Some t' \<Longrightarrow> \<exists>t. task_of i s = Some t \<and> timeout t' = timeout t"
  shows "timer_inv s'"
proof -
  have k: "timer_key s' = timer_key s" by (rule ext) (simp add: timer_key_def assms(2))
  have "\<forall>a tm. timer_at s a = Some tm \<longrightarrow> \<not> active tm \<and> (handler tm = Default \<longrightarrow>
      (\<exists>t. task_of (t_task tm) s' = Some t \<and> timeout t = Some a \<and> wait_state (state t)))"
  proof (intro allI impI conjI)
    fix a tm
    assume a: "timer_at s a = Some tm"
    show "\<not> active tm" using timer_facts(4) [OF assms(1) a] .
    assume "handler tm = Default"
    then obtain t where t: "task_of (t_task tm) s = Some t" "timeout t = Some a" "wait_state (state t)"
      using timer_facts(5) [OF assms(1) a] by blast
    then show "\<exists>t. task_of (t_task tm) s' = Some t \<and> timeout t = Some a \<and> wait_state (state t)"
      using assms(4) [OF t(1,3)] by auto
  qed
  moreover have "\<forall>i t a. task_of i s' = Some t \<and> timeout t = Some a \<longrightarrow>
      (\<exists>tm. timer_at s a = Some tm \<and> t_task tm = i \<and> handler tm = Default)"
  proof (intro allI impI, elim conjE)
    fix i t a
    assume "task_of i s' = Some t" "timeout t = Some a"
    then obtain u where "task_of i s = Some u" "timeout u = Some a" using assms(5) [of i t] by auto
    then show "\<exists>tm. timer_at s a = Some tm \<and> t_task tm = i \<and> handler tm = Default"
      by (rule timer_facts(6) [OF assms(1)])
  qed
  ultimately show ?thesis using assms(1) unfolding timer_inv_def assms(2,3) k by blast
qed

lemma put_timer_inv:
  assumes "timer_inv s" "task_of i s = Some t" "state t' = state t" "timeout t' = timeout t"
  shows "timer_inv (put i t' s)"
  by (rule timer_inv_cong [OF assms(1)]) (use assms(2-4) in \<open>auto split: if_splits\<close>)

lemma switched_timer_inv:
  assumes "timer_inv s" "switched i s s'" "\<not> wait_state (state t)" "task_of i s = Some t"
  shows "timer_inv s'"
proof (rule timer_inv_cong [OF assms(1)])
  have e: "task_of j s' = (if j = i then map_option (state_update (\<lambda>_. TASK_RUNNING)) (task_of i s)
          else if j = running s then map_option preempted (task_of j s) else task_of j s)" for j
    using assms(2) by (simp add: switched_def)
  have p: "timeout (preempted u) = timeout u" for u by (simp add: preempted_def)
  show "timer_at s' = timer_at s" "timer_list s' = timer_list s" using assms(2) by (simp_all add: switched_def)
  fix j u
  show "task_of j s = Some u \<Longrightarrow> wait_state (state u)
    \<Longrightarrow> \<exists>t'. task_of j s' = Some t' \<and> timeout t' = timeout u \<and> wait_state (state t')"
    using assms(3,4) p unfolding e by auto
  show "task_of j s' = Some u \<Longrightarrow> \<exists>t. task_of j s = Some t \<and> timeout u = timeout t"
    using p unfolding e by (auto split: if_splits)
qed

text \<open>What a tick does to the running task.\<close>

definition end_tick :: "'r ks \<Rightarrow> 'r ks option" where
  "end_tick s = do {
     s \<leftarrow> upd_task (running s) (\<lambda>t. t\<lparr>last_jiffies := jiffies s, ticks := ticks t - 1\<rparr>) s;
     t \<leftarrow> task_of (running s) s;
     if ticks t = 0 then do {
       s \<leftarrow> upd_task (running s) (\<lambda>t. t\<lparr>ticks := priority t\<rparr>) s;
       schedule s }
     else Some s }"

lemma clock_handler_alt:
  "clock_handler run s = do { s \<leftarrow> timer_wakeup run (s\<lparr>jiffies := jiffies s + 1\<rparr>); end_tick s }"
  by (simp add: clock_handler_def end_tick_def)

lemma end_tick_spec:
  assumes "sched_inv s" "timer_inv s"
  shows "\<exists>s'. end_tick s = Some s' \<and> sched_inv s' \<and> timer_inv s' \<and> jiffies s' = jiffies s
    \<and> timer_list s' = timer_list s
    \<and> (\<forall>i t. task_of i s = Some t \<and> i \<noteq> running s \<longrightarrow>
         task_of i s' = Some (if i = running s' then t\<lparr>state := TASK_RUNNING\<rparr> else t))"
proof -
  obtain c where c: "task_of (running s) s = Some c" "state c = TASK_RUNNING"
    using assms(1) by (auto simp: sched_inv_def)
  let ?c = "c\<lparr>last_jiffies := jiffies s, ticks := ticks c - 1\<rparr>"
  let ?s2 = "put (running s) ?c s"
  have s2: "sched_inv ?s2" "timer_inv ?s2"
    using put_sched_inv [OF assms(1) c(1)] put_timer_inv [OF assms(2) c(1)] by simp_all
  show ?thesis
  proof (cases "ticks c = 1")
    case False
    then have "end_tick s = Some ?s2" using c(1) by (simp add: end_tick_def)
    then show ?thesis using s2 c by auto
  next
    case True
    let ?s3 = "put (running s) (?c\<lparr>ticks := priority c\<rparr>) s"
    have s3: "sched_inv ?s3" "timer_inv ?s3"
      using put_sched_inv [OF assms(1) c(1)] put_timer_inv [OF assms(2) c(1)] by simp_all
    obtain n s' where s': "schedule ?s3 = Some s'" "switched n ?s3 s'" "sched_inv s'"
      "if runnable ?s3 = {} then n = idle_task ?s3 else n \<in> runnable ?s3"
      using schedule_ok [of ?s3] s3(1) by (auto simp: sched_inv_def)
    have "\<exists>u. task_of n ?s3 = Some u \<and> \<not> wait_state (state u)"
      using s'(4) idle_ready [of ?s3] s3(1) by (auto simp: runnable_def wait_state_def sched_inv_def split: if_splits)
    then have "timer_inv s'" using switched_timer_inv [OF s3(2) s'(2)] by blast
    moreover have "end_tick s = Some s'" using True c(1) s'(1) by (simp add: end_tick_def)
    moreover have "task_of i s' = Some (if i = running s' then t\<lparr>state := TASK_RUNNING\<rparr> else t)"
      if "task_of i s = Some t" "i \<noteq> running s" for i t
      using s'(2) that c(1) by (cases "i = n") (simp_all add: switched_def)
    ultimately show ?thesis using s' by (auto simp: switched_def)
  qed
qed

text \<open>C10: A clock tick advances the time by one, wakes every task whose time limit has passed, with
  status \<open>-ETIME\<close>, removes those timers and keeps the others, and leaves the scheduler and the
  timers consistent, whether the tick ends the time slice of the running task or not. It is for a list that
  holds no timer but those of tasks that wait with a time limit: none of an alarm or of a driver, whose handlers may
  do anything. And it is for the first \<open>2 ^ 31 - 1\<close> ticks: later the list is sorted by numbers that have become negative.\<close>

theorem clock_wakes_expired:
  assumes "sched_inv s" "timer_inv s" "default_timers s" "unat (jiffies s) < 2147483647"
  shows "\<exists>s'. clock_handler run s = Some s' \<and> sched_inv s' \<and> timer_inv s' \<and> jiffies s' = jiffies s + 1
    \<and> timer_list s' = filter (\<lambda>a. \<not> due (s\<lparr>jiffies := jiffies s + 1\<rparr>) a) (timer_list s)
    \<and> (\<forall>i t. task_of i s = Some t \<and> expired (s\<lparr>jiffies := jiffies s + 1\<rparr>) t
        \<longrightarrow> (\<exists>t'. task_of i s' = Some t' \<and> timeout t' = None \<and> status t' = neg_errno ETIME
          \<and> state t' = (if i = running s' then TASK_RUNNING else TASK_READY)))"
proof -
  let ?s0 = "s\<lparr>jiffies := jiffies s + 1\<rparr>"
  have j: "unat (jiffies ?s0) < 2147483648" using assms(4) by (simp add: unat_Suc_bound)
  have sc: "sched_inv ?s0" using assms(1) switch_inv_cong [of ?s0 s] by (simp add: sched_inv_def)
  have ti: "timer_inv ?s0" by (rule timer_inv_cong [OF assms(2)]) auto
  have dt: "default_timers ?s0" using assms(3) by (simp add: default_timers_def)
  obtain s1 where s1: "timer_wakeup run ?s0 = Some s1" "sched_inv s1" "timer_inv s1" "running s1 = running s"
    "jiffies s1 = jiffies s + 1" "timer_list s1 = filter (\<lambda>a. \<not> due ?s0 a) (timer_list s)"
    and t1: "\<And>i. task_of i s1 = map_option (\<lambda>t. if expired ?s0 t then timed_out t else t) (task_of i s)"
    using timer_wakeup_spec [OF sc ti dt j, of run] by auto
  obtain s' where s': "end_tick s1 = Some s'" "sched_inv s'" "timer_inv s'" "jiffies s' = jiffies s1"
    "timer_list s' = timer_list s1"
    "\<forall>i t. task_of i s1 = Some t \<and> i \<noteq> running s1 \<longrightarrow>
       task_of i s' = Some (if i = running s' then t\<lparr>state := TASK_RUNNING\<rparr> else t)"
    using end_tick_spec [OF s1(2,3)] by blast
  have late: "\<exists>t'. task_of i s' = Some t' \<and> timeout t' = None \<and> status t' = neg_errno ETIME
          \<and> state t' = (if i = running s' then TASK_RUNNING else TASK_READY)"
    if t: "task_of i s = Some t" "expired ?s0 t" for i t
  proof -
    have i: "task_of i s1 = Some (timed_out t)" using t t1 [of i] by simp
    then have "i \<noteq> running s1" using s1(2) by (auto simp: sched_inv_def timed_out_def)
    then show ?thesis using s'(6) i by (auto simp: timed_out_def)
  qed
  have "clock_handler run s = Some s'" using s1(1) s'(1) by (simp add: clock_handler_alt)
  moreover have "jiffies s' = jiffies s + 1" "timer_list s' = filter (\<lambda>a. \<not> due ?s0 a) (timer_list s)"
    using s1 s' by simp_all
  ultimately show ?thesis using s'(2,3) late by blast
qed

text \<open>The clock cannot run for ever: an empty list of timers expires at \<open>EOF\<close>, which is
  compared as the number of ticks 4294967196, so that the tick which reaches it takes the tail of the empty list for a timer.\<close>

theorem clock_stops_at_EOF:
  assumes "timer_list s = []" "jiffies s = 4294967195"
  shows "clock_handler run s = None"
  using assms by (simp add: clock_handler_alt timer_wakeup.simps timer_expires_def EOF32_val)

text \<open>A sample state: the idle task, a running task and a sleeping one.\<close>

definition blank_task :: "nat \<Rightarrow> task" where
  "blank_task i = \<lparr>page = 0, node = None, state = TASK_READY, priority = 5, ticks = 5, last_jiffies = 0, uid = 1000,
     pid = i, ppid = 0, pgid = 0, sid = 0, tty = 0, status = 0, waitpid = 0, pde = 0, vmap = 0, vmap_bits = 0, fpu = 0, fpu_flags = 0, pwd = 0,
     ipwd = 0, iroot = 0, iexec = None, umask = 0, files = replicate 16 None, sigs = 0, blocked = 0, alarm = None, timeout = None,
     actions = replicate 31 \<lparr>sa_handler = 0, sa_mask = 0, sa_flags = 0, sa_restorer = 0\<rparr>\<rparr>"

definition sample_ks :: "unit ks" where
  "sample_ks = \<lparr>task_table = [Some (blank_task 0), Some ((blank_task 1)\<lparr>state := TASK_RUNNING, ticks := 1\<rparr>),
       Some ((blank_task 2)\<lparr>state := TASK_SLEEPING, node := Some sleep_list, timeout := Some 8\<rparr>)] @ replicate 61 None,
     running = 1, idle_task = 0, intr = False, waiters = (\<lambda>l. if l = sleep_list then [2] else []),
     timer_at = [8 \<mapsto> \<lparr>t_task = 2, expires = 100, handler = Default, active = False\<rparr>], timer_list = [8],
     heap_next = 9, jiffies = 99, rest = ()\<rparr>"

lemma sample_tasks:
  "task_of i sample_ks = (if i = 0 then Some (blank_task 0)
     else if i = 1 then Some ((blank_task 1)\<lparr>state := TASK_RUNNING, ticks := 1\<rparr>)
     else if i = 2 then Some ((blank_task 2)\<lparr>state := TASK_SLEEPING, node := Some sleep_list, timeout := Some 8\<rparr>)
     else None)"
  by (auto simp: task_of_def rd_def sample_ks_def nth_append nth_Cons split: nat.splits)

lemma sample_fields [simp]:
  "running sample_ks = 1" "idle_task sample_ks = 0" "\<not> intr sample_ks" "timer_list sample_ks = [8]"
  "waiters sample_ks = (\<lambda>l. if l = sleep_list then [2] else [])" "jiffies sample_ks = 99"
  "timer_at sample_ks = [8 \<mapsto> \<lparr>t_task = 2, expires = 100, handler = Default, active = False\<rparr>]"
  "length (task_table sample_ks) = TASK_NR"
  by (simp_all add: sample_ks_def TASK_NR_def)

lemma blank_fields [simp]:
  "state (blank_task i) = TASK_READY" "node (blank_task i) = None" "timeout (blank_task i) = None"
  by (simp_all add: blank_task_def)

lemma sample_sched_inv: "sched_inv sample_ks"
  unfolding sched_inv_def switch_inv_def sample_tasks by (auto simp: wait_state_def)

lemma sample_timer_inv: "timer_inv sample_ks"
  unfolding timer_inv_def sample_tasks by (auto simp: wait_state_def split: if_splits)

lemma sample_default: "default_timers sample_ks"
  by (auto simp: default_timers_def split: if_splits)

theorem schedule_picks_ready_witness:
  "switch_inv sample_ks \<and> (\<exists>s'. schedule sample_ks = Some s' \<and> sched_inv s' \<and> running s' = 0)"
proof -
  have "runnable sample_ks = {0}" by (auto simp: runnable_def sample_tasks TASK_NR_def split: if_splits)
  then show ?thesis using schedule_picks_ready [of sample_ks] sample_sched_inv by (auto simp: sched_inv_def)
qed

theorem clock_wakes_expired_witness:
  "\<exists>s' t'. clock_handler (\<lambda>_ _ _. None) sample_ks = Some s' \<and> jiffies s' = 100 \<and> task_of 2 s' = Some t'
     \<and> status t' = neg_errno ETIME"
proof -
  obtain s' where s': "clock_handler (\<lambda>_ _ _. None) sample_ks = Some s'" "jiffies s' = jiffies sample_ks + 1"
    "\<forall>i t. task_of i sample_ks = Some t \<and> expired (sample_ks\<lparr>jiffies := jiffies sample_ks + 1\<rparr>) t
        \<longrightarrow> (\<exists>t'. task_of i s' = Some t' \<and> timeout t' = None \<and> status t' = neg_errno ETIME
          \<and> state t' = (if i = running s' then TASK_RUNNING else TASK_READY))"
    using clock_wakes_expired [OF sample_sched_inv sample_timer_inv sample_default, of "\<lambda>_ _ _. None"] by auto
  let ?t = "(blank_task 2)\<lparr>state := TASK_SLEEPING, node := Some sleep_list, timeout := Some 8\<rparr>"
  have "task_of 2 sample_ks = Some ?t" "expired (sample_ks\<lparr>jiffies := jiffies sample_ks + 1\<rparr>) ?t"
    by (simp_all add: sample_tasks expired_def)
  then show ?thesis using s' by fastforce
qed

theorem clock_stops_at_EOF_witness:
  "clock_handler (\<lambda>_ _ _. None) (sample_ks\<lparr>timer_list := [], jiffies := 4294967195\<rparr>) = None"
  by (rule clock_stops_at_EOF) simp_all

end
