(* ===== verification/Process.thy ===== *)
theory Process
  imports Task
begin

section \<open>Processes: \<open>kernel/task.c\<close>, \<open>kernel/system.c\<close>\<close>

text \<open>
  Fork, exit and wait, process groups and sessions. What these functions do to memory pages, the
  kernel heap, i-nodes, open files and terminals is done by the operations of those components,
  which are collected in \<open>ops\<close> and work on the part \<open>rest\<close> of the state; they are called in the
  order of the code, with the arguments of the code.
\<close>

record 'r ops =
  o_alloc_kpage :: "u32 \<Rightarrow> 'r \<Rightarrow> (u32 \<times> 'r) option"
  o_free_kpage :: "u32 \<Rightarrow> u32 \<Rightarrow> 'r \<Rightarrow> 'r option"
  o_kmalloc :: "u32 \<Rightarrow> 'r \<Rightarrow> (u32 \<times> 'r) option"
  o_kfree :: "u32 \<Rightarrow> 'r \<Rightarrow> 'r option"
  o_memcpy :: "u32 \<Rightarrow> u32 \<Rightarrow> u32 \<Rightarrow> 'r \<Rightarrow> 'r option"
  o_strncpy :: "u32 \<Rightarrow> u32 \<Rightarrow> u32 \<Rightarrow> 'r \<Rightarrow> 'r option"
  o_copy_pde :: "'r \<Rightarrow> (u32 \<times> 'r) option"
  o_free_pde :: "'r \<Rightarrow> 'r option"
  o_inode_ref :: "nat \<Rightarrow> 'r \<Rightarrow> 'r option"
  o_iput :: "nat \<Rightarrow> 'r \<Rightarrow> 'r option"
  o_file_ref :: "nat \<Rightarrow> 'r \<Rightarrow> 'r option"
  o_put_file :: "nat \<Rightarrow> 'r \<Rightarrow> 'r option"
  o_tty_release :: "int \<Rightarrow> 'r \<Rightarrow> 'r option"

text \<open>An operation of another component.\<close>

definition on_rest :: "('r \<Rightarrow> 'r option) \<Rightarrow> 'r ks \<Rightarrow> 'r ks option" where
  "on_rest f s = do { r \<leftarrow> f (rest s); Some (s\<lparr>rest := r\<rparr>) }"

definition get_rest :: "('r \<Rightarrow> ('a \<times> 'r) option) \<Rightarrow> 'r ks \<Rightarrow> ('a \<times> 'r ks) option" where
  "get_rest f s = do { (x, r) \<leftarrow> f (rest s); Some (x, s\<lparr>rest := r\<rparr>) }"

definition SIZEOF_BITMAP :: u32 where [c_defs]: "SIZEOF_BITMAP = 12"
definition SIZEOF_FPU :: u32 where [c_defs]: "SIZEOF_FPU = 104"
definition PAGE_BYTES :: u32 where [c_defs]: "PAGE_BYTES = 0x1000"

subsection \<open>Fork\<close>

definition zero_task :: task where
  "zero_task = \<lparr>page = 0, node = None, state = TASK_INIT, priority = 0, ticks = 0, last_jiffies = 0, uid = 0,
     pid = 0, ppid = 0, pgid = 0, sid = 0, tty = 0, status = 0, waitpid = 0, pde = 0, vmap = 0, vmap_bits = 0,
     fpu = 0, fpu_flags = 0, pwd = 0, ipwd = 0, iroot = 0, iexec = None, umask = 0, files = replicate 16 None, sigs = 0,
     blocked = 0, alarm = None, timeout = None,
     actions = replicate 31 \<lparr>sa_handler = 0, sa_mask = 0, sa_flags = 0, sa_restorer = 0\<rparr>\<rparr>"

definition get_free_task :: "'r ops \<Rightarrow> 'r ks \<Rightarrow> (nat \<times> 'r ks) option" where
  "get_free_task ops s = do {
     i \<leftarrow> List.find (\<lambda>i. task_of i s = None) [0..<TASK_NR];
     (p, s) \<leftarrow> get_rest (o_alloc_kpage ops 1) s;
     s \<leftarrow> set_task i (zero_task\<lparr>page := p, pid := i\<rparr>) s;
     Some (i, s) }"

definition ref_files :: "'r ops \<Rightarrow> nat option list \<Rightarrow> 'r ks \<Rightarrow> 'r ks option" where
  "ref_files ops fs s = foldM (\<lambda>f s. case f of None \<Rightarrow> Some s | Some f \<Rightarrow> on_rest (o_file_ref ops f) s) fs s"

text \<open>Copying what the process holds.\<close>

definition fork_resources :: "'r ops \<Rightarrow> task \<Rightarrow> nat \<Rightarrow> 'r ks \<Rightarrow> 'r ks option" where
  "fork_resources ops t c s = do {
     (vm, s) \<leftarrow> get_rest (o_kmalloc ops SIZEOF_BITMAP) s;
     s \<leftarrow> upd_task c (\<lambda>t. t\<lparr>vmap := vm\<rparr>) s;
     s \<leftarrow> on_rest (o_memcpy ops vm (vmap t) SIZEOF_BITMAP) s;
     (buf, s) \<leftarrow> get_rest (o_alloc_kpage ops 1) s;
     s \<leftarrow> on_rest (o_memcpy ops buf (vmap_bits t) PAGE_BYTES) s;
     s \<leftarrow> upd_task c (\<lambda>t. t\<lparr>vmap_bits := buf\<rparr>) s;
     s \<leftarrow> (if fpu t \<noteq> 0 then do {
         (fp, s) \<leftarrow> get_rest (o_kmalloc ops SIZEOF_FPU) s;
         s \<leftarrow> upd_task c (\<lambda>t. t\<lparr>fpu := fp\<rparr>) s;
         on_rest (o_memcpy ops fp (fpu t) SIZEOF_FPU) s }
       else Some s);
     (pd, s) \<leftarrow> get_rest (o_copy_pde ops) s;
     s \<leftarrow> upd_task c (\<lambda>t. t\<lparr>pde := pd\<rparr>) s;
     (pw, s) \<leftarrow> get_rest (o_alloc_kpage ops 1) s;
     s \<leftarrow> upd_task c (\<lambda>t. t\<lparr>pwd := pw\<rparr>) s;
     s \<leftarrow> on_rest (o_strncpy ops pw (pwd t) PAGE_BYTES) s;
     s \<leftarrow> on_rest (o_inode_ref ops (ipwd t)) s;
     s \<leftarrow> on_rest (o_inode_ref ops (iroot t)) s;
     s \<leftarrow> (case iexec t of None \<Rightarrow> Some s | Some e \<Rightarrow> on_rest (o_inode_ref ops e) s);
     ref_files ops (files t) s }"

definition task_fork :: "'r ops \<Rightarrow> 'r ks \<Rightarrow> (nat \<times> 'r ks) option" where
  "task_fork ops s = do {
     t \<leftarrow> task_of (running s) s;
     c_assert (node t = None \<and> state t = TASK_RUNNING);
     (c, s) \<leftarrow> get_free_task ops s;
     child \<leftarrow> task_of c s;
     s \<leftarrow> set_task c (t\<lparr>page := page child, pid := pid child, ppid := pid t, ticks := priority t, state := TASK_READY\<rparr>) s;
     s \<leftarrow> fork_resources ops t c s;
     Some (pid child, s) }"

subsection \<open>Exit\<close>

text \<open>A loop over the slots that changes some of the tasks.\<close>

definition for_tasks :: "nat list \<Rightarrow> (nat \<Rightarrow> task \<Rightarrow> bool) \<Rightarrow> (task \<Rightarrow> task) \<Rightarrow> 'r ks \<Rightarrow> 'r ks option" where
  "for_tasks xs P f s = foldM (\<lambda>i s. case task_of i s of None \<Rightarrow> Some s
     | Some t \<Rightarrow> if P i t then set_task i (f t) s else Some s) xs s"

definition task_kill_session :: "nat \<Rightarrow> 'r ks \<Rightarrow> 'r ks option" where
  "task_kill_session i s = do {
     t \<leftarrow> task_of i s;
     if \<not> task_leader t then Some s
     else for_tasks [0..<TASK_NR] (\<lambda>j c. \<not> (i = j \<or> sid t \<noteq> sid c)) (\<lambda>c. c\<lparr>sigs := sigs c OR SIGMASK SIGHUP\<rparr>) s }"

definition task_free_tty :: "'r ops \<Rightarrow> nat \<Rightarrow> 'r ks \<Rightarrow> 'r ks option" where
  "task_free_tty ops i s = do {
     t \<leftarrow> task_of i s;
     if task_leader t \<and> tty t > 0 then on_rest (o_tty_release ops (tty t)) s else Some s }"

definition task_tell_father :: "nat \<Rightarrow> 'r ks \<Rightarrow> 'r ks option" where
  "task_tell_father i s = do {
     t \<leftarrow> task_of i s;
     if ppid t = 0 then Some s
     else do {
       j \<leftarrow> List.find (\<lambda>j. find_pid (int (ppid t)) j s) [0..<TASK_NR];
       upd_task j (\<lambda>p. p\<lparr>sigs := sigs p OR SIGMASK SIGCHLD\<rparr>) s } }"

definition SIG_DFL :: u32 where [c_defs]: "SIG_DFL = 0"
definition SIG_IGN :: u32 where [c_defs]: "SIG_IGN = 1"

definition pending :: "task \<Rightarrow> u32" where
  "pending t = sigs t AND NOT (blocked t)"

text \<open>The lowest signal of the map; 32 when the loop runs to its end.\<close>

definition first_signal :: "u32 \<Rightarrow> int" where
  "first_signal m = (case List.find (\<lambda>sig. m AND SIGMASK sig \<noteq> 0) [1..31] of Some sig \<Rightarrow> sig | None \<Rightarrow> 32)"

text \<open>
  \<open>close\<close> is a system call also here, so \<open>task_signal\<close> looks for signals when it returns to \<open>task_exit\<close>.
  A signal that is ignored is taken from the map. Any other has no defined outcome, as the task has
  died already: the default way out is \<open>task_exit\<close> again, whose first assertion fails, and the frame of
  a handler would be written to a user stack whose pages \<open>free_pde\<close> has given back.
\<close>

definition exit_signal :: "nat \<Rightarrow> 'r ks \<Rightarrow> 'r ks option" where
  "exit_signal i s = do {
     t \<leftarrow> task_of i s;
     let m = pending t;
     if m = 0 then Some s
     else do {
       c_assert (uid t \<noteq> 0);
       let sig = first_signal m;
       a \<leftarrow> rd (actions t) (nat (sig - 1));
       if sa_handler a = SIG_IGN \<or> sa_handler a = SIG_DFL \<and> sig = SIGCHLD
       then upd_task i (\<lambda>t. t\<lparr>sigs := sigs t AND NOT (SIGMASK sig)\<rparr>) s
       else None } }"

definition close_fd :: "'r ops \<Rightarrow> nat \<Rightarrow> nat \<Rightarrow> 'r ks \<Rightarrow> 'r ks option" where
  "close_fd ops i fd s = do {
     t \<leftarrow> task_of i s;
     case files t ! fd of
       None \<Rightarrow> Some s
     | Some f \<Rightarrow> do {
         s \<leftarrow> on_rest (o_put_file ops f) s;
         t \<leftarrow> task_of i s;
         t \<leftarrow> task_put_fd t fd;
         s \<leftarrow> set_task i t s;
         exit_signal i s } }"

text \<open>Releasing what the process holds.\<close>

definition release_task :: "'r ops \<Rightarrow> nat \<Rightarrow> 'r ks \<Rightarrow> 'r ks option" where
  "release_task ops i s = do {
     t \<leftarrow> task_of i s;
     s \<leftarrow> on_rest (o_free_pde ops) s;
     s \<leftarrow> on_rest (o_free_kpage ops (vmap_bits t) 1) s;
     s \<leftarrow> on_rest (o_kfree ops (vmap t)) s;
     s \<leftarrow> (if fpu t \<noteq> 0 then do {
         s \<leftarrow> on_rest (o_kfree ops (fpu t)) s;
         upd_task i (\<lambda>t. t\<lparr>fpu := 0, fpu_flags := 0\<rparr>) s }
       else Some s);
     s \<leftarrow> on_rest (o_free_kpage ops (pwd t) 1) s;
     s \<leftarrow> on_rest (o_iput ops (ipwd t)) s;
     s \<leftarrow> on_rest (o_iput ops (iroot t)) s;
     s \<leftarrow> (case iexec t of None \<Rightarrow> Some s | Some e \<Rightarrow> on_rest (o_iput ops e) s);
     foldM (close_fd ops i) [0..<16] s }"

definition wake_father :: "nat \<Rightarrow> 'r ks \<Rightarrow> 'r ks option" where
  "wake_father i s = do {
     t \<leftarrow> task_of i s;
     p \<leftarrow> task_of (ppid t) s;
     if state p = TASK_WAITING \<and> (waitpid p = -1 \<or> waitpid p = int (pid t))
     then task_unblock (ppid t) (neg_errno EOK) s else Some s }"

definition task_exit :: "'r ops \<Rightarrow> int \<Rightarrow> 'r ks \<Rightarrow> 'r ks option" where
  "task_exit ops st s = do {
     let i = running s;
     t \<leftarrow> task_of i s;
     c_assert (node t = None \<and> state t = TASK_RUNNING);
     s \<leftarrow> set_task i (t\<lparr>state := TASK_DIED, status := st\<rparr>) s;
     s \<leftarrow> task_kill_session i s;
     s \<leftarrow> task_tell_father i s;
     s \<leftarrow> task_free_tty ops i s;
     s \<leftarrow> timer_remove i s;
     s \<leftarrow> release_task ops i s;
     s \<leftarrow> for_tasks [2..<TASK_NR] (\<lambda>_ c. ppid c = pid t) (\<lambda>c. c\<lparr>ppid := ppid t\<rparr>) s;
     s \<leftarrow> wake_father i s;
     schedule s }"

subsection \<open>Wait\<close>

datatype wait = Reaped int nat | No_child | Waits

text \<open>One round of the loop: the first dead child is removed; otherwise the caller blocks when it
  has a child that fits, and looks again when it runs.\<close>

definition is_child :: "int \<Rightarrow> nat \<Rightarrow> 'r ks \<Rightarrow> nat \<Rightarrow> bool" where
  "is_child p parent s i = (case task_of i s of None \<Rightarrow> False
     | Some t \<Rightarrow> ppid t = parent \<and> (p = int (pid t) \<or> p = -1))"

definition is_dead :: "'r ks \<Rightarrow> nat \<Rightarrow> bool" where
  "is_dead s i = (case task_of i s of None \<Rightarrow> False | Some t \<Rightarrow> state t = TASK_DIED)"

definition task_waitpid :: "'r ops \<Rightarrow> int \<Rightarrow> 'r ks \<Rightarrow> (wait \<times> 'r ks) option" where
  "task_waitpid ops p s = do {
     t \<leftarrow> task_of (running s) s;
     case List.find (\<lambda>i. is_child p (pid t) s i \<and> is_dead s i) [2..<TASK_NR] of
       Some i \<Rightarrow> do {
         c \<leftarrow> task_of i s;
         tb \<leftarrow> wr (task_table s) i None;
         s \<leftarrow> on_rest (o_free_kpage ops (page c) 1) (s\<lparr>task_table := tb\<rparr>);
         Some (Reaped (status c) (pid c), s) }
     | None \<Rightarrow>
         if list_ex (is_child p (pid t) s) [2..<TASK_NR] then do {
           s \<leftarrow> upd_task (running s) (\<lambda>t. t\<lparr>waitpid := p\<rparr>) s;
           s \<leftarrow> task_block (running s) block_list TASK_WAITING TIMELESS s;
           Some (Waits, s) }
         else Some (No_child, s) }"

subsection \<open>Groups and sessions\<close>

definition sys_umask :: "16 word \<Rightarrow> 'r ks \<Rightarrow> (16 word \<times> 'r ks) option" where
  "sys_umask m s = do {
     t \<leftarrow> task_of (running s) s;
     s \<leftarrow> set_task (running s) (t\<lparr>umask := m AND 0x1ff\<rparr>) s;
     Some (umask t, s) }"

definition sys_setpgid :: "int \<Rightarrow> int \<Rightarrow> 'r ks \<Rightarrow> (int \<times> 'r ks) option" where
  "sys_setpgid p pg s = do {
     current \<leftarrow> task_of (running s) s;
     let p = (if p = 0 then int (pid current) else p);
     let pg = (if pg = 0 then int (pid current) else pg);
     case get_task p s of
       None \<Rightarrow> Some (neg_errno ESRCH, s)
     | Some i \<Rightarrow> do {
         t \<leftarrow> task_of i s;
         if task_leader t then Some (neg_errno EPERM, s)
         else if sid t \<noteq> sid current then Some (neg_errno EPERM, s)
         else do { s \<leftarrow> set_task i (t\<lparr>pgid := pg\<rparr>) s; Some (neg_errno EOK, s) } } }"

definition sys_getpgrp :: "'r ks \<Rightarrow> int option" where
  "sys_getpgrp s = map_option pgid (task_of (running s) s)"

definition sys_setsid :: "'r ks \<Rightarrow> (int \<times> 'r ks) option" where
  "sys_setsid s = do {
     t \<leftarrow> task_of (running s) s;
     if task_leader t then Some (neg_errno EPERM, s)
     else do {
       s \<leftarrow> set_task (running s) (t\<lparr>sid := pid t, pgid := int (pid t)\<rparr>) s;
       Some (int (pid t), s) } }"

subsection \<open>The family of processes\<close>

text \<open>Operations that keep every task, its parent and its life.\<close>

definition keeps :: "task \<Rightarrow> task \<Rightarrow> bool" where
  "keeps t t' \<longleftrightarrow> pid t' = pid t \<and> ppid t' = ppid t \<and> (state t \<noteq> TASK_DIED \<longrightarrow> state t' \<noteq> TASK_DIED)"

definition same_family :: "'r ks \<Rightarrow> 'r ks \<Rightarrow> bool" where
  "same_family s s' \<longleftrightarrow> (\<forall>i. case task_of i s of None \<Rightarrow> task_of i s' = None
     | Some t \<Rightarrow> \<exists>t'. task_of i s' = Some t' \<and> keeps t t')"

lemma same_family_refl [simp, intro]: "same_family s s"
  by (auto simp: same_family_def keeps_def split: option.splits)

lemma same_family_trans [trans]: "same_family s1 s2 \<Longrightarrow> same_family s2 s3 \<Longrightarrow> same_family s1 s3"
  unfolding same_family_def keeps_def by (auto split: option.splits) (metis option.inject option.distinct(1))+

lemma same_family_table: "task_table s' = task_table s \<Longrightarrow> same_family s s'"
  by (auto simp: same_family_def task_of_def keeps_def split: option.splits)

lemma same_family_table_l: "task_table s1 = task_table s \<Longrightarrow> same_family s1 s' = same_family s s'"
  by (simp add: same_family_def task_of_def)

lemma same_family_set: "set_task i t' s = Some s' \<Longrightarrow> task_of i s = Some t \<Longrightarrow> keeps t t' \<Longrightarrow> same_family s s'"
proof -
  assume a: "set_task i t' s = Some s'" "task_of i s = Some t" "keeps t t'"
  then have s': "s' = put i t' s"
    using task_of_less [OF a(2)] by (simp add: set_task_def put_def)
  show ?thesis unfolding s' same_family_def using a(2,3) by (auto simp: keeps_def split: option.splits)
qed

lemma same_family_upd:
  assumes "upd_task i f s = Some s'" "\<And>t. task_of i s = Some t \<Longrightarrow> keeps t (f t)"
  shows "same_family s s'"
proof -
  obtain t where "task_of i s = Some t" "set_task i (f t) s = Some s'"
    using assms(1) by (auto simp: upd_task_def bind_eq_Some_conv)
  then show ?thesis using same_family_set assms(2) by blast
qed

lemma same_family_foldM:
  assumes "\<And>x s s'. f x s = Some s' \<Longrightarrow> same_family s s'"
  shows "foldM f xs s = Some s' \<Longrightarrow> same_family s s'"
proof (induction xs arbitrary: s)
  case (Cons x xs)
  then obtain u where "f x s = Some u" "foldM f xs u = Some s'" by (auto simp: bind_eq_Some_conv)
  then show ?case using assms Cons.IH same_family_trans by blast
qed simp

text \<open>\<open>stays s m\<close>: every result of \<open>m\<close> has the family of \<open>s\<close>. The rules follow the statements of
  the model.\<close>

definition stays :: "'r ks \<Rightarrow> 'r ks option \<Rightarrow> bool" where
  "stays s m \<longleftrightarrow> (\<forall>s'. m = Some s' \<longrightarrow> same_family s s')"

definition stays2 :: "'r ks \<Rightarrow> ('a \<times> 'r ks) option \<Rightarrow> bool" where
  "stays2 s m \<longleftrightarrow> (\<forall>x s'. m = Some (x, s') \<longrightarrow> same_family s s')"

named_theorems family

lemma stays_Some [family]: "same_family s s' \<Longrightarrow> stays s (Some s')"
  and stays_None [family]: "stays s None"
  and stays2_Some [family]: "same_family s s' \<Longrightarrow> stays2 s (Some (x, s'))"
  and stays2_None [family]: "stays2 s None"
  by (simp_all add: stays_def stays2_def)

lemma stays_from: "same_family s u \<Longrightarrow> stays u m \<Longrightarrow> stays s m"
  and stays2_from: "same_family s u \<Longrightarrow> stays2 u m' \<Longrightarrow> stays2 s m'"
  using same_family_trans by (auto simp: stays_def stays2_def)

lemma stays_step [family]: "stays s m \<Longrightarrow> (\<And>u. stays u (f u)) \<Longrightarrow> stays s (Option.bind m f)"
  using same_family_trans by (fastforce simp: stays_def bind_eq_Some_conv)

lemma stays_step2 [family]:
  "stays2 s m \<Longrightarrow> (\<And>x u. stays u (f x u)) \<Longrightarrow> stays s (Option.bind m (\<lambda>(x, u). f x u))"
  using same_family_trans by (fastforce simp: stays_def stays2_def bind_eq_Some_conv)

lemma stays2_step [family]: "stays s m \<Longrightarrow> (\<And>u. stays2 u (f u)) \<Longrightarrow> stays2 s (Option.bind m f)"
  using same_family_trans by (fastforce simp: stays_def stays2_def bind_eq_Some_conv)

lemma stays2_step2 [family]:
  "stays2 s m \<Longrightarrow> (\<And>x u. stays2 u (f x u)) \<Longrightarrow> stays2 s (Option.bind m (\<lambda>(x, u). f x u))"
  using same_family_trans by (fastforce simp: stays2_def bind_eq_Some_conv)

lemma stays_if [family]: "(c \<Longrightarrow> stays s a) \<Longrightarrow> (\<not> c \<Longrightarrow> stays s b) \<Longrightarrow> stays s (if c then a else b)"
  and stays2_if [family]: "(c \<Longrightarrow> stays2 s a') \<Longrightarrow> (\<not> c \<Longrightarrow> stays2 s b') \<Longrightarrow> stays2 s (if c then a' else b')"
  by simp_all

lemma stays_assert: "stays s (f ()) \<Longrightarrow> stays s (Option.bind (c_assert b) f)"
  and stays2_assert: "stays2 s (g ()) \<Longrightarrow> stays2 s (Option.bind (c_assert b) g)"
  by (simp_all add: stays_def stays2_def c_assert_def)

lemma stays_val: "(\<And>v. x = Some v \<Longrightarrow> stays s (f v)) \<Longrightarrow> stays s (Option.bind x f)"
  and stays2_val: "(\<And>v. x = Some v \<Longrightarrow> stays2 s (g v)) \<Longrightarrow> stays2 s (Option.bind x g)"
  by (auto simp: stays_def stays2_def bind_eq_Some_conv)

lemma stays_case [family]:
  "(x = None \<Longrightarrow> stays s a) \<Longrightarrow> (\<And>v. x = Some v \<Longrightarrow> stays s (f v)) \<Longrightarrow> stays s (case x of None \<Rightarrow> a | Some v \<Rightarrow> f v)"
  "(x = None \<Longrightarrow> stays2 s a') \<Longrightarrow> (\<And>v. x = Some v \<Longrightarrow> stays2 s (g v)) \<Longrightarrow> stays2 s (case x of None \<Rightarrow> a' | Some v \<Rightarrow> g v)"
  by (auto split: option.split)

lemma stays_upd: "(\<And>t. task_of i s = Some t \<Longrightarrow> keeps t (f t)) \<Longrightarrow> stays s (upd_task i f s)"
  unfolding stays_def using same_family_upd [of i f s] by blast

lemma stays_table: "task_table u = task_table s \<Longrightarrow> stays u m \<Longrightarrow> stays s m"
  using stays_from same_family_table by blast

lemma stays_foldM [family]: "(\<And>x u. stays u (f x u)) \<Longrightarrow> stays s (foldM f xs s)"
  unfolding stays_def using same_family_foldM [of f] by blast

lemma on_rest_family [family]: "stays s (on_rest f s)"
  by (auto simp: on_rest_def stays_def bind_eq_Some_conv intro: same_family_table)

lemma timer_put_family [family]: "stays s (timer_put a s)"
  by (auto simp: timer_put_def stays_def bind_eq_Some_conv c_assert_def split: if_splits intro: same_family_table)

lemmas fam_steps = stays_assert stays2_assert stays_if stays2_if stays_case stays_Some stays2_Some stays_None
  stays2_None stays_step stays2_step stays_step2 stays2_step2 stays_val stays2_val stays_foldM stays_upd

lemma timer_remove_family [family]: "stays s (timer_remove i s)"
  unfolding timer_remove_def remove_visit_def by (rule family fam_steps | simp)+

lemma waiters_family: "stays (s\<lparr>waiters := w\<rparr>) m \<Longrightarrow> stays s m"
  by (rule stays_table [of "s\<lparr>waiters := w\<rparr>"]) simp_all

lemma push_node_family [family]: "stays s (push_node l i s)"
  unfolding push_node_def
  by (rule stays_assert, rule waiters_family, rule stays_upd) (simp add: keeps_def)

lemma remove_node_family [family]: "stays s (remove_node i s)"
  unfolding remove_node_def
  by (rule stays_val, rule stays_val, rule waiters_family, rule stays_upd) (simp add: keeps_def)

lemma drop_timeout_family [family]: "stays s (drop_timeout i s)"
  unfolding drop_timeout_def by (rule family fam_steps | simp add: keeps_def)+

lemma task_unblock_family [family]: "stays s (task_unblock i r s)"
  unfolding task_unblock_def by (rule family fam_steps | simp add: keeps_def)+

lemma schedule_family [family]: "stays s (schedule s)"
  unfolding schedule_def by (rule family fam_steps same_family_table | simp add: keeps_def)+

lemma timer_add_family [family]:
  assumes "\<And>a u. stays u (f a u)"
  shows "stays s (let (a, u) = timer_add ms h s in f a u)"
proof -
  have "task_table (snd (timer_add ms h s)) = task_table s" by (auto simp: timer_add_def timer_link_def Let_def)
  then show ?thesis using stays_table [OF _ assms] by (auto simp: Let_def split: prod.splits)
qed

lemma task_block_family [family]: "st \<noteq> TASK_DIED \<Longrightarrow> stays s (task_block i l st ms s)"
  unfolding task_block_def by (rule family fam_steps | simp add: keeps_def)+

lemma sys_kill_family [family]: "stays2 s (sys_kill p sig s)"
  unfolding sys_kill_def by (rule family fam_steps same_family_refl | simp add: keeps_def)+

lemma task_alarm_family [family]: "stays s (task_alarm a s)"
  unfolding task_alarm_def by (rule family fam_steps same_family_refl | simp add: keeps_def)+

lemma sys_alarm_family [family]: "stays s (sys_alarm n s)"
  unfolding sys_alarm_def by (rule family fam_steps same_family_refl | simp add: keeps_def)+

lemma default_timeout_family [family]: "stays s (default_timeout a s)"
  unfolding default_timeout_def by (rule family fam_steps same_family_refl | simp add: keeps_def)+

lemma fire_family:
  assumes "\<And>h a s. stays s (run h a s)"
  shows "stays s (fire run a s)"
proof -
  have h: "stays u (case hd of Default \<Rightarrow> default_timeout a u | Task_alarm \<Rightarrow> task_alarm a u | Handler h \<Rightarrow> run h a u)"
    for hd u using assms by (auto split: handler.split intro: family)
  have t: "stays (s\<lparr>timer_at := ta\<rparr>) m \<Longrightarrow> stays s m" for ta m by (rule stays_table) simp_all
  show ?thesis unfolding fire_def Let_def
    by (rule stays_val, rule t, rule stays_assert, rule stays_step, rule h, rule timer_put_family)
qed

lemma timer_wakeup_family [family]:
  assumes "\<And>h a s. stays s (run h a s)"
  shows "stays s (timer_wakeup run s)"
proof -
  have "same_family s s'" if "timer_wakeup run s = Some s'" for s'
  proof -
    have "(\<forall>h a s. stays s (run h a s)) \<longrightarrow> same_family s s'"
    proof (rule timer_wakeup.raw_induct [OF _ that], rule impI)
      fix wake :: "(nat \<Rightarrow> nat \<Rightarrow> 'a ks \<Rightarrow> 'a ks option) \<Rightarrow> 'a ks \<Rightarrow> 'a ks option" and run s s'
      assume IH: "\<And>run s s'. wake run s = Some s' \<Longrightarrow> (\<forall>h a s. stays s (run h a s)) \<longrightarrow> same_family s s'"
        and eq: "(do { e \<leftarrow> timer_expires s;
           if e \<le> jiffies s then (case timer_list s of [] \<Rightarrow> None | a # _ \<Rightarrow> do { s \<leftarrow> fire run a s; wake run s })
           else Some s }) = Some s'"
        and run: "\<forall>h a s. stays s (run h a s)"
      have w: "stays u (wake run u)" for u using IH run by (simp add: stays_def)
      have f: "stays u (fire run a u)" for a u by (rule fire_family) (use run in blast)
      have "stays s (do { e \<leftarrow> timer_expires s;
         if e \<le> jiffies s then (case timer_list s of [] \<Rightarrow> None | a # _ \<Rightarrow> do { s \<leftarrow> fire run a s; wake run s })
         else Some s })"
        by (cases "timer_list s") (rule fam_steps f w same_family_refl | simp)+
      then show "same_family s s'" using eq by (simp add: stays_def)
    qed
    then show ?thesis using assms by blast
  qed
  then show ?thesis by (simp add: stays_def)
qed

lemma clock_handler_family:
  assumes "\<And>h a s. stays s (run h a s)"
  shows "stays s (clock_handler run s)"
proof -
  have t: "stays (s\<lparr>jiffies := j\<rparr>) m \<Longrightarrow> stays s m" for j m by (rule stays_table) simp_all
  show ?thesis unfolding clock_handler_def
    by (rule t [of "jiffies s + 1"]) (rule timer_wakeup_family assms family fam_steps same_family_refl | simp add: keeps_def)+
qed

definition family_ok :: "(nat \<Rightarrow> nat) \<Rightarrow> 'r ks \<Rightarrow> bool" where
  "family_ok rank s \<longleftrightarrow> task_of 0 s \<noteq> None \<and> task_of 1 s \<noteq> None \<and> (\<forall>i t. task_of i s = Some t \<longrightarrow>
     i < TASK_NR \<and> pid t = i \<and> (i < 2 \<longrightarrow> ppid t = 0)
     \<and> (ppid t \<noteq> 0 \<longrightarrow> rank (ppid t) < rank i \<and> (\<exists>p. task_of (ppid t) s = Some p \<and> state p \<noteq> TASK_DIED)))"

definition proc_inv :: "'r ks \<Rightarrow> bool" where
  "proc_inv s \<longleftrightarrow> (\<exists>rank. family_ok rank s)"

lemma family_okD:
  assumes "family_ok rank s" "task_of i s = Some t"
  shows "pid t = i" "i < 2 \<Longrightarrow> ppid t = 0" "ppid t \<noteq> 0 \<Longrightarrow> rank (ppid t) < rank i"
    "ppid t \<noteq> 0 \<Longrightarrow> \<exists>p. task_of (ppid t) s = Some p \<and> state p \<noteq> TASK_DIED" "i < TASK_NR"
  using assms by (simp_all add: family_ok_def)

lemma same_family_forth:
  assumes "same_family s s'" "task_of i s = Some t"
  shows "\<exists>t'. task_of i s' = Some t' \<and> keeps t t'"
  using spec [OF assms(1) [unfolded same_family_def], of i] assms(2) by simp

lemma same_family_back:
  assumes "same_family s s'" "task_of i s' = Some t'"
  shows "\<exists>t. task_of i s = Some t \<and> keeps t t'"
  using spec [OF assms(1) [unfolded same_family_def], of i] assms(2) by (cases "task_of i s") simp_all

lemma same_family_ok:
  assumes "family_ok rank s" "same_family s s'"
  shows "family_ok rank s'"
proof -
  have "i < TASK_NR \<and> pid t' = i \<and> (i < 2 \<longrightarrow> ppid t' = 0)
     \<and> (ppid t' \<noteq> 0 \<longrightarrow> rank (ppid t') < rank i \<and> (\<exists>p. task_of (ppid t') s' = Some p \<and> state p \<noteq> TASK_DIED))"
    if i: "task_of i s' = Some t'" for i t'
  proof -
    obtain t where t: "task_of i s = Some t" "pid t' = pid t" "ppid t' = ppid t"
      using same_family_back [OF assms(2) i] by (auto simp: keeps_def)
    moreover have "\<exists>p. task_of (ppid t) s' = Some p \<and> state p \<noteq> TASK_DIED" if p: "ppid t \<noteq> 0"
      using family_okD(4) [OF assms(1) t(1) p] same_family_forth [OF assms(2)] by (fastforce simp: keeps_def)
    ultimately show ?thesis using family_okD [OF assms(1) t(1)] by simp
  qed
  moreover have "task_of k s' \<noteq> None" if "task_of k s \<noteq> None" for k
    using same_family_forth [OF assms(2)] that by auto
  ultimately show ?thesis using assms(1) by (simp add: family_ok_def)
qed

lemma stays_family_ok: "family_ok rank s \<Longrightarrow> stays s m \<Longrightarrow> m = Some s' \<Longrightarrow> family_ok rank s'"
  and stays2_family_ok: "family_ok rank s \<Longrightarrow> stays2 s m' \<Longrightarrow> m' = Some (x, s') \<Longrightarrow> family_ok rank s'"
  using same_family_ok by (auto simp: stays_def stays2_def)

text \<open>The new task of a fork, before its resources are copied.\<close>

lemma fork_family_ok:
  assumes "family_ok rank s" "task_of i s = Some t" "state t \<noteq> TASK_DIED" "task_of c s = None"
    and "c < length (task_table s)" "pid u = c" "ppid u = pid t" "c < TASK_NR"
  shows "family_ok (rank(c := Suc (rank i))) (put c u s)"
proof -
  have e: "task_of j (put c u s) = (if j = c then Some u else task_of j s)" for j
    using assms(5) by (simp add: task_of_put)
  have "c \<noteq> 0" "c \<noteq> 1" using assms(1,4) by (metis family_ok_def)+
  then have c2: "\<not> c < 2" by linarith
  have i: "i \<noteq> c" "pid t = i" using assms(2,4) family_okD(1) [OF assms(1,2)] by auto
  have "j < TASK_NR \<and> pid t' = j \<and> (j < 2 \<longrightarrow> ppid t' = 0) \<and> (ppid t' \<noteq> 0 \<longrightarrow> (rank(c := Suc (rank i))) (ppid t') < (rank(c := Suc (rank i))) j
      \<and> (\<exists>p. task_of (ppid t') (put c u s) = Some p \<and> state p \<noteq> TASK_DIED))"
    if "task_of j (put c u s) = Some t'" for j t'
  proof (cases "j = c")
    case True
    then have "t' = u" using that e by simp
    then show ?thesis using True assms i c2 by (simp add: e)
  next
    case False
    then have j: "task_of j s = Some t'" using that e by simp
    note f = family_okD [OF assms(1) j]
    have "ppid t' \<noteq> 0 \<Longrightarrow> ppid t' \<noteq> c" using f(4) assms(4) by auto
    then show ?thesis using f False by (auto simp: e)
  qed
  then show ?thesis using assms(1) by (auto simp: family_ok_def e)
qed

lemma set_task_put: "i < length (task_table s) \<Longrightarrow> set_task i t s = Some (put i t s)"
  by (simp add: set_task_def put_def)

lemma get_free_task_spec:
  assumes "get_free_task ops s = Some (c, s1)"
  shows "\<exists>pg x. task_of c s = None \<and> c < TASK_NR \<and> c < length (task_table s)
    \<and> s1 = put c (zero_task\<lparr>page := pg, pid := c\<rparr>) (s\<lparr>rest := x\<rparr>)"
proof -
  obtain pg u where a: "List.find (\<lambda>i. task_of i s = None) [0..<TASK_NR] = Some c"
    "get_rest (o_alloc_kpage ops 1) s = Some (pg, u)" "set_task c (zero_task\<lparr>page := pg, pid := c\<rparr>) u = Some s1"
    using assms by (auto simp: get_free_task_def bind_eq_Some_conv)
  obtain x where u: "u = s\<lparr>rest := x\<rparr>" using a(2) by (auto simp: get_rest_def bind_eq_Some_conv)
  have len: "c < length (task_table s)" using a(3) u by (auto simp: set_task_def bind_eq_Some_conv wr_eq_Some)
  then show ?thesis using a(1,3) u set_task_put [of c u] by (auto simp: find_Some_iff)
qed

lemma get_rest_family [family]: "stays2 s (get_rest f s)"
  by (auto simp: get_rest_def stays2_def bind_eq_Some_conv intro: same_family_table)

lemma fork_resources_family: "stays s (fork_resources ops t c s)"
  unfolding fork_resources_def ref_files_def by (rule family fam_steps same_family_refl | simp add: keeps_def)+

lemma task_fork_family:
  assumes "proc_inv s" "task_fork ops s = Some (p, s')"
  shows "proc_inv s'"
proof -
  obtain rank where r: "family_ok rank s" using assms(1) by (auto simp: proc_inv_def)
  obtain t where t: "task_of (running s) s = Some t" "state t = TASK_RUNNING"
    using assms(2) by (auto simp: task_fork_def bind_eq_Some_conv c_assert_def split: if_splits)
  obtain c s1 where g: "get_free_task ops s = Some (c, s1)"
    using assms(2) by (auto simp: task_fork_def bind_eq_Some_conv split: prod.splits if_splits)
  obtain pg x where c: "task_of c s = None" "c < TASK_NR" "c < length (task_table s)"
    "s1 = put c (zero_task\<lparr>page := pg, pid := c\<rparr>) (s\<lparr>rest := x\<rparr>)"
    using get_free_task_spec [OF g] by blast
  let ?u = "t\<lparr>page := pg, pid := c, ppid := pid t, ticks := priority t, state := TASK_READY\<rparr>"
  let ?s = "put c ?u (s\<lparr>rest := x\<rparr>)"
  have "family_ok rank (s\<lparr>rest := x\<rparr>)" by (rule same_family_ok [OF r same_family_table]) simp
  then have "family_ok (rank(c := Suc (rank (running s)))) ?s"
    by (rule fork_family_ok [of rank _ "running s" t]) (use t c in \<open>simp_all\<close>)
  moreover have "fork_resources ops t c ?s = Some s'"
  proof -
    have "task_of c s1 = Some (zero_task\<lparr>page := pg, pid := c\<rparr>)" using c(3,4) by (simp add: task_of_put)
    then show ?thesis using assms(2) t g c(3,4)
      by (auto simp: task_fork_def bind_eq_Some_conv set_task_put c_assert_def split: if_splits)
  qed
  then have "same_family ?s s'" using fork_resources_family [of ?s ops t c] by (simp add: stays_def)
  ultimately show ?thesis using same_family_ok by (auto simp: proc_inv_def)
qed

lemma for_tasks_spec:
  assumes "distinct xs"
  shows "\<exists>s'. for_tasks xs P f s = Some s' \<and>
    (\<forall>j. task_of j s' = map_option (\<lambda>t. if j \<in> set xs \<and> P j t then f t else t) (task_of j s))"
  using assms
proof (induction xs arbitrary: s)
  case Nil
  have "map_option (\<lambda>t. t) x = x" for x :: "task option" by (cases x) simp_all
  then show ?case by (simp add: for_tasks_def)
next
  case (Cons x xs)
  let ?u = "case task_of x s of None \<Rightarrow> s | Some t \<Rightarrow> if P x t then put x (f t) s else s"
  have u: "task_of j ?u = map_option (\<lambda>t. if j = x \<and> P j t then f t else t) (task_of j s)" for j
    by (cases "task_of x s"; cases "task_of j s") auto
  have step: "for_tasks (x # xs) P f s = for_tasks xs P f ?u"
    using task_of_less [of x s] by (auto simp: for_tasks_def set_task_put split: option.splits)
  obtain s' where s': "for_tasks xs P f ?u = Some s'"
    "\<forall>j. task_of j s' = map_option (\<lambda>t. if j \<in> set xs \<and> P j t then f t else t) (task_of j ?u)"
    using Cons.IH [of ?u] Cons.prems by auto
  have "task_of j s' = map_option (\<lambda>t. if j \<in> set (x # xs) \<and> P j t then f t else t) (task_of j s)" for j
    using s'(2) u [of j] Cons.prems by (cases "task_of j s") auto
  then show ?case using step s'(1) by auto
qed

lemma for_tasks_family [family]: "(\<And>j t. P j t \<Longrightarrow> keeps t (f t)) \<Longrightarrow> stays s (for_tasks xs P f s)"
  unfolding for_tasks_def
proof (rule stays_foldM)
  fix i and u :: "'a ks"
  assume k: "\<And>j t. P j t \<Longrightarrow> keeps t (f t)"
  show "stays u (case task_of i u of None \<Rightarrow> Some u | Some t \<Rightarrow> if P i t then set_task i (f t) u else Some u)"
    using k same_family_set [of i _ u] by (auto simp: stays_def split: option.splits if_splits)
qed

lemma task_kill_session_family [family]: "stays s (task_kill_session i s)"
  unfolding task_kill_session_def by (rule family fam_steps same_family_refl | simp add: keeps_def)+

lemma task_tell_father_family [family]: "stays s (task_tell_father i s)"
  unfolding task_tell_father_def by (rule family fam_steps same_family_refl | simp add: keeps_def)+

lemma task_free_tty_family [family]: "stays s (task_free_tty ops i s)"
  unfolding task_free_tty_def by (rule family fam_steps same_family_refl | simp add: keeps_def)+

lemma wake_father_family [family]: "stays s (wake_father i s)"
  unfolding wake_father_def by (rule family fam_steps same_family_refl | simp add: keeps_def)+

lemma set_family [family]: "task_of i s = Some t \<Longrightarrow> keeps t t' \<Longrightarrow> stays s (set_task i t' s)"
  using same_family_set [of i t' s] by (auto simp: stays_def)

lemma exit_signal_family [family]: "stays s (exit_signal i s)"
  unfolding exit_signal_def Let_def by (rule family fam_steps same_family_refl | assumption | simp add: keeps_def)+

lemma put_fd_keeps: "task_put_fd t fd = Some t' \<Longrightarrow> keeps t t'"
  by (auto simp: task_put_fd_def c_assert_def keeps_def bind_eq_Some_conv split: if_splits)

lemma close_fd_family [family]: "stays s (close_fd ops i fd s)"
  unfolding close_fd_def by (rule family fam_steps same_family_refl | assumption | erule put_fd_keeps)+

lemma sys_setpgid_family [family]: "stays2 s (sys_setpgid p g s)"
  unfolding sys_setpgid_def Let_def by (rule family fam_steps same_family_refl | assumption | simp add: keeps_def)+

lemma sys_setsid_family [family]: "stays2 s (sys_setsid s)"
  unfolding sys_setsid_def by (rule family fam_steps same_family_refl | assumption | simp add: keeps_def)+

lemma release_task_family [family]: "stays s (release_task ops i s)"
  unfolding release_task_def by (rule family fam_steps same_family_refl | simp add: keeps_def)+

text \<open>The children of a task that has just died are given to its father.\<close>

lemma reparent_family_ok:
  assumes "family_ok rank s0" "task_of i s0 = Some t" "same_family (put i (t\<lparr>state := TASK_DIED, status := st\<rparr>) s0) s"
    and "for_tasks [2..<TASK_NR] (\<lambda>_ c. ppid c = i) (\<lambda>c. c\<lparr>ppid := ppid t\<rparr>) s = Some s'"
  shows "family_ok rank s'"
proof -
  have e': "task_of j s' = map_option (\<lambda>c. if j \<in> {2..<TASK_NR} \<and> ppid c = i then c\<lparr>ppid := ppid t\<rparr> else c) (task_of j s)" for j
    using for_tasks_spec [of "[2..<TASK_NR]" "\<lambda>_ c. ppid c = i" "\<lambda>c. c\<lparr>ppid := ppid t\<rparr>" s] assms(4) by auto
  have s: "task_of j s = Some c \<Longrightarrow> \<exists>c0. task_of j s0 = Some c0 \<and> pid c = pid c0 \<and> ppid c = ppid c0" for j c
    using same_family_back [OF assms(3), of j c] assms(2) by (auto simp: keeps_def split: if_splits)
  have alive: "task_of q s0 = Some p \<Longrightarrow> state p \<noteq> TASK_DIED \<Longrightarrow> q \<noteq> i \<Longrightarrow> \<exists>p'. task_of q s' = Some p' \<and> state p' \<noteq> TASK_DIED" for q p
  proof -
    assume a: "task_of q s0 = Some p" "state p \<noteq> TASK_DIED" "q \<noteq> i"
    then obtain p1 where "task_of q s = Some p1" "state p1 \<noteq> TASK_DIED"
      using same_family_forth [OF assms(3), of q p] assms(2) by (auto simp: keeps_def)
    then show "\<exists>p'. task_of q s' = Some p' \<and> state p' \<noteq> TASK_DIED" unfolding e' by simp
  qed
  note ti = family_okD [OF assms(1,2)]
  have "j < TASK_NR \<and> pid c' = j \<and> (j < 2 \<longrightarrow> ppid c' = 0)
     \<and> (ppid c' \<noteq> 0 \<longrightarrow> rank (ppid c') < rank j \<and> (\<exists>p. task_of (ppid c') s' = Some p \<and> state p \<noteq> TASK_DIED))"
    if jc: "task_of j s' = Some c'" for j c'
  proof -
    obtain c where c: "task_of j s = Some c" "c' = (if j \<in> {2..<TASK_NR} \<and> ppid c = i then c\<lparr>ppid := ppid t\<rparr> else c)"
      using jc unfolding e' by auto
    obtain c0 where c0: "task_of j s0 = Some c0" "pid c = pid c0" "ppid c = ppid c0" using s [OF c(1)] by blast
    note f = family_okD [OF assms(1) c0(1)]
    have j: "j < TASK_NR" using f(5) .
    show ?thesis
    proof (cases "j \<in> {2..<TASK_NR} \<and> ppid c = i")
      case True
      then have "rank i < rank j \<or> i = 0" using f(3) c0(3) by auto
      moreover have "ppid t = 0" if "i = 0" using ti(2) that by simp
      moreover have "ppid t \<noteq> i" if "ppid t \<noteq> 0" using ti(3) [OF that] by auto
      ultimately show ?thesis using True f(1) c c0 ti(3,4) alive by auto
    next
      case False
      then have "ppid c0 \<noteq> 0 \<Longrightarrow> ppid c0 \<noteq> i" using f(2) c0(3) j by auto
      then show ?thesis using False f j c c0 alive by auto
    qed
  qed
  moreover have "task_of k s' \<noteq> None" if k: "task_of k s0 \<noteq> None" for k
  proof -
    obtain k0 where "task_of k (put i (t\<lparr>state := TASK_DIED, status := st\<rparr>) s0) = Some k0"
      using k assms(2) by fastforce
    then show ?thesis using same_family_forth [OF assms(3)] unfolding e' by fastforce
  qed
  ultimately show ?thesis using assms(1) by (simp add: family_ok_def)
qed

lemma task_exit_family:
  assumes "proc_inv s" "task_exit ops st s = Some s'"
  shows "proc_inv s'"
proof -
  obtain rank where r: "family_ok rank s" using assms(1) by (auto simp: proc_inv_def)
  let ?i = "running s"
  obtain t where t: "task_of ?i s = Some t" using assms(2) by (auto simp: task_exit_def bind_eq_Some_conv Let_def)
  let ?s1 = "put ?i (t\<lparr>state := TASK_DIED, status := st\<rparr>) s"
  have p: "pid t = ?i" by (rule family_okD(1) [OF r t])
  have body: "(do {
       s \<leftarrow> task_kill_session ?i ?s1;
       s \<leftarrow> task_tell_father ?i s;
       s \<leftarrow> task_free_tty ops ?i s;
       s \<leftarrow> timer_remove ?i s;
       s \<leftarrow> release_task ops ?i s;
       s \<leftarrow> for_tasks [2..<TASK_NR] (\<lambda>_ c. ppid c = ?i) (\<lambda>c. c\<lparr>ppid := ppid t\<rparr>) s;
       s \<leftarrow> wake_father ?i s;
       schedule s }) = Some s'"
    using assms(2) t p set_task_put [OF task_of_less [OF t]]
    by (auto simp: task_exit_def Let_def c_assert_def split: if_splits)
  obtain s2 s3 where s2: "(do {
       s \<leftarrow> task_kill_session ?i ?s1;
       s \<leftarrow> task_tell_father ?i s;
       s \<leftarrow> task_free_tty ops ?i s;
       s \<leftarrow> timer_remove ?i s;
       release_task ops ?i s }) = Some s2"
    and s3: "for_tasks [2..<TASK_NR] (\<lambda>_ c. ppid c = ?i) (\<lambda>c. c\<lparr>ppid := ppid t\<rparr>) s2 = Some s3"
    and fin: "(do { s \<leftarrow> wake_father ?i s3; schedule s }) = Some s'"
    using body by (auto simp: bind_eq_Some_conv)
  have "stays ?s1 (do {
       s \<leftarrow> task_kill_session ?i ?s1;
       s \<leftarrow> task_tell_father ?i s;
       s \<leftarrow> task_free_tty ops ?i s;
       s \<leftarrow> timer_remove ?i s;
       release_task ops ?i s })"
    by (rule family fam_steps)+
  then have "same_family ?s1 s2" using s2 by (simp add: stays_def)
  from reparent_family_ok [OF r t this s3] have "family_ok rank s3" .
  moreover have "stays s3 (do { s \<leftarrow> wake_father ?i s3; schedule s })" by (rule family fam_steps)+
  ultimately show ?thesis using stays_family_ok [OF _ _ fin] by (auto simp: proc_inv_def)
qed

lemma reap_family_ok:
  assumes "family_ok rank s" "task_of i s = Some c" "state c = TASK_DIED" "2 \<le> i"
    and "task_table s' = (task_table s)[i := None]"
  shows "family_ok rank s'"
proof -
  have "i < length (task_table s)" by (rule task_of_less [OF assms(2)])
  then have e: "task_of j s' = (if j = i then None else task_of j s)" for j
    by (simp add: task_of_def assms(5) rd_def nth_list_update)
  have "\<exists>p. task_of (ppid t) s' = Some p \<and> state p \<noteq> TASK_DIED" if "task_of j s = Some t" "ppid t \<noteq> 0" for j t
    using family_okD(4) [OF assms(1) that] assms(2,3) unfolding e by auto
  then show ?thesis using assms(1,4) unfolding family_ok_def e by auto
qed

lemma task_waitpid_family:
  assumes "proc_inv s" "task_waitpid ops p s = Some (w, s')"
  shows "proc_inv s'"
proof -
  obtain rank where r: "family_ok rank s" using assms(1) by (auto simp: proc_inv_def)
  obtain t where t: "task_of (running s) s = Some t" using assms(2) by (auto simp: task_waitpid_def bind_eq_Some_conv)
  show ?thesis
  proof (cases "List.find (\<lambda>i. is_child p (pid t) s i \<and> is_dead s i) [2..<TASK_NR]")
    case (Some i)
    obtain u tb c where u: "wr (task_table s) i None = Some tb" "task_of i s = Some c"
      "on_rest (o_free_kpage ops (page c) 1) (s\<lparr>task_table := tb\<rparr>) = Some s'"
      using assms(2) t Some by (auto simp: task_waitpid_def bind_eq_Some_conv)
    have i: "2 \<le> i" "is_dead s i" using Some by (auto simp: find_Some_iff)
    have "task_table s' = (task_table s)[i := None]"
      using u by (auto simp: on_rest_def bind_eq_Some_conv wr_eq_Some)
    then show ?thesis using reap_family_ok [OF r u(2) _ i(1)] i(2) u(2) by (auto simp: is_dead_def proc_inv_def)
  next
    case None
    have "stays2 s (if list_ex (is_child p (pid t) s) [2..<TASK_NR] then do {
           s \<leftarrow> upd_task (running s) (\<lambda>t. t\<lparr>waitpid := p\<rparr>) s;
           s \<leftarrow> task_block (running s) block_list TASK_WAITING TIMELESS s;
           Some (Waits, s) }
         else Some (No_child, s))"
      by (rule family fam_steps same_family_refl | simp add: keeps_def)+
    then have "stays2 s (Some (w, s'))" using assms(2) t None by (simp add: task_waitpid_def)
    from stays2_family_ok [OF r this refl] show ?thesis unfolding proc_inv_def by blast
  qed
qed

text \<open>The steps of the process system.\<close>

inductive proc_step :: "'r ops \<Rightarrow> (nat \<Rightarrow> nat \<Rightarrow> 'r ks \<Rightarrow> 'r ks option) \<Rightarrow> 'r ks \<Rightarrow> 'r ks \<Rightarrow> bool"
  for ops run where
  fork: "task_fork ops s = Some (p, s') \<Longrightarrow> proc_step ops run s s'"
| exit: "task_exit ops st s = Some s' \<Longrightarrow> proc_step ops run s s'"
| wait: "task_waitpid ops p s = Some (w, s') \<Longrightarrow> proc_step ops run s s'"
| tick: "clock_handler run s = Some s' \<Longrightarrow> proc_step ops run s s'"
| block: "task_block i l st ms s = Some s' \<Longrightarrow> wait_state st \<Longrightarrow> proc_step ops run s s'"
| unblock: "task_unblock i r s = Some s' \<Longrightarrow> proc_step ops run s s'"
| yield: "task_yield s = Some s' \<Longrightarrow> proc_step ops run s s'"
| kill: "sys_kill q sig s = Some (r, s') \<Longrightarrow> proc_step ops run s s'"
| alarm: "sys_alarm n s = Some s' \<Longrightarrow> proc_step ops run s s'"
| setpgid: "sys_setpgid q g s = Some (r, s') \<Longrightarrow> proc_step ops run s s'"
| setsid: "sys_setsid s = Some (r, s') \<Longrightarrow> proc_step ops run s s'"

inductive_cases proc_stepE: "proc_step ops run s s'"

lemma proc_step_inv:
  assumes "proc_step ops run s s'" "proc_inv s" "\<And>h a s. stays s (run h a s)"
  shows "proc_inv s'"
proof -
  obtain rank where r: "family_ok rank s" using assms(2) by (auto simp: proc_inv_def)
  have st: "proc_inv s'" if "stays s m" "m = Some s'" for m
    using stays_family_ok [OF r that] by (auto simp: proc_inv_def)
  have st2: "proc_inv s'" if "stays2 s m" "m = Some (x, s')" for m and x :: int
    using stays2_family_ok [OF r that] by (auto simp: proc_inv_def)
  from assms(1) show ?thesis
  proof cases
    case (fork p)
    then show ?thesis by (rule task_fork_family [OF assms(2)])
  next
    case (exit st)
    then show ?thesis by (rule task_exit_family [OF assms(2)])
  next
    case (wait p w)
    then show ?thesis by (rule task_waitpid_family [OF assms(2)])
  next
    case tick
    then show ?thesis by (rule st [OF clock_handler_family [OF assms(3)]])
  next
    case (block i l st ms)
    have "st \<noteq> TASK_DIED" using block(2) by (auto simp: wait_state_def)
    from st [OF task_block_family [OF this] block(1)] show ?thesis .
  next
    case (unblock i r)
    then show ?thesis by (rule st [OF task_unblock_family])
  next
    case yield
    then show ?thesis using st [OF schedule_family] by (simp add: task_yield_def)
  next
    case (kill q sig r)
    then show ?thesis by (rule st2 [OF sys_kill_family, rotated])
  next
    case (alarm n)
    then show ?thesis by (rule st [OF sys_alarm_family])
  next
    case (setpgid q g r)
    then show ?thesis by (rule st2 [OF sys_setpgid_family, rotated])
  next
    case (setsid r)
    then show ?thesis by (rule st2 [OF sys_setsid_family, rotated])
  qed
qed

text \<open>
  The code stops when a process that has an open file exits while a signal is pending whose default
  action ends it: the first \<open>close\<close> delivers the signal to the task that is already dead.
\<close>

lemma on_rest_tasks: "on_rest f s = Some s' \<Longrightarrow> task_of i s' = task_of i s"
  by (auto simp: on_rest_def task_of_def bind_eq_Some_conv)

lemma close_stops_on_signal:
  assumes "task_of i s = Some t" "files t ! fd = Some f" "pending t \<noteq> 0"
    "a = actions t ! nat (first_signal (pending t) - 1)" "sa_handler a = SIG_DFL" "first_signal (pending t) \<noteq> SIGCHLD"
  shows "close_fd ops i fd s = None"
proof -
  have e: "exit_signal i u = None" if "task_of i u = Some t'" "sigs t' = sigs t" "blocked t' = blocked t" "actions t' = actions t" for u t'
    using that assms(3-6) by (auto simp: exit_signal_def Let_def pending_def rd_def SIG_DFL_def SIG_IGN_def c_assert_def)
  have c: "(do { t' \<leftarrow> task_put_fd t fd; u \<leftarrow> set_task i t' u; exit_signal i u }) = None" if u: "task_of i u = Some t" for u
  proof (cases "fd < 16")
    case True
    let ?t = "t\<lparr>files := (files t)[fd := None]\<rparr>"
    have "exit_signal i (put i ?t u) = None" using u by (intro e [of _ ?t]) simp_all
    then show ?thesis using True task_of_less [OF u] by (simp add: task_put_fd_def set_task_def put_def)
  qed (simp add: task_put_fd_def)
  show ?thesis
  proof (cases "on_rest (o_put_file ops f) s")
    case (Some u)
    then have "task_of i u = Some t" using on_rest_tasks [of "o_put_file ops f" s u i] assms(1) by simp
    then show ?thesis using c [of u] assms(1,2) Some by (simp add: close_fd_def)
  qed (simp add: close_fd_def assms(1,2))
qed

text \<open>C11: Whatever sequence of forks, exits, waits, clock ticks, signals and scheduling the kernel goes
  through, every process that has a father in the table has one that is alive: the loop that looks
  for the father of an exiting process always finds it, so the panic behind it is unreachable, and
  the father that \<open>task_exit\<close> reads afterwards exists. \<open>task_exit\<close> is one step here, so the property is about
  exits during which no other task runs: releasing an inode or a file may wait for a disk, and
  an exit that is interrupted in this way is not covered.\<close>

theorem father_always_found:
  assumes "proc_inv s" "(proc_step ops run)\<^sup>*\<^sup>* s s'" "\<And>h a s. stays s (run h a s)"
    and "task_of i s' = Some t"
  shows "(\<exists>u. task_tell_father i s' = Some u)
    \<and> (\<exists>p. task_of (ppid t) s' = Some p \<and> (ppid t \<noteq> 0 \<longrightarrow> state p \<noteq> TASK_DIED))"
proof (rule conjI)
  have "proc_inv s'" using assms(2,1) by (induction rule: rtranclp_induct) (auto intro: proc_step_inv [OF _ _ assms(3)])
  then obtain rank where r: "family_ok rank s'" by (auto simp: proc_inv_def)
  note f = family_okD [OF r assms(4)]
  show "\<exists>p. task_of (ppid t) s' = Some p \<and> (ppid t \<noteq> 0 \<longrightarrow> state p \<noteq> TASK_DIED)"
    using f(4) r by (cases "ppid t = 0") (auto simp: family_ok_def)
  show "\<exists>u. task_tell_father i s' = Some u"
  proof (cases "ppid t = 0")
    case False
    then obtain p where p: "task_of (ppid t) s' = Some p" using f(4) by blast
    then have "find_pid (int (ppid t)) (ppid t) s'" "ppid t < TASK_NR"
      using family_okD(1,5) [OF r p] by (simp_all add: find_pid_def)
    then obtain j where j: "List.find (\<lambda>j. find_pid (int (ppid t)) j s') [0..<TASK_NR] = Some j"
      using find_None_iff [of "\<lambda>j. find_pid (int (ppid t)) j s'" "[0..<TASK_NR]"]
      by (cases "List.find (\<lambda>j. find_pid (int (ppid t)) j s') [0..<TASK_NR]") auto
    then have "find_pid (int (ppid t)) j s'" by (auto simp: find_Some_iff)
    then obtain q where "task_of j s' = Some q" by (auto simp: find_pid_def split: option.splits)
    then show ?thesis using assms(4) j False by (simp add: task_tell_father_def)
  qed (simp add: task_tell_father_def assms(4))
qed

definition sample_ops :: "unit ops" where
  "sample_ops = \<lparr>o_alloc_kpage = (\<lambda>_ _. Some (0x8000, ())), o_free_kpage = (\<lambda>_ _ _. Some ()),
     o_kmalloc = (\<lambda>_ _. Some (0x9000, ())), o_kfree = (\<lambda>_ _. Some ()), o_memcpy = (\<lambda>_ _ _ _. Some ()),
     o_strncpy = (\<lambda>_ _ _ _. Some ()), o_copy_pde = (\<lambda>_. Some (0xA000, ())), o_free_pde = Some,
     o_inode_ref = (\<lambda>_ _. Some ()), o_iput = (\<lambda>_ _. Some ()), o_file_ref = (\<lambda>_ _. Some ()),
     o_put_file = (\<lambda>_ _. Some ()), o_tty_release = (\<lambda>_ _. Some ())\<rparr>"

lemma sample_proc_inv: "proc_inv sample_ks"
  unfolding proc_inv_def family_ok_def
  by (rule exI [of _ id]) (auto simp: sample_tasks blank_task_def TASK_NR_def split: if_splits)

text \<open>Process 2, a child of 1, ends before its own child 3, which is then a child of 1.\<close>

definition sample_family :: "unit ks" where
  "sample_family = sample_ks\<lparr>task_table := [Some (blank_task 0), Some (blank_task 1),
       Some ((blank_task 2)\<lparr>state := TASK_RUNNING, ppid := 1\<rparr>), Some ((blank_task 3)\<lparr>ppid := 2\<rparr>)] @ replicate 60 None,
     running := 2, waiters := (\<lambda>_. []), timer_at := Map.empty, timer_list := []\<rparr>"

lemma sample_family_inv: "proc_inv sample_family"
  unfolding proc_inv_def family_ok_def
  by (rule exI [of _ id]) (auto simp: sample_family_def task_of_def rd_def nth_append nth_Cons blank_task_def TASK_NR_def
      split: if_splits nat.splits)

lemma sample_family_exit:
  "map_option (\<lambda>s. (map_option ppid (task_of 3 s), map_option state (task_of 2 s))) (task_exit sample_ops 7 sample_family)
   = Some (Some 1, Some TASK_DIED)"
  by code_simp

theorem father_always_found_witness:
  "\<exists>s' p u. proc_step sample_ops (\<lambda>_ _ _. None) sample_family s' \<and> map_option ppid (task_of 3 s') = Some 1
     \<and> task_of 1 s' = Some p \<and> state p \<noteq> TASK_DIED \<and> task_tell_father 3 s' = Some u"
proof -
  obtain s' t where s': "task_exit sample_ops 7 sample_family = Some s'" "task_of 3 s' = Some t" "ppid t = 1"
    using sample_family_exit by auto
  then have step: "proc_step sample_ops (\<lambda>_ _ _. None) sample_family s'" by (intro proc_step.exit)
  then show ?thesis
    using father_always_found [OF sample_family_inv r_into_rtranclp [of _ _ s'] _ s'(2), of sample_ops "\<lambda>_ _ _. None"] s'(2,3)
    by (auto simp: stays_def)
qed

end
