(* ===== verification/Signal.thy ===== *)
theory Signal
  imports Process
begin

section \<open>Signals: \<open>kernel/signal.c\<close>, \<open>lib/restorer.asm\<close>\<close>

text \<open>
  Handlers and masks of a task, and the delivery of a signal on the way back to user mode: the
  kernel saves the registers in a frame on the user's stack and makes the task continue in the
  handler, which returns into \<open>restorer\<close>. The user's stack is a function from the addresses of its
  words; \<open>regs\<close> are the registers of the interrupt frame that delivery touches. The code never
  returns from \<open>task_exit\<close>, so a delivery that ends the task gives the state after the switch.
\<close>

definition SIG_NOMASK :: u32 where [c_defs]: "SIG_NOMASK = 0x40000000"
definition SIG_ONESHOT :: u32 where [c_defs]: "SIG_ONESHOT = 0x80000000"
record regs =
  eip :: u32
  eflags :: u32
  edx :: u32
  ecx :: u32
  eax :: u32
  esp :: u32

type_synonym umem = "u32 \<Rightarrow> u32"

record signal_frame =
  fr_restorer :: u32
  fr_sig :: u32
  fr_blocked :: u32
  fr_eax :: u32
  fr_ecx :: u32
  fr_edx :: u32
  fr_eflags :: u32
  fr_eip :: u32

definition SIZEOF_FRAME :: u32 where [c_defs]: "SIZEOF_FRAME = 32"

definition store_frame :: "u32 \<Rightarrow> signal_frame \<Rightarrow> umem \<Rightarrow> umem" where
  "store_frame a f um = um(a := fr_restorer f, a + 4 := fr_sig f, a + 8 := fr_blocked f, a + 12 := fr_eax f,
     a + 16 := fr_ecx f, a + 20 := fr_edx f, a + 24 := fr_eflags f, a + 28 := fr_eip f)"

subsection \<open>Masks and handlers\<close>

definition sys_sgetmask :: "'r ks \<Rightarrow> u32 option" where
  "sys_sgetmask s = map_option blocked (task_of (running s) s)"

definition sys_ssetmask :: "u32 \<Rightarrow> 'r ks \<Rightarrow> (u32 \<times> 'r ks) option" where
  "sys_ssetmask newmask s =
     (if newmask = word_of_int EOF then Some (word_of_int (neg_errno EPERM), s)
      else do {
        t \<leftarrow> task_of (running s) s;
        s \<leftarrow> set_task (running s) (t\<lparr>blocked := newmask AND NOT (SIGMASK SIGKILL)\<rparr>) s;
        Some (blocked t, s) })"

definition bad_signal :: "int \<Rightarrow> bool" where
  "bad_signal sig \<longleftrightarrow> sig < MINSIG \<or> sig > MAXSIG \<or> sig = SIGKILL"

definition set_action :: "int \<Rightarrow> sigaction \<Rightarrow> 'r ks \<Rightarrow> 'r ks option" where
  "set_action sig a s = do {
     t \<leftarrow> task_of (running s) s;
     as \<leftarrow> wr (actions t) (nat (sig - 1)) a;
     set_task (running s) (t\<lparr>actions := as\<rparr>) s }"

definition sys_signal :: "int \<Rightarrow> u32 \<Rightarrow> u32 \<Rightarrow> 'r ks \<Rightarrow> (u32 \<times> 'r ks) option" where
  "sys_signal sig h rest_fn s =
     (if bad_signal sig then Some (word_of_int EOF, s)
      else do {
        s \<leftarrow> set_action sig \<lparr>sa_handler = h, sa_mask = 0, sa_flags = SIG_ONESHOT OR SIG_NOMASK, sa_restorer = rest_fn\<rparr> s;
        Some (h, s) })"

text \<open>The old action is returned for the caller's \<open>oldaction\<close>.\<close>

definition sys_sigaction :: "int \<Rightarrow> sigaction \<Rightarrow> 'r ks \<Rightarrow> (int \<times> sigaction option \<times> 'r ks) option" where
  "sys_sigaction sig action s =
     (if bad_signal sig then Some (EOF, None, s)
      else do {
        t \<leftarrow> task_of (running s) s;
        old \<leftarrow> rd (actions t) (nat (sig - 1));
        s \<leftarrow> set_action sig (if sa_flags action AND SIG_NOMASK \<noteq> 0 then action\<lparr>sa_mask := 0\<rparr>
               else action\<lparr>sa_mask := sa_mask action OR SIGMASK sig\<rparr>) s;
        Some (0, Some old, s) })"

subsection \<open>Delivery\<close>

definition task_signal :: "'r ops \<Rightarrow> regs \<Rightarrow> umem \<Rightarrow> 'r ks \<Rightarrow> (regs \<times> umem \<times> 'r ks) option" where
  "task_signal ops r um s = do {
     let i = running s;
     t \<leftarrow> task_of i s;
     let m = pending t;
     if m = 0 then Some (r, um, s)
     else do {
       c_assert (uid t \<noteq> 0);
       let sig = first_signal m;
       s \<leftarrow> (if sig \<le> MAXSIG then set_task i (t\<lparr>sigs := sigs t AND NOT (SIGMASK sig)\<rparr>) s else Some s);
       a \<leftarrow> rd (actions t) (nat (sig - 1));
       if sa_handler a = SIG_IGN then Some (r, um, s)
       else if sa_handler a = SIG_DFL \<and> sig = SIGCHLD then Some (r, um, s)
       else if sa_handler a = SIG_DFL then do {
         s \<leftarrow> task_exit ops (uint (SIGMASK sig)) s;
         Some (r, um, s) }
       else do {
         let fa = esp r - SIZEOF_FRAME;
         let f = \<lparr>fr_restorer = sa_restorer a, fr_sig = word_of_int sig,
                  fr_blocked = (if sa_flags a AND SIG_NOMASK \<noteq> 0 then blocked t else word_of_int EOF),
                  fr_eax = eax r, fr_ecx = ecx r, fr_edx = edx r, fr_eflags = eflags r, fr_eip = eip r\<rparr>;
         s \<leftarrow> (if sa_flags a AND SIG_ONESHOT \<noteq> 0
              then set_action sig (a\<lparr>sa_handler := SIG_DFL\<rparr>) s else Some s);
         Some (r\<lparr>esp := fa, eip := sa_handler a\<rparr>, store_frame fa f um, s) } } }"

text \<open>The user's side: the handler's \<open>ret\<close> takes the restorer's address from the stack, and the
  restorer drops the signal number, sets the mask and pops the registers.\<close>

definition handler_returns :: "umem \<Rightarrow> regs \<Rightarrow> regs" where
  "handler_returns um r = r\<lparr>eip := um (esp r), esp := esp r + 4\<rparr>"

definition restorer :: "umem \<Rightarrow> regs \<Rightarrow> 'r ks \<Rightarrow> (regs \<times> 'r ks) option" where
  "restorer um r s = do {
     let sp = esp r + 4;
     (_, s) \<leftarrow> sys_ssetmask (um sp) s;
     let sp = sp + 4;
     Some (\<lparr>eip = um (sp + 16), eflags = um (sp + 12), edx = um (sp + 8), ecx = um (sp + 4), eax = um sp,
            esp = sp + 20\<rparr>, s) }"

subsection \<open>What delivery does\<close>

lemma first_signal_spec:
  assumes "1 \<le> sig" "sig \<le> 31" "m AND SIGMASK sig \<noteq> 0" "\<forall>k. 1 \<le> k \<and> k < sig \<longrightarrow> m AND SIGMASK k = 0"
  shows "first_signal m = sig"
proof -
  have "List.find (\<lambda>sig. m AND SIGMASK sig \<noteq> 0) [1..31] = Some sig"
    unfolding find_Some_iff
  proof (intro exI conjI)
    have l: "length [1..31 :: int] = 31" by simp
    show "nat (sig - 1) < length [1..31]" using assms(2) unfolding l by simp
    have n: "[1..31] ! k = 1 + int k" if "k < 31" for k using that by (intro nth_upto) simp
    show "m AND SIGMASK ([1..31] ! nat (sig - 1)) \<noteq> 0" using assms(1-3) n [of "nat (sig - 1)"] by simp
    show "sig = [1..31] ! nat (sig - 1)" using assms(1,2) n [of "nat (sig - 1)"] by simp
    show "\<forall>j<nat (sig - 1). \<not> m AND SIGMASK ([1..31] ! j) \<noteq> 0"
      using assms(2,4) n by simp
  qed
  then show ?thesis by (simp add: first_signal_def)
qed

lemma SIGMASK_distinct:
  assumes "1 \<le> j" "1 \<le> k" "j \<noteq> k"
  shows "SIGMASK j AND SIGMASK k = 0"
  using assms by (intro bit_word_eqI) (auto simp: SIGMASK_def bit_simps bit_1_iff)

lemma store_frame_reads [simp]:
  "store_frame a f um a = fr_restorer f" "store_frame a f um (a + 4) = fr_sig f"
  "store_frame a f um (a + 8) = fr_blocked f" "store_frame a f um (a + 12) = fr_eax f"
  "store_frame a f um (a + 16) = fr_ecx f" "store_frame a f um (a + 20) = fr_edx f"
  "store_frame a f um (a + 24) = fr_eflags f" "store_frame a f um (a + 28) = fr_eip f"
  by (simp_all add: store_frame_def)

lemma restorer_frame:
  assumes "sys_ssetmask (fr_blocked f) s = Some (x, s')" "esp rg = a + 4"
  shows "restorer (store_frame a f um) rg s = Some (\<lparr>eip = fr_eip f, eflags = fr_eflags f, edx = fr_edx f,
    ecx = fr_ecx f, eax = fr_eax f, esp = a + SIZEOF_FRAME\<rparr>, s')"
proof -
  have n: "a + 4 + 4 = a + 8" "a + 8 + 4 = a + 12" "a + 12 + 16 = a + 28" "a + 12 + 12 = a + 24"
    "a + 12 + 8 = a + 20" "a + 12 + 4 = a + 16" "a + 12 + 20 = a + 32" by simp_all
  show ?thesis unfolding restorer_def Let_def assms(2) n store_frame_reads assms(1) by (simp add: SIZEOF_FRAME_def)
qed

lemma ssetmask_keeps:
  assumes "task_of (running s) s = Some t" "m = blocked t \<or> m = word_of_int EOF" "blocked t AND SIGMASK SIGKILL = 0"
  shows "\<exists>x s'. sys_ssetmask m s = Some (x, s') \<and> map_option blocked (task_of (running s) s') = Some (blocked t)"
proof (cases "m = word_of_int EOF")
  case True
  then show ?thesis using assms(1) by (simp add: sys_ssetmask_def)
next
  case False
  have "blocked t AND NOT (SIGMASK SIGKILL) = blocked t"
    using assms(3) by (metis and.right_neutral bit.conj_disj_distrib bit.disj_cancel_right or.left_neutral)
  then show ?thesis
    using assms(1,2) False set_task_put [OF task_of_less [OF assms(1)]] by (simp add: sys_ssetmask_def)
qed

lemma set_action_Some:
  assumes "task_of (running s) s = Some t" "nat (sig - 1) < length (actions t)"
  shows "set_action sig a s = Some (put (running s) (t\<lparr>actions := (actions t)[nat (sig - 1) := a]\<rparr>) s)"
  using assms set_task_put [OF task_of_less [OF assms(1)]] by (simp add: set_action_def)

text \<open>C15: A signal with a handler is delivered exactly once and leaves no trace in the interrupted
  program: the lowest pending signal is taken from the map, the task continues in the handler, and
  when the handler returns with the frame intact, the restorer brings back the registers, the stack
  pointer and the instruction pointer of the interrupted program; the set of blocked signals is the
  same throughout. A one-shot handler is reset.\<close>

theorem signal_handler_round_trip:
  assumes t: "task_of (running s) s = Some t" "uid t \<noteq> 0" "length (actions t) = 31"
    and sig: "1 \<le> sig" "sig \<le> 31" "pending t AND SIGMASK sig \<noteq> 0"
      "\<forall>k. 1 \<le> k \<and> k < sig \<longrightarrow> pending t AND SIGMASK k = 0"
    and h: "a = actions t ! nat (sig - 1)" "sa_handler a \<noteq> SIG_IGN" "sa_handler a \<noteq> SIG_DFL"
    and b: "blocked t AND SIGMASK SIGKILL = 0"
  shows "\<exists>r' um' s' t'. task_signal ops r um s = Some (r', um', s') \<and> eip r' = sa_handler a
    \<and> task_of (running s) s' = Some t' \<and> sigs t' = sigs t AND NOT (SIGMASK sig) \<and> blocked t' = blocked t
    \<and> (sa_flags a AND SIG_ONESHOT \<noteq> 0 \<longrightarrow> sa_handler (actions t' ! nat (sig - 1)) = SIG_DFL)
    \<and> handler_returns um' r' = r'\<lparr>eip := sa_restorer a, esp := esp r' + 4\<rparr>
    \<and> (\<exists>s''. restorer um' (handler_returns um' r') s' = Some (r, s'')
         \<and> map_option blocked (task_of (running s) s'') = Some (blocked t))"
proof -
  let ?i = "running s" and ?fa = "esp r - SIZEOF_FRAME"
  let ?f = "\<lparr>fr_restorer = sa_restorer a, fr_sig = word_of_int sig,
     fr_blocked = (if sa_flags a AND SIG_NOMASK \<noteq> 0 then blocked t else word_of_int EOF),
     fr_eax = eax r, fr_ecx = ecx r, fr_edx = edx r, fr_eflags = eflags r, fr_eip = eip r\<rparr>"
  let ?t = "t\<lparr>sigs := sigs t AND NOT (SIGMASK sig)\<rparr>"
  let ?t' = "if sa_flags a AND SIG_ONESHOT \<noteq> 0
     then ?t\<lparr>actions := (actions t)[nat (sig - 1) := a\<lparr>sa_handler := SIG_DFL\<rparr>]\<rparr> else ?t"
  let ?r = "r\<lparr>esp := ?fa, eip := sa_handler a\<rparr>" and ?um = "store_frame ?fa ?f um"
  have m: "pending t \<noteq> 0" using sig(3) by auto
  have fs: "first_signal (pending t) = sig" by (rule first_signal_spec [OF sig])
  have n: "nat (sig - 1) < length (actions t)" using sig(1,2) t(3) by simp
  have d: "task_signal ops r um s = Some (?r, ?um, put ?i ?t' s)"
  proof (cases "sa_flags a AND SIG_ONESHOT = 0")
    case True
    then show ?thesis
      using t sig(2) m fs n h set_task_put [OF task_of_less [OF t(1)]] by (simp add: task_signal_def MAXSIG_def Let_def)
  next
    case False
    have "set_action sig (a\<lparr>sa_handler := SIG_DFL\<rparr>) (put ?i ?t s)
      = Some (put ?i (?t\<lparr>actions := (actions t)[nat (sig - 1) := a\<lparr>sa_handler := SIG_DFL\<rparr>]\<rparr>) s)"
      using set_action_Some [where s = "put ?i ?t s" and t = ?t and sig = sig] t(1) n by simp
    then show ?thesis
      using False t sig(2) m fs n h set_task_put [OF task_of_less [OF t(1)]] by (simp add: task_signal_def MAXSIG_def Let_def)
  qed
  have hr: "handler_returns ?um ?r = ?r\<lparr>eip := sa_restorer a, esp := ?fa + 4\<rparr>"
    by (simp add: handler_returns_def store_frame_reads)
  let ?s = "put ?i ?t' s"
  have ti: "task_of ?i ?s = Some ?t'" "running ?s = ?i" using t(1) by simp_all
  have bl: "blocked ?t' = blocked t" by simp
  obtain x s'' where m': "sys_ssetmask (fr_blocked ?f) ?s = Some (x, s'')"
    "map_option blocked (task_of ?i s'') = Some (blocked t)"
  proof -
    have "task_of (running ?s) ?s = Some ?t'" using ti by (simp only:)
    moreover have "fr_blocked ?f = blocked ?t' \<or> fr_blocked ?f = word_of_int EOF" by simp
    moreover have "blocked ?t' AND SIGMASK SIGKILL = 0" using b by (simp only: bl)
    ultimately show ?thesis using that ssetmask_keeps [of ?s ?t' "fr_blocked ?f"] by (simp only: bl ti) blast
  qed
  have re: "restorer ?um (?r\<lparr>eip := sa_restorer a, esp := ?fa + 4\<rparr>) ?s = Some (r, s'')"
    using restorer_frame [OF m'(1), of _ ?fa um] by simp
  have os: "sa_flags a AND SIG_ONESHOT \<noteq> 0 \<longrightarrow> sa_handler (actions ?t' ! nat (sig - 1)) = SIG_DFL" using n by simp
  show ?thesis
  proof (rule exI [of _ ?r], rule exI [of _ ?um], rule exI [of _ ?s], rule exI [of _ ?t'], intro conjI)
    show "\<exists>s''. restorer ?um (handler_returns ?um ?r) ?s = Some (r, s'') \<and> map_option blocked (task_of ?i s'') = Some (blocked t)"
      using hr re m'(2) by auto
    show "handler_returns ?um ?r = ?r\<lparr>eip := sa_restorer a, esp := esp ?r + 4\<rparr>" using hr by simp
    show "task_signal ops r um s = Some (?r, ?um, ?s)" by (rule d)
    show "task_of ?i ?s = Some ?t'" by (rule ti)
    show "blocked ?t' = blocked t" by (rule bl)
    show "sa_flags a AND SIG_ONESHOT \<noteq> 0 \<longrightarrow> sa_handler (actions ?t' ! nat (sig - 1)) = SIG_DFL" by (rule os)
  qed simp_all
qed

subsection \<open>SIGKILL\<close>

lemma and_not_other:
  fixes m k b :: u32
  assumes "b AND k = 0"
  shows "(m AND NOT b) AND k = m AND k"
proof (rule bit_word_eqI)
  fix n assume n: "n < LENGTH(32)"
  have "\<not> (bit b n \<and> bit k n)" using arg_cong [OF assms, of "\<lambda>w. bit w n"] by (simp add: bit_simps)
  then show "bit ((m AND NOT b) AND k) n = bit (m AND k) n" using n by (auto simp: bit_simps)
qed

text \<open>A task that can be killed: SIGKILL is not blocked and has the default action.\<close>

definition killable :: "task \<Rightarrow> bool" where
  "killable t \<longleftrightarrow> blocked t AND SIGMASK SIGKILL = 0 \<and> length (actions t) = 31 \<and> sa_handler (actions t ! 8) = SIG_DFL"

definition all_killable :: "'r ks \<Rightarrow> bool" where
  "all_killable s \<longleftrightarrow> (\<forall>i t. task_of i s = Some t \<longrightarrow> killable t)"

lemma all_killable_put:
  assumes "all_killable s" "task_of i s = Some t" "killable u"
  shows "all_killable (put i u s)"
  using assms by (auto simp: all_killable_def)

lemma killable_action:
  assumes "killable t" "0 < sig" "sig \<noteq> SIGKILL \<or> sa_handler a = SIG_DFL"
  shows "killable (t\<lparr>actions := (actions t)[nat (sig - 1) := a]\<rparr>)"
proof (cases "nat (sig - 1) = 8")
  case True
  then have "sig = SIGKILL" unfolding SIGKILL_def by linarith
  then show ?thesis using assms by (simp add: killable_def SIGKILL_def)
qed (use assms in \<open>simp add: killable_def\<close>)

lemma sys_ssetmask_killable:
  assumes "all_killable s" "sys_ssetmask m s = Some (x, s')"
  shows "all_killable s'"
proof (cases "m = word_of_int EOF")
  case False
  obtain t where t: "task_of (running s) s = Some t" using assms(2) False by (auto simp: sys_ssetmask_def bind_eq_Some_conv)
  have "killable t" using assms(1) t by (simp add: all_killable_def)
  moreover have "(m AND NOT (SIGMASK SIGKILL)) AND SIGMASK SIGKILL = 0" by (simp add: and.assoc)
  ultimately have "killable (t\<lparr>blocked := m AND NOT (SIGMASK SIGKILL)\<rparr>)" by (simp add: killable_def)
  then show ?thesis
    using assms t False set_task_put [OF task_of_less [OF t]] all_killable_put by (auto simp: sys_ssetmask_def)
qed (use assms in \<open>simp add: sys_ssetmask_def\<close>)

lemma set_action_killable:
  assumes "all_killable s" "0 < sig" "sig \<noteq> SIGKILL \<or> sa_handler a = SIG_DFL" "set_action sig a s = Some s'"
  shows "all_killable s'"
proof -
  obtain t where t: "task_of (running s) s = Some t" "nat (sig - 1) < length (actions t)"
    using assms(4) by (auto simp: set_action_def wr_def bind_eq_Some_conv split: if_splits)
  have "killable t" using assms(1) t by (simp add: all_killable_def)
  then have "killable (t\<lparr>actions := (actions t)[nat (sig - 1) := a]\<rparr>)" using assms(2,3) by (rule killable_action)
  then show ?thesis
    using assms(4) all_killable_put [OF assms(1) t(1)] unfolding set_action_Some [OF t] by auto
qed

lemma all_killable_sigs:
  assumes "all_killable s" "task_of i s = Some t"
  shows "all_killable (put i (t\<lparr>sigs := m\<rparr>) s)"
proof (rule all_killable_put [OF assms])
  show "killable (t\<lparr>sigs := m\<rparr>)" using assms by (simp add: all_killable_def killable_def)
qed

lemma task_signal_kill:
  assumes "task_of (running s) s = Some t" "uid t \<noteq> 0" "killable t" "sigs t AND SIGMASK SIGKILL \<noteq> 0"
    and "\<forall>k. 1 \<le> k \<and> k < SIGKILL \<longrightarrow> pending t AND SIGMASK k = 0"
  shows "task_signal ops r um s = Option.bind
    (task_exit ops 256 (put (running s) (t\<lparr>sigs := sigs t AND NOT (SIGMASK SIGKILL)\<rparr>) s)) (\<lambda>s'. Some (r, um, s'))"
proof -
  have p: "pending t AND SIGMASK SIGKILL = sigs t AND SIGMASK SIGKILL"
    unfolding pending_def using assms(3) by (intro and_not_other) (simp add: killable_def)
  have fs: "first_signal (pending t) = SIGKILL"
    by (rule first_signal_spec) (use assms(4,5) p in \<open>auto simp: SIGKILL_def\<close>)
  have m: "pending t \<noteq> 0" using assms(4) p by auto
  have n: "rd (actions t) (nat (SIGKILL - 1)) = Some (actions t ! 8)" "sa_handler (actions t ! 8) = SIG_DFL"
    using assms(3) by (simp_all add: killable_def SIGKILL_def)
  have k: "uint (SIGMASK SIGKILL) = 256" "SIGKILL \<le> MAXSIG" "SIGKILL \<noteq> SIGCHLD" "SIG_DFL \<noteq> SIG_IGN"
    by (simp_all add: SIGMASK_def SIGKILL_def MAXSIG_def SIGCHLD_def SIG_DFL_def SIG_IGN_def)
  show ?thesis
    using assms(1,2) m fs n k set_task_put [OF task_of_less [OF assms(1)]]
    by (simp add: task_signal_def Let_def)
qed

lemma bad_signal_SIGKILL: "\<not> bad_signal sig \<Longrightarrow> 0 < sig \<and> sig \<noteq> SIGKILL"
  by (simp add: bad_signal_def MINSIG_def)

lemma sys_signal_killable:
  assumes "all_killable s" "sys_signal sig h f s = Some (x, s')"
  shows "all_killable s'"
  using assms set_action_killable [OF assms(1)] bad_signal_SIGKILL [of sig]
  by (auto simp: sys_signal_def bind_eq_Some_conv split: if_splits)

lemma sys_sigaction_killable:
  assumes "all_killable s" "sys_sigaction sig a s = Some (x, old, s')"
  shows "all_killable s'"
  using assms set_action_killable [OF assms(1)] bad_signal_SIGKILL [of sig]
  by (auto simp: sys_sigaction_def bind_eq_Some_conv split: if_splits)

text \<open>C16: SIGKILL cannot be blocked, caught or ignored: no mask and no action a program can set changes
  that a task is killable, and a killable task with a pending SIGKILL exits with its bit as the
  status at the next delivery that no lower signal precedes.\<close>

theorem sigkill_cannot_be_avoided:
  assumes "all_killable s" "task_of (running s) s = Some t" "uid t \<noteq> 0" "sigs t AND SIGMASK SIGKILL \<noteq> 0"
    "\<forall>k. 1 \<le> k \<and> k < SIGKILL \<longrightarrow> pending t AND SIGMASK k = 0"
  shows "(\<forall>m x s'. sys_ssetmask m s = Some (x, s') \<longrightarrow> all_killable s')
    \<and> (\<forall>sig h f x s'. sys_signal sig h f s = Some (x, s') \<longrightarrow> all_killable s')
    \<and> (\<forall>sig a x old s'. sys_sigaction sig a s = Some (x, old, s') \<longrightarrow> all_killable s')
    \<and> task_signal ops r um s = Option.bind
        (task_exit ops 256 (put (running s) (t\<lparr>sigs := sigs t AND NOT (SIGMASK SIGKILL)\<rparr>) s)) (\<lambda>s'. Some (r, um, s'))"
proof -
  have "killable t" using assms(1,2) by (simp add: all_killable_def)
  then show ?thesis
    using assms(1) sys_ssetmask_killable sys_signal_killable sys_sigaction_killable
      task_signal_kill [OF assms(2,3) _ assms(4,5)] by blast
qed

text \<open>The set of blocked signals is the same while a handler runs: no delivery and no action changes
  it, although an action has a mask and a comment announces that the signal is added.\<close>

lemma task_signal_blocked:
  assumes "task_of (running s) s = Some t" "length (actions t) = 31"
    "task_signal ops r um s = Some (r', um', s')" "eip r' \<noteq> eip r"
  shows "map_option blocked (task_of (running s) s') = Some (blocked t)"
  using assms set_task_put [OF task_of_less [OF assms(1)]]
  by (auto simp: task_signal_def set_action_Some Let_def bind_eq_Some_conv rd_def c_assert_def split: if_splits)

subsection \<open>Witnesses\<close>

definition signalled :: "int \<Rightarrow> sigaction \<Rightarrow> task" where
  "signalled sig a = (blank_task 1)\<lparr>state := TASK_RUNNING, sigs := SIGMASK sig,
     actions := (actions (blank_task 1))[nat (sig - 1) := a]\<rparr>"

definition sample_action :: sigaction where
  "sample_action = \<lparr>sa_handler = 0x8000, sa_mask = 0, sa_flags = SIG_ONESHOT OR SIG_NOMASK, sa_restorer = 0x9000\<rparr>"

definition sample_regs :: regs where
  "sample_regs = \<lparr>eip = 0x4000, eflags = 2, edx = 3, ecx = 4, eax = 5, esp = 0x7000\<rparr>"

lemma signalled_fields [simp]:
  "sigs (signalled sig a) = SIGMASK sig" "blocked (signalled sig a) = 0" "uid (signalled sig a) = 1000"
  "pending (signalled sig a) = SIGMASK sig"
  "actions (signalled sig a) = (replicate 31 \<lparr>sa_handler = 0, sa_mask = 0, sa_flags = 0, sa_restorer = 0\<rparr>)[nat (sig - 1) := a]"
  by (simp_all add: signalled_def blank_task_def pending_def)

theorem signal_handler_round_trip_witness:
  "\<forall>ops um. \<exists>r' um' s'. task_signal ops sample_regs um (put 1 (signalled 14 sample_action) sample_ks) = Some (r', um', s')
     \<and> eip r' = 0x8000 \<and> (\<exists>s''. restorer um' (handler_returns um' r') s' = Some (sample_regs, s''))"
proof -
  have h: "sa_handler sample_action = 0x8000" "sa_handler sample_action \<noteq> SIG_IGN" "sa_handler sample_action \<noteq> SIG_DFL"
    by (simp_all add: sample_action_def SIG_IGN_def SIG_DFL_def)
  have k: "\<forall>k. 1 \<le> k \<and> k < 14 \<longrightarrow> SIGMASK 14 AND SIGMASK k = 0" by (auto intro: SIGMASK_distinct)
  have z: "SIGMASK 14 AND SIGMASK 14 \<noteq> 0" by (simp add: SIGMASK_def)
  let ?s = "put 1 (signalled 14 sample_action) sample_ks"
  have t: "task_of (running ?s) ?s = Some (signalled 14 sample_action)"
    by (simp add: task_of_put TASK_NR_def)
  have a: "sample_action = actions (signalled 14 sample_action) ! nat (14 - 1)" by simp
  show ?thesis
  proof (intro allI)
    fix ops :: "unit ops" and um
    show "\<exists>r' um' s'. task_signal ops sample_regs um ?s = Some (r', um', s') \<and> eip r' = 0x8000
      \<and> (\<exists>s''. restorer um' (handler_returns um' r') s' = Some (sample_regs, s''))"
      using signal_handler_round_trip [OF t _ _ _ _ _ _ a h(2,3), of ops sample_regs um] k z h(1)
      by (simp only: signalled_fields) (simp, blast)
  qed
qed

theorem sigkill_cannot_be_avoided_witness:
  "\<exists>x s'. sys_ssetmask 256 (put 1 (signalled SIGKILL sample_action\<lparr>actions := actions (blank_task 1)\<rparr>) sample_ks) = Some (x, s')
     \<and> all_killable s'"
proof -
  let ?t = "signalled SIGKILL sample_action\<lparr>actions := actions (blank_task 1)\<rparr>"
  let ?s = "put 1 ?t sample_ks"
  have t: "task_of (running ?s) ?s = Some ?t" by (simp add: task_of_put TASK_NR_def)
  have b: "blocked (blank_task i) = 0" "actions (blank_task i) = replicate 31 \<lparr>sa_handler = 0, sa_mask = 0, sa_flags = 0, sa_restorer = 0\<rparr>" for i
    by (simp_all add: blank_task_def)
  have "killable ?t" by (simp add: killable_def b SIG_DFL_def)
  then have a: "all_killable ?s"
    by (auto simp: all_killable_def task_of_put sample_tasks TASK_NR_def killable_def b SIG_DFL_def split: if_splits)
  have k: "\<forall>k. 1 \<le> k \<and> k < SIGKILL \<longrightarrow> pending ?t AND SIGMASK k = 0"
    by (auto simp: pending_def SIGKILL_def intro: SIGMASK_distinct)
  have set: "\<exists>x s'. sys_ssetmask 256 ?s = Some (x, s')"
    using t set_task_put [OF task_of_less [OF t]] by (simp add: sys_ssetmask_def)
  have "\<forall>m x s'. sys_ssetmask m ?s = Some (x, s') \<longrightarrow> all_killable s'"
    using sigkill_cannot_be_avoided [OF a t _ _ k] by (simp add: SIGMASK_def SIGKILL_def)
  then show ?thesis using set by blast
qed

end
