(* ===== verification/Mutex.thy ===== *)
theory Mutex
  imports Process
begin

section \<open>Mutexes and locks: \<open>kernel/mutex.c\<close>\<close>

text \<open>
  A mutex is a flag and the list its waiters are queued in (\<open>list_push\<close> puts a waiter at the
  front, the one at the end is woken); a lock adds the task that holds it and how often it has
  entered. \<open>mutex_lock\<close> loops around \<open>task_block\<close>, which switches to another task; one pass of that
  loop is \<open>lock_pass\<close>, and what the other tasks do in between is a step of the system below.
  Interrupts are off during a pass and during \<open>mutex_unlock\<close>, and only there: a task can be
  interrupted between taking the mutex and noting itself as the holder.
\<close>

record mutex =
  m_value :: bool
  m_waiters :: nat

record lock =
  holder :: "nat option"
  l_mutex :: mutex
  repeat :: u32

definition mutex_init :: "nat \<Rightarrow> mutex" where
  "mutex_init l = \<lparr>m_value = False, m_waiters = l\<rparr>"

definition lock_pass :: "nat \<Rightarrow> mutex \<Rightarrow> 'r ks \<Rightarrow> (bool \<times> mutex \<times> 'r ks) option" where
  "lock_pass current m s =
     (if m_value m then do {
        s \<leftarrow> task_block current (m_waiters m) TASK_BLOCKED TIMELESS s;
        Some (False, m, s) }
      else Some (True, m\<lparr>m_value := True\<rparr>, s))"

definition mutex_lock :: "mutex \<Rightarrow> 'r ks \<Rightarrow> (bool \<times> mutex \<times> 'r ks) option" where
  "mutex_lock m s = lock_pass (running s) m (s\<lparr>intr := False\<rparr>)"

definition mutex_unlock :: "mutex \<Rightarrow> 'r ks \<Rightarrow> (mutex \<times> 'r ks) option" where
  "mutex_unlock m s = do {
     c_assert (m_value m);
     let m = m\<lparr>m_value := False\<rparr>;
     let s = s\<lparr>intr := False\<rparr>;
     s \<leftarrow> (if waiters s (m_waiters m) \<noteq> [] then do {
         s \<leftarrow> task_unblock (last (waiters s (m_waiters m))) (errno_val EOK) s;
         task_yield s }
       else Some s);
     Some (m, s) }"

definition lock_init :: "nat \<Rightarrow> lock" where
  "lock_init l = \<lparr>holder = None, l_mutex = mutex_init l, repeat = 0\<rparr>"

definition lock_own :: "nat \<Rightarrow> lock \<Rightarrow> lock option" where
  "lock_own current lk = do {
     c_assert (repeat lk = 0);
     Some (lk\<lparr>holder := Some current, repeat := 1\<rparr>) }"

text \<open>\<open>lock_acquire\<close> up to the first switch; the flag tells whether the lock is held.\<close>

definition lock_acquire :: "lock \<Rightarrow> 'r ks \<Rightarrow> (bool \<times> lock \<times> 'r ks) option" where
  "lock_acquire lk s =
     (if holder lk \<noteq> Some (running s) then do {
        (got, m, s) \<leftarrow> mutex_lock (l_mutex lk) s;
        lk \<leftarrow> (if got then lock_own (running s) (lk\<lparr>l_mutex := m\<rparr>) else Some (lk\<lparr>l_mutex := m\<rparr>));
        Some (got, lk, s) }
      else Some (True, lk\<lparr>repeat := repeat lk + 1\<rparr>, s))"

text \<open>\<open>lock_release\<close> before the mutex is released; the flag tells whether it is.\<close>

definition lock_drop :: "nat \<Rightarrow> lock \<Rightarrow> (bool \<times> lock) option" where
  "lock_drop current lk = do {
     c_assert (holder lk = Some current);
     if repeat lk > 1 then Some (False, lk\<lparr>repeat := repeat lk - 1\<rparr>)
     else do {
       c_assert (repeat lk = 1);
       Some (True, lk\<lparr>holder := None, repeat := 0\<rparr>) } }"

definition lock_release :: "lock \<Rightarrow> 'r ks \<Rightarrow> (lock \<times> 'r ks) option" where
  "lock_release lk s = do {
     (last, lk) \<leftarrow> lock_drop (running s) lk;
     if last then do {
       (m, s) \<leftarrow> mutex_unlock (l_mutex lk) s;
       Some (lk\<lparr>l_mutex := m\<rparr>, s) }
     else Some (lk, s) }"

subsection \<open>The system\<close>

text \<open>Where a task is: outside, in the loop of \<open>mutex_lock\<close>, past it but not yet the holder, inside,
  not the holder any more but before \<open>mutex_unlock\<close>. Inside, the number says how many more times the
  task has called \<open>lock_acquire\<close> than \<open>lock_release\<close>; the code does not see it.\<close>

datatype phase = Outside | Trying | Locked | Inside nat | Leaving

text \<open>Time limits belong to waits in other lists.\<close>

definition limits_ok :: "nat \<Rightarrow> 'r ks \<Rightarrow> bool" where
  "limits_ok l s \<longleftrightarrow> (\<forall>i t. task_of i s = Some t \<and> (node t = None \<or> node t = Some l) \<longrightarrow> timeout t = None)"

text \<open>A step of the running task, or anything else the kernel does that keeps the scheduler
  consistent and leaves the list of the lock alone.\<close>

inductive lock_step :: "(nat \<Rightarrow> phase) \<times> lock \<times> 'r ks \<Rightarrow> (nat \<Rightarrow> phase) \<times> lock \<times> 'r ks \<Rightarrow> bool" where
  attempt: "pc (running s) = Outside \<or> pc (running s) = Trying \<Longrightarrow> running s \<noteq> idle_task s
    \<Longrightarrow> mutex_lock (l_mutex lk) s = Some (got, m, s')
    \<Longrightarrow> lock_step (pc, lk, s) (pc(running s := if got then Locked else Trying), lk\<lparr>l_mutex := m\<rparr>, s')"
| own: "pc (running s) = Locked \<Longrightarrow> lock_own (running s) lk = Some lk'
    \<Longrightarrow> lock_step (pc, lk, s) (pc(running s := Inside 1), lk', s)"
| again: "pc (running s) = Inside n \<Longrightarrow> lock_acquire lk s = Some (True, lk', s)
    \<Longrightarrow> lock_step (pc, lk, s) (pc(running s := Inside (n + 1)), lk', s)"
| drop: "pc (running s) = Inside n \<Longrightarrow> lock_drop (running s) lk = Some (l, lk')
    \<Longrightarrow> lock_step (pc, lk, s) (pc(running s := if l then Leaving else Inside (n - 1)), lk', s)"
| unlock: "pc (running s) = Leaving \<Longrightarrow> mutex_unlock (l_mutex lk) s = Some (m, s')
    \<Longrightarrow> lock_step (pc, lk, s) (pc(running s := Outside), lk\<lparr>l_mutex := m\<rparr>, s')"
| other: "sched_inv (s'\<lparr>intr := False\<rparr>) \<Longrightarrow> waiters s' (m_waiters (l_mutex lk)) = waiters s (m_waiters (l_mutex lk))
    \<Longrightarrow> limits_ok (m_waiters (l_mutex lk)) s'
    \<Longrightarrow> lock_step (pc, lk, s) (pc, lk, s')"

definition owning :: "phase \<Rightarrow> bool" where
  "owning p \<longleftrightarrow> p \<noteq> Outside \<and> p \<noteq> Trying"

definition inside :: "phase \<Rightarrow> bool" where
  "inside p \<longleftrightarrow> (\<exists>n. p = Inside n)"

lemma inside_simps [simp]: "inside (Inside n)" "\<not> inside Outside" "\<not> inside Trying" "\<not> inside Locked" "\<not> inside Leaving"
  by (simp_all add: inside_def)

lemma owning_simps [simp]: "owning (Inside n)" "owning Locked" "owning Leaving" "\<not> owning Outside" "\<not> owning Trying"
  by (simp_all add: owning_def)

lemma inside_owning: "inside p \<Longrightarrow> owning p"
  by (auto simp: inside_def)

definition lock_inv :: "(nat \<Rightarrow> phase) \<times> lock \<times> 'r ks \<Rightarrow> bool" where
  "lock_inv = (\<lambda>(pc, lk, s). let ws = waiters s (m_waiters (l_mutex lk)) in
     sched_inv (s\<lparr>intr := False\<rparr>) \<and> limits_ok (m_waiters (l_mutex lk)) s
     \<and> (\<forall>i j. owning (pc i) \<and> owning (pc j) \<longrightarrow> i = j)
     \<and> (m_value (l_mutex lk) \<longleftrightarrow> (\<exists>i. owning (pc i)))
     \<and> (\<forall>i. holder lk = Some i \<longleftrightarrow> inside (pc i))
     \<and> (holder lk = None \<longrightarrow> repeat lk = 0)
     \<and> (\<forall>i n. pc i = Inside n \<longrightarrow> 1 \<le> n \<and> repeat lk = of_nat n)
     \<and> (\<forall>i\<in>set ws. pc i = Trying)
     \<and> (\<not> m_value (l_mutex lk) \<and> ws \<noteq> [] \<longrightarrow> (\<exists>i. pc i = Trying \<and> i \<notin> set ws)))"

lemma lock_invD:
  assumes "lock_inv (pc, lk, s)"
  shows "sched_inv (s\<lparr>intr := False\<rparr>)" "limits_ok (m_waiters (l_mutex lk)) s"
    "owning (pc i) \<Longrightarrow> owning (pc j) \<Longrightarrow> i = j" "m_value (l_mutex lk) \<longleftrightarrow> (\<exists>i. owning (pc i))"
    "holder lk = Some i \<longleftrightarrow> inside (pc i)" "holder lk = None \<longrightarrow> repeat lk = 0"
    "i \<in> set (waiters s (m_waiters (l_mutex lk))) \<Longrightarrow> pc i = Trying"
    "\<not> m_value (l_mutex lk) \<Longrightarrow> waiters s (m_waiters (l_mutex lk)) \<noteq> []
       \<Longrightarrow> \<exists>i. pc i = Trying \<and> i \<notin> set (waiters s (m_waiters (l_mutex lk)))"
    "pc i = Inside n \<Longrightarrow> 1 \<le> n \<and> repeat lk = of_nat n"
  using assms by (auto simp: lock_inv_def Let_def)

lemma intr_simps [simp]:
  "task_of i (s\<lparr>intr := b\<rparr>) = task_of i s" "limits_ok l (s\<lparr>intr := b\<rparr>) = limits_ok l s"
  by (simp_all add: limits_ok_def task_of_def)

lemma locked_no_holder:
  assumes "lock_inv (pc, lk, s)" "pc i = Locked"
  shows "holder lk = None"
proof (cases "holder lk")
  case (Some a)
  then have h: "inside (pc a)" using lock_invD(5) [OF assms(1)] by simp
  then have "a = i" by (intro lock_invD(3) [OF assms(1)]) (simp_all add: inside_owning assms(2))
  then show ?thesis using assms(2) h by simp
qed

text \<open>The running task is in no list.\<close>

lemma running_free:
  assumes "sched_inv s"
  obtains t where "task_of (running s) s = Some t" "state t = TASK_RUNNING" "node t = None"
    "running s \<notin> set (waiters s l)"
proof -
  obtain t where t: "task_of (running s) s = Some t" "state t = TASK_RUNNING"
    using assms by (auto simp: sched_inv_def)
  have n: "node t = None"
    using node_waits [of s "running s" t] assms t by (cases "node t") (auto simp: sched_inv_def wait_state_def)
  have "running s \<notin> set (waiters s l)" using waiters_node [of s "running s" l] assms t n by (auto simp: sched_inv_def)
  then show ?thesis using t n that by blast
qed

lemma limits_switched:
  assumes "limits_ok l s" "switched i s s'"
  shows "limits_ok l s'"
  using assms by (auto simp: limits_ok_def switched_def preempted_def split: if_splits)

lemma lock_pass_blocks:
  assumes "sched_inv s" "limits_ok (m_waiters m) s" "m_value m" "running s \<noteq> idle_task s"
  obtains s' where "lock_pass (running s) m s = Some (False, m, s')" "sched_inv s'" "limits_ok (m_waiters m) s'"
    "waiters s' = (waiters s)(m_waiters m := running s # waiters s (m_waiters m))"
proof -
  obtain t where t: "task_of (running s) s = Some t" "node t = None"
    using running_free [OF assms(1)] by blast
  let ?l = "m_waiters m" and ?t = "t\<lparr>node := Some (m_waiters m), state := TASK_BLOCKED\<rparr>"
  let ?s = "put (running s) ?t (s\<lparr>waiters := (waiters s)(?l := running s # waiters s ?l)\<rparr>)"
  have sw: "switch_inv ?s"
    using blocked_switch_inv [OF assms(1) t(1) refl assms(4) t(2)] by (simp add: wait_state_def)
  obtain i s' where s': "schedule ?s = Some s'" "switched i ?s s'" "sched_inv s'" using schedule_ok [OF sw] by blast
  have "task_block (running s) ?l TASK_BLOCKED TIMELESS s = schedule ?s"
  proof -
    have inv: "switch_inv s" using assms(1) by (simp add: sched_inv_def)
    then have "\<not> intr s" by (simp add: switch_inv_def)
    then show ?thesis using push_node_spec [OF inv t, of ?l] t by (simp add: task_block_def TIMELESS_def)
  qed
  moreover have "limits_ok ?l ?s" using assms(2) t by (auto simp: limits_ok_def)
  ultimately show ?thesis
    using that [of s'] s' limits_switched [OF _ s'(2)] assms(3) by (simp add: lock_pass_def switched_def)
qed

lemma mutex_unlock_wakes:
  assumes "sched_inv (s\<lparr>intr := False\<rparr>)" "limits_ok (m_waiters m) s" "m_value m"
  obtains s' where "mutex_unlock m s = Some (m\<lparr>m_value := False\<rparr>, s')" "sched_inv (s'\<lparr>intr := False\<rparr>)"
    "limits_ok (m_waiters m) s'" "waiters s' (m_waiters m) = butlast (waiters s (m_waiters m))"
proof (cases "waiters s (m_waiters m) = []")
  case True
  then show ?thesis using that [of "s\<lparr>intr := False\<rparr>"] assms by (simp add: mutex_unlock_def limits_ok_def)
next
  case False
  let ?s = "s\<lparr>intr := False\<rparr>" and ?l = "m_waiters m"
  let ?j = "last (waiters s ?l)"
  have inv: "switch_inv ?s" using assms(1) by (simp add: sched_inv_def)
  have jw: "?j \<in> set (waiters ?s ?l)" using False by simp
  obtain u where u: "task_of ?j ?s = Some u" "node u = Some ?l" using waiters_node [OF inv jw] by blast
  have w: "wait_state (state u)" using node_waits [OF inv u] by blast
  have nt: "timeout u = None" using assms(2) u by (auto simp: limits_ok_def)
  have nr: "?j \<noteq> running ?s" by (rule waiting_not_running [OF assms(1) u(1) w])
  let ?w = "woken ?j u (errno_val EOK) ?s"
  have un: "task_unblock ?j (errno_val EOK) ?s = Some ?w"
  proof (rule task_unblock_spec [OF inv u(1)])
    show "state u \<noteq> TASK_RUNNING" using w by (auto simp: wait_state_def)
    show "timeout_ok ?s u" using nt by (simp add: timeout_ok_def)
  qed
  have wi: "sched_inv ?w" by (rule woken_sched_inv [OF assms(1) u(1) nr])
  have "switch_inv ?w" using wi by (simp add: sched_inv_def)
  from schedule_ok [OF this] obtain i s' where s': "schedule ?w = Some s'" "switched i ?w s'" "sched_inv s'" by blast
  have d: "distinct (waiters s ?l)" using inv by (simp add: switch_inv_def)
  have "remove1 ?j (waiters s ?l) = butlast (waiters s ?l)" by (rule remove1_last [OF d False])
  then have ws: "waiters s' ?l = butlast (waiters s ?l)"
    using s'(2) by (simp add: switched_def woken_def)
  have "limits_ok ?l ?w" using assms(2) u(1) by (auto simp: limits_ok_def task_of_woken)
  then have "limits_ok ?l s'" using limits_switched [OF _ s'(2)] by blast
  moreover have "mutex_unlock m s = Some (m\<lparr>m_value := False\<rparr>, s')"
    using False assms(3) un s'(1) by (simp add: mutex_unlock_def task_yield_def)
  moreover have "sched_inv (s'\<lparr>intr := False\<rparr>)"
  proof -
    have "intr s' = False" using s'(3) by (simp add: sched_inv_def switch_inv_def)
    then have "s'\<lparr>intr := False\<rparr> = s'" by simp
    then show ?thesis using s'(3) by simp
  qed
  ultimately show ?thesis using that ws by blast
qed

subsection \<open>The invariant\<close>

lemma sched_inv_no_intr: "sched_inv s \<Longrightarrow> sched_inv (s\<lparr>intr := False\<rparr>)"
proof -
  assume a: "sched_inv s"
  then have "intr s = False" by (simp add: sched_inv_def switch_inv_def)
  then have "s\<lparr>intr := False\<rparr> = s" by simp
  then show ?thesis using a by simp
qed

lemma mutex_lock_cases:
  assumes "sched_inv (s\<lparr>intr := False\<rparr>)" "limits_ok (m_waiters m) s" "running s \<noteq> idle_task s"
  obtains "\<not> m_value m" "mutex_lock m s = Some (True, m\<lparr>m_value := True\<rparr>, s\<lparr>intr := False\<rparr>)"
  | s' where "m_value m" "mutex_lock m s = Some (False, m, s')" "sched_inv (s'\<lparr>intr := False\<rparr>)" "limits_ok (m_waiters m) s'"
    "waiters s' (m_waiters m) = running s # waiters s (m_waiters m)"
proof (cases "m_value m")
  case True
  obtain s' where s': "lock_pass (running s) m (s\<lparr>intr := False\<rparr>) = Some (False, m, s')" "sched_inv s'"
    "limits_ok (m_waiters m) s'" "waiters s' = (waiters s)(m_waiters m := running s # waiters s (m_waiters m))"
    using lock_pass_blocks [OF assms(1), of m] assms(2,3) True by auto
  then show ?thesis using that(2) True by (simp add: mutex_lock_def sched_inv_no_intr)
qed (use that(1) in \<open>simp add: mutex_lock_def lock_pass_def\<close>)

text \<open>A step of the owner that leaves the mutex alone and does not give it up.\<close>

lemma owner_step_inv:
  assumes i: "lock_inv (pc, lk, s)" and o: "owning (pc r)" "owning p" and m: "l_mutex lk' = l_mutex lk"
    and h: "holder lk' = (if inside p then Some r else None)" "\<not> inside p \<Longrightarrow> repeat lk' = 0"
    and d: "\<And>n. p = Inside n \<Longrightarrow> 1 \<le> n \<and> repeat lk' = of_nat n"
  shows "lock_inv (pc(r := p), lk', s)"
proof -
  note inv = lock_invD [OF i]
  have only: "\<not> owning (pc j)" if "j \<noteq> r" for j using inv(3) [OF o(1), of j] that by blast
  have out: "\<not> inside (pc j)" "pc j \<noteq> Inside n" if "j \<noteq> r" for j n
    using only [OF that] inside_owning by auto
  have own: "owning ((pc(r := p)) j) \<longleftrightarrow> j = r" for j using only o(2) by auto
  have v: "m_value (l_mutex lk)" using inv(4) o(1) by blast
  have rw: "r \<notin> set (waiters s (m_waiters (l_mutex lk)))" using inv(7) [of r] o(1) by auto
  have hold: "(holder lk' = Some j) = inside ((pc(r := p)) j)" for j using h(1) out by auto
  have dep: "1 \<le> n \<and> repeat lk' = of_nat n" if "(pc(r := p)) j = Inside n" for j n
    using d out that by (cases "j = r") auto
  have z: "holder lk' = None \<longrightarrow> repeat lk' = 0" using h by auto
  have t: "(pc(r := p)) j = Trying" if "j \<in> set (waiters s (m_waiters (l_mutex lk)))" for j
    using inv(7) [OF that] rw that by auto
  show ?thesis unfolding lock_inv_def prod.case Let_def m own hold
    using inv(1,2) v z t dep by blast
qed

lemma lock_step_inv:
  assumes "lock_step x y" "lock_inv x"
  shows "lock_inv y"
  using assms
proof (induction rule: lock_step.induct)
  case (attempt pc s lk got m s')
  note inv = lock_invD [OF attempt.prems]
  have rw: "running s \<notin> set (waiters s (m_waiters (l_mutex lk)))"
    using running_free [OF inv(1)] by auto
  have nin: "\<not> inside (pc (running s))" "pc (running s) \<noteq> Inside n" for n using attempt(1) by auto
  show ?case
  proof (rule mutex_lock_cases [OF inv(1,2) attempt(2)])
    assume v: "\<not> m_value (l_mutex lk)"
      and e: "mutex_lock (l_mutex lk) s = Some (True, (l_mutex lk)\<lparr>m_value := True\<rparr>, s\<lparr>intr := False\<rparr>)"
    have no: "\<not> owning (pc i)" for i using inv(4) v by simp
    show ?thesis using e attempt(3) inv no rw nin v
      by (auto simp: lock_inv_def Let_def owning_def)
  next
    fix u
    assume v: "m_value (l_mutex lk)" and e: "mutex_lock (l_mutex lk) s = Some (False, l_mutex lk, u)"
      and u: "sched_inv (u\<lparr>intr := False\<rparr>)" "limits_ok (m_waiters (l_mutex lk)) u"
        "waiters u (m_waiters (l_mutex lk)) = running s # waiters s (m_waiters (l_mutex lk))"
    have no: "\<not> owning (pc (running s))" using attempt(1) by (auto simp: owning_def)
    have ex: "\<exists>i. i \<noteq> running s \<and> owning (pc i)" using inv(4) v no by metis
    show ?thesis using e attempt(3) inv no u nin v ex
      by (auto simp: lock_inv_def Let_def owning_def)
  qed
next
  case (own pc s lk lk')
  have "lk' = lk\<lparr>holder := Some (running s), repeat := 1\<rparr>" using own(2) by (auto simp: lock_own_def split: if_splits)
  then show ?case by (intro owner_step_inv [OF own.prems]) (auto simp: own(1))
next
  case (again pc s n lk lk')
  have h: "holder lk = Some (running s)" "1 \<le> n \<and> repeat lk = of_nat n"
    using lock_invD(5) [OF again.prems] lock_invD(9) [OF again.prems again(1)] again(1) by simp_all
  then have "lk' = lk\<lparr>repeat := repeat lk + 1\<rparr>" using again(2) by (simp add: lock_acquire_def)
  then show ?case using h by (intro owner_step_inv [OF again.prems]) (auto simp: again(1))
next
  case (drop pc s n lk l lk')
  have h: "holder lk = Some (running s)" "1 \<le> n" "repeat lk = of_nat n"
    using lock_invD(5) [OF drop.prems] lock_invD(9) [OF drop.prems drop(1)] drop(1) by simp_all
  show ?case
  proof (cases "repeat lk > 1")
    case True
    then have "l = False" "lk' = lk\<lparr>repeat := repeat lk - 1\<rparr>" using drop(2) by (simp_all add: lock_drop_def h)
    moreover have "2 \<le> n" using True h(2,3) by (cases "n = 1") auto
    ultimately show ?thesis using h
      by (intro owner_step_inv [OF drop.prems]) (auto simp: drop(1) of_nat_diff)
  next
    case False
    then have "l = True" "lk' = lk\<lparr>holder := None, repeat := 0\<rparr>" using drop(2) by (auto simp: lock_drop_def h(1) split: if_splits)
    then show ?thesis by (intro owner_step_inv [OF drop.prems]) (simp_all add: drop(1))
  qed
next
  case (unlock pc s lk m s')
  note inv = lock_invD [OF unlock.prems]
  have o: "owning (pc (running s))" using unlock(1) by (simp add: owning_def)
  then have v: "m_value (l_mutex lk)" using inv(4) by blast
  have only: "\<not> owning (pc i)" if "i \<noteq> running s" for i using inv(3) [OF o, of i] that by blast
  obtain u where u: "mutex_unlock (l_mutex lk) s = Some ((l_mutex lk)\<lparr>m_value := False\<rparr>, u)" "sched_inv (u\<lparr>intr := False\<rparr>)"
    "limits_ok (m_waiters (l_mutex lk)) u"
    "waiters u (m_waiters (l_mutex lk)) = butlast (waiters s (m_waiters (l_mutex lk)))"
    using mutex_unlock_wakes [OF inv(1,2) v] by blast
  let ?ws = "waiters s (m_waiters (l_mutex lk))"
  have rw: "running s \<notin> set ?ws" using running_free [OF inv(1)] by auto
  have d: "distinct ?ws" using inv(1) by (simp add: sched_inv_def switch_inv_def)
  have wake: "\<exists>i. pc i = Trying \<and> i \<noteq> running s \<and> i \<notin> set (butlast ?ws)" if "butlast ?ws \<noteq> []"
  proof (intro exI conjI)
    have ne: "?ws \<noteq> []" using that by auto
    show "pc (last ?ws) = Trying" using inv(7) ne by simp
    show "last ?ws \<noteq> running s" using rw ne by (metis last_in_set)
    show "last ?ws \<notin> set (butlast ?ws)"
      using in_butlast_distinct [OF d ne] by simp
  qed
  let ?l = "m_waiters (l_mutex lk)" and ?pc = "pc(running s := Outside)"
  have m: "m = (l_mutex lk)\<lparr>m_value := False\<rparr>" "s' = u" using unlock(2) u(1) by simp_all
  have no: "\<not> owning (?pc i)" for i using only [of i] by (auto simp: owning_def)
  have h: "(holder lk = Some i) = inside (?pc i)" for i
    using inv(5) [of i] unlock(1) by auto
  have t: "\<forall>i\<in>set (waiters u ?l). ?pc i = Trying" using inv(7) rw unfolding u(4) by (auto dest: in_set_butlastD)
  have e: "waiters u ?l \<noteq> [] \<longrightarrow> (\<exists>i. ?pc i = Trying \<and> i \<notin> set (waiters u ?l))" using wake unfolding u(4) by auto
  have g: "pc i \<noteq> Inside n" if "i \<noteq> running s" for i n using only [OF that] by (metis owning_simps(1))
  show ?case unfolding m lock_inv_def Let_def using u(2,3) no h t e inv(6) g by simp
next
  case (other s' lk s pc)
  then show ?case by (auto simp: lock_inv_def Let_def)
qed

lemma lock_steps_inv:
  assumes "lock_step\<^sup>*\<^sup>* x y" "lock_inv x"
  shows "lock_inv y"
  using assms by (induction rule: rtranclp_induct) (auto intro: lock_step_inv)

lemma lock_inv_start:
  assumes "sched_inv s" "limits_ok l s" "waiters s l = []"
  shows "lock_inv (\<lambda>_. Outside, lock_init l, s)"
  using assms by (simp add: lock_inv_def lock_init_def mutex_init_def owning_def sched_inv_no_intr)

lemma small_of_nat: "n < 4294967296 \<Longrightarrow> (of_nat n :: u32) > 1 \<longleftrightarrow> n > 1" "n < 4294967296 \<Longrightarrow> (of_nat n :: u32) = 1 \<longleftrightarrow> n = 1"
proof -
  assume n: "n < 4294967296"
  then have u: "unat (of_nat n :: u32) = n" by (simp add: unat_of_nat take_bit_nat_eq_self)
  show "(of_nat n :: u32) > 1 \<longleftrightarrow> n > 1" by (simp add: word_less_nat_alt u)
  show "(of_nat n :: u32) = 1 \<longleftrightarrow> n = 1" by (simp add: word_unat_eq_iff u)
qed

text \<open>C4: A lock excludes: however the tasks that use it are interleaved, with each other and with the rest
  of the kernel, at most one of them is inside, a task that wants in either gets the mutex or waits
  in its list, and no wake-up is lost: while the lock is free and tasks wait in its list, one that was
  woken is about to try again. None of the assertions of \<open>mutex.c\<close> fails, and the holder leaves exactly
  with the last of its calls of \<open>lock_release\<close>: when it has called \<open>lock_acquire\<close> \<open>n\<close> more times than
  \<open>lock_release\<close>, a release gives the lock up if and only if \<open>n\<close> is one. The counter has 32 bits, so this is
  for less than \<open>2 ^ 32\<close> nested calls.\<close>

theorem lock_excludes:
  assumes "sched_inv s0" "limits_ok l s0" "waiters s0 l = []"
    and "lock_step\<^sup>*\<^sup>* (\<lambda>_. Outside, lock_init l, s0) (pc, lk, s)"
  shows "(inside (pc i) \<and> inside (pc j) \<longrightarrow> i = j)
    \<and> (holder lk = Some i \<longleftrightarrow> inside (pc i))
    \<and> (\<not> m_value (l_mutex lk) \<and> waiters s (m_waiters (l_mutex lk)) \<noteq> []
        \<longrightarrow> (\<exists>i. pc i = Trying \<and> i \<notin> set (waiters s (m_waiters (l_mutex lk)))))
    \<and> (pc (running s) = Outside \<or> pc (running s) = Trying \<longrightarrow> running s \<noteq> idle_task s
        \<longrightarrow> (\<exists>got m s'. mutex_lock (l_mutex lk) s = Some (got, m, s')
              \<and> (if got then m_value m else running s \<in> set (waiters s' (m_waiters m)))))
    \<and> (pc (running s) = Locked \<longrightarrow> lock_own (running s) lk \<noteq> None)
    \<and> (\<forall>n. pc (running s) = Inside n \<and> n < 2 ^ 32 \<longrightarrow> 1 \<le> n
        \<and> (\<exists>lk'. lock_drop (running s) lk = Some (n = 1, lk') \<and> (holder lk' = None \<longleftrightarrow> n = 1)))
    \<and> (pc (running s) = Leaving \<longrightarrow> mutex_unlock (l_mutex lk) s \<noteq> None)"
proof -
  have start: "lock_inv (\<lambda>_. Outside, lock_init l, s0)" by (rule lock_inv_start [OF assms(1-3)])
  have now: "lock_inv (pc, lk, s)" by (rule lock_steps_inv [OF assms(4) start])
  note inv = lock_invD [OF now]
  have a: "\<exists>got m s'. mutex_lock (l_mutex lk) s = Some (got, m, s')
      \<and> (if got then m_value m else running s \<in> set (waiters s' (m_waiters m)))" if "running s \<noteq> idle_task s"
    by (rule mutex_lock_cases [OF inv(1,2) that]) auto
  have b: "lock_own (running s) lk \<noteq> None" if l: "pc (running s) = Locked"
  proof -
    have "holder lk = None" by (rule locked_no_holder [OF now l])
    then show ?thesis using inv(6) by (simp add: lock_own_def)
  qed
  have c: "1 \<le> n \<and> (\<exists>lk'. lock_drop (running s) lk = Some (n = 1, lk') \<and> (holder lk' = None \<longleftrightarrow> n = 1))"
    if i: "pc (running s) = Inside n" and n: "n < 2 ^ 32" for n
  proof -
    have h: "holder lk = Some (running s)" using inv(5) i by simp
    have r: "1 \<le> n" "repeat lk = of_nat n" using inv(9) [OF i] by simp_all
    then show ?thesis using small_of_nat [of n] n h by (auto simp: lock_drop_def)
  qed
  have d: "mutex_unlock (l_mutex lk) s \<noteq> None" if "pc (running s) = Leaving"
  proof -
    have "owning (pc (running s))" using that by simp
    then have "m_value (l_mutex lk)" using inv(4) by blast
    then show ?thesis using mutex_unlock_wakes [OF inv(1,2)] by (metis option.distinct(1))
  qed
  have e: "inside (pc i) \<and> inside (pc j) \<longrightarrow> i = j" using inv(3) inside_owning by blast
  show ?thesis using e inv(5,8) a b c d by auto
qed

text \<open>A task takes the free lock, enters it a second time, and leaves with its second release.\<close>

theorem lock_excludes_witness:
  "\<exists>lk1 lk2 s'. lock_step\<^sup>*\<^sup>* (\<lambda>_. Outside, lock_init 5, sample_ks) ((\<lambda>_. Outside)(1 := Inside 2), lk1, s')
     \<and> running s' = 1 \<and> lock_drop 1 lk1 = Some (False, lk2)
     \<and> (\<exists>lk3. lock_step\<^sup>*\<^sup>* (\<lambda>_. Outside, lock_init 5, sample_ks) ((\<lambda>_. Outside)(1 := Inside 1), lk2, s') \<and> lock_drop 1 lk2 = Some (True, lk3))"
proof -
  let ?m = "\<lparr>m_value = True, m_waiters = 5\<rparr>"
  let ?s = "sample_ks\<lparr>intr := False\<rparr>" and ?out = "(\<lambda>_. Outside) :: nat \<Rightarrow> phase"
  let ?lk = "\<lambda>n. \<lparr>holder = Some 1, l_mutex = ?m, repeat = n\<rparr>"
  have l: "limits_ok 5 sample_ks" by (auto simp: limits_ok_def sample_tasks blank_task_def sleep_list_def split: if_splits)
  have w: "waiters sample_ks 5 = []" by (simp add: sleep_list_def)
  have r: "running sample_ks = 1" "running ?s = 1" by simp_all
  have e: "mutex_lock (l_mutex (lock_init 5)) sample_ks = Some (True, ?m, ?s)"
    by (simp add: mutex_lock_def lock_pass_def lock_init_def mutex_init_def)
  have "lock_step (?out, lock_init 5, sample_ks) (?out(running sample_ks := if True then Locked else Trying), (lock_init 5)\<lparr>l_mutex := ?m\<rparr>, ?s)"
    by (rule lock_step.attempt [OF _ _ e]) simp_all
  then have 1: "lock_step\<^sup>*\<^sup>* (?out, lock_init 5, sample_ks) (?out(1 := Locked), (lock_init 5)\<lparr>l_mutex := ?m\<rparr>, ?s)"
    unfolding r by auto
  have "lock_step (?out(1 := Locked), (lock_init 5)\<lparr>l_mutex := ?m\<rparr>, ?s) ((?out(1 := Locked))(running ?s := Inside 1), ?lk 1, ?s)"
    by (rule lock_step.own) (simp_all add: lock_own_def lock_init_def)
  then have 2: "lock_step\<^sup>*\<^sup>* (?out, lock_init 5, sample_ks) (?out(1 := Inside 1), ?lk 1, ?s)"
    using 1 unfolding r fun_upd_upd by (rule rtranclp.rtrancl_into_rtrancl [rotated])
  have "lock_step (?out(1 := Inside 1), ?lk 1, ?s) ((?out(1 := Inside 1))(running ?s := Inside (1 + 1)), ?lk 2, ?s)"
    by (rule lock_step.again) (simp_all add: lock_acquire_def)
  then have 3: "lock_step\<^sup>*\<^sup>* (?out, lock_init 5, sample_ks) (?out(1 := Inside 2), ?lk 2, ?s)"
    using 2 unfolding r fun_upd_upd one_add_one by (rule rtranclp.rtrancl_into_rtrancl [rotated])
  obtain lk2 where d: "lock_drop 1 (?lk 2) = Some (False, lk2)"
    using lock_excludes [OF sample_sched_inv l w 3, of 1 1] unfolding r by auto
  have "lock_step (?out(1 := Inside 2), ?lk 2, ?s) ((?out(1 := Inside 2))(running ?s := if False then Leaving else Inside (2 - 1)), lk2, ?s)"
    by (rule lock_step.drop) (use d in simp_all)
  then have 4: "lock_step\<^sup>*\<^sup>* (?out, lock_init 5, sample_ks) (?out(1 := Inside 1), lk2, ?s)"
    using 3 unfolding r fun_upd_upd by (auto intro: rtranclp.rtrancl_into_rtrancl)
  obtain lk3 where "lock_drop 1 lk2 = Some (True, lk3)"
    using lock_excludes [OF sample_sched_inv l w 4, of 1 1] unfolding r by auto
  then show ?thesis using 3 4 d r by blast
qed

end
