(* ===== verification/Device.thy ===== *)
theory Device
  imports DList
begin

section \<open>Devices, block requests and RAM disks: \<open>kernel/device.c\<close>, \<open>kernel/ramdisk.c\<close>\<close>

text \<open>
  The table of devices and the operations that dispatch on it. A device's handlers are functions on
  the state \<open>hw\<close> of the hardware behind all devices (\<open>'d\<close>), which they may change; \<open>None\<close> is a
  handler that stops the kernel or waits for an interrupt. A request is queued in the list of its
  device, sorted by sector; the request that finds the list empty is served at once, the others
  wait until the one before them has finished. \<open>device_request\<close> is the whole function for the
  request that does not wait; \<open>request_insert\<close> and \<open>request_finish\<close> are its parts, and the order
  in which waiting requests are served is derived from them. A request is named by the address of
  its record. RAM disks are the block devices whose handlers the kernel has in software.
\<close>

definition DEVICE_NR :: nat where [c_defs]: "DEVICE_NR = 64"
definition NAMELEN :: nat where [c_defs]: "NAMELEN = 16"
definition DEV_NULL :: int where [c_defs]: "DEV_NULL = 0"
definition DEV_CHAR :: int where [c_defs]: "DEV_CHAR = 1"
definition DEV_BLOCK :: int where [c_defs]: "DEV_BLOCK = 2"
definition DEV_RAMDISK :: int where [c_defs]: "DEV_RAMDISK = 8"
definition DEV_CMD_SECTOR_START :: int where [c_defs]: "DEV_CMD_SECTOR_START = 1"
definition DEV_CMD_SECTOR_COUNT :: int where [c_defs]: "DEV_CMD_SECTOR_COUNT = 2"

datatype req_type = REQ_READ | REQ_WRITE
datatype direct = DIRECT_UP | DIRECT_DOWN

record request =
  r_addr :: nat
  r_dev :: int
  r_type :: req_type
  r_idx :: u32
  r_count :: u32
  r_flags :: int
  r_task :: "nat option"

text \<open>\<open>read\<close> and \<open>write\<close> take the buffer, the number of blocks, the index and the flags; \<open>read\<close> gives the buffer back.\<close>

record 'd device =
  d_name :: bytes
  d_type :: int
  d_subtype :: int
  d_dev :: int
  d_parent :: int
  d_requests :: "request list"
  d_direct :: direct
  d_ioctl :: "('d \<Rightarrow> int \<Rightarrow> int option) option"
  d_read :: "(bytes \<Rightarrow> u32 \<Rightarrow> u32 \<Rightarrow> int \<Rightarrow> 'd \<Rightarrow> (int \<times> bytes \<times> 'd) option) option"
  d_write :: "(bytes \<Rightarrow> u32 \<Rightarrow> u32 \<Rightarrow> int \<Rightarrow> 'd \<Rightarrow> (int \<times> 'd) option) option"

record 'd dstate =
  devices :: "'d device list"
  hw :: 'd

text \<open>What \<open>strncpy\<close> leaves in the array \<open>dest\<close> when it copies the string \<open>src\<close>.\<close>

definition copy_name :: "bytes \<Rightarrow> bytes \<Rightarrow> nat \<Rightarrow> bytes" where
  "copy_name dest src n =
     (if length src < n then src @ 0 # drop (length src + 1) dest
      else take (n - 1) src @ 0 # drop n dest)"

subsection \<open>The table\<close>

definition null_name :: bytes where
  "null_name = [110, 117, 108, 108]"

definition device_init :: "'d \<Rightarrow> 'd dstate" where
  "device_init h = \<lparr>devices = map (\<lambda>i. \<lparr>d_name = copy_name (replicate NAMELEN 0) null_name NAMELEN, d_type = DEV_NULL,
       d_subtype = DEV_NULL, d_dev = int i, d_parent = 0, d_requests = [], d_direct = DIRECT_UP, d_ioctl = None,
       d_read = None, d_write = None\<rparr>) [0..<DEVICE_NR], hw = h\<rparr>"

definition get_null_device :: "('d, 'z) dstate_scheme \<Rightarrow> nat option" where
  "get_null_device s = List.find (\<lambda>i. d_type (devices s ! i) = DEV_NULL) [1..<DEVICE_NR]"

definition device_install where
  "device_install type subtype name parent ioctl read write s = do {
     i \<leftarrow> get_null_device s;
     d \<leftarrow> rd (devices s) i;
     ds \<leftarrow> wr (devices s) i (d\<lparr>d_parent := parent, d_type := type, d_subtype := subtype,
       d_name := copy_name (d_name d) name NAMELEN, d_ioctl := ioctl, d_read := read, d_write := write\<rparr>);
     Some (d_dev d, s\<lparr>devices := ds\<rparr>) }"

text \<open>The loop of \<open>device_find\<close>; \<open>None\<close> is \<open>NULL\<close>.\<close>

fun find_device :: "int \<Rightarrow> nat \<Rightarrow> 'd device list \<Rightarrow> 'd device option" where
  "find_device subtype idx [] = None"
| "find_device subtype idx (d # ds) =
     (if d_subtype d \<noteq> subtype then find_device subtype idx ds
      else if idx = 0 then Some d else find_device subtype (idx - 1) ds)"

definition device_find :: "int \<Rightarrow> nat \<Rightarrow> ('d, 'z) dstate_scheme \<Rightarrow> 'd device option" where
  "device_find subtype idx s = find_device subtype idx (devices s)"

definition device_get :: "int \<Rightarrow> ('d, 'z) dstate_scheme \<Rightarrow> 'd device option" where
  "device_get dev s = do {
     c_assert (0 \<le> dev \<and> dev < int DEVICE_NR);
     d \<leftarrow> rd (devices s) (nat dev);
     c_assert (d_type d \<noteq> DEV_NULL);
     Some d }"

definition device_ioctl :: "int \<Rightarrow> int \<Rightarrow> ('d, 'z) dstate_scheme \<Rightarrow> int option" where
  "device_ioctl dev cmd s = do {
     d \<leftarrow> device_get dev s;
     case d_ioctl d of Some f \<Rightarrow> f (hw s) cmd | None \<Rightarrow> Some EOF }"

definition device_read :: "int \<Rightarrow> bytes \<Rightarrow> u32 \<Rightarrow> u32 \<Rightarrow> int \<Rightarrow> ('d, 'z) dstate_scheme
    \<Rightarrow> (int \<times> bytes \<times> ('d, 'z) dstate_scheme) option" where
  "device_read dev buf n idx flags s = do {
     d \<leftarrow> device_get dev s;
     case d_read d of
       Some f \<Rightarrow> do { (r, buf, h) \<leftarrow> f buf n idx flags (hw s); Some (r, buf, s\<lparr>hw := h\<rparr>) }
     | None \<Rightarrow> Some (EOF, buf, s) }"

definition device_write :: "int \<Rightarrow> bytes \<Rightarrow> u32 \<Rightarrow> u32 \<Rightarrow> int \<Rightarrow> ('d, 'z) dstate_scheme
    \<Rightarrow> (int \<times> ('d, 'z) dstate_scheme) option" where
  "device_write dev buf n idx flags s = do {
     d \<leftarrow> device_get dev s;
     case d_write d of
       Some f \<Rightarrow> do { (r, h) \<leftarrow> f buf n idx flags (hw s); Some (r, s\<lparr>hw := h\<rparr>) }
     | None \<Rightarrow> Some (EOF, s) }"

subsection \<open>Block requests\<close>

definition request_insert :: "request \<Rightarrow> 'd device \<Rightarrow> 'd device" where
  "request_insert r d = d\<lparr>d_requests := seq_insert_sort (\<lambda>r. sint (r_idx r)) r (d_requests d)\<rparr>"

definition request_nextreq :: "request \<Rightarrow> 'd device \<Rightarrow> request option \<times> 'd device" where
  "request_nextreq r d =
     (let lower = takeWhile (\<lambda>x. x \<noteq> r) (d_requests d);
          upper = tl (dropWhile (\<lambda>x. x \<noteq> r) (d_requests d));
          dir = (if d_direct d = DIRECT_UP \<and> upper = [] then DIRECT_DOWN
                 else if d_direct d = DIRECT_DOWN \<and> lower = [] then DIRECT_UP else d_direct d)
      in (if dir = DIRECT_UP then (if upper = [] then None else Some (hd upper))
          else (if lower = [] then None else Some (last lower)), d\<lparr>d_direct := dir\<rparr>))"

definition request_finish :: "request \<Rightarrow> 'd device \<Rightarrow> request option \<times> 'd device" where
  "request_finish r d =
     (let (nxt, d) = request_nextreq r d in (nxt, d\<lparr>d_requests := remove1 r (d_requests d)\<rparr>))"

definition do_request :: "request \<Rightarrow> bytes \<Rightarrow> ('d, 'z) dstate_scheme \<Rightarrow> (int \<times> bytes \<times> ('d, 'z) dstate_scheme) option" where
  "do_request r buf s = (case r_type r of
       REQ_READ \<Rightarrow> device_read (r_dev r) buf (r_count r) (r_idx r) (r_flags r) s
     | REQ_WRITE \<Rightarrow> do { (e, s) \<leftarrow> device_write (r_dev r) buf (r_count r) (r_idx r) (r_flags r) s; Some (e, buf, s) })"

definition put_device :: "'d device \<Rightarrow> ('d, 'z) dstate_scheme \<Rightarrow> ('d, 'z) dstate_scheme option" where
  "put_device d s = do { ds \<leftarrow> wr (devices s) (nat (d_dev d)) d; Some (s\<lparr>devices := ds\<rparr>) }"

text \<open>\<open>a\<close> is the address \<open>kmalloc\<close> gives the request. A request that finds others waits.\<close>

definition device_request :: "nat \<Rightarrow> int \<Rightarrow> bytes \<Rightarrow> u32 \<Rightarrow> u32 \<Rightarrow> int \<Rightarrow> req_type \<Rightarrow> ('d, 'z) dstate_scheme
    \<Rightarrow> (int \<times> bytes \<times> ('d, 'z) dstate_scheme) option" where
  "device_request a dev buf n idx flags type s = do {
     d \<leftarrow> device_get dev s;
     c_assert (d_type d = DEV_BLOCK);
     start \<leftarrow> device_ioctl (d_dev d) DEV_CMD_SECTOR_START s;
     d \<leftarrow> (if d_parent d \<noteq> 0 then device_get (d_parent d) s else Some d);
     let r = \<lparr>r_addr = a, r_dev = d_dev d, r_type = type, r_idx = idx + word_of_int start, r_count = n AND 0xff,
              r_flags = flags, r_task = None\<rparr>;
     c_assert (d_requests d = []);
     s \<leftarrow> put_device (request_insert r d) s;
     (ret, buf, s) \<leftarrow> do_request r buf s;
     d \<leftarrow> rd (devices s) (nat (d_dev d));
     let (nxt, d) = request_finish r d;
     s \<leftarrow> put_device d s;
     Some (ret, buf, s) }"

subsection \<open>RAM disks\<close>

definition SECTOR_SIZE :: u32 where [c_defs]: "SECTOR_SIZE = 512"
definition RAMDISK_NR :: nat where [c_defs]: "RAMDISK_NR = 4"
definition KERNEL_RAMDISK_MEM :: u32 where [c_defs]: "KERNEL_RAMDISK_MEM = 0xC00000"
definition KERNEL_RAMDISK_SIZE :: u32 where [c_defs]: "KERNEL_RAMDISK_SIZE = 0x400000"

record ramdisk =
  rm_start :: u32
  rm_size :: u32

type_synonym ram = "u32 \<Rightarrow> u8"

definition ramdisk_ioctl :: "ramdisk \<Rightarrow> ram \<Rightarrow> int \<Rightarrow> int option" where
  "ramdisk_ioctl disk m cmd =
     (if cmd = DEV_CMD_SECTOR_START then Some 0
      else if cmd = DEV_CMD_SECTOR_COUNT then Some (uint (rm_size disk div SECTOR_SIZE))
      else None)"

definition ram_get :: "ram \<Rightarrow> u32 \<Rightarrow> nat \<Rightarrow> bytes" where
  "ram_get m a n = map (\<lambda>i. m (a + of_nat i)) [0..<n]"

definition ram_put :: "ram \<Rightarrow> u32 \<Rightarrow> bytes \<Rightarrow> ram" where
  "ram_put m a bs = (\<lambda>x. if unat (x - a) < length bs then bs ! unat (x - a) else m x)"

text \<open>\<open>memcpy\<close> between the buffer, which holds at least the bytes of the request, and the disk.\<close>

definition ramdisk_read :: "ramdisk \<Rightarrow> bytes \<Rightarrow> u32 \<Rightarrow> u32 \<Rightarrow> int \<Rightarrow> ram \<Rightarrow> (int \<times> bytes \<times> ram) option" where
  "ramdisk_read disk buf n lba flags m = do {
     let addr = rm_start disk + lba * SECTOR_SIZE;
     let len = (n AND 0xff) * SECTOR_SIZE;
     c_assert (addr + len < KERNEL_RAMDISK_MEM + KERNEL_RAMDISK_SIZE);
     c_assert (unat len \<le> length buf);
     Some (0, ram_get m addr (unat len) @ drop (unat len) buf, m) }"

definition ramdisk_write :: "ramdisk \<Rightarrow> bytes \<Rightarrow> u32 \<Rightarrow> u32 \<Rightarrow> int \<Rightarrow> ram \<Rightarrow> (int \<times> ram) option" where
  "ramdisk_write disk buf n lba flags m = do {
     let addr = rm_start disk + lba * SECTOR_SIZE;
     let len = (n AND 0xff) * SECTOR_SIZE;
     c_assert (addr + len < KERNEL_RAMDISK_MEM + KERNEL_RAMDISK_SIZE);
     c_assert (unat len \<le> length buf);
     Some (0, ram_put m addr (take (unat len) buf)) }"

definition ramdisk_at :: "nat \<Rightarrow> ramdisk" where
  "ramdisk_at i = (let size = KERNEL_RAMDISK_SIZE div of_nat RAMDISK_NR
     in \<lparr>rm_start = KERNEL_RAMDISK_MEM + size * of_nat i, rm_size = size\<rparr>)"

text \<open>The names are \<open>md\<close> and a letter.\<close>

definition ramdisk_init :: "(ram, 'z) dstate_scheme \<Rightarrow> (ram, 'z) dstate_scheme option" where
  "ramdisk_init s = foldM (\<lambda>i s. map_option snd (device_install DEV_BLOCK DEV_RAMDISK [109, 100, 97 + of_nat i] 0
       (Some (ramdisk_ioctl (ramdisk_at i))) (Some (ramdisk_read (ramdisk_at i))) (Some (ramdisk_write (ramdisk_at i))) s))
     [0..<RAMDISK_NR] s"

subsection \<open>The order in which requests are served\<close>

text \<open>Requests served after \<open>r\<close> while none arrives; at most as many as the first argument.\<close>

fun serve_all :: "nat \<Rightarrow> request \<Rightarrow> 'd device \<Rightarrow> request list" where
  "serve_all 0 r d = []"
| "serve_all (Suc n) r d = (case request_finish r d of
       (None, d) \<Rightarrow> [r]
     | (Some r', d) \<Rightarrow> r # serve_all n r' d)"

lemma request_nextreq_split:
  assumes "d_requests d = lower @ r # upper" "distinct (lower @ r # upper)"
  shows "takeWhile (\<lambda>x. x \<noteq> r) (d_requests d) = lower" "tl (dropWhile (\<lambda>x. x \<noteq> r) (d_requests d)) = upper"
    "remove1 r (d_requests d) = lower @ upper"
proof -
  have n: "\<forall>x\<in>set lower. x \<noteq> r" using assms(2) by auto
  show "takeWhile (\<lambda>x. x \<noteq> r) (d_requests d) = lower" using n assms(1) by (simp add: takeWhile_append2)
  show "tl (dropWhile (\<lambda>x. x \<noteq> r) (d_requests d)) = upper" using n assms(1) by (simp add: dropWhile_append2)
  show "remove1 r (d_requests d) = lower @ upper" using n assms(1) by (auto simp: remove1_append)
qed

lemma request_finish_split:
  assumes "d_requests d = lower @ r # upper" "distinct (lower @ r # upper)"
  shows "request_finish r d =
    (if upper = [] \<and> lower = [] then (None, d\<lparr>d_direct := DIRECT_DOWN, d_requests := []\<rparr>)
     else if d_direct d = DIRECT_UP \<and> upper \<noteq> [] \<or> d_direct d = DIRECT_DOWN \<and> lower = []
     then (Some (hd upper), d\<lparr>d_direct := DIRECT_UP, d_requests := lower @ upper\<rparr>)
     else (Some (last lower), d\<lparr>d_direct := DIRECT_DOWN, d_requests := lower @ upper\<rparr>))
    \<or> upper = [] \<and> lower = [] \<and> request_finish r d = (None, d\<lparr>d_direct := DIRECT_UP, d_requests := []\<rparr>)"
  using request_nextreq_split [OF assms]
  by (cases "d_direct d") (auto simp: request_finish_def request_nextreq_def Let_def)

lemma serve_up:
  assumes "d_requests d = lower @ r # upper" "distinct (lower @ r # upper)" "length (lower @ r # upper) \<le> n"
  shows "serve_all n r d = (if d_direct d = DIRECT_UP then r # upper @ rev lower else r # rev lower @ upper)"
  using assms
proof (induction n arbitrary: r d lower upper)
  case (Suc n)
  note f = request_finish_split [OF Suc.prems(1,2)]
  consider (none) "upper = []" "lower = []" | (up) "upper \<noteq> []" "d_direct d = DIRECT_UP \<or> lower = []"
    | (down) "lower \<noteq> []" "d_direct d = DIRECT_DOWN \<or> upper = []"
    by (cases "d_direct d"; cases upper; cases lower) auto
  then show ?case
  proof cases
    case none
    then show ?thesis using f by auto
  next
    case up
    let ?d = "d\<lparr>d_direct := DIRECT_UP, d_requests := lower @ hd upper # tl upper\<rparr>"
    have e: "request_finish r d = (Some (hd upper), ?d)" using f up by (cases "d_direct d") auto
    have u: "upper = hd upper # tl upper" using up by simp
    have "distinct (lower @ hd upper # tl upper)" "length (lower @ hd upper # tl upper) \<le> n"
      using Suc.prems(2,3) u by (metis distinct_append distinct.simps(2) set_ConsD disjoint_iff_not_equal list.set_intros(2), simp)
    from Suc.IH [OF _ this, of ?d] have "serve_all n (hd upper) ?d = upper @ rev lower" using u by simp
    then show ?thesis using e up by auto
  next
    case down
    let ?l = "butlast lower" and ?d = "d\<lparr>d_direct := DIRECT_DOWN, d_requests := butlast lower @ last lower # upper\<rparr>"
    have l: "lower @ upper = ?l @ last lower # upper" "lower = ?l @ [last lower]" using down by simp_all
    have e: "request_finish r d = (Some (last lower), ?d)" using f down l(1) by (cases "d_direct d") auto
    have "distinct (lower @ upper)" "length (lower @ upper) \<le> n" using Suc.prems(2,3) by auto
    then have "distinct (?l @ last lower # upper)" "length (?l @ last lower # upper) \<le> n" by (simp_all only: l(1))
    from Suc.IH [OF _ this, of ?d] have rest: "serve_all n (last lower) ?d = last lower # rev ?l @ upper" by simp
    have rl: "rev lower = last lower # rev ?l" using l(2) by (metis rev.simps(2) rev_append rev_rev_ident append_Cons append_Nil rev_singleton_conv)
    have "serve_all (Suc n) r d = r # last lower # rev ?l @ upper" using e rest by simp
    then show ?thesis unfolding rl using down by (cases "d_direct d") auto
  qed
qed simp

text \<open>C5: The requests of a device are served as an elevator stops: from the one being served all those
  above it in ascending order of their sectors, then those below it in descending order, or first
  down and then up when the disk moves down. Every waiting request is served, each once, with at
  most one turn of the arm. This is about the requests that wait at one moment; none arrives meanwhile.\<close>

theorem elevator_serves_all:
  assumes "d_requests d = lower @ r # upper" "distinct (d_requests d)" "sorted (map (\<lambda>x. sint (r_idx x)) (d_requests d))"
  shows "serve_all (length (d_requests d)) r d = (if d_direct d = DIRECT_UP then r # upper @ rev lower else r # rev lower @ upper)
    \<and> distinct (serve_all (length (d_requests d)) r d) \<and> set (serve_all (length (d_requests d)) r d) = set (d_requests d)
    \<and> sorted (map (\<lambda>x. sint (r_idx x)) (r # upper)) \<and> sorted (rev (map (\<lambda>x. sint (r_idx x)) (r # rev lower)))"
proof -
  have s: "serve_all (length (d_requests d)) r d = (if d_direct d = DIRECT_UP then r # upper @ rev lower else r # rev lower @ upper)"
    by (rule serve_up [OF assms(1)]) (use assms(1,2) in simp_all)
  have "distinct (lower @ r # upper)" "sorted (map (\<lambda>x. sint (r_idx x)) (lower @ r # upper))" using assms by simp_all
  then show ?thesis using s assms(1) by (auto simp: sorted_append rev_map)
qed

definition sample_request :: "nat \<Rightarrow> request" where
  "sample_request i = \<lparr>r_addr = i, r_dev = 3, r_type = REQ_READ, r_idx = of_nat i, r_count = 2, r_flags = 0, r_task = Some i\<rparr>"

definition sample_device :: "unit device" where
  "sample_device = \<lparr>d_name = [], d_type = DEV_BLOCK, d_subtype = 6, d_dev = 3, d_parent = 0,
     d_requests = map sample_request [1, 4, 5, 9], d_direct = DIRECT_UP, d_ioctl = None, d_read = None, d_write = None\<rparr>"

theorem elevator_serves_all_witness:
  "serve_all 4 (sample_request 4) sample_device = map sample_request [4, 5, 9, 1]"
proof -
  have e: "d_requests sample_device = [sample_request 1] @ sample_request 4 # [sample_request 5, sample_request 9]"
    by (simp add: sample_device_def)
  have d: "distinct (d_requests sample_device)" by (simp add: sample_device_def sample_request_def)
  have s: "sorted (map (\<lambda>x. sint (r_idx x)) (d_requests sample_device))" by (simp add: sample_device_def sample_request_def)
  have n: "length (d_requests sample_device) = 4" "d_direct sample_device = DIRECT_UP" by (simp_all add: sample_device_def)
  show ?thesis using elevator_serves_all [OF e d s, THEN conjunct1] unfolding n by (simp del: serve_all.simps)
qed

subsection \<open>RAM disks keep what is written\<close>

lemma ram_get_put:
  assumes "length bs < 4294967296"
  shows "ram_get (ram_put m a bs) a (length bs) = bs"
proof (rule nth_equalityI)
  fix i
  assume "i < length (ram_get (ram_put m a bs) a (length bs))"
  then have "i < length bs" by (simp add: ram_get_def)
  moreover from this assms have "unat (of_nat i :: u32) = i" by (intro unat_of_nat32) simp
  ultimately show "ram_get (ram_put m a bs) a (length bs) ! i = bs ! i" by (simp add: ram_get_def ram_put_def)
qed (simp add: ram_get_def)

lemma ram_get_put_other:
  assumes "unat a + n \<le> unat b \<or> unat b + length bs \<le> unat a" "unat a + n < 4294967296" "unat b + length bs < 4294967296"
  shows "ram_get (ram_put m b bs) a n = ram_get m a n"
proof -
  have "ram_put m b bs (a + of_nat i) = m (a + of_nat i)" if "i < n" for i
  proof -
    have i: "unat (of_nat i :: u32) = i" using that assms(2) by (intro unat_of_nat32) simp
    have a: "unat (a + of_nat i) = unat a + i" using unat_plus_bound [of a "of_nat i"] that assms(2) i by simp
    have "\<not> unat (a + of_nat i - b) < length bs"
    proof (cases "unat b \<le> unat a + i")
      case True
      then have "unat (a + of_nat i - b) = unat a + i - unat b"
        using a unat_sub [of b "a + of_nat i"] by (simp add: word_le_nat_alt)
      then show ?thesis using assms(1) that True by auto
    next
      case False
      have "unat (a + of_nat i - b) = 4294967296 + (unat a + i) - unat b"
        using a False unat_sub_if' [of "a + of_nat i" b] by simp
      then show ?thesis using False assms(3) by simp
    qed
    then show ?thesis by (simp add: ram_put_def)
  qed
  then show ?thesis by (simp add: ram_get_def)
qed

end
