(* ===== verification/Buffer.thy ===== *)
theory Buffer
  imports Device Mutex
begin

section \<open>The buffer cache: \<open>kernel/buffer.c\<close>\<close>

text \<open>
  A buffer is named by its place in the array that starts at \<open>KERNEL_BUFFER_MEM\<close>, which is the order
  in which \<open>get_new_buffer\<close> hands them out; the data area of a buffer is carried in its record. The
  lists of free buffers (most recently released first) and of the buffers of a hash class are lists
  of these numbers, \<open>wait_list\<close> a list of tasks. The state extends that of the devices. \<open>cur\<close> is the
  running task. A call that has to wait (for a free buffer or for a lock) has no result; what
  happens around the wait is the subject of the section on two tasks. The memory of new buffers is
  zero where the code relies on it (the links of a node) and arbitrary in the data areas.
\<close>

definition HASH_COUNT :: u32 where [c_defs]: "HASH_COUNT = 31"
definition BLOCK_SIZE :: nat where [c_defs]: "BLOCK_SIZE = 1024"
definition BLOCK_SECS :: u32 where [c_defs]: "BLOCK_SECS = 2"
definition KERNEL_BUFFER_MEM :: u32 where [c_defs]: "KERNEL_BUFFER_MEM = 0x800000"
definition KERNEL_BUFFER_SIZE :: u32 where [c_defs]: "KERNEL_BUFFER_SIZE = 0x400000"
definition SIZEOF_BUFFER :: u32 where [c_defs]: "SIZEOF_BUFFER = 64"

record buffer =
  bf_data :: bytes
  bf_dev :: int
  bf_block :: u32
  bf_count :: int
  bf_dirty :: bool
  bf_valid :: bool
  bf_lock :: lock

record 'd bstate = "'d dstate" +
  buffers :: "buffer list"
  free_list :: "nat list"
  wait_list :: "nat list"
  hash_table :: "nat \<Rightarrow> nat list"
  raw_data :: "nat \<Rightarrow> bytes"
  cur :: nat

definition upd_buf :: "nat \<Rightarrow> (buffer \<Rightarrow> buffer) \<Rightarrow> ('d, 'z) bstate_scheme \<Rightarrow> ('d, 'z) bstate_scheme option" where
  "upd_buf i f s = do { b \<leftarrow> rd (buffers s) i; bs \<leftarrow> wr (buffers s) i (f b); Some (s\<lparr>buffers := bs\<rparr>) }"

subsection \<open>The hash table\<close>

definition hash :: "int \<Rightarrow> u32 \<Rightarrow> nat" where
  "hash dev block = unat ((word_of_int dev XOR block) mod HASH_COUNT)"

definition is_block :: "int \<Rightarrow> u32 \<Rightarrow> buffer list \<Rightarrow> nat \<Rightarrow> bool" where
  "is_block dev block bs i = (case rd bs i of None \<Rightarrow> False | Some b \<Rightarrow> bf_dev b = dev \<and> bf_block b = block)"

definition get_from_hash_table :: "int \<Rightarrow> u32 \<Rightarrow> ('d, 'z) bstate_scheme \<Rightarrow> nat option \<times> ('d, 'z) bstate_scheme" where
  "get_from_hash_table dev block s = (case List.find (is_block dev block (buffers s)) (hash_table s (hash dev block)) of
       None \<Rightarrow> (None, s)
     | Some i \<Rightarrow> (Some i, if i \<in> set (free_list s) then s\<lparr>free_list := remove1 i (free_list s)\<rparr> else s))"

definition hash_locate :: "nat \<Rightarrow> ('d, 'z) bstate_scheme \<Rightarrow> ('d, 'z) bstate_scheme option" where
  "hash_locate i s = do {
     b \<leftarrow> rd (buffers s) i;
     let h = hash (bf_dev b) (bf_block b);
     c_assert (i \<notin> set (hash_table s h));
     Some (s\<lparr>hash_table := (hash_table s)(h := i # hash_table s h)\<rparr>) }"

definition hash_remove :: "nat \<Rightarrow> ('d, 'z) bstate_scheme \<Rightarrow> ('d, 'z) bstate_scheme option" where
  "hash_remove i s = do {
     b \<leftarrow> rd (buffers s) i;
     let h = hash (bf_dev b) (bf_block b);
     c_assert (i \<in> set (hash_table s h));
     Some (s\<lparr>hash_table := (hash_table s)(h := remove1 i (hash_table s h))\<rparr>) }"

subsection \<open>Free buffers\<close>

definition buffer_ptr :: "nat \<Rightarrow> u32" where
  "buffer_ptr n = KERNEL_BUFFER_MEM + of_nat n * SIZEOF_BUFFER"

definition buffer_data :: "nat \<Rightarrow> u32" where
  "buffer_data n = KERNEL_BUFFER_MEM + KERNEL_BUFFER_SIZE - of_nat BLOCK_SIZE * (of_nat n + 1)"

definition get_new_buffer :: "('d, 'z) bstate_scheme \<Rightarrow> nat option \<times> ('d, 'z) bstate_scheme" where
  "get_new_buffer s =
     (let n = length (buffers s) in
      if buffer_ptr n + SIZEOF_BUFFER < buffer_data n
      then (Some n, s\<lparr>buffers := buffers s @ [\<lparr>bf_data = raw_data s n, bf_dev = EOF, bf_block = 0, bf_count = 0,
             bf_dirty = False, bf_valid = False, bf_lock = lock_init n\<rparr>]\<rparr>)
      else (None, s))"

text \<open>One pass of the loop of \<open>get_free_buffer\<close>; without a buffer the task has been queued.\<close>

definition get_free_pass :: "('d, 'z) bstate_scheme \<Rightarrow> (nat option \<times> ('d, 'z) bstate_scheme) option" where
  "get_free_pass s = (case get_new_buffer s of
       (Some i, s) \<Rightarrow> Some (Some i, s)
     | (None, s) \<Rightarrow>
         if free_list s \<noteq> [] then do {
           let i = last (free_list s);
           s \<leftarrow> hash_remove i (s\<lparr>free_list := butlast (free_list s)\<rparr>);
           s \<leftarrow> upd_buf i (\<lambda>b. b\<lparr>bf_valid := False\<rparr>) s;
           Some (Some i, s) }
         else Some (None, s\<lparr>wait_list := cur s # wait_list s\<rparr>))"

definition get_free_buffer :: "('d, 'z) bstate_scheme \<Rightarrow> (nat \<times> ('d, 'z) bstate_scheme) option" where
  "get_free_buffer s = do { (r, s) \<leftarrow> get_free_pass s; i \<leftarrow> r; Some (i, s) }"

text \<open>The rest of \<open>getblk\<close> once a free buffer is found.\<close>

definition getblk_fill :: "int \<Rightarrow> u32 \<Rightarrow> nat \<Rightarrow> ('d, 'z) bstate_scheme \<Rightarrow> ('d, 'z) bstate_scheme option" where
  "getblk_fill dev block i s = do {
     b \<leftarrow> rd (buffers s) i;
     c_assert (bf_count b = 0);
     c_assert (\<not> bf_dirty b);
     s \<leftarrow> upd_buf i (\<lambda>b. b\<lparr>bf_count := 1, bf_dev := dev, bf_block := block\<rparr>) s;
     hash_locate i s }"

definition getblk :: "int \<Rightarrow> u32 \<Rightarrow> ('d, 'z) bstate_scheme \<Rightarrow> (nat \<times> ('d, 'z) bstate_scheme) option" where
  "getblk dev block s = (case get_from_hash_table dev block s of
       (Some i, s) \<Rightarrow> do { s \<leftarrow> upd_buf i (\<lambda>b. b\<lparr>bf_count := bf_count b + 1\<rparr>) s; Some (i, s) }
     | (None, s) \<Rightarrow> do { (i, s) \<leftarrow> get_free_buffer s; s \<leftarrow> getblk_fill dev block i s; Some (i, s) })"

subsection \<open>Reading, writing, releasing\<close>

text \<open>\<open>lock_acquire\<close> and \<open>lock_release\<close> of a lock nobody else holds or waits for.\<close>

definition take_lock :: "nat \<Rightarrow> lock \<Rightarrow> lock option" where
  "take_lock me lk =
     (if holder lk \<noteq> Some me then do {
        c_assert (\<not> m_value (l_mutex lk));
        lock_own me (lk\<lparr>l_mutex := (l_mutex lk)\<lparr>m_value := True\<rparr>\<rparr>) }
      else Some (lk\<lparr>repeat := repeat lk + 1\<rparr>))"

definition give_lock :: "nat \<Rightarrow> lock \<Rightarrow> lock option" where
  "give_lock me lk = do {
     (last, lk) \<leftarrow> lock_drop me lk;
     if last then do {
       c_assert (m_value (l_mutex lk));
       Some (lk\<lparr>l_mutex := (l_mutex lk)\<lparr>m_value := False\<rparr>\<rparr>) }
     else Some lk }"

definition lock_buf :: "(nat \<Rightarrow> lock \<Rightarrow> lock option) \<Rightarrow> nat \<Rightarrow> ('d, 'z) bstate_scheme \<Rightarrow> ('d, 'z) bstate_scheme option" where
  "lock_buf f i s = do { b \<leftarrow> rd (buffers s) i; lk \<leftarrow> f (cur s) (bf_lock b); upd_buf i (\<lambda>b. b\<lparr>bf_lock := lk\<rparr>) s }"

definition read_buf :: "nat \<Rightarrow> ('d, 'z) bstate_scheme \<Rightarrow> (nat \<times> ('d, 'z) bstate_scheme) option" where
  "read_buf i s = do {
     b \<leftarrow> rd (buffers s) i;
     if bf_valid b then Some (i, s)
     else do {
       s \<leftarrow> lock_buf take_lock i s;
       b \<leftarrow> rd (buffers s) i;
       s \<leftarrow> (if \<not> bf_valid b then do {
           (e, d, s) \<leftarrow> device_request 0 (bf_dev b) (bf_data b) BLOCK_SECS (bf_block b * BLOCK_SECS) 0 REQ_READ s;
           c_assert (e = 0);
           upd_buf i (\<lambda>b. b\<lparr>bf_data := d, bf_dirty := False, bf_valid := True\<rparr>) s }
         else Some s);
       s \<leftarrow> lock_buf give_lock i s;
       Some (i, s) } }"

definition bread :: "int \<Rightarrow> u32 \<Rightarrow> ('d, 'z) bstate_scheme \<Rightarrow> (nat \<times> ('d, 'z) bstate_scheme) option" where
  "bread dev block s = do { (i, s) \<leftarrow> getblk dev block s; read_buf i s }"

definition bwrite :: "nat \<Rightarrow> ('d, 'z) bstate_scheme \<Rightarrow> ('d, 'z) bstate_scheme option" where
  "bwrite i s = do {
     b \<leftarrow> rd (buffers s) i;
     if \<not> bf_dirty b then Some s
     else do {
       (e, _, s) \<leftarrow> device_request 0 (bf_dev b) (bf_data b) BLOCK_SECS (bf_block b * BLOCK_SECS) 0 REQ_WRITE s;
       c_assert (e = 0);
       upd_buf i (\<lambda>b. b\<lparr>bf_dirty := False, bf_valid := True\<rparr>) s } }"

text \<open>The task woken, if any, is the one that has waited longest. \<open>None\<close> is the null pointer.\<close>

definition brelse :: "nat option \<Rightarrow> ('d, 'z) bstate_scheme \<Rightarrow> ('d, 'z) bstate_scheme option" where
  "brelse bf s = (case bf of None \<Rightarrow> Some s | Some i \<Rightarrow> do {
     b \<leftarrow> rd (buffers s) i;
     s \<leftarrow> (if bf_dirty b then bwrite i s else Some s);
     s \<leftarrow> upd_buf i (\<lambda>b. b\<lparr>bf_count := bf_count b - 1\<rparr>) s;
     b \<leftarrow> rd (buffers s) i;
     c_assert (bf_count b \<ge> 0);
     if bf_count b \<noteq> 0 then Some s
     else do {
       c_assert (i \<notin> set (free_list s));
       let s = s\<lparr>free_list := i # free_list s\<rparr>;
       Some (if wait_list s \<noteq> [] then s\<lparr>wait_list := butlast (wait_list s)\<rparr> else s) } })"

definition buffer_init :: "(nat \<Rightarrow> bytes) \<Rightarrow> ('d, 'z) bstate_scheme \<Rightarrow> ('d, 'z) bstate_scheme" where
  "buffer_init raw s = s\<lparr>buffers := [], free_list := [], wait_list := [], hash_table := (\<lambda>_. []), raw_data := raw\<rparr>"

subsection \<open>What the cache promises\<close>

text \<open>A disk gives back what was written: \<open>sec\<close> is the contents of a block, \<open>ok\<close> says which blocks
  there are.\<close>

locale disk =
  fixes ok :: "'d device list \<Rightarrow> 'd \<Rightarrow> int \<Rightarrow> u32 \<Rightarrow> bool"
    and sec :: "'d device list \<Rightarrow> 'd \<Rightarrow> int \<Rightarrow> u32 \<Rightarrow> bytes"
    and dummy :: "'z itself"
  assumes sec_length: "ok ds h dev blk \<Longrightarrow> length (sec ds h dev blk) = BLOCK_SIZE"
    and disk_read: "\<And>s :: ('d, 'z) bstate_scheme. ok (devices s) (hw s) dev blk \<Longrightarrow> length buf = BLOCK_SIZE
      \<Longrightarrow> \<exists>ds h. device_request 0 dev buf BLOCK_SECS (blk * BLOCK_SECS) 0 REQ_READ s
            = Some (0, sec (devices s) (hw s) dev blk, s\<lparr>devices := ds, hw := h\<rparr>)
          \<and> ok ds h = ok (devices s) (hw s) \<and> (\<forall>d b. ok ds h d b \<longrightarrow> sec ds h d b = sec (devices s) (hw s) d b)"
    and disk_write: "\<And>s :: ('d, 'z) bstate_scheme. ok (devices s) (hw s) dev blk \<Longrightarrow> length buf = BLOCK_SIZE
      \<Longrightarrow> \<exists>ds h. device_request 0 dev buf BLOCK_SECS (blk * BLOCK_SECS) 0 REQ_WRITE s
            = Some (0, buf, s\<lparr>devices := ds, hw := h\<rparr>)
          \<and> ok ds h = ok (devices s) (hw s)
          \<and> (\<forall>d b. ok ds h d b \<longrightarrow> sec ds h d b = (if d = dev \<and> b = blk then buf else sec (devices s) (hw s) d b))"

definition lock_free :: "lock \<Rightarrow> bool" where
  "lock_free lk \<longleftrightarrow> holder lk = None \<and> \<not> m_value (l_mutex lk) \<and> repeat lk = 0"

definition hash_of :: "buffer \<Rightarrow> nat" where
  "hash_of b = hash (bf_dev b) (bf_block b)"

text \<open>A buffer in its place: hashed, holding its block, free exactly when nobody uses it. A free buffer
  has the contents of the block on the disk; one in use may differ, and is \<open>stale\<close> when it does and is not
  marked to be written.\<close>

definition buf_ok where
  "buf_ok ok sec s i b \<longleftrightarrow> i \<in> set (hash_table s (hash_of b)) \<and> length (bf_data b) = BLOCK_SIZE \<and> lock_free (bf_lock b)
     \<and> 0 \<le> bf_count b \<and> (i \<in> set (free_list s) \<longleftrightarrow> bf_count b = 0) \<and> (bf_dirty b \<longrightarrow> 0 < bf_count b) \<and> bf_valid b
     \<and> ok (devices s) (hw s) (bf_dev b) (bf_block b)
     \<and> (bf_count b = 0 \<longrightarrow> bf_data b = sec (devices s) (hw s) (bf_dev b) (bf_block b))"

text \<open>A buffer taken out of the lists to be filled.\<close>

definition buf_hole where
  "buf_hole s i b \<longleftrightarrow> (\<forall>h. i \<notin> set (hash_table s h)) \<and> i \<notin> set (free_list s) \<and> length (bf_data b) = BLOCK_SIZE
     \<and> lock_free (bf_lock b) \<and> bf_count b = 0 \<and> \<not> bf_dirty b \<and> \<not> bf_valid b"

definition cache_but where
  "cache_but ok sec X s \<longleftrightarrow> distinct (free_list s) \<and> (\<forall>i\<in>set (free_list s). i < length (buffers s))
     \<and> (\<forall>h. distinct (hash_table s h))
     \<and> (\<forall>h. \<forall>i\<in>set (hash_table s h). i < length (buffers s) \<and> hash_of (buffers s ! i) = h)
     \<and> (\<forall>i < length (buffers s). i \<in> X \<longrightarrow> buf_hole s i (buffers s ! i))
     \<and> (\<forall>i < length (buffers s). i \<notin> X \<longrightarrow> buf_ok ok sec s i (buffers s ! i))
     \<and> (\<forall>i < length (buffers s). \<forall>j < length (buffers s). i \<notin> X \<and> j \<notin> X
          \<and> bf_dev (buffers s ! i) = bf_dev (buffers s ! j) \<and> bf_block (buffers s ! i) = bf_block (buffers s ! j) \<longrightarrow> i = j)
     \<and> (\<forall>n. length (raw_data s n) = BLOCK_SIZE)"

abbreviation cache_inv where
  "cache_inv ok sec s \<equiv> cache_but ok sec {} s"

text \<open>The buffer of a block, and the block as the users of the cache see it.\<close>

definition buf_of :: "int \<Rightarrow> u32 \<Rightarrow> ('d, 'z) bstate_scheme \<Rightarrow> nat option" where
  "buf_of dev blk s = List.find (is_block dev blk (buffers s)) [0..<length (buffers s)]"

definition block where
  "block sec s dev blk = (case buf_of dev blk s of Some i \<Rightarrow> bf_data (buffers s ! i) | None \<Rightarrow> sec (devices s) (hw s) dev blk)"

text \<open>There is a buffer to spare.\<close>

definition room :: "('d, 'z) bstate_scheme \<Rightarrow> bool" where
  "room s \<longleftrightarrow> free_list s \<noteq> [] \<or> buffer_ptr (length (buffers s)) + SIZEOF_BUFFER < buffer_data (length (buffers s))"

lemma cache_butD:
  assumes "cache_but ok sec X s"
  shows "distinct (free_list s)" "i \<in> set (free_list s) \<Longrightarrow> i < length (buffers s)" "distinct (hash_table s h)"
    "i \<in> set (hash_table s h) \<Longrightarrow> i < length (buffers s)" "i \<in> set (hash_table s h) \<Longrightarrow> hash_of (buffers s ! i) = h"
    "i < length (buffers s) \<Longrightarrow> i \<in> X \<Longrightarrow> buf_hole s i (buffers s ! i)"
    "i < length (buffers s) \<Longrightarrow> i \<notin> X \<Longrightarrow> buf_ok ok sec s i (buffers s ! i)"
    "i < length (buffers s) \<Longrightarrow> j < length (buffers s) \<Longrightarrow> i \<notin> X \<Longrightarrow> j \<notin> X
       \<Longrightarrow> bf_dev (buffers s ! i) = bf_dev (buffers s ! j) \<Longrightarrow> bf_block (buffers s ! i) = bf_block (buffers s ! j) \<Longrightarrow> i = j"
    "length (raw_data s n) = BLOCK_SIZE"
  using assms unfolding cache_but_def by (elim conjE; blast)+

lemma find_unique:
  assumes "x \<in> set xs" "P x" "\<And>y. P y \<Longrightarrow> y = x"
  shows "List.find P xs = Some x"
  using assms(1,2) by (induction xs) (auto dest: assms(3))

lemma is_block_less: "is_block dev blk bs i \<longleftrightarrow> i < length bs \<and> bf_dev (bs ! i) = dev \<and> bf_block (bs ! i) = blk"
  by (auto simp: is_block_def rd_def)

text \<open>Looking a block up in the hash table finds its buffer.\<close>

lemma hash_lookup:
  assumes "cache_inv ok sec s"
  shows "List.find (is_block dev blk (buffers s)) (hash_table s (hash dev blk)) = buf_of dev blk s"
proof (cases "\<exists>i < length (buffers s). bf_dev (buffers s ! i) = dev \<and> bf_block (buffers s ! i) = blk")
  case True
  then obtain i where i: "i < length (buffers s)" "bf_dev (buffers s ! i) = dev" "bf_block (buffers s ! i) = blk" by blast
  have u: "j = i" if "is_block dev blk (buffers s) j" for j
    using cache_butD(8) [OF assms, of j i] that i by (simp add: is_block_less)
  have "i \<in> set (hash_table s (hash dev blk))"
    using cache_butD(7) [OF assms i(1)] i by (simp add: buf_ok_def hash_of_def)
  moreover have b: "is_block dev blk (buffers s) i" using i by (simp add: is_block_less)
  ultimately have "List.find (is_block dev blk (buffers s)) (hash_table s (hash dev blk)) = Some i"
    by (rule find_unique [where P = "is_block dev blk (buffers s)", OF _ _ u])
  moreover have "buf_of dev blk s = Some i"
    unfolding buf_of_def
    by (rule find_unique [where P = "is_block dev blk (buffers s)", OF _ b u]) (use i(1) in simp)
  ultimately show ?thesis by simp
next
  case False
  then have n: "\<not> is_block dev blk (buffers s) j" for j by (simp add: is_block_less)
  have "List.find (is_block dev blk (buffers s)) xs = None" for xs using n by (simp add: find_None_iff)
  then show ?thesis by (simp add: buf_of_def)
qed

lemma buf_of_Some:
  "buf_of dev blk s = Some i \<Longrightarrow> i < length (buffers s) \<and> bf_dev (buffers s ! i) = dev \<and> bf_block (buffers s ! i) = blk"
  by (auto simp: buf_of_def find_Some_iff is_block_less)

lemma buf_of_I:
  assumes "cache_inv ok sec s" "i < length (buffers s)" "bf_dev (buffers s ! i) = dev" "bf_block (buffers s ! i) = blk"
  shows "buf_of dev blk s = Some i"
  unfolding buf_of_def
proof (rule find_unique [where P = "is_block dev blk (buffers s)"])
  show "is_block dev blk (buffers s) i" using assms(2-4) by (simp add: is_block_less)
  show "j = i" if "is_block dev blk (buffers s) j" for j
    using cache_butD(8) [OF assms(1), of j i] that assms(2-4) by (simp add: is_block_less)
qed (use assms(2) in simp)

lemma buf_of_None: "buf_of dev blk s = None \<longleftrightarrow> (\<forall>i < length (buffers s). \<not> (bf_dev (buffers s ! i) = dev \<and> bf_block (buffers s ! i) = blk))"
  by (auto simp: buf_of_def find_None_iff is_block_less)

lemma buf_of_cong:
  assumes "length (buffers s') = length (buffers s)"
    and "\<And>j. j < length (buffers s) \<Longrightarrow> bf_dev (buffers s' ! j) = bf_dev (buffers s ! j) \<and> bf_block (buffers s' ! j) = bf_block (buffers s ! j)"
  shows "buf_of d k s' = buf_of d k s"
proof -
  have "is_block d k (buffers s') j = is_block d k (buffers s) j" for j
    using assms by (auto simp: is_block_less)
  then have "is_block d k (buffers s') = is_block d k (buffers s)" by (rule ext)
  then show ?thesis using assms(1) by (simp add: buf_of_def)
qed

lemma block_cong:
  assumes "length (buffers s') = length (buffers s)"
    and "\<And>j. j < length (buffers s) \<Longrightarrow> bf_dev (buffers s' ! j) = bf_dev (buffers s ! j)
      \<and> bf_block (buffers s' ! j) = bf_block (buffers s ! j) \<and> bf_data (buffers s' ! j) = bf_data (buffers s ! j)"
    and "sec (devices s') (hw s') d k = sec (devices s) (hw s) d k"
  shows "block sec s' d k = block sec s d k"
proof -
  have "buf_of d k s' = buf_of d k s" by (rule buf_of_cong [OF assms(1)]) (use assms(2) in simp)
  then show ?thesis using assms(2,3) buf_of_Some [of d k s] by (auto simp: block_def split: option.split)
qed

text \<open>A buffer is changed in place: its block stays, others keep what they have.\<close>

lemma cache_inv_update:
  assumes inv: "cache_but ok sec X s" and i: "i < length (buffers s)" "i \<notin> X"
    and s': "buffers s' = (buffers s)[i := b']" "hash_table s' = hash_table s" "raw_data s' = raw_data s"
    and key: "bf_dev b' = bf_dev (buffers s ! i)" "bf_block b' = bf_block (buffers s ! i)"
    and free: "distinct (free_list s')" "\<And>j. j \<noteq> i \<Longrightarrow> j \<in> set (free_list s') \<longleftrightarrow> j \<in> set (free_list s)"
    and dsk: "ok (devices s') (hw s') = ok (devices s) (hw s)"
      "\<And>d k. ok (devices s) (hw s) d k \<Longrightarrow> \<not> (d = bf_dev b' \<and> k = bf_block b') \<Longrightarrow>
         sec (devices s') (hw s') d k = sec (devices s) (hw s) d k"
    and b': "buf_ok ok sec s' i b'"
  shows "cache_but ok sec X s'"
proof -
  note I = cache_butD [OF inv]
  have n: "length (buffers s') = length (buffers s)" using s' by simp
  have at: "buffers s' ! j = (if j = i then b' else buffers s ! j)" if "j < length (buffers s)" for j
    using s' that by (simp add: nth_list_update)
  have ho: "hash_of (buffers s' ! j) = hash_of (buffers s ! j)" if "j < length (buffers s)" for j
    using at [OF that] key by (simp add: hash_of_def)
  have f: "\<forall>j\<in>set (free_list s'). j < length (buffers s')" unfolding n using I(2) free(2) i(1) by metis
  have h: "\<forall>h. \<forall>j\<in>set (hash_table s' h). j < length (buffers s') \<and> hash_of (buffers s' ! j) = h"
    unfolding s' n using I(4,5) ho s'(1) by simp
  have x: "\<forall>j < length (buffers s'). j \<in> X \<longrightarrow> buf_hole s' j (buffers s' ! j)"
  proof (intro allI impI)
    fix j assume j: "j < length (buffers s')" "j \<in> X"
    then have ji: "j \<noteq> i" using i(2) by auto
    then show "buf_hole s' j (buffers s' ! j)"
      using I(6) [of j] j at [of j] free(2) [OF ji] s'(2) unfolding n by (simp add: buf_hole_def)
  qed
  have o: "\<forall>j < length (buffers s'). j \<notin> X \<longrightarrow> buf_ok ok sec s' j (buffers s' ! j)"
  proof (intro allI impI)
    fix j assume j: "j < length (buffers s')" "j \<notin> X"
    show "buf_ok ok sec s' j (buffers s' ! j)"
    proof (cases "j = i")
      case False
      let ?c = "buffers s ! j"
      have c: "buf_ok ok sec s j ?c" using I(7) j unfolding n by blast
      have "\<not> (bf_dev ?c = bf_dev b' \<and> bf_block ?c = bf_block b')"
        using I(8) [of j i] j i key False unfolding n by auto
      then have "sec (devices s') (hw s') (bf_dev ?c) (bf_block ?c) = sec (devices s) (hw s) (bf_dev ?c) (bf_block ?c)"
        using dsk(2) c by (simp add: buf_ok_def)
      then show ?thesis using c False at [of j] j free(2) [OF False] s'(2) dsk(1) unfolding n by (simp add: buf_ok_def)
    qed (use at [of i] b' i in simp)
  qed
  have u: "\<forall>j < length (buffers s'). \<forall>k < length (buffers s'). j \<notin> X \<and> k \<notin> X
      \<and> bf_dev (buffers s' ! j) = bf_dev (buffers s' ! k) \<and> bf_block (buffers s' ! j) = bf_block (buffers s' ! k) \<longrightarrow> j = k"
  proof (intro allI impI)
    fix j k
    assume "j < length (buffers s')" "k < length (buffers s')" and a: "j \<notin> X \<and> k \<notin> X
      \<and> bf_dev (buffers s' ! j) = bf_dev (buffers s' ! k) \<and> bf_block (buffers s' ! j) = bf_block (buffers s' ! k)"
    then have jk: "j < length (buffers s)" "k < length (buffers s)" unfolding n by simp_all
    have "bf_dev (buffers s' ! l) = bf_dev (buffers s ! l)" "bf_block (buffers s' ! l) = bf_block (buffers s ! l)"
      if "l < length (buffers s)" for l using at [OF that] key by simp_all
    then show "j = k" using I(8) [OF jk] a jk by simp
  qed
  show ?thesis unfolding cache_but_def using free(1) f h x o u I(3,9) unfolding s'(2,3) by blast
qed

text \<open>A hole is filled.\<close>

lemma cache_inv_fill:
  assumes inv: "cache_but ok sec (insert i X) s" and i: "i < length (buffers s)" "i \<notin> X"
    and s': "buffers s' = (buffers s)[i := b']" "hash_table s' = (hash_table s)(hash_of b' := i # hash_table s (hash_of b'))"
      "raw_data s' = raw_data s" "free_list s' = free_list s"
    and key: "\<And>j. j < length (buffers s) \<Longrightarrow> j \<noteq> i \<Longrightarrow> j \<notin> X \<Longrightarrow>
        \<not> (bf_dev (buffers s ! j) = bf_dev b' \<and> bf_block (buffers s ! j) = bf_block b')"
    and dsk: "ok (devices s') (hw s') = ok (devices s) (hw s)"
      "\<And>d k. ok (devices s) (hw s) d k \<Longrightarrow> sec (devices s') (hw s') d k = sec (devices s) (hw s) d k"
    and b': "buf_ok ok sec s' i b'"
  shows "cache_but ok sec X s'"
proof -
  note I = cache_butD [OF inv]
  have n: "length (buffers s') = length (buffers s)" using s' by simp
  have at: "buffers s' ! j = (if j = i then b' else buffers s ! j)" if "j < length (buffers s)" for j
    using s' that by (simp add: nth_list_update)
  have hole: "i \<notin> set (hash_table s h)" for h using I(6) [OF i(1)] by (simp add: buf_hole_def)
  have f: "\<forall>j\<in>set (free_list s'). j < length (buffers s')" unfolding n s'(4) by (intro ballI) (rule I(2))
  have d: "\<forall>h. distinct (hash_table s' h)" using I(3) hole unfolding s' by simp
  have h: "\<forall>h. \<forall>j\<in>set (hash_table s' h). j < length (buffers s') \<and> hash_of (buffers s' ! j) = h"
  proof (intro allI ballI)
    fix h j assume "j \<in> set (hash_table s' h)"
    then have "j = i \<and> h = hash_of b' \<or> j \<noteq> i \<and> j \<in> set (hash_table s h)"
      using hole unfolding s' by (auto split: if_splits)
    then show "j < length (buffers s') \<and> hash_of (buffers s' ! j) = h"
      using I(4,5) [of j h] i(1) at [of j] unfolding n by auto
  qed
  have x: "\<forall>j < length (buffers s'). j \<in> X \<longrightarrow> buf_hole s' j (buffers s' ! j)"
  proof (intro allI impI)
    fix j assume j: "j < length (buffers s')" "j \<in> X"
    then have ji: "j \<noteq> i" using i(2) by auto
    then show "buf_hole s' j (buffers s' ! j)"
      using I(6) [of j] j at [of j] s'(2,4) unfolding n by (auto simp: buf_hole_def)
  qed
  have o: "\<forall>j < length (buffers s'). j \<notin> X \<longrightarrow> buf_ok ok sec s' j (buffers s' ! j)"
  proof (intro allI impI)
    fix j assume j: "j < length (buffers s')" "j \<notin> X"
    show "buf_ok ok sec s' j (buffers s' ! j)"
    proof (cases "j = i")
      case False
      have "buf_ok ok sec s j (buffers s ! j)" using I(7) j False unfolding n by blast
      then show ?thesis using dsk False at [of j] j s'(2,4) unfolding n by (auto simp: buf_ok_def)
    qed (use at [of i] b' i in simp)
  qed
  have u: "\<forall>j < length (buffers s'). \<forall>k < length (buffers s'). j \<notin> X \<and> k \<notin> X
      \<and> bf_dev (buffers s' ! j) = bf_dev (buffers s' ! k) \<and> bf_block (buffers s' ! j) = bf_block (buffers s' ! k) \<longrightarrow> j = k"
  proof (intro allI impI)
    fix j k
    assume "j < length (buffers s')" "k < length (buffers s')" and a: "j \<notin> X \<and> k \<notin> X
      \<and> bf_dev (buffers s' ! j) = bf_dev (buffers s' ! k) \<and> bf_block (buffers s' ! j) = bf_block (buffers s' ! k)"
    then have jk: "j < length (buffers s)" "k < length (buffers s)" unfolding n by simp_all
    show "j = k"
      using key [of j] key [of k] I(8) [OF jk] a jk at [OF jk(1)] at [OF jk(2)] by (auto split: if_splits)
  qed
  show ?thesis unfolding cache_but_def using f d h x o u I(1,9) unfolding s'(3,4) by blast
qed

text \<open>The buffers in use. There are 3855 buffers, so there is one to spare when fewer are in use.\<close>

definition pins :: "('d, 'z) bstate_scheme \<Rightarrow> nat set" where
  "pins s = {j. j < length (buffers s) \<and> 0 < bf_count (buffers s ! j)}"

definition stale where
  "stale sec s = {i \<in> pins s. \<not> bf_dirty (buffers s ! i)
     \<and> bf_data (buffers s ! i) \<noteq> sec (devices s) (hw s) (bf_dev (buffers s ! i)) (bf_block (buffers s ! i))}"

definition MAX_BUFFERS :: nat where "MAX_BUFFERS = 3855"

lemma pins_finite [simp]: "finite (pins s)"
  by (simp add: pins_def)

lemma buffer_fits:
  assumes "n \<le> MAX_BUFFERS"
  shows "buffer_ptr n + SIZEOF_BUFFER < buffer_data n \<longleftrightarrow> n < MAX_BUFFERS"
proof -
  have n: "n \<le> 3855" using assms by (simp add: MAX_BUFFERS_def)
  have o: "unat (of_nat n :: u32) = n" using n by (intro unat_of_nat32) simp
  have m: "unat (of_nat n * 64 :: u32) = n * 64" using n o by (subst unat_mult_lem [THEN iffD1]) simp_all
  have p1: "unat (0x800000 + of_nat n * 64 :: u32) = 8388608 + n * 64" using n m by (subst unat_plus_bound) simp_all
  have p: "unat (buffer_ptr n + SIZEOF_BUFFER) = 8388608 + n * 64 + 64"
    unfolding buffer_ptr_def KERNEL_BUFFER_MEM_def SIZEOF_BUFFER_def by (subst unat_plus_bound) (use n p1 in simp_all)
  have o1: "unat (of_nat n + 1 :: u32) = n + 1" using n o by (subst unat_plus_bound) simp_all
  have m1: "unat (1024 * (of_nat n + 1) :: u32) = 1024 * (n + 1)" using n o1 by (subst unat_mult_lem [THEN iffD1]) simp_all
  have d: "unat (buffer_data n) = 12582912 - 1024 * (n + 1)"
    unfolding buffer_data_def KERNEL_BUFFER_MEM_def KERNEL_BUFFER_SIZE_def BLOCK_SIZE_def
    using n m1 by (subst unat_sub) (simp_all add: word_le_nat_alt)
  show ?thesis unfolding word_less_nat_alt p d MAX_BUFFERS_def using n by (auto simp: less_diff_conv)
qed

lemma room_pins:
  assumes "cache_inv ok sec s" "length (buffers s) \<le> MAX_BUFFERS" "card (pins s) < MAX_BUFFERS"
  shows "room s"
proof (rule ccontr)
  assume r: "\<not> room s"
  then have n: "length (buffers s) = MAX_BUFFERS" using assms(2) buffer_fits [OF assms(2)] by (simp add: room_def)
  have "pins s = {..<length (buffers s)}"
    using r cache_butD(7) [OF assms(1)] by (fastforce simp: pins_def room_def buf_ok_def)
  then show False using n assms(3) by simp
qed

subsection \<open>Taking a buffer\<close>

text \<open>Nothing outside the devices and the cache changes.\<close>

definition rest_same :: "('d, 'z) bstate_scheme \<Rightarrow> ('d, 'z) bstate_scheme \<Rightarrow> bool" where
  "rest_same s s' \<longleftrightarrow> s' = s\<lparr>devices := devices s', hw := hw s', buffers := buffers s', free_list := free_list s',
     wait_list := wait_list s', hash_table := hash_table s'\<rparr>"

lemma rest_same_refl [simp]: "rest_same s s"
  by (simp add: rest_same_def)

lemma rest_same_trans: "rest_same s t \<Longrightarrow> rest_same t u \<Longrightarrow> rest_same s u"
  unfolding rest_same_def by (cases s, cases t, cases u) simp

lemma rest_same_upd [simp]:
  "rest_same s (s\<lparr>buffers := b\<rparr>)" "rest_same s (s\<lparr>devices := d, hw := h, buffers := b, hash_table := t\<rparr>)"
  "rest_same s (s\<lparr>free_list := f, buffers := b\<rparr>)" "rest_same s (s\<lparr>buffers := b, hash_table := t, free_list := f\<rparr>)"
  "rest_same s (s\<lparr>free_list := f\<rparr>)" "rest_same s (s\<lparr>wait_list := w\<rparr>)" "rest_same s (s\<lparr>devices := d, hw := h, buffers := b\<rparr>)"
  by (simp_all add: rest_same_def)

definition others_same :: "nat \<Rightarrow> ('d, 'z) bstate_scheme \<Rightarrow> ('d, 'z) bstate_scheme \<Rightarrow> bool" where
  "others_same i s s' \<longleftrightarrow> length (buffers s) \<le> length (buffers s')
     \<and> (\<forall>j < length (buffers s). j \<noteq> i \<longrightarrow> buffers s' ! j = buffers s ! j)"

lemma buffer_ptr_simps [simp]:
  "buffers (s\<lparr>devices := ds\<rparr>) = buffers s" "buffers (s\<lparr>hw := h\<rparr>) = buffers s"
  "hash_table (s\<lparr>devices := ds\<rparr>) = hash_table s" "hash_table (s\<lparr>hw := h\<rparr>) = hash_table s"
  by simp_all

lemma upd_buf_in: "i < length (buffers s) \<Longrightarrow> upd_buf i f s = Some (s\<lparr>buffers := (buffers s)[i := f (buffers s ! i)]\<rparr>)"
  by (simp add: upd_buf_def)

lemma get_free_new:
  assumes "cache_but ok sec X s" "X \<subseteq> {..<length (buffers s)}" "buffer_ptr (length (buffers s)) + SIZEOF_BUFFER < buffer_data (length (buffers s))"
  shows "\<exists>s'. get_free_pass s = Some (Some (length (buffers s)), s') \<and> cache_but ok sec (insert (length (buffers s)) X) s'
    \<and> others_same (length (buffers s)) s s' \<and> length (buffers s') = Suc (length (buffers s)) \<and> bf_dev (buffers s' ! length (buffers s)) = EOF
    \<and> rest_same s s' \<and> devices s' = devices s \<and> hw s' = hw s"
proof -
  let ?n = "length (buffers s)"
  let ?b = "\<lparr>bf_data = raw_data s ?n, bf_dev = EOF, bf_block = 0, bf_count = 0, bf_dirty = False, bf_valid = False, bf_lock = lock_init ?n\<rparr>"
  let ?s = "s\<lparr>buffers := buffers s @ [?b]\<rparr>"
  note I = cache_butD [OF assms(1)]
  have at: "buffers ?s ! j = (if j < ?n then buffers s ! j else ?b)" if "j < Suc ?n" for j
    using that by (auto simp: nth_append less_Suc_eq)
  have e: "get_free_pass s = Some (Some ?n, ?s)"
    using assms(3) by (simp add: get_free_pass_def get_new_buffer_def Let_def)
  have hole: "buf_hole ?s ?n ?b"
    using I(2) [of ?n] I(4) [of ?n] I(9) [of ?n]
    by (auto simp: buf_hole_def lock_free_def lock_init_def mutex_init_def)
  have f: "\<forall>j\<in>set (free_list ?s). j < length (buffers ?s)" using I(2) by (auto intro: less_SucI)
  have h: "\<forall>h. \<forall>j\<in>set (hash_table ?s h). j < length (buffers ?s) \<and> hash_of (buffers ?s ! j) = h"
    using I(4,5) by (auto simp: nth_append intro: less_SucI)
  have x: "\<forall>j < length (buffers ?s). j \<in> insert ?n X \<longrightarrow> buf_hole ?s j (buffers ?s ! j)"
  proof (intro allI impI)
    fix j assume j: "j < length (buffers ?s)" "j \<in> insert ?n X"
    show "buf_hole ?s j (buffers ?s ! j)"
    proof (cases "j = ?n")
      case False
      then have "j < ?n" "j \<in> X" using j by auto
      then show ?thesis using I(6) [of j] at [of j] by (simp add: buf_hole_def)
    qed (use hole in simp)
  qed
  have o: "\<forall>j < length (buffers ?s). j \<notin> insert ?n X \<longrightarrow> buf_ok ok sec ?s j (buffers ?s ! j)"
  proof (intro allI impI)
    fix j assume "j < length (buffers ?s)" "j \<notin> insert ?n X"
    then have "j < ?n" "j \<notin> X" by auto
    then show "buf_ok ok sec ?s j (buffers ?s ! j)" using I(7) [of j] at [of j] by (simp add: buf_ok_def)
  qed
  have u: "\<forall>j < length (buffers ?s). \<forall>k < length (buffers ?s). j \<notin> insert ?n X \<and> k \<notin> insert ?n X
      \<and> bf_dev (buffers ?s ! j) = bf_dev (buffers ?s ! k) \<and> bf_block (buffers ?s ! j) = bf_block (buffers ?s ! k) \<longrightarrow> j = k"
  proof (intro allI impI)
    fix j k
    assume "j < length (buffers ?s)" "k < length (buffers ?s)" and a: "j \<notin> insert ?n X \<and> k \<notin> insert ?n X
      \<and> bf_dev (buffers ?s ! j) = bf_dev (buffers ?s ! k) \<and> bf_block (buffers ?s ! j) = bf_block (buffers ?s ! k)"
    then have jk: "j < ?n" "k < ?n" by auto
    then show "j = k" using I(8) [OF jk] a at [of j] at [of k] by simp
  qed
  have "cache_but ok sec (insert ?n X) ?s"
    unfolding cache_but_def using I(1) f h x o u I(3,9) by simp
  then show ?thesis using e by (intro exI [of _ ?s]) (simp add: others_same_def nth_append)
qed

lemma get_free_old:
  assumes "cache_but ok sec X s" "\<not> buffer_ptr (length (buffers s)) + SIZEOF_BUFFER < buffer_data (length (buffers s))"
    "free_list s \<noteq> []" "X \<subseteq> {..<length (buffers s)}"
  shows "\<exists>s'. get_free_pass s = Some (Some (last (free_list s)), s') \<and> cache_but ok sec (insert (last (free_list s)) X) s'
    \<and> last (free_list s) \<notin> X \<and> last (free_list s) < length (buffers s)
    \<and> others_same (last (free_list s)) s s' \<and> length (buffers s') = length (buffers s) \<and> free_list s' = butlast (free_list s)
    \<and> rest_same s s' \<and> devices s' = devices s \<and> hw s' = hw s"
proof -
  let ?i = "last (free_list s)"
  note I = cache_butD [OF assms(1)]
  let ?b = "buffers s ! ?i"
  let ?h = "hash_of ?b"
  have i: "?i \<in> set (free_list s)" "?i < length (buffers s)" using assms(3) I(2) by auto
  have iX: "?i \<notin> X" using I(6) [of ?i] i by (auto simp: buf_hole_def)
  have ok: "buf_ok ok sec s ?i ?b" by (rule I(7) [OF i(2) iX])
  let ?s = "s\<lparr>buffers := (buffers s)[?i := ?b\<lparr>bf_valid := False\<rparr>], hash_table := (hash_table s)(?h := remove1 ?i (hash_table s ?h)),
     free_list := butlast (free_list s)\<rparr>"
  have ih: "?i \<in> set (hash_table s ?h)" using ok by (simp add: buf_ok_def)
  have e: "get_free_pass s = Some (Some ?i, ?s)"
    using assms(2,3) i ih
    by (simp add: get_free_pass_def get_new_buffer_def Let_def hash_remove_def upd_buf_in hash_of_def)
  have fin: "j \<in> set (butlast (free_list s)) \<longleftrightarrow> j \<noteq> ?i \<and> j \<in> set (free_list s)" for j
    by (rule in_butlast_distinct [OF I(1) assms(3)])
  have at: "buffers ?s ! j = (if j = ?i then ?b\<lparr>bf_valid := False\<rparr> else buffers s ! j)" if "j < length (buffers s)" for j
    using that by (simp add: nth_list_update)
  have n: "length (buffers ?s) = length (buffers s)" by simp
  have hin: "j \<in> set (hash_table ?s h) \<longleftrightarrow> j \<noteq> ?i \<and> j \<in> set (hash_table s h)" for j h
    using I(3) I(5) [of ?i h] by (auto simp: set_remove1_eq)
  have hole: "buf_hole ?s ?i (?b\<lparr>bf_valid := False\<rparr>)"
    using ok i(1) hin fin unfolding buf_hole_def by (auto simp: buf_ok_def)
  have f: "\<forall>j\<in>set (free_list ?s). j < length (buffers ?s)" using I(2) fin by simp
  have d: "\<forall>h. distinct (hash_table ?s h)" using I(3) by (simp add: distinct_remove1)
  have h: "\<forall>h. \<forall>j\<in>set (hash_table ?s h). j < length (buffers ?s) \<and> hash_of (buffers ?s ! j) = h"
  proof (intro allI ballI)
    fix h j assume "j \<in> set (hash_table ?s h)"
    then have "j \<noteq> ?i" "j \<in> set (hash_table s h)" using hin by blast+
    then show "j < length (buffers ?s) \<and> hash_of (buffers ?s ! j) = h" using I(4,5) [of j h] at [of j] n by simp
  qed
  have x: "\<forall>j < length (buffers ?s). j \<in> insert ?i X \<longrightarrow> buf_hole ?s j (buffers ?s ! j)"
  proof (intro allI impI)
    fix j assume j: "j < length (buffers ?s)" "j \<in> insert ?i X"
    show "buf_hole ?s j (buffers ?s ! j)"
    proof (cases "j = ?i")
      case False
      then have "buf_hole s j (buffers s ! j)" "buffers ?s ! j = buffers s ! j" using j I(6) [of j] at [of j] by simp_all
      then show ?thesis using hin fin unfolding buf_hole_def by simp
    qed (use hole i(2) in simp)
  qed
  have o: "\<forall>j < length (buffers ?s). j \<notin> insert ?i X \<longrightarrow> buf_ok ok sec ?s j (buffers ?s ! j)"
  proof (intro allI impI)
    fix j assume j: "j < length (buffers ?s)" "j \<notin> insert ?i X"
    then have "buf_ok ok sec s j (buffers s ! j)" "buffers ?s ! j = buffers s ! j" using I(7) [of j] at [of j] by simp_all
    then show "buf_ok ok sec ?s j (buffers ?s ! j)" using hin fin j unfolding buf_ok_def by simp
  qed
  have u: "\<forall>j < length (buffers ?s). \<forall>k < length (buffers ?s). j \<notin> insert ?i X \<and> k \<notin> insert ?i X
      \<and> bf_dev (buffers ?s ! j) = bf_dev (buffers ?s ! k) \<and> bf_block (buffers ?s ! j) = bf_block (buffers ?s ! k) \<longrightarrow> j = k"
  proof (intro allI impI)
    fix j k
    assume "j < length (buffers ?s)" "k < length (buffers ?s)" and a: "j \<notin> insert ?i X \<and> k \<notin> insert ?i X
      \<and> bf_dev (buffers ?s ! j) = bf_dev (buffers ?s ! k) \<and> bf_block (buffers ?s ! j) = bf_block (buffers ?s ! k)"
    then have jk: "j < length (buffers s)" "k < length (buffers s)" by simp_all
    have "buffers ?s ! j = buffers s ! j" "buffers ?s ! k = buffers s ! k" using a by auto
    with a have "bf_dev (buffers s ! j) = bf_dev (buffers s ! k)" "bf_block (buffers s ! j) = bf_block (buffers s ! k)"
      by (simp_all only:)
    then show "j = k" using I(8) [OF jk] a by simp
  qed
  have db: "distinct (free_list ?s)" using I(1) by (simp add: distinct_butlast)
  have "cache_but ok sec (insert ?i X) ?s"
  proof -
    have raw: "\<forall>n. length (raw_data ?s n) = BLOCK_SIZE" using I(9) by simp
    show ?thesis unfolding cache_but_def using db f d h x o u raw by (intro conjI)
  qed
  then show ?thesis using e iX i(2) by (intro exI [of _ ?s]) (simp add: others_same_def)
qed

lemma take_free_lock:
  "lock_free lk \<Longrightarrow> take_lock me lk = Some (lk\<lparr>l_mutex := (l_mutex lk)\<lparr>m_value := True\<rparr>, holder := Some me, repeat := 1\<rparr>)"
  by (simp add: take_lock_def lock_free_def lock_own_def)

lemma give_taken_lock:
  "lock_free lk \<Longrightarrow> give_lock me (lk\<lparr>l_mutex := (l_mutex lk)\<lparr>m_value := True\<rparr>, holder := Some me, repeat := 1\<rparr>) = Some lk"
  by (cases lk; cases "l_mutex lk") (simp add: give_lock_def lock_drop_def lock_free_def)

text \<open>Both are the functions of \<open>mutex.c\<close> in a state where nobody waits.\<close>

lemma take_lock_acquire:
  assumes "take_lock (running s) lk = Some lk'" "holder lk \<noteq> Some (running s)"
  shows "lock_acquire lk s = Some (True, lk', s\<lparr>intr := False\<rparr>)"
  using assms by (auto simp: take_lock_def lock_acquire_def mutex_lock_def lock_pass_def lock_own_def split: if_splits)

lemma give_lock_release:
  assumes "give_lock (running s) lk = Some lk'" "waiters s (m_waiters (l_mutex lk)) = []"
  shows "\<exists>s'. lock_release lk s = Some (lk', s') \<and> s'\<lparr>intr := intr s\<rparr> = s"
  using assms
  by (auto simp: give_lock_def lock_release_def mutex_unlock_def lock_drop_def split: if_splits intro!: exI [of _ "s\<lparr>intr := False\<rparr>"])

lemma lock_buf_in:
  "i < length (buffers s) \<Longrightarrow> lock_buf f i s = do { lk \<leftarrow> f (cur s) (bf_lock (buffers s ! i));
     Some (s\<lparr>buffers := (buffers s)[i := (buffers s ! i)\<lparr>bf_lock := lk\<rparr>]\<rparr>) }"
  by (simp add: lock_buf_def upd_buf_in)

context disk
begin

text \<open>Filling a hole with a block that no buffer holds.\<close>

lemma fill_read:
  fixes s :: "('d, 'z) bstate_scheme"
  assumes c: "cache_but ok sec (insert i X) s" and i: "i < length (buffers s)" "i \<notin> X"
    and o: "ok (devices s) (hw s) dev blk"
    and new: "\<And>j. j < length (buffers s) \<Longrightarrow> j \<noteq> i \<Longrightarrow> j \<notin> X \<Longrightarrow>
        \<not> (bf_dev (buffers s ! j) = dev \<and> bf_block (buffers s ! j) = blk)"
  shows "\<exists>s'. do { s \<leftarrow> getblk_fill dev blk i s; read_buf i s } = Some (i, s') \<and> cache_but ok sec X s' \<and> others_same i s s'
    \<and> (\<exists>b. buffers s' ! i = b \<and> bf_dev b = dev \<and> bf_block b = blk \<and> bf_count b = 1 \<and> bf_data b = sec (devices s) (hw s) dev blk
        \<and> \<not> bf_dirty b)
    \<and> length (buffers s') = length (buffers s)
    \<and> ok (devices s') (hw s') = ok (devices s) (hw s)
    \<and> (\<forall>d k. ok (devices s) (hw s) d k \<longrightarrow> sec (devices s') (hw s') d k = sec (devices s) (hw s) d k)
    \<and> rest_same s s' \<and> free_list s' = free_list s"
proof -
  let ?b = "buffers s ! i"
  have hole: "buf_hole s i ?b" using cache_butD(6) [OF c i(1)] by simp
  then have b: "bf_count ?b = 0" "\<not> bf_dirty ?b" "\<not> bf_valid ?b" "lock_free (bf_lock ?b)" "length (bf_data ?b) = BLOCK_SIZE"
    "\<And>h. i \<notin> set (hash_table s h)" "i \<notin> set (free_list s)"
    by (simp_all add: buf_hole_def)
  let ?h = "hash dev blk"
  let ?t = "(hash_table s)(?h := i # hash_table s ?h)"
  let ?b1 = "?b\<lparr>bf_count := 1, bf_dev := dev, bf_block := blk\<rparr>"
  let ?lk = "(bf_lock ?b)\<lparr>l_mutex := (l_mutex (bf_lock ?b))\<lparr>m_value := True\<rparr>, holder := Some (cur s), repeat := 1\<rparr>"
  let ?s1 = "s\<lparr>buffers := (buffers s)[i := ?b1], hash_table := ?t\<rparr>"
  let ?s2 = "s\<lparr>buffers := (buffers s)[i := ?b1\<lparr>bf_lock := ?lk\<rparr>], hash_table := ?t\<rparr>"
  have fill: "getblk_fill dev blk i s = Some ?s1"
    using i(1) b by (simp add: getblk_fill_def upd_buf_in hash_locate_def Let_def)
  have lk: "lock_buf take_lock i ?s1 = Some ?s2" using i(1) b(4) by (simp add: lock_buf_in take_free_lock)
  have o2: "ok (devices ?s2) (hw ?s2) dev blk" using o by simp
  obtain ds h where r: "device_request 0 dev (bf_data ?b) BLOCK_SECS (blk * BLOCK_SECS) 0 REQ_READ ?s2
        = Some (0, sec (devices ?s2) (hw ?s2) dev blk, ?s2\<lparr>devices := ds, hw := h\<rparr>)"
    "ok ds h = ok (devices ?s2) (hw ?s2)" "\<forall>d b. ok ds h d b \<longrightarrow> sec ds h d b = sec (devices ?s2) (hw ?s2) d b"
    using disk_read [OF o2 b(5)] by blast
  let ?b3 = "?b1\<lparr>bf_data := sec (devices s) (hw s) dev blk, bf_dirty := False, bf_valid := True\<rparr>"
  let ?s3 = "s\<lparr>devices := ds, hw := h, buffers := (buffers s)[i := ?b3], hash_table := ?t\<rparr>"
  have "read_buf i ?s1 = Some (i, ?s3)"
    unfolding read_buf_def using i(1) b(3,4) lk r(1)
    by (simp add: upd_buf_in lock_buf_in give_taken_lock)
  then have e: "do { s \<leftarrow> getblk_fill dev blk i s; read_buf i s } = Some (i, ?s3)" using fill by simp
  have h3: "hash_of ?b3 = ?h" by (simp add: hash_of_def)
  have ok3: "buf_ok ok sec ?s3 i ?b3"
    using b o r(2,3) sec_length [OF o] unfolding buf_ok_def h3 by simp
  have "cache_but ok sec X ?s3"
    by (rule cache_inv_fill [OF c i, where b' = ?b3]) (use h3 new r(2,3) ok3 in simp_all)
  then show ?thesis
    using e i(1) r(2,3) by (intro exI [of _ ?s3]) (simp add: others_same_def)
qed

text \<open>What \<open>bread\<close> promises.\<close>

definition took where
  "took dev blk s i s' \<longleftrightarrow> cache_inv ok sec s' \<and> buf_of dev blk s' = Some i \<and> i < length (buffers s')
     \<and> bf_count (buffers s' ! i) = (case buf_of dev blk s of Some i \<Rightarrow> bf_count (buffers s ! i) | None \<Rightarrow> 0) + 1
     \<and> bf_dirty (buffers s' ! i) = (case buf_of dev blk s of Some i \<Rightarrow> bf_dirty (buffers s ! i) | None \<Rightarrow> False)
     \<and> (\<forall>j < length (buffers s). 0 < bf_count (buffers s ! j) \<longrightarrow> buffers s' ! j = (if j = i then (buffers s ! j)\<lparr>bf_count := bf_count (buffers s ! j) + 1\<rparr> else buffers s ! j))
     \<and> length (buffers s) \<le> length (buffers s')
     \<and> (buf_of dev blk s = None \<longrightarrow> (\<forall>j < length (buffers s). 0 < bf_count (buffers s ! j) \<longrightarrow> j \<noteq> i))
     \<and> ok (devices s') (hw s') = ok (devices s) (hw s)
     \<and> (\<forall>d k. ok (devices s) (hw s) d k \<longrightarrow> block sec s' d k = block sec s d k)
     \<and> rest_same s s' \<and> pins s' = insert i (pins s)
     \<and> (length (buffers s) \<le> MAX_BUFFERS \<longrightarrow> length (buffers s') \<le> MAX_BUFFERS)
     \<and> stale sec s' \<subseteq> stale sec s"

lemma bread_hit:
  fixes s :: "('d, 'z) bstate_scheme"
  assumes c: "cache_inv ok sec s" and b: "buf_of dev blk s = Some i"
  shows "\<exists>s'. bread dev blk s = Some (i, s') \<and> took dev blk s i s'"
proof -
  let ?b = "buffers s ! i" and ?fl = "if i \<in> set (free_list s) then remove1 i (free_list s) else free_list s"
  have i: "i < length (buffers s)" "bf_dev ?b = dev" "bf_block ?b = blk" using buf_of_Some [OF b] by simp_all
  have ok: "buf_ok ok sec s i ?b" using cache_butD(7) [OF c i(1)] by simp
  let ?b' = "?b\<lparr>bf_count := bf_count ?b + 1\<rparr>"
  let ?s = "s\<lparr>free_list := ?fl, buffers := (buffers s)[i := ?b']\<rparr>"
  have d: "distinct (free_list s)" by (rule cache_butD(1) [OF c])
  have fin: "j \<in> set ?fl \<longleftrightarrow> j \<noteq> i \<and> j \<in> set (free_list s)" for j using d by (auto simp: set_remove1_eq)
  have e: "bread dev blk s = Some (i, ?s)"
  proof -
    have "get_from_hash_table dev blk s = (Some i, s\<lparr>free_list := ?fl\<rparr>)"
      using hash_lookup [OF c, of dev blk] b by (simp add: get_from_hash_table_def)
    then show ?thesis using i(1) ok by (simp add: bread_def getblk_def upd_buf_in read_buf_def buf_ok_def)
  qed
  have b': "buf_ok ok sec ?s i ?b'" using ok fin by (auto simp: buf_ok_def hash_of_def)
  have c': "cache_inv ok sec ?s"
    by (rule cache_inv_update [OF c i(1), where b' = ?b']) (use b' d fin in \<open>auto simp: distinct_remove1\<close>)
  have at: "j < length (buffers s) \<Longrightarrow> buffers ?s ! j = (if j = i then ?b' else buffers s ! j)" for j by (simp add: nth_list_update)
  have bo: "buf_of d k ?s = buf_of d k s" for d k
    by (rule buf_of_cong) (simp, subst at, simp, simp)
  have bl: "block sec ?s d k = block sec s d k" for d k
    by (rule block_cong) (simp, subst at, simp, simp, simp)
  have "pins ?s = insert i (pins s)" using i(1) ok by (auto simp: pins_def nth_list_update buf_ok_def split: if_splits)
  moreover have "stale sec ?s \<subseteq> stale sec s"
    using i(1) ok by (auto simp: stale_def pins_def nth_list_update buf_ok_def split: if_splits)
  ultimately have "took dev blk s i ?s"
    unfolding took_def using c' bo b i(1) bl at by simp
  then show ?thesis using e by blast
qed

lemma bread_miss:
  fixes s :: "('d, 'z) bstate_scheme"
  assumes c: "cache_inv ok sec s" and b: "buf_of dev blk s = None" and o: "ok (devices s) (hw s) dev blk" and r: "room s"
    and dev: "dev \<noteq> EOF"
  shows "\<exists>i s'. bread dev blk s = Some (i, s') \<and> took dev blk s i s'"
proof -
  obtain i s1 where g: "get_free_pass s = Some (Some i, s1)" "cache_but ok sec {i} s1" "others_same i s s1" "i < length (buffers s1)"
    and old: "i < length (buffers s) \<Longrightarrow> i \<in> set (free_list s)" and n1: "length (buffers s1) \<le> Suc (length (buffers s))"
    and n2: "length (buffers s1) = Suc (length (buffers s)) \<Longrightarrow> i = length (buffers s)"
    and s1: "rest_same s s1" and dh: "devices s1 = devices s" "hw s1 = hw s"
    and mx: "length (buffers s) \<le> MAX_BUFFERS \<Longrightarrow> length (buffers s1) \<le> MAX_BUFFERS"
  proof (cases "buffer_ptr (length (buffers s)) + SIZEOF_BUFFER < buffer_data (length (buffers s))")
    case True
    then obtain s1 where s1: "get_free_pass s = Some (Some (length (buffers s)), s1)" "cache_but ok sec {length (buffers s)} s1"
      "others_same (length (buffers s)) s s1" "length (buffers s1) = Suc (length (buffers s))" "rest_same s s1"
      "devices s1 = devices s" "hw s1 = hw s"
      using get_free_new [OF c _ True] by auto
    show ?thesis by (rule that [OF s1(1-3)]) (use True in \<open>simp_all add: s1(4-7) buffer_fits\<close>)
  next
    case False
    then have ne: "free_list s \<noteq> []" using r by (simp add: room_def)
    let ?i = "last (free_list s)"
    obtain s1 where s1: "get_free_pass s = Some (Some ?i, s1)" "cache_but ok sec {?i} s1" "others_same ?i s s1"
      "?i < length (buffers s)" "length (buffers s1) = length (buffers s)" "free_list s1 = butlast (free_list s)"
      "rest_same s s1" "devices s1 = devices s" "hw s1 = hw s"
      using get_free_old [OF c False ne] by auto
    show ?thesis by (rule that [OF s1(1-3)]) (simp_all add: s1(4,5,7-9) ne)
  qed
  have le: "length (buffers s) \<le> length (buffers s1)" and sm: "j < length (buffers s) \<Longrightarrow> j \<noteq> i \<Longrightarrow> buffers s1 ! j = buffers s ! j" for j
    using g(3) by (auto simp: others_same_def)
  have js: "j < length (buffers s)" if "j < length (buffers s1)" "j \<noteq> i" for j
    using that n1 n2 le by (cases "length (buffers s1) = Suc (length (buffers s))") auto
  have new: "\<not> (bf_dev (buffers s1 ! j) = dev \<and> bf_block (buffers s1 ! j) = blk)"
    if "j < length (buffers s1)" "j \<noteq> i" "j \<notin> {}" for j
    using b js [OF that(1,2)] sm [of j] that(2) by (simp add: buf_of_None)
  have o1: "ok (devices s1) (hw s1) dev blk" using o dh by simp
  obtain s' where f: "do { s \<leftarrow> getblk_fill dev blk i s1; read_buf i s } = Some (i, s')" "cache_inv ok sec s'" "others_same i s1 s'"
    "bf_dev (buffers s' ! i) = dev" "bf_block (buffers s' ! i) = blk" "bf_count (buffers s' ! i) = 1"
    "bf_data (buffers s' ! i) = sec (devices s1) (hw s1) dev blk" "\<not> bf_dirty (buffers s' ! i)"
    "length (buffers s') = length (buffers s1)" "ok (devices s') (hw s') = ok (devices s1) (hw s1)"
    "\<forall>d k. ok (devices s1) (hw s1) d k \<longrightarrow> sec (devices s') (hw s') d k = sec (devices s1) (hw s1) d k"
    "rest_same s1 s'"
    using fill_read [OF g(2,4) _ o1 new] by auto
  have sm': "j < length (buffers s) \<Longrightarrow> j \<noteq> i \<Longrightarrow> buffers s' ! j = buffers s ! j" for j
    using f(3) sm [of j] le by (auto simp: others_same_def)
  have e: "bread dev blk s = Some (i, s')"
    using hash_lookup [OF c, of dev blk] b g(1) f(1)
    by (auto simp: bread_def getblk_def get_from_hash_table_def get_free_buffer_def bind_eq_Some_conv)
  have il: "i < length (buffers s')" using g(4) f(9) by simp
  have bi: "buf_of dev blk s' = Some i" by (rule buf_of_I [OF f(2) il f(4,5)])
  have cnt0: "bf_count (buffers s ! i) = 0" if "i < length (buffers s)"
    using cache_butD(7) [OF c that] old [OF that] by (simp add: buf_ok_def)
  have bl: "block sec s' d k = block sec s d k" if okd: "ok (devices s) (hw s) d k" for d k
  proof (cases "d = dev \<and> k = blk")
    case True
    then show ?thesis using bi b f(7) dh by (simp add: block_def)
  next
    case False
    show ?thesis
    proof (cases "buf_of d k s")
      case None
      have "buf_of d k s' = None"
        using None False f(4,5,9) js sm' unfolding buf_of_None by (metis)
      then show ?thesis using None f(11) okd dh by (simp add: block_def)
    next
      case (Some j)
      note j = buf_of_Some [OF Some]
      show ?thesis
      proof (cases "j = i")
        case True
        then have "\<not> bf_dirty (buffers s ! j)" "bf_data (buffers s ! j) = sec (devices s) (hw s) d k"
          using cache_butD(7) [OF c, of j] j cnt0 by (auto simp: buf_ok_def)
        moreover have "buf_of d k s' = None"
        proof -
          have "\<not> (bf_dev (buffers s' ! l) = d \<and> bf_block (buffers s' ! l) = k)" if "l < length (buffers s')" for l
          proof (cases "l = i")
            case False
            then have l: "l < length (buffers s)" using js that f(9) by simp
            then show ?thesis using cache_butD(8) [OF c l, of j] j sm' [OF l False] True False by auto
          qed (use f(4,5) \<open>\<not> (d = dev \<and> k = blk)\<close> in auto)
          then show ?thesis by (simp add: buf_of_None)
        qed
        ultimately show ?thesis using Some f(11) okd dh by (simp add: block_def)
      next
        case nj: False
        have "buf_of d k s' = Some j"
          by (rule buf_of_I [OF f(2)]) (use j sm' [of j] nj le f(9) in auto)
        then show ?thesis using Some sm' [of j] j nj by (simp add: block_def)
      qed
    qed
  qed
  have s': "rest_same s s'" by (rule rest_same_trans [OF s1 f(12)])
  have pin: "pins s' = insert i (pins s)"
  proof (rule set_eqI)
    fix j
    show "j \<in> pins s' \<longleftrightarrow> j \<in> insert i (pins s)"
    proof (cases "j = i")
      case True
      then show ?thesis using il f(6) by (simp add: pins_def)
    next
      case False
      then show ?thesis using js [of j] sm' [of j] f(9) le by (auto simp: pins_def)
    qed
  qed
  have stl: "stale sec s' \<subseteq> stale sec s"
  proof
    fix j assume j: "j \<in> stale sec s'"
    then have ji: "j \<noteq> i" using f(4,5,7,11) o1 by (auto simp: stale_def)
    then have jp: "j \<in> pins s" "j < length (buffers s')" using j pin by (auto simp: stale_def pins_def)
    then have jl: "j < length (buffers s)" by (simp add: pins_def)
    have "ok (devices s) (hw s) (bf_dev (buffers s ! j)) (bf_block (buffers s ! j))"
      using cache_butD(7) [OF c jl] by (simp add: buf_ok_def)
    then show "j \<in> stale sec s" using j jp sm' [OF jl ji] f(11) dh by (simp add: stale_def)
  qed
  have "took dev blk s i s'"
    unfolding took_def using f(2,6,8,10) bi il b bl s' sm' cnt0 dh le mx f(9) pin stl by auto
  then show ?thesis using e by blast
qed

lemma bread_ok:
  fixes s :: "('d, 'z) bstate_scheme"
  assumes "cache_inv ok sec s" "ok (devices s) (hw s) dev blk" "room s \<or> buf_of dev blk s \<noteq> None" "dev \<noteq> EOF"
  obtains i s' where "bread dev blk s = Some (i, s')" "took dev blk s i s'"
proof (cases "buf_of dev blk s")
  case None
  then show ?thesis using bread_miss [OF assms(1) None assms(2) _ assms(4)] assms(3) that by blast
next
  case (Some i)
  then show ?thesis using bread_hit [OF assms(1) Some] that by blast
qed

definition changed where
  "changed i b' s s' \<longleftrightarrow> cache_inv ok sec s' \<and> buffers s' = (buffers s)[i := b'] \<and> hash_table s' = hash_table s
     \<and> ok (devices s') (hw s') = ok (devices s) (hw s) \<and> rest_same s s'"

text \<open>A buffer in use is changed: its block, and no other, has new contents.\<close>

lemma modify_ok:
  fixes s :: "('d, 'z) bstate_scheme"
  assumes c: "cache_inv ok sec s" and i: "i < length (buffers s)" "0 < bf_count (buffers s ! i)" and d: "length d = BLOCK_SIZE"
  shows "changed i ((buffers s ! i)\<lparr>bf_data := d, bf_dirty := v\<rparr>) s
      (s\<lparr>buffers := (buffers s)[i := (buffers s ! i)\<lparr>bf_data := d, bf_dirty := v\<rparr>]\<rparr>)"
proof -
  let ?b = "(buffers s ! i)\<lparr>bf_data := d, bf_dirty := v\<rparr>" and ?s = "s\<lparr>buffers := (buffers s)[i := (buffers s ! i)\<lparr>bf_data := d, bf_dirty := v\<rparr>]\<rparr>"
  have "buf_ok ok sec s i (buffers s ! i)" using cache_butD(7) [OF c i(1)] by simp
  then have "buf_ok ok sec ?s i ?b" using i(2) d by (simp add: buf_ok_def hash_of_def)
  then have "cache_inv ok sec ?s"
    by (intro cache_inv_update [OF c i(1), where b' = ?b]) (use cache_butD(1) [OF c] in simp_all)
  then show ?thesis by (simp add: changed_def)
qed

lemma modify_block:
  fixes s :: "('d, 'z) bstate_scheme"
  assumes c: "cache_inv ok sec s" and i: "i < length (buffers s)"
  shows "block sec (s\<lparr>buffers := (buffers s)[i := (buffers s ! i)\<lparr>bf_data := d, bf_dirty := v\<rparr>]\<rparr>) dev blk =
    (if dev = bf_dev (buffers s ! i) \<and> blk = bf_block (buffers s ! i) then d else block sec s dev blk)"
proof -
  let ?s = "s\<lparr>buffers := (buffers s)[i := (buffers s ! i)\<lparr>bf_data := d, bf_dirty := v\<rparr>]\<rparr>"
  have bo: "buf_of dev blk ?s = buf_of dev blk s" 
    by (rule buf_of_cong) (use i in \<open>auto simp: nth_list_update\<close>)
  show ?thesis
  proof (cases "dev = bf_dev (buffers s ! i) \<and> blk = bf_block (buffers s ! i)")
    case True
    then have "buf_of dev blk s = Some i" using buf_of_I [OF c i] by simp
    then show ?thesis using bo i True by (simp add: block_def)
  next
    case False
    then have "buf_of dev blk s \<noteq> Some i" using buf_of_Some by blast
    then show ?thesis using bo False by (auto simp: block_def split: option.split)
  qed
qed

lemma bwrite_ok:
  fixes s :: "('d, 'z) bstate_scheme"
  assumes c: "cache_inv ok sec s" and i: "i < length (buffers s)"
  shows "\<exists>s'. bwrite i s = Some s' \<and> changed i ((buffers s ! i)\<lparr>bf_dirty := False\<rparr>) s s' \<and> free_list s' = free_list s \<and> wait_list s' = wait_list s
    \<and> (\<forall>d k. ok (devices s) (hw s) d k \<longrightarrow> block sec s' d k = block sec s d k) \<and> stale sec s' = stale sec s"
proof (cases "bf_dirty (buffers s ! i)")
  case False
  then have "(buffers s ! i)\<lparr>bf_dirty := False\<rparr> = buffers s ! i" by simp
  then have "buffers s = (buffers s)[i := (buffers s ! i)\<lparr>bf_dirty := False\<rparr>]" by (simp only: list_update_id)
  then show ?thesis using False c i by (simp add: bwrite_def changed_def)
next
  case True
  let ?b = "buffers s ! i" and ?b' = "(buffers s ! i)\<lparr>bf_dirty := False\<rparr>"
  have b: "buf_ok ok sec s i ?b" using cache_butD(7) [OF c i] by simp
  have o: "ok (devices s) (hw s) (bf_dev ?b) (bf_block ?b)" "length (bf_data ?b) = BLOCK_SIZE" using b by (simp_all add: buf_ok_def)
  obtain ds h where r: "device_request 0 (bf_dev ?b) (bf_data ?b) BLOCK_SECS (bf_block ?b * BLOCK_SECS) 0 REQ_WRITE s
        = Some (0, bf_data ?b, s\<lparr>devices := ds, hw := h\<rparr>)"
    "ok ds h = ok (devices s) (hw s)"
    "\<forall>d k. ok ds h d k \<longrightarrow> sec ds h d k = (if d = bf_dev ?b \<and> k = bf_block ?b then bf_data ?b else sec (devices s) (hw s) d k)"
    using disk_write [OF o] by blast
  have bv: "?b\<lparr>bf_dirty := False, bf_valid := True\<rparr> = ?b'" using b by (simp add: buf_ok_def)
  let ?s = "s\<lparr>devices := ds, hw := h, buffers := (buffers s)[i := ?b']\<rparr>"
  have e: "bwrite i s = Some ?s" using i True r(1) bv by (simp add: bwrite_def upd_buf_in)
  have "buf_ok ok sec ?s i ?b'" using b r(2,3) o by (simp add: buf_ok_def hash_of_def)
  then have c': "cache_inv ok sec ?s"
    by (intro cache_inv_update [OF c i, where b' = ?b']) (use cache_butD(1) [OF c] r(2,3) in auto)
  have bl: "block sec ?s d k = block sec s d k" if okd: "ok (devices s) (hw s) d k" for d k
  proof (cases "buf_of d k s")
    case None
    have "buf_of d k ?s = None" using None i by (subst buf_of_cong [of _ s]) (auto simp: nth_list_update)
    moreover have "\<not> (d = bf_dev ?b \<and> k = bf_block ?b)" using None i by (auto simp: buf_of_None)
    ultimately show ?thesis using None r(2,3) okd by (auto simp: block_def)
  next
    case (Some j)
    have "buf_of d k ?s = Some j" using Some i by (subst buf_of_cong [of _ s]) (auto simp: nth_list_update)
    then show ?thesis using Some i by (simp add: block_def nth_list_update)
  qed
  have "stale sec ?s = stale sec s"
  proof -
    have "j \<in> stale sec ?s \<longleftrightarrow> j \<in> stale sec s" for j
    proof (cases "j = i")
      case True
      then show ?thesis using True \<open>bf_dirty ?b\<close> r(2,3) o i by (auto simp: stale_def pins_def)
    next
      case False
      show ?thesis
      proof (cases "j < length (buffers s)")
        case jl: True
        have "ok (devices s) (hw s) (bf_dev (buffers s ! j)) (bf_block (buffers s ! j))"
          using cache_butD(7) [OF c jl] by (simp add: buf_ok_def)
        moreover have "\<not> (bf_dev (buffers s ! j) = bf_dev ?b \<and> bf_block (buffers s ! j) = bf_block ?b)"
          using cache_butD(8) [OF c jl i] False by auto
        ultimately show ?thesis using False r(2,3) by (auto simp: stale_def pins_def)
      qed (simp add: stale_def pins_def)
    qed
    then show ?thesis by blast
  qed
  moreover have "changed i ?b' s ?s" using c' r(2) by (simp add: changed_def)
  ultimately show ?thesis using e bl by (intro exI [of _ ?s]) simp
qed

lemma brelse_ok:
  fixes s :: "('d, 'z) bstate_scheme"
  assumes c: "cache_inv ok sec s" and i: "i < length (buffers s)" "0 < bf_count (buffers s ! i)"
    and fresh: "i \<in> stale sec s \<Longrightarrow> bf_count (buffers s ! i) \<noteq> 1"
  shows "\<exists>s'. brelse (Some i) s = Some s'
    \<and> changed i ((buffers s ! i)\<lparr>bf_dirty := False, bf_count := bf_count (buffers s ! i) - 1\<rparr>) s s'
    \<and> (\<forall>d k. ok (devices s) (hw s) d k \<longrightarrow> block sec s' d k = block sec s d k)
    \<and> (bf_count (buffers s ! i) = 1 \<longrightarrow> free_list s' = i # free_list s) \<and> (bf_count (buffers s ! i) \<noteq> 1 \<longrightarrow> free_list s' = free_list s)
    \<and> wait_list s' = (if bf_count (buffers s ! i) = 1 then butlast (wait_list s) else wait_list s)
    \<and> stale sec s' = stale sec s"
proof -
  let ?b = "buffers s ! i"
  obtain s1 where w: "bwrite i s = Some s1" "changed i (?b\<lparr>bf_dirty := False\<rparr>) s s1" "free_list s1 = free_list s"
    "wait_list s1 = wait_list s" "\<forall>d k. ok (devices s) (hw s) d k \<longrightarrow> block sec s1 d k = block sec s d k" "stale sec s1 = stale sec s"
    using bwrite_ok [OF c i(1)] by blast
  have w': "(if bf_dirty ?b then bwrite i s else Some s) = Some s1"
    using w(1) i(1) by (auto simp: bwrite_def)
  let ?b1 = "?b\<lparr>bf_dirty := False\<rparr>" and ?b2 = "?b\<lparr>bf_dirty := False, bf_count := bf_count ?b - 1\<rparr>"
  have s1: "buffers s1 = (buffers s)[i := ?b1]" "hash_table s1 = hash_table s" "cache_inv ok sec s1" "rest_same s s1"
    "ok (devices s1) (hw s1) = ok (devices s) (hw s)"
    using w(2) by (simp_all add: changed_def)
  have i1: "i < length (buffers s1)" "buffers s1 ! i = ?b1" using s1(1) i(1) by simp_all
  have b: "buf_ok ok sec s1 i ?b1" using cache_butD(7) [OF s1(3) i1(1)] i1(2) by simp
  have nf: "i \<notin> set (free_list s1)" using b i(2) by (simp add: buf_ok_def)
  have bs: "(buffers s1)[i := ?b2] = (buffers s)[i := ?b2]" using s1(1) by simp
  let ?fl = "if bf_count ?b = 1 then i # free_list s else free_list s"
  let ?wl = "if bf_count ?b = 1 \<and> wait_list s \<noteq> [] then butlast (wait_list s) else wait_list s"
  let ?s = "s1\<lparr>buffers := (buffers s1)[i := ?b2], free_list := ?fl, wait_list := ?wl\<rparr>"
  have e: "brelse (Some i) s = Some ?s"
    using i w' i1 nf w(3,4) by (auto simp: brelse_def upd_buf_in)
  have ok2: "buf_ok ok sec ?s i ?b2"
  proof -
    have "bf_data ?b1 = sec (devices s1) (hw s1) (bf_dev ?b1) (bf_block ?b1)" if "bf_count ?b = 1"
    proof (rule ccontr)
      assume "\<not> ?thesis"
      then have "i \<in> stale sec s1" using i1 i(2) by (simp add: stale_def pins_def)
      then show False using fresh w(6) that by simp
    qed
    then show ?thesis using b i(2) nf w(3) by (simp add: buf_ok_def hash_of_def)
  qed
  have c2: "cache_inv ok sec ?s"
    by (rule cache_inv_update [OF s1(3) i1(1), where b' = ?b2])
      (use ok2 i1(2) nf w(3) cache_butD(1) [OF s1(3)] in \<open>auto\<close>)
  have "rest_same s1 ?s" by (simp add: rest_same_def)
  then have rs: "rest_same s ?s" by (rule rest_same_trans [OF s1(4)])
  have bl: "block sec ?s d k = block sec s d k" if okd: "ok (devices s) (hw s) d k" for d k
  proof -
    have "block sec ?s d k = block sec s1 d k"
      by (rule block_cong) (use i1 in \<open>auto simp: nth_list_update\<close>)
    then show ?thesis using w(5) okd by simp
  qed
  have "stale sec ?s = stale sec s1"
  proof -
    have "j \<in> stale sec ?s \<longleftrightarrow> j \<in> stale sec s1" for j
    proof (cases "j = i")
      case True
      have "i \<in> stale sec s1 \<Longrightarrow> bf_count ?b \<noteq> 1" using fresh w(6) by simp
      then show ?thesis using True i1 i(2) by (auto simp: stale_def pins_def)
    qed (simp add: stale_def pins_def)
    then show ?thesis by blast
  qed
  then have stl: "stale sec ?s = stale sec s" using w(6) by simp
  have "changed i ?b2 s ?s" unfolding changed_def using c2 rs s1(2,5) bs by simp
  then show ?thesis using e bl stl by (intro exI [of _ ?s]) simp
qed

text \<open>Two tasks that ask for a block while every buffer is in use.\<close>

lemma waiting_duplicates:
  fixes s :: "('d, 'z) bstate_scheme"
  assumes c: "cache_inv ok sec s" and full: "\<not> room s" and w: "wait_list s = []" and b: "buf_of dev blk s = None"
    and o: "ok (devices s) (hw s) dev blk" and ij: "i < length (buffers s)" "j < length (buffers s)" "i \<noteq> j"
      "bf_count (buffers s ! i) = 1" "bf_count (buffers s ! j) = 1" "i \<notin> stale sec s" "j \<notin> stale sec s"
  shows "\<exists>s1 s2 s3 s4 s5 s6.
      get_from_hash_table dev blk s = (None, s) \<and> get_free_pass s = Some (None, s\<lparr>wait_list := [cur s]\<rparr>)
    \<and> get_from_hash_table dev blk (s\<lparr>cur := t2, wait_list := [cur s]\<rparr>) = (None, s\<lparr>cur := t2, wait_list := [cur s]\<rparr>)
    \<and> get_free_pass (s\<lparr>cur := t2, wait_list := [cur s]\<rparr>) = Some (None, s1) \<and> wait_list s1 = [t2, cur s]
    \<and> brelse (Some i) s1 = Some s2 \<and> brelse (Some j) s2 = Some s3 \<and> wait_list s3 = []
    \<and> get_free_pass s3 = Some (Some i, s4) \<and> do { s \<leftarrow> getblk_fill dev blk i s4; read_buf i s } = Some (i, s5)
    \<and> (\<exists>s5'. get_free_pass s5 = Some (Some j, s5') \<and> getblk_fill dev blk j s5' = Some s6)
    \<and> bf_dev (buffers s6 ! i) = dev \<and> bf_block (buffers s6 ! i) = blk \<and> bf_count (buffers s6 ! i) = 1 \<and> bf_valid (buffers s6 ! i)
    \<and> bf_dev (buffers s6 ! j) = dev \<and> bf_block (buffers s6 ! j) = blk \<and> bf_count (buffers s6 ! j) = 1"
proof -
  have nonew: "\<not> buffer_ptr (length (buffers s)) + SIZEOF_BUFFER < buffer_data (length (buffers s))" and nofree: "free_list s = []"
    using full by (auto simp: room_def)
  have cong: "cache_but ok sec X (s\<lparr>cur := t, wait_list := l\<rparr>) = cache_but ok sec X s" for X t l
    by (simp add: cache_but_def buf_ok_def buf_hole_def)
  let ?s1 = "s\<lparr>cur := t2, wait_list := [t2, cur s]\<rparr>"
  have look: "get_from_hash_table dev blk s = (None, s)"
    "get_from_hash_table dev blk (s\<lparr>cur := t2, wait_list := [cur s]\<rparr>) = (None, s\<lparr>cur := t2, wait_list := [cur s]\<rparr>)"
    using hash_lookup [OF c, of dev blk] b by (simp_all add: get_from_hash_table_def)
  have pass: "get_free_pass s = Some (None, s\<lparr>wait_list := [cur s]\<rparr>)"
    "get_free_pass (s\<lparr>cur := t2, wait_list := [cur s]\<rparr>) = Some (None, ?s1)"
    using nonew nofree w by (simp_all add: get_free_pass_def get_new_buffer_def Let_def)
  have c1: "cache_inv ok sec ?s1" using c cong by simp
  have st1: "stale sec ?s1 = stale sec s" by (simp add: stale_def pins_def)
  obtain s2 where s2: "brelse (Some i) ?s1 = Some s2"
    "changed i ((buffers s ! i)\<lparr>bf_dirty := False, bf_count := 0\<rparr>) ?s1 s2" "free_list s2 = [i]" "wait_list s2 = [t2]"
    "stale sec s2 = stale sec s"
    using brelse_ok [OF c1, of i] ij nofree st1 by auto
  have c2: "cache_inv ok sec s2" and b2: "buffers s2 = (buffers s)[i := (buffers s ! i)\<lparr>bf_dirty := False, bf_count := 0\<rparr>]"
    using s2(2) by (simp_all add: changed_def)
  obtain s3 where s3: "brelse (Some j) s2 = Some s3"
    "changed j ((buffers s ! j)\<lparr>bf_dirty := False, bf_count := 0\<rparr>) s2 s3" "free_list s3 = [j, i]" "wait_list s3 = []"
    using brelse_ok [OF c2, of j] ij s2(3-5) b2 by auto
  have c3: "cache_inv ok sec s3" and b3: "buffers s3 = (buffers s)[i := (buffers s ! i)\<lparr>bf_dirty := False, bf_count := 0\<rparr>,
      j := (buffers s ! j)\<lparr>bf_dirty := False, bf_count := 0\<rparr>]"
    using s3(2) b2 by (simp_all add: changed_def)
  have n3: "length (buffers s3) = length (buffers s)" using b3 by simp
  obtain s4 where s4: "get_free_pass s3 = Some (Some i, s4)" "cache_but ok sec {i} s4" "i < length (buffers s3)" "others_same i s3 s4"
    "length (buffers s4) = length (buffers s3)" "free_list s4 = [j]" "devices s4 = devices s3" "hw s4 = hw s3"
    using get_free_old [OF c3] nonew s3(3) unfolding n3 by auto
  have i4: "i < length (buffers s4)" using s4(3,5) by simp
  have d3: "ok (devices s4) (hw s4) = ok (devices s) (hw s)"
    using s2(2) s3(2) s4(7,8) by (simp add: changed_def)
  have key: "\<not> (bf_dev (buffers s4 ! k) = dev \<and> bf_block (buffers s4 ! k) = blk)" if "k < length (buffers s4)" "k \<noteq> i" "k \<notin> {}" for k
  proof -
    have k: "k < length (buffers s)" using that s4(5) n3 by simp
    have "bf_dev (buffers s4 ! k) = bf_dev (buffers s ! k)" "bf_block (buffers s4 ! k) = bf_block (buffers s ! k)"
      using s4(4) that b3 k n3 ij(2) by (cases "k = j"; simp add: others_same_def)+
    then show ?thesis using b k by (auto simp: buf_of_None)
  qed
  have o4: "ok (devices s4) (hw s4) dev blk" using o d3 by simp
  obtain s5 where s5: "do { s \<leftarrow> getblk_fill dev blk i s4; read_buf i s } = Some (i, s5)" "cache_inv ok sec s5" "others_same i s4 s5"
    "bf_dev (buffers s5 ! i) = dev" "bf_block (buffers s5 ! i) = blk" "bf_count (buffers s5 ! i) = 1" "length (buffers s5) = length (buffers s4)"
    "rest_same s4 s5" "free_list s5 = free_list s4"
    using fill_read [OF s4(2) i4 _ o4 key] by auto
  have n5: "length (buffers s5) = length (buffers s)" using s5(7) s4(5) n3 by simp
  have v5: "bf_valid (buffers s5 ! i)" using cache_butD(7) [OF s5(2), of i] ij(1) n5 by (simp add: buf_ok_def)
  obtain s5' where s5': "get_free_pass s5 = Some (Some j, s5')" "cache_but ok sec {j} s5'" "others_same j s5 s5'"
    "length (buffers s5') = length (buffers s5)"
    using get_free_old [OF s5(2)] nonew s5(9) s4(6) unfolding n5 by auto
  have j5: "j < length (buffers s5')" using s5'(4) n5 ij(2) by simp
  have hole: "buf_hole s5' j (buffers s5' ! j)" using cache_butD(6) [OF s5'(2) j5] by simp
  let ?b6 = "(buffers s5' ! j)\<lparr>bf_count := 1, bf_dev := dev, bf_block := blk\<rparr>"
  let ?s6 = "s5'\<lparr>buffers := (buffers s5')[j := ?b6], hash_table := (hash_table s5')(hash dev blk := j # hash_table s5' (hash dev blk))\<rparr>"
  have f6: "getblk_fill dev blk j s5' = Some ?s6"
    using hole j5 by (simp add: getblk_fill_def buf_hole_def upd_buf_in hash_locate_def Let_def)
  have "buffers ?s6 ! i = buffers s5 ! i" using s5'(3) ij n5 by (simp add: others_same_def)
  then have "bf_dev (buffers ?s6 ! i) = dev" "bf_block (buffers ?s6 ! i) = blk" "bf_count (buffers ?s6 ! i) = 1" "bf_valid (buffers ?s6 ! i)"
    "bf_dev (buffers ?s6 ! j) = dev" "bf_block (buffers ?s6 ! j) = blk" "bf_count (buffers ?s6 ! j) = 1"
    using s5(4-6) v5 j5 by (simp_all del: nth_list_update_neq)
  moreover have "wait_list ?s1 = [t2, cur s]" by simp
  ultimately show ?thesis using look pass s2(1) s3(1,4) s4(1) s5(1) s5'(1) f6 by blast
qed

end

end
