(* ===== verification/Ramcache.thy ===== *)
theory Ramcache
  imports Buffer
begin

section \<open>The buffer cache over the RAM disks\<close>

text \<open>
  The RAM disks give back what was written (the locale \<open>disk\<close>), so the cache over them promises
  what its users need. The four disks are the devices \<open>b\<close> to \<open>b + 3\<close>, each with 1024 blocks; the
  last block of the last disk cannot be reached, because the bound in \<open>ramdisk_read\<close> and
  \<open>ramdisk_write\<close> is one byte too strict.
\<close>

definition ram_disks :: "nat \<Rightarrow> ram device list \<Rightarrow> bool" where
  "ram_disks b ds \<longleftrightarrow> b + RAMDISK_NR \<le> DEVICE_NR \<and> length ds = DEVICE_NR
     \<and> (\<forall>i < RAMDISK_NR. let d = ds ! (b + i) in d_type d = DEV_BLOCK \<and> d_dev d = int (b + i) \<and> d_parent d = 0
          \<and> d_requests d = [] \<and> d_ioctl d = Some (ramdisk_ioctl (ramdisk_at i))
          \<and> d_read d = Some (ramdisk_read (ramdisk_at i)) \<and> d_write d = Some (ramdisk_write (ramdisk_at i)))"

definition ram_ok :: "nat \<Rightarrow> ram device list \<Rightarrow> ram \<Rightarrow> int \<Rightarrow> u32 \<Rightarrow> bool" where
  "ram_ok b ds h dev blk \<longleftrightarrow> ram_disks b ds
     \<and> (\<exists>i < RAMDISK_NR. dev = int (b + i) \<and> unat blk < 1024 \<and> \<not> (i = 3 \<and> unat blk = 1023))"

definition ram_addr :: "nat \<Rightarrow> u32 \<Rightarrow> u32" where
  "ram_addr i blk = 0xC00000 + 0x100000 * of_nat i + blk * 1024"

definition ram_sec :: "nat \<Rightarrow> ram device list \<Rightarrow> ram \<Rightarrow> int \<Rightarrow> u32 \<Rightarrow> bytes" where
  "ram_sec b ds h dev blk = ram_get h (ram_addr (nat dev - b) blk) BLOCK_SIZE"

lemma nat_device [simp]: "nat (int b + int i) = b + i"
  by (simp add: nat_int_add)

lemma unat_ram_addr:
  assumes "i < RAMDISK_NR" "unat blk < 1024"
  shows "unat (ram_addr i blk) = 12582912 + 1048576 * i + 1024 * unat blk"
proof -
  have i: "i < 4" using assms(1) by (simp add: RAMDISK_NR_def)
  have a: "unat (blk * 1024) = unat blk * 1024" using assms(2) by (subst unat_mult_lem [THEN iffD1]) simp_all
  have oi: "unat (of_nat i :: u32) = i" using i by (intro unat_of_nat32) simp
  have b: "unat (0x100000 * of_nat i :: u32) = 1048576 * i" using i oi by (subst unat_mult_lem [THEN iffD1]) simp_all
  have c: "unat (0xC00000 + 0x100000 * of_nat i :: u32) = 12582912 + 1048576 * i"
    using i b by (subst unat_plus_bound) simp_all
  show ?thesis unfolding ram_addr_def using i a c assms(2) by (subst unat_plus_bound) simp_all
qed

lemma ramdisk_start: "rm_start (ramdisk_at i) + (blk * BLOCK_SECS + 0) * SECTOR_SIZE = ram_addr i blk"
  by (simp add: ramdisk_at_def ram_addr_def KERNEL_RAMDISK_MEM_def KERNEL_RAMDISK_SIZE_def RAMDISK_NR_def BLOCK_SECS_def
      SECTOR_SIZE_def Let_def)

lemma ram_bound:
  assumes "i < RAMDISK_NR" "unat blk < 1024" "\<not> (i = 3 \<and> unat blk = 1023)"
  shows "ram_addr i blk + 1024 < KERNEL_RAMDISK_MEM + KERNEL_RAMDISK_SIZE"
proof -
  have i: "i < 4" using assms(1) by (simp add: RAMDISK_NR_def)
  have "1048576 * i + 1024 * unat blk + 1024 < 4194304"
  proof (cases "i = 3")
    case True
    then show ?thesis using assms(2,3) by simp
  next
    case False
    then have "i \<le> 2" using i by simp
    then show ?thesis using assms(2) by simp
  qed
  moreover have "unat (ram_addr i blk + 1024) = 12582912 + 1048576 * i + 1024 * unat blk + 1024"
    using unat_ram_addr [OF assms(1,2)] i assms(2) by (subst unat_plus_bound) simp_all
  moreover have "unat (KERNEL_RAMDISK_MEM + KERNEL_RAMDISK_SIZE) = 16777216"
    by (simp add: KERNEL_RAMDISK_MEM_def KERNEL_RAMDISK_SIZE_def)
  ultimately show ?thesis unfolding word_less_nat_alt by (simp only:)
qed

lemma last_block_unreachable:
  "ramdisk_read (ramdisk_at 3) buf 2 (1023 * 2) 0 m = None" "ramdisk_write (ramdisk_at 3) buf 2 (1023 * 2) 0 m = None"
  by (simp_all add: ramdisk_read_def ramdisk_write_def ramdisk_at_def KERNEL_RAMDISK_MEM_def KERNEL_RAMDISK_SIZE_def RAMDISK_NR_def
      SECTOR_SIZE_def Let_def)

text \<open>A request to a RAM disk only turns the arm its device does not have.\<close>

definition turn :: "nat \<Rightarrow> ram device list \<Rightarrow> ram device list" where
  "turn k ds = ds[k := (ds ! k)\<lparr>d_direct := (if d_direct (ds ! k) = DIRECT_UP then DIRECT_DOWN else DIRECT_UP)\<rparr>]"

lemma ram_request:
  fixes s :: "(ram, 'z) bstate_scheme"
  assumes "ram_disks b (devices s)" "i < RAMDISK_NR" "unat blk < 1024" "\<not> (i = 3 \<and> unat blk = 1023)" "length buf = BLOCK_SIZE"
  shows "device_request 0 (int (b + i)) buf BLOCK_SECS (blk * BLOCK_SECS) 0 REQ_READ s
      = Some (0, ram_get (hw s) (ram_addr i blk) BLOCK_SIZE, s\<lparr>devices := turn (b + i) (devices s)\<rparr>)"
    "device_request 0 (int (b + i)) buf BLOCK_SECS (blk * BLOCK_SECS) 0 REQ_WRITE s
      = Some (0, buf, s\<lparr>devices := turn (b + i) (devices s), hw := ram_put (hw s) (ram_addr i blk) buf\<rparr>)"
    "ram_disks b (turn (b + i) (devices s))"
proof -
  let ?d = "devices s ! (b + i)"
  have d: "d_type ?d = DEV_BLOCK" "d_dev ?d = int (b + i)" "d_parent ?d = 0" "d_requests ?d = []"
    "d_ioctl ?d = Some (ramdisk_ioctl (ramdisk_at i))" "d_read ?d = Some (ramdisk_read (ramdisk_at i))"
    "d_write ?d = Some (ramdisk_write (ramdisk_at i))" and n: "b + i < DEVICE_NR" "length (devices s) = DEVICE_NR"
    using assms(1,2) by (auto simp: ram_disks_def Let_def)
  have ty: "DEV_BLOCK \<noteq> DEV_NULL" by (simp add: DEV_BLOCK_def DEV_NULL_def)
  have bd: "ram_addr i blk + 1024 < KERNEL_RAMDISK_MEM + KERNEL_RAMDISK_SIZE" by (rule ram_bound [OF assms(2-4)])
  have len: "(BLOCK_SECS AND 0xff AND 0xff) * SECTOR_SIZE = 1024" "(BLOCK_SECS AND 255) * SECTOR_SIZE = 1024"
    by (simp_all add: BLOCK_SECS_def SECTOR_SIZE_def)
  have bl: "length buf = 1024" using assms(5) by (simp add: BLOCK_SIZE_def)
  have st: "rm_start (ramdisk_at i) + blk * BLOCK_SECS * SECTOR_SIZE = ram_addr i blk" using ramdisk_start [of i blk] by simp
  have rd: "ramdisk_read (ramdisk_at i) buf (BLOCK_SECS AND 0xff) (blk * BLOCK_SECS) 0 (hw s)
      = Some (0, ram_get (hw s) (ram_addr i blk) BLOCK_SIZE, hw s)"
    using bd bl by (simp add: ramdisk_read_def Let_def st len BLOCK_SIZE_def)
  have wr: "ramdisk_write (ramdisk_at i) buf (BLOCK_SECS AND 0xff) (blk * BLOCK_SECS) 0 (hw s)
      = Some (0, ram_put (hw s) (ram_addr i blk) buf)"
    using bd bl by (simp add: ramdisk_write_def Let_def st len)
  have start: "ramdisk_ioctl (ramdisk_at i) (hw s) DEV_CMD_SECTOR_START = Some 0" by (simp add: ramdisk_ioctl_def)
  have get: "device_get (int (b + i)) s = Some ?d"
    using n d(1) ty by (simp add: device_get_def)
  have fin: "request_finish r (?d\<lparr>d_requests := [r]\<rparr>) = (None, ?d\<lparr>d_direct :=
      (if d_direct ?d = DIRECT_UP then DIRECT_DOWN else DIRECT_UP)\<rparr>)" for r
    using d(4) by (cases "d_direct ?d") (simp_all add: request_finish_def request_nextreq_def Let_def)
  show "device_request 0 (int (b + i)) buf BLOCK_SECS (blk * BLOCK_SECS) 0 REQ_READ s
      = Some (0, ram_get (hw s) (ram_addr i blk) BLOCK_SIZE, s\<lparr>devices := turn (b + i) (devices s)\<rparr>)"
    using n d start rd fin get ty unfolding turn_def
    by (simp add: device_request_def device_ioctl_def put_device_def do_request_def device_read_def device_get_def
        request_insert_def seq_insert_sort_def Let_def)
  show "device_request 0 (int (b + i)) buf BLOCK_SECS (blk * BLOCK_SECS) 0 REQ_WRITE s
      = Some (0, buf, s\<lparr>devices := turn (b + i) (devices s), hw := ram_put (hw s) (ram_addr i blk) buf\<rparr>)"
    using n d start wr fin get ty unfolding turn_def
    by (simp add: device_request_def device_ioctl_def put_device_def do_request_def device_write_def device_get_def
        request_insert_def seq_insert_sort_def Let_def)
  show "ram_disks b (turn (b + i) (devices s))" using assms(1) n unfolding turn_def ram_disks_def Let_def by (auto simp: nth_list_update)
qed

lemma ram_sec_other:
  assumes "ram_ok b ds h dev blk" "ram_ok b ds h d k" "length buf = BLOCK_SIZE"
  shows "ram_sec b ds' (ram_put h (ram_addr (nat dev - b) blk) buf) d k = (if d = dev \<and> k = blk then buf else ram_sec b ds' h d k)"
proof -
  obtain i where i: "i < RAMDISK_NR" "dev = int (b + i)" "unat blk < 1024" using assms(1) by (auto simp: ram_ok_def)
  obtain j where j: "j < RAMDISK_NR" "d = int (b + j)" "unat k < 1024" using assms(2) by (auto simp: ram_ok_def)
  have e: "nat dev - b = i" "nat d - b = j" using i j by simp_all
  note ai = unat_ram_addr [OF i(1,3)] and aj = unat_ram_addr [OF j(1,3)]
  have n: "i < 4" "j < 4" using i j by (simp_all add: RAMDISK_NR_def)
  show ?thesis
  proof (cases "d = dev \<and> k = blk")
    case True
    then show ?thesis using e ram_get_put [of buf h "ram_addr i blk"] assms(3) by (simp add: ram_sec_def BLOCK_SIZE_def)
  next
    case False
    have "unat (ram_addr j k) + BLOCK_SIZE \<le> unat (ram_addr i blk) \<or> unat (ram_addr i blk) + length buf \<le> unat (ram_addr j k)"
    proof (cases "i = j")
      case True
      then have "unat k \<noteq> unat blk" using False i j by (auto simp: word_unat_eq_iff)
      then show ?thesis using True ai aj assms(3) by (auto simp: BLOCK_SIZE_def)
    next
      case False
      then have "1048576 * i + 1048576 \<le> 1048576 * j \<or> 1048576 * j + 1048576 \<le> 1048576 * i" by auto
      then show ?thesis using ai aj assms(3) i(3) j(3) by (auto simp: BLOCK_SIZE_def)
    qed
    then have "ram_get (ram_put h (ram_addr i blk) buf) (ram_addr j k) BLOCK_SIZE = ram_get h (ram_addr j k) BLOCK_SIZE"
      using ai aj n i(3) j(3) assms(3) by (intro ram_get_put_other) (simp_all add: BLOCK_SIZE_def)
    then show ?thesis using False e by (auto simp: ram_sec_def)
  qed
qed

text \<open>\<open>ramdisk_init\<close> installs the disks in the first four free places of the table.\<close>

definition free_from :: "nat \<Rightarrow> (ram, 'z) dstate_scheme \<Rightarrow> bool" where
  "free_from k s \<longleftrightarrow> length (devices s) = DEVICE_NR \<and> 1 \<le> k \<and> (\<forall>j. 1 \<le> j \<and> j < k \<longrightarrow> d_type (devices s ! j) \<noteq> DEV_NULL)
     \<and> (\<forall>j. k \<le> j \<and> j < DEVICE_NR \<longrightarrow> d_type (devices s ! j) = DEV_NULL \<and> d_dev (devices s ! j) = int j \<and> d_requests (devices s ! j) = [])"

lemma free_from_init: "free_from 1 (device_init h)"
  by (auto simp: free_from_def device_init_def)

lemma device_install_next:
  assumes "free_from k s" "k < DEVICE_NR" "type \<noteq> DEV_NULL"
  shows "\<exists>d s'. device_install type sub nm par io r w s = Some (int k, s') \<and> free_from (k + 1) s' \<and> hw s' = hw s \<and> devices s' = (devices s)[k := d]
    \<and> d_type d = type \<and> d_dev d = int k \<and> d_parent d = par \<and> d_requests d = [] \<and> d_ioctl d = io \<and> d_read d = r \<and> d_write d = w"
proof -
  let ?d = "devices s ! k"
  have n: "length (devices s) = DEVICE_NR" "1 \<le> k" using assms(1) by (simp_all add: free_from_def)
  have k: "d_type ?d = DEV_NULL" "d_dev ?d = int k" "d_requests ?d = []" using assms(1,2) by (simp_all add: free_from_def)
  have f: "get_null_device s = Some k"
    unfolding get_null_device_def find_Some_iff
    by (rule exI [of _ "k - 1"]) (use assms(1,2) n k in \<open>auto simp: free_from_def\<close>)
  let ?d' = "?d\<lparr>d_parent := par, d_type := type, d_subtype := sub, d_name := copy_name (d_name ?d) nm NAMELEN,
      d_ioctl := io, d_read := r, d_write := w\<rparr>"
  let ?s = "s\<lparr>devices := (devices s)[k := ?d']\<rparr>"
  have e: "device_install type sub nm par io r w s = Some (int k, ?s)"
    using f assms(2) n k by (simp add: device_install_def)
  have fr: "free_from (k + 1) ?s"
    using assms n unfolding free_from_def by (auto simp: nth_list_update)
  show ?thesis using e fr k by (intro exI [of _ ?d'] exI [of _ ?s]) simp
qed

lemma ramdisk_init_ok:
  assumes "free_from b s" "b + RAMDISK_NR \<le> DEVICE_NR"
  shows "\<exists>s'. ramdisk_init s = Some s' \<and> ram_disks b (devices s') \<and> hw s' = hw s"
proof -
  define ins :: "nat \<Rightarrow> (ram, 'a) dstate_scheme \<Rightarrow> _" where "ins i s = map_option snd (device_install DEV_BLOCK DEV_RAMDISK [109, 100, 97 + of_nat i] 0
       (Some (ramdisk_ioctl (ramdisk_at i))) (Some (ramdisk_read (ramdisk_at i))) (Some (ramdisk_write (ramdisk_at i))) s)" for i s
  define rdev where "rdev i d \<longleftrightarrow> d_type d = DEV_BLOCK \<and> d_dev d = int (b + i) \<and> d_parent d = 0
          \<and> d_requests d = [] \<and> d_ioctl d = Some (ramdisk_ioctl (ramdisk_at i))
          \<and> d_read d = Some (ramdisk_read (ramdisk_at i)) \<and> d_write d = Some (ramdisk_write (ramdisk_at i))" for i and d :: "ram device"
  have step: "\<exists>d s'. ins i u = Some s' \<and> free_from (b + i + 1) s' \<and> hw s' = hw u \<and> devices s' = (devices u)[b + i := d] \<and> rdev i d"
    if "free_from (b + i) u" "i < 4" for i and u :: "(ram, 'a) dstate_scheme"
    using device_install_next [OF that(1), of DEV_BLOCK DEV_RAMDISK "[109, 100, 97 + of_nat i]" 0
        "Some (ramdisk_ioctl (ramdisk_at i))" "Some (ramdisk_read (ramdisk_at i))" "Some (ramdisk_write (ramdisk_at i))"] that(2) assms(2)
    by (auto simp: ins_def rdev_def RAMDISK_NR_def DEVICE_NR_def DEV_BLOCK_def DEV_NULL_def)
  obtain d0 s1 where s1: "ins 0 s = Some s1" "free_from (b + 1) s1" "hw s1 = hw s" "devices s1 = (devices s)[b := d0]" "rdev 0 d0"
    using step [of 0 s] assms(1) by (auto simp: eval_nat_numeral)
  obtain d1 s2 where s2: "ins 1 s1 = Some s2" "free_from (b + 2) s2" "hw s2 = hw s1" "devices s2 = (devices s1)[b + 1 := d1]" "rdev 1 d1"
    using step [of 1 s1] s1(2) by (auto simp: eval_nat_numeral)
  obtain d2 s3 where s3: "ins 2 s2 = Some s3" "free_from (b + 3) s3" "hw s3 = hw s2" "devices s3 = (devices s2)[b + 2 := d2]" "rdev 2 d2"
    using step [of 2 s2] s2(2) by (auto simp: eval_nat_numeral)
  obtain d3 s4 where s4: "ins 3 s3 = Some s4" "free_from (b + 4) s4" "hw s4 = hw s3" "devices s4 = (devices s3)[b + 3 := d3]" "rdev 3 d3"
    using step [of 3 s3] s3(2) by (auto simp: eval_nat_numeral)
  have r: "[0..<RAMDISK_NR] = [0, 1, 2, 3]" by (simp add: RAMDISK_NR_def upt_rec)
  have e: "ramdisk_init s = Some s4"
    unfolding ramdisk_init_def r ins_def [symmetric] using s1(1) s2(1) s3(1) s4(1) by simp
  have n: "length (devices s) = 64" "b + 4 \<le> 64" using assms by (simp_all add: free_from_def DEVICE_NR_def RAMDISK_NR_def)
  have at: "devices s4 ! b = d0" "devices s4 ! (b + 1) = d1" "devices s4 ! (b + 2) = d2" "devices s4 ! (b + 3) = d3"
    unfolding s4(4) s3(4) s2(4) s1(4) using n by (simp_all add: nth_list_update)
  have "rdev i (devices s4 ! (b + i))" if "i < RAMDISK_NR" for i
  proof -
    have "i = 0 \<or> i = 1 \<or> i = 2 \<or> i = 3" using that by (auto simp: RAMDISK_NR_def)
    then show ?thesis using at s1(5) s2(5) s3(5) s4(5) by auto
  qed
  moreover have "length (devices s4) = DEVICE_NR" using s4(2) by (simp add: free_from_def)
  moreover have "hw s4 = hw s" using s1(3) s2(3) s3(3) s4(3) by simp
  ultimately show ?thesis using e assms(2) unfolding ram_disks_def rdev_def Let_def by blast
qed

interpretation ramdisk: disk "ram_ok b" "ram_sec b" "TYPE('z)" for b
proof
  show "length (ram_sec b ds h dev blk) = BLOCK_SIZE" for ds h dev blk by (simp add: ram_sec_def ram_get_def)
next
  fix dev blk and buf :: bytes and s :: "(ram, 'z) bstate_scheme"
  assume a: "ram_ok b (devices s) (hw s) dev blk" "length buf = BLOCK_SIZE"
  then obtain i where i: "ram_disks b (devices s)" "i < RAMDISK_NR" "unat blk < 1024" "\<not> (i = 3 \<and> unat blk = 1023)" "dev = int (b + i)"
    by (auto simp: ram_ok_def)
  note r = ram_request [OF i(1-4) a(2)]
  have o: "ram_ok b ds h = ram_ok b (devices s) (hw s)" if "ram_disks b ds" for ds h
    using that i(1) by (auto simp: ram_ok_def fun_eq_iff)
  have st: "ram_sec b (turn (b + i) (devices s)) (hw s) d k = ram_sec b (devices s) (hw s) d k" for d k by (simp add: ram_sec_def)
  have ss: "ram_sec b ds h = ram_sec b ds' h" for ds ds' h by (simp add: ram_sec_def fun_eq_iff)
  show "\<exists>ds h. device_request 0 dev buf BLOCK_SECS (blk * BLOCK_SECS) 0 REQ_READ s
        = Some (0, ram_sec b (devices s) (hw s) dev blk, s\<lparr>devices := ds, hw := h\<rparr>)
      \<and> ram_ok b ds h = ram_ok b (devices s) (hw s)
      \<and> (\<forall>d k. ram_ok b ds h d k \<longrightarrow> ram_sec b ds h d k = ram_sec b (devices s) (hw s) d k)"
    using r(1) o [OF r(3), of "hw s"] ss i(5)
    by (intro exI [of _ "turn (b + i) (devices s)"] exI [of _ "hw s"]) (auto simp: ram_sec_def)
  show "\<exists>ds h. device_request 0 dev buf BLOCK_SECS (blk * BLOCK_SECS) 0 REQ_WRITE s
        = Some (0, buf, s\<lparr>devices := ds, hw := h\<rparr>)
      \<and> ram_ok b ds h = ram_ok b (devices s) (hw s)
      \<and> (\<forall>d k. ram_ok b ds h d k \<longrightarrow> ram_sec b ds h d k
            = (if d = dev \<and> k = blk then buf else ram_sec b (devices s) (hw s) d k))"
    using r(2) o [OF r(3)] ram_sec_other [OF a(1) _ a(2)] i(5) 
    by (intro exI [of _ "turn (b + i) (devices s)"] exI [of _ "ram_put (hw s) (ram_addr i blk) buf"]) (auto simp: st)
qed

subsection \<open>What its users see\<close>

text \<open>C1: To its users the buffer cache is the disk: for a block of a RAM disk, \<open>bread\<close> gives a buffer with the
  contents of the block, taking a free or a new buffer when none holds it; a user who changes the
  buffer, marks it and releases it has changed that block and no other, and the block on the disk
  with it. The lists and the reference counts of the cache stay consistent throughout.\<close>

theorem cache_is_the_disk:
  fixes s :: "(ram, 'z) bstate_scheme"
  assumes "cache_inv (ram_ok b) (ram_sec b) s" "ram_ok b (devices s) (hw s) dev blk" "room s \<or> buf_of dev blk s \<noteq> None"
    and "length d = BLOCK_SIZE"
  shows "\<exists>i s1 s2. bread dev blk s = Some (i, s1) \<and> cache_inv (ram_ok b) (ram_sec b) s1
    \<and> bf_data (buffers s1 ! i) = block (ram_sec b) s dev blk \<and> bf_valid (buffers s1 ! i)
    \<and> (\<forall>dv k. ram_ok b (devices s) (hw s) dv k \<longrightarrow> block (ram_sec b) s1 dv k = block (ram_sec b) s dv k)
    \<and> brelse (Some i) (s1\<lparr>buffers := (buffers s1)[i := (buffers s1 ! i)\<lparr>bf_data := d, bf_dirty := True\<rparr>]\<rparr>) = Some s2
    \<and> cache_inv (ram_ok b) (ram_sec b) s2
    \<and> (\<forall>dv k. ram_ok b (devices s) (hw s) dv k \<longrightarrow>
          block (ram_sec b) s2 dv k = (if dv = dev \<and> k = blk then d else block (ram_sec b) s dv k))
    \<and> ram_sec b (devices s2) (hw s2) dev blk = d"
proof -
  have dev: "dev \<noteq> EOF" using assms(2) by (auto simp: ram_ok_def)
  obtain i s1 where r: "bread dev blk s = Some (i, s1)" "ramdisk.took b dev blk s i s1"
    using ramdisk.bread_ok [OF assms(1-3) dev] by blast
  note t = r(2) [unfolded ramdisk.took_def]
  have i: "i < length (buffers s1)" "bf_dev (buffers s1 ! i) = dev" "bf_block (buffers s1 ! i) = blk" "cache_inv (ram_ok b) (ram_sec b) s1"
    and bi: "buf_of dev blk s1 = Some i"
    using t buf_of_Some [of dev blk s1 i] by auto
  have bok: "buf_ok (ram_ok b) (ram_sec b) s1 i (buffers s1 ! i)" using cache_butD(7) [OF i(4,1)] by simp
  have cnt: "0 < bf_count (buffers s1 ! i)"
  proof (cases "buf_of dev blk s")
    case (Some j)
    have "0 \<le> bf_count (buffers s ! j)"
      using cache_butD(7) [OF assms(1), of j] buf_of_Some [OF Some] by (simp add: buf_ok_def)
    then show ?thesis using t Some by simp
  qed (use t in simp)
  let ?m = "s1\<lparr>buffers := (buffers s1)[i := (buffers s1 ! i)\<lparr>bf_data := d, bf_dirty := True\<rparr>]\<rparr>"
  have m: "cache_inv (ram_ok b) (ram_sec b) ?m" using ramdisk.modify_ok [OF i(4,1) cnt assms(4)] by (simp add: ramdisk.changed_def)
  obtain s2 where s2: "brelse (Some i) ?m = Some s2" "ramdisk.changed b i ((buffers s1 ! i)\<lparr>bf_data := d, bf_dirty := False,
      bf_count := bf_count (buffers s1 ! i) - 1\<rparr>) ?m s2"
    "\<forall>dv k. ram_ok b (devices s1) (hw s1) dv k \<longrightarrow> block (ram_sec b) s2 dv k = block (ram_sec b) ?m dv k"
    "stale (ram_sec b) s2 = stale (ram_sec b) ?m"
    using ramdisk.brelse_ok [OF m, of i] i(1) cnt by (auto simp: stale_def)
  have o: "ram_ok b (devices s1) (hw s1) = ram_ok b (devices s) (hw s)" using t by blast
  have "block (ram_sec b) s2 dv k = (if dv = dev \<and> k = blk then d else block (ram_sec b) s dv k)"
    if "ram_ok b (devices s) (hw s) dv k" for dv k
    using s2(3) ramdisk.modify_block [OF i(4,1), where d = d and v = True and dev = dv and blk = k] i(2,3) t that o by auto
  moreover have "cache_inv (ram_ok b) (ram_sec b) s2" using s2(2) by (simp add: ramdisk.changed_def)
  moreover have "ram_sec b (devices s2) (hw s2) dev blk = d"
  proof -
    have "buffers s2 ! i = (buffers s1 ! i)\<lparr>bf_data := d, bf_dirty := False, bf_count := bf_count (buffers s1 ! i) - 1\<rparr>" "i < length (buffers s2)"
      using s2(2) i(1) by (simp_all add: ramdisk.changed_def)
    moreover have "i \<notin> stale (ram_sec b) s2" unfolding s2(4) using i(1) by (simp add: stale_def)
    ultimately show ?thesis using cache_butD(7) [OF \<open>cache_inv (ram_ok b) (ram_sec b) s2\<close>, of i] i(2,3)
      by (cases "bf_count (buffers s1 ! i) = 1") (simp_all add: buf_ok_def stale_def pins_def)
  qed
  moreover have "bf_data (buffers s1 ! i) = block (ram_sec b) s dev blk"
  proof -
    have "block (ram_sec b) s1 dev blk = bf_data (buffers s1 ! i)" using bi by (simp add: block_def)
    then show ?thesis using t assms(2) by metis
  qed
  moreover have "bf_valid (buffers s1 ! i)" using bok by (simp add: buf_ok_def)
  moreover have "\<forall>dv k. ram_ok b (devices s) (hw s) dv k \<longrightarrow> block (ram_sec b) s1 dv k = block (ram_sec b) s dv k" using t by blast
  ultimately show ?thesis using r(1) i(4) s2(1) by blast
qed

subsection \<open>A freshly started system\<close>

definition boot :: "ram dstate \<Rightarrow> ram bstate" where
  "boot d = \<lparr>devices = devices d, hw = hw d, buffers = [], free_list = [], wait_list = [], hash_table = (\<lambda>_. []),
     raw_data = (\<lambda>_. replicate BLOCK_SIZE 0), cur = 1\<rparr>"

lemma boot_inv: "cache_inv ok sec (boot d)"
  by (simp add: cache_but_def boot_def)

lemma boot_room: "room (boot d)"
  by (simp add: room_def boot_def buffer_ptr_def buffer_data_def KERNEL_BUFFER_MEM_def KERNEL_BUFFER_SIZE_def SIZEOF_BUFFER_def BLOCK_SIZE_def)

theorem cache_is_the_disk_witness:
  "\<exists>d i s1 s2. ramdisk_init (device_init (\<lambda>_. 7)) = Some d \<and> bread 2 5 (boot d) = Some (i, s1)
    \<and> brelse (Some i) (s1\<lparr>buffers := (buffers s1)[i := (buffers s1 ! i)\<lparr>bf_data := replicate BLOCK_SIZE 9, bf_dirty := True\<rparr>]\<rparr>) = Some s2
    \<and> ram_sec 1 (devices s2) (hw s2) 2 5 = replicate BLOCK_SIZE 9"
proof -
  obtain d where d: "ramdisk_init (device_init (\<lambda>_. 7)) = Some d" "ram_disks 1 (devices d)"
    using ramdisk_init_ok [OF free_from_init] by (auto simp: RAMDISK_NR_def DEVICE_NR_def)
  have "ram_ok 1 (devices (boot d)) (hw (boot d)) 2 5"
    unfolding ram_ok_def using d(2) by (auto simp: boot_def RAMDISK_NR_def intro!: exI [of _ 1])
  from cache_is_the_disk [OF boot_inv this, of "replicate BLOCK_SIZE 9"] show ?thesis
    using boot_room d(1) by auto
qed

text \<open>C37: A buffer that comes free is not looked up again: \<open>getblk\<close> searches the hash table before it waits for
  a free buffer and not after. When two tasks ask for the same block while all buffers are in use, each
  of them gets a buffer of its own for it, and what one writes the other does not see.\<close>

theorem two_buffers_for_one_block:
  fixes s :: "(ram, 'z) bstate_scheme"
  assumes "cache_inv (ram_ok b) (ram_sec b) s" "\<not> room s" "wait_list s = []" "buf_of dev blk s = None"
    "ram_ok b (devices s) (hw s) dev blk" "i < length (buffers s)" "j < length (buffers s)" "i \<noteq> j"
    "bf_count (buffers s ! i) = 1" "bf_count (buffers s ! j) = 1" "i \<notin> stale (ram_sec b) s" "j \<notin> stale (ram_sec b) s"
  shows "\<exists>s1 s2 s3 s4 s5 s6.
      get_from_hash_table dev blk s = (None, s) \<and> get_free_pass s = Some (None, s\<lparr>wait_list := [cur s]\<rparr>)
    \<and> get_from_hash_table dev blk (s\<lparr>cur := t2, wait_list := [cur s]\<rparr>) = (None, s\<lparr>cur := t2, wait_list := [cur s]\<rparr>)
    \<and> get_free_pass (s\<lparr>cur := t2, wait_list := [cur s]\<rparr>) = Some (None, s1) \<and> wait_list s1 = [t2, cur s]
    \<and> brelse (Some i) s1 = Some s2 \<and> brelse (Some j) s2 = Some s3 \<and> wait_list s3 = []
    \<and> get_free_pass s3 = Some (Some i, s4) \<and> do { s \<leftarrow> getblk_fill dev blk i s4; read_buf i s } = Some (i, s5)
    \<and> (\<exists>s5'. get_free_pass s5 = Some (Some j, s5') \<and> getblk_fill dev blk j s5' = Some s6)
    \<and> bf_dev (buffers s6 ! i) = dev \<and> bf_block (buffers s6 ! i) = blk \<and> bf_count (buffers s6 ! i) = 1 \<and> bf_valid (buffers s6 ! i)
    \<and> bf_dev (buffers s6 ! j) = dev \<and> bf_block (buffers s6 ! j) = blk \<and> bf_count (buffers s6 ! j) = 1"
  by (rule ramdisk.waiting_duplicates [OF assms])

definition busy_buffer :: "nat \<Rightarrow> buffer" where
  "busy_buffer i = \<lparr>bf_data = replicate BLOCK_SIZE 7, bf_dev = int (1 + i div 1024), bf_block = of_nat (i mod 1024), bf_count = 1,
     bf_dirty = False, bf_valid = True, bf_lock = lock_init i\<rparr>"

definition busy :: "ram dstate \<Rightarrow> ram bstate" where
  "busy d = (boot d)\<lparr>buffers := map busy_buffer [0..<3855], hash_table := (\<lambda>h. filter (\<lambda>i. hash_of (busy_buffer i) = h) [0..<3855])\<rparr>"

lemma busy_block: "unat (of_nat (i mod 1024) :: u32) = i mod 1024"
  using mod_less_divisor [of 1024 i] by (intro unat_of_nat32) linarith

lemma busy_inj:
  assumes "bf_dev (busy_buffer i) = bf_dev (busy_buffer j)" "bf_block (busy_buffer i) = bf_block (busy_buffer j)"
  shows "i = j"
proof -
  have "i div 1024 = j div 1024" using assms(1) by (simp add: busy_buffer_def)
  moreover have "i mod 1024 = j mod 1024"
  proof -
    have b: "bf_block (busy_buffer l) = of_nat (l mod 1024)" for l by (simp only: busy_buffer_def buffer.select_convs)
    show ?thesis using arg_cong [OF assms(2), of unat] unfolding b busy_block .
  qed
  ultimately have "i div 1024 * 1024 + i mod 1024 = j div 1024 * 1024 + j mod 1024" by (simp only:)
  then show ?thesis unfolding div_mult_mod_eq .
qed

lemma busy_inv:
  assumes "ram_disks 1 (devices d)" "hw d = (\<lambda>_. 7)"
  shows "cache_inv (ram_ok 1) (ram_sec 1) (busy d)"
proof -
  have at: "buffers (busy d) ! i = busy_buffer i" if "i < 3855" for i using that by (simp add: busy_def)
  have n: "length (buffers (busy d)) = 3855" by (simp add: busy_def)
  have hw: "devices (busy d) = devices d" "hw (busy d) = (\<lambda>_. 7)" "free_list (busy d) = []" using assms(2) by (simp_all add: busy_def boot_def)
  have sec: "ram_sec 1 ds (\<lambda>_. 7) dev k = replicate BLOCK_SIZE 7" for ds dev k
    by (simp add: ram_sec_def ram_get_def map_replicate_const)
  have ok: "ram_ok 1 (devices d) (\<lambda>_. 7) (bf_dev (busy_buffer i)) (bf_block (busy_buffer i))" if i: "i < 3855" for i
  proof -
    have lt: "i div 1024 < 4" "i mod 1024 < 1024" using i by auto
    have nl: "\<not> (i div 1024 = 3 \<and> i mod 1024 = 1023)" using i div_mult_mod_eq [of i 1024] by linarith
    show ?thesis unfolding ram_ok_def
      using assms(1) lt nl busy_block [of i] by (intro conjI exI [of _ "i div 1024"]) (simp_all add: busy_buffer_def RAMDISK_NR_def)
  qed
  have b: "buf_ok (ram_ok 1) (ram_sec 1) (busy d) i (busy_buffer i)" if i: "i < 3855" for i
  proof -
    have "i \<in> set (hash_table (busy d) (hash_of (busy_buffer i)))" using i by (simp add: busy_def)
    then show ?thesis using ok [OF i] unfolding buf_ok_def hw sec
      by (simp add: busy_buffer_def lock_free_def lock_init_def mutex_init_def)
  qed
  have "\<forall>h. \<forall>i\<in>set (hash_table (busy d) h). i < length (buffers (busy d)) \<and> hash_of (buffers (busy d) ! i) = h"
    using n by (simp add: busy_def)
  moreover have "\<forall>h. \<forall>i\<in>set (hash_table (busy d) h). hash_of (busy_buffer i) = h" by (simp add: busy_def)
  moreover have "\<forall>h. distinct (hash_table (busy d) h)" by (simp add: busy_def)
  moreover have "\<forall>n. length (raw_data (busy d) n) = BLOCK_SIZE" by (simp add: busy_def boot_def)
  ultimately show ?thesis
    unfolding cache_but_def hw n using at b busy_inj by (simp add: n)
qed

theorem two_buffers_for_one_block_witness:
  "\<exists>d (s6 :: ram bstate). ramdisk_init (device_init (\<lambda>_. 7)) = Some d \<and> (\<exists>s5'. getblk_fill 4 1000 1 s5' = Some s6)
     \<and> bf_dev (buffers s6 ! 0) = 4 \<and> bf_block (buffers s6 ! 0) = 1000 \<and> bf_dev (buffers s6 ! 1) = 4 \<and> bf_block (buffers s6 ! 1) = 1000
     \<and> get_from_hash_table 4 1000 (busy d) = (None, busy d)"
proof -
  obtain d where d: "ramdisk_init (device_init (\<lambda>_. 7)) = Some d" "ram_disks 1 (devices d)" "hw d = (\<lambda>_. 7)"
    using ramdisk_init_ok [OF free_from_init, of "\<lambda>_. 7"] by (auto simp: RAMDISK_NR_def DEVICE_NR_def device_init_def)
  let ?s = "busy d"
  have n: "length (buffers ?s) = 3855" by (simp add: busy_def)
  have at: "buffers ?s ! i = busy_buffer i" if "i < 3855" for i using that by (simp add: busy_def)
  have room: "\<not> room ?s" unfolding room_def n
    by (simp add: busy_def boot_def buffer_ptr_def buffer_data_def KERNEL_BUFFER_MEM_def KERNEL_BUFFER_SIZE_def SIZEOF_BUFFER_def BLOCK_SIZE_def)
  have w: "wait_list ?s = []" by (simp add: busy_def boot_def)
  have key: "bf_dev (busy_buffer 4072) = 4 \<and> bf_block (busy_buffer 4072) = 1000" by (simp add: busy_buffer_def)
  have no: "buf_of 4 1000 ?s = None"
    unfolding buf_of_None n
  proof (intro allI impI notI)
    fix i :: nat
    assume "i < 3855" "bf_dev (buffers ?s ! i) = 4 \<and> bf_block (buffers ?s ! i) = 1000"
    then have "i = 4072" using busy_inj [of i 4072] key at by simp
    then show False using \<open>i < 3855\<close> by simp
  qed
  have ok: "ram_ok 1 (devices ?s) (hw ?s) 4 1000"
    unfolding ram_ok_def using d(2) by (auto simp: busy_def boot_def RAMDISK_NR_def intro!: exI [of _ 3])
  have c: "bf_count (buffers ?s ! 0) = 1" "bf_count (buffers ?s ! 1) = 1" using at by (simp_all add: busy_buffer_def)
  have l: "0 < length (buffers ?s)" "1 < length (buffers ?s)" unfolding n by simp_all
  have fr: "i \<notin> stale (ram_sec 1) ?s" if "i < 3855" for i
    using at [OF that] d(3) by (simp add: stale_def ram_sec_def ram_get_def busy_buffer_def) (simp add: busy_def boot_def map_replicate_const)
  obtain s5' s6 :: "ram bstate" where "getblk_fill 4 1000 1 s5' = Some s6" "bf_dev (buffers s6 ! 0) = 4" "bf_block (buffers s6 ! 0) = 1000"
    "bf_dev (buffers s6 ! 1) = 4" "bf_block (buffers s6 ! 1) = 1000" "get_from_hash_table 4 1000 ?s = (None, ?s)"
    using two_buffers_for_one_block [OF busy_inv [OF d(2,3)] room w no ok l(1) l(2) zero_neq_one c(1) c(2) fr fr, of 2] by simp blast
  then show ?thesis using d(1) by blast
qed

end
