(* ===== verification/Fs.thy ===== *)
theory Fs
  imports Buffer Bitmap CString "HOL-Library.Signed_Division"
begin

section \<open>The file system's blocks and inodes: \<open>fs/bmap.c\<close>, \<open>fs/inode.c\<close>, \<open>fs/super.c\<close>\<close>

text \<open>
  The state extends that of the buffer cache by the tables of super blocks, inodes and files and by
  what the file system uses of the running task (\<open>me\<close>) and of the clock (\<open>now\<close>). A pointer into a
  table is an index, the null pointer \<open>None\<close>. The descriptors of super blocks, inodes and directory
  entries are read and written in the bytes of their blocks, at the offsets the C structures have;
  \<open>desc\<close> of an inode is the offset of its descriptor in its buffer. An access outside a table or a
  block, a failed assertion, a panic and a wait have no result. Memory of pipes is allocated
  elsewhere, and a pipe's inode only carries its flag here.
\<close>

definition IMAP_NR :: nat where [c_defs]: "IMAP_NR = 8"
definition ZMAP_NR :: nat where [c_defs]: "ZMAP_NR = 8"
definition BLOCK_BITS :: u32 where [c_defs]: "BLOCK_BITS = 8192"
definition BLOCK_INODES :: u32 where [c_defs]: "BLOCK_INODES = 32"
definition BLOCK_DENTRIES :: u32 where [c_defs]: "BLOCK_DENTRIES = 64"
definition BLOCK_INDEXES :: u32 where [c_defs]: "BLOCK_INDEXES = 512"
definition DIRECT_BLOCK :: u32 where [c_defs]: "DIRECT_BLOCK = 7"
definition INDIRECT1_BLOCK :: u32 where [c_defs]: "INDIRECT1_BLOCK = BLOCK_INDEXES"
definition INDIRECT2_BLOCK :: u32 where [c_defs]: "INDIRECT2_BLOCK = INDIRECT1_BLOCK * INDIRECT1_BLOCK"
definition TOTAL_BLOCK :: u32 where [c_defs]: "TOTAL_BLOCK = DIRECT_BLOCK + INDIRECT1_BLOCK + INDIRECT2_BLOCK"
definition MINIX1_MAGIC :: u16 where [c_defs]: "MINIX1_MAGIC = 0x137f"
definition SUPER_NR :: nat where [c_defs]: "SUPER_NR = 16"
definition INODE_NR :: nat where [c_defs]: "INODE_NR = 64"
definition FILE_NR :: nat where [c_defs]: "FILE_NR = 128"

definition IFMT :: u16 where [c_defs]: "IFMT = 0xF000"
definition IFREG :: u16 where [c_defs]: "IFREG = 0x8000"
definition IFBLK :: u16 where [c_defs]: "IFBLK = 0x6000"
definition IFDIR :: u16 where [c_defs]: "IFDIR = 0x4000"
definition IFCHR :: u16 where [c_defs]: "IFCHR = 0x2000"
definition ISVTX :: u16 where [c_defs]: "ISVTX = 0x200"

definition ISREG :: "u16 \<Rightarrow> bool" where "ISREG m \<longleftrightarrow> m AND IFMT = IFREG"
definition ISDIR :: "u16 \<Rightarrow> bool" where "ISDIR m \<longleftrightarrow> m AND IFMT = IFDIR"
definition ISCHR :: "u16 \<Rightarrow> bool" where "ISCHR m \<longleftrightarrow> m AND IFMT = IFCHR"
definition ISBLK :: "u16 \<Rightarrow> bool" where "ISBLK m \<longleftrightarrow> m AND IFMT = IFBLK"

record super =
  sb_buf :: nat
  imaps :: "nat option list"
  zmaps :: "nat option list"
  sb_dev :: int
  sb_count :: u32
  inode_list :: "nat list"
  sb_iroot :: "nat option"
  sb_imount :: "nat option"

record inode =
  i_desc :: nat
  i_buf :: nat
  i_dev :: int
  i_nr :: u32
  i_count :: u32
  i_atime :: u32
  i_ctime :: u32
  i_mount :: int
  i_pipe :: bool

record file_t =
  f_inode :: "nat option"
  f_count :: u32
  f_offset :: u32
  f_flags :: u32
  f_mode :: u32

text \<open>The running task: user, mask, directories, the path of the current directory, open files.\<close>

record fs_task =
  ft_uid :: u32
  ft_gid :: u32
  ft_umask :: u16
  ft_iroot :: nat
  ft_ipwd :: nat
  ft_pwd :: bytes
  ft_files :: "nat option list"

record 'd fstate = "'d bstate" +
  super_table :: "super list"
  root :: nat
  inode_table :: "inode list"
  file_table :: "file_t list"
  me :: fs_task
  now :: u32

subsection \<open>Numbers in blocks\<close>

definition rd16 :: "bytes \<Rightarrow> nat \<Rightarrow> u16 option" where
  "rd16 bs i = do { a \<leftarrow> rd bs i; b \<leftarrow> rd bs (i + 1); Some (ucast a OR push_bit 8 (ucast b)) }"

definition wr16 :: "bytes \<Rightarrow> nat \<Rightarrow> u16 \<Rightarrow> bytes option" where
  "wr16 bs i v = do { bs \<leftarrow> wr bs i (ucast v); wr bs (i + 1) (ucast (drop_bit 8 v)) }"

definition rd32 :: "bytes \<Rightarrow> nat \<Rightarrow> u32 option" where
  "rd32 bs i = do { a \<leftarrow> rd16 bs i; b \<leftarrow> rd16 bs (i + 2); Some (ucast a OR push_bit 16 (ucast b)) }"

definition wr32 :: "bytes \<Rightarrow> nat \<Rightarrow> u32 \<Rightarrow> bytes option" where
  "wr32 bs i v = do { bs \<leftarrow> wr16 bs i (ucast v); wr16 bs (i + 2) (ucast (drop_bit 16 v)) }"

text \<open>Several bytes.\<close>

definition put_bytes :: "bytes \<Rightarrow> nat \<Rightarrow> bytes \<Rightarrow> bytes option" where
  "put_bytes bs i vs = (if i + length vs \<le> length bs then Some (take i bs @ vs @ drop (i + length vs) bs) else None)"

definition get_bytes :: "bytes \<Rightarrow> nat \<Rightarrow> nat \<Rightarrow> bytes option" where
  "get_bytes bs i n = (if i + n \<le> length bs then Some (take n (drop i bs)) else None)"

definition data_of :: "nat \<Rightarrow> ('d, 'z) bstate_scheme \<Rightarrow> bytes option" where
  "data_of i s = map_option bf_data (rd (buffers s) i)"

definition upd_data :: "nat \<Rightarrow> (bytes \<Rightarrow> bytes option) \<Rightarrow> ('d, 'z) bstate_scheme \<Rightarrow> ('d, 'z) bstate_scheme option" where
  "upd_data i f s = do { d \<leftarrow> data_of i s; d \<leftarrow> f d; upd_buf i (\<lambda>b. b\<lparr>bf_data := d\<rparr>) s }"

definition mark :: "nat \<Rightarrow> ('d, 'z) bstate_scheme \<Rightarrow> ('d, 'z) bstate_scheme option" where
  "mark i s = upd_buf i (\<lambda>b. b\<lparr>bf_dirty := True\<rparr>) s"

text \<open>Fields of \<open>super_desc_t\<close> and \<open>inode_desc_t\<close>, by their offsets.\<close>

definition SD_INODES :: nat where [c_defs]: "SD_INODES = 0"
definition SD_ZONES :: nat where [c_defs]: "SD_ZONES = 2"
definition SD_IMAP_BLOCKS :: nat where [c_defs]: "SD_IMAP_BLOCKS = 4"
definition SD_ZMAP_BLOCKS :: nat where [c_defs]: "SD_ZMAP_BLOCKS = 6"
definition SD_FIRST_DATAZONE :: nat where [c_defs]: "SD_FIRST_DATAZONE = 8"
definition SD_LOG_ZONE_SIZE :: nat where [c_defs]: "SD_LOG_ZONE_SIZE = 10"
definition SD_MAX_SIZE :: nat where [c_defs]: "SD_MAX_SIZE = 12"
definition SD_MAGIC :: nat where [c_defs]: "SD_MAGIC = 16"
definition ID_MODE :: nat where [c_defs]: "ID_MODE = 0"
definition ID_UID :: nat where [c_defs]: "ID_UID = 2"
definition ID_SIZE :: nat where [c_defs]: "ID_SIZE = 4"
definition ID_MTIME :: nat where [c_defs]: "ID_MTIME = 8"
definition ID_GID :: nat where [c_defs]: "ID_GID = 12"
definition ID_NLINKS :: nat where [c_defs]: "ID_NLINKS = 13"
definition ID_ZONE :: nat where [c_defs]: "ID_ZONE = 14"
definition SIZEOF_INODE_DESC :: nat where [c_defs]: "SIZEOF_INODE_DESC = 32"

definition sb_of :: "nat \<Rightarrow> ('d, 'z) fstate_scheme \<Rightarrow> super option" where
  "sb_of k s = rd (super_table s) k"

definition sdesc :: "nat \<Rightarrow> nat \<Rightarrow> ('d, 'z) fstate_scheme \<Rightarrow> u16 option" where
  "sdesc k off s = do { sb \<leftarrow> sb_of k s; d \<leftarrow> data_of (sb_buf sb) s; rd16 d off }"

definition upd_super :: "nat \<Rightarrow> (super \<Rightarrow> super) \<Rightarrow> ('d, 'z) fstate_scheme \<Rightarrow> ('d, 'z) fstate_scheme option" where
  "upd_super k f s = do { sb \<leftarrow> sb_of k s; t \<leftarrow> wr (super_table s) k (f sb); Some (s\<lparr>super_table := t\<rparr>) }"

definition ino :: "nat \<Rightarrow> ('d, 'z) fstate_scheme \<Rightarrow> inode option" where
  "ino i s = rd (inode_table s) i"

definition upd_ino :: "nat \<Rightarrow> (inode \<Rightarrow> inode) \<Rightarrow> ('d, 'z) fstate_scheme \<Rightarrow> ('d, 'z) fstate_scheme option" where
  "upd_ino i f s = do { n \<leftarrow> ino i s; t \<leftarrow> wr (inode_table s) i (f n); Some (s\<lparr>inode_table := t\<rparr>) }"

definition desc8 :: "nat \<Rightarrow> nat \<Rightarrow> ('d, 'z) fstate_scheme \<Rightarrow> u8 option" where
  "desc8 i off s = do { n \<leftarrow> ino i s; d \<leftarrow> data_of (i_buf n) s; rd d (i_desc n + off) }"

definition desc16 :: "nat \<Rightarrow> nat \<Rightarrow> ('d, 'z) fstate_scheme \<Rightarrow> u16 option" where
  "desc16 i off s = do { n \<leftarrow> ino i s; d \<leftarrow> data_of (i_buf n) s; rd16 d (i_desc n + off) }"

definition desc32 :: "nat \<Rightarrow> nat \<Rightarrow> ('d, 'z) fstate_scheme \<Rightarrow> u32 option" where
  "desc32 i off s = do { n \<leftarrow> ino i s; d \<leftarrow> data_of (i_buf n) s; rd32 d (i_desc n + off) }"

definition set_desc8 :: "nat \<Rightarrow> nat \<Rightarrow> u8 \<Rightarrow> ('d, 'z) fstate_scheme \<Rightarrow> ('d, 'z) fstate_scheme option" where
  "set_desc8 i off v s = do { n \<leftarrow> ino i s; upd_data (i_buf n) (\<lambda>d. wr d (i_desc n + off) v) s }"

definition set_desc16 :: "nat \<Rightarrow> nat \<Rightarrow> u16 \<Rightarrow> ('d, 'z) fstate_scheme \<Rightarrow> ('d, 'z) fstate_scheme option" where
  "set_desc16 i off v s = do { n \<leftarrow> ino i s; upd_data (i_buf n) (\<lambda>d. wr16 d (i_desc n + off) v) s }"

definition set_desc32 :: "nat \<Rightarrow> nat \<Rightarrow> u32 \<Rightarrow> ('d, 'z) fstate_scheme \<Rightarrow> ('d, 'z) fstate_scheme option" where
  "set_desc32 i off v s = do { n \<leftarrow> ino i s; upd_data (i_buf n) (\<lambda>d. wr32 d (i_desc n + off) v) s }"

definition mark_ino :: "nat \<Rightarrow> ('d, 'z) fstate_scheme \<Rightarrow> ('d, 'z) fstate_scheme option" where
  "mark_ino i s = do { n \<leftarrow> ino i s; mark (i_buf n) s }"

subsection \<open>Super blocks\<close>

definition get_free_super :: "('d, 'z) fstate_scheme \<Rightarrow> nat option" where
  "get_free_super s = List.find (\<lambda>k. sb_dev (super_table s ! k) = EOF) [0..<length (super_table s)]"

definition get_super :: "int \<Rightarrow> ('d, 'z) fstate_scheme \<Rightarrow> nat option" where
  "get_super dev s = List.find (\<lambda>k. sb_dev (super_table s ! k) = dev) [0..<length (super_table s)]"

subsection \<open>Allocation of blocks and inodes\<close>

text \<open>The bitmap in a buffer; an operation on it writes its bytes back.\<close>

definition on_map :: "nat \<Rightarrow> u32 \<Rightarrow> u32 \<Rightarrow> (bitmap \<Rightarrow> ('a \<times> bitmap) option) \<Rightarrow> ('d, 'z) bstate_scheme
    \<Rightarrow> ('a \<times> ('d, 'z) bstate_scheme) option" where
  "on_map buf len off f s = do {
     d \<leftarrow> data_of buf s;
     (r, m) \<leftarrow> f (bitmap_make d len off);
     s \<leftarrow> upd_buf buf (\<lambda>b. b\<lparr>bf_data := bm_bits m\<rparr>) s;
     Some (r, s) }"

text \<open>The loop over the bitmap blocks: \<open>ms\<close> are those from number \<open>i\<close> on, \<open>limit\<close> is the bound of the
  assertion. The result has the last buffer looked at, for \<open>bwrite\<close>.\<close>

fun alloc_loop :: "u32 \<Rightarrow> (u32 \<Rightarrow> u32) \<Rightarrow> u32 \<Rightarrow> nat option list \<Rightarrow> u32 \<Rightarrow> nat option \<Rightarrow> ('d, 'z) bstate_scheme
    \<Rightarrow> (u32 \<times> nat option \<times> ('d, 'z) bstate_scheme) option" where
  "alloc_loop len off limit [] i buf s = Some (EOF32, buf, s)"
| "alloc_loop len off limit (m # ms) i buf s = do {
     b \<leftarrow> m;
     (bit, s) \<leftarrow> on_map b len (off i) (\<lambda>m. bitmap_scan m 1) s;
     let bit = (word_of_int bit :: u32);
     if bit \<noteq> EOF32 then do {
       c_assert (bit < limit);
       s \<leftarrow> mark b s;
       Some (bit, Some b, s) }
     else alloc_loop len off limit ms (i + 1) (Some b) s }"

definition balloc :: "int \<Rightarrow> ('d, 'z) fstate_scheme \<Rightarrow> (u32 \<times> ('d, 'z) fstate_scheme) option" where
  "balloc dev s = do {
     k \<leftarrow> get_super dev s;
     sb \<leftarrow> sb_of k s;
     first \<leftarrow> sdesc k SD_FIRST_DATAZONE s;
     zones \<leftarrow> sdesc k SD_ZONES s;
     (bit, buf, s) \<leftarrow> alloc_loop (of_nat BLOCK_SIZE) (\<lambda>i. i * BLOCK_BITS + ucast first - 1) (ucast zones) (zmaps sb) 0 None s;
     b \<leftarrow> buf;
     s \<leftarrow> bwrite b s;
     Some (bit, s) }"

definition ialloc :: "int \<Rightarrow> ('d, 'z) fstate_scheme \<Rightarrow> (u32 \<times> ('d, 'z) fstate_scheme) option" where
  "ialloc dev s = do {
     k \<leftarrow> get_super dev s;
     sb \<leftarrow> sb_of k s;
     inodes \<leftarrow> sdesc k SD_INODES s;
     (bit, buf, s) \<leftarrow> alloc_loop BLOCK_BITS (\<lambda>i. i * BLOCK_BITS) (ucast inodes) (imaps sb) 0 None s;
     b \<leftarrow> buf;
     s \<leftarrow> bwrite b s;
     Some (bit, s) }"

text \<open>The loop that clears a bit; \<open>None\<close> in the result is a buffer pointer that was never set.\<close>

fun free_loop :: "(u32 \<Rightarrow> u32) \<Rightarrow> u32 \<Rightarrow> nat option list \<Rightarrow> u32 \<Rightarrow> ('d, 'z) bstate_scheme
    \<Rightarrow> (nat option \<times> ('d, 'z) bstate_scheme) option" where
  "free_loop off idx [] i s = Some (None, s)"
| "free_loop off idx (m # ms) i s =
     (if idx > BLOCK_BITS * (i + 1) then free_loop off idx ms (i + 1) s
      else do {
        b \<leftarrow> m;
        ((), s) \<leftarrow> on_map b (of_nat BLOCK_SIZE) (off i) (\<lambda>m. do {
            used \<leftarrow> bitmap_test m idx;
            c_assert used;
            m \<leftarrow> bitmap_set m idx False;
            Some ((), m) }) s;
        s \<leftarrow> mark b s;
        Some (Some b, s) })"

definition bfree :: "int \<Rightarrow> u32 \<Rightarrow> ('d, 'z) fstate_scheme \<Rightarrow> ('d, 'z) fstate_scheme option" where
  "bfree dev idx s = do {
     k \<leftarrow> get_super dev s;
     sb \<leftarrow> sb_of k s;
     zones \<leftarrow> sdesc k SD_ZONES s;
     c_assert (idx < ucast zones);
     first \<leftarrow> sdesc k SD_FIRST_DATAZONE s;
     (buf, s) \<leftarrow> free_loop (\<lambda>i. i * BLOCK_BITS + ucast first - 1) idx (zmaps sb) 0 s;
     b \<leftarrow> buf;
     bwrite b s }"

definition ifree :: "int \<Rightarrow> u32 \<Rightarrow> ('d, 'z) fstate_scheme \<Rightarrow> ('d, 'z) fstate_scheme option" where
  "ifree dev idx s = do {
     k \<leftarrow> get_super dev s;
     sb \<leftarrow> sb_of k s;
     zones \<leftarrow> sdesc k SD_ZONES s;
     c_assert (idx < ucast zones);
     (buf, s) \<leftarrow> free_loop (\<lambda>i. i * BLOCK_BITS) idx (imaps sb) 0 s;
     b \<leftarrow> buf;
     bwrite b s }"

subsection \<open>The blocks of a file\<close>

text \<open>The loop of \<open>bmap\<close>: \<open>buf\<close> holds the array of block numbers, at offset \<open>base\<close>.\<close>

fun bmap_loop :: "nat \<Rightarrow> int \<Rightarrow> bool \<Rightarrow> u32 \<Rightarrow> u32 \<Rightarrow> nat \<Rightarrow> nat \<Rightarrow> u32 \<Rightarrow> ('d, 'z) fstate_scheme
    \<Rightarrow> (u16 \<times> ('d, 'z) fstate_scheme) option" where
  "bmap_loop level dev create blk divider buf base index s = do {
     d \<leftarrow> data_of buf s;
     z \<leftarrow> rd16 d (base + 2 * unat index);
     s \<leftarrow> (if z = 0 \<and> create then do {
         (bit, s) \<leftarrow> balloc dev s;
         s \<leftarrow> upd_data buf (\<lambda>d. wr16 d (base + 2 * unat index) (ucast bit)) s;
         mark buf s }
       else Some s);
     s \<leftarrow> brelse (Some buf) s;
     d \<leftarrow> data_of buf s;
     z \<leftarrow> rd16 d (base + 2 * unat index);
     case level of
       0 \<Rightarrow> Some (z, s)
     | Suc level \<Rightarrow>
         if z = 0 then Some (z, s)
         else do {
           (buf, s) \<leftarrow> bread dev (ucast z) s;
           bmap_loop level dev create (blk mod divider) (divider div BLOCK_INDEXES) buf 0 (blk div divider) s } }"

definition bmap :: "nat \<Rightarrow> u32 \<Rightarrow> bool \<Rightarrow> ('d, 'z) fstate_scheme \<Rightarrow> (u16 \<times> ('d, 'z) fstate_scheme) option" where
  "bmap i blk create s = do {
     c_assert (blk < TOTAL_BLOCK);
     n \<leftarrow> ino i s;
     let base = i_desc n + ID_ZONE;
     s \<leftarrow> upd_buf (i_buf n) (\<lambda>b. b\<lparr>bf_count := bf_count b + 1\<rparr>) s;
     if blk < DIRECT_BLOCK then bmap_loop 0 (i_dev n) create blk 1 (i_buf n) base blk s
     else do {
       let blk = blk - DIRECT_BLOCK;
       if blk < INDIRECT1_BLOCK then bmap_loop 1 (i_dev n) create blk 1 (i_buf n) base DIRECT_BLOCK s
       else do {
         let blk = blk - INDIRECT1_BLOCK;
         c_assert (blk < INDIRECT2_BLOCK);
         bmap_loop 2 (i_dev n) create blk BLOCK_INDEXES (i_buf n) base (DIRECT_BLOCK + 1) s } } }"

subsection \<open>Inodes\<close>

definition get_free_inode :: "('d, 'z) fstate_scheme \<Rightarrow> nat option" where
  "get_free_inode s = List.find (\<lambda>i. i_dev (inode_table s ! i) = EOF) [0..<length (inode_table s)]"

definition put_free_inode :: "nat \<Rightarrow> ('d, 'z) fstate_scheme \<Rightarrow> ('d, 'z) fstate_scheme option" where
  "put_free_inode i s = do {
     c_assert (i \<noteq> 0);
     n \<leftarrow> ino i s;
     c_assert (i_count n = 0);
     upd_ino i (\<lambda>n. n\<lparr>i_dev := EOF\<rparr>) s }"

definition get_root_inode :: nat where
  "get_root_inode = 0"

definition PIPE_DEV :: int where [c_defs]: "PIPE_DEV = -2"

definition get_pipe_inode :: "('d, 'z) fstate_scheme \<Rightarrow> (nat \<times> ('d, 'z) fstate_scheme) option" where
  "get_pipe_inode s = do {
     i \<leftarrow> get_free_inode s;
     s \<leftarrow> upd_ino i (\<lambda>n. n\<lparr>i_dev := PIPE_DEV, i_count := 2, i_pipe := True\<rparr>) s;
     Some (i, s) }"

definition put_pipe_inode :: "nat \<Rightarrow> ('d, 'z) fstate_scheme \<Rightarrow> ('d, 'z) fstate_scheme option" where
  "put_pipe_inode i s = do {
     s \<leftarrow> upd_ino i (\<lambda>n. n\<lparr>i_count := i_count n - 1\<rparr>) s;
     n \<leftarrow> ino i s;
     if i_count n \<noteq> 0 then Some s
     else do {
       s \<leftarrow> upd_ino i (\<lambda>n. n\<lparr>i_pipe := False\<rparr>) s;
       put_free_inode i s } }"

definition inode_block :: "nat \<Rightarrow> u32 \<Rightarrow> ('d, 'z) fstate_scheme \<Rightarrow> u32 option" where
  "inode_block k nr s = do {
     im \<leftarrow> sdesc k SD_IMAP_BLOCKS s;
     zm \<leftarrow> sdesc k SD_ZMAP_BLOCKS s;
     Some (2 + ucast im + ucast zm + (nr - 1) div BLOCK_INODES) }"

definition find_inode :: "int \<Rightarrow> u32 \<Rightarrow> ('d, 'z) fstate_scheme \<Rightarrow> nat option option" where
  "find_inode dev nr s = do {
     k \<leftarrow> get_super dev s;
     sb \<leftarrow> sb_of k s;
     Some (List.find (\<lambda>i. i_nr (inode_table s ! i) = nr) (inode_list sb)) }"

text \<open>\<open>list_remove\<close> of the inode's node takes it out of the list it is in.\<close>

definition unlist_ino :: "nat \<Rightarrow> ('d, 'z) fstate_scheme \<Rightarrow> ('d, 'z) fstate_scheme option" where
  "unlist_ino i s = do {
     c_assert (list_ex (\<lambda>sb. i \<in> set (inode_list sb)) (super_table s));
     Some (s\<lparr>super_table := map (\<lambda>sb. sb\<lparr>inode_list := remove1 i (inode_list sb)\<rparr>) (super_table s)\<rparr>) }"

definition iput :: "nat option \<Rightarrow> ('d, 'z) fstate_scheme \<Rightarrow> ('d, 'z) fstate_scheme option" where
  "iput io s = (case io of None \<Rightarrow> Some s | Some i \<Rightarrow> do {
     n \<leftarrow> ino i s;
     if i_pipe n then put_pipe_inode i s
     else do {
       b \<leftarrow> rd (buffers s) (i_buf n);
       s \<leftarrow> (if bf_dirty b then bwrite (i_buf n) s else Some s);
       s \<leftarrow> upd_ino i (\<lambda>n. n\<lparr>i_count := i_count n - 1\<rparr>) s;
       n \<leftarrow> ino i s;
       if i_count n \<noteq> 0 then Some s
       else do {
         s \<leftarrow> brelse (Some (i_buf n)) s;
         s \<leftarrow> unlist_ino i s;
         put_free_inode i s } } })"

definition fit_inode :: "nat \<Rightarrow> ('d, 'z) fstate_scheme \<Rightarrow> (nat \<times> ('d, 'z) fstate_scheme) option" where
  "fit_inode i s = do {
     n \<leftarrow> ino i s;
     if i_mount n = 0 then Some (i, s)
     else do {
       k \<leftarrow> get_super (i_mount n) s;
       s \<leftarrow> iput (Some i) s;
       sb \<leftarrow> sb_of k s;
       r \<leftarrow> sb_iroot sb;
       s \<leftarrow> upd_ino r (\<lambda>n. n\<lparr>i_count := i_count n + 1\<rparr>) s;
       Some (r, s) } }"

definition iget :: "int \<Rightarrow> u32 \<Rightarrow> ('d, 'z) fstate_scheme \<Rightarrow> (nat \<times> ('d, 'z) fstate_scheme) option" where
  "iget dev nr s = do {
     found \<leftarrow> find_inode dev nr s;
     case found of
       Some i \<Rightarrow> do {
         s \<leftarrow> upd_ino i (\<lambda>n. n\<lparr>i_count := i_count n + 1, i_atime := now s\<rparr>) s;
         fit_inode i s }
     | None \<Rightarrow> do {
         k \<leftarrow> get_super dev s;
         inodes \<leftarrow> sdesc k SD_INODES s;
         c_assert (nr \<le> ucast inodes);
         i \<leftarrow> get_free_inode s;
         s \<leftarrow> upd_ino i (\<lambda>n. n\<lparr>i_dev := dev, i_nr := nr, i_count := i_count n + 1\<rparr>) s;
         s \<leftarrow> upd_super k (\<lambda>sb. sb\<lparr>inode_list := i # inode_list sb\<rparr>) s;
         blk \<leftarrow> inode_block k nr s;
         (b, s) \<leftarrow> bread dev blk s;
         s \<leftarrow> upd_ino i (\<lambda>n. n\<lparr>i_buf := b, i_desc := unat ((nr - 1) mod BLOCK_INODES) * SIZEOF_INODE_DESC\<rparr>) s;
         mtime \<leftarrow> desc32 i ID_MTIME s;
         s \<leftarrow> upd_ino i (\<lambda>n. n\<lparr>i_ctime := mtime, i_atime := now s\<rparr>) s;
         Some (i, s) } }"

definition new_inode :: "int \<Rightarrow> u32 \<Rightarrow> ('d, 'z) fstate_scheme \<Rightarrow> (nat \<times> ('d, 'z) fstate_scheme) option" where
  "new_inode dev nr s = do {
     (i, s) \<leftarrow> iget dev nr s;
     s \<leftarrow> mark_ino i s;
     s \<leftarrow> set_desc16 i ID_MODE (0x1ff AND NOT (ft_umask (me s))) s;
     s \<leftarrow> set_desc16 i ID_UID (ucast (ft_uid (me s))) s;
     s \<leftarrow> set_desc8 i ID_GID (ucast (ft_gid (me s))) s;
     s \<leftarrow> set_desc32 i ID_SIZE 0 s;
     s \<leftarrow> upd_ino i (\<lambda>n. n\<lparr>i_atime := now s\<rparr>) s;
     s \<leftarrow> set_desc32 i ID_MTIME (now s) s;
     s \<leftarrow> set_desc8 i ID_NLINKS 1 s;
     Some (i, s) }"

subsection \<open>Reading and writing files\<close>

text \<open>\<open>offset / BLOCK_SIZE\<close> and \<open>offset % BLOCK_SIZE\<close> of a signed offset.\<close>

definition blk_of :: "u32 \<Rightarrow> u32" where
  "blk_of offset = word_of_int (sint offset sdiv 1024)"

definition start_of :: "u32 \<Rightarrow> u32" where
  "start_of offset = word_of_int (sint offset smod 1024)"

text \<open>The loops handle at least one byte a pass, so as many passes as bytes are enough.\<close>

fun read_loop :: "nat \<Rightarrow> nat \<Rightarrow> u32 \<Rightarrow> u32 \<Rightarrow> bytes \<Rightarrow> ('d, 'z) fstate_scheme \<Rightarrow> (u32 \<times> bytes \<times> ('d, 'z) fstate_scheme) option" where
  "read_loop 0 i left offset out s = (if left = 0 then Some (offset, out, s) else None)"
| "read_loop (Suc fuel) i left offset out s =
     (if left = 0 then Some (offset, out, s)
      else do {
        (nr, s) \<leftarrow> bmap i (blk_of offset) False s;
        c_assert (nr \<noteq> 0);
        n \<leftarrow> ino i s;
        (b, s) \<leftarrow> bread (i_dev n) (ucast nr) s;
        let start = start_of offset;
        let chars = min (1024 - start) left;
        d \<leftarrow> data_of b s;
        x \<leftarrow> get_bytes d (unat start) (unat chars);
        s \<leftarrow> brelse (Some b) s;
        read_loop fuel i (left - chars) (offset + chars) (out @ x) s })"

text \<open>The result, and the bytes put into the caller's buffer.\<close>

definition inode_read :: "nat \<Rightarrow> u32 \<Rightarrow> u32 \<Rightarrow> ('d, 'z) fstate_scheme \<Rightarrow> (int \<times> bytes \<times> ('d, 'z) fstate_scheme) option" where
  "inode_read i len offset s = do {
     mode \<leftarrow> desc16 i ID_MODE s;
     c_assert (ISREG mode \<or> ISDIR mode);
     size \<leftarrow> desc32 i ID_SIZE s;
     if offset \<ge> size then Some (EOF, [], s)
     else do {
       let left = min len (size - offset);
       (end, out, s) \<leftarrow> read_loop (unat left) i left offset [] s;
       s \<leftarrow> upd_ino i (\<lambda>n. n\<lparr>i_atime := now s\<rparr>) s;
       Some (sint (end - offset), out, s) } }"

fun write_loop :: "nat \<Rightarrow> nat \<Rightarrow> bytes \<Rightarrow> u32 \<Rightarrow> u32 \<Rightarrow> ('d, 'z) fstate_scheme \<Rightarrow> (u32 \<times> ('d, 'z) fstate_scheme) option" where
  "write_loop 0 i buf left offset s = (if left = 0 then Some (offset, s) else None)"
| "write_loop (Suc fuel) i buf left offset s =
     (if left = 0 then Some (offset, s)
      else do {
        (nr, s) \<leftarrow> bmap i (blk_of offset) True s;
        c_assert (nr \<noteq> 0);
        n \<leftarrow> ino i s;
        (b, s) \<leftarrow> bread (i_dev n) (ucast nr) s;
        s \<leftarrow> mark b s;
        let start = start_of offset;
        let chars = min (1024 - start) left;
        let offset = offset + chars;
        size \<leftarrow> desc32 i ID_SIZE s;
        s \<leftarrow> (if offset > size then do { s \<leftarrow> set_desc32 i ID_SIZE offset s; mark_ino i s } else Some s);
        x \<leftarrow> get_bytes buf 0 (unat chars);
        s \<leftarrow> upd_data b (\<lambda>d. put_bytes d (unat start) x) s;
        s \<leftarrow> brelse (Some b) s;
        write_loop fuel i (drop (unat chars) buf) (left - chars) offset s })"

definition inode_write :: "nat \<Rightarrow> bytes \<Rightarrow> u32 \<Rightarrow> u32 \<Rightarrow> ('d, 'z) fstate_scheme \<Rightarrow> (int \<times> ('d, 'z) fstate_scheme) option" where
  "inode_write i buf len offset s = do {
     mode \<leftarrow> desc16 i ID_MODE s;
     c_assert (ISREG mode);
     (end, s) \<leftarrow> write_loop (unat len) i buf len offset s;
     s \<leftarrow> set_desc32 i ID_MTIME (now s) s;
     s \<leftarrow> upd_ino i (\<lambda>n. n\<lparr>i_atime := now s\<rparr>) s;
     n \<leftarrow> ino i s;
     s \<leftarrow> bwrite (i_buf n) s;
     Some (sint (end - offset), s) }"

definition inode_init :: "('d, 'z) fstate_scheme \<Rightarrow> ('d, 'z) fstate_scheme" where
  "inode_init s = s\<lparr>inode_table := map (\<lambda>n. n\<lparr>i_dev := EOF, i_pipe := False\<rparr>) (inode_table s)\<rparr>"

text \<open>The array of block numbers is the one at offset \<open>base\<close> of buffer \<open>buf\<close>.\<close>

fun inode_bfree :: "nat \<Rightarrow> int \<Rightarrow> nat \<Rightarrow> nat \<Rightarrow> nat \<Rightarrow> ('d, 'z) fstate_scheme \<Rightarrow> ('d, 'z) fstate_scheme option" where
  "inode_bfree 0 dev buf base index s = do {
     d \<leftarrow> data_of buf s;
     z \<leftarrow> rd16 d (base + 2 * index);
     if z = 0 then Some s else bfree dev (ucast z) s }"
| "inode_bfree (Suc level) dev buf base index s = do {
     d \<leftarrow> data_of buf s;
     z \<leftarrow> rd16 d (base + 2 * index);
     if z = 0 then Some s
     else do {
       (b, s) \<leftarrow> bread dev (ucast z) s;
       s \<leftarrow> foldM (\<lambda>k. inode_bfree level dev b 0 k) [0..<unat BLOCK_INDEXES] s;
       s \<leftarrow> brelse (Some b) s;
       d \<leftarrow> data_of buf s;
       z \<leftarrow> rd16 d (base + 2 * index);
       bfree dev (ucast z) s } }"

definition drop_zone :: "nat \<Rightarrow> nat \<Rightarrow> nat \<Rightarrow> ('d, 'z) fstate_scheme \<Rightarrow> ('d, 'z) fstate_scheme option" where
  "drop_zone i level index s = do {
     n \<leftarrow> ino i s;
     s \<leftarrow> inode_bfree level (i_dev n) (i_buf n) (i_desc n + ID_ZONE) index s;
     set_desc16 i (ID_ZONE + 2 * index) 0 s }"

definition inode_truncate :: "nat \<Rightarrow> ('d, 'z) fstate_scheme \<Rightarrow> ('d, 'z) fstate_scheme option" where
  "inode_truncate i s = do {
     mode \<leftarrow> desc16 i ID_MODE s;
     if \<not> ISREG mode \<and> \<not> ISDIR mode then Some s
     else do {
       s \<leftarrow> foldM (drop_zone i 0) [0..<unat DIRECT_BLOCK] s;
       s \<leftarrow> drop_zone i 1 (unat DIRECT_BLOCK) s;
       s \<leftarrow> drop_zone i 2 (unat DIRECT_BLOCK + 1) s;
       s \<leftarrow> set_desc32 i ID_SIZE 0 s;
       s \<leftarrow> mark_ino i s;
       s \<leftarrow> set_desc32 i ID_MTIME (now s) s;
       n \<leftarrow> ino i s;
       bwrite (i_buf n) s } }"

subsection \<open>Taking super blocks into the table\<close>

definition put_super :: "nat option \<Rightarrow> ('d, 'z) fstate_scheme \<Rightarrow> ('d, 'z) fstate_scheme option" where
  "put_super ko s = (case ko of None \<Rightarrow> Some s | Some k \<Rightarrow> do {
     sb \<leftarrow> sb_of k s;
     c_assert (sb_count sb > 0);
     s \<leftarrow> upd_super k (\<lambda>sb. sb\<lparr>sb_count := sb_count sb - 1\<rparr>) s;
     if sb_count sb - 1 \<noteq> 0 then Some s
     else do {
       s \<leftarrow> upd_super k (\<lambda>sb. sb\<lparr>sb_dev := EOF\<rparr>) s;
       s \<leftarrow> iput (sb_imount sb) s;
       s \<leftarrow> iput (sb_iroot sb) s;
       im \<leftarrow> sdesc k SD_IMAP_BLOCKS s;
       s \<leftarrow> foldM (\<lambda>i s. do { b \<leftarrow> rd (imaps sb) i; brelse b s }) [0..<unat im] s;
       zm \<leftarrow> sdesc k SD_ZMAP_BLOCKS s;
       s \<leftarrow> foldM (\<lambda>i s. do { b \<leftarrow> rd (zmaps sb) i; brelse b s }) [0..<unat zm] s;
       brelse (Some (sb_buf sb)) s } })"

definition read_super :: "int \<Rightarrow> ('d, 'z) fstate_scheme \<Rightarrow> (nat \<times> ('d, 'z) fstate_scheme) option" where
  "read_super dev s = (case get_super dev s of
       Some k \<Rightarrow> do { s \<leftarrow> upd_super k (\<lambda>sb. sb\<lparr>sb_count := sb_count sb + 1\<rparr>) s; Some (k, s) }
     | None \<Rightarrow> do {
         k \<leftarrow> get_free_super s;
         (b, s) \<leftarrow> bread dev 1 s;
         s \<leftarrow> upd_super k (\<lambda>sb. sb\<lparr>sb_buf := b, sb_dev := dev, sb_count := 1\<rparr>) s;
         magic \<leftarrow> sdesc k SD_MAGIC s;
         c_assert (magic = MINIX1_MAGIC);
         s \<leftarrow> upd_super k (\<lambda>sb. sb\<lparr>imaps := replicate IMAP_NR None, zmaps := replicate ZMAP_NR None\<rparr>) s;
         im \<leftarrow> sdesc k SD_IMAP_BLOCKS s;
         s \<leftarrow> foldM (\<lambda>i s. do {
             c_assert (i < IMAP_NR);
             (b, s) \<leftarrow> bread dev (2 + of_nat i) s;
             upd_super k (\<lambda>sb. sb\<lparr>imaps := (imaps sb)[i := Some b]\<rparr>) s }) [0..<unat im] s;
         zm \<leftarrow> sdesc k SD_ZMAP_BLOCKS s;
         s \<leftarrow> foldM (\<lambda>i s. do {
             c_assert (i < ZMAP_NR);
             (b, s) \<leftarrow> bread dev (2 + ucast im + of_nat i) s;
             upd_super k (\<lambda>sb. sb\<lparr>zmaps := (zmaps sb)[i := Some b]\<rparr>) s }) [0..<unat zm] s;
         Some (k, s) })"

end
