(* ===== verification/Namei.thy ===== *)
theory Namei
  imports Fs
begin

section \<open>Names of files: \<open>fs/namei.c\<close>\<close>

text \<open>
  A path is the list of its bytes without the terminator, and a pointer into it the bytes from there
  on, so that advancing a pointer takes the tail and two pointers into one path are equal when their
  lists are. Names of directory entries are read in the bytes of their block, at offset 2 of an entry
  of 16 bytes. An entry is named by its buffer and its offset there. The result \<open>None\<close> of a function
  is a failed assertion, a panic, a wait or an access to memory that is not there; null pointers are
  an inner \<open>None\<close>.
\<close>

definition NAME_LEN :: nat where [c_defs]: "NAME_LEN = 14"
definition SIZEOF_DENTRY :: nat where [c_defs]: "SIZEOF_DENTRY = 16"
definition DE_NAME :: nat where [c_defs]: "DE_NAME = 2"

definition O_RDONLY :: u32 where [c_defs]: "O_RDONLY = 0"
definition O_WRONLY :: u32 where [c_defs]: "O_WRONLY = 1"
definition O_RDWR :: u32 where [c_defs]: "O_RDWR = 2"
definition O_ACCMODE :: u32 where [c_defs]: "O_ACCMODE = 3"
definition O_CREAT :: u32 where [c_defs]: "O_CREAT = 0x40"
definition O_TRUNC :: u32 where [c_defs]: "O_TRUNC = 0x200"
definition O_APPEND :: u32 where [c_defs]: "O_APPEND = 0x400"

definition P_EXEC :: u16 where [c_defs]: "P_EXEC = 1"
definition P_READ :: u16 where [c_defs]: "P_READ = 4"
definition P_WRITE :: u16 where [c_defs]: "P_WRITE = 2"

definition ACC_MODE :: "u32 \<Rightarrow> u16" where
  "ACC_MODE x = [4, 2, 6, 0xffff] ! unat (x AND O_ACCMODE)"

text \<open>\<open>*p\<close> for a pointer into a path.\<close>

definition ch :: "bytes \<Rightarrow> u8" where
  "ch p = (case p of [] \<Rightarrow> EOS | c # _ \<Rightarrow> c)"

subsection \<open>Rights\<close>

definition permission :: "nat \<Rightarrow> u16 \<Rightarrow> ('d, 'z) fstate_scheme \<Rightarrow> bool option" where
  "permission i want s = do {
     mode \<leftarrow> desc16 i ID_MODE s;
     nlinks \<leftarrow> desc8 i ID_NLINKS s;
     if nlinks = 0 then Some False
     else if ft_uid (me s) = KERNEL_USER then Some True
     else do {
       uid \<leftarrow> desc16 i ID_UID s;
       gid \<leftarrow> desc8 i ID_GID s;
       let mode = (if ft_uid (me s) = ucast uid then drop_bit 6 mode
                   else if ft_gid (me s) = ucast gid then drop_bit 3 mode else mode);
       Some ((mode AND want) AND 7 = want) } }"

subsection \<open>Entries of a directory\<close>

text \<open>Compares the path with the name in the bytes \<open>d\<close> from \<open>p\<close> on; when they match, the result is the
  rest of the path behind the separator.\<close>

fun match_name :: "bytes \<Rightarrow> bytes \<Rightarrow> nat \<Rightarrow> bytes option option" where
  "match_name [] d p = do { r \<leftarrow> rd d p; if r \<noteq> EOS then Some None else Some (Some []) }"
| "match_name (c # name) d p = do {
     r \<leftarrow> rd d p;
     if c = r \<and> c \<noteq> EOS \<and> r \<noteq> EOS then match_name name d (p + 1)
     else if r \<noteq> EOS then Some None
     else if c \<noteq> EOS \<and> \<not> IS_SEPARATOR c then Some None
     else if IS_SEPARATOR c then Some (Some name)
     else Some (Some (c # name)) }"

definition dotdot :: bytes where "dotdot = [46, 46, 0]"
definition dot :: bytes where "dot = [46, 0]"

text \<open>The block of entry \<open>i\<close>, when \<open>buf\<close> and the offset \<open>e\<close> do not hold it yet.\<close>

definition entry_block :: "nat \<Rightarrow> bool \<Rightarrow> u32 \<Rightarrow> nat option \<Rightarrow> nat \<Rightarrow> ('d, 'z) fstate_scheme
    \<Rightarrow> (nat \<times> nat \<times> ('d, 'z) fstate_scheme) option" where
  "entry_block dir create i buf e s =
     (case buf of
       Some b \<Rightarrow> if e < BLOCK_SIZE then Some (b, e, s) else do {
         s \<leftarrow> brelse (Some b) s;
         (blk, s) \<leftarrow> bmap dir (i div BLOCK_DENTRIES) create s;
         c_assert (blk \<noteq> 0);
         n \<leftarrow> ino dir s;
         (b, s) \<leftarrow> bread (i_dev n) (ucast blk) s;
         Some (b, 0, s) }
     | None \<Rightarrow> do {
         (blk, s) \<leftarrow> bmap dir (i div BLOCK_DENTRIES) create s;
         c_assert (blk \<noteq> 0);
         n \<leftarrow> ino dir s;
         (b, s) \<leftarrow> bread (i_dev n) (ucast blk) s;
         Some (b, 0, s) })"

text \<open>The entry found: its buffer, its offset, the rest of the path.\<close>

type_synonym found = "(nat \<times> nat \<times> bytes) option"

text \<open>The loop over the entries, the first argument how many are left.\<close>

fun find_loop :: "nat \<Rightarrow> nat \<Rightarrow> bytes \<Rightarrow> u32 \<Rightarrow> nat option \<Rightarrow> nat \<Rightarrow> ('d, 'z) fstate_scheme
    \<Rightarrow> (found \<times> ('d, 'z) fstate_scheme) option" where
  "find_loop 0 dir name i buf e s = do { s \<leftarrow> brelse buf s; Some (None, s) }"
| "find_loop (Suc n) dir name i buf e s = do {
     (b, e, s) \<leftarrow> entry_block dir False i buf e s;
     d \<leftarrow> data_of b s;
     m \<leftarrow> match_name name d (e + DE_NAME);
     nr \<leftarrow> rd16 d e;
     case m of
       Some onward \<Rightarrow> if nr \<noteq> 0 then Some (Some (b, e, onward), s) else find_loop n dir name (i + 1) (Some b) (e + SIZEOF_DENTRY) s
     | None \<Rightarrow> find_loop n dir name (i + 1) (Some b) (e + SIZEOF_DENTRY) s }"

text \<open>At the root of a mounted file system \<open>..\<close> is looked up in the directory it is mounted on.\<close>

definition find_entry :: "nat \<Rightarrow> bytes \<Rightarrow> ('d, 'z) fstate_scheme \<Rightarrow> (nat \<times> found \<times> ('d, 'z) fstate_scheme) option" where
  "find_entry dir name s = do {
     mode \<leftarrow> desc16 dir ID_MODE s;
     c_assert (ISDIR mode);
     up \<leftarrow> match_name name dotdot 0;
     n \<leftarrow> ino dir s;
     (dir, s) \<leftarrow> (if up \<noteq> None \<and> i_nr n = 1 then do {
         k \<leftarrow> get_super (i_dev n) s;
         sb \<leftarrow> sb_of k s;
         m \<leftarrow> sb_imount sb;
         s \<leftarrow> upd_ino m (\<lambda>n. n\<lparr>i_count := i_count n + 1\<rparr>) s;
         s \<leftarrow> iput (Some dir) s;
         Some (m, s) }
       else Some (dir, s));
     size \<leftarrow> desc32 dir ID_SIZE s;
     (r, s) \<leftarrow> find_loop (unat size div SIZEOF_DENTRY) dir name 0 None 0 s;
     Some (dir, r, s) }"

text \<open>The loop that looks for a free entry, or makes one at the end of the directory.\<close>

fun add_loop :: "nat \<Rightarrow> nat \<Rightarrow> bytes \<Rightarrow> u32 \<Rightarrow> nat option \<Rightarrow> nat \<Rightarrow> ('d, 'z) fstate_scheme
    \<Rightarrow> (nat \<times> nat \<times> ('d, 'z) fstate_scheme) option" where
  "add_loop 0 dir name i buf e s = None"
| "add_loop (Suc fuel) dir name i buf e s = do {
     (b, e, s) \<leftarrow> entry_block dir True i buf e s;
     size \<leftarrow> desc32 dir ID_SIZE s;
     s \<leftarrow> (if i * of_nat SIZEOF_DENTRY \<ge> size then do {
         s \<leftarrow> upd_data b (\<lambda>d. wr16 d e 0) s;
         s \<leftarrow> set_desc32 dir ID_SIZE ((i + 1) * of_nat SIZEOF_DENTRY) s;
         mark_ino dir s }
       else Some s);
     d \<leftarrow> data_of b s;
     nr \<leftarrow> rd16 d e;
     if nr \<noteq> 0 then add_loop fuel dir name (i + 1) (Some b) (e + SIZEOF_DENTRY) s
     else do {
       old \<leftarrow> get_bytes d (e + DE_NAME) NAME_LEN;
       s \<leftarrow> upd_data b (\<lambda>d. put_bytes d (e + DE_NAME) (copy_name old (takeWhile (\<lambda>c. c \<noteq> EOS) name) NAME_LEN)) s;
       s \<leftarrow> mark b s;
       s \<leftarrow> set_desc32 dir ID_MTIME (now s) s;
       s \<leftarrow> mark_ino dir s;
       Some (b, e, s) } }"

definition no_separator :: "bytes \<Rightarrow> bool" where
  "no_separator name \<longleftrightarrow> list_all (\<lambda>c. \<not> IS_SEPARATOR c) (take NAME_LEN (takeWhile (\<lambda>c. c \<noteq> EOS) name))"

definition add_entry :: "nat \<Rightarrow> bytes \<Rightarrow> ('d, 'z) fstate_scheme \<Rightarrow> (nat \<times> nat \<times> ('d, 'z) fstate_scheme) option" where
  "add_entry dir name s = do {
     (dir, r, s) \<leftarrow> find_entry dir name s;
     case r of
       Some (b, e, _) \<Rightarrow> Some (b, e, s)
     | None \<Rightarrow> do {
         c_assert (no_separator name);
         size \<leftarrow> desc32 dir ID_SIZE s;
         add_loop (unat size div SIZEOF_DENTRY + 2) dir name 0 None 0 s } }"

definition entry_nr :: "nat \<Rightarrow> nat \<Rightarrow> ('d, 'z) bstate_scheme \<Rightarrow> u16 option" where
  "entry_nr b e s = do { d \<leftarrow> data_of b s; rd16 d e }"

definition set_entry_nr :: "nat \<Rightarrow> nat \<Rightarrow> u16 \<Rightarrow> ('d, 'z) bstate_scheme \<Rightarrow> ('d, 'z) bstate_scheme option" where
  "set_entry_nr b e v s = upd_data b (\<lambda>d. wr16 d e v) s"

subsection \<open>Paths\<close>

text \<open>\<open>strrsep\<close>, and the pointer behind what it finds.\<close>

fun behind_last_sep :: "bytes \<Rightarrow> bytes option" where
  "behind_last_sep [] = None"
| "behind_last_sep (c # p) = (if c = EOS then None else case behind_last_sep p of Some r \<Rightarrow> Some r
     | None \<Rightarrow> if IS_SEPARATOR c then Some p else None)"

text \<open>A pass uses up a component of the path, so the length of the path is enough.\<close>

fun named_loop :: "nat \<Rightarrow> nat \<Rightarrow> bytes \<Rightarrow> bytes \<Rightarrow> nat option \<Rightarrow> ('d, 'z) fstate_scheme
    \<Rightarrow> ((nat \<times> bytes) option \<times> ('d, 'z) fstate_scheme) option" where
  "named_loop 0 i left right buf s = None"
| "named_loop (Suc fuel) i left right buf s = do {
     s \<leftarrow> brelse buf s;
     (i, r, s) \<leftarrow> find_entry i left s;
     case r of
       None \<Rightarrow> do { s \<leftarrow> iput (Some i) s; Some (None, s) }
     | Some (b, e, onward) \<Rightarrow> do {
         n \<leftarrow> ino i s;
         s \<leftarrow> iput (Some i) s;
         nr \<leftarrow> entry_nr b e s;
         (i, s) \<leftarrow> iget (i_dev n) (ucast nr) s;
         mode \<leftarrow> desc16 i ID_MODE s;
         ok \<leftarrow> (if ISDIR mode then permission i P_EXEC s else Some False);
         if \<not> ok then do { s \<leftarrow> brelse (Some b) s; s \<leftarrow> iput (Some i) s; Some (None, s) }
         else if right = onward then do { s \<leftarrow> brelse (Some b) s; Some (Some (i, onward), s) }
         else named_loop fuel i onward right (Some b) s } }"

text \<open>The directory a path leads to, and what is left of the path.\<close>

definition named :: "bytes \<Rightarrow> ('d, 'z) fstate_scheme \<Rightarrow> ((nat \<times> bytes) option \<times> ('d, 'z) fstate_scheme) option" where
  "named path s =
     (if ch path = EOS then Some (None, s)
      else do {
        let (i, left) = (if IS_SEPARATOR (ch path) then (ft_iroot (me s), tl path) else (ft_ipwd (me s), path));
        s \<leftarrow> upd_ino i (\<lambda>n. n\<lparr>i_count := i_count n + 1\<rparr>) s;
        if ch left = EOS then Some (Some (i, left), s)
        else case behind_last_sep left of
          None \<Rightarrow> Some (Some (i, left), s)
        | Some right \<Rightarrow> named_loop (length left) i left right None s })"

definition namei :: "bytes \<Rightarrow> ('d, 'z) fstate_scheme \<Rightarrow> (nat option \<times> ('d, 'z) fstate_scheme) option" where
  "namei path s = do {
     (r, s) \<leftarrow> named path s;
     case r of
       None \<Rightarrow> Some (None, s)
     | Some (dir, name) \<Rightarrow>
         if ch name = EOS then Some (Some dir, s)
         else do {
           (dir, r, s) \<leftarrow> find_entry dir name s;
           case r of
             None \<Rightarrow> do { s \<leftarrow> iput (Some dir) s; Some (None, s) }
           | Some (b, e, _) \<Rightarrow> do {
               n \<leftarrow> ino dir s;
               nr \<leftarrow> entry_nr b e s;
               (i, s) \<leftarrow> iget (i_dev n) (ucast nr) s;
               s \<leftarrow> iput (Some dir) s;
               s \<leftarrow> brelse (Some b) s;
               Some (Some i, s) } } }"

subsection \<open>Making and removing directories\<close>

text \<open>The end of these functions at the label \<open>rollback\<close>.\<close>

definition put_back :: "nat option \<Rightarrow> nat option \<Rightarrow> nat option \<Rightarrow> int \<Rightarrow> ('d, 'z) fstate_scheme
    \<Rightarrow> (int \<times> ('d, 'z) fstate_scheme) option" where
  "put_back buf inode dir ret s = do { s \<leftarrow> brelse buf s; s \<leftarrow> iput inode s; s \<leftarrow> iput dir s; Some (ret, s) }"

definition sys_mkdir :: "bytes \<Rightarrow> u32 \<Rightarrow> ('d, 'z) fstate_scheme \<Rightarrow> (int \<times> ('d, 'z) fstate_scheme) option" where
  "sys_mkdir path mode s = do {
     (r, s) \<leftarrow> named path s;
     case r of
       None \<Rightarrow> Some (EOF, s)
     | Some (dir, name) \<Rightarrow>
         if ch name = EOS then put_back None None (Some dir) EOF s
         else do {
           ok \<leftarrow> permission dir P_WRITE s;
           if \<not> ok then put_back None None (Some dir) EOF s
           else do {
             (dir, r, s) \<leftarrow> find_entry dir name s;
             case r of
               Some (b, _, _) \<Rightarrow> put_back (Some b) None (Some dir) EOF s
             | None \<Rightarrow> do {
                 (b, e, s) \<leftarrow> add_entry dir name s;
                 s \<leftarrow> mark b s;
                 n \<leftarrow> ino dir s;
                 (nr, s) \<leftarrow> ialloc (i_dev n) s;
                 s \<leftarrow> set_entry_nr b e (ucast nr) s;
                 nr \<leftarrow> entry_nr b e s;
                 (i, s) \<leftarrow> new_inode (i_dev n) (ucast nr) s;
                 s \<leftarrow> set_desc16 i ID_MODE (((ucast mode AND 0x1ff) AND NOT (ft_umask (me s))) OR IFDIR) s;
                 s \<leftarrow> set_desc32 i ID_SIZE (of_nat SIZEOF_DENTRY * 2) s;
                 s \<leftarrow> set_desc8 i ID_NLINKS 2 s;
                 s \<leftarrow> mark_ino dir s;
                 links \<leftarrow> desc8 dir ID_NLINKS s;
                 s \<leftarrow> set_desc8 dir ID_NLINKS (links + 1) s;
                 (blk, s) \<leftarrow> bmap i 0 True s;
                 n \<leftarrow> ino i s;
                 (z, s) \<leftarrow> bread (i_dev n) (ucast blk) s;
                 s \<leftarrow> mark z s;
                 s \<leftarrow> upd_data z (\<lambda>d. put_bytes d DE_NAME dot) s;
                 s \<leftarrow> set_entry_nr z 0 (ucast (i_nr n)) s;
                 s \<leftarrow> upd_data z (\<lambda>d. put_bytes d (SIZEOF_DENTRY + DE_NAME) dotdot) s;
                 n \<leftarrow> ino dir s;
                 s \<leftarrow> set_entry_nr z SIZEOF_DENTRY (ucast (i_nr n)) s;
                 s \<leftarrow> iput (Some i) s;
                 s \<leftarrow> iput (Some dir) s;
                 s \<leftarrow> brelse (Some b) s;
                 s \<leftarrow> brelse (Some z) s;
                 Some (0, s) } } } }"

text \<open>The loop of \<open>is_empty\<close> counts the entries in use.\<close>

fun count_loop :: "nat \<Rightarrow> nat \<Rightarrow> u32 \<Rightarrow> nat option \<Rightarrow> nat \<Rightarrow> nat \<Rightarrow> ('d, 'z) fstate_scheme
    \<Rightarrow> (nat \<times> ('d, 'z) fstate_scheme) option" where
  "count_loop 0 i k buf e c s = do { s \<leftarrow> brelse buf s; Some (c, s) }"
| "count_loop (Suc n) i k buf e c s = do {
     (b, e, s) \<leftarrow> entry_block i False k buf e s;
     nr \<leftarrow> entry_nr b e s;
     count_loop n i (k + 1) (Some b) (e + SIZEOF_DENTRY) (if nr \<noteq> 0 then c + 1 else c) s }"

definition is_empty :: "nat \<Rightarrow> ('d, 'z) fstate_scheme \<Rightarrow> (bool \<times> ('d, 'z) fstate_scheme) option" where
  "is_empty i s = do {
     mode \<leftarrow> desc16 i ID_MODE s;
     c_assert (ISDIR mode);
     size \<leftarrow> desc32 i ID_SIZE s;
     zone \<leftarrow> desc16 i ID_ZONE s;
     let entries = unat size div SIZEOF_DENTRY;
     if entries < 2 \<or> zone = 0 then Some (False, s)
     else do { (c, s) \<leftarrow> count_loop entries i 0 None 0 0 s; Some (c = 2, s) } }"

definition sys_rmdir :: "bytes \<Rightarrow> ('d, 'z) fstate_scheme \<Rightarrow> (int \<times> ('d, 'z) fstate_scheme) option" where
  "sys_rmdir path s = do {
     let rollback = (\<lambda>inode dir buf ret s. do {
       s \<leftarrow> iput inode s; s \<leftarrow> iput dir s; s \<leftarrow> brelse buf s; Some (ret, s) });
     (r, s) \<leftarrow> named path s;
     case r of
       None \<Rightarrow> Some (EOF, s)
     | Some (dir, name) \<Rightarrow>
         if ch name = EOS then rollback None (Some dir) None EOF s
         else do {
           ok \<leftarrow> permission dir P_WRITE s;
           if \<not> ok then rollback None (Some dir) None EOF s
           else do {
             (dir, r, s) \<leftarrow> find_entry dir name s;
             case r of
               None \<Rightarrow> rollback None (Some dir) None EOF s
             | Some (b, e, _) \<Rightarrow> do {
                 dn \<leftarrow> ino dir s;
                 nr \<leftarrow> entry_nr b e s;
                 (i, s) \<leftarrow> iget (i_dev dn) (ucast nr) s;
                 mode \<leftarrow> desc16 i ID_MODE s;
                 dmode \<leftarrow> desc16 dir ID_MODE s;
                 uid \<leftarrow> desc16 i ID_UID s;
                 n \<leftarrow> ino i s;
                 dn \<leftarrow> ino dir s;
                 if i = dir \<or> \<not> ISDIR mode \<or> (dmode AND ISVTX \<noteq> 0 \<and> ft_uid (me s) \<noteq> ucast uid)
                    \<or> i_dev dn \<noteq> i_dev n \<or> i_count n > 1
                 then rollback (Some i) (Some dir) (Some b) EOF s
                 else do {
                   (ok, s) \<leftarrow> is_empty i s;
                   if \<not> ok then rollback (Some i) (Some dir) (Some b) EOF s
                   else do {
                     links \<leftarrow> desc8 i ID_NLINKS s;
                     c_assert (links = 2);
                     s \<leftarrow> inode_truncate i s;
                     s \<leftarrow> ifree (i_dev n) (i_nr n) s;
                     s \<leftarrow> set_desc8 i ID_NLINKS 0 s;
                     s \<leftarrow> mark_ino i s;
                     s \<leftarrow> upd_ino i (\<lambda>n. n\<lparr>i_nr := 0\<rparr>) s;
                     links \<leftarrow> desc8 dir ID_NLINKS s;
                     s \<leftarrow> set_desc8 dir ID_NLINKS (links - 1) s;
                     s \<leftarrow> set_desc32 dir ID_MTIME (now s) s;
                     s \<leftarrow> upd_ino dir (\<lambda>n. n\<lparr>i_atime := now s, i_ctime := now s\<rparr>) s;
                     s \<leftarrow> mark_ino dir s;
                     c_assert (links - 1 > 0);
                     s \<leftarrow> set_entry_nr b e 0 s;
                     s \<leftarrow> mark b s;
                     rollback (Some i) (Some dir) (Some b) 0 s } } } } } }"

subsection \<open>Links\<close>

definition sys_link :: "bytes \<Rightarrow> bytes \<Rightarrow> ('d, 'z) fstate_scheme \<Rightarrow> (int \<times> ('d, 'z) fstate_scheme) option" where
  "sys_link oldname newname s = do {
     (io, s) \<leftarrow> namei oldname s;
     case io of
       None \<Rightarrow> Some (EOF, s)
     | Some i \<Rightarrow> do {
         mode \<leftarrow> desc16 i ID_MODE s;
         if ISDIR mode then put_back None (Some i) None EOF s
         else do {
           (r, s) \<leftarrow> named newname s;
           case r of
             None \<Rightarrow> put_back None (Some i) None EOF s
           | Some (dir, name) \<Rightarrow> do {
               n \<leftarrow> ino i s;
               dn \<leftarrow> ino dir s;
               if ch name = EOS \<or> i_dev dn \<noteq> i_dev n then put_back None (Some i) (Some dir) EOF s
               else do {
                 ok \<leftarrow> permission dir P_WRITE s;
                 if \<not> ok then put_back None (Some i) (Some dir) EOF s
                 else do {
                   (dir, r, s) \<leftarrow> find_entry dir name s;
                   case r of
                     Some (b, _, _) \<Rightarrow> put_back (Some b) (Some i) (Some dir) EOF s
                   | None \<Rightarrow> do {
                       (b, e, s) \<leftarrow> add_entry dir name s;
                       n \<leftarrow> ino i s;
                       s \<leftarrow> set_entry_nr b e (ucast (i_nr n)) s;
                       s \<leftarrow> mark b s;
                       links \<leftarrow> desc8 i ID_NLINKS s;
                       s \<leftarrow> set_desc8 i ID_NLINKS (links + 1) s;
                       s \<leftarrow> upd_ino i (\<lambda>n. n\<lparr>i_ctime := now s\<rparr>) s;
                       s \<leftarrow> mark_ino i s;
                       put_back (Some b) (Some i) (Some dir) 0 s } } } } } } }"

definition sys_unlink :: "bytes \<Rightarrow> ('d, 'z) fstate_scheme \<Rightarrow> (int \<times> ('d, 'z) fstate_scheme) option" where
  "sys_unlink path s = do {
     (r, s) \<leftarrow> named path s;
     case r of
       None \<Rightarrow> Some (EOF, s)
     | Some (dir, name) \<Rightarrow>
         if ch name = EOS then put_back None None (Some dir) EOF s
         else do {
           ok \<leftarrow> permission dir P_WRITE s;
           if \<not> ok then put_back None None (Some dir) EOF s
           else do {
             (dir, r, s) \<leftarrow> find_entry dir name s;
             case r of
               None \<Rightarrow> put_back None None (Some dir) EOF s
             | Some (b, e, _) \<Rightarrow> do {
                 dn \<leftarrow> ino dir s;
                 nr \<leftarrow> entry_nr b e s;
                 (i, s) \<leftarrow> iget (i_dev dn) (ucast nr) s;
                 mode \<leftarrow> desc16 i ID_MODE s;
                 uid \<leftarrow> desc16 i ID_UID s;
                 if ISDIR mode \<or> (mode AND ISVTX \<noteq> 0 \<and> ft_uid (me s) \<noteq> ucast uid)
                 then put_back (Some b) (Some i) (Some dir) EOF s
                 else do {
                   s \<leftarrow> set_entry_nr b e 0 s;
                   s \<leftarrow> mark b s;
                   links \<leftarrow> desc8 i ID_NLINKS s;
                   s \<leftarrow> set_desc8 i ID_NLINKS (links - 1) s;
                   s \<leftarrow> mark_ino i s;
                   s \<leftarrow> (if links - 1 = 0 then do {
                       s \<leftarrow> inode_truncate i s;
                       n \<leftarrow> ino i s;
                       ifree (i_dev n) (i_nr n) s }
                     else Some s);
                   put_back (Some b) (Some i) (Some dir) 0 s } } } } }"

subsection \<open>Opening\<close>

text \<open>The label \<open>makeup\<close>, with the inode found or made.\<close>

definition open_makeup :: "nat \<Rightarrow> nat \<Rightarrow> nat \<Rightarrow> u32 \<Rightarrow> ('d, 'z) fstate_scheme \<Rightarrow> (nat option \<times> ('d, 'z) fstate_scheme) option" where
  "open_makeup b dir i flag s = do {
     ok \<leftarrow> permission i (ACC_MODE (flag AND O_ACCMODE)) s;
     mode \<leftarrow> desc16 i ID_MODE s;
     if \<not> ok \<or> (ISDIR mode \<and> flag AND O_ACCMODE \<noteq> O_RDONLY) then do {
       s \<leftarrow> brelse (Some b) s; s \<leftarrow> iput (Some dir) s; s \<leftarrow> iput (Some i) s; Some (None, s) }
     else do {
       s \<leftarrow> upd_ino i (\<lambda>n. n\<lparr>i_atime := now s\<rparr>) s;
       s \<leftarrow> (if flag AND O_TRUNC \<noteq> 0 then inode_truncate i s else Some s);
       s \<leftarrow> brelse (Some b) s;
       s \<leftarrow> iput (Some dir) s;
       Some (Some i, s) } }"

definition inode_open :: "bytes \<Rightarrow> u32 \<Rightarrow> u32 \<Rightarrow> ('d, 'z) fstate_scheme \<Rightarrow> (nat option \<times> ('d, 'z) fstate_scheme) option" where
  "inode_open path flag mode s = do {
     (r, s) \<leftarrow> named path s;
     case r of
       None \<Rightarrow> Some (None, s)
     | Some (dir, name) \<Rightarrow>
         if ch name = EOS then Some (Some dir, s)
         else do {
           let flag = (if flag AND O_TRUNC \<noteq> 0 \<and> flag AND O_ACCMODE = O_RDONLY then flag OR O_RDWR else flag);
           (dir, r, s) \<leftarrow> find_entry dir name s;
           case r of
             Some (b, e, _) \<Rightarrow> do {
               n \<leftarrow> ino dir s;
               nr \<leftarrow> entry_nr b e s;
               (i, s) \<leftarrow> iget (i_dev n) (ucast nr) s;
               open_makeup b dir i flag s }
           | None \<Rightarrow> do {
               ok \<leftarrow> (if flag AND O_CREAT \<noteq> 0 then permission dir P_WRITE s else Some False);
               if \<not> ok then do { s \<leftarrow> iput (Some dir) s; Some (None, s) }
               else do {
                 (b, e, s) \<leftarrow> add_entry dir name s;
                 n \<leftarrow> ino dir s;
                 (nr, s) \<leftarrow> ialloc (i_dev n) s;
                 s \<leftarrow> set_entry_nr b e (ucast nr) s;
                 nr \<leftarrow> entry_nr b e s;
                 (i, s) \<leftarrow> new_inode (i_dev n) (ucast nr) s;
                 s \<leftarrow> set_desc16 i ID_MODE ((ucast mode AND (0x1ff AND NOT (ft_umask (me s)))) OR IFREG) s;
                 open_makeup b dir i flag s } } } }"

subsection \<open>Directories of a task\<close>

text \<open>What \<open>getcwd\<close> leaves in the caller's buffer.\<close>

definition sys_getcwd :: "bytes \<Rightarrow> nat \<Rightarrow> ('d, 'z) fstate_scheme \<Rightarrow> bytes" where
  "sys_getcwd buf n s = copy_name buf (takeWhile (\<lambda>c. c \<noteq> EOS) (ft_pwd (me s))) n"

text \<open>One component up: \<open>at\<close> points behind the last separator of the path at \<open>wd\<close>.\<close>

definition go_up :: "mem \<Rightarrow> nat \<Rightarrow> nat \<Rightarrow> (nat \<times> mem) option" where
  "go_up m wd at =
     (if at - 1 \<noteq> wd then do {
        m \<leftarrow> store m (at - 1) 0;
        r \<leftarrow> strrsep m wd;
        r \<leftarrow> r;
        m \<leftarrow> store m (r + 1) 0;
        Some (r + 1, m) }
      else Some (at, m))"

definition is_dotdotslash :: "mem \<Rightarrow> nat \<Rightarrow> bool option" where
  "is_dotdotslash m p = do {
     a \<leftarrow> m p;
     if a \<noteq> 46 then Some False else do {
       b \<leftarrow> m (p + 1);
       if b \<noteq> 46 then Some False else do { c \<leftarrow> m (p + 2); Some (c = 47) } } }"

definition is_dotslash :: "mem \<Rightarrow> nat \<Rightarrow> bool option" where
  "is_dotslash m p = do {
     a \<leftarrow> m p;
     if a \<noteq> 46 then Some False else do { b \<leftarrow> m (p + 1); Some (b = 47) } }"

text \<open>The loop over the components that end in a separator.\<close>

partial_function (option) abspath_loop :: "nat \<Rightarrow> mem \<Rightarrow> nat \<Rightarrow> nat \<Rightarrow> (nat \<times> nat \<times> mem) option" where
  "abspath_loop wd m at path = do {
     c \<leftarrow> m path;
     if c = 0 then Some (at, path, m)
     else do {
       r \<leftarrow> strsep m path;
       case r of
         None \<Rightarrow> Some (at, path, m)
       | Some ptr \<Rightarrow> do {
           let len = ptr - path + 1;
           m \<leftarrow> store m ptr 47;
           here \<leftarrow> is_dotslash m path;
           if here then abspath_loop wd m at (path + len)
           else do {
             up \<leftarrow> is_dotdotslash m path;
             if up then do {
               (at, m) \<leftarrow> go_up m wd at;
               abspath_loop wd m at (path + len) }
             else do {
               m \<leftarrow> strncpy m at path (of_nat (len + 1));
               abspath_loop wd m (at + len) (path + len) } } } } }"

declare abspath_loop.simps [code]

definition abspath :: "mem \<Rightarrow> nat \<Rightarrow> nat \<Rightarrow> mem option" where
  "abspath m wd path = do {
     c \<leftarrow> m path;
     (at, path, m) \<leftarrow> (if IS_SEPARATOR c then do {
         m \<leftarrow> store m (wd + 1) 0;
         Some (wd + 1, path + 1, m) }
       else do {
         r \<leftarrow> strrsep m wd;
         r \<leftarrow> r;
         m \<leftarrow> store m (r + 1) 0;
         Some (r + 1, path, m) });
     (at, path, m) \<leftarrow> abspath_loop wd m at path;
     c \<leftarrow> m path;
     if c = 0 then Some m
     else do {
       here \<leftarrow> (if c = 46 then do { d \<leftarrow> m (path + 1); Some (d = 0) } else Some False);
       if here then Some m
       else do {
         up \<leftarrow> (if c \<noteq> 46 then Some False else do {
           d \<leftarrow> m (path + 1);
           if d \<noteq> 46 then Some False else do { e \<leftarrow> m (path + 2); Some (e = 0) } });
         if \<not> up then do {
           m \<leftarrow> strcpy m at path;
           n \<leftarrow> strlen m path;
           m \<leftarrow> store m (at + n) 47;
           store m (at + n + 1) 0 }
         else do { (at, m) \<leftarrow> go_up m wd at; Some m } } } }"

text \<open>The page of the path of the current directory and the path given, apart in memory.\<close>

definition PWD_SIZE :: nat where "PWD_SIZE = 4096"

definition two_paths :: "bytes \<Rightarrow> bytes \<Rightarrow> mem" where
  "two_paths w path = (\<lambda>a. if a < PWD_SIZE then rd w a else rd (path @ [EOS]) (a - PWD_SIZE))"

definition new_pwd :: "bytes \<Rightarrow> bytes \<Rightarrow> bytes option" where
  "new_pwd w path = do {
     m \<leftarrow> abspath (two_paths w path) 0 PWD_SIZE;
     Some (map (\<lambda>a. case m a of Some b \<Rightarrow> b | None \<Rightarrow> 0) [0..<PWD_SIZE]) }"

definition sys_chdir :: "bytes \<Rightarrow> ('d, 'z) fstate_scheme \<Rightarrow> (int \<times> ('d, 'z) fstate_scheme) option" where
  "sys_chdir path s = do {
     (io, s) \<leftarrow> namei path s;
     case io of
       None \<Rightarrow> Some (EOF, s)
     | Some i \<Rightarrow> do {
         mode \<leftarrow> desc16 i ID_MODE s;
         if \<not> ISDIR mode \<or> i = ft_ipwd (me s) then do { s \<leftarrow> iput (Some i) s; Some (EOF, s) }
         else do {
           wd \<leftarrow> new_pwd (ft_pwd (me s)) path;
           let s = s\<lparr>me := (me s)\<lparr>ft_pwd := wd\<rparr>\<rparr>;
           s \<leftarrow> iput (Some (ft_ipwd (me s))) s;
           Some (0, s\<lparr>me := (me s)\<lparr>ft_ipwd := i\<rparr>\<rparr>) } } }"

definition sys_chroot :: "bytes \<Rightarrow> ('d, 'z) fstate_scheme \<Rightarrow> (int \<times> ('d, 'z) fstate_scheme) option" where
  "sys_chroot path s = do {
     (io, s) \<leftarrow> namei path s;
     case io of
       None \<Rightarrow> Some (EOF, s)
     | Some i \<Rightarrow> do {
         mode \<leftarrow> desc16 i ID_MODE s;
         if \<not> ISDIR mode \<or> i = ft_iroot (me s) then do { s \<leftarrow> iput (Some i) s; Some (EOF, s) }
         else do {
           s \<leftarrow> iput (Some (ft_iroot (me s))) s;
           Some (0, s\<lparr>me := (me s)\<lparr>ft_iroot := i\<rparr>\<rparr>) } } }"

definition sys_mknod :: "bytes \<Rightarrow> u32 \<Rightarrow> int \<Rightarrow> ('d, 'z) fstate_scheme \<Rightarrow> (int \<times> ('d, 'z) fstate_scheme) option" where
  "sys_mknod path mode dev s = do {
     (r, s) \<leftarrow> named path s;
     case r of
       None \<Rightarrow> Some (EOF, s)
     | Some (dir, name) \<Rightarrow>
         if ch name = EOS then put_back None None (Some dir) EOF s
         else do {
           ok \<leftarrow> permission dir P_WRITE s;
           if \<not> ok then put_back None None (Some dir) EOF s
           else do {
             (dir, r, s) \<leftarrow> find_entry dir name s;
             case r of
               Some (b, _, _) \<Rightarrow> put_back (Some b) None (Some dir) EOF s
             | None \<Rightarrow> do {
                 (b, e, s) \<leftarrow> add_entry dir name s;
                 s \<leftarrow> mark b s;
                 n \<leftarrow> ino dir s;
                 (nr, s) \<leftarrow> ialloc (i_dev n) s;
                 s \<leftarrow> set_entry_nr b e (ucast nr) s;
                 nr \<leftarrow> entry_nr b e s;
                 (i, s) \<leftarrow> new_inode (i_dev n) (ucast nr) s;
                 s \<leftarrow> set_desc16 i ID_MODE (ucast mode) s;
                 s \<leftarrow> (if ISBLK (ucast mode) \<or> ISCHR (ucast mode) then set_desc16 i ID_ZONE (word_of_int dev) s else Some s);
                 put_back (Some b) (Some i) (Some dir) 0 s } } } }"

end
