(* ===== verification/File.thy ===== *)
theory File
  imports Namei
begin

section \<open>Open files: \<open>fs/file.c\<close>, \<open>fs/stat.c\<close>, \<open>fs/ioctl.c\<close>, \<open>sys_pipe\<close>\<close>

text \<open>
  Descriptors are the numbers programs pass, so they may be negative; an access to the array of
  descriptors outside its bounds has no result, like a failed assertion. The bytes a call puts into
  the caller's buffer are part of its result. The transfers of pipes, which may wait, are arguments of
  \<open>sys_read\<close> and \<open>sys_write\<close>; they are the subject of the theory of pipes. The descriptor of a pipe's
  inode is not that of a file, so the calls that would read one from it have no result.
\<close>

definition TASK_FILE_NR :: int where [c_defs]: "TASK_FILE_NR = 16"
definition SEEK_SET :: int where [c_defs]: "SEEK_SET = 1"
definition SEEK_CUR :: int where [c_defs]: "SEEK_CUR = 2"
definition SEEK_END :: int where [c_defs]: "SEEK_END = 3"

subsection \<open>The table of files and the descriptors of the task\<close>

definition file_of :: "nat \<Rightarrow> ('d, 'z) fstate_scheme \<Rightarrow> file_t option" where
  "file_of k s = rd (file_table s) k"

definition upd_file :: "nat \<Rightarrow> (file_t \<Rightarrow> file_t) \<Rightarrow> ('d, 'z) fstate_scheme \<Rightarrow> ('d, 'z) fstate_scheme option" where
  "upd_file k f s = do { x \<leftarrow> file_of k s; t \<leftarrow> wr (file_table s) k (f x); Some (s\<lparr>file_table := t\<rparr>) }"

text \<open>\<open>task->files[fd]\<close>.\<close>

definition fd_file :: "int \<Rightarrow> ('d, 'z) fstate_scheme \<Rightarrow> nat option option" where
  "fd_file fd s = (if fd < 0 then None else rd (ft_files (me s)) (nat fd))"

definition set_fd :: "int \<Rightarrow> nat option \<Rightarrow> ('d, 'z) fstate_scheme \<Rightarrow> ('d, 'z) fstate_scheme option" where
  "set_fd fd k s = (if fd < 0 then None else do {
     l \<leftarrow> wr (ft_files (me s)) (nat fd) k;
     Some (s\<lparr>me := (me s)\<lparr>ft_files := l\<rparr>\<rparr>) })"

definition get_fd :: "('d, 'z) fstate_scheme \<Rightarrow> int option" where
  "get_fd s = map_option int (List.find (\<lambda>i. ft_files (me s) ! i = None) [3..<16])"

definition get_file :: "('d, 'z) fstate_scheme \<Rightarrow> (nat \<times> ('d, 'z) fstate_scheme) option" where
  "get_file s = do {
     k \<leftarrow> List.find (\<lambda>k. f_count (file_table s ! k) = 0) [3..<length (file_table s)];
     s \<leftarrow> upd_file k (\<lambda>f. f\<lparr>f_count := f_count f + 1\<rparr>) s;
     Some (k, s) }"

definition put_file :: "nat \<Rightarrow> ('d, 'z) fstate_scheme \<Rightarrow> ('d, 'z) fstate_scheme option" where
  "put_file k s = do {
     f \<leftarrow> file_of k s;
     c_assert (f_count f > 0);
     s \<leftarrow> upd_file k (\<lambda>f. f\<lparr>f_count := f_count f - 1\<rparr>) s;
     if f_count f - 1 = 0 then iput (f_inode f) s else Some s }"

definition file_init :: "('d, 'z) fstate_scheme \<Rightarrow> ('d, 'z) fstate_scheme" where
  "file_init s = s\<lparr>file_table := take 3 (file_table s) @ map (\<lambda>f. \<lparr>f_inode = None, f_count = 0, f_offset = 0, f_flags = 0, f_mode = 0\<rparr>)
     (drop 3 (file_table s))\<rparr>"

subsection \<open>Opening and closing\<close>

definition sys_open :: "bytes \<Rightarrow> u32 \<Rightarrow> u32 \<Rightarrow> ('d, 'z) fstate_scheme \<Rightarrow> (int \<times> ('d, 'z) fstate_scheme) option" where
  "sys_open path flags mode s = do {
     (io, s) \<leftarrow> inode_open path flags mode s;
     case io of
       None \<Rightarrow> Some (EOF, s)
     | Some i \<Rightarrow> do {
         fd \<leftarrow> get_fd s;
         (k, s) \<leftarrow> get_file s;
         old \<leftarrow> fd_file fd s;
         c_assert (old = None);
         s \<leftarrow> set_fd fd (Some k) s;
         m \<leftarrow> desc16 i ID_MODE s;
         s \<leftarrow> upd_file k (\<lambda>f. \<lparr>f_inode = Some i, f_count = 1, f_offset = 0, f_flags = flags, f_mode = ucast m\<rparr>) s;
         s \<leftarrow> (if flags AND O_APPEND \<noteq> 0 then do {
             size \<leftarrow> desc32 i ID_SIZE s;
             upd_file k (\<lambda>f. f\<lparr>f_offset := size\<rparr>) s }
           else Some s);
         Some (fd, s) } }"

definition sys_create :: "bytes \<Rightarrow> u32 \<Rightarrow> ('d, 'z) fstate_scheme \<Rightarrow> (int \<times> ('d, 'z) fstate_scheme) option" where
  "sys_create path mode s = sys_open path (O_CREAT OR O_TRUNC) mode s"

definition sys_close :: "int \<Rightarrow> ('d, 'z) fstate_scheme \<Rightarrow> ('d, 'z) fstate_scheme option" where
  "sys_close fd s = do {
     c_assert (fd < TASK_FILE_NR);
     ko \<leftarrow> fd_file fd s;
     case ko of
       None \<Rightarrow> Some s
     | Some k \<Rightarrow> do {
         f \<leftarrow> file_of k s;
         c_assert (f_inode f \<noteq> None);
         s \<leftarrow> put_file k s;
         set_fd fd None s } }"

definition sys_pipe :: "('d, 'z) fstate_scheme \<Rightarrow> ((int \<times> int) \<times> ('d, 'z) fstate_scheme) option" where
  "sys_pipe s = do {
     (i, s) \<leftarrow> get_pipe_inode s;
     fd0 \<leftarrow> get_fd s;
     (k0, s) \<leftarrow> get_file s;
     s \<leftarrow> set_fd fd0 (Some k0) s;
     fd1 \<leftarrow> get_fd s;
     (k1, s) \<leftarrow> get_file s;
     s \<leftarrow> set_fd fd1 (Some k1) s;
     s \<leftarrow> upd_file k0 (\<lambda>f. f\<lparr>f_inode := Some i, f_flags := O_RDONLY\<rparr>) s;
     s \<leftarrow> upd_file k1 (\<lambda>f. f\<lparr>f_inode := Some i, f_flags := O_WRONLY\<rparr>) s;
     Some ((fd0, fd1), s) }"

definition dupfd :: "int \<Rightarrow> int \<Rightarrow> ('d, 'z) fstate_scheme \<Rightarrow> (int \<times> ('d, 'z) fstate_scheme) option" where
  "dupfd fd arg s = (if fd \<ge> TASK_FILE_NR then Some (EOF, s) else do {
     ko \<leftarrow> fd_file fd s;
     case ko of
       None \<Rightarrow> Some (EOF, s)
     | Some k \<Rightarrow> do {
         c_assert (arg \<ge> 0);
         case List.find (\<lambda>i. ft_files (me s) ! i = None) [nat arg..<nat TASK_FILE_NR] of
           None \<Rightarrow> Some (EOF, s)
         | Some a \<Rightarrow> do {
             s \<leftarrow> set_fd (int a) (Some k) s;
             s \<leftarrow> upd_file k (\<lambda>f. f\<lparr>f_count := f_count f + 1\<rparr>) s;
             Some (int a, s) } } })"

definition sys_dup :: "int \<Rightarrow> ('d, 'z) fstate_scheme \<Rightarrow> (int \<times> ('d, 'z) fstate_scheme) option" where
  "sys_dup oldfd s = dupfd oldfd 0 s"

definition sys_dup2 :: "int \<Rightarrow> int \<Rightarrow> ('d, 'z) fstate_scheme \<Rightarrow> (int \<times> ('d, 'z) fstate_scheme) option" where
  "sys_dup2 oldfd newfd s = do { s \<leftarrow> sys_close newfd s; dupfd oldfd newfd s }"

subsection \<open>Reading, writing, seeking\<close>

text \<open>A transfer that has taken place moves the offset.\<close>

definition advance :: "nat \<Rightarrow> int \<Rightarrow> ('d, 'z) fstate_scheme \<Rightarrow> ('d, 'z) fstate_scheme option" where
  "advance k n s = (if n \<noteq> EOF then upd_file k (\<lambda>f. f\<lparr>f_offset := f_offset f + word_of_int n\<rparr>) s else Some s)"

text \<open>The device transfers work on the part of the state that is the devices.\<close>

definition with_devices :: "('d dstate \<Rightarrow> ('a \<times> 'd dstate) option) \<Rightarrow> ('d, 'z) dstate_scheme \<Rightarrow> ('a \<times> ('d, 'z) dstate_scheme) option" where
  "with_devices f s = do {
     (r, t) \<leftarrow> f \<lparr>devices = devices s, hw = hw s\<rparr>;
     Some (r, s\<lparr>devices := devices t, hw := hw t\<rparr>) }"

definition dev_read :: "int \<Rightarrow> bytes \<Rightarrow> u32 \<Rightarrow> u32 \<Rightarrow> ('d, 'z) dstate_scheme \<Rightarrow> ((int \<times> bytes) \<times> ('d, 'z) dstate_scheme) option" where
  "dev_read dev buf n idx s = with_devices (\<lambda>t. do { (r, buf, t) \<leftarrow> device_read dev buf n idx 0 t; Some ((r, buf), t) }) s"

definition dev_write :: "int \<Rightarrow> bytes \<Rightarrow> u32 \<Rightarrow> u32 \<Rightarrow> ('d, 'z) dstate_scheme \<Rightarrow> (int \<times> ('d, 'z) dstate_scheme) option" where
  "dev_write dev buf n idx s = with_devices (device_write dev buf n idx 0) s"

definition sys_read :: "(nat \<Rightarrow> bytes \<Rightarrow> u32 \<Rightarrow> ('d, 'z) fstate_scheme \<Rightarrow> (int \<times> bytes \<times> ('d, 'z) fstate_scheme) option)
    \<Rightarrow> int \<Rightarrow> bytes \<Rightarrow> u32 \<Rightarrow> ('d, 'z) fstate_scheme \<Rightarrow> (int \<times> bytes \<times> ('d, 'z) fstate_scheme) option" where
  "sys_read pipe_read fd buf len s = do {
     ko \<leftarrow> fd_file fd s;
     k \<leftarrow> ko;
     c_assert (sint len > 0);
     f \<leftarrow> file_of k s;
     if f_flags f AND O_ACCMODE = O_WRONLY then Some (EOF, buf, s)
     else do {
       i \<leftarrow> f_inode f;
       n \<leftarrow> ino i s;
       if i_pipe n then pipe_read i buf len s
       else do {
         mode \<leftarrow> desc16 i ID_MODE s;
         zone \<leftarrow> desc16 i ID_ZONE s;
         if ISCHR mode then do {
           c_assert (zone \<noteq> 0);
           ((r, buf), s) \<leftarrow> dev_read (uint zone) buf len 0 s;
           Some (r, buf, s) }
         else if ISBLK mode then do {
           c_assert (zone \<noteq> 0);
           _ \<leftarrow> device_get (uint zone) s;
           c_assert (start_of (f_offset f) = 0);
           c_assert (start_of len = 0);
           ((r, buf), s) \<leftarrow> dev_read (uint zone) buf (blk_of len) (blk_of (f_offset f)) s;
           Some (r, buf, s) }
         else do {
           (r, out, s) \<leftarrow> inode_read i len (f_offset f) s;
           s \<leftarrow> advance k r s;
           Some (r, out @ drop (length out) buf, s) } } } }"

definition sys_write :: "(nat \<Rightarrow> bytes \<Rightarrow> u32 \<Rightarrow> ('d, 'z) fstate_scheme \<Rightarrow> (int \<times> ('d, 'z) fstate_scheme) option)
    \<Rightarrow> int \<Rightarrow> bytes \<Rightarrow> u32 \<Rightarrow> ('d, 'z) fstate_scheme \<Rightarrow> (int \<times> ('d, 'z) fstate_scheme) option" where
  "sys_write pipe_write fd buf len s = do {
     ko \<leftarrow> fd_file fd s;
     k \<leftarrow> ko;
     c_assert (len > 0);
     f \<leftarrow> file_of k s;
     if f_flags f AND O_ACCMODE = O_RDONLY then Some (EOF, s)
     else do {
       i \<leftarrow> f_inode f;
       n \<leftarrow> ino i s;
       if i_pipe n then pipe_write i buf len s
       else do {
         mode \<leftarrow> desc16 i ID_MODE s;
         zone \<leftarrow> desc16 i ID_ZONE s;
         if ISCHR mode then do {
           c_assert (zone \<noteq> 0);
           _ \<leftarrow> device_get (uint zone) s;
           dev_write (uint zone) buf len 0 s }
         else if ISBLK mode then do {
           c_assert (zone \<noteq> 0);
           _ \<leftarrow> device_get (uint zone) s;
           c_assert (start_of (f_offset f) = 0);
           c_assert (len mod 1024 = 0);
           dev_write (uint zone) buf (len div 1024) (blk_of (f_offset f)) s }
         else do {
           (r, s) \<leftarrow> inode_write i buf len (f_offset f) s;
           s \<leftarrow> advance k r s;
           Some (r, s) } } } }"

definition sys_lseek :: "int \<Rightarrow> u32 \<Rightarrow> int \<Rightarrow> ('d, 'z) fstate_scheme \<Rightarrow> (int \<times> ('d, 'z) fstate_scheme) option" where
  "sys_lseek fd offset whence s = do {
     c_assert (fd < TASK_FILE_NR);
     ko \<leftarrow> fd_file fd s;
     k \<leftarrow> ko;
     f \<leftarrow> file_of k s;
     i \<leftarrow> f_inode f;
     c_assert (whence = SEEK_SET \<or> whence = SEEK_CUR \<or> whence = SEEK_END);
     c_assert (sint offset \<ge> 0);
     off \<leftarrow> (if whence = SEEK_SET then Some offset
       else if whence = SEEK_CUR then Some (f_offset f + offset)
       else do {
         n \<leftarrow> ino i s;
         c_assert (\<not> i_pipe n);
         size \<leftarrow> desc32 i ID_SIZE s;
         Some (size + offset) });
     s \<leftarrow> upd_file k (\<lambda>f. f\<lparr>f_offset := off\<rparr>) s;
     Some (sint off, s) }"

definition sys_readdir where
  "sys_readdir pipe_read fd dirent s = sys_read pipe_read fd dirent (of_nat SIZEOF_DENTRY) s"

subsection \<open>State and control of files\<close>

record stat =
  st_dev :: int
  st_nr :: u32
  st_mode :: u16
  st_nlinks :: u8
  st_uid :: u16
  st_gid :: u8
  st_rdev :: int
  st_size :: u32
  st_atime :: u32
  st_mtime :: u32
  st_ctime :: u32

definition copy_stat :: "nat \<Rightarrow> ('d, 'z) fstate_scheme \<Rightarrow> stat option" where
  "copy_stat i s = do {
     n \<leftarrow> ino i s;
     c_assert (\<not> i_pipe n);
     mode \<leftarrow> desc16 i ID_MODE s;
     nlinks \<leftarrow> desc8 i ID_NLINKS s;
     uid \<leftarrow> desc16 i ID_UID s;
     gid \<leftarrow> desc8 i ID_GID s;
     zone \<leftarrow> desc16 i ID_ZONE s;
     size \<leftarrow> desc32 i ID_SIZE s;
     mtime \<leftarrow> desc32 i ID_MTIME s;
     Some \<lparr>st_dev = i_dev n, st_nr = i_nr n, st_mode = mode, st_nlinks = nlinks, st_uid = uid, st_gid = gid,
       st_rdev = uint zone, st_size = size, st_atime = i_atime n, st_mtime = mtime, st_ctime = i_ctime n\<rparr> }"

definition sys_stat :: "bytes \<Rightarrow> ('d, 'z) fstate_scheme \<Rightarrow> ((int \<times> stat option) \<times> ('d, 'z) fstate_scheme) option" where
  "sys_stat path s = do {
     (io, s) \<leftarrow> namei path s;
     case io of
       None \<Rightarrow> Some ((EOF, None), s)
     | Some i \<Rightarrow> do { st \<leftarrow> copy_stat i s; s \<leftarrow> iput (Some i) s; Some ((0, Some st), s) } }"

definition sys_fstat :: "int \<Rightarrow> ('d, 'z) fstate_scheme \<Rightarrow> (int \<times> stat option) option" where
  "sys_fstat fd s = (if fd \<ge> TASK_FILE_NR then Some (EOF, None) else do {
     ko \<leftarrow> fd_file fd s;
     case ko of
       None \<Rightarrow> Some (EOF, None)
     | Some k \<Rightarrow> do { f \<leftarrow> file_of k s; i \<leftarrow> f_inode f; st \<leftarrow> copy_stat i s; Some (0, Some st) } })"

definition sys_ioctl :: "int \<Rightarrow> int \<Rightarrow> ('d, 'z) fstate_scheme \<Rightarrow> int option" where
  "sys_ioctl fd cmd s = (if fd \<ge> TASK_FILE_NR then Some (neg_errno EBADF) else do {
     ko \<leftarrow> fd_file fd s;
     case ko of
       None \<Rightarrow> Some (neg_errno EBADF)
     | Some k \<Rightarrow> do {
         f \<leftarrow> file_of k s;
         i \<leftarrow> f_inode f;
         n \<leftarrow> ino i s;
         c_assert (\<not> i_pipe n);
         mode \<leftarrow> desc16 i ID_MODE s;
         if \<not> ISCHR mode \<and> \<not> ISBLK mode then Some (neg_errno EINVAL)
         else do {
           zone \<leftarrow> desc16 i ID_ZONE s;
           if uint zone \<ge> int DEVICE_NR then Some (neg_errno ENOTTY)
           else device_ioctl (uint zone) cmd s } } })"

end
