(* ===== verification/Mount.thy ===== *)
theory Mount
  imports File Stdlib
begin

section \<open>Making and mounting file systems: \<open>fs/super.c\<close>, \<open>fs/dev.c\<close>\<close>

text \<open>
  The state is that of the file system; the C integers of \<open>devmkfs\<close> are numbers here, cut to 16 bits
  where they are stored in the super block; a negative number of inodes or zones leads to an access in
  front of a buffer, which has no result. A file system is made through the same functions that use
  it later: \<open>balloc\<close>, \<open>ialloc\<close>, \<open>new_inode\<close>, \<open>bmap\<close>.
\<close>

definition DEV_CONSOLE :: int where [c_defs]: "DEV_CONSOLE = 1"
definition DEV_KEYBOARD :: int where [c_defs]: "DEV_KEYBOARD = 2"
definition DEV_SERIAL :: int where [c_defs]: "DEV_SERIAL = 3"
definition DEV_TTY :: int where [c_defs]: "DEV_TTY = 4"
definition DEV_SB16 :: int where [c_defs]: "DEV_SB16 = 5"
definition DEV_IDE_DISK :: int where [c_defs]: "DEV_IDE_DISK = 6"
definition DEV_IDE_PART :: int where [c_defs]: "DEV_IDE_PART = 7"
definition DEV_FLOPPY :: int where [c_defs]: "DEV_FLOPPY = 9"

subsection \<open>Mounting\<close>

definition mount_root :: "('d, 'z) fstate_scheme \<Rightarrow> ('d, 'z) fstate_scheme option" where
  "mount_root s = do {
     d \<leftarrow> device_find DEV_IDE_PART 0 s;
     (k, s) \<leftarrow> read_super (d_dev d) s;
     let s = s\<lparr>root := k\<rparr>;
     (r, s) \<leftarrow> iget (d_dev d) 1 s;
     s \<leftarrow> upd_super k (\<lambda>sb. sb\<lparr>sb_iroot := Some r\<rparr>) s;
     (m, s) \<leftarrow> iget (d_dev d) 1 s;
     s \<leftarrow> upd_super k (\<lambda>sb. sb\<lparr>sb_imount := Some m\<rparr>) s;
     upd_ino r (\<lambda>n. n\<lparr>i_mount := d_dev d\<rparr>) s }"

definition super_init :: "('d, 'z) fstate_scheme \<Rightarrow> ('d, 'z) fstate_scheme option" where
  "super_init s = mount_root (s\<lparr>super_table := map (\<lambda>sb. sb\<lparr>sb_dev := EOF, sb_buf := 0, sb_iroot := None,
     sb_imount := None, inode_list := []\<rparr>) (super_table s)\<rparr>)"

definition sys_mount :: "bytes \<Rightarrow> bytes \<Rightarrow> ('d, 'z) fstate_scheme \<Rightarrow> (int \<times> ('d, 'z) fstate_scheme) option" where
  "sys_mount devname dirname s = do {
     let rollback = (\<lambda>dirinode devinode s. do { s \<leftarrow> iput dirinode s; s \<leftarrow> iput devinode s; Some (EOF, s) });
     (io, s) \<leftarrow> namei devname s;
     case io of
       None \<Rightarrow> rollback None None s
     | Some di \<Rightarrow> do {
         mode \<leftarrow> desc16 di ID_MODE s;
         if \<not> ISBLK mode then rollback None (Some di) s
         else do {
           zone \<leftarrow> desc16 di ID_ZONE s;
           let dev = uint zone;
           (io, s) \<leftarrow> namei dirname s;
           case io of
             None \<Rightarrow> rollback None (Some di) s
           | Some dir \<Rightarrow> do {
               mode \<leftarrow> desc16 dir ID_MODE s;
               n \<leftarrow> ino dir s;
               if \<not> ISDIR mode \<or> i_count n \<noteq> 1 \<or> i_mount n \<noteq> 0 then rollback (Some dir) (Some di) s
               else do {
                 (k, s) \<leftarrow> read_super dev s;
                 (r, s) \<leftarrow> iget dev 1 s;
                 s \<leftarrow> upd_super k (\<lambda>sb. sb\<lparr>sb_iroot := Some r, sb_imount := Some dir\<rparr>) s;
                 s \<leftarrow> upd_ino dir (\<lambda>n. n\<lparr>i_mount := dev\<rparr>) s;
                 s \<leftarrow> iput (Some di) s;
                 Some (0, s) } } } } }"

definition sys_umount :: "bytes \<Rightarrow> ('d, 'z) fstate_scheme \<Rightarrow> (int \<times> ('d, 'z) fstate_scheme) option" where
  "sys_umount target s = do {
     let rollback = (\<lambda>sb inode ret s. do { s \<leftarrow> put_super sb s; s \<leftarrow> iput inode s; Some (ret, s) });
     (io, s) \<leftarrow> namei target s;
     case io of
       None \<Rightarrow> rollback None None EOF s
     | Some i \<Rightarrow> do {
         mode \<leftarrow> desc16 i ID_MODE s;
         n \<leftarrow> ino i s;
         rsb \<leftarrow> sb_of (root s) s;
         if (\<not> ISBLK mode \<and> i_nr n \<noteq> 1) \<or> Some i = sb_imount rsb then rollback None (Some i) EOF s
         else do {
           zone \<leftarrow> desc16 i ID_ZONE s;
           k \<leftarrow> get_super (if ISBLK mode then uint zone else i_dev n) s;
           sb \<leftarrow> sb_of k s;
           case sb_imount sb of
             None \<Rightarrow> rollback (Some k) (Some i) EOF s
           | Some m \<Rightarrow>
               if length (inode_list sb) > 1 then rollback (Some k) (Some i) EOF s
               else do {
                 s \<leftarrow> iput (sb_iroot sb) s;
                 s \<leftarrow> upd_super k (\<lambda>sb. sb\<lparr>sb_iroot := None\<rparr>) s;
                 s \<leftarrow> upd_ino m (\<lambda>n. n\<lparr>i_mount := 0\<rparr>) s;
                 s \<leftarrow> iput (Some m) s;
                 s \<leftarrow> upd_super k (\<lambda>sb. sb\<lparr>sb_imount := None\<rparr>) s;
                 rollback (Some k) (Some i) 0 s } } } }"

subsection \<open>Making a file system\<close>

definition upd_sdesc :: "nat \<Rightarrow> nat \<Rightarrow> u16 \<Rightarrow> ('d, 'z) fstate_scheme \<Rightarrow> ('d, 'z) fstate_scheme option" where
  "upd_sdesc k off v s = do { sb \<leftarrow> sb_of k s; upd_data (sb_buf sb) (\<lambda>d. wr16 d off v) s }"

text \<open>A block of a bitmap read and cleared.\<close>

definition clear_map :: "int \<Rightarrow> u32 \<Rightarrow> ('d, 'z) bstate_scheme \<Rightarrow> (nat \<times> ('d, 'z) bstate_scheme) option" where
  "clear_map dev idx s = do {
     (b, s) \<leftarrow> bread dev idx s;
     s \<leftarrow> upd_data b (\<lambda>d. put_bytes d 0 (replicate BLOCK_SIZE 0)) s;
     s \<leftarrow> mark b s;
     Some (b, s) }"

text \<open>The loop that makes the first byte of the tail of a bitmap.\<close>

fun tail_bits :: "nat \<Rightarrow> nat \<Rightarrow> u8 \<Rightarrow> u8" where
  "tail_bits 0 bits d = d"
| "tail_bits (Suc remain) bits d = tail_bits remain (bits div 2) (d OR word_of_nat bits)"

definition set_tail :: "nat \<Rightarrow> bytes \<Rightarrow> bytes option" where
  "set_tail n d = do {
     let offset = n mod unat BLOCK_BITS;
     let begin = offset div 8;
     d \<leftarrow> put_bytes d (begin + 1) (replicate (BLOCK_SIZE - begin - 1) 0xff);
     wr d begin (tail_bits (8 - offset mod 8) 0x80 0) }"

definition devmkfs :: "int \<Rightarrow> int \<Rightarrow> ('d, 'z) fstate_scheme \<Rightarrow> (int \<times> ('d, 'z) fstate_scheme) option" where
  "devmkfs dev icount s = do {
     secs \<leftarrow> device_ioctl dev DEV_CMD_SECTOR_COUNT s;
     let total_block = secs sdiv 2;
     c_assert (total_block \<noteq> 0);
     c_assert (icount < total_block);
     let icount = (if icount = 0 then total_block sdiv 3 else icount);
     k \<leftarrow> get_free_super s;
     s \<leftarrow> upd_super k (\<lambda>sb. sb\<lparr>sb_dev := dev, sb_count := 1\<rparr>) s;
     (b, s) \<leftarrow> bread dev 1 s;
     s \<leftarrow> upd_super k (\<lambda>sb. sb\<lparr>sb_buf := b\<rparr>) s;
     s \<leftarrow> mark b s;
     inode_blocks \<leftarrow> div_round_up (word_of_int icount * of_nat SIZEOF_INODE_DESC) (of_nat BLOCK_SIZE);
     s \<leftarrow> upd_sdesc k SD_INODES (word_of_int icount) s;
     s \<leftarrow> upd_sdesc k SD_ZONES (word_of_int total_block) s;
     im \<leftarrow> div_round_up (word_of_int icount) BLOCK_BITS;
     s \<leftarrow> upd_sdesc k SD_IMAP_BLOCKS (ucast im) s;
     im \<leftarrow> sdesc k SD_IMAP_BLOCKS s;
     let zcount = (word_of_int total_block - ucast im - inode_blocks - 2 :: u32);
     zm \<leftarrow> div_round_up zcount BLOCK_BITS;
     s \<leftarrow> upd_sdesc k SD_ZMAP_BLOCKS (ucast zm) s;
     zm \<leftarrow> sdesc k SD_ZMAP_BLOCKS s;
     s \<leftarrow> upd_sdesc k SD_FIRST_DATAZONE (2 + im + zm + ucast inode_blocks) s;
     s \<leftarrow> upd_sdesc k SD_LOG_ZONE_SIZE 0 s;
     s \<leftarrow> upd_data b (\<lambda>d. wr32 d SD_MAX_SIZE (of_nat BLOCK_SIZE * TOTAL_BLOCK)) s;
     s \<leftarrow> upd_sdesc k SD_MAGIC MINIX1_MAGIC s;
     s \<leftarrow> upd_super k (\<lambda>sb. sb\<lparr>imaps := replicate IMAP_NR None, zmaps := replicate ZMAP_NR None\<rparr>) s;
     s \<leftarrow> foldM (\<lambda>i s. do {
         (m, s) \<leftarrow> clear_map dev (2 + of_nat i) s;
         c_assert (i < IMAP_NR);
         upd_super k (\<lambda>sb. sb\<lparr>imaps := (imaps sb)[i := Some m]\<rparr>) s }) [0..<unat im] s;
     s \<leftarrow> foldM (\<lambda>i s. do {
         (m, s) \<leftarrow> clear_map dev (2 + ucast im + of_nat i) s;
         c_assert (i < ZMAP_NR);
         upd_super k (\<lambda>sb. sb\<lparr>zmaps := (zmaps sb)[i := Some m]\<rparr>) s }) [0..<unat zm] s;
     (_, s) \<leftarrow> balloc dev s;
     (_, s) \<leftarrow> ialloc dev s;
     (_, s) \<leftarrow> ialloc dev s;
     sb \<leftarrow> sb_of k s;
     c_assert (im > 0 \<and> zm > 0);
     imap \<leftarrow> rd (imaps sb) (unat im - 1);
     imap \<leftarrow> imap;
     zmap \<leftarrow> rd (zmaps sb) (unat zm - 1);
     zmap \<leftarrow> zmap;
     c_assert (icount + 1 \<ge> 0 \<and> sint zcount \<ge> 0);
     s \<leftarrow> mark imap s;
     s \<leftarrow> upd_data imap (set_tail (nat (icount + 1))) s;
     s \<leftarrow> mark zmap s;
     s \<leftarrow> upd_data zmap (set_tail (unat zcount)) s;
     (i, s) \<leftarrow> new_inode dev 1 s;
     s \<leftarrow> upd_super k (\<lambda>sb. sb\<lparr>sb_iroot := Some i\<rparr>) s;
     s \<leftarrow> set_desc16 i ID_MODE ((0x1ff AND NOT (ft_umask (me s))) OR IFDIR) s;
     s \<leftarrow> set_desc32 i ID_SIZE (of_nat SIZEOF_DENTRY * 2) s;
     s \<leftarrow> set_desc8 i ID_NLINKS 2 s;
     (blk, s) \<leftarrow> bmap i 0 True s;
     (b, s) \<leftarrow> bread dev (ucast blk) s;
     s \<leftarrow> mark b s;
     n \<leftarrow> ino i s;
     s \<leftarrow> upd_data b (\<lambda>d. put_bytes d 0 (replicate BLOCK_SIZE 0)) s;
     s \<leftarrow> upd_data b (\<lambda>d. put_bytes d DE_NAME dot) s;
     s \<leftarrow> set_entry_nr b 0 (ucast (i_nr n)) s;
     s \<leftarrow> upd_data b (\<lambda>d. put_bytes d (SIZEOF_DENTRY + DE_NAME) dotdot) s;
     s \<leftarrow> set_entry_nr b SIZEOF_DENTRY (ucast (i_nr n)) s;
     s \<leftarrow> brelse (Some b) s;
     s \<leftarrow> put_super (Some k) s;
     Some (0, s) }"

definition sys_mkfs :: "bytes \<Rightarrow> int \<Rightarrow> ('d, 'z) fstate_scheme \<Rightarrow> (int \<times> ('d, 'z) fstate_scheme) option" where
  "sys_mkfs devname icount s = do {
     (io, s) \<leftarrow> namei devname s;
     case io of
       None \<Rightarrow> Some (EOF, s)
     | Some i \<Rightarrow> do {
         mode \<leftarrow> desc16 i ID_MODE s;
         if \<not> ISBLK mode then do { s \<leftarrow> iput (Some i) s; Some (EOF, s) }
         else do {
           zone \<leftarrow> desc16 i ID_ZONE s;
           c_assert (zone \<noteq> 0);
           (ret, s) \<leftarrow> devmkfs (uint zone) icount s;
           s \<leftarrow> iput (Some i) s;
           Some (ret, s) } } }"

subsection \<open>The file system of devices\<close>

definition dev_path :: "bytes \<Rightarrow> bytes" where
  "dev_path name = [47, 100, 101, 118, 47] @ takeWhile (\<lambda>c. c \<noteq> EOS) name"

text \<open>A node for every device of a kind, from number \<open>i\<close> on; there are at most \<open>DEVICE_NR\<close> devices.\<close>

fun mknods :: "nat \<Rightarrow> int \<Rightarrow> nat \<Rightarrow> u32 \<Rightarrow> ('d, 'z) fstate_scheme \<Rightarrow> ('d, 'z) fstate_scheme option" where
  "mknods 0 subtype i mode s = None"
| "mknods (Suc fuel) subtype i mode s = (case device_find subtype i s of
       None \<Rightarrow> Some s
     | Some d \<Rightarrow> do {
         (_, s) \<leftarrow> sys_mknod (dev_path (d_name d)) mode (d_dev d) s;
         mknods fuel subtype (i + 1) mode s })"

definition std_file :: "nat \<Rightarrow> bytes \<Rightarrow> u32 \<Rightarrow> ('d, 'z) fstate_scheme \<Rightarrow> ('d, 'z) fstate_scheme option" where
  "std_file k name flags s = do {
     (io, s) \<leftarrow> namei (dev_path name) s;
     i \<leftarrow> io;
     mode \<leftarrow> desc16 i ID_MODE s;
     upd_file k (\<lambda>f. f\<lparr>f_inode := Some i, f_mode := ucast mode, f_flags := flags, f_offset := 0\<rparr>) s }"

definition dev_init :: "('d, 'z) fstate_scheme \<Rightarrow> ('d, 'z) fstate_scheme option" where
  "dev_init s = do {
     let console = [99, 111, 110, 115, 111, 108, 101];
     let keyboard = [107, 101, 121, 98, 111, 97, 114, 100];
     let tty = [116, 116, 121];
     let stdin = [115, 116, 100, 105, 110];
     let stdout = [115, 116, 100, 111, 117, 116];
     let stderr = [115, 116, 100, 101, 114, 114];
     (_, s) \<leftarrow> sys_mkdir [47, 100, 101, 118] 0x1ed s;
     d \<leftarrow> device_find DEV_RAMDISK 0 s;
     (_, s) \<leftarrow> devmkfs (d_dev d) 0 s;
     (k, s) \<leftarrow> read_super (d_dev d) s;
     (r, s) \<leftarrow> iget (d_dev d) 1 s;
     s \<leftarrow> upd_super k (\<lambda>sb. sb\<lparr>sb_iroot := Some r\<rparr>) s;
     (io, s) \<leftarrow> namei [47, 100, 101, 118] s;
     m \<leftarrow> io;
     s \<leftarrow> upd_super k (\<lambda>sb. sb\<lparr>sb_imount := Some m\<rparr>) s;
     s \<leftarrow> upd_ino m (\<lambda>n. n\<lparr>i_mount := d_dev d\<rparr>) s;
     d \<leftarrow> device_find DEV_CONSOLE 0 s;
     (_, s) \<leftarrow> sys_mknod (dev_path console) (ucast IFCHR OR 0x80) (d_dev d) s;
     d \<leftarrow> device_find DEV_KEYBOARD 0 s;
     (_, s) \<leftarrow> sys_mknod (dev_path keyboard) (ucast IFCHR OR 0x100) (d_dev d) s;
     d \<leftarrow> device_find DEV_TTY 0 s;
     (_, s) \<leftarrow> sys_mknod (dev_path tty) (ucast IFCHR OR 0x180) (d_dev d) s;
     s \<leftarrow> mknods (DEVICE_NR + 1) DEV_IDE_DISK 0 (ucast IFBLK OR 0x180) s;
     s \<leftarrow> mknods (DEVICE_NR + 1) DEV_IDE_PART 0 (ucast IFBLK OR 0x180) s;
     s \<leftarrow> mknods (DEVICE_NR + 1) DEV_RAMDISK 1 (ucast IFBLK OR 0x180) s;
     s \<leftarrow> mknods (DEVICE_NR + 1) DEV_FLOPPY 0 (ucast IFBLK OR 0x180) s;
     s \<leftarrow> mknods (DEVICE_NR + 1) DEV_SERIAL 0 (ucast IFCHR OR 0x180) s;
     s \<leftarrow> mknods (DEVICE_NR + 1) DEV_SB16 0 (ucast IFCHR OR 0x80) s;
     (_, s) \<leftarrow> sys_link (dev_path tty) (dev_path stdout) s;
     (_, s) \<leftarrow> sys_link (dev_path tty) (dev_path stderr) s;
     (_, s) \<leftarrow> sys_link (dev_path tty) (dev_path stdin) s;
     s \<leftarrow> std_file 0 stdin O_RDONLY s;
     s \<leftarrow> std_file 1 stdout O_WRONLY s;
     std_file 2 stderr O_WRONLY s }"

end
