(* ===== verification/Fsview.thy ===== *)
theory Fsview
  imports Fs Ramcache
begin

section \<open>What the file system does with its blocks\<close>

text \<open>
  To the file system the buffer cache is two maps: \<open>view\<close>, the contents of every block, and \<open>held\<close>,
  which buffers are in use, for which block and how often. The lemmas here say what each operation of
  the cache does to them, and then what \<open>bmap\<close>, \<open>inode_read\<close> and \<open>inode_write\<close> do in terms of them. They
  are proved once for any disk that keeps what is written to it (the locale \<open>fs_disk\<close>) and used for the
  RAM disks.
\<close>

definition view where
  "view ok sec s d k = (if ok (devices s) (hw s) d k then block sec s d k else [])"

definition held :: "('d, 'z) bstate_scheme \<Rightarrow> nat \<Rightarrow> (int \<times> u32 \<times> int) option" where
  "held s j = (if j \<in> pins s then Some (bf_dev (buffers s ! j), bf_block (buffers s ! j), bf_count (buffers s ! j)) else None)"

definition good where
  "good ok sec s \<longleftrightarrow> cache_inv ok sec s \<and> length (buffers s) \<le> MAX_BUFFERS"

text \<open>\<open>s'\<close> follows on \<open>s\<close> with these buffers in use and these contents; \<open>X\<close> are buffers changed without being
  marked for writing.\<close>

definition leads where
  "leads ok sec X s H V s' \<longleftrightarrow> good ok sec s' \<and> held s' = H \<and> view ok sec s' = V
     \<and> ok (devices s') (hw s') = ok (devices s) (hw s) \<and> rest_same s s' \<and> stale sec s' \<subseteq> X \<union> stale sec s"

definition times_held :: "(int \<times> u32 \<times> int) option \<Rightarrow> int" where
  "times_held h = (case h of Some (d, k, c) \<Rightarrow> c | None \<Rightarrow> 0)"

definition dirty :: "('d, 'z) bstate_scheme \<Rightarrow> nat \<Rightarrow> bool" where
  "dirty s j \<longleftrightarrow> j < length (buffers s) \<and> bf_dirty (buffers s ! j)"

lemma dom_held: "dom (held s) = pins s"
  by (auto simp: held_def split: if_splits)

lemma held_SomeD:
  assumes "held s b = Some (d, k, c)"
  shows "b < length (buffers s)" "bf_dev (buffers s ! b) = d" "bf_block (buffers s ! b) = k" "bf_count (buffers s ! b) = c" "0 < c" "b \<in> pins s"
  using assms by (auto simp: held_def pins_def split: if_splits)

lemma leads_trans:
  assumes "leads ok sec X s H V t" "leads ok sec Y t H' V' u"
  shows "leads ok sec (X \<union> Y) s H' V' u"
  using assms by (auto simp: leads_def intro: rest_same_trans)

lemma leads_refl: "good ok sec s \<Longrightarrow> leads ok sec X s (held s) (view ok sec s) s"
  by (simp add: leads_def)

lemma leads_mono: "leads ok sec X s H V t \<Longrightarrow> X \<subseteq> Y \<Longrightarrow> leads ok sec Y s H V t"
  by (auto simp: leads_def)

lemma held_inj:
  assumes "good ok sec s" "held s b = Some (d, k, c)" "held s b' = Some (d, k, c')"
  shows "b = b'"
  using cache_butD(8) [of ok sec "{}" s b b'] assms held_SomeD [OF assms(2)] held_SomeD [OF assms(3)] by (simp add: good_def)

text \<open>A buffer in use shows its block.\<close>

lemma held_data:
  assumes "good ok sec s" "held s b = Some (d, k, c)"
  shows "data_of b s = Some (view ok sec s d k)" "length (view ok sec s d k) = BLOCK_SIZE" "ok (devices s) (hw s) d k"
proof -
  note h = held_SomeD [OF assms(2)]
  have c: "cache_inv ok sec s" using assms(1) by (simp add: good_def)
  have b: "buf_ok ok sec s b (buffers s ! b)" using cache_butD(7) [OF c h(1)] by simp
  have "buf_of d k s = Some b" by (rule buf_of_I [OF c h(1-3)])
  then have "block sec s d k = bf_data (buffers s ! b)" by (simp add: block_def)
  then show "data_of b s = Some (view ok sec s d k)" "length (view ok sec s d k) = BLOCK_SIZE" "ok (devices s) (hw s) d k"
    using b h by (simp_all add: data_of_def view_def buf_ok_def)
qed

context disk
begin

lemma bread_leads:
  fixes s :: "('d, 'z) bstate_scheme"
  assumes "good ok sec s" "ok (devices s) (hw s) dev blk" "dev \<noteq> EOF" "card (dom (held s)) < MAX_BUFFERS"
  obtains b s' where "bread dev blk s = Some (b, s')"
    "leads ok sec {} s ((held s)(b \<mapsto> (dev, blk, times_held (held s b) + 1))) (view ok sec s) s'"
    "\<And>d k c. held s b = Some (d, k, c) \<Longrightarrow> d = dev \<and> k = blk" "\<And>j. j \<noteq> b \<Longrightarrow> j \<in> pins s \<Longrightarrow> dirty s' j = dirty s j"
proof -
  have c: "cache_inv ok sec s" and mx: "length (buffers s) \<le> MAX_BUFFERS" using assms(1) by (simp_all add: good_def)
  have r: "room s" by (rule room_pins [OF c mx]) (use assms(4) dom_held [of s] in simp)
  obtain b s' where b: "bread dev blk s = Some (b, s')" "took dev blk s b s'"
    using bread_ok [OF c assms(2) _ assms(3)] r by blast
  note t = b(2) [unfolded took_def]
  have bo: "buf_of dev blk s' = Some b" using t by blast
  note bb = buf_of_Some [OF bo]
  have pin: "pins s' = insert b (pins s)" using t by blast
  have old: "buffers s' ! j = (if j = b then (buffers s ! j)\<lparr>bf_count := bf_count (buffers s ! j) + 1\<rparr> else buffers s ! j)" if "j \<in> pins s" for j
    using t that by (simp add: pins_def)
  have blkb: "bf_dev (buffers s ! b) = dev \<and> bf_block (buffers s ! b) = blk" if "b \<in> pins s"
    using old [OF that] bb by simp
  have cnt: "bf_count (buffers s' ! b) = times_held (held s b) + 1"
  proof (cases "b \<in> pins s")
    case True
    then show ?thesis using old [OF True] by (simp add: held_def times_held_def)
  next
    case False
    have "(case buf_of dev blk s of Some i \<Rightarrow> bf_count (buffers s ! i) | None \<Rightarrow> 0) = 0"
    proof (cases "buf_of dev blk s")
      case (Some i)
      note i = buf_of_Some [OF Some]
      have "i \<notin> pins s"
      proof
        assume p: "i \<in> pins s"
        then have "buf_of dev blk s' = Some i"
          using t i old [OF p] by (intro buf_of_I [of ok sec]) (auto split: if_splits)
        then show False using bo p False by simp
      qed
      then have "\<not> 0 < bf_count (buffers s ! i)" using i by (simp add: pins_def)
      moreover have "0 \<le> bf_count (buffers s ! i)" using cache_butD(7) [OF c, of i] i by (simp add: buf_ok_def)
      ultimately show ?thesis using Some by simp
    qed simp
    then show ?thesis using t False by (simp add: held_def times_held_def)
  qed
  have H: "held s' = (held s)(b \<mapsto> (dev, blk, times_held (held s b) + 1))"
  proof
    fix j
    show "held s' j = ((held s)(b \<mapsto> (dev, blk, times_held (held s b) + 1))) j"
      using pin old [of j] bb cnt by (auto simp: held_def)
  qed
  have "ok (devices s') (hw s') = ok (devices s) (hw s)" using t by blast
  moreover have "view ok sec s' = view ok sec s"
    using t by (auto simp: view_def fun_eq_iff)
  ultimately have "leads ok sec {} s ((held s)(b \<mapsto> (dev, blk, times_held (held s b) + 1))) (view ok sec s) s'"
    using t mx H by (simp add: leads_def good_def)
  moreover have "d = dev \<and> k = blk" if "held s b = Some (d, k, c)" for d k c
    using that blkb by (auto simp: held_def split: if_splits)
  moreover have "dirty s' j = dirty s j" if "j \<noteq> b" "j \<in> pins s" for j
    using old [OF that(2)] that t by (auto simp: dirty_def pins_def)
  ultimately show ?thesis using b(1) that by blast
qed

lemma brelse_leads:
  fixes s :: "('d, 'z) bstate_scheme"
  assumes "good ok sec s" "held s b = Some (d, k, c)" "b \<in> stale sec s \<Longrightarrow> c \<noteq> 1"
  obtains s' where "brelse (Some b) s = Some s'"
    "leads ok sec {} s ((held s)(b := if c = 1 then None else Some (d, k, c - 1))) (view ok sec s) s'"
    "\<And>j. j \<noteq> b \<Longrightarrow> dirty s' j = dirty s j" "data_of b s' = data_of b s"
proof -
  have ci: "cache_inv ok sec s" and mx: "length (buffers s) \<le> MAX_BUFFERS" using assms(1) by (simp_all add: good_def)
  note h = held_SomeD [OF assms(2)]
  obtain s' where s': "brelse (Some b) s = Some s'"
    "changed b ((buffers s ! b)\<lparr>bf_dirty := False, bf_count := bf_count (buffers s ! b) - 1\<rparr>) s s'"
    "\<forall>d k. ok (devices s) (hw s) d k \<longrightarrow> block sec s' d k = block sec s d k" "stale sec s' = stale sec s"
    using brelse_ok [OF ci h(1)] h(4,5) assms(3) by auto
  note ch = s'(2) [unfolded changed_def]
  have "held s' = (held s)(b := if c = 1 then None else Some (d, k, c - 1))"
  proof
    fix j
    show "held s' j = ((held s)(b := if c = 1 then None else Some (d, k, c - 1))) j"
      using ch h by (cases "j = b") (auto simp: held_def pins_def)
  qed
  moreover have "view ok sec s' = view ok sec s" using s'(3) ch by (auto simp: view_def fun_eq_iff)
  moreover have "length (buffers s') = length (buffers s)" using ch by simp
  ultimately have "leads ok sec {} s ((held s)(b := if c = 1 then None else Some (d, k, c - 1))) (view ok sec s) s'"
    using ch mx s'(4) by (simp add: leads_def good_def)
  moreover have "dirty s' j = dirty s j" if "j \<noteq> b" for j using ch that by (simp add: dirty_def)
  moreover have "data_of b s' = data_of b s" using ch h by (simp add: data_of_def)
  ultimately show ?thesis using s'(1) that by blast
qed

lemma bwrite_leads:
  fixes s :: "('d, 'z) bstate_scheme"
  assumes "good ok sec s" "held s b = Some (d, k, c)"
  obtains s' where "bwrite b s = Some s'" "leads ok sec {} s (held s) (view ok sec s) s'" "\<And>j. j \<noteq> b \<Longrightarrow> dirty s' j = dirty s j"
proof -
  have ci: "cache_inv ok sec s" and mx: "length (buffers s) \<le> MAX_BUFFERS" using assms(1) by (simp_all add: good_def)
  note h = held_SomeD [OF assms(2)]
  obtain s' where s': "bwrite b s = Some s'" "changed b ((buffers s ! b)\<lparr>bf_dirty := False\<rparr>) s s'"
    "\<forall>d k. ok (devices s) (hw s) d k \<longrightarrow> block sec s' d k = block sec s d k" "stale sec s' = stale sec s"
    using bwrite_ok [OF ci h(1)] by blast
  note ch = s'(2) [unfolded changed_def]
  have "held s' = held s"
  proof
    fix j
    show "held s' j = held s j" using ch h by (cases "j = b") (auto simp: held_def pins_def)
  qed
  moreover have "view ok sec s' = view ok sec s" using s'(3) ch by (auto simp: view_def fun_eq_iff)
  moreover have "length (buffers s') = length (buffers s)" using ch by simp
  ultimately have "leads ok sec {} s (held s) (view ok sec s) s'"
    using ch mx s'(4) by (simp add: leads_def good_def)
  moreover have "dirty s' j = dirty s j" if "j \<noteq> b" for j using ch that by (simp add: dirty_def)
  ultimately show ?thesis using s'(1) that by blast
qed

text \<open>Changing the contents or the mark of a buffer in use.\<close>

lemma upd_buf_leads:
  fixes s :: "('d, 'z) bstate_scheme"
  assumes "good ok sec s" "held s b = Some (d, k, c)" "length x = BLOCK_SIZE"
    and "X = (if v then {} else {b})"
  shows "leads ok sec X s (held s) ((view ok sec s)(d := (view ok sec s d)(k := x)))
    (s\<lparr>buffers := (buffers s)[b := (buffers s ! b)\<lparr>bf_data := x, bf_dirty := v\<rparr>]\<rparr>)" (is "leads ok sec X s ?H ?V ?s")
proof -
  have ci: "cache_inv ok sec s" and mx: "length (buffers s) \<le> MAX_BUFFERS" using assms(1) by (simp_all add: good_def)
  note h = held_SomeD [OF assms(2)]
  have o: "ok (devices s) (hw s) d k" by (rule held_data(3) [OF assms(1,2)])
  note ch = modify_ok [OF ci h(1) _ assms(3), where v = v, unfolded changed_def]
  have cnt: "0 < bf_count (buffers s ! b)" using h by simp
  have "held ?s = ?H"
  proof
    fix j
    show "held ?s j = ?H j" using h by (cases "j = b") (auto simp: held_def pins_def)
  qed
  moreover have "view ok sec ?s = ?V"
    using modify_block [OF ci h(1), where d = x and v = v] h o by (auto simp: view_def fun_eq_iff)
  moreover have "stale sec ?s \<subseteq> X \<union> stale sec s"
  proof
    fix j assume j: "j \<in> stale sec ?s"
    show "j \<in> X \<union> stale sec s"
    proof (cases "j = b")
      case True
      then show ?thesis using j assms(4) h(1) by (auto simp: stale_def)
    next
      case False
      then show ?thesis using j by (simp add: stale_def pins_def)
    qed
  qed
  ultimately show ?thesis using ch cnt mx by (simp add: leads_def good_def)
qed

lemma upd_data_leads:
  fixes s :: "('d, 'z) bstate_scheme"
  assumes "good ok sec s" "held s b = Some (d, k, c)" "f (view ok sec s d k) = Some x" "length x = BLOCK_SIZE"
  obtains s' where "upd_data b f s = Some s'"
    "leads ok sec (if dirty s b then {} else {b}) s (held s) ((view ok sec s)(d := (view ok sec s d)(k := x))) s'" "dirty s' = dirty s"
proof -
  note h = held_SomeD [OF assms(2)]
  let ?b = "buffers s ! b"
  let ?s = "s\<lparr>buffers := (buffers s)[b := ?b\<lparr>bf_data := x, bf_dirty := bf_dirty ?b\<rparr>]\<rparr>"
  have "upd_data b f s = Some ?s"
    using held_data(1) [OF assms(1,2)] assms(3) h by (simp add: upd_data_def upd_buf_in)
  moreover have "dirty ?s = dirty s"
  proof
    fix j show "dirty ?s j = dirty s j" using h by (cases "j = b") (simp_all add: dirty_def)
  qed
  ultimately show ?thesis
    using upd_buf_leads [OF assms(1,2,4), where v = "bf_dirty ?b"] h(1) that by (simp add: dirty_def)
qed

lemma view_same: "(view ok sec s)(d := (view ok sec s d)(k := view ok sec s d k)) = view ok sec s"
  by (simp add: fun_eq_iff)

lemma mark_leads:
  fixes s :: "('d, 'z) bstate_scheme"
  assumes "good ok sec s" "held s b = Some (d, k, c)"
  obtains s' where "mark b s = Some s'" "leads ok sec {} s (held s) (view ok sec s) s'" "dirty s' = (\<lambda>j. j = b \<or> dirty s j)"
    "b \<notin> stale sec s'"
proof -
  note h = held_SomeD [OF assms(2)]
  let ?b = "buffers s ! b"
  let ?s = "s\<lparr>buffers := (buffers s)[b := ?b\<lparr>bf_data := bf_data ?b, bf_dirty := True\<rparr>]\<rparr>"
  have d: "bf_data ?b = view ok sec s d k" using held_data(1) [OF assms] h by (simp add: data_of_def)
  have "mark b s = Some ?s" using h by (simp add: mark_def upd_buf_in)
  moreover have "dirty ?s = (\<lambda>j. j = b \<or> dirty s j)"
  proof
    fix j show "dirty ?s j = (j = b \<or> dirty s j)" using h by (cases "j = b") (simp_all add: dirty_def)
  qed
  moreover have "leads ok sec {} s (held s) (view ok sec s) ?s"
    using upd_buf_leads [OF assms held_data(2) [OF assms], where v = True] unfolding view_same d by simp
  moreover have "b \<notin> stale sec ?s" using h by (simp add: stale_def)
  ultimately show ?thesis using that by blast
qed

text \<open>Changed and then marked, a buffer is not stale.\<close>

lemma upd_mark_leads:
  fixes s :: "('d, 'z) bstate_scheme"
  assumes "good ok sec s" "held s b = Some (d, k, c)" "f (view ok sec s d k) = Some x" "length x = BLOCK_SIZE"
  obtains s1 s' where "upd_data b f s = Some s1" "mark b s1 = Some s'" "rest_same s s1"
    "leads ok sec {} s (held s) ((view ok sec s)(d := (view ok sec s d)(k := x))) s'" "dirty s' = (\<lambda>j. j = b \<or> dirty s j)"
proof -
  obtain s1 where s1: "upd_data b f s = Some s1" "dirty s1 = dirty s"
    "leads ok sec (if dirty s b then {} else {b}) s (held s) ((view ok sec s)(d := (view ok sec s d)(k := x))) s1"
    using upd_data_leads [where f = f, OF assms] by blast
  have l: "leads ok sec {b} s (held s) ((view ok sec s)(d := (view ok sec s d)(k := x))) s1"
    by (rule leads_mono [OF s1(3)]) simp
  then have g: "good ok sec s1" "held s1 b = Some (d, k, c)" "held s1 = held s"
    "view ok sec s1 = (view ok sec s)(d := (view ok sec s d)(k := x))" "rest_same s s1"
    using assms(2) by (simp_all add: leads_def)
  obtain s' where s': "mark b s1 = Some s'" "leads ok sec {} s1 (held s1) (view ok sec s1) s'" "dirty s' = (\<lambda>j. j = b \<or> dirty s1 j)"
    "b \<notin> stale sec s'"
    using mark_leads [OF g(1,2)] by blast
  have "leads ok sec ({b} \<union> {}) s (held s) ((view ok sec s)(d := (view ok sec s d)(k := x))) s'"
    using leads_trans [OF l s'(2) [unfolded g(3,4)]] .
  then have "leads ok sec {} s (held s) ((view ok sec s)(d := (view ok sec s d)(k := x))) s'"
    using s'(4) by (auto simp: leads_def)
  then show ?thesis using s1(1,2) s'(1,3) g(5) that by simp
qed

text \<open>Another reference to a buffer in use.\<close>

lemma count_leads:
  fixes s :: "('d, 'z) bstate_scheme"
  assumes "good ok sec s" "held s b = Some (d, k, c)"
  obtains s' where "upd_buf b (\<lambda>b. b\<lparr>bf_count := bf_count b + 1\<rparr>) s = Some s'"
    "leads ok sec {} s ((held s)(b \<mapsto> (d, k, c + 1))) (view ok sec s) s'" "dirty s' = dirty s"
proof -
  note h = held_SomeD [OF assms(2)]
  have ci: "cache_inv ok sec s" and mx: "length (buffers s) \<le> MAX_BUFFERS" using assms(1) by (simp_all add: good_def)
  let ?b = "(buffers s ! b)\<lparr>bf_count := bf_count (buffers s ! b) + 1\<rparr>"
  let ?s = "s\<lparr>buffers := (buffers s)[b := ?b]\<rparr>"
  have "buf_ok ok sec s b (buffers s ! b)" using cache_butD(7) [OF ci h(1)] by simp
  then have "buf_ok ok sec ?s b ?b" using h by (auto simp: buf_ok_def hash_of_def)
  then have c: "cache_inv ok sec ?s"
    by (intro cache_inv_update [OF ci h(1), where b' = ?b]) (use cache_butD(1) [OF ci] in simp_all)
  have at: "bf_dev (buffers ?s ! j) = bf_dev (buffers s ! j)" "bf_block (buffers ?s ! j) = bf_block (buffers s ! j)"
    "bf_data (buffers ?s ! j) = bf_data (buffers s ! j)" "bf_dirty (buffers ?s ! j) = bf_dirty (buffers s ! j)" for j
    using h(1) by (cases "j = b"; simp)+
  have "held ?s = (held s)(b \<mapsto> (d, k, c + 1))"
  proof
    fix j
    show "held ?s j = ((held s)(b \<mapsto> (d, k, c + 1))) j" using h by (cases "j = b") (auto simp: held_def pins_def)
  qed
  moreover have "view ok sec ?s = view ok sec s"
  proof -
    have "block sec ?s d k = block sec s d k" for d k
      by (rule block_cong) (use at in simp_all)
    then show ?thesis by (auto simp: view_def fun_eq_iff)
  qed
  moreover have "stale sec ?s \<subseteq> stale sec s"
  proof
    fix j assume "j \<in> stale sec ?s"
    then show "j \<in> stale sec s" using h at by (cases "j = b") (auto simp: stale_def pins_def)
  qed
  moreover have "dirty ?s = dirty s" using at by (auto simp: dirty_def fun_eq_iff)
  moreover have "upd_buf b (\<lambda>b. b\<lparr>bf_count := bf_count b + 1\<rparr>) s = Some ?s" using h(1) by (simp add: upd_buf_in)
  moreover have "rest_same s ?s" by simp
  ultimately show ?thesis using c mx that by (simp add: leads_def good_def)
qed

end

subsection \<open>Numbers in blocks\<close>

definition u16_at :: "bytes \<Rightarrow> nat \<Rightarrow> u16" where
  "u16_at bs i = ucast (bs ! i) OR push_bit 8 (ucast (bs ! (i + 1)))"

definition u32_at :: "bytes \<Rightarrow> nat \<Rightarrow> u32" where
  "u32_at bs i = ucast (u16_at bs i) OR push_bit 16 (ucast (u16_at bs (i + 2)))"

definition set16 :: "bytes \<Rightarrow> nat \<Rightarrow> u16 \<Rightarrow> bytes" where
  "set16 bs i v = bs[i := ucast v, i + 1 := ucast (drop_bit 8 v)]"

definition set32 :: "bytes \<Rightarrow> nat \<Rightarrow> u32 \<Rightarrow> bytes" where
  "set32 bs i v = set16 (set16 bs i (ucast v)) (i + 2) (ucast (drop_bit 16 v))"

lemma length_set16 [simp]: "length (set16 bs i v) = length bs"
  by (simp add: set16_def)

lemma length_set32 [simp]: "length (set32 bs i v) = length bs"
  by (simp add: set32_def)

lemma rd16_at: "i + 1 < length bs \<Longrightarrow> rd16 bs i = Some (u16_at bs i)"
  by (simp add: rd16_def u16_at_def)

lemma rd32_at: "i + 3 < length bs \<Longrightarrow> rd32 bs i = Some (u32_at bs i)"
  by (simp add: rd32_def u32_at_def rd16_at)

lemma wr16_at: "i + 1 < length bs \<Longrightarrow> wr16 bs i v = Some (set16 bs i v)"
  by (simp add: wr16_def set16_def)

lemma wr32_at: "i + 3 < length bs \<Longrightarrow> wr32 bs i v = Some (set32 bs i v)"
  by (simp add: wr32_def set32_def wr16_at)

lemma u16_bytes: "(ucast (ucast v :: u8) OR push_bit 8 (ucast (ucast (drop_bit 8 v) :: u8)) :: u16) = v"
  by (rule bit_word_eqI) (auto simp: bit_simps less_diff_conv2)

lemma u32_halves: "(ucast (ucast v :: u16) OR push_bit 16 (ucast (ucast (drop_bit 16 v) :: u16)) :: u32) = v"
  by (rule bit_word_eqI) (auto simp: bit_simps less_diff_conv2)

lemma u16_at_set16: "i + 1 < length bs \<Longrightarrow> u16_at (set16 bs i v) i = v"
  using u16_bytes [of v] by (simp add: u16_at_def set16_def)

lemma u16_at_set16_other: "j + 1 < i \<or> i + 1 < j \<Longrightarrow> u16_at (set16 bs i v) j = u16_at bs j"
  by (auto simp: u16_at_def set16_def)

lemma nth_set16_other: "j \<noteq> i \<Longrightarrow> j \<noteq> i + 1 \<Longrightarrow> set16 bs i v ! j = bs ! j"
  by (simp add: set16_def)

lemma u32_at_set32: "i + 3 < length bs \<Longrightarrow> u32_at (set32 bs i v) i = v"
  using u32_halves [of v] by (simp add: u32_at_def set32_def u16_at_set16 u16_at_set16_other)

lemma u16_at_set32_other: "j + 1 < i \<or> i + 3 < j \<Longrightarrow> u16_at (set32 bs i v) j = u16_at bs j"
  by (auto simp: set32_def u16_at_set16_other)

lemma u32_at_set32_other: "j + 3 < i \<or> i + 3 < j \<Longrightarrow> u32_at (set32 bs i v) j = u32_at bs j"
  by (auto simp: u32_at_def u16_at_set32_other)

lemma nth_set32_other: "j < i \<or> i + 3 < j \<Longrightarrow> set32 bs i v ! j = bs ! j"
  by (auto simp: set32_def nth_set16_other)

subsection \<open>The blocks of a file\<close>

declare bmap_loop.simps [simp del]

text \<open>The number of block \<open>b\<close> of the file whose array of block numbers is at \<open>base\<close> in block \<open>kb\<close>, 0 when it has none.\<close>

definition fblock :: "(u32 \<Rightarrow> bytes) \<Rightarrow> u32 \<Rightarrow> nat \<Rightarrow> nat \<Rightarrow> u16" where
  "fblock V kb base b =
     (if b < 7 then u16_at (V kb) (base + 2 * b)
      else if b < 519 then
        (let z = u16_at (V kb) (base + 14) in if z = 0 then 0 else u16_at (V (ucast z)) (2 * (b - 7)))
      else
        (let z = u16_at (V kb) (base + 16) in if z = 0 then 0 else
         let y = u16_at (V (ucast z)) (2 * ((b - 519) div 512)) in if y = 0 then 0 else u16_at (V (ucast y)) (2 * ((b - 519) mod 512))))"

text \<open>The blocks of block numbers on the way.\<close>

definition index_blocks :: "(u32 \<Rightarrow> bytes) \<Rightarrow> u32 \<Rightarrow> nat \<Rightarrow> nat \<Rightarrow> u16 set" where
  "index_blocks V kb base b =
     (if b < 7 then {}
      else if b < 519 then {u16_at (V kb) (base + 14)}
      else let z = u16_at (V kb) (base + 16) in if z = 0 then {0} else {z, u16_at (V (ucast z)) (2 * ((b - 519) div 512))})"

lemma rest_same_fs:
  fixes s s' :: "('d, 'y) fstate_scheme"
  assumes "rest_same s s'"
  shows "inode_table s' = inode_table s" "super_table s' = super_table s" "file_table s' = file_table s"
    "root s' = root s" "me s' = me s" "now s' = now s"
  using arg_cong [OF assms [unfolded rest_same_def], of inode_table] arg_cong [OF assms [unfolded rest_same_def], of super_table]
    arg_cong [OF assms [unfolded rest_same_def], of file_table] arg_cong [OF assms [unfolded rest_same_def], of root]
    arg_cong [OF assms [unfolded rest_same_def], of me] arg_cong [OF assms [unfolded rest_same_def], of now]
  by simp_all

text \<open>The tables of the file system are not part of the cache.\<close>

lemma table_upd_simps [simp]:
  fixes s :: "('d, 'y) fstate_scheme"
  shows "good ok sec (s\<lparr>inode_table := t\<rparr>) = good ok sec s" "held (s\<lparr>inode_table := t\<rparr>) = held s"
    "view ok sec (s\<lparr>inode_table := t\<rparr>) = view ok sec s" "stale sec (s\<lparr>inode_table := t\<rparr>) = stale sec s"
    "dirty (s\<lparr>inode_table := t\<rparr>) = dirty s"
  by (simp_all add: good_def cache_but_def buf_ok_def buf_hole_def held_def pins_def view_def block_def buf_of_def stale_def dirty_def fun_eq_iff
      cong: option.case_cong)

text \<open>An inode in memory, whose descriptor is in block \<open>kb\<close>, and a block of its file that can be reached.\<close>

definition open_inode where
  "open_inode ok sec i n kb s \<longleftrightarrow> good ok sec s \<and> ino i s = Some n \<and> (\<exists>c. held s (i_buf n) = Some (i_dev n, kb, c))
     \<and> i_desc n + 32 \<le> 1024 \<and> i_dev n \<noteq> EOF \<and> card (dom (held s)) < MAX_BUFFERS"

definition mapped_block :: "(u32 \<Rightarrow> bool) \<Rightarrow> (u32 \<Rightarrow> bytes) \<Rightarrow> u32 \<Rightarrow> nat \<Rightarrow> nat \<Rightarrow> bool" where
  "mapped_block okb V kb base b \<longleftrightarrow> fblock V kb base b \<noteq> 0 \<and> okb (ucast (fblock V kb base b))
     \<and> (\<forall>k\<in>index_blocks V kb base b. k \<noteq> 0 \<longrightarrow> okb (ucast k))"

text \<open>Byte \<open>p\<close> of a file.\<close>

definition fbyte :: "(u32 \<Rightarrow> bytes) \<Rightarrow> u32 \<Rightarrow> nat \<Rightarrow> nat \<Rightarrow> u8" where
  "fbyte V kb base p = V (ucast (fblock V kb base (p div 1024))) ! (p mod 1024)"

lemma open_inode_leads:
  fixes s s' :: "('d, 'y) fstate_scheme"
  assumes "open_inode ok sec i n kb s" "leads ok sec X s (held s) V s'"
  shows "open_inode ok sec i n kb s'"
  using assms rest_same_fs(1) [of s s'] by (auto simp: open_inode_def leads_def ino_def)

lemma sdiv_of_nonneg:
  assumes "0 \<le> (x :: int)" "0 < y"
  shows "x sdiv y = x div y" "x smod y = x mod y"
  using assms by (cases "x = 0"; simp add: signed_divide_int_def signed_modulo_int_def minus_div_mult_eq_mod)+

lemma unat_blk_of:
  assumes "unat offset < 2147483648"
  shows "unat (blk_of offset) = unat offset div 1024" "unat (start_of offset) = unat offset mod 1024"
proof -
  have s: "sint offset = int (unat offset)" using assms by (rule sint_unat32)
  have "sint offset sdiv 1024 = int (unat offset div 1024)" "sint offset smod 1024 = int (unat offset mod 1024)"
    unfolding s by (simp_all add: sdiv_of_nonneg zdiv_int zmod_int del: of_nat_unat)
  then have "blk_of offset = of_nat (unat offset div 1024)" "start_of offset = of_nat (unat offset mod 1024)"
    by (simp_all add: blk_of_def start_of_def)
  moreover have "unat (of_nat (unat offset div 1024) :: u32) = unat offset div 1024" "unat (of_nat (unat offset mod 1024) :: u32) = unat offset mod 1024"
    using assms by (auto intro!: unat_of_nat32)
  ultimately show "unat (blk_of offset) = unat offset div 1024" "unat (start_of offset) = unat offset mod 1024" by simp_all
qed

text \<open>The bytes one pass of the loops of \<open>inode_read\<close> and \<open>inode_write\<close> handles.\<close>

definition chunk :: "u32 \<Rightarrow> u32 \<Rightarrow> nat" where
  "chunk offset left = min (1024 - unat offset mod 1024) (unat left)"

lemma unat_chunk:
  assumes "unat offset < 2147483648"
  shows "unat (min (1024 - start_of offset) left) = chunk offset left"
proof -
  have "unat (1024 - start_of offset) = 1024 - unat offset mod 1024"
    using unat_blk_of(2) [OF assms] by (subst unat_sub) (simp_all add: word_le_nat_alt)
  then show ?thesis by (simp add: chunk_def min_def word_le_nat_alt)
qed

lemma chunk_bounds:
  "chunk offset left \<le> unat left" "0 < unat left \<Longrightarrow> 0 < chunk offset left" "unat offset mod 1024 + chunk offset left \<le> 1024"
  using mod_less_divisor [of 1024 "unat offset"] by (auto simp: chunk_def min_def)

lemma chunk_same_block:
  assumes "p < chunk offset left"
  shows "(unat offset + p) div 1024 = unat offset div 1024" "(unat offset + p) mod 1024 = unat offset mod 1024 + p"
proof -
  define q r where "q = unat offset div 1024" and "r = unat offset mod 1024"
  have l: "r + p < 1024" using assms chunk_bounds(3) [of offset left] by (simp add: r_def)
  have e: "unat offset + p = (r + p) + q * 1024" by (simp add: q_def r_def)
  have "((r + p) + q * 1024) div 1024 = q" "((r + p) + q * 1024) mod 1024 = r + p" using l by simp_all
  then have "(unat offset + p) div 1024 = q" "(unat offset + p) mod 1024 = r + p" by (simp_all only: e)
  then show "(unat offset + p) div 1024 = unat offset div 1024" "(unat offset + p) mod 1024 = unat offset mod 1024 + p"
    by (simp_all add: q_def r_def)
qed

lemma chunk_bytes:
  assumes "length (V (ucast (fblock V kb base (unat offset div 1024)))) = 1024"
  shows "take (chunk offset left) (drop (unat offset mod 1024) (V (ucast (fblock V kb base (unat offset div 1024)))))
    = map (fbyte V kb base) [unat offset..<unat offset + chunk offset left]"
proof (rule nth_equalityI)
  show "length (take (chunk offset left) (drop (unat offset mod 1024) (V (ucast (fblock V kb base (unat offset div 1024))))))
      = length (map (fbyte V kb base) [unat offset..<unat offset + chunk offset left])"
    using chunk_bounds(3) [of offset left] assms by simp
next
  fix p assume "p < length (take (chunk offset left) (drop (unat offset mod 1024) (V (ucast (fblock V kb base (unat offset div 1024))))))"
  then have p: "p < chunk offset left" by simp
  then show "take (chunk offset left) (drop (unat offset mod 1024) (V (ucast (fblock V kb base (unat offset div 1024))))) ! p
      = map (fbyte V kb base) [unat offset..<unat offset + chunk offset left] ! p"
    using chunk_same_block [OF p] chunk_bounds(3) [of offset left] assms by (simp add: fbyte_def)
qed

lemma chunk_offset:
  assumes "unat offset + unat left < 2147483648" "w = min (1024 - start_of offset) left"
  shows "unat (offset + w) = unat offset + chunk offset left" "unat (left - w) = unat left - chunk offset left"
    "(offset + w) + (left - w) = offset + left" "unat w = chunk offset left"
proof -
  have w: "unat w = chunk offset left" using unat_chunk [of offset left] assms by simp
  then show "unat w = chunk offset left" .
  show "unat (offset + w) = unat offset + chunk offset left"
    using w chunk_bounds(1) [of offset left] assms(1) by (subst unat_plus_bound) simp_all
  show "unat (left - w) = unat left - chunk offset left"
    using w chunk_bounds(1) [of offset left] by (subst unat_sub) (simp_all add: word_le_nat_alt)
  show "(offset + w) + (left - w) = offset + left" by simp
qed

text \<open>A file whose first \<open>N\<close> blocks have numbers, all different from each other, from the blocks of numbers and
  from the block of the inode.\<close>

definition file_ok where
  "file_ok okb V kb base N \<longleftrightarrow> (\<forall>b<N. mapped_block okb V kb base b \<and> ucast (fblock V kb base b) \<noteq> kb
     \<and> (\<forall>k\<in>index_blocks V kb base b. ucast k \<noteq> kb \<and> (\<forall>b'<N. fblock V kb base b' \<noteq> k)))
     \<and> inj_on (fblock V kb base) {..<N}"

lemma ucast_u16_inj: "(ucast (a :: u16) :: u32) = ucast b \<longleftrightarrow> a = b"
proof
  assume e: "(ucast a :: u32) = ucast b"
  have "(ucast (ucast x :: u32) :: u16) = x" for x :: u16 by (rule bit_word_eqI) (simp add: bit_simps)
  then show "a = b" using e by metis
qed simp

lemma fblock_cong:
  assumes "\<And>j. j < 9 \<Longrightarrow> u16_at (V' kb) (base + 2 * j) = u16_at (V kb) (base + 2 * j)"
    and "\<And>k. k \<in> index_blocks V kb base b \<Longrightarrow> k \<noteq> 0 \<Longrightarrow> V' (ucast k) = V (ucast k)"
  shows "fblock V' kb base b = fblock V kb base b" "index_blocks V' kb base b = index_blocks V kb base b"
proof -
  have z: "u16_at (V' kb) (base + 14) = u16_at (V kb) (base + 14)" "u16_at (V' kb) (base + 16) = u16_at (V kb) (base + 16)"
    using assms(1) [of 7] assms(1) [of 8] by simp_all
  consider "b < 7" | "\<not> b < 7" "b < 519" | "\<not> b < 7" "\<not> b < 519" by blast
  then have "fblock V' kb base b = fblock V kb base b \<and> index_blocks V' kb base b = index_blocks V kb base b"
  proof cases
    case 1
    then show ?thesis using assms(1) [of b] by (simp add: fblock_def index_blocks_def)
  next
    case 2
    then show ?thesis using z assms(2) [of "u16_at (V kb) (base + 14)"] by (simp add: fblock_def index_blocks_def Let_def)
  next
    case 3
    define zi yi where "zi = u16_at (V kb) (base + 16)" and "yi = u16_at (V (ucast zi)) (2 * ((b - 519) div 512))"
    have ix: "index_blocks V kb base b = (if zi = 0 then {0} else {zi, yi})" using 3 by (simp add: index_blocks_def Let_def zi_def yi_def)
    have "zi \<noteq> 0 \<Longrightarrow> V' (ucast zi) = V (ucast zi)" "zi \<noteq> 0 \<Longrightarrow> yi \<noteq> 0 \<Longrightarrow> V' (ucast yi) = V (ucast yi)"
      using assms(2) ix by simp_all
    then show ?thesis using 3 z(2) by (simp add: fblock_def index_blocks_def Let_def zi_def yi_def)
  qed
  then show "fblock V' kb base b = fblock V kb base b" "index_blocks V' kb base b = index_blocks V kb base b" by simp_all
qed

text \<open>What a write of \<open>bs\<close> at \<open>off\<close> does to the blocks of the device.\<close>

definition wrote :: "nat \<Rightarrow> u32 \<Rightarrow> nat \<Rightarrow> nat \<Rightarrow> bytes \<Rightarrow> (u32 \<Rightarrow> bytes) \<Rightarrow> (u32 \<Rightarrow> bytes) \<Rightarrow> bool" where
  "wrote dsc kb N off bs V V' \<longleftrightarrow>
     V' kb = (if bs \<noteq> [] \<and> unat (u32_at (V kb) (dsc + ID_SIZE)) < off + length bs
       then set32 (V kb) (dsc + ID_SIZE) (of_nat (off + length bs)) else V kb)
   \<and> (\<forall>b<N. fblock V' kb (dsc + ID_ZONE) b = fblock V kb (dsc + ID_ZONE) b \<and> index_blocks V' kb (dsc + ID_ZONE) b = index_blocks V kb (dsc + ID_ZONE) b)
   \<and> (\<forall>p<N * 1024. fbyte V' kb (dsc + ID_ZONE) p = (if off \<le> p \<and> p < off + length bs then bs ! (p - off) else fbyte V kb (dsc + ID_ZONE) p))
   \<and> (\<forall>k. k \<noteq> kb \<longrightarrow> (\<forall>b<N. k \<noteq> ucast (fblock V kb (dsc + ID_ZONE) b)) \<longrightarrow> V' k = V k)"

lemma wrote_Nil: "wrote dsc kb N off [] V V"
  by (auto simp: wrote_def)

lemma file_ok_wrote:
  assumes "file_ok okb V kb (dsc + ID_ZONE) N" "wrote dsc kb N off bs V V'"
  shows "file_ok okb V' kb (dsc + ID_ZONE) N"
  using assms by (auto simp: file_ok_def wrote_def mapped_block_def inj_on_def)

lemma set32_twice: "set32 (set32 bs i v) i w = set32 bs i w"
  by (simp add: set32_def set16_def list_update_swap)

lemma wrote_append:
  assumes w1: "wrote dsc kb N off bs V V1" and w2: "wrote dsc kb N (off + length bs) cs V1 V2"
    and n: "bs \<noteq> []" "dsc + 32 \<le> length (V kb)" "off + length bs + length cs < 4294967296"
  shows "wrote dsc kb N off (bs @ cs) V V2"
proof -
  let ?B = "dsc + ID_ZONE"
  have sz: "unat (u32_at (V1 kb) (dsc + ID_SIZE)) = max (unat (u32_at (V kb) (dsc + ID_SIZE))) (off + length bs)"
  proof (cases "unat (u32_at (V kb) (dsc + ID_SIZE)) < off + length bs")
    case True
    then have "u32_at (V1 kb) (dsc + ID_SIZE) = of_nat (off + length bs)"
      using w1 n(1,2) by (simp add: wrote_def u32_at_set32 ID_SIZE_def del: of_nat_add)
    then show ?thesis using True n(3) by (simp add: unat_of_nat32 max_def del: of_nat_add)
  next
    case False
    then show ?thesis using w1 n(1) by (simp add: wrote_def max_def)
  qed
  have "V2 kb = (if bs @ cs \<noteq> [] \<and> unat (u32_at (V kb) (dsc + ID_SIZE)) < off + length (bs @ cs)
       then set32 (V kb) (dsc + ID_SIZE) (of_nat (off + length (bs @ cs))) else V kb)"
  proof (cases "cs = []")
    case True
    then show ?thesis using w1 w2 n(1) by (simp add: wrote_def)
  next
    case False
    then have V2: "V2 kb = (if max (unat (u32_at (V kb) (dsc + ID_SIZE))) (off + length bs) < off + length bs + length cs
        then set32 (V1 kb) (dsc + ID_SIZE) (of_nat (off + length bs + length cs)) else V1 kb)"
      using w2 unfolding wrote_def sz by simp
    have V1: "V1 kb = (if unat (u32_at (V kb) (dsc + ID_SIZE)) < off + length bs
        then set32 (V kb) (dsc + ID_SIZE) (of_nat (off + length bs)) else V kb)"
      using w1 n(1) unfolding wrote_def by simp
    have pos: "0 < length cs" using False by simp
    show ?thesis unfolding V2 V1 using n(1) pos
      by (auto simp: set32_twice max_def add.assoc)
  qed
  moreover have "fblock V2 kb ?B b = fblock V kb ?B b \<and> index_blocks V2 kb ?B b = index_blocks V kb ?B b" if "b < N" for b
    using w1 w2 that by (simp add: wrote_def)
  moreover have "fbyte V2 kb ?B p = (if off \<le> p \<and> p < off + length (bs @ cs) then (bs @ cs) ! (p - off) else fbyte V kb ?B p)" if "p < N * 1024" for p
  proof -
    have "fbyte V2 kb ?B p = (if off + length bs \<le> p \<and> p < off + length bs + length cs then cs ! (p - (off + length bs)) else fbyte V1 kb ?B p)"
      using w2 that by (simp add: wrote_def)
    moreover have "fbyte V1 kb ?B p = (if off \<le> p \<and> p < off + length bs then bs ! (p - off) else fbyte V kb ?B p)"
      using w1 that by (simp add: wrote_def)
    ultimately show ?thesis by (auto simp: nth_append)
  qed
  moreover have "V2 k = V k" if "k \<noteq> kb" "\<forall>b<N. k \<noteq> ucast (fblock V kb ?B b)" for k
    using w1 w2 that by (simp add: wrote_def)
  ultimately show ?thesis unfolding wrote_def by blast
qed

text \<open>One chunk, in one block.\<close>

lemma wrote_chunk:
  assumes f: "file_ok okb V kb (dsc + ID_ZONE) N" and b: "b < N" and st: "st + length bs \<le> 1024" "bs \<noteq> []"
    and off: "off = b * 1024 + st" and z: "z = ucast (fblock V kb (dsc + ID_ZONE) b)" "length (V z) = 1024"
    and D: "D = (if unat (u32_at (V kb) (dsc + ID_SIZE)) < off + length bs then set32 (V kb) (dsc + ID_SIZE) (of_nat (off + length bs)) else V kb)"
  shows "wrote dsc kb N off bs V (V(kb := D, z := take st (V z) @ bs @ drop (st + length bs) (V z)))"
proof -
  let ?B = "dsc + ID_ZONE" and ?x = "take st (V z) @ bs @ drop (st + length bs) (V z)"
  let ?V = "V(kb := D, z := ?x)"
  have zkb: "z \<noteq> kb" using f b z(1) by (auto simp: file_ok_def)
  have inj: "fblock V kb ?B b' = fblock V kb ?B b \<longleftrightarrow> b' = b" if "b' < N" for b'
    using f b that by (auto simp: file_ok_def inj_on_def)
  have fb: "fblock ?V kb ?B b' = fblock V kb ?B b'" "index_blocks ?V kb ?B b' = index_blocks V kb ?B b'" if b': "b' < N" for b'
  proof -
    have zone: "u16_at (?V kb) (?B + 2 * j) = u16_at (V kb) (?B + 2 * j)" if "j < 9" for j
      using zkb D by (auto simp: u16_at_set32_other ID_ZONE_def ID_SIZE_def)
    have ix: "?V (ucast k) = V (ucast k)" if "k \<in> index_blocks V kb ?B b'" "k \<noteq> 0" for k
      using f b b' that z(1) by (auto simp: file_ok_def ucast_u16_inj)
    show "fblock ?V kb ?B b' = fblock V kb ?B b'" "index_blocks ?V kb ?B b' = index_blocks V kb ?B b'"
      by (rule fblock_cong [OF zone ix]; assumption)+
  qed
  have by': "fbyte ?V kb ?B p = (if off \<le> p \<and> p < off + length bs then bs ! (p - off) else fbyte V kb ?B p)" if p: "p < N * 1024" for p
  proof -
    have pb: "p div 1024 < N" using p by (simp add: less_mult_imp_div_less)
    have f1: "fblock ?V kb ?B (p div 1024) = fblock V kb ?B (p div 1024)" by (rule fb [OF pb])
    have nk: "ucast (fblock V kb ?B (p div 1024)) \<noteq> kb" using f pb by (auto simp: file_ok_def)
    have pe: "p = p div 1024 * 1024 + p mod 1024" by simp
    show ?thesis
    proof (cases "p div 1024 = b")
      case True
      then have pm: "p = b * 1024 + p mod 1024" using pe by metis
      have "fbyte ?V kb ?B p = ?x ! (p mod 1024)" using True f1 z(1) by (simp add: fbyte_def)
      moreover have "fbyte V kb ?B p = V z ! (p mod 1024)" using True z(1) by (simp add: fbyte_def)
      moreover have "p mod 1024 < 1024" by simp
      moreover have "off \<le> p \<and> p < off + length bs \<longleftrightarrow> st \<le> p mod 1024 \<and> p mod 1024 < st + length bs" "p - off = p mod 1024 - st"
        using pm off by linarith+
      ultimately show ?thesis using st(1) z(2) by (auto simp: nth_append min_def)
    next
      case False
      then have "\<not> (off \<le> p \<and> p < off + length bs)"
        using off st pe mod_less_divisor [of 1024 p] by auto
      moreover have "ucast (fblock V kb ?B (p div 1024)) \<noteq> z" using inj [OF pb] False z(1) by (simp add: ucast_u16_inj)
      ultimately show ?thesis using f1 nk by (auto simp: fbyte_def)
    qed
  qed
  show ?thesis unfolding wrote_def using zkb D st(2) fb by' b z(1) by auto
qed

text \<open>A change of the time in the descriptor keeps the file.\<close>

lemma stamped:
  assumes "file_ok okb V kb (dsc + ID_ZONE) N" "V' = V(kb := set32 (V kb) (dsc + ID_MTIME) t)"
  shows "b < N \<Longrightarrow> fblock V' kb (dsc + ID_ZONE) b = fblock V kb (dsc + ID_ZONE) b"
    "p < N * 1024 \<Longrightarrow> fbyte V' kb (dsc + ID_ZONE) p = fbyte V kb (dsc + ID_ZONE) p"
    "file_ok okb V' kb (dsc + ID_ZONE) N"
proof -
  have zone: "u16_at (V' kb) (dsc + ID_ZONE + 2 * j) = u16_at (V kb) (dsc + ID_ZONE + 2 * j)" if "j < 9" for j
    using assms(2) by (simp add: u16_at_set32_other ID_ZONE_def ID_MTIME_def)
  have ix: "V' (ucast k) = V (ucast k)" if "b < N" "k \<in> index_blocks V kb (dsc + ID_ZONE) b" for b k
    using assms that by (auto simp: file_ok_def)
  have f: "fblock V' kb (dsc + ID_ZONE) b = fblock V kb (dsc + ID_ZONE) b"
    "index_blocks V' kb (dsc + ID_ZONE) b = index_blocks V kb (dsc + ID_ZONE) b" if "b < N" for b
    by (rule fblock_cong; use zone ix [OF that] in blast)+
  show "b < N \<Longrightarrow> fblock V' kb (dsc + ID_ZONE) b = fblock V kb (dsc + ID_ZONE) b" by (rule f(1))
  show "fbyte V' kb (dsc + ID_ZONE) p = fbyte V kb (dsc + ID_ZONE) p" if p: "p < N * 1024"
  proof -
    have pb: "p div 1024 < N" using p by (simp add: less_mult_imp_div_less)
    then have "ucast (fblock V kb (dsc + ID_ZONE) (p div 1024)) \<noteq> kb" using assms(1) by (auto simp: file_ok_def)
    then show ?thesis using f(1) [OF pb] assms(2) by (simp add: fbyte_def)
  qed
  show "file_ok okb V' kb (dsc + ID_ZONE) N"
    using assms(1) f by (auto simp: file_ok_def mapped_block_def inj_on_def)
qed

locale fs_disk = disk ok sec dummy
  for ok :: "'d device list \<Rightarrow> 'd \<Rightarrow> int \<Rightarrow> u32 \<Rightarrow> bool" and sec and dummy :: "'y fstate_ext itself"
begin

text \<open>One level of the loop of \<open>bmap\<close>.\<close>

lemma bmap_level:
  fixes s :: "('d, 'y) fstate_scheme"
  assumes "good ok sec s" "held s buf = Some (dev, k, c)" "buf \<in> stale sec s \<Longrightarrow> c \<noteq> 1"
    "base + 2 * unat index + 1 < 1024" "z = u16_at (view ok sec s dev k) (base + 2 * unat index)" "z = 0 \<Longrightarrow> \<not> create"
  obtains s1 where "leads ok sec {} s ((held s)(buf := if c = 1 then None else Some (dev, k, c - 1))) (view ok sec s) s1"
    "bmap_loop level dev create blk divider buf base index s = (case level of 0 \<Rightarrow> Some (z, s1)
     | Suc level \<Rightarrow> if z = 0 then Some (z, s1) else do {
         (buf, s) \<leftarrow> bread dev (ucast z) s1;
         bmap_loop level dev create (blk mod divider) (divider div BLOCK_INDEXES) buf 0 (blk div divider) s })"
proof -
  note hd = held_data [OF assms(1,2)]
  have z: "rd16 (view ok sec s dev k) (base + 2 * unat index) = Some z"
    using hd(2) assms(4,5) by (simp add: rd16_at BLOCK_SIZE_def)
  obtain s1 where s1: "brelse (Some buf) s = Some s1"
    "leads ok sec {} s ((held s)(buf := if c = 1 then None else Some (dev, k, c - 1))) (view ok sec s) s1" "data_of buf s1 = data_of buf s"
    using brelse_leads [OF assms(1-3)] by blast
  have c: "\<not> (z = 0 \<and> create)" using assms(6) by blast
  have "bmap_loop level dev create blk divider buf base index s = (case level of 0 \<Rightarrow> Some (z, s1)
     | Suc level \<Rightarrow> if z = 0 then Some (z, s1) else do {
         (buf, s) \<leftarrow> bread dev (ucast z) s1;
         bmap_loop level dev create (blk mod divider) (divider div BLOCK_INDEXES) buf 0 (blk div divider) s })"
    by (subst bmap_loop.simps) (simp only: hd(1) z c s1(1,3) Option.bind.simps if_False)
  then show ?thesis using s1(2) that by blast
qed

text \<open>A level whose array is in a block of its own: the block is read and released.\<close>

lemma bmap_borrow:
  fixes s :: "('d, 'y) fstate_scheme"
  assumes "good ok sec s" "ok (devices s) (hw s) dev blkno" "dev \<noteq> EOF" "card (dom (held s)) < MAX_BUFFERS"
    "unat index < 512" "z = u16_at (view ok sec s dev blkno) (2 * unat index)" "z = 0 \<Longrightarrow> \<not> create"
  obtains s1 where "leads ok sec {} s (held s) (view ok sec s) s1"
    "do { (buf, s) \<leftarrow> bread dev blkno s; bmap_loop level dev create blk divider buf 0 index s } = (case level of 0 \<Rightarrow> Some (z, s1)
     | Suc level \<Rightarrow> if z = 0 then Some (z, s1) else do {
         (buf, s) \<leftarrow> bread dev (ucast z) s1;
         bmap_loop level dev create (blk mod divider) (divider div BLOCK_INDEXES) buf 0 (blk div divider) s })"
proof -
  obtain b t where t: "bread dev blkno s = Some (b, t)"
    "leads ok sec {} s ((held s)(b \<mapsto> (dev, blkno, times_held (held s b) + 1))) (view ok sec s) t"
    "\<And>d k c. held s b = Some (d, k, c) \<Longrightarrow> d = dev \<and> k = blkno"
    by (rule bread_leads [OF assms(1-4)]) (rule that)
  note l = t(2) [unfolded leads_def]
  let ?c = "times_held (held s b) + 1"
  have g: "good ok sec t" "held t b = Some (dev, blkno, ?c)" "view ok sec t = view ok sec s" using l by simp_all
  have fresh: "b \<in> stale sec t \<Longrightarrow> ?c \<noteq> 1"
  proof
    assume b: "b \<in> stale sec t" "?c = 1"
    then have "b \<in> pins s" using l by (auto simp: stale_def)
    then obtain d k c where "held s b = Some (d, k, c)" "0 < c" by (auto simp: held_def pins_def)
    then show False using b(2) by (simp add: times_held_def)
  qed
  obtain s1 where s1: "leads ok sec {} t ((held t)(b := if ?c = 1 then None else Some (dev, blkno, ?c - 1))) (view ok sec t) s1"
    "bmap_loop level dev create blk divider b 0 index t = (case level of 0 \<Rightarrow> Some (z, s1)
     | Suc level \<Rightarrow> if z = 0 then Some (z, s1) else do {
         (buf, s) \<leftarrow> bread dev (ucast z) s1;
         bmap_loop level dev create (blk mod divider) (divider div BLOCK_INDEXES) buf 0 (blk div divider) s })"
    by (rule bmap_level [OF g(1,2) fresh, where base = 0 and index = index and z = z and create = create])
      (use assms(5-7) g(3) in auto)
  have "(held t)(b := if ?c = 1 then None else Some (dev, blkno, ?c - 1)) = held s"
  proof
    fix j
    show "((held t)(b := if ?c = 1 then None else Some (dev, blkno, ?c - 1))) j = held s j"
      using l t(3) by (cases "held s b") (auto simp: times_held_def held_def pins_def split: if_splits)
  qed
  then have "leads ok sec {} s (held s) (view ok sec s) s1"
    using leads_trans [OF t(2)] s1(1) g(3) by fastforce
  then show ?thesis using t(1) s1(2) that by simp
qed

text \<open>\<open>bmap\<close> of a block that has its number already, or that nobody asks to have made.\<close>

lemma bmap_lookup:
  fixes s :: "('d, 'y) fstate_scheme"
  assumes "good ok sec s" "ino i s = Some n" "held s (i_buf n) = Some (i_dev n, kb, c)" "i_desc n + 32 \<le> 1024"
    "unat blk < 262663" "i_dev n \<noteq> EOF" "card (dom (held s)) < MAX_BUFFERS"
    "z = fblock (view ok sec s (i_dev n)) kb (i_desc n + ID_ZONE) (unat blk)" "z = 0 \<Longrightarrow> \<not> create"
    "\<And>k. k \<in> index_blocks (view ok sec s (i_dev n)) kb (i_desc n + ID_ZONE) (unat blk) \<Longrightarrow> k \<noteq> 0
       \<Longrightarrow> ok (devices s) (hw s) (i_dev n) (ucast k)"
  obtains s1 where "bmap i blk create s = Some (z, s1)" "leads ok sec {} s (held s) (view ok sec s) s1"
proof -
  let ?V = "view ok sec s (i_dev n)" and ?base = "i_desc n + ID_ZONE" and ?d = "i_dev n"
  obtain t where t: "upd_buf (i_buf n) (\<lambda>b. b\<lparr>bf_count := bf_count b + 1\<rparr>) s = Some t"
    "leads ok sec {} s ((held s)(i_buf n \<mapsto> (?d, kb, c + 1))) (view ok sec s) t"
    by (rule count_leads [OF assms(1,3)]) (rule that)
  have g: "good ok sec t" "held t (i_buf n) = Some (?d, kb, c + 1)" "view ok sec t = view ok sec s"
    using t(2) by (simp_all add: leads_def)
  have c: "c + 1 \<noteq> 1" "0 < c" using held_SomeD(5) [OF assms(3)] by simp_all
  have restored: "(held t)(i_buf n := if c + 1 = 1 then None else Some (?d, kb, c + 1 - 1)) = held s"
    using t(2) assms(3) c by (auto simp: leads_def fun_eq_iff)
  have T: "blk < TOTAL_BLOCK" using assms(5)
    by (simp add: word_less_nat_alt TOTAL_BLOCK_def DIRECT_BLOCK_def INDIRECT1_BLOCK_def INDIRECT2_BLOCK_def BLOCK_INDEXES_def)
  have nums: "DIRECT_BLOCK = 7" "INDIRECT1_BLOCK = 512" "INDIRECT2_BLOCK = 262144" "BLOCK_INDEXES = 512"
    by (simp_all add: DIRECT_BLOCK_def INDIRECT1_BLOCK_def INDIRECT2_BLOCK_def BLOCK_INDEXES_def)
  note b = t(1) assms(2)
  show ?thesis
  proof (cases "unat blk < 7")
    case True
    have z: "z = u16_at (view ok sec t ?d kb) (?base + 2 * unat blk)" using assms(8) True g(3) by (simp add: fblock_def)
    have i: "?base + 2 * unat blk + 1 < 1024" using True assms(4) by (simp add: ID_ZONE_def)
    obtain s1 where s1: "leads ok sec {} t ((held t)(i_buf n := if c + 1 = 1 then None else Some (?d, kb, c + 1 - 1))) (view ok sec t) s1"
      "bmap_loop 0 ?d create blk 1 (i_buf n) ?base blk t = Some (z, s1)"
      by (rule bmap_level [OF g(1,2) _ i z assms(9), where level = 0]) (use c in auto)
    have "leads ok sec {} s (held s) (view ok sec s) s1"
      using leads_trans [OF t(2)] s1(1) g(3) restored by fastforce
    moreover have "bmap i blk create s = Some (z, s1)"
      using b s1(2) T True by (simp add: bmap_def nums word_less_nat_alt Let_def)
    ultimately show ?thesis using that by blast
  next
    case n7: False
    have u7: "unat (blk - 7) = unat blk - 7" using n7 by (subst unat_sub) (simp_all add: word_le_nat_alt)
    show ?thesis
    proof (cases "unat blk < 519")
      case True
      let ?z = "u16_at (view ok sec t ?d kb) (?base + 14)"
      have i: "?base + 2 * unat (7 :: u32) + 1 < 1024" using assms(4) by (simp add: ID_ZONE_def)
      have zz: "z = (if ?z = 0 then 0 else u16_at (?V (ucast ?z)) (2 * unat (blk - 7)))"
        using assms(8) n7 True g(3) u7 by (simp add: fblock_def Let_def)
      have ix: "index_blocks ?V kb ?base (unat blk) = {?z}" using n7 True g(3) by (simp add: index_blocks_def)
      obtain s1 where s1: "leads ok sec {} t ((held t)(i_buf n := if c + 1 = 1 then None else Some (?d, kb, c + 1 - 1))) (view ok sec t) s1"
        "bmap_loop 1 ?d create (blk - 7) 1 (i_buf n) ?base 7 t = (if ?z = 0 then Some (?z, s1) else do {
           (buf, s) \<leftarrow> bread ?d (ucast ?z) s1;
           bmap_loop 0 ?d create ((blk - 7) mod 1) (1 div BLOCK_INDEXES) buf 0 ((blk - 7) div 1) s })"
      proof (rule bmap_level [OF g(1,2) _ i, where level = 1 and create = create and z = "?z" and blk = "blk - 7" and divider = 1])
        show "?z = 0 \<Longrightarrow> \<not> create" using zz assms(9) by simp
      qed (use c that in simp_all)
      have l1: "leads ok sec {} s (held s) (view ok sec s) s1"
        using leads_trans [OF t(2)] s1(1) g(3) restored by fastforce
      have lt7: "unat blk - 7 < 512" using True by simp
      have e: "bmap i blk create s = bmap_loop 1 ?d create (blk - 7) 1 (i_buf n) ?base 7 t"
        using b T n7 True u7 lt7 by (simp add: bmap_def nums word_less_nat_alt Let_def)
      show ?thesis
      proof (cases "?z = 0")
        case True
        then show ?thesis using e s1(2) l1 zz that by simp
      next
        case nz: False
        note l = l1 [unfolded leads_def]
        have g1: "good ok sec s1" "ok (devices s1) (hw s1) ?d (ucast ?z)" "card (dom (held s1)) < MAX_BUFFERS"
          using l assms(7,10) nz ix by simp_all
        have lt: "unat ((blk - 7) div 1) < 512" using u7 True by simp
        have z2: "z = u16_at (view ok sec s1 ?d (ucast ?z)) (2 * unat ((blk - 7) div 1))" using zz nz l by simp
        obtain s2 where s2: "leads ok sec {} s1 (held s1) (view ok sec s1) s2"
          "do { (buf, s) \<leftarrow> bread ?d (ucast ?z) s1;
             bmap_loop 0 ?d create ((blk - 7) mod 1) (1 div BLOCK_INDEXES) buf 0 ((blk - 7) div 1) s } = Some (z, s2)"
          by (rule bmap_borrow [OF g1(1,2) assms(6) g1(3) lt z2 assms(9), where level = 0]) auto
        have "leads ok sec {} s (held s) (view ok sec s) s2"
          using leads_trans [OF l1] s2(1) l by fastforce
        then show ?thesis using e s1(2) s2(2) nz that by simp
      qed
    next
      case n519: False
      define b2 where "b2 = blk - 7 - 512"
      define zi where "zi = u16_at (view ok sec t ?d kb) (?base + 16)"
      define yi where "yi = u16_at (?V (ucast zi)) (2 * unat (b2 div 512))"
      have u519: "unat b2 = unat blk - 519"
        unfolding b2_def using u7 n519 by (subst unat_sub) (simp_all add: word_le_nat_alt)
      have ud: "unat (b2 div 512) = (unat blk - 519) div 512" "unat (b2 mod 512) = (unat blk - 519) mod 512"
        using u519 by (simp_all add: unat_div unat_mod)
      have i: "?base + 2 * unat (8 :: u32) + 1 < 1024" using assms(4) by (simp add: ID_ZONE_def)
      have zz: "z = (if zi = 0 then 0 else if yi = 0 then 0 else u16_at (?V (ucast yi)) (2 * unat (b2 mod 512)))"
        using assms(8) n7 n519 g(3) unfolding yi_def zi_def ud by (simp add: fblock_def Let_def)
      have nc: "zi = 0 \<Longrightarrow> \<not> create" "zi \<noteq> 0 \<Longrightarrow> yi = 0 \<Longrightarrow> \<not> create" using zz assms(9) by simp_all
      have ix: "index_blocks ?V kb ?base (unat blk) = (if zi = 0 then {0} else {zi, yi})"
        using n7 n519 g(3) unfolding yi_def zi_def ud by (simp add: index_blocks_def Let_def)
      have zi: "zi = u16_at (view ok sec t ?d kb) (?base + 2 * unat (8 :: u32))" by (simp add: zi_def)
      obtain s1 where s1: "leads ok sec {} t ((held t)(i_buf n := if c + 1 = 1 then None else Some (?d, kb, c + 1 - 1))) (view ok sec t) s1"
        "bmap_loop (Suc 1) ?d create b2 512 (i_buf n) ?base 8 t = (if zi = 0 then Some (zi, s1) else do {
           (buf, s) \<leftarrow> bread ?d (ucast zi) s1;
           bmap_loop 1 ?d create (b2 mod 512) (512 div BLOCK_INDEXES) buf 0 (b2 div 512) s })"
        by (rule bmap_level [OF g(1,2) _ i zi nc(1), where level = "Suc 1" and blk = b2 and divider = 512])
          (use c that in \<open>simp_all only: nat.case, simp_all\<close>)
      have l1: "leads ok sec {} s (held s) (view ok sec s) s1"
        using leads_trans [OF t(2)] s1(1) g(3) restored by fastforce
      have lt2: "unat (blk - 7) \<ge> 512" "unat b2 < 262144" using u7 u519 n519 assms(5) by simp_all
      have "bmap i blk create s = bmap_loop 2 ?d create b2 512 (i_buf n) ?base 8 t"
        using b T n7 lt2 unfolding b2_def by (simp add: bmap_def nums word_less_nat_alt Let_def)
      then have e: "bmap i blk create s = bmap_loop (Suc 1) ?d create b2 512 (i_buf n) ?base 8 t" by (simp only: Suc_1)
      show ?thesis
      proof (cases "zi = 0")
        case True
        then show ?thesis using e s1(2) l1 zz that by simp
      next
        case nz: False
        note l = l1 [unfolded leads_def]
        have g1: "good ok sec s1" "ok (devices s1) (hw s1) ?d (ucast zi)" "card (dom (held s1)) < MAX_BUFFERS"
          using l assms(7,10) nz ix by simp_all
        have lt: "unat (b2 div 512) < 512" using ud assms(5) by simp
        have y: "yi = u16_at (view ok sec s1 ?d (ucast zi)) (2 * unat (b2 div 512))" using l by (simp add: yi_def)
        obtain s2 where s2: "leads ok sec {} s1 (held s1) (view ok sec s1) s2"
          "do { (buf, s) \<leftarrow> bread ?d (ucast zi) s1;
             bmap_loop 1 ?d create (b2 mod 512) (512 div BLOCK_INDEXES) buf 0 (b2 div 512) s } = (if yi = 0 then Some (yi, s2) else do {
             (buf, s) \<leftarrow> bread ?d (ucast yi) s2;
             bmap_loop 0 ?d create (b2 mod 512 mod (512 div BLOCK_INDEXES)) (512 div BLOCK_INDEXES div BLOCK_INDEXES) buf 0
               (b2 mod 512 div (512 div BLOCK_INDEXES)) s })"
          by (rule bmap_borrow [OF g1(1,2) assms(6) g1(3) lt y nc(2) [OF nz], where level = 1 and blk = "b2 mod 512"
                and divider = "512 div BLOCK_INDEXES"]) (use that in simp_all)
        have l2: "leads ok sec {} s (held s) (view ok sec s) s2"
          using leads_trans [OF l1] s2(1) l by fastforce
        show ?thesis
        proof (cases "yi = 0")
          case True
          then show ?thesis using e s1(2) s2(2) l2 zz nz that by simp
        next
          case ny: False
          note m = l2 [unfolded leads_def]
          have g2: "good ok sec s2" "ok (devices s2) (hw s2) ?d (ucast yi)" "card (dom (held s2)) < MAX_BUFFERS"
            using m assms(7,10) nz ny ix by simp_all
          have one: "(512 :: u32) div BLOCK_INDEXES = 1" by (simp add: nums)
          have lt3: "unat (b2 mod 512 div 1) < 512" using ud by simp
          have z3: "z = u16_at (view ok sec s2 ?d (ucast yi)) (2 * unat (b2 mod 512 div 1))" using zz nz ny m by simp
          obtain s3 where s3: "leads ok sec {} s2 (held s2) (view ok sec s2) s3"
            "do { (buf, s) \<leftarrow> bread ?d (ucast yi) s2;
               bmap_loop 0 ?d create (b2 mod 512 mod 1) (1 div BLOCK_INDEXES) buf 0 (b2 mod 512 div 1) s } = Some (z, s3)"
            by (rule bmap_borrow [OF g2(1,2) assms(6) g2(3) lt3 z3 assms(9), where level = 0 and blk = "b2 mod 512 mod 1"
                  and divider = "1 div BLOCK_INDEXES"]) (use that in simp_all)
          have "leads ok sec {} s (held s) (view ok sec s) s3"
            using leads_trans [OF l2] s3(1) m by fastforce
          then show ?thesis using e s1(2) s2(2) s3(2) nz ny one that by simp
        qed
      qed
    qed
  qed
qed

text \<open>A block read and released.\<close>

lemma data_borrow:
  fixes s :: "('d, 'y) fstate_scheme"
  assumes "good ok sec s" "ok (devices s) (hw s) dev k" "dev \<noteq> EOF" "card (dom (held s)) < MAX_BUFFERS"
  obtains b t s' where "bread dev k s = Some (b, t)" "data_of b t = Some (view ok sec s dev k)" "length (view ok sec s dev k) = BLOCK_SIZE"
    "brelse (Some b) t = Some s'" "leads ok sec {} s (held s) (view ok sec s) s'"
proof -
  obtain b t where t: "bread dev k s = Some (b, t)"
    "leads ok sec {} s ((held s)(b \<mapsto> (dev, k, times_held (held s b) + 1))) (view ok sec s) t"
    "\<And>d k' c. held s b = Some (d, k', c) \<Longrightarrow> d = dev \<and> k' = k"
    by (rule bread_leads [OF assms]) (rule that)
  note l = t(2) [unfolded leads_def]
  let ?c = "times_held (held s b) + 1"
  have g: "good ok sec t" "held t b = Some (dev, k, ?c)" "view ok sec t = view ok sec s" using l by simp_all
  have fresh: "b \<in> stale sec t \<Longrightarrow> ?c \<noteq> 1"
  proof
    assume b: "b \<in> stale sec t" "?c = 1"
    then have "b \<in> pins s" using l by (auto simp: stale_def)
    then obtain d k c where "held s b = Some (d, k, c)" "0 < c" by (auto simp: held_def pins_def)
    then show False using b(2) by (simp add: times_held_def)
  qed
  obtain s' where s': "brelse (Some b) t = Some s'"
    "leads ok sec {} t ((held t)(b := if ?c = 1 then None else Some (dev, k, ?c - 1))) (view ok sec t) s'"
    by (rule brelse_leads [OF g(1,2)]) (rule fresh, assumption, rule that)
  have "(held t)(b := if ?c = 1 then None else Some (dev, k, ?c - 1)) = held s"
  proof
    fix j
    show "((held t)(b := if ?c = 1 then None else Some (dev, k, ?c - 1))) j = held s j"
      using l t(3) by (cases "held s b") (auto simp: times_held_def held_def pins_def split: if_splits)
  qed
  then have "leads ok sec {} s (held s) (view ok sec s) s'"
    using leads_trans [OF t(2)] s'(2) g(3) by fastforce
  then show ?thesis using t(1) s'(1) held_data(1,2) [OF g(1,2)] g(3) that by simp
qed

text \<open>The block of an open file that \<open>bmap\<close> finds.\<close>

lemma bmap_mapped:
  fixes s :: "('d, 'y) fstate_scheme"
  assumes "open_inode ok sec i n kb s" "unat blk < 262663"
    "mapped_block (ok (devices s) (hw s) (i_dev n)) (view ok sec s (i_dev n)) kb (i_desc n + ID_ZONE) (unat blk)"
  obtains s1 where "bmap i blk create s = Some (fblock (view ok sec s (i_dev n)) kb (i_desc n + ID_ZONE) (unat blk), s1)"
    "leads ok sec {} s (held s) (view ok sec s) s1"
proof -
  obtain c where c: "held s (i_buf n) = Some (i_dev n, kb, c)" using assms(1) by (auto simp: open_inode_def)
  note o = assms(1) [unfolded open_inode_def]
  note m = assms(3) [unfolded mapped_block_def]
  show ?thesis
    by (rule bmap_lookup [of s i n kb c blk "fblock (view ok sec s (i_dev n)) kb (i_desc n + ID_ZONE) (unat blk)" create])
      (use o m c assms(2) that in auto)
qed

lemma read_loop_bytes:
  fixes s :: "('d, 'y) fstate_scheme"
  assumes "open_inode ok sec i n kb s" "unat left \<le> fuel" "unat offset + unat left \<le> 268966912"
    "V = view ok sec s (i_dev n)" "base = i_desc n + ID_ZONE"
    "\<And>p. unat offset \<le> p \<Longrightarrow> p < unat offset + unat left \<Longrightarrow> mapped_block (ok (devices s) (hw s) (i_dev n)) V kb base (p div 1024)"
  shows "\<exists>s'. read_loop fuel i left offset out s = Some (offset + left, out @ map (fbyte V kb base) [unat offset..<unat offset + unat left], s')
    \<and> leads ok sec {} s (held s) (view ok sec s) s'"
  using assms
proof (induction fuel arbitrary: left offset out s)
  case 0
  then have "left = 0" by (simp add: unat_eq_zero)
  then show ?case using 0 leads_refl [of ok sec s] by (simp add: open_inode_def)
next
  case (Suc fuel)
  show ?case
  proof (cases "left = 0")
    case True
    then show ?thesis using Suc.prems leads_refl [of ok sec s] by (simp add: open_inode_def)
  next
    case False
    then have pos: "0 < unat left" by (simp add: unat_gt_0)
    note o = Suc.prems(1) [unfolded open_inode_def]
    have off: "unat offset < 2147483648" using Suc.prems(3) by simp
    note ub = unat_blk_of [OF off]
    have mb: "mapped_block (ok (devices s) (hw s) (i_dev n)) V kb base (unat (blk_of offset))"
      using Suc.prems(6) [of "unat offset"] pos ub by simp
    have lt: "unat (blk_of offset) < 262663" using ub pos Suc.prems(3) by simp
    let ?z = "fblock V kb base (unat (blk_of offset))" and ?w = "min (1024 - start_of offset) left"
    obtain s1 where s1: "bmap i (blk_of offset) False s = Some (?z, s1)" "leads ok sec {} s (held s) (view ok sec s) s1"
      using bmap_mapped [OF Suc.prems(1) lt] mb Suc.prems(4,5) by blast
    note l1 = s1(2) [unfolded leads_def]
    have i1: "ino i s1 = Some n" using o l1 rest_same_fs(1) [of s s1] by (simp add: ino_def)
    have zok: "?z \<noteq> 0" "ok (devices s1) (hw s1) (i_dev n) (ucast ?z)" "card (dom (held s1)) < MAX_BUFFERS" "i_dev n \<noteq> EOF" "good ok sec s1"
      using mb l1 o by (simp_all add: mapped_block_def)
    obtain b t s2 where t: "bread (i_dev n) (ucast ?z) s1 = Some (b, t)" "data_of b t = Some (view ok sec s1 (i_dev n) (ucast ?z))"
      "length (view ok sec s1 (i_dev n) (ucast ?z)) = BLOCK_SIZE" "brelse (Some b) t = Some s2" "leads ok sec {} s1 (held s1) (view ok sec s1) s2"
      by (rule data_borrow [OF zok(5,2,4,3)]) (rule that)
    have V1: "view ok sec s1 (i_dev n) = V" using l1 Suc.prems(4) by simp
    have l2: "leads ok sec {} s (held s) (view ok sec s) s2"
      using leads_trans [OF s1(2)] t(5) l1 by fastforce
    note l2' = l2 [unfolded leads_def]
    have len: "unat offset + unat left < 2147483648" using Suc.prems(3) by simp
    note ch = chunk_offset [OF len refl]
    have g: "get_bytes (V (ucast ?z)) (unat (start_of offset)) (unat ?w) = Some (map (fbyte V kb base) [unat offset..<unat offset + chunk offset left])"
      using chunk_bytes [of V kb base offset left] chunk_bounds(3) [of offset left] t(3) V1 ub ch(4) by (simp add: get_bytes_def BLOCK_SIZE_def)
    have r: "read_loop (Suc fuel) i left offset out s
      = read_loop fuel i (left - ?w) (offset + ?w) (out @ map (fbyte V kb base) [unat offset..<unat offset + chunk offset left]) s2"
      using False s1(1) i1 zok(1) t(1,2,4) V1 g by (simp add: Let_def)
    have "\<exists>s'. read_loop fuel i (left - ?w) (offset + ?w) (out @ map (fbyte V kb base) [unat offset..<unat offset + chunk offset left]) s2
        = Some ((offset + ?w) + (left - ?w), (out @ map (fbyte V kb base) [unat offset..<unat offset + chunk offset left])
            @ map (fbyte V kb base) [unat (offset + ?w)..<unat (offset + ?w) + unat (left - ?w)], s')
        \<and> leads ok sec {} s2 (held s2) (view ok sec s2) s'"
    proof (rule Suc.IH)
      show "open_inode ok sec i n kb s2" by (rule open_inode_leads [OF Suc.prems(1) l2])
      show "unat (left - ?w) \<le> fuel" using ch(2) chunk_bounds(2) [OF pos, of offset] Suc.prems(2) by simp
      show "unat (offset + ?w) + unat (left - ?w) \<le> 268966912" using ch(1,2) chunk_bounds(1) [of offset left] Suc.prems(3) by simp
      show "V = view ok sec s2 (i_dev n)" using l2' Suc.prems(4) by simp
      show "mapped_block (ok (devices s2) (hw s2) (i_dev n)) V kb base (p div 1024)"
        if "unat (offset + ?w) \<le> p" "p < unat (offset + ?w) + unat (left - ?w)" for p
        using Suc.prems(6) [of p] that ch(1,2) chunk_bounds(1) [of offset left] l2' by simp
    qed (rule Suc.prems(5))
    moreover have "[unat offset..<unat offset + chunk offset left] @ [unat (offset + ?w)..<unat (offset + ?w) + unat (left - ?w)]
        = [unat offset..<unat offset + unat left]"
      using ch(1,2) chunk_bounds(1) [of offset left] upt_add_eq_append [of "unat offset" "unat offset + chunk offset left" "unat left - chunk offset left"]
      by simp
    ultimately obtain s' where s': "read_loop (Suc fuel) i left offset out s
        = Some (offset + left, out @ map (fbyte V kb base) [unat offset..<unat offset + unat left], s')"
      "leads ok sec {} s2 (held s2) (view ok sec s2) s'"
      using r ch(3) by (auto simp flip: map_append)
    have "leads ok sec {} s (held s) (view ok sec s) s'" using leads_trans [OF l2] s'(2) l2' by fastforce
    then show ?thesis using s'(1) by blast
  qed
qed

text \<open>\<open>inode_read\<close> gives the bytes of the file, up to its end.\<close>

lemma inode_read_bytes:
  fixes s :: "('d, 'y) fstate_scheme"
  assumes o: "open_inode ok sec i n kb s" and V: "V = view ok sec s (i_dev n)" and base: "base = i_desc n + ID_ZONE"
    and mode: "ISREG (u16_at (V kb) (i_desc n)) \<or> ISDIR (u16_at (V kb) (i_desc n))"
    and sz: "sz = unat (u32_at (V kb) (i_desc n + ID_SIZE))" "sz \<le> 268966912"
    and m: "\<And>p. unat offset \<le> p \<Longrightarrow> p < min (unat offset + unat len) sz \<Longrightarrow> mapped_block (ok (devices s) (hw s) (i_dev n)) V kb base (p div 1024)"
  shows "if sz \<le> unat offset then inode_read i len offset s = Some (EOF, [], s)
    else \<exists>s'. inode_read i len offset s = Some (int (min (unat len) (sz - unat offset)),
          map (fbyte V kb base) [unat offset..<min (unat offset + unat len) sz], s'\<lparr>inode_table := (inode_table s)[i := n\<lparr>i_atime := now s\<rparr>]\<rparr>)
        \<and> leads ok sec {} s (held s) (view ok sec s) s'"
proof -
  obtain c where h: "held s (i_buf n) = Some (i_dev n, kb, c)" "good ok sec s" "ino i s = Some n" "i_desc n + 32 \<le> 1024"
    using o by (auto simp: open_inode_def)
  note hd = held_data [OF h(2,1)]
  have rd: "desc16 i ID_MODE s = Some (u16_at (V kb) (i_desc n))" "desc32 i ID_SIZE s = Some (u32_at (V kb) (i_desc n + ID_SIZE))"
    using h(3,4) hd(1,2) V by (simp_all add: desc16_def desc32_def ID_MODE_def ID_SIZE_def rd16_at rd32_at BLOCK_SIZE_def)
  let ?size = "u32_at (V kb) (i_desc n + ID_SIZE)"
  show ?thesis
  proof (cases "sz \<le> unat offset")
    case True
    then show ?thesis using rd mode sz(1) by (simp add: inode_read_def word_le_nat_alt)
  next
    case False
    let ?left = "min len (?size - offset)"
    have ud: "unat (?size - offset) = sz - unat offset" using False sz(1) by (subst unat_sub) (simp_all add: word_le_nat_alt)
    then have ul: "unat ?left = min (unat len) (sz - unat offset)" by (simp add: min_def word_le_nat_alt)
    have e: "unat offset + unat ?left = min (unat offset + unat len) sz" unfolding ul using False by (auto simp: min_def)
    have b: "unat offset + unat ?left \<le> 268966912" using e sz(2) by simp
    have "\<exists>s'. read_loop (unat ?left) i ?left offset [] s = Some (offset + ?left, [] @ map (fbyte V kb base) [unat offset..<unat offset + unat ?left], s')
        \<and> leads ok sec {} s (held s) (view ok sec s) s'"
      by (rule read_loop_bytes [OF o order_refl b V base]) (use m e in simp)
    then obtain s' where s': "read_loop (unat ?left) i ?left offset [] s
        = Some (offset + ?left, map (fbyte V kb base) [unat offset..<min (unat offset + unat len) sz], s')"
      "leads ok sec {} s (held s) (view ok sec s) s'"
      unfolding e by auto
    have t: "inode_table s' = inode_table s" "now s' = now s" using s'(2) rest_same_fs [of s s'] by (simp_all add: leads_def)
    have i: "i < length (inode_table s)" "inode_table s ! i = n" using h(3) by (simp_all add: ino_def rd_eq_Some)
    have si: "sint (offset + ?left - offset) = int (min (unat len) (sz - unat offset))"
      using ul b by (simp add: sint_unat32)
    have "inode_read i len offset s = Some (int (min (unat len) (sz - unat offset)),
        map (fbyte V kb base) [unat offset..<min (unat offset + unat len) sz], s'\<lparr>inode_table := (inode_table s)[i := n\<lparr>i_atime := now s\<rparr>]\<rparr>)"
      using rd mode False sz(1) s'(1) si t i by (simp add: inode_read_def word_le_nat_alt upd_ino_def ino_def Let_def)
    then show ?thesis using s'(2) False by auto
  qed
qed

lemma view_dev: "ok (devices s) (hw s) d k \<Longrightarrow> length (view ok sec (s :: ('d, 'y) fstate_scheme) d k) = BLOCK_SIZE" if "good ok sec s"
proof -
  assume o: "ok (devices s) (hw s) d k"
  have c: "cache_inv ok sec s" using that by (simp add: good_def)
  show "length (view ok sec s d k) = BLOCK_SIZE"
  proof (cases "buf_of d k s")
    case None
    then show ?thesis using o sec_length [OF o] by (simp add: view_def block_def)
  next
    case (Some j)
    then show ?thesis using o cache_butD(7) [OF c, of j] buf_of_Some [OF Some] by (simp add: view_def block_def buf_ok_def)
  qed
qed

text \<open>A pass of the loop of \<open>inode_write\<close>.\<close>

lemma write_pass:
  fixes s :: "('d, 'y) fstate_scheme"
  assumes o: "open_inode ok sec i n kb s" and V: "V = view ok sec s (i_dev n)" and base: "dsc = i_desc n"
    and f: "file_ok (ok (devices s) (hw s) (i_dev n)) V kb (dsc + ID_ZONE) N" "N \<le> 262663"
    and left: "left \<noteq> 0" "unat offset + unat left \<le> N * 1024" "unat left \<le> length buf"
    and w: "w = min (1024 - start_of offset) left"
  obtains s' where "write_loop (Suc fuel) i buf left offset s = write_loop fuel i (drop (unat w) buf) (left - w) (offset + w) s'"
    "leads ok sec {} s (held s) (view ok sec s') s'" "wrote dsc kb N (unat offset) (take (unat w) buf) V (view ok sec s' (i_dev n))"
    "\<And>d. d \<noteq> i_dev n \<Longrightarrow> view ok sec s' d = view ok sec s d"
proof -
  let ?d = "i_dev n" and ?okb = "ok (devices s) (hw s) (i_dev n)"
  obtain c where h: "held s (i_buf n) = Some (?d, kb, c)" "good ok sec s" "ino i s = Some n" "dsc + 32 \<le> 1024" "?d \<noteq> EOF"
    "card (dom (held s)) < MAX_BUFFERS"
    using o base by (auto simp: open_inode_def)
  have pos: "0 < unat left" using left(1) by (simp add: unat_gt_0)
  have off: "unat offset < 2147483648" "unat offset + unat left < 2147483648" using left(2) f(2) pos by linarith+
  note ub = unat_blk_of [OF off(1)] and ch = chunk_offset [OF off(2) w] and cb = chunk_bounds [where offset = offset and left = left]
  define b where "b = unat offset div 1024"
  define bs where "bs = take (unat w) buf"
  have lb: "length bs = unat w" using ch(4) cb(1) left(3) by (simp add: bs_def)
  have bN: "b < N" using left(2) pos by (simp add: b_def less_mult_imp_div_less)
  have mb: "mapped_block ?okb V kb (dsc + ID_ZONE) b" using f(1) bN by (simp add: file_ok_def)
  define nr where "nr = fblock V kb (dsc + ID_ZONE) b"
  have nr: "nr \<noteq> 0" "?okb (ucast nr)" "ucast nr \<noteq> kb" using mb f(1) bN by (auto simp: mapped_block_def file_ok_def nr_def)
  obtain s1 where s1: "bmap i (blk_of offset) True s = Some (nr, s1)" "leads ok sec {} s (held s) (view ok sec s) s1"
    using bmap_mapped [OF o, of "blk_of offset" True] mb bN f(2) ub(1) V base by (auto simp: b_def nr_def)
  note l1 = s1(2) [unfolded leads_def]
  have i1: "ino i s1 = Some n" using h(3) l1 rest_same_fs(1) [of s s1] by (simp add: ino_def)
  have g1: "good ok sec s1" "ok (devices s1) (hw s1) ?d (ucast nr)" "card (dom (held s1)) < MAX_BUFFERS" using l1 nr h(6) by simp_all
  obtain bb t where t: "bread ?d (ucast nr) s1 = Some (bb, t)"
    "leads ok sec {} s1 ((held s1)(bb \<mapsto> (?d, ucast nr, times_held (held s1 bb) + 1))) (view ok sec s1) t"
    "\<And>d k c. held s1 bb = Some (d, k, c) \<Longrightarrow> d = ?d \<and> k = ucast nr"
    by (rule bread_leads [OF g1(1,2) h(5) g1(3)]) (rule that)
  let ?c = "times_held (held s1 bb) + 1"
  note lt = t(2) [unfolded leads_def]
  have gt: "good ok sec t" "held t bb = Some (?d, ucast nr, ?c)" using lt by simp_all
  have nb: "bb \<noteq> i_buf n"
  proof
    assume "bb = i_buf n"
    then show False using t(3) l1 h(1) nr(3) by auto
  qed
  obtain t2 where t2: "mark bb t = Some t2" "leads ok sec {} t (held t) (view ok sec t) t2" "dirty t2 = (\<lambda>j. j = bb \<or> dirty t j)"
    by (rule mark_leads [OF gt]) (rule that)
  note lt2 = t2(2) [unfolded leads_def]
  have rs2: "rest_same s t2" using l1 lt lt2 rest_same_trans by blast
  have i2: "ino i t2 = Some n" using h(3) rest_same_fs(1) [OF rs2] by (simp add: ino_def)
  have g2: "good ok sec t2" "held t2 (i_buf n) = Some (?d, kb, c)" "held t2 bb = Some (?d, ucast nr, ?c)" "view ok sec t2 = view ok sec s"
    using lt2 lt l1 h(1) nb by simp_all
  note hd2 = held_data [OF g2(1,2)]
  have V2: "view ok sec t2 ?d kb = V kb" using g2(4) V by simp
  have lenk: "length (V kb) = 1024" using hd2(2) V2 by (simp add: BLOCK_SIZE_def)
  have size: "desc32 i ID_SIZE t2 = Some (u32_at (V kb) (dsc + ID_SIZE))"
    using i2 h(4) hd2(1) V2 lenk base by (simp add: desc32_def ID_SIZE_def rd32_at)
  let ?size = "u32_at (V kb) (dsc + ID_SIZE)"
  define D where "D = (if unat ?size < unat offset + length bs then set32 (V kb) (dsc + ID_SIZE) (of_nat (unat offset + length bs)) else V kb)"
  have ow: "(of_nat (unat offset + length bs) :: u32) = offset + w" using lb by simp
  have gtsz: "offset + w > ?size \<longleftrightarrow> unat ?size < unat offset + length bs" using ch(1,4) lb by (simp add: word_less_nat_alt)
  obtain t3 where t3: "(if offset + w > ?size then do { s \<leftarrow> set_desc32 i ID_SIZE (offset + w) t2; mark_ino i s } else Some t2) = Some t3"
    "leads ok sec {} t2 (held t2) ((view ok sec t2)(?d := (view ok sec t2 ?d)(kb := D))) t3" "dirty t3 bb"
  proof (cases "offset + w > ?size")
    case True
    have wr: "wr32 (view ok sec t2 ?d kb) (i_desc n + ID_SIZE) (offset + w) = Some D"
      using V2 lenk h(4) base True gtsz ow by (simp add: wr32_at D_def ID_SIZE_def)
    have lD: "length D = BLOCK_SIZE" using lenk by (simp add: D_def BLOCK_SIZE_def)
    obtain u v where u: "upd_data (i_buf n) (\<lambda>d. wr32 d (i_desc n + ID_SIZE) (offset + w)) t2 = Some u" "mark (i_buf n) u = Some v" "rest_same t2 u"
      "leads ok sec {} t2 (held t2) ((view ok sec t2)(?d := (view ok sec t2 ?d)(kb := D))) v" "dirty v = (\<lambda>j. j = i_buf n \<or> dirty t2 j)"
      by (rule upd_mark_leads [OF g2(1,2), where f = "\<lambda>d. wr32 d (i_desc n + ID_SIZE) (offset + w)" and x = D]) (rule wr, rule lD, rule that)
    have "ino i u = Some n" using i2 rest_same_fs(1) [OF u(3)] by (simp add: ino_def)
    then show ?thesis using that [of v] True u i2 t2(3) by (simp add: set_desc32_def mark_ino_def)
  next
    case False
    then have "D = view ok sec t2 ?d kb" using V2 gtsz by (simp add: D_def)
    then show ?thesis using that [of t2] False leads_refl [OF g2(1)] t2(3) by (simp add: fun_upd_idem)
  qed
  note l3 = t3(2) [unfolded leads_def]
  have g3: "good ok sec t3" "held t3 bb = Some (?d, ucast nr, ?c)" "view ok sec t3 = (view ok sec s)(?d := V(kb := D))"
    using l3 g2 V by simp_all
  have lenz: "length (V (ucast nr)) = 1024" using view_dev [OF h(2) nr(2)] V by (simp add: BLOCK_SIZE_def)
  let ?x = "take (unat offset mod 1024) (V (ucast nr)) @ bs @ drop (unat offset mod 1024 + length bs) (V (ucast nr))"
  have st: "unat offset mod 1024 + length bs \<le> 1024" using cb(3) ch(4) lb by simp
  have vz: "view ok sec t3 ?d (ucast nr) = V (ucast nr)" using g3(3) nr(3) by simp
  have pb: "put_bytes (view ok sec t3 ?d (ucast nr)) (unat (start_of offset)) bs = Some ?x"
    unfolding vz using st lenz ub(2) by (simp add: put_bytes_def)
  have lx: "length ?x = BLOCK_SIZE" using st lenz by (simp add: BLOCK_SIZE_def)
  obtain t4 where t4: "upd_data bb (\<lambda>d. put_bytes d (unat (start_of offset)) bs) t3 = Some t4"
    "leads ok sec (if dirty t3 bb then {} else {bb}) t3 (held t3) ((view ok sec t3)(?d := (view ok sec t3 ?d)(ucast nr := ?x))) t4"
    "dirty t4 = dirty t3"
    by (rule upd_data_leads [OF g3(1,2), where f = "\<lambda>d. put_bytes d (unat (start_of offset)) bs" and x = "?x"]) (rule pb, rule lx, rule that)
  then have l4: "leads ok sec {} t3 (held t3) ((view ok sec t3)(?d := (view ok sec t3 ?d)(ucast nr := ?x))) t4" using t3(3) by simp
  note l4' = l4 [unfolded leads_def]
  have g4: "good ok sec t4" "held t4 bb = Some (?d, ucast nr, ?c)" using l4' g3 by simp_all
  have "dirty t4 bb" using t4(3) t3(3) by simp
  then have fresh: "bb \<in> stale sec t4 \<Longrightarrow> ?c \<noteq> 1" by (simp add: stale_def dirty_def)
  obtain s' where s': "brelse (Some bb) t4 = Some s'"
    "leads ok sec {} t4 ((held t4)(bb := if ?c = 1 then None else Some (?d, ucast nr, ?c - 1))) (view ok sec t4) s'"
    by (rule brelse_leads [OF g4]) (rule fresh, assumption, rule that)
  note l5 = s'(2) [unfolded leads_def]
  have hs: "(held t4)(bb := if ?c = 1 then None else Some (?d, ucast nr, ?c - 1)) = held s"
  proof
    fix j
    have "held t4 = (held s1)(bb \<mapsto> (?d, ucast nr, ?c))" using l4' l3 lt2 lt by simp
    then show "((held t4)(bb := if ?c = 1 then None else Some (?d, ucast nr, ?c - 1))) j = held s j"
      using l1 t(3) by (cases "held s1 bb") (auto simp: times_held_def held_def pins_def split: if_splits)
  qed
  have vs: "view ok sec s' = (view ok sec s)(?d := V(kb := D, ucast nr := ?x))"
    using l5 l4' g3(3) by simp
  have "leads ok sec {} s (held s) (view ok sec s') s'"
  proof -
    have "leads ok sec ({} \<union> {}) s1 (held t2) (view ok sec t2) t2" using leads_trans [OF t(2)] t2(2) lt lt2 by simp
    then have "leads ok sec ({} \<union> {}) s1 (held t3) (view ok sec t3) t3" using leads_trans [of ok sec "{}" s1 "held t2" "view ok sec t2" t2] t3(2) l3 by simp
    then have "leads ok sec ({} \<union> {}) s1 (held t4) (view ok sec t4) t4" using leads_trans [of ok sec "{}" s1 "held t3" "view ok sec t3" t3] l4 l4' by simp
    then have "leads ok sec ({} \<union> {}) s1 (held s) (view ok sec s') s'" using leads_trans [of ok sec "{}" s1 "held t4" "view ok sec t4" t4] s'(2) hs l5 by simp
    then show ?thesis using leads_trans [OF s1(2)] by fastforce
  qed
  moreover have "wrote dsc kb N (unat offset) bs V (view ok sec s' ?d)"
  proof -
    have "bs \<noteq> []" using lb ch(4) cb(2) pos by auto
    then have "wrote dsc kb N (unat offset) bs V (V(kb := D, ucast nr := ?x))"
      by (intro wrote_chunk [OF f(1) bN st]) (use lenz in \<open>simp_all add: nr_def b_def D_def\<close>)
    then show ?thesis using vs by simp
  qed
  moreover have "write_loop (Suc fuel) i buf left offset s = write_loop fuel i (drop (unat w) buf) (left - w) (offset + w) s'"
  proof -
    have gb: "get_bytes buf 0 (unat w) = Some bs" using ch(4) cb(1) left(3) by (simp add: get_bytes_def bs_def)
    show ?thesis
    proof (cases "offset + w > ?size")
      case True
      then obtain u where "set_desc32 i ID_SIZE (offset + w) t2 = Some u" "mark_ino i u = Some t3"
        using t3(1) by (auto simp: bind_eq_Some_conv)
      then show ?thesis using True left(1) s1(1) nr(1) i1 t(1) t2(1) size gb t4(1) s'(1) by (simp add: Let_def w [symmetric])
    next
      case False
      then show ?thesis using left(1) s1(1) nr(1) i1 t(1) t2(1) size t3(1) gb t4(1) s'(1) by (simp add: Let_def w [symmetric])
    qed
  qed
  moreover have "view ok sec s' d = view ok sec s d" if "d \<noteq> ?d" for d using vs that by simp
  ultimately show ?thesis using that bs_def by blast
qed

lemma write_loop_bytes:
  fixes s :: "('d, 'y) fstate_scheme"
  assumes "open_inode ok sec i n kb s" "V = view ok sec s (i_dev n)" "dsc = i_desc n"
    "file_ok (ok (devices s) (hw s) (i_dev n)) V kb (dsc + ID_ZONE) N" "N \<le> 262663"
    "unat left \<le> fuel" "unat offset + unat left \<le> N * 1024" "unat left \<le> length buf"
  shows "\<exists>s'. write_loop fuel i buf left offset s = Some (offset + left, s')
    \<and> leads ok sec {} s (held s) (view ok sec s') s' \<and> wrote dsc kb N (unat offset) (take (unat left) buf) V (view ok sec s' (i_dev n))
    \<and> (\<forall>d. d \<noteq> i_dev n \<longrightarrow> view ok sec s' d = view ok sec s d)"
  using assms
proof (induction fuel arbitrary: left offset buf s V)
  case 0
  then have "left = 0" by (simp add: unat_eq_zero)
  then show ?case using 0 leads_refl [of ok sec s] by (simp add: open_inode_def wrote_Nil)
next
  case (Suc fuel)
  show ?case
  proof (cases "left = 0")
    case True
    then show ?thesis using Suc.prems leads_refl [of ok sec s] by (simp add: open_inode_def wrote_Nil)
  next
    case False
    then have pos: "0 < unat left" by (simp add: unat_gt_0)
    define w where "w = min (1024 - start_of offset) left"
    have off: "unat offset + unat left < 2147483648" using Suc.prems(5,7) by linarith
    note ch = chunk_offset [OF off w_def] and cb = chunk_bounds [where offset = offset and left = left]
    obtain s1 where s1: "write_loop (Suc fuel) i buf left offset s = write_loop fuel i (drop (unat w) buf) (left - w) (offset + w) s1"
      "leads ok sec {} s (held s) (view ok sec s1) s1" "wrote dsc kb N (unat offset) (take (unat w) buf) V (view ok sec s1 (i_dev n))"
      "\<And>d. d \<noteq> i_dev n \<Longrightarrow> view ok sec s1 d = view ok sec s d"
      by (rule write_pass [OF Suc.prems(1-5) False Suc.prems(7,8) w_def, of fuel]) (rule that)
    note l1 = s1(2) [unfolded leads_def]
    have "\<exists>s'. write_loop fuel i (drop (unat w) buf) (left - w) (offset + w) s1 = Some ((offset + w) + (left - w), s')
      \<and> leads ok sec {} s1 (held s1) (view ok sec s') s'
      \<and> wrote dsc kb N (unat (offset + w)) (take (unat (left - w)) (drop (unat w) buf)) (view ok sec s1 (i_dev n)) (view ok sec s' (i_dev n))
      \<and> (\<forall>d. d \<noteq> i_dev n \<longrightarrow> view ok sec s' d = view ok sec s1 d)"
    proof (rule Suc.IH)
      show "open_inode ok sec i n kb s1" by (rule open_inode_leads [OF Suc.prems(1) s1(2)])
      show "file_ok (ok (devices s1) (hw s1) (i_dev n)) (view ok sec s1 (i_dev n)) kb (dsc + ID_ZONE) N"
        using file_ok_wrote [OF Suc.prems(4) s1(3)] l1 by simp
      show "unat (left - w) \<le> fuel" using ch(2) cb(2) [OF pos] Suc.prems(6) by simp
      show "unat (offset + w) + unat (left - w) \<le> N * 1024" using ch(1,2) cb(1) Suc.prems(7) by simp
      show "unat (left - w) \<le> length (drop (unat w) buf)" using ch(2,4) cb(1) Suc.prems(8) by simp
    qed (use Suc.prems(3,5) in simp_all)
    then obtain s' where s': "write_loop fuel i (drop (unat w) buf) (left - w) (offset + w) s1 = Some (offset + left, s')"
      "leads ok sec {} s1 (held s1) (view ok sec s') s'"
      "wrote dsc kb N (unat (offset + w)) (take (unat (left - w)) (drop (unat w) buf)) (view ok sec s1 (i_dev n)) (view ok sec s' (i_dev n))"
      "\<And>d. d \<noteq> i_dev n \<Longrightarrow> view ok sec s' d = view ok sec s1 d"
      unfolding ch(3) by blast
    have split: "take (unat left) buf = take (unat w) buf @ take (unat (left - w)) (drop (unat w) buf)"
      using ch(2,4) cb(1) by (simp flip: take_add)
    have lw: "length (take (unat w) buf) = unat w" "unat w = chunk offset left" using ch(4) cb(1) Suc.prems(8) by simp_all
    obtain c where h: "held s (i_buf n) = Some (i_dev n, kb, c)" "good ok sec s" "i_desc n + 32 \<le> 1024"
      using Suc.prems(1) by (auto simp: open_inode_def)
    have "wrote dsc kb N (unat offset) (take (unat left) buf) V (view ok sec s' (i_dev n))"
      unfolding split
    proof (rule wrote_append [OF s1(3)])
      show "wrote dsc kb N (unat offset + length (take (unat w) buf)) (take (unat (left - w)) (drop (unat w) buf))
          (view ok sec s1 (i_dev n)) (view ok sec s' (i_dev n))"
        using s'(3) ch(1) lw by simp
      show "take (unat w) buf \<noteq> []" using lw cb(2) [OF pos] by auto
      show "dsc + 32 \<le> length (V kb)" using held_data(2) [OF h(2,1)] h(3) Suc.prems(2,3) by (simp add: BLOCK_SIZE_def)
      show "unat offset + length (take (unat w) buf) + length (take (unat (left - w)) (drop (unat w) buf)) < 4294967296"
        using off lw(1) ch(2,4) cb(1) Suc.prems(8) by (auto simp: min_def)
    qed
    moreover have "leads ok sec {} s (held s) (view ok sec s') s'"
      using leads_trans [OF s1(2)] s'(2) l1 by fastforce
    ultimately show ?thesis using s1(1,4) s'(1,4) by auto
  qed
qed

text \<open>\<open>inode_write\<close> on blocks the file has: the bytes are written, the size grows when they reach beyond it, and
  the time is set in the descriptor, which may be left stale.\<close>

lemma inode_write_bytes:
  fixes s :: "('d, 'y) fstate_scheme"
  assumes o: "open_inode ok sec i n kb s" and V: "V = view ok sec s (i_dev n)" and dsc: "dsc = i_desc n"
    and f: "file_ok (ok (devices s) (hw s) (i_dev n)) V kb (dsc + ID_ZONE) N" "N \<le> 262663"
    and mode: "ISREG (u16_at (V kb) dsc)"
    and len: "unat offset + unat len \<le> N * 1024" "unat len \<le> length buf"
  obtains s1 V1 where "inode_write i buf len offset s = Some (int (unat len), s1\<lparr>inode_table := (inode_table s)[i := n\<lparr>i_atime := now s\<rparr>]\<rparr>)"
    "leads ok sec {i_buf n} s (held s) (view ok sec s1) s1"
    "wrote dsc kb N (unat offset) (take (unat len) buf) V V1"
    "view ok sec s1 (i_dev n) = V1(kb := set32 (V1 kb) (dsc + ID_MTIME) (now s))"
    "\<And>d. d \<noteq> i_dev n \<Longrightarrow> view ok sec s1 d = view ok sec s d"
proof -
  obtain c where h: "held s (i_buf n) = Some (i_dev n, kb, c)" "good ok sec s" "ino i s = Some n" "dsc + 32 \<le> 1024"
    using o dsc by (auto simp: open_inode_def)
  let ?d = "i_dev n"
  have md: "desc16 i ID_MODE s = Some (u16_at (V kb) dsc)"
    using h(3,4) held_data(1,2) [OF h(2,1)] V dsc by (simp add: desc16_def ID_MODE_def rd16_at BLOCK_SIZE_def)
  obtain t where t: "write_loop (unat len) i buf len offset s = Some (offset + len, t)"
    "leads ok sec {} s (held s) (view ok sec t) t" "wrote dsc kb N (unat offset) (take (unat len) buf) V (view ok sec t ?d)"
    "\<forall>d. d \<noteq> ?d \<longrightarrow> view ok sec t d = view ok sec s d"
    using write_loop_bytes [OF o V dsc f order_refl len] by blast
  note lt = t(2) [unfolded leads_def]
  note rt = rest_same_fs [of s t]
  have it: "ino i t = Some n" "now t = now s" using h(3) lt rt by (simp_all add: ino_def)
  have g: "good ok sec t" "held t (i_buf n) = Some (?d, kb, c)" using lt h(1) by simp_all
  let ?x = "set32 (view ok sec t ?d kb) (dsc + ID_MTIME) (now s)"
  have w: "wr32 (view ok sec t ?d kb) (i_desc n + ID_MTIME) (now t) = Some ?x"
    using held_data(2) [OF g] h(4) dsc it(2) by (simp add: wr32_at ID_MTIME_def BLOCK_SIZE_def)
  have lx: "length ?x = BLOCK_SIZE" using held_data(2) [OF g] by simp
  obtain u where u: "upd_data (i_buf n) (\<lambda>d. wr32 d (i_desc n + ID_MTIME) (now t)) t = Some u"
    "leads ok sec (if dirty t (i_buf n) then {} else {i_buf n}) t (held t) ((view ok sec t)(?d := (view ok sec t ?d)(kb := ?x))) u"
    by (rule upd_data_leads [OF g, where f = "\<lambda>d. wr32 d (i_desc n + ID_MTIME) (now t)" and x = "?x"]) (rule w, rule lx, rule that)
  have l2: "leads ok sec {i_buf n} t (held t) ((view ok sec t)(?d := (view ok sec t ?d)(kb := ?x))) u"
    by (rule leads_mono [OF u(2)]) simp
  note lu = l2 [unfolded leads_def]
  have ru: "rest_same s u" using lt lu rest_same_trans by blast
  have iu: "ino i u = Some n" "now u = now s" "inode_table u = inode_table s" using h(3) rest_same_fs [OF ru] by (simp_all add: ino_def)
  have ii: "i < length (inode_table s)" "inode_table s ! i = n" using h(3) by (simp_all add: ino_def rd_eq_Some)
  let ?T = "(inode_table s)[i := n\<lparr>i_atime := now s\<rparr>]" and ?n = "n\<lparr>i_atime := now s\<rparr>"
  let ?u = "u\<lparr>inode_table := ?T\<rparr>"
  have up: "upd_ino i (\<lambda>n. n\<lparr>i_atime := now u\<rparr>) u = Some ?u" using iu ii by (simp add: upd_ino_def)
  have gu: "good ok sec ?u" "held ?u (i_buf n) = Some (?d, kb, c)" using lu g by simp_all
  obtain v where v: "bwrite (i_buf n) ?u = Some v" "leads ok sec {} ?u (held ?u) (view ok sec ?u) v"
    by (rule bwrite_leads [OF gu]) (rule that)
  note lv = v(2) [unfolded leads_def]
  let ?v = "v\<lparr>inode_table := inode_table s\<rparr>"
  have tv: "inode_table v = ?T" using rest_same_fs(1) [of ?u v] lv by simp
  have vv: "v = ?v\<lparr>inode_table := ?T\<rparr>" using tv by simp
  have rs: "rest_same u ?v"
  proof -
    have "v = ?u\<lparr>devices := devices v, hw := hw v, buffers := buffers v, free_list := free_list v, wait_list := wait_list v, hash_table := hash_table v\<rparr>"
      using lv by (simp add: rest_same_def)
    then have "?v = (?u\<lparr>devices := devices v, hw := hw v, buffers := buffers v, free_list := free_list v, wait_list := wait_list v,
        hash_table := hash_table v\<rparr>)\<lparr>inode_table := inode_table s\<rparr>" by metis
    then show ?thesis using iu(3) by (simp add: rest_same_def)
  qed
  have lr: "leads ok sec {i_buf n} s (held s) (view ok sec ?v) ?v"
  proof -
    have "leads ok sec {} u (held u) (view ok sec ?v) ?v" using lv rs by (simp add: leads_def)
    then have "leads ok sec ({i_buf n} \<union> {}) t (held t) (view ok sec ?v) ?v" using leads_trans [OF l2] lu by simp
    then show ?thesis using leads_trans [OF t(2)] lt by fastforce
  qed
  have off: "unat offset + unat len < 2147483648" using len(1) f(2) by linarith
  have si: "sint (offset + len - offset) = int (unat len)" using off by (simp add: sint_unat32)
  have "inode_write i buf len offset s = Some (int (unat len), v)"
    using md mode t(1) it u(1) iu ii up v(1) si by (simp add: inode_write_def set_desc32_def ino_def rd_eq_Some)
  moreover have "view ok sec ?v ?d = (view ok sec t ?d)(kb := ?x)" "d \<noteq> ?d \<Longrightarrow> view ok sec ?v d = view ok sec s d" for d
    using lv lu t(4) by simp_all
  ultimately show ?thesis using that [of ?v "view ok sec t ?d"] vv lr t(3) by metis
qed

text \<open>Reading after writing.\<close>

lemma read_after_write:
  fixes s :: "('d, 'y) fstate_scheme"
  assumes o: "open_inode ok sec i n kb s" and V: "V = view ok sec s (i_dev n)"
    and f: "file_ok (ok (devices s) (hw s) (i_dev n)) V kb (i_desc n + ID_ZONE) N" "N \<le> 262663"
    and mode: "ISREG (u16_at (V kb) (i_desc n))"
    and sz: "sz = unat (u32_at (V kb) (i_desc n + ID_SIZE))" "sz \<le> N * 1024"
    and len: "unat offset + unat len \<le> N * 1024" "unat len \<le> length buf" "len \<noteq> 0"
  shows "\<exists>s1. inode_write i buf len offset s = Some (int (unat len), s1)
    \<and> (\<exists>s2. inode_read i len offset s1 = Some (int (unat len), take (unat len) buf, s2))
    \<and> (\<forall>l q. 0 < unat l \<and> unat q + unat l \<le> sz \<and> (unat q + unat l \<le> unat offset \<or> unat offset + unat len \<le> unat q) \<longrightarrow>
         (\<exists>bs s2 s3. inode_read i l q s = Some (int (unat l), bs, s2) \<and> inode_read i l q s1 = Some (int (unat l), bs, s3)))"
proof -
  let ?d = "i_dev n" and ?B = "i_desc n + ID_ZONE" and ?n = "n\<lparr>i_atime := now s\<rparr>"
  obtain t V1 where w: "inode_write i buf len offset s = Some (int (unat len), t\<lparr>inode_table := (inode_table s)[i := ?n]\<rparr>)"
    "leads ok sec {i_buf n} s (held s) (view ok sec t) t" "wrote (i_desc n) kb N (unat offset) (take (unat len) buf) V V1"
    "view ok sec t ?d = V1(kb := set32 (V1 kb) (i_desc n + ID_MTIME) (now s))"
    by (rule inode_write_bytes [OF o V refl f mode len(1,2)]) (rule that)
  let ?s1 = "t\<lparr>inode_table := (inode_table s)[i := ?n]\<rparr>" and ?V2 = "V1(kb := set32 (V1 kb) (i_desc n + ID_MTIME) (now s))"
  note lw = w(2) [unfolded leads_def]
  have o1: "open_inode ok sec i ?n kb ?s1" using o lw by (auto simp: open_inode_def ino_def rd_eq_Some)
  have V2: "?V2 = view ok sec ?s1 (i_dev ?n)" using w(4) by simp
  have f1: "file_ok (ok (devices s) (hw s) ?d) V1 kb ?B N" by (rule file_ok_wrote [OF f(1) w(3)])
  note st = stamped [OF f1 refl]
  have f2: "file_ok (ok (devices ?s1) (hw ?s1) (i_dev ?n)) ?V2 kb ?B N" using st(3) lw by simp
  have lb: "length (take (unat len) buf) = unat len" "take (unat len) buf \<noteq> []" using len by (auto simp: unat_eq_zero)
  have dsc: "i_desc n + 32 \<le> length (V kb)"
    using o V held_data(2) [of ok sec s "i_buf n" ?d kb] by (auto simp: open_inode_def BLOCK_SIZE_def)
  have small: "unat offset + unat len < 4294967296" using len(1) f(2) by linarith
  have V1kb: "V1 kb = (if sz < unat offset + unat len then set32 (V kb) (i_desc n + ID_SIZE) (of_nat (unat offset + unat len)) else V kb)"
    using w(3) lb sz(1) by (simp add: wrote_def)
  have m1: "u16_at (?V2 kb) (i_desc n) = u16_at (V kb) (i_desc n)"
    by (simp add: V1kb u16_at_set32_other ID_SIZE_def ID_MTIME_def)
  have sz1: "unat (u32_at (?V2 kb) (i_desc n + ID_SIZE)) = max sz (unat offset + unat len)"
  proof -
    have "u32_at (?V2 kb) (i_desc n + ID_SIZE) = u32_at (V1 kb) (i_desc n + ID_SIZE)"
      by (simp add: u32_at_set32_other ID_SIZE_def ID_MTIME_def)
    moreover have "unat (u32_at (V1 kb) (i_desc n + ID_SIZE)) = max sz (unat offset + unat len)"
    proof (cases "sz < unat offset + unat len")
      case True
      then have "u32_at (V1 kb) (i_desc n + ID_SIZE) = of_nat (unat offset + unat len)"
        using dsc by (simp add: V1kb u32_at_set32 ID_SIZE_def del: of_nat_add)
      then show ?thesis using True small by (simp add: unat_of_nat32 del: of_nat_add)
    next
      case False
      then show ?thesis using sz(1) by (simp add: V1kb)
    qed
    ultimately show ?thesis by simp
  qed
  have mx: "max sz (unat offset + unat len) \<le> N * 1024" "N * 1024 \<le> 268966912" using sz(2) len(1) f(2) by simp_all
  have map0: "mapped_block (ok (devices s) (hw s) ?d) V kb ?B (p div 1024)" if "p < N * 1024" for p
    using f(1) that by (auto simp: file_ok_def less_mult_imp_div_less)
  have map1: "mapped_block (ok (devices ?s1) (hw ?s1) (i_dev ?n)) ?V2 kb ?B (p div 1024)" if "p < N * 1024" for p
    using f2 that by (auto simp: file_ok_def less_mult_imp_div_less)
  have bytes: "fbyte ?V2 kb ?B p = (if unat offset \<le> p \<and> p < unat offset + unat len then take (unat len) buf ! (p - unat offset) else fbyte V kb ?B p)"
    if "p < N * 1024" for p
    using st(2) [OF that] w(3) that lb by (simp add: wrote_def)
  have rd1: "\<exists>s2. inode_read i l q ?s1 = Some (int (unat l), map (fbyte ?V2 kb ?B) [unat q..<unat q + unat l], s2)"
    if "0 < unat l" "unat q + unat l \<le> max sz (unat offset + unat len)" for l q
    using inode_read_bytes [OF o1 V2 refl, of "max sz (unat offset + unat len)" q l] m1 mode sz1 mx that map1
    by (auto simp: min_def split: if_splits)
  have rd0: "\<exists>s2. inode_read i l q s = Some (int (unat l), map (fbyte V kb ?B) [unat q..<unat q + unat l], s2)"
    if "0 < unat l" "unat q + unat l \<le> sz" for l q
    using inode_read_bytes [OF o V refl, of sz q l] mode sz mx that map0
    by (auto simp: min_def split: if_splits)
  have "map (fbyte ?V2 kb ?B) [unat offset..<unat offset + unat len] = take (unat len) buf"
    using bytes len(1) lb by (intro nth_equalityI) simp_all
  then have "\<exists>s2. inode_read i len offset ?s1 = Some (int (unat len), take (unat len) buf, s2)"
    using rd1 [of len offset] len(3) by (simp add: unat_gt_0)
  moreover have "\<exists>bs s2 s3. inode_read i l q s = Some (int (unat l), bs, s2) \<and> inode_read i l q ?s1 = Some (int (unat l), bs, s3)"
    if a: "0 < unat l" "unat q + unat l \<le> sz" "unat q + unat l \<le> unat offset \<or> unat offset + unat len \<le> unat q" for l q
  proof -
    have "map (fbyte ?V2 kb ?B) [unat q..<unat q + unat l] = map (fbyte V kb ?B) [unat q..<unat q + unat l]"
      using a bytes sz(2) by (auto intro!: map_cong)
    then show ?thesis using rd0 [OF a(1,2)] rd1 [of l q] a(1,2) by fastforce
  qed
  ultimately show ?thesis using w(1) by blast
qed

end

subsection \<open>Files on the RAM disks\<close>

interpretation ramfs: fs_disk "ram_ok b" "ram_sec b" "TYPE('y fstate_ext)" for b
  by unfold_locales

text \<open>A file of one block, its inode in memory, on a RAM disk full of zeros.\<close>

definition sample_desc :: bytes where
  "sample_desc = [0, 0x80, 0, 0, 5, 0, 0, 0, 0, 0, 0, 0, 0, 1, 7, 0] @ replicate 1008 0"

definition sample_inode :: inode where
  "sample_inode = \<lparr>i_desc = 0, i_buf = 0, i_dev = 1, i_nr = 1, i_count = 1, i_atime = 0, i_ctime = 0, i_mount = 0, i_pipe = False\<rparr>"

definition sample_fs :: "ram dstate \<Rightarrow> ram fstate" where
  "sample_fs d = \<lparr>devices = devices d, hw = hw d,
     buffers = [\<lparr>bf_data = sample_desc, bf_dev = 1, bf_block = 2, bf_count = 1, bf_dirty = True, bf_valid = True, bf_lock = lock_init 0\<rparr>],
     free_list = [], wait_list = [], hash_table = (\<lambda>h. if h = hash 1 2 then [0] else []), raw_data = (\<lambda>_. replicate BLOCK_SIZE 0), cur = 1,
     super_table = [], root = 0, inode_table = [sample_inode], file_table = [],
     me = \<lparr>ft_uid = 0, ft_gid = 0, ft_umask = 0, ft_iroot = 0, ft_ipwd = 0, ft_pwd = [], ft_files = []\<rparr>, now = 9\<rparr>"

lemma sample_open:
  assumes "ram_disks 1 (devices d)"
  shows "open_inode (ram_ok 1) (ram_sec 1) 0 sample_inode 2 (sample_fs d)"
    "view (ram_ok 1) (ram_sec 1) (sample_fs d) 1 2 = sample_desc"
    "ram_ok 1 (devices (sample_fs d)) (hw (sample_fs d)) 1 7"
    "file_ok (ram_ok 1 (devices (sample_fs d)) (hw (sample_fs d)) 1) (view (ram_ok 1) (ram_sec 1) (sample_fs d) 1) 2 (0 + ID_ZONE) 1"
proof -
  have ok: "ram_ok 1 (devices (sample_fs d)) (hw (sample_fs d)) 1 k" if "unat k < 1024" for k
    unfolding ram_ok_def using assms that by (intro conjI exI [of _ 0]) (simp_all add: sample_fs_def RAMDISK_NR_def)
  have ok2: "ram_ok 1 (devices (sample_fs d)) (hw (sample_fs d)) 1 2" by (rule ok) simp
  show ok7: "ram_ok 1 (devices (sample_fs d)) (hw (sample_fs d)) 1 7" by (rule ok) simp
  have len: "length sample_desc = BLOCK_SIZE" by (simp add: sample_desc_def BLOCK_SIZE_def)
  have c: "cache_inv (ram_ok 1) (ram_sec 1) (sample_fs d)"
    using ok2 len by (simp add: cache_but_def buf_ok_def sample_fs_def hash_of_def lock_free_def lock_init_def mutex_init_def)
  have p: "pins (sample_fs d) = {0}" by (auto simp: pins_def sample_fs_def)
  have h: "held (sample_fs d) 0 = Some (1, 2, 1)" unfolding held_def p by (simp add: sample_fs_def)
  have g: "good (ram_ok 1) (ram_sec 1) (sample_fs d)" using c by (simp add: good_def sample_fs_def MAX_BUFFERS_def)
  show "open_inode (ram_ok 1) (ram_sec 1) 0 sample_inode 2 (sample_fs d)"
    using g h unfolding open_inode_def dom_held p by (simp add: sample_inode_def ino_def sample_fs_def MAX_BUFFERS_def)
  show v: "view (ram_ok 1) (ram_sec 1) (sample_fs d) 1 2 = sample_desc"
    using held_data(1) [OF g h] by (simp add: data_of_def sample_fs_def)
  have fb: "fblock (view (ram_ok 1) (ram_sec 1) (sample_fs d) 1) 2 (0 + ID_ZONE) 0 = 7"
    unfolding fblock_def v by (simp add: u16_at_def ID_ZONE_def sample_desc_def nth_append)
  have ix: "index_blocks (view (ram_ok 1) (ram_sec 1) (sample_fs d) 1) 2 (0 + ID_ZONE) 0 = {}" by (simp add: index_blocks_def)
  have "(ucast (7 :: u16) :: u32) = 7" by simp
  then show "file_ok (ram_ok 1 (devices (sample_fs d)) (hw (sample_fs d)) 1) (view (ram_ok 1) (ram_sec 1) (sample_fs d) 1) 2 (0 + ID_ZONE) 1"
    unfolding file_ok_def mapped_block_def using fb ix ok7 by (simp add: inj_on_def)
qed

lemma sample_file_fields:
  "u16_at sample_desc 0 = 0x8000" "u32_at sample_desc ID_SIZE = 5" "ISREG (u16_at sample_desc 0)"
  by (simp_all add: u16_at_def u32_at_def sample_desc_def nth_append ID_SIZE_def ISREG_def IFMT_def IFREG_def)

lemma sample_disks:
  obtains d where "ramdisk_init (device_init (\<lambda>_. 7)) = Some d" "ram_disks 1 (devices d)"
  using ramdisk_init_ok [OF free_from_init, of "\<lambda>_. 7"] by (auto simp: RAMDISK_NR_def DEVICE_NR_def)

text \<open>C14: \<open>bmap\<close> is bounded by the tree of block numbers of an inode: a block at \<open>TOTAL_BLOCK\<close> or beyond is
  refused, and every block below it is resolved through the direct, the single and the double indirect
  numbers to its number on the disk, or to 0, without changing a block or keeping a buffer. This is for lookups,
  without \<open>create\<close>, on a RAM disk.\<close>

theorem bmap_within_bounds:
  fixes s :: "(ram, 'y) fstate_scheme"
  assumes "open_inode (ram_ok b) (ram_sec b) i n kb s"
    and "\<And>k. k \<in> index_blocks (view (ram_ok b) (ram_sec b) s (i_dev n)) kb (i_desc n + ID_ZONE) (unat blk) \<Longrightarrow> k \<noteq> 0
       \<Longrightarrow> ram_ok b (devices s) (hw s) (i_dev n) (ucast k)"
  shows "if blk < TOTAL_BLOCK
    then \<exists>s1. bmap i blk False s = Some (fblock (view (ram_ok b) (ram_sec b) s (i_dev n)) kb (i_desc n + ID_ZONE) (unat blk), s1)
      \<and> view (ram_ok b) (ram_sec b) s1 = view (ram_ok b) (ram_sec b) s \<and> held s1 = held s \<and> good (ram_ok b) (ram_sec b) s1
    else bmap i blk False s = None"
proof (cases "blk < TOTAL_BLOCK")
  case True
  then have lt: "unat blk < 262663"
    by (simp add: word_less_nat_alt TOTAL_BLOCK_def DIRECT_BLOCK_def INDIRECT1_BLOCK_def INDIRECT2_BLOCK_def BLOCK_INDEXES_def)
  obtain c where c: "held s (i_buf n) = Some (i_dev n, kb, c)" using assms(1) by (auto simp: open_inode_def)
  note o = assms(1) [unfolded open_inode_def]
  obtain s1 where "bmap i blk False s = Some (fblock (view (ram_ok b) (ram_sec b) s (i_dev n)) kb (i_desc n + ID_ZONE) (unat blk), s1)"
    "leads (ram_ok b) (ram_sec b) {} s (held s) (view (ram_ok b) (ram_sec b) s) s1"
    by (rule ramfs.bmap_lookup [of b s i n kb c blk _ False, OF _ _ c _ lt _ _ refl]) (use o assms(2) in auto)
  then show ?thesis using True by (auto simp: leads_def)
qed (simp add: bmap_def)

theorem bmap_within_bounds_witness:
  "\<exists>d s1. ramdisk_init (device_init (\<lambda>_. 7)) = Some d \<and> bmap 0 0 False (sample_fs d) = Some (7, s1)"
proof -
  obtain d where d: "ramdisk_init (device_init (\<lambda>_. 7)) = Some d" "ram_disks 1 (devices d)" by (rule sample_disks)
  have ix: "index_blocks V kb base (unat (0 :: u32)) = {}" for V kb base by (simp add: index_blocks_def)
  have z: "fblock (view (ram_ok 1) (ram_sec 1) (sample_fs d) (i_dev sample_inode)) 2 (i_desc sample_inode + ID_ZONE) (unat (0 :: u32)) = 7"
    using sample_open(2) [OF d(2)] by (simp add: fblock_def sample_inode_def u16_at_def ID_ZONE_def sample_desc_def nth_append)
  have t: "(0 :: u32) < TOTAL_BLOCK"
    by (simp add: TOTAL_BLOCK_def DIRECT_BLOCK_def INDIRECT1_BLOCK_def INDIRECT2_BLOCK_def BLOCK_INDEXES_def)
  show ?thesis
    using bmap_within_bounds [OF sample_open(1) [OF d(2)], of 0, unfolded ix z] t d(1) by auto
qed

text \<open>C13: For a file on a RAM disk, when every block of the range that is read is allocated, \<open>inode_read\<close> gives the
  bytes of the file from the offset on, as many as are asked for and the file has, and leaves every block and every
  buffer in use as it was; at the end of the file and beyond, it returns EOF. A hole in the range is not covered: there
  the assertion behind \<open>bmap\<close> stops the kernel.\<close>

theorem inode_read_gives_file:
  fixes s :: "(ram, 'y) fstate_scheme"
  assumes "open_inode (ram_ok b) (ram_sec b) i n kb s" "V = view (ram_ok b) (ram_sec b) s (i_dev n)"
    and "ISREG (u16_at (V kb) (i_desc n)) \<or> ISDIR (u16_at (V kb) (i_desc n))"
    and "sz = unat (u32_at (V kb) (i_desc n + ID_SIZE))" "sz \<le> 268966912"
    and "\<And>p. unat offset \<le> p \<Longrightarrow> p < min (unat offset + unat len) sz
      \<Longrightarrow> mapped_block (ram_ok b (devices s) (hw s) (i_dev n)) V kb (i_desc n + ID_ZONE) (p div 1024)"
  shows "if sz \<le> unat offset then inode_read i len offset s = Some (EOF, [], s)
    else \<exists>s'. inode_read i len offset s = Some (int (min (unat len) (sz - unat offset)),
          map (fbyte V kb (i_desc n + ID_ZONE)) [unat offset..<min (unat offset + unat len) sz],
          s'\<lparr>inode_table := (inode_table s)[i := n\<lparr>i_atime := now s\<rparr>]\<rparr>)
        \<and> leads (ram_ok b) (ram_sec b) {} s (held s) (view (ram_ok b) (ram_sec b) s) s'"
  by (rule ramfs.inode_read_bytes [OF assms(1,2) refl assms(3-6)])

theorem inode_read_gives_file_witness:
  "\<exists>d s'. ramdisk_init (device_init (\<lambda>_. 7)) = Some d \<and> inode_read 0 100 1 (sample_fs d) = Some (4, [7, 7, 7, 7], s')"
proof -
  obtain d where d: "ramdisk_init (device_init (\<lambda>_. 7)) = Some d" "ram_disks 1 (devices d)" "hw d = (\<lambda>_. 7)"
    using ramdisk_init_ok [OF free_from_init, of "\<lambda>_. 7"] by (auto simp: RAMDISK_NR_def DEVICE_NR_def device_init_def)
  let ?V = "view (ram_ok 1) (ram_sec 1) (sample_fs d) (i_dev sample_inode)"
  have n: "i_dev sample_inode = 1" "i_desc sample_inode = 0" by (simp_all add: sample_inode_def)
  have kb: "?V 2 = sample_desc" using sample_open(2) [OF d(2)] n by simp
  have mode: "ISREG (u16_at (?V 2) (i_desc sample_inode)) \<or> ISDIR (u16_at (?V 2) (i_desc sample_inode))" using sample_file_fields(3) kb n by simp
  have sz: "5 = unat (u32_at (?V 2) (i_desc sample_inode + ID_SIZE))" using sample_file_fields(2) kb n by simp
  have m: "mapped_block (ram_ok 1 (devices (sample_fs d)) (hw (sample_fs d)) (i_dev sample_inode)) ?V 2 (i_desc sample_inode + ID_ZONE) (p div 1024)"
    if "unat (1 :: u32) \<le> p" "p < min (unat (1 :: u32) + unat (100 :: u32)) 5" for p
    using sample_open(4) [OF d(2)] n that by (simp add: file_ok_def)
  have fb: "fblock ?V 2 ID_ZONE 0 = 7" using kb by (simp add: fblock_def u16_at_def ID_ZONE_def sample_desc_def nth_append)
  have v7: "?V 7 = replicate BLOCK_SIZE 7"
  proof -
    have "buf_of 1 7 (sample_fs d) = None" by (simp add: buf_of_None sample_fs_def)
    then show ?thesis using sample_open(3) [OF d(2)] d(3) n
      by (simp add: view_def block_def ram_sec_def ram_get_def map_replicate_const) (simp add: sample_fs_def map_replicate_const)
  qed
  have b: "fbyte ?V 2 ID_ZONE p = 7" if "p < 5" for p using that fb v7 by (simp add: fbyte_def BLOCK_SIZE_def)
  have "map (fbyte ?V 2 ID_ZONE) [Suc 0..<5] = map (\<lambda>_. 7) [Suc 0..<5]" by (intro map_cong refl) (rule b, simp)
  then have r: "map (fbyte ?V 2 ID_ZONE) [Suc 0..<5] = [7, 7, 7, 7]" by (simp only: map_replicate_const) (simp add: eval_nat_numeral)
  have "\<exists>s'. inode_read 0 100 1 (sample_fs d) = Some (int (min (unat (100 :: u32)) (5 - unat (1 :: u32))),
      map (fbyte ?V 2 (i_desc sample_inode + ID_ZONE)) [unat (1 :: u32)..<min (unat (1 :: u32) + unat (100 :: u32)) 5],
      s'\<lparr>inode_table := (inode_table (sample_fs d))[0 := sample_inode\<lparr>i_atime := now (sample_fs d)\<rparr>]\<rparr>)"
    using inode_read_gives_file [where offset = 1 and len = 100, OF sample_open(1) [OF d(2)] refl mode sz _ m] by auto
  then show ?thesis using d(1) r n by auto
qed

text \<open>C2: What \<open>inode_write\<close> writes at an offset of a file, on blocks the file has, \<open>inode_read\<close> gives back, also when
  the write makes the file longer, and every other part of the file reads as before. The file lies on a RAM disk,
  and its first \<open>N\<close> blocks, which the write stays within, are allocated.\<close>

theorem write_then_read:
  fixes s :: "(ram, 'y) fstate_scheme"
  assumes "open_inode (ram_ok b) (ram_sec b) i n kb s" "V = view (ram_ok b) (ram_sec b) s (i_dev n)"
    and "file_ok (ram_ok b (devices s) (hw s) (i_dev n)) V kb (i_desc n + ID_ZONE) N" "N \<le> 262663"
    and "ISREG (u16_at (V kb) (i_desc n))" "sz = unat (u32_at (V kb) (i_desc n + ID_SIZE))" "sz \<le> N * 1024"
    and "unat offset + unat len \<le> N * 1024" "unat len \<le> length buf" "len \<noteq> 0"
  shows "\<exists>s1. inode_write i buf len offset s = Some (int (unat len), s1)
    \<and> (\<exists>s2. inode_read i len offset s1 = Some (int (unat len), take (unat len) buf, s2))
    \<and> (\<forall>l q. 0 < unat l \<and> unat q + unat l \<le> sz \<and> (unat q + unat l \<le> unat offset \<or> unat offset + unat len \<le> unat q) \<longrightarrow>
         (\<exists>bs s2 s3. inode_read i l q s = Some (int (unat l), bs, s2) \<and> inode_read i l q s1 = Some (int (unat l), bs, s3)))"
  by (rule ramfs.read_after_write [OF assms])

theorem write_then_read_witness:
  "\<exists>d s1 s2. ramdisk_init (device_init (\<lambda>_. 7)) = Some d \<and> inode_write 0 [1, 2, 3] 3 10 (sample_fs d) = Some (3, s1)
    \<and> inode_read 0 3 10 s1 = Some (3, [1, 2, 3], s2)"
proof -
  obtain d where d: "ramdisk_init (device_init (\<lambda>_. 7)) = Some d" "ram_disks 1 (devices d)" by (rule sample_disks)
  let ?V = "view (ram_ok 1) (ram_sec 1) (sample_fs d) (i_dev sample_inode)"
  have n: "i_dev sample_inode = 1" "i_desc sample_inode = 0" by (simp_all add: sample_inode_def)
  have f: "file_ok (ram_ok 1 (devices (sample_fs d)) (hw (sample_fs d)) (i_dev sample_inode)) ?V 2 (i_desc sample_inode + ID_ZONE) 1"
    using sample_open(4) [OF d(2)] n by simp
  have kb: "?V 2 = sample_desc" using sample_open(2) [OF d(2)] n by simp
  have m: "ISREG (u16_at (?V 2) (i_desc sample_inode))" using sample_file_fields(3) kb n by simp
  have sz: "5 = unat (u32_at (?V 2) (i_desc sample_inode + ID_SIZE))" using sample_file_fields(2) kb n by simp
  show ?thesis
    using write_then_read [OF sample_open(1) [OF d(2)] refl f _ m sz, of 10 3 "[1, 2, 3]"] d(1) by auto
qed

end
