(* ===== verification/Console.thy ===== *)
theory Console
  imports CString
begin

section \<open>The console: \<open>kernel/console.c\<close>\<close>

text \<open>
  The record is \<open>console_t\<close>, with the memory it writes to (\<open>video\<close>, bytes by address; an access
  outside has no result) and the registers of the CRT chip (\<open>crt\<close>). The bytes a program prints are
  interpreted by a state machine: plain characters, or escape sequences with up to \<open>ARG_NR\<close> numbers.
  The beep is left out.
\<close>

definition CRT_START_ADDR_H :: u8 where [c_defs]: "CRT_START_ADDR_H = 0xC"
definition CRT_START_ADDR_L :: u8 where [c_defs]: "CRT_START_ADDR_L = 0xD"
definition CRT_CURSOR_H :: u8 where [c_defs]: "CRT_CURSOR_H = 0xE"
definition CRT_CURSOR_L :: u8 where [c_defs]: "CRT_CURSOR_L = 0xF"

definition MEM_BASE :: u32 where [c_defs]: "MEM_BASE = 0xB8000"
definition MEM_SIZE :: u32 where [c_defs]: "MEM_SIZE = 0x4000"
definition WIDTH :: u32 where [c_defs]: "WIDTH = 80"
definition HEIGHT :: u32 where [c_defs]: "HEIGHT = 25"
definition ROW_SIZE :: u32 where [c_defs]: "ROW_SIZE = WIDTH * 2"
definition STYLE :: u8 where [c_defs]: "STYLE = 7"
definition BLINK :: u8 where [c_defs]: "BLINK = 0x80"
definition BOLD :: u8 where [c_defs]: "BOLD = 0x0F"
definition ERASE :: u16 where [c_defs]: "ERASE = 0x0720"
definition ARG_NR :: nat where [c_defs]: "ARG_NR = 16"

definition ST_NORMAL :: u32 where [c_defs]: "ST_NORMAL = 0"
definition ST_BOLD :: u32 where [c_defs]: "ST_BOLD = 1"
definition ST_REVERSE :: u32 where [c_defs]: "ST_REVERSE = 7"

definition NUL :: u8 where [c_defs]: "NUL = 0x00"
definition ESC :: u8 where [c_defs]: "ESC = 0x1B"
definition BEL :: u8 where [c_defs]: "BEL = 0x07"
definition BS :: u8 where [c_defs]: "BS = 0x08"
definition HT :: u8 where [c_defs]: "HT = 0x09"
definition LF :: u8 where [c_defs]: "LF = 0x0A"
definition VT :: u8 where [c_defs]: "VT = 0x0B"
definition FF :: u8 where [c_defs]: "FF = 0x0C"
definition CR :: u8 where [c_defs]: "CR = 0x0D"
definition DEL :: u8 where [c_defs]: "DEL = 0x7F"

datatype con_state = STATE_NOR | STATE_ESC | STATE_QUE | STATE_ARG | STATE_CSI

record console =
  mem_base :: u32
  mem_size :: u32
  mem_end :: u32
  con_screen :: u32
  scr_size :: u32
  con_pos :: u32
  con_x :: u32
  con_y :: u32
  saved_x :: u32
  saved_y :: u32
  con_width :: u32
  con_height :: u32
  row_size :: u32
  con_state :: con_state
  con_args :: "u32 list"
  con_argc :: u32
  con_ques :: bool
  con_erase :: u16
  con_style :: u8
  video :: mem
  crt :: "u8 \<Rightarrow> u8"

subsection \<open>Screen, cursor and memory\<close>

definition set_screen :: "console \<Rightarrow> console" where
  "set_screen con = con\<lparr>crt := (crt con)
     (CRT_START_ADDR_H := ucast (drop_bit 9 (con_screen con - mem_base con) AND 0xff),
      CRT_START_ADDR_L := ucast (drop_bit 1 (con_screen con - mem_base con) AND 0xff))\<rparr>"

definition set_cursor :: "console \<Rightarrow> console" where
  "set_cursor con = con\<lparr>crt := (crt con)
     (CRT_CURSOR_H := ucast (drop_bit 9 (con_pos con - mem_base con) AND 0xff),
      CRT_CURSOR_L := ucast (drop_bit 1 (con_pos con - mem_base con) AND 0xff))\<rparr>"

definition set_xy :: "console \<Rightarrow> u32 \<Rightarrow> u32 \<Rightarrow> console" where
  "set_xy con x y = (if x > con_width con \<or> y \<ge> con_height con then con
     else con\<lparr>con_x := x, con_y := y, con_pos := con_screen con + y * row_size con + push_bit 1 x\<rparr>)"

definition save_cursor :: "console \<Rightarrow> console" where
  "save_cursor con = con\<lparr>saved_x := con_x con, saved_y := con_y con\<rparr>"

text \<open>A 16-bit cell of the memory: the character and, behind it, its style.\<close>

definition ld_cell :: "mem \<Rightarrow> u32 \<Rightarrow> u16 option" where
  "ld_cell v p = do { lo \<leftarrow> v (unat p); hi \<leftarrow> v (unat p + 1); Some (push_bit 8 (ucast hi) OR ucast lo) }"

definition st_cell :: "mem \<Rightarrow> u32 \<Rightarrow> u16 \<Rightarrow> mem option" where
  "st_cell v p c = do { v \<leftarrow> store v (unat p) (ucast c); store v (unat p + 1) (ucast (drop_bit 8 c)) }"

fun erase_cells :: "nat \<Rightarrow> u32 \<Rightarrow> u16 \<Rightarrow> mem \<Rightarrow> mem option" where
  "erase_cells 0 start c v = Some v"
| "erase_cells (Suc n) start c v = do { v \<leftarrow> st_cell v start c; erase_cells n (start + 2) c v }"

definition erase_screen :: "console \<Rightarrow> u32 \<Rightarrow> u32 \<Rightarrow> console option" where
  "erase_screen con start n = do {
     v \<leftarrow> erase_cells (unat n) start (con_erase con) (video con);
     Some (con\<lparr>video := v\<rparr>) }"

definition con_copy :: "console \<Rightarrow> u32 \<Rightarrow> u32 \<Rightarrow> u32 \<Rightarrow> console option" where
  "con_copy con dest src n = do {
     v \<leftarrow> memcpy (video con) (unat dest) (unat src) (unat n);
     Some (con\<lparr>video := v\<rparr>) }"

definition console_clear :: "console \<Rightarrow> console option" where
  "console_clear con = (
     let con = con\<lparr>con_screen := mem_base con, con_pos := mem_base con, con_x := 0, con_y := 0\<rparr> in
     let con = set_screen (set_cursor con) in
     erase_screen con (mem_base con) (drop_bit 1 (mem_size con)))"

text \<open>The window goes back to the start of the memory when there is no line left behind it.\<close>

definition rewind :: "console \<Rightarrow> console option" where
  "rewind con = (if con_screen con + scr_size con + row_size con \<ge> mem_end con then do {
       con \<leftarrow> con_copy con (mem_base con) (con_screen con) (scr_size con);
       Some (con\<lparr>con_pos := con_pos con - (con_screen con - mem_base con), con_screen := mem_base con\<rparr>) }
     else Some con)"

definition scroll_up :: "console \<Rightarrow> console option" where
  "scroll_up con = do {
     con \<leftarrow> rewind con;
     con \<leftarrow> erase_screen con (con_screen con + scr_size con) (con_width con);
     Some (set_screen (con\<lparr>con_screen := con_screen con + row_size con,
       con_pos := con_pos con + row_size con\<rparr>)) }"

definition scroll_down :: "console \<Rightarrow> console" where
  "scroll_down con = (
     let con = con\<lparr>con_screen := con_screen con - row_size con\<rparr> in
     let con = (if con_screen con < mem_base con then con\<lparr>con_screen := mem_base con\<rparr> else con) in
     set_screen con)"

subsection \<open>Plain characters\<close>

definition lf :: "console \<Rightarrow> console option" where
  "lf con = (if con_y con + 1 < con_height con
     then Some (con\<lparr>con_y := con_y con + 1, con_pos := con_pos con + row_size con\<rparr>)
     else scroll_up con)"

definition cr :: "console \<Rightarrow> console" where
  "cr con = con\<lparr>con_pos := con_pos con - push_bit 1 (con_x con), con_x := 0\<rparr>"

text \<open>Behind the last column: go on at the same place of the next line.\<close>

definition wrap_line :: "console \<Rightarrow> console option" where
  "wrap_line con = (if con_x con \<ge> con_width con
     then lf (con\<lparr>con_x := con_x con - con_width con, con_pos := con_pos con - row_size con\<rparr>)
     else Some con)"

definition con_tab :: "console \<Rightarrow> console option" where
  "con_tab con = (
     let offset = 8 - (con_x con AND 7) in
     wrap_line (con\<lparr>con_x := con_x con + offset, con_pos := con_pos con + push_bit 1 offset\<rparr>))"

definition put_cell :: "console \<Rightarrow> u32 \<Rightarrow> u16 \<Rightarrow> console option" where
  "put_cell con p c = do { v \<leftarrow> st_cell (video con) p c; Some (con\<lparr>video := v\<rparr>) }"

definition bs :: "console \<Rightarrow> console option" where
  "bs con = (if con_x con = 0 then Some con
     else let con = con\<lparr>con_x := con_x con - 1, con_pos := con_pos con - 2\<rparr> in
       put_cell con (con_pos con) (con_erase con))"

definition del :: "console \<Rightarrow> console option" where
  "del con = put_cell con (con_pos con) (con_erase con)"

definition con_chr :: "console \<Rightarrow> u8 \<Rightarrow> console option" where
  "con_chr con ch = do {
     con \<leftarrow> wrap_line con;
     v \<leftarrow> store (video con) (unat (con_pos con)) ch;
     v \<leftarrow> store v (unat (con_pos con + 1)) (con_style con);
     Some (con\<lparr>video := v, con_pos := con_pos con + 2, con_x := con_x con + 1\<rparr>) }"

definition state_normal :: "console \<Rightarrow> u8 \<Rightarrow> console option" where
  "state_normal con ch =
    (if ch = NUL then Some con
     else if ch = BEL then Some con
     else if ch = BS then bs con
     else if ch = HT then con_tab con
     else if ch = LF then do { con \<leftarrow> lf con; Some (cr con) }
     else if ch = VT \<or> ch = FF then lf con
     else if ch = CR then Some (cr con)
     else if ch = DEL then del con
     else if ch = ESC then Some (con\<lparr>con_state := STATE_ESC\<rparr>)
     else con_chr con ch)"

subsection \<open>Escape sequences\<close>

definition state_esc :: "console \<Rightarrow> u8 \<Rightarrow> console option" where
  "state_esc con ch =
    (if ch = 0x5B then Some (con\<lparr>con_state := STATE_QUE\<rparr>)
     else if ch = 0x45 then do { con \<leftarrow> lf con; Some (cr con) }
     else if ch = 0x4D then Some con
     else if ch = 0x44 then lf con
     else if ch = 0x5A then Some con
     else if ch = 0x37 then Some (save_cursor con)
     else if ch = 0x38 then Some (set_xy con (saved_x con) (saved_y con))
     else Some con)"

text \<open>The flag: go on with \<open>state_csi\<close>.\<close>

definition state_arg :: "console \<Rightarrow> u8 \<Rightarrow> (bool \<times> console) option" where
  "state_arg con ch =
    (if unat (con_argc con) \<ge> ARG_NR then Some (False, con)
     else if ch = 0x3B then Some (False, con\<lparr>con_argc := con_argc con + 1\<rparr>)
     else if ch \<ge> 0x30 \<and> ch \<le> 0x39 then do {
       a \<leftarrow> rd (con_args con) (unat (con_argc con));
       as \<leftarrow> wr (con_args con) (unat (con_argc con)) (a * 10 + ucast ch - 0x30);
       Some (False, con\<lparr>con_args := as\<rparr>) }
     else Some (True, con\<lparr>con_argc := con_argc con + 1, con_state := STATE_CSI\<rparr>))"

text \<open>The columns and lines that are erased are counted from \<open>start\<close>.\<close>

definition csi_J :: "console \<Rightarrow> console option" where
  "csi_J con = do {
     a \<leftarrow> rd (con_args con) 0;
     if a = 0 then erase_screen con (con_pos con) (drop_bit 1 (con_screen con + scr_size con - con_pos con))
     else if a = 1 then erase_screen con (con_screen con) (drop_bit 1 (con_pos con - con_screen con))
     else if a = 2 then erase_screen con (con_screen con) (drop_bit 1 (scr_size con))
     else Some con }"

definition csi_K :: "console \<Rightarrow> console option" where
  "csi_K con = do {
     a \<leftarrow> rd (con_args con) 0;
     if a = 0 then erase_screen con (con_pos con) (con_width con - con_x con)
     else if a = 1 then erase_screen con (con_pos con - push_bit 1 (con_x con)) (con_x con)
     else if a = 2 then erase_screen con (con_pos con - push_bit 1 (con_x con)) (con_width con)
     else Some con }"

text \<open>The loops over the rows of the memory end when a row is outside; \<open>row_size\<close> is not zero.\<close>

partial_function (option) insert_rows :: "u32 \<Rightarrow> u32 \<Rightarrow> console \<Rightarrow> console option" where
  "insert_rows start i con = (
     let src = mem_end con - i * row_size con in
     if src < start then Some con
     else do {
       con \<leftarrow> con_copy con (src + row_size con) src (row_size con);
       insert_rows start (i + 1) con })"

definition insert_line :: "console \<Rightarrow> console option" where
  "insert_line con = do {
     con \<leftarrow> insert_rows (con_screen con + con_y con * row_size con) 2 con;
     erase_screen con (con_screen con + con_y con * row_size con) (con_width con) }"

text \<open>\<open>start\<close> points to cells, so the distance that is added to it counts twice.\<close>

partial_function (option) delete_rows :: "u32 \<Rightarrow> u32 \<Rightarrow> console \<Rightarrow> console option" where
  "delete_rows start i con = (
     let src = start + 2 * (i * row_size con) in
     if src \<ge> mem_end con then Some con
     else do {
       con \<leftarrow> con_copy con (src - row_size con) src (row_size con);
       delete_rows start (i + 1) con })"

definition delete_line :: "console \<Rightarrow> console option" where
  "delete_line con = do {
     con \<leftarrow> delete_rows (con_screen con + con_y con * row_size con) 1 con;
     erase_screen con (mem_end con - row_size con) (con_width con) }"

text \<open>Shifting the cells of the line, one to the left from the cursor, or one to the right.\<close>

partial_function (option) shift_left :: "u32 \<Rightarrow> u16 \<Rightarrow> u32 \<Rightarrow> mem \<Rightarrow> (u32 \<times> mem) option" where
  "shift_left w i ptr v = (
     let i = i + 1 in
     if ucast i < w then do {
       c \<leftarrow> ld_cell v (ptr + 2);
       v \<leftarrow> st_cell v ptr c;
       shift_left w i (ptr + 2) v }
     else Some (ptr, v))"

definition delete_char :: "console \<Rightarrow> console option" where
  "delete_char con = do {
     (ptr, v) \<leftarrow> shift_left (con_width con) (ucast (con_x con)) (con_pos con) (video con);
     put_cell (con\<lparr>video := v\<rparr>) ptr (con_erase con) }"

partial_function (option) shift_right :: "u32 \<Rightarrow> u32 \<Rightarrow> mem \<Rightarrow> mem option" where
  "shift_right pos ptr v = (
     if ptr > pos then do {
       c \<leftarrow> ld_cell v (ptr - 2);
       v \<leftarrow> st_cell v ptr c;
       shift_right pos (ptr - 2) v }
     else Some v)"

definition insert_char :: "console \<Rightarrow> console option" where
  "insert_char con = do {
     v \<leftarrow> shift_right (con_pos con) (con_pos con + 2 * (con_width con - con_x con - 1)) (video con);
     v \<leftarrow> store v (unat (con_pos con)) (ucast (con_erase con));
     Some (con\<lparr>video := v\<rparr>) }"

definition nr_times :: "u32 \<Rightarrow> u32 \<Rightarrow> nat" where
  "nr_times nr limit = unat (if nr > limit then limit else if nr = 0 then 1 else nr)"

definition csi_L :: "console \<Rightarrow> console option" where
  "csi_L con = do {
     nr \<leftarrow> rd (con_args con) 0;
     foldM (\<lambda>_. insert_line) [0..<nr_times nr (con_height con)] con }"

definition csi_M :: "console \<Rightarrow> console option" where
  "csi_M con = do {
     nr \<leftarrow> rd (con_args con) 0;
     foldM (\<lambda>_. delete_line) [0..<nr_times nr (con_height con)] con }"

definition csi_P :: "console \<Rightarrow> console option" where
  "csi_P con = do {
     nr \<leftarrow> rd (con_args con) 0;
     foldM (\<lambda>_. delete_char) [0..<nr_times nr (con_width con)] con }"

definition csi_at :: "console \<Rightarrow> console option" where
  "csi_at con = do {
     nr \<leftarrow> rd (con_args con) 0;
     foldM (\<lambda>_. insert_char) [0..<nr_times nr (con_width con)] con }"

definition styled :: "u32 \<Rightarrow> u8 \<Rightarrow> u8" where
  "styled a s =
    (if a = ST_NORMAL then STYLE
     else if a = ST_BOLD then BOLD
     else if a = ucast BLINK then s OR BLINK
     else if a = ST_REVERSE then drop_bit 4 s OR push_bit 4 s
     else if a \<ge> 30 \<and> a \<le> 37 then (s AND 0xF8) OR ucast (a - 30)
     else if a \<ge> 40 \<and> a \<le> 47 then (s AND 0x8F) OR push_bit 4 (ucast (a - 40))
     else s)"

definition csi_m :: "console \<Rightarrow> console option" where
  "csi_m con = do {
     con \<leftarrow> foldM (\<lambda>i con. do {
         a \<leftarrow> rd (con_args con) i;
         Some (con\<lparr>con_style := styled a (con_style con)\<rparr>) })
       [0..<unat (con_argc con)] (con\<lparr>con_style := 0\<rparr>);
     Some (con\<lparr>con_erase := push_bit 8 (ucast (con_style con)) OR 0x20\<rparr>) }"

text \<open>An argument of zero counts as one; a position counts from one.\<close>

definition at_least_1 :: "u32 \<Rightarrow> u32" where
  "at_least_1 a = (if a = 0 then a + 1 else a)"

definition from_1 :: "u32 \<Rightarrow> u32" where
  "from_1 a = (if a \<noteq> 0 then a - 1 else a)"

definition set_arg :: "nat \<Rightarrow> (u32 \<Rightarrow> u32) \<Rightarrow> console \<Rightarrow> (u32 \<times> console) option" where
  "set_arg i f con = do {
     a \<leftarrow> rd (con_args con) i;
     as \<leftarrow> wr (con_args con) i (f a);
     Some (f a, con\<lparr>con_args := as\<rparr>) }"

definition state_csi :: "console \<Rightarrow> u8 \<Rightarrow> console option" where
  "state_csi con ch = (
     let con = con\<lparr>con_state := STATE_NOR\<rparr> in
     if ch = 0x47 \<or> ch = 0x60 then do {
       (a, con) \<leftarrow> set_arg 0 from_1 con;
       Some (set_xy con a (con_y con)) }
     else if ch = 0x41 then do {
       (a, con) \<leftarrow> set_arg 0 at_least_1 con;
       Some (set_xy con (con_x con) (con_y con - a)) }
     else if ch = 0x42 \<or> ch = 0x65 then do {
       (a, con) \<leftarrow> set_arg 0 at_least_1 con;
       Some (set_xy con (con_x con) (con_y con + a)) }
     else if ch = 0x43 \<or> ch = 0x61 then do {
       (a, con) \<leftarrow> set_arg 0 at_least_1 con;
       Some (set_xy con (con_x con + a) (con_y con)) }
     else if ch = 0x44 then do {
       (a, con) \<leftarrow> set_arg 0 at_least_1 con;
       Some (set_xy con (con_x con - a) (con_y con)) }
     else if ch = 0x45 then do {
       (a, con) \<leftarrow> set_arg 0 at_least_1 con;
       Some (set_xy con 0 (con_y con + a)) }
     else if ch = 0x46 then do {
       (a, con) \<leftarrow> set_arg 0 at_least_1 con;
       Some (set_xy con 0 (con_y con - a)) }
     else if ch = 0x64 then do {
       (a, con) \<leftarrow> set_arg 0 from_1 con;
       Some (set_xy con (con_x con) a) }
     else if ch = 0x48 \<or> ch = 0x66 then do {
       (a, con) \<leftarrow> set_arg 0 from_1 con;
       (b, con) \<leftarrow> set_arg 1 from_1 con;
       Some (set_xy con b a) }
     else if ch = 0x4A then csi_J con
     else if ch = 0x4B then csi_K con
     else if ch = 0x4C then csi_L con
     else if ch = 0x4D then csi_M con
     else if ch = 0x50 then csi_P con
     else if ch = 0x40 then csi_at con
     else if ch = 0x6D then csi_m con
     else if ch = 0x72 then Some con
     else if ch = 0x73 then
       let con = save_cursor con in Some (set_xy con (saved_x con) (saved_y con))
     else if ch = 0x75 then Some (set_xy con (saved_x con) (saved_y con))
     else Some con)"

subsection \<open>Writing\<close>

definition arg_then_csi :: "console \<Rightarrow> u8 \<Rightarrow> console option" where
  "arg_then_csi con ch = do {
     (go, con) \<leftarrow> state_arg con ch;
     if go then state_csi con ch else Some con }"

definition console_byte :: "u8 \<Rightarrow> console \<Rightarrow> console option" where
  "console_byte ch con = (case con_state con of
       STATE_NOR \<Rightarrow> state_normal con ch
     | STATE_ESC \<Rightarrow> state_esc con ch
     | STATE_QUE \<Rightarrow>
         let con = con\<lparr>con_args := replicate ARG_NR 0, con_argc := 0, con_state := STATE_ARG,
           con_ques := ch = 0x3F\<rparr> in
         if con_ques con then Some con else arg_then_csi con ch
     | STATE_ARG \<Rightarrow> arg_then_csi con ch
     | STATE_CSI \<Rightarrow> state_csi con ch)"

text \<open>The counter of the loop is increased once more by the test that ends it.\<close>

definition console_write :: "console \<Rightarrow> bytes \<Rightarrow> (int \<times> console) option" where
  "console_write con buf = do {
     con \<leftarrow> foldM console_byte buf con;
     Some (int (length buf) + 1, set_cursor con) }"

text \<open>The fields that \<open>console_init\<close> does not set are those of a cleared record.\<close>

definition console_init :: "mem \<Rightarrow> (u8 \<Rightarrow> u8) \<Rightarrow> console option" where
  "console_init v c = console_clear
     \<lparr>mem_base = MEM_BASE, mem_size = (MEM_SIZE div ROW_SIZE) * ROW_SIZE,
      mem_end = MEM_BASE + (MEM_SIZE div ROW_SIZE) * ROW_SIZE,
      con_screen = 0, scr_size = WIDTH * HEIGHT * 2, con_pos = 0, con_x = 0, con_y = 0,
      saved_x = 0, saved_y = 0, con_width = WIDTH, con_height = HEIGHT, row_size = WIDTH * 2,
      con_state = STATE_NOR, con_args = replicate ARG_NR 0, con_argc = 0, con_ques = False,
      con_erase = ERASE, con_style = STYLE, video = v, crt = c\<rparr>"

subsection \<open>The state is always within the memory\<close>

text \<open>
  \<open>con_in b\<close>: the constants are those of \<open>console_init\<close>, the screen starts with one of the first 77 rows of
  the memory, the cursor is on the screen with its column at most \<open>b\<close>, and \<open>con_pos\<close> is its address.
  The memory is exactly that of the 102 rows, so that a step with a result has written nowhere else.
\<close>

definition con_consts :: "console \<Rightarrow> bool" where
  "con_consts con \<longleftrightarrow> mem_base con = 753664 \<and> mem_size con = 16320 \<and> mem_end con = 769984
     \<and> con_width con = 80 \<and> con_height con = 25 \<and> row_size con = 160 \<and> scr_size con = 4000"

definition con_in :: "nat \<Rightarrow> console \<Rightarrow> bool" where
  "con_in b con \<longleftrightarrow> con_consts con
     \<and> (\<exists>k\<le>76. unat (con_screen con) = 753664 + 160 * k)
     \<and> unat (con_x con) \<le> b \<and> unat (con_y con) < 25
     \<and> unat (con_pos con) = unat (con_screen con) + 160 * unat (con_y con) + 2 * unat (con_x con)
     \<and> unat (saved_x con) \<le> 80 \<and> unat (saved_y con) < 25
     \<and> length (con_args con) = 16 \<and> unat (con_argc con) \<le> 16
     \<and> dom (video con) = {753664..<769984}"

definition con_ok :: "console \<Rightarrow> bool" where
  "con_ok con \<longleftrightarrow> con_in 80 con"

definition okM :: "console option \<Rightarrow> bool" where
  "okM r \<longleftrightarrow> (\<exists>c. r = Some c \<and> con_ok c)"

lemma okM_Some [simp]: "okM (Some c) = con_ok c"
  by (simp add: okM_def)

lemma okM_bind: "okM m \<Longrightarrow> (\<And>c. con_ok c \<Longrightarrow> okM (f c)) \<Longrightarrow> okM (Option.bind m f)"
  by (auto simp: okM_def)

lemma okM_foldM: "con_ok c \<Longrightarrow> (\<And>x c. con_ok c \<Longrightarrow> okM (f x c)) \<Longrightarrow> okM (foldM f xs c)"
  by (induction xs arbitrary: c) (simp_all add: okM_bind)

lemma con_in_mono: "con_in b con \<Longrightarrow> b \<le> b' \<Longrightarrow> con_in b' con"
  by (auto simp: con_in_def)

lemma con_okI: "con_in b con \<Longrightarrow> unat (con_x con) \<le> 80 \<Longrightarrow> con_ok con"
  by (auto simp: con_in_def con_ok_def)

text \<open>Words and numbers.\<close>

lemma unat_push_bit_1: "unat x < 2147483648 \<Longrightarrow> unat (push_bit 1 (x :: u32)) = 2 * unat x"
  by (simp add: push_bit_eq_mult unat_word_ariths)

lemma unat_times_2: "unat x < 2147483648 \<Longrightarrow> unat (x * 2 :: u32) = 2 * unat x"
  by (simp add: unat_word_ariths)

lemma unat_times_160: "unat y < 26 \<Longrightarrow> unat (y * 160 :: u32) = 160 * unat y"
  by (simp add: unat_word_ariths)

lemma unat_add32: "unat (a :: u32) + unat b < 4294967296 \<Longrightarrow> unat (a + b) = unat a + unat b"
  using unat_plus_bound [of a b] by simp

lemma unat_sub32: "unat (b :: u32) \<le> unat a \<Longrightarrow> unat (a - b) = unat a - unat b"
  by (simp add: unat_sub word_le_nat_alt)

lemma unat_half: "unat (drop_bit 1 (w :: u32)) = unat w div 2"
  using drop_bit_word_div [of 1 w] by simp

lemmas unat_halves = unat_half unat_half [unfolded One_nat_def]

lemmas unat_cmp = word_less_nat_alt word_le_nat_alt unat_eq_0 [symmetric]

text \<open>Changes of the memory within its bounds.\<close>

lemma st_cell_in:
  assumes "unat p \<in> dom v" "unat p + 1 \<in> dom v"
  shows "\<exists>v'. st_cell v p c = Some v' \<and> dom v' = dom v"
  using assms by (auto simp: st_cell_def store_def)

lemma ld_cell_in: "unat p \<in> dom v \<Longrightarrow> unat p + 1 \<in> dom v \<Longrightarrow> \<exists>c. ld_cell v p = Some c"
  by (auto simp: ld_cell_def)

lemma erase_cells_in:
  "{unat p..<unat p + 2 * n} \<subseteq> dom v \<Longrightarrow> unat p + 2 * n < 4294967296
   \<Longrightarrow> \<exists>v'. erase_cells n p c v = Some v' \<and> dom v' = dom v"
proof (induction n arbitrary: p v)
  case (Suc n)
  have i: "unat p \<in> dom v" "unat p + 1 \<in> dom v"
    using subsetD [OF Suc.prems(1), of "unat p"] subsetD [OF Suc.prems(1), of "unat p + 1"] by auto
  obtain v' where v': "st_cell v p c = Some v'" "dom v' = dom v"
    using st_cell_in [OF i] by blast
  have q: "unat (p + 2) = unat p + 2" using Suc.prems(2) by (simp add: unat_add32)
  have "{unat (p + 2)..<unat (p + 2) + 2 * n} \<subseteq> dom v'"
    unfolding q v'(2) by (rule subset_trans [OF _ Suc.prems(1)]) auto
  then show ?case using Suc.IH [of "p + 2" v'] Suc.prems(2) v' by (simp add: q)
qed simp

lemma memcpy_in:
  "{s..<s + n} \<subseteq> dom m \<Longrightarrow> {d..<d + n} \<subseteq> dom m \<Longrightarrow> \<exists>m'. memcpy m d s n = Some m' \<and> dom m' = dom m"
proof (induction n arbitrary: m d s)
  case (Suc n)
  have "s \<in> dom m" "d \<in> dom m"
    using subsetD [OF Suc.prems(1), of s] subsetD [OF Suc.prems(2), of d] by auto
  then obtain b where b: "m s = Some b" "store m d b = Some (m(d \<mapsto> b))" "dom (m(d \<mapsto> b)) = dom m"
    by (auto simp: insert_absorb)
  have "{s + 1..<s + 1 + n} \<subseteq> dom m" "{d + 1..<d + 1 + n} \<subseteq> dom m"
    using subset_trans [OF _ Suc.prems(1), of "{s + 1..<s + 1 + n}"]
      subset_trans [OF _ Suc.prems(2), of "{d + 1..<d + 1 + n}"] by simp_all
  then obtain m' where "memcpy (m(d \<mapsto> b)) (d + 1) (s + 1) n = Some m'" "dom m' = dom m"
    using Suc.IH [of "s + 1" "m(d \<mapsto> b)" "d + 1"] unfolding b(3) by blast
  then show ?case using b by simp
qed simp

lemma con_ok_video: "con_in b con \<Longrightarrow> dom v = dom (video con) \<Longrightarrow> con_in b (con\<lparr>video := v\<rparr>)"
  by (auto simp: con_in_def con_consts_def)

lemma con_in_keeps [simp]:
  "con_in b (set_cursor con) = con_in b con" "con_in b (set_screen con) = con_in b con"
  "con_in b (con\<lparr>con_state := st\<rparr>) = con_in b con" "con_in b (con\<lparr>con_style := s\<rparr>) = con_in b con"
  "con_in b (con\<lparr>con_erase := e\<rparr>) = con_in b con" "con_in b (con\<lparr>con_ques := q\<rparr>) = con_in b con"
  by (simp_all add: con_in_def con_consts_def set_cursor_def set_screen_def)

lemma con_ok_keeps [simp]:
  "con_ok (set_cursor con) = con_ok con" "con_ok (set_screen con) = con_ok con"
  "con_ok (con\<lparr>con_state := st\<rparr>) = con_ok con" "con_ok (con\<lparr>con_style := s\<rparr>) = con_ok con"
  "con_ok (con\<lparr>con_erase := e\<rparr>) = con_ok con" "con_ok (con\<lparr>con_ques := q\<rparr>) = con_ok con"
  by (simp_all add: con_ok_def)

lemma erase_screen_in:
  assumes "con_in b con" "753664 \<le> unat p" "unat p + 2 * unat n \<le> 769984"
  shows "\<exists>v. erase_screen con p n = Some (con\<lparr>video := v\<rparr>) \<and> dom v = dom (video con)"
proof -
  have "{unat p..<unat p + 2 * unat n} \<subseteq> dom (video con)" using assms by (auto simp: con_in_def)
  then obtain v where "erase_cells (unat n) p (con_erase con) (video con) = Some v" "dom v = dom (video con)"
    using erase_cells_in [of p "unat n" "video con" "con_erase con"] assms(3) by auto
  then show ?thesis by (auto simp: erase_screen_def intro!: exI [of _ v])
qed

lemma con_copy_in:
  assumes "con_in b con" "753664 \<le> unat d" "unat d + unat n \<le> 769984" "753664 \<le> unat s" "unat s + unat n \<le> 769984"
  shows "\<exists>v. con_copy con d s n = Some (con\<lparr>video := v\<rparr>) \<and> dom v = dom (video con)"
  using memcpy_in [of "unat s" "unat n" "video con" "unat d"] assms by (auto simp: con_copy_def con_in_def)

lemma con_in_D:
  assumes "con_in b con" "b \<le> 88"
  shows "753664 \<le> unat (con_screen con)" "unat (con_screen con) + 4000 \<le> 769824"
    "753664 \<le> unat (con_pos con)" "unat (con_pos con) \<le> unat (con_screen con) + 4016"
    "unat (con_screen con) + 160 * unat (con_y con) \<le> 769664"
    "unat (con_y con) < 25" "unat (con_x con) \<le> b"
    "unat (con_pos con) = unat (con_screen con) + 160 * unat (con_y con) + 2 * unat (con_x con)"
    "con_consts con"
  using assms by (auto simp: con_in_def)

lemma con_move:
  assumes "con_in b con" "unat x \<le> b'" "unat y < 25"
    "unat p = unat (con_screen con) + 160 * unat y + 2 * unat x"
  shows "con_in b' (con\<lparr>con_x := x, con_y := y, con_pos := p\<rparr>)"
  using assms by (auto simp: con_in_def con_consts_def)

lemma set_xy_ok: "con_ok con \<Longrightarrow> con_ok (set_xy con x y)"
proof (cases "x > con_width con \<or> y \<ge> con_height con")
  case False
  assume ok: "con_ok con"
  then have c: "con_consts con" "con_in 80 con" by (auto simp: con_ok_def con_in_def)
  have xy: "unat x \<le> 80" "unat y < 25" using False c(1) by (auto simp: con_consts_def unat_cmp)
  have p: "unat (con_screen con + y * 160 + push_bit 1 x) = unat (con_screen con) + 160 * unat y + 2 * unat x"
    using xy con_in_D [OF c(2), simplified] by (simp add: unat_add32 unat_times_160 unat_times_2)
  show ?thesis using con_move [OF c(2) xy p] False c(1) by (simp add: set_xy_def con_ok_def con_consts_def)
qed (simp add: set_xy_def)

lemma rewind_ok:
  assumes "con_in b con" "b \<le> 80"
  shows "\<exists>c. rewind con = Some c \<and> con_in b c \<and> con_x c = con_x con \<and> con_y c = con_y con
    \<and> unat (con_screen c) \<le> 765664"
proof -
  have b88: "b \<le> 88" using assms(2) by simp
  note D = con_in_D [OF assms(1) b88]
  have k: "mem_base con = 753664" "mem_end con = 769984" "row_size con = 160" "scr_size con = 4000"
    using D(9) by (simp_all add: con_consts_def)
  have s: "unat (con_screen con + 4000 + 160) = unat (con_screen con) + 4160"
    using D by (simp add: unat_add32)
  show ?thesis
  proof (cases "con_screen con + 4000 + 160 \<ge> (769984 :: u32)")
    case True
    have "\<exists>v. con_copy con 753664 (con_screen con) 4000 = Some (con\<lparr>video := v\<rparr>) \<and> dom v = dom (video con)"
      by (rule con_copy_in [OF assms(1)]) (use D in simp_all)
    then obtain v where v: "con_copy con 753664 (con_screen con) 4000 = Some (con\<lparr>video := v\<rparr>)"
      "dom v = dom (video con)" by blast
    have p: "unat (con_pos con - (con_screen con - 753664)) = unat (con_pos con) - (unat (con_screen con) - 753664)"
      using D by (simp add: unat_sub32)
    have "con_in b (con\<lparr>video := v, con_pos := con_pos con - (con_screen con - 753664), con_screen := 753664\<rparr>)"
      using assms(1) v(2) p D by (auto simp: con_in_def con_consts_def)
    then show ?thesis using True v(1) by (simp add: rewind_def k)
  next
    case False
    then have "unat (con_screen con) \<le> 765664"
      using assms(1) s by (auto simp: con_in_def unat_cmp)
    then show ?thesis using False assms(1) by (simp add: rewind_def k)
  qed
qed

lemma scroll_up_ok:
  assumes "con_in b con" "b \<le> 80"
  shows "\<exists>c. scroll_up con = Some c \<and> con_in b c \<and> con_x c = con_x con"
proof -
  obtain c where c: "rewind con = Some c" "con_in b c" "con_x c = con_x con" "con_y c = con_y con"
    "unat (con_screen c) \<le> 765664" using rewind_ok [OF assms] by blast
  have b88: "b \<le> 88" using assms(2) by simp
  note D = con_in_D [OF c(2) b88]
  have k: "con_width c = 80" "row_size c = 160" "scr_size c = 4000"
    using D(9) by (simp_all add: con_consts_def)
  have s: "unat (con_screen c + 4000) = unat (con_screen c) + 4000"
    "unat (con_screen c + 160) = unat (con_screen c) + 160" "unat (con_pos c + 160) = unat (con_pos c) + 160"
    using D c(5) by (simp_all add: unat_add32)
  have "\<exists>v. erase_screen c (con_screen c + 4000) 80 = Some (c\<lparr>video := v\<rparr>) \<and> dom v = dom (video c)"
    by (rule erase_screen_in [OF c(2)]) (use D c(5) s in simp_all)
  then obtain v where v: "erase_screen c (con_screen c + 4000) 80 = Some (c\<lparr>video := v\<rparr>)"
    "dom v = dom (video c)" by blast
  obtain j where j: "unat (con_screen c) = 753664 + 160 * j" "j \<le> 75" using c(2,5) by (auto simp: con_in_def)
  have "con_in b (c\<lparr>video := v, con_screen := con_screen c + 160, con_pos := con_pos c + 160\<rparr>)"
    using con_ok_video [OF c(2) v(2)] s j by (auto simp: con_in_def con_consts_def intro!: exI [of _ "Suc j"])
  then have "con_in b (set_screen (c\<lparr>video := v, con_screen := con_screen c + 160, con_pos := con_pos c + 160\<rparr>))"
    by simp
  then show ?thesis unfolding scroll_up_def c(1) using c(3) v(1) by (simp add: k set_screen_def)
qed

lemma lf_ok:
  assumes "con_in b con" "b \<le> 80"
  shows "\<exists>c. lf con = Some c \<and> con_in b c \<and> con_x c = con_x con"
proof (cases "unat (con_y con) < 24")
  case True
  have b88: "b \<le> 88" using assms(2) by simp
  note D = con_in_D [OF assms(1) b88]
  have y: "unat (con_y con + 1) = unat (con_y con) + 1" "unat (con_pos con + 160) = unat (con_pos con) + 160"
    using D True by (simp_all add: unat_add32)
  have "con_in b (con\<lparr>con_y := con_y con + 1, con_pos := con_pos con + 160\<rparr>)"
    using assms(1) True y by (auto simp: con_in_def con_consts_def)
  then show ?thesis using D(9) True y by (simp add: lf_def con_consts_def unat_cmp)
next
  case False
  then have y: "unat (con_y con) = 24" using assms(1) by (auto simp: con_in_def)
  then have "unat (con_y con + 1) = 25" by (simp add: unat_add32)
  then have "lf con = scroll_up con" using assms(1) by (simp add: lf_def con_in_def con_consts_def unat_cmp)
  then show ?thesis using scroll_up_ok [OF assms] by simp
qed

lemma wrap_line_ok:
  assumes "con_in 88 con"
  shows "\<exists>c. wrap_line con = Some c \<and> con_in 79 c"
proof (cases "unat (con_x con) < 80")
  case True
  then show ?thesis using assms by (auto simp: wrap_line_def con_in_def con_consts_def unat_cmp)
next
  case False
  note D = con_in_D [OF assms order_refl]
  have k: "con_width con = 80" "row_size con = 160" using D(9) by (simp_all add: con_consts_def)
  have x: "unat (con_x con - 80) = unat (con_x con) - 80" "unat (con_pos con - 160) = unat (con_pos con) - 160"
    using D False by (simp_all add: unat_sub32)
  have i: "con_in 79 (con\<lparr>con_x := con_x con - 80, con_pos := con_pos con - 160\<rparr>)"
    using assms False x by (auto simp: con_in_def con_consts_def)
  have "wrap_line con = lf (con\<lparr>con_x := con_x con - 80, con_pos := con_pos con - 160\<rparr>)"
    using False by (simp add: wrap_line_def k unat_cmp)
  then show ?thesis using lf_ok [OF i] by auto
qed

lemma con_ok_in: "con_ok con \<Longrightarrow> con_in 80 con"
  by (simp add: con_ok_def)

lemma con_okD:
  assumes "con_ok con"
  shows "753664 \<le> unat (con_screen con)" "unat (con_screen con) + 4000 \<le> 769824"
    "753664 \<le> unat (con_pos con)" "unat (con_pos con) \<le> unat (con_screen con) + 4000"
    "unat (con_screen con) + 160 * unat (con_y con) \<le> 769664"
    "unat (con_y con) < 25" "unat (con_x con) \<le> 80"
    "unat (con_pos con) = unat (con_screen con) + 160 * unat (con_y con) + 2 * unat (con_x con)"
    "mem_base con = 753664" "mem_end con = 769984" "con_width con = 80" "con_height con = 25"
    "row_size con = 160" "scr_size con = 4000" "length (con_args con) = 16"
    "dom (video con) = {753664..<769984}"
  using assms by (auto simp: con_ok_def con_in_def con_consts_def)

lemma con_ok_set_video: "con_ok con \<Longrightarrow> dom v = dom (video con) \<Longrightarrow> con_ok (con\<lparr>video := v\<rparr>)"
  unfolding con_ok_def by (rule con_ok_video)

lemma erase_screen_ok:
  assumes "con_ok con" "753664 \<le> unat p" "unat p + 2 * unat n \<le> 769984"
  shows "okM (erase_screen con p n)"
  using erase_screen_in [OF con_ok_in [OF assms(1)] assms(2,3)] con_ok_set_video [OF assms(1)]
  by (auto simp: okM_def)

lemma con_copy_ok:
  assumes "con_ok con" "753664 \<le> unat d" "unat d + unat n \<le> 769984" "753664 \<le> unat s" "unat s + unat n \<le> 769984"
  shows "okM (con_copy con d s n)"
  using con_copy_in [OF con_ok_in [OF assms(1)] assms(2-5)] con_ok_set_video [OF assms(1)]
  by (auto simp: okM_def)

lemma put_cell_ok:
  assumes "con_ok con" "753664 \<le> unat p" "unat p + 2 \<le> 769984"
  shows "okM (put_cell con p c)"
proof -
  obtain v where "st_cell (video con) p c = Some v" "dom v = dom (video con)"
    using st_cell_in [of p "video con" c] con_okD [OF assms(1)] assms(2,3) by auto
  then show ?thesis using con_ok_set_video [OF assms(1)] by (simp add: put_cell_def)
qed

lemma con_to:
  assumes "con_ok con" "unat x \<le> 80" "unat p = unat (con_screen con) + 160 * unat (con_y con) + 2 * unat x"
  shows "con_ok (con\<lparr>con_x := x, con_pos := p\<rparr>)"
  using assms by (auto simp: con_ok_def con_in_def con_consts_def)

lemma cr_ok: "con_ok con \<Longrightarrow> con_ok (cr con)"
proof -
  assume ok: "con_ok con"
  note D = con_okD [OF ok]
  have p: "unat (con_pos con - push_bit 1 (con_x con)) = unat (con_screen con) + 160 * unat (con_y con) + 2 * unat (0 :: u32)"
    using D by (subst unat_sub32) (simp_all add: unat_times_2)
  have "cr con = con\<lparr>con_x := 0, con_pos := con_pos con - push_bit 1 (con_x con)\<rparr>"
    by (simp add: cr_def)
  then show "con_ok (cr con)" using con_to [OF ok _ p] by simp
qed

lemma lf_okM: "con_ok con \<Longrightarrow> okM (lf con)"
  using lf_ok [of 80 con] by (auto simp: okM_def con_ok_def)

lemma con_tab_ok: "con_ok con \<Longrightarrow> okM (con_tab con)"
proof -
  assume ok: "con_ok con"
  note D = con_okD [OF ok]
  define t where "t = 8 - (con_x con AND 7)"
  have "con_x con AND 7 \<le> 7" by (rule word_and_le1)
  then have t: "unat t \<le> 8" unfolding t_def by (simp add: unat_cmp unat_sub32)
  have x: "unat (con_x con + t) = unat (con_x con) + unat t" "unat (con_pos con + push_bit 1 t) = unat (con_pos con) + 2 * unat t"
    using D t by (simp_all add: unat_add32 unat_times_2)
  have "con_in 88 (con\<lparr>con_x := con_x con + t, con_pos := con_pos con + push_bit 1 t\<rparr>)"
    using ok D x t by (auto simp: con_ok_def con_in_def con_consts_def)
  from wrap_line_ok [OF this] obtain c
    where c: "wrap_line (con\<lparr>con_x := con_x con + t, con_pos := con_pos con + push_bit 1 t\<rparr>) = Some c" "con_in 79 c"
    by blast
  have "con_ok c" unfolding con_ok_def by (rule con_in_mono [OF c(2)]) simp
  then show ?thesis using c(1) by (simp add: con_tab_def Let_def t_def [symmetric])
qed

lemma bs_ok: "con_ok con \<Longrightarrow> okM (bs con)"
proof (cases "con_x con = 0")
  case False
  assume ok: "con_ok con"
  note D = con_okD [OF ok]
  have x0: "unat (con_x con) \<noteq> 0" using False by (simp add: unat_eq_0)
  have x: "unat (con_x con - 1) = unat (con_x con) - 1" "unat (con_pos con - 2) = unat (con_pos con) - 2"
    using D x0 by (simp_all add: unat_sub32)
  have ok': "con_ok (con\<lparr>con_x := con_x con - 1, con_pos := con_pos con - 2\<rparr>)"
    by (rule con_to [OF ok]) (use D x x0 in auto)
  show ?thesis using put_cell_ok [OF ok', of "con_pos con - 2"] D x x0 False by (simp add: bs_def)
qed (simp add: bs_def)

lemma del_ok: "con_ok con \<Longrightarrow> okM (del con)"
  unfolding del_def by (rule put_cell_ok) (use con_okD [of con] in auto)

lemma con_chr_ok: "con_ok con \<Longrightarrow> okM (con_chr con ch)"
proof -
  assume "con_ok con"
  then have "con_in 88 con" by (simp add: con_ok_def con_in_mono)
  from wrap_line_ok [OF this] obtain c where c: "wrap_line con = Some c" "con_in 79 c" by blast
  then have ok: "con_ok c" by (simp add: con_ok_def con_in_mono)
  note D = con_okD [OF ok] con_in_D(7) [OF c(2), simplified]
  have p: "unat (con_pos c + 1) = unat (con_pos c) + 1" "unat (con_pos c + 2) = unat (con_pos c) + 2"
    "unat (con_x c + 1) = unat (con_x c) + 1" using D by (simp_all add: unat_add32)
  define v where "v = (video c)(unat (con_pos c) \<mapsto> ch, unat (con_pos c) + 1 \<mapsto> con_style c)"
  have i: "unat (con_pos c) \<in> dom (video c)" "unat (con_pos c) + 1 \<in> dom (video c)" using D by auto
  have "dom v = dom (video c)" using i by (auto simp: v_def)
  then have "con_ok (c\<lparr>video := v\<rparr>)" by (rule con_ok_set_video [OF ok])
  then have "con_ok (c\<lparr>video := v, con_pos := con_pos c + 2, con_x := con_x c + 1\<rparr>)"
    using D p by (auto simp: con_ok_def con_in_def con_consts_def)
  moreover have "con_chr con ch = Some (c\<lparr>video := v, con_pos := con_pos c + 2, con_x := con_x c + 1\<rparr>)"
    using i c(1) p by (auto simp: con_chr_def v_def store_def)
  ultimately show ?thesis by simp
qed

lemma state_normal_ok: "con_ok con \<Longrightarrow> okM (state_normal con ch)"
  by (auto simp: state_normal_def bs_ok con_tab_ok lf_okM cr_ok del_ok con_chr_ok intro!: okM_bind)

lemma state_esc_ok: "con_ok con \<Longrightarrow> okM (state_esc con ch)"
proof -
  assume ok: "con_ok con"
  then have "con_ok (save_cursor con)" by (auto simp: con_ok_def con_in_def con_consts_def save_cursor_def)
  with ok show ?thesis by (auto simp: state_esc_def lf_okM cr_ok set_xy_ok intro!: okM_bind)
qed

lemma state_arg_ok:
  assumes "con_ok con"
  shows "\<exists>go c. state_arg con ch = Some (go, c) \<and> con_ok c"
proof (cases "unat (con_argc con) \<ge> 16")
  case False
  have a: "unat (con_argc con + 1) = unat (con_argc con) + 1" using False by (simp add: unat_add32)
  show ?thesis using False a assms con_okD(15) [OF assms]
    by (auto simp: state_arg_def ARG_NR_def con_ok_def con_in_def con_consts_def)
qed (auto simp: state_arg_def ARG_NR_def assms)

text \<open>The loops over the rows: they end, and copy only rows of the memory.\<close>

lemma insert_rows_ok:
  assumes "con_ok con" "753664 \<le> unat start" "unat i \<ge> 2" "unat i * 160 \<le> 16480"
  shows "okM (insert_rows start i con)"
  using assms
proof (induction "16640 - unat i * 160" arbitrary: i con rule: less_induct)
  case less
  note D = con_okD [OF less.prems(1)]
  have m: "unat (i * 160) = unat i * 160" using less.prems(4) by (simp add: unat_word_ariths)
  define src where "src = 769984 - i * 160"
  have s: "unat src = 769984 - unat i * 160" unfolding src_def using less.prems(4) by (simp add: unat_sub32 m)
  show ?case
  proof (cases "src < start")
    case True
    then show ?thesis using less.prems(1) D by (subst insert_rows.simps) (simp add: src_def)
  next
    case False
    then have b: "753664 \<le> unat src" using less.prems(2) by (simp add: unat_cmp)
    have i: "unat (i + 1) = unat i + 1" using less.prems(4) by (simp add: unat_add32)
    have r: "unat (src + 160) = unat src + 160" using s by (simp add: unat_add32)
    have "okM (con_copy con (src + 160) src 160)"
      by (rule con_copy_ok [OF less.prems(1)]) (use b r s less.prems(3) in simp_all)
    then obtain c where c: "con_copy con (src + 160) src 160 = Some c" "con_ok c" by (auto simp: okM_def)
    have "okM (insert_rows start (i + 1) c)"
      by (rule less.hyps) (use less.prems c i b s in auto)
    then show ?thesis using False D c by (subst insert_rows.simps) (simp add: src_def)
  qed
qed

lemma delete_rows_ok:
  assumes "con_ok con" "753664 \<le> unat start" "unat start \<le> 769664" "unat i \<ge> 1" "unat i \<le> 60"
    "\<exists>k. unat start = 753664 + 160 * k"
  shows "okM (delete_rows start i con)"
  using assms
proof (induction "60 - unat i" arbitrary: i con rule: less_induct)
  case less
  note D = con_okD [OF less.prems(1)]
  define src where "src = start + 2 * (i * 160)"
  have "unat (i * 160) = unat i * 160" using less.prems(5) by (simp add: unat_word_ariths)
  then have "unat (2 * (i * 160)) = unat i * 320" using less.prems(5) unat_times_2 [of "i * 160"] by (simp add: mult.commute)
  then have s: "unat src = unat start + unat i * 320" unfolding src_def using less.prems(3,5) by (simp add: unat_add32)
  show ?case
  proof (cases "src \<ge> 769984")
    case True
    then show ?thesis using less.prems(1) D by (subst delete_rows.simps) (simp add: src_def)
  next
    case False
    then have "unat src < 769984" by (simp add: unat_cmp)
    moreover obtain k where k: "unat start = 753664 + 160 * k" using less.prems(6) by blast
    ultimately have "k + 2 * unat i < 102" using s by linarith
    then have b: "unat src + 160 \<le> 769984" "unat i < 60" using k s by linarith+
    have i: "unat (i + 1) = unat i + 1" using less.prems(5) by (simp add: unat_add32)
    have r: "unat (src - 160) = unat src - 160" using s less.prems(2) by (simp add: unat_sub32)
    have "okM (con_copy con (src - 160) src 160)"
      by (rule con_copy_ok [OF less.prems(1)]) (use b r s less.prems(2,4) in simp_all)
    then obtain c where c: "con_copy con (src - 160) src 160 = Some c" "con_ok c" by (auto simp: okM_def)
    have "okM (delete_rows start (i + 1) c)"
      by (rule less.hyps) (use less.prems c i b in auto)
    then show ?thesis using False D c by (subst delete_rows.simps) (simp add: src_def)
  qed
qed

lemma line_start:
  assumes "con_ok con"
  shows "\<exists>k. unat (con_screen con + con_y con * 160) = 753664 + 160 * k" 
    "unat (con_screen con + con_y con * 160) = unat (con_screen con) + 160 * unat (con_y con)"
proof -
  show u: "unat (con_screen con + con_y con * 160) = unat (con_screen con) + 160 * unat (con_y con)"
    using con_okD [OF assms] by (simp add: unat_add32 unat_times_160)
  obtain k where "unat (con_screen con) = 753664 + 160 * k" using assms by (auto simp: con_ok_def con_in_def)
  then show "\<exists>k. unat (con_screen con + con_y con * 160) = 753664 + 160 * k"
    unfolding u by (intro exI [of _ "k + unat (con_y con)"]) simp
qed

lemma insert_line_ok: "con_ok con \<Longrightarrow> okM (insert_line con)"
  unfolding insert_line_def
proof (rule okM_bind)
  assume ok: "con_ok con"
  show "okM (insert_rows (con_screen con + con_y con * row_size con) 2 con)"
    by (rule insert_rows_ok [OF ok]) (use con_okD [OF ok] line_start [OF ok] in auto)
next
  fix c assume ok: "con_ok c"
  show "okM (erase_screen c (con_screen c + con_y c * row_size c) (con_width c))"
    by (rule erase_screen_ok [OF ok]) (use con_okD [OF ok] line_start [OF ok] in auto)
qed

lemma delete_line_ok: "con_ok con \<Longrightarrow> okM (delete_line con)"
  unfolding delete_line_def
proof (rule okM_bind)
  assume ok: "con_ok con"
  show "okM (delete_rows (con_screen con + con_y con * row_size con) 1 con)"
    by (rule delete_rows_ok [OF ok]) (use con_okD [OF ok] line_start [OF ok] in auto)
next
  fix c assume ok: "con_ok c"
  show "okM (erase_screen c (mem_end c - row_size c) (con_width c))"
    by (rule erase_screen_ok [OF ok]) (use con_okD [OF ok] in auto)
qed

lemma shift_left_ok:
  assumes "{unat ptr..<unat ptr + 2 * (80 - unat i)} \<subseteq> dom v" "unat i < 80"
    "unat ptr + 2 * (80 - unat i) \<le> 769984"
  shows "\<exists>p v'. shift_left 80 i ptr v = Some (p, v') \<and> dom v' = dom v \<and> unat p = unat ptr + 2 * (79 - unat i)"
  using assms
proof (induction "80 - unat i" arbitrary: i ptr v rule: less_induct)
  case less
  have i: "unat (i + 1) = unat i + 1" using less.prems(2) unat_plus_bound [of i 1] by simp
  have u: "unat (ucast (i + 1) :: u32) = unat i + 1"
    using i less.prems(2) by (simp add: unsigned_ucast_eq take_bit_nat_eq_self)
  show ?case
  proof (cases "unat i + 1 < 80")
    case False
    then have "\<not> (ucast (i + 1) :: u32) < 80" by (simp add: unat_cmp u)
    then show ?thesis using False less.prems(2) by (subst shift_left.simps) simp
  next
    case True
    then have lt: "(ucast (i + 1) :: u32) < 80" by (simp add: unat_cmp u)
    have p: "unat (ptr + 2) = unat ptr + 2" using less.prems(3) by (simp add: unat_add32)
    have in4: "unat ptr + k \<in> dom v" if "k < 4" for k
      using subsetD [OF less.prems(1), of "unat ptr + k"] that True by auto
    obtain c where c: "ld_cell v (ptr + 2) = Some c"
      using ld_cell_in [of "ptr + 2" v] in4 [of 2] in4 [of 3] p by (auto simp: numeral_3_eq_3 eval_nat_numeral)
    obtain v' where v': "st_cell v ptr c = Some v'" "dom v' = dom v"
      using st_cell_in [of ptr v c] in4 [of 0] in4 [of 1] by auto
    have "{unat ptr + 2..<unat ptr + 2 + 2 * (80 - (unat i + 1))} \<subseteq> dom v"
      using subset_trans [OF _ less.prems(1), of "{unat ptr + 2..<unat ptr + 2 + 2 * (80 - (unat i + 1))}"] True by auto
    then have "\<exists>q w. shift_left 80 (i + 1) (ptr + 2) v' = Some (q, w) \<and> dom w = dom v'
      \<and> unat q = unat (ptr + 2) + 2 * (79 - unat (i + 1))"
      by (intro less.hyps) (use True i p v'(2) less.prems(3) in simp_all)
    then show ?thesis using lt c v' p i True by (subst shift_left.simps) auto
  qed
qed

lemma shift_right_ok:
  assumes "{unat pos..<unat ptr + 2} \<subseteq> dom v" "unat ptr \<le> 769984" "unat ptr = unat pos + 2 * n"
  shows "\<exists>v'. shift_right pos ptr v = Some v' \<and> dom v' = dom v"
  using assms
proof (induction n arbitrary: ptr v)
  case 0
  then show ?case by (subst shift_right.simps) (simp add: unat_cmp)
next
  case (Suc n)
  have p: "unat (ptr - 2) = unat ptr - 2" using Suc.prems(3) by (simp add: unat_sub32)
  have i: "unat pos + k \<in> dom v" if "k < 2 * n + 4" for k
    using subsetD [OF Suc.prems(1), of "unat pos + k"] that Suc.prems(3) by auto
  obtain c where c: "ld_cell v (ptr - 2) = Some c"
    using ld_cell_in [of "ptr - 2" v] i [of "2 * n"] i [of "2 * n + 1"] p Suc.prems(3) by auto
  obtain v' where v': "st_cell v ptr c = Some v'" "dom v' = dom v"
    using st_cell_in [of ptr v c] i [of "2 * n + 2"] i [of "2 * n + 3"] Suc.prems(3) by (auto simp: eval_nat_numeral)
  have "{unat pos..<unat (ptr - 2) + 2} \<subseteq> dom v'"
    unfolding v'(2) by (rule subset_trans [OF _ Suc.prems(1)]) (use p in auto)
  then obtain w where "shift_right pos (ptr - 2) v' = Some w" "dom w = dom v"
    using Suc.IH [of "ptr - 2" v'] Suc.prems p v'(2) by auto
  then show ?case using c v' Suc.prems(3) by (subst shift_right.simps) (simp add: unat_cmp)
qed

lemma delete_char_ok:
  assumes "con_ok con"
  shows "okM (delete_char con)"
proof -
  note D = con_okD [OF assms]
  have x: "unat (ucast (con_x con) :: u16) = unat (con_x con)"
    using D(7) by (simp add: unsigned_ucast_eq take_bit_nat_eq_self)
  obtain p v where pv: "shift_left 80 (ucast (con_x con)) (con_pos con) (video con) = Some (p, v)"
    "dom v = dom (video con)" "753664 \<le> unat p" "unat p + 2 \<le> 769984"
  proof (cases "unat (con_x con) < 80")
    case True
    have "{unat (con_pos con)..<unat (con_pos con) + 2 * (80 - unat (con_x con))} \<subseteq> dom (video con)"
      using D True by auto
    then show ?thesis using that shift_left_ok [of "con_pos con" "ucast (con_x con)" "video con"] D True
      unfolding x by fastforce
  next
    case False
    then have "unat (ucast (con_x con) + 1 :: u16) = 81" using D(7) x unat_plus_bound [of "ucast (con_x con)" "1 :: u16"] by simp
    then have "\<not> (ucast (ucast (con_x con) + 1 :: u16) :: u32) < 80"
      by (simp add: unat_cmp unsigned_ucast_eq take_bit_nat_eq_self)
    then have "shift_left 80 (ucast (con_x con)) (con_pos con) (video con) = Some (con_pos con, video con)"
      by (subst shift_left.simps) simp
    then show ?thesis using that D by auto
  qed
  have "con_ok (con\<lparr>video := v\<rparr>)" using con_ok_set_video [OF assms pv(2)] .
  then show ?thesis using put_cell_ok [of "con\<lparr>video := v\<rparr>" p] pv D by (simp add: delete_char_def)
qed

lemma insert_char_ok:
  assumes "con_ok con"
  shows "okM (insert_char con)"
proof -
  note D = con_okD [OF assms]
  have "\<exists>v. shift_right (con_pos con) (con_pos con + 2 * (80 - con_x con - 1)) (video con) = Some v
    \<and> dom v = dom (video con)"
  proof (cases "unat (con_x con) < 80")
    case True
    have "unat (80 - con_x con - 1) = 79 - unat (con_x con)" using True by (simp add: unat_sub32)
    then have "unat (con_pos con + 2 * (80 - con_x con - 1)) = unat (con_pos con) + 2 * (79 - unat (con_x con))"
      using D unat_times_2 [of "80 - con_x con - 1"] by (simp add: unat_add32 mult.commute)
    then show ?thesis by (intro shift_right_ok [of _ _ _ "79 - unat (con_x con)"]) (use D True in auto)
  next
    case False
    then have "con_x con = 80" using D(7) by (intro word_unat_eq_iff [THEN iffD2]) simp
    moreover have "\<not> con_pos con < con_pos con - 2"
      using D by (simp add: unat_cmp unat_sub32)
    ultimately show ?thesis by (subst shift_right.simps) simp
  qed
  then obtain v where v: "shift_right (con_pos con) (con_pos con + 2 * (80 - con_x con - 1)) (video con) = Some v"
    "dom v = dom (video con)" by blast
  have i: "unat (con_pos con) \<in> dom v" using D v(2) by auto
  then have "dom (v(unat (con_pos con) \<mapsto> b)) = dom (video con)" for b using v(2) by auto
  then have "con_ok (con\<lparr>video := v(unat (con_pos con) \<mapsto> b)\<rparr>)" for b by (rule con_ok_set_video [OF assms])
  moreover have "store v (unat (con_pos con)) b = Some (v(unat (con_pos con) \<mapsto> b))" for b
    using i by (auto intro: store_mapped)
  ultimately show ?thesis using v(1) D(11) by (simp add: insert_char_def)
qed

lemma csi_lines_ok:
  assumes "con_ok con"
  shows "okM (csi_L con)" "okM (csi_M con)" "okM (csi_P con)" "okM (csi_at con)"
proof -
  obtain a where "rd (con_args con) 0 = Some a" using con_okD(15) [OF assms] by simp
  then show "okM (csi_L con)" "okM (csi_M con)" "okM (csi_P con)" "okM (csi_at con)"
    unfolding csi_L_def csi_M_def csi_P_def csi_at_def
    by (simp_all add: okM_foldM assms insert_line_ok delete_line_ok delete_char_ok insert_char_ok)
qed

lemma csi_J_ok: "con_ok con \<Longrightarrow> okM (csi_J con)"
proof -
  assume ok: "con_ok con"
  note D = con_okD [OF ok]
  have h: "unat (con_screen con + 4000 - con_pos con) = unat (con_screen con) + 4000 - unat (con_pos con)"
    "unat (con_pos con - con_screen con) = unat (con_pos con) - unat (con_screen con)"
    using D by (simp_all add: unat_add32 unat_sub32)
  have "okM (erase_screen con (con_pos con) (drop_bit 1 (con_screen con + 4000 - con_pos con)))"
    "okM (erase_screen con (con_screen con) (drop_bit 1 (con_pos con - con_screen con)))"
    "okM (erase_screen con (con_screen con) (drop_bit 1 4000))"
    by (rule erase_screen_ok [OF ok]; use D h in \<open>simp add: unat_halves\<close>)+
  then show ?thesis using D ok by (simp add: csi_J_def)
qed

lemma csi_K_ok: "con_ok con \<Longrightarrow> okM (csi_K con)"
proof -
  assume ok: "con_ok con"
  note D = con_okD [OF ok]
  have h: "unat (80 - con_x con) = 80 - unat (con_x con)"
    "unat (con_pos con - push_bit 1 (con_x con)) = unat (con_pos con) - 2 * unat (con_x con)"
    using D by (simp_all add: unat_times_2 unat_sub32)
  have "okM (erase_screen con (con_pos con) (80 - con_x con))"
    "okM (erase_screen con (con_pos con - push_bit 1 (con_x con)) (con_x con))"
    "okM (erase_screen con (con_pos con - push_bit 1 (con_x con)) 80)"
    by (rule erase_screen_ok [OF ok]; use D h in simp)+
  then show ?thesis using D ok by (simp add: csi_K_def)
qed

lemma csi_m_ok: "con_ok con \<Longrightarrow> okM (csi_m con)"
proof -
  assume ok: "con_ok con"
  have n: "unat (con_argc con) \<le> 16" using ok by (simp add: con_ok_def con_in_def)
  have "okM (foldM (\<lambda>i con. do { a \<leftarrow> rd (con_args con) i; Some (con\<lparr>con_style := styled a (con_style con)\<rparr>) }) is c)"
    if "con_ok c" "\<forall>i\<in>set is. i < 16" for "is" c
    using that by (induction "is" arbitrary: c) (simp_all add: con_okD(15))
  from this [of "con\<lparr>con_style := 0\<rparr>" "[0..<unat (con_argc con)]"] show ?thesis
    unfolding csi_m_def using ok n by (intro okM_bind) auto
qed

lemma set_arg_ok: "con_ok con \<Longrightarrow> i < 16 \<Longrightarrow> \<exists>a c. set_arg i f con = Some (a, c) \<and> con_ok c"
  using con_okD(15) [of con] by (auto simp: set_arg_def con_ok_def con_in_def con_consts_def)

lemma state_csi_ok: "con_ok con \<Longrightarrow> okM (state_csi con ch)"
proof -
  assume "con_ok con"
  then have ok: "con_ok (con\<lparr>con_state := STATE_NOR\<rparr>)" by simp
  have arg: "okM (do { (a, c) \<leftarrow> set_arg i f c; g a c })"
    if "con_ok c" "i < 16" "\<And>a c. con_ok c \<Longrightarrow> okM (g a c)" for i f g c
    using set_arg_ok [OF that(1,2), of f] that(3) by auto
  have s: "con_ok (save_cursor c)" if "con_ok c" for c
    using that by (auto simp: con_ok_def con_in_def con_consts_def save_cursor_def)
  show ?thesis
    unfolding state_csi_def Let_def
    by (simp only: ok s csi_lines_ok csi_J_ok csi_K_ok csi_m_ok okM_Some set_xy_ok simp_thms if_split)
      (intro conjI impI arg ok; simp add: set_xy_ok)
qed

lemma arg_then_csi_ok: "con_ok con \<Longrightarrow> okM (arg_then_csi con ch)"
  using state_arg_ok [of con ch] state_csi_ok by (fastforce simp: arg_then_csi_def)

lemma console_byte_ok: "con_ok con \<Longrightarrow> okM (console_byte ch con)"
proof -
  assume ok: "con_ok con"
  have r: "con_ok (con\<lparr>con_args := replicate ARG_NR 0, con_argc := 0, con_state := st, con_ques := q\<rparr>)" for st q
    using ok by (auto simp: con_ok_def con_in_def con_consts_def ARG_NR_def)
  show ?thesis
    using ok r by (auto simp: console_byte_def Let_def state_normal_ok state_esc_ok arg_then_csi_ok state_csi_ok
        split: con_state.split)
qed

lemma console_init_ok:
  assumes "dom v = {753664..<769984}"
  shows "\<exists>con. console_init v c = Some con \<and> con_ok con \<and> con_state con = STATE_NOR \<and> con_x con = 0"
proof -
  define con where "con = \<lparr>mem_base = 753664, mem_size = 16320, mem_end = 769984,
      con_screen = 753664, scr_size = 4000, con_pos = 753664, con_x = 0, con_y = 0,
      saved_x = 0, saved_y = 0, con_width = 80, con_height = 25, row_size = 160,
      con_state = STATE_NOR, con_args = replicate 16 0, con_argc = 0, con_ques = False,
      con_erase = ERASE, con_style = STYLE, video = v, crt = c\<rparr>"
  have ok: "con_ok con" using assms by (simp add: con_def con_ok_def con_in_def con_consts_def)
  have s: "con_state (set_screen (set_cursor con)) = STATE_NOR \<and> con_x (set_screen (set_cursor con)) = 0" "con_ok (set_screen (set_cursor con))"
    using ok by (simp_all add: set_screen_def set_cursor_def con_def con_ok_def con_in_def con_consts_def)
  obtain w where w: "erase_screen (set_screen (set_cursor con)) 753664 (drop_bit 1 16320) =
      Some (set_screen (set_cursor con)\<lparr>video := w\<rparr>)" "dom w = dom (video (set_screen (set_cursor con)))"
    using erase_screen_in [OF con_ok_in [OF s(2)], of 753664 "drop_bit 1 16320"] by auto
  have "con_ok (set_screen (set_cursor con)\<lparr>video := w\<rparr>)" by (rule con_ok_set_video [OF s(2) w(2)])
  moreover have "console_init v c = erase_screen (set_screen (set_cursor con)) 753664 (drop_bit 1 16320)"
    by (simp add: console_init_def console_clear_def c_defs con_def Let_def set_screen_def set_cursor_def)
  ultimately show ?thesis using w(1) s(1) by simp
qed

text \<open>C7: Whatever bytes are written, the console never touches memory outside its 102 rows and keeps
  its cursor on the screen, at the address that belongs to its line and column. The console may be in any state
  of an escape sequence before and after, also in one it does not leave (\<open>console_sixteen_separators\<close>).\<close>

theorem console_write_stays_on_screen:
  assumes "con_ok con"
  shows "\<exists>con'. console_write con buf = Some (int (length buf) + 1, con') \<and> con_ok con'"
proof -
  have "okM (foldM console_byte buf con)"
    by (rule okM_foldM [OF assms]) (rule console_byte_ok)
  then show ?thesis by (auto simp: okM_def console_write_def)
qed

definition blank_video :: mem where
  "blank_video = (\<lambda>a. if a \<in> {753664..<769984} then Some 0 else None)"

lemma dom_blank_video: "dom blank_video = {753664..<769984}"
  by (auto simp: blank_video_def dom_def split: if_splits)

theorem console_write_stays_on_screen_witness:
  "\<exists>con con'. console_init blank_video (\<lambda>_. 0) = Some con \<and> con_ok con
     \<and> console_write con [0x68, ESC, 0x5B, 0x39, 0x39, 0x4D, 0x0A] = Some (8, con') \<and> con_ok con'"
proof -
  obtain con where con: "console_init blank_video (\<lambda>_. 0) = Some con" "con_ok con"
    using console_init_ok [OF dom_blank_video] by blast
  show ?thesis
    using console_write_stays_on_screen [OF con(2), of "[0x68, ESC, 0x5B, 0x39, 0x39, 0x4D, 0x0A]"] con by auto
qed

subsection \<open>What a program sees\<close>

definition printable :: "u8 \<Rightarrow> bool" where
  "printable ch \<longleftrightarrow> ch \<notin> {NUL, BEL, BS, HT, LF, VT, FF, CR, DEL, ESC}"

lemma console_byte_printable:
  assumes "con_ok con" "con_state con = STATE_NOR" "printable ch" "unat (con_x con) < 80"
  shows "\<exists>con'. console_byte ch con = Some con' \<and> con_ok con' \<and> con_state con' = STATE_NOR
    \<and> unat (con_x con') = unat (con_x con) + 1 \<and> con_y con' = con_y con \<and> con_style con' = con_style con
    \<and> unat (con_pos con') = unat (con_pos con) + 2
    \<and> video con' = (video con)(unat (con_pos con) \<mapsto> ch, unat (con_pos con) + 1 \<mapsto> con_style con)"
proof -
  note D = con_okD [OF assms(1)]
  have b: "console_byte ch con = con_chr con ch"
    using assms(2,3) by (simp add: console_byte_def state_normal_def printable_def)
  have w: "wrap_line con = Some con" using assms(4) D by (simp add: wrap_line_def unat_cmp)
  have p: "unat (con_pos con + 1) = unat (con_pos con) + 1" "unat (con_pos con + 2) = unat (con_pos con) + 2"
    "unat (con_x con + 1) = unat (con_x con) + 1" using D by (simp_all add: unat_add32)
  have i: "unat (con_pos con) \<in> dom (video con)" "unat (con_pos con) + 1 \<in> dom (video con)"
    using D assms(4) by auto
  define con' where "con' = con\<lparr>video := (video con)(unat (con_pos con) \<mapsto> ch, unat (con_pos con) + 1 \<mapsto> con_style con),
     con_pos := con_pos con + 2, con_x := con_x con + 1\<rparr>"
  have e: "console_byte ch con = Some con'" unfolding b con_chr_def w using i p by (auto simp: store_def con'_def)
  moreover have "con_ok con'" using console_byte_ok [OF assms(1), of ch] e by (simp add: okM_def)
  ultimately show ?thesis using assms(2) p by (simp add: con'_def)
qed

lemma console_bytes_printed:
  assumes "con_ok con" "con_state con = STATE_NOR" "\<forall>c\<in>set cs. printable c" "unat (con_x con) + length cs \<le> 80"
  shows "\<exists>con'. foldM console_byte cs con = Some con' \<and> con_state con' = STATE_NOR
    \<and> unat (con_x con') = unat (con_x con) + length cs \<and> con_y con' = con_y con
    \<and> (\<forall>i<length cs. video con' (unat (con_pos con) + 2 * i) = Some (cs ! i)
          \<and> video con' (unat (con_pos con) + 2 * i + 1) = Some (con_style con))
    \<and> (\<forall>a. a < unat (con_pos con) \<or> unat (con_pos con) + 2 * length cs \<le> a \<longrightarrow> video con' a = video con a)"
  using assms
proof (induction cs arbitrary: con)
  case (Cons ch cs)
  obtain c where c: "console_byte ch con = Some c" "con_ok c" "con_state c = STATE_NOR"
    "unat (con_x c) = unat (con_x con) + 1" "con_y c = con_y con" "con_style c = con_style con"
    "unat (con_pos c) = unat (con_pos con) + 2"
    "video c = (video con)(unat (con_pos con) \<mapsto> ch, unat (con_pos con) + 1 \<mapsto> con_style con)"
    using console_byte_printable [of con ch] Cons.prems by auto
  obtain d where d: "foldM console_byte cs c = Some d" "con_state d = STATE_NOR"
    "unat (con_x d) = unat (con_x c) + length cs" "con_y d = con_y c"
    "\<forall>i<length cs. video d (unat (con_pos c) + 2 * i) = Some (cs ! i)
          \<and> video d (unat (con_pos c) + 2 * i + 1) = Some (con_style c)"
    "\<forall>a. a < unat (con_pos c) \<or> unat (con_pos c) + 2 * length cs \<le> a \<longrightarrow> video d a = video c a"
    using Cons.IH [OF c(2,3)] Cons.prems c(4) by auto
  have "video d (unat (con_pos con) + 2 * i) = Some ((ch # cs) ! i)
      \<and> video d (unat (con_pos con) + 2 * i + 1) = Some (con_style con)" if "i < length (ch # cs)" for i
  proof (cases i)
    case 0
    then show ?thesis using d(6) c(7,8) by simp
  next
    case (Suc j)
    then show ?thesis using d(5) c(6,7) that by (auto simp: add.assoc)
  qed
  moreover have "video d a = video con a" if "a < unat (con_pos con) \<or> unat (con_pos con) + 2 * length (ch # cs) \<le> a" for a
    using that d(6) c(7,8) by auto
  ultimately show ?case using c(1,4,5) d(1-4) by simp
qed simp

text \<open>C33: Written outside an escape sequence, a text without control characters that fits on the rest of the line
  appears from the cursor on, character by character in the current style; no other cell changes and the cursor moves
  behind it. A longer text wraps, and may scroll the screen; the property says nothing of it.\<close>

theorem console_prints_line:
  assumes "con_ok con" "con_state con = STATE_NOR" "\<forall>c\<in>set cs. printable c" "unat (con_x con) + length cs \<le> 80"
  shows "\<exists>con'. console_write con cs = Some (int (length cs) + 1, con')
    \<and> unat (con_x con') = unat (con_x con) + length cs \<and> con_y con' = con_y con
    \<and> (\<forall>i<length cs. video con' (unat (con_pos con) + 2 * i) = Some (cs ! i)
          \<and> video con' (unat (con_pos con) + 2 * i + 1) = Some (con_style con))
    \<and> (\<forall>a. a < unat (con_pos con) \<or> unat (con_pos con) + 2 * length cs \<le> a \<longrightarrow> video con' a = video con a)"
  using console_bytes_printed [OF assms] by (auto simp: console_write_def set_cursor_def)

theorem console_prints_line_witness:
  "\<exists>con con'. console_init blank_video (\<lambda>_. 0) = Some con
     \<and> console_write con [0x68, 0x69] = Some (3, con') \<and> unat (con_x con') = unat (con_x con) + 2"
proof -
  obtain con where con: "console_init blank_video (\<lambda>_. 0) = Some con" "con_ok con" "con_state con = STATE_NOR"
    "con_x con = 0" using console_init_ok [OF dom_blank_video] by blast
  have p: "\<forall>c\<in>set [0x68, 0x69]. printable c" by (simp add: printable_def c_defs)
  from console_prints_line [OF con(2,3) p] con(4) obtain con'
    where "console_write con [0x68, 0x69] = Some (3, con')" "unat (con_x con') = unat (con_x con) + 2"
    by auto
  then show ?thesis using con(1) by blast
qed

lemma separators_counted:
  "con_state con = STATE_ARG \<Longrightarrow> unat (con_argc con) + n \<le> 16
   \<Longrightarrow> foldM console_byte (replicate n 0x3B) con = Some (con\<lparr>con_argc := con_argc con + of_nat n\<rparr>)"
proof (induction n arbitrary: con)
  case (Suc n)
  have a: "unat (con_argc con + 1) = unat (con_argc con) + 1" using Suc.prems(2) by (simp add: unat_add32)
  have "console_byte 0x3B con = Some (con\<lparr>con_argc := con_argc con + 1\<rparr>)"
    using Suc.prems by (simp add: console_byte_def arg_then_csi_def state_arg_def ARG_NR_def)
  then show ?case using Suc.IH [of "con\<lparr>con_argc := con_argc con + 1\<rparr>"] Suc.prems a by (simp add: add.assoc)
qed simp

lemma escape_begins:
  assumes "con_state con = STATE_NOR"
  shows "foldM console_byte [ESC, 0x5B, 0x3B] con =
    Some (con\<lparr>con_args := replicate 16 0, con_argc := 1, con_state := STATE_ARG, con_ques := False\<rparr>)"
proof -
  have "console_byte ESC con = Some (con\<lparr>con_state := STATE_ESC\<rparr>)"
    using assms by (simp add: console_byte_def state_normal_def c_defs)
  moreover have "console_byte 0x5B (con\<lparr>con_state := STATE_ESC\<rparr>) = Some (con\<lparr>con_state := STATE_QUE\<rparr>)"
    by (simp add: console_byte_def state_esc_def)
  moreover have "console_byte 0x3B (con\<lparr>con_state := STATE_QUE\<rparr>) =
      Some (con\<lparr>con_args := replicate 16 0, con_argc := 1, con_state := STATE_ARG, con_ques := False\<rparr>)"
    by (simp add: console_byte_def arg_then_csi_def state_arg_def ARG_NR_def)
  ultimately show ?thesis by simp
qed

text \<open>Sixteen separators in one escape sequence end the output: \<open>state_arg\<close> then takes every further
  byte without leaving its state, so that nothing written later appears on the screen.\<close>

theorem console_sixteen_separators:
  assumes "con_state con = STATE_NOR"
  shows "\<exists>con'. foldM console_byte ([ESC, 0x5B] @ replicate 16 0x3B) con = Some con' \<and> video con' = video con
    \<and> (\<forall>cs. console_write con' cs = Some (int (length cs) + 1, set_cursor con'))"
proof -
  define c1 where "c1 = con\<lparr>con_args := replicate 16 0, con_argc := 1, con_state := STATE_ARG, con_ques := False\<rparr>"
  define con' where "con' = c1\<lparr>con_argc := 16\<rparr>"
  have r: "[ESC, 0x5B] @ replicate 16 0x3B = [ESC, 0x5B, 0x3B] @ replicate 15 0x3B"
    by (simp add: eval_nat_numeral)
  have c1: "con_state c1 = STATE_ARG" "con_argc c1 = 1" by (simp_all add: c1_def)
  have "foldM console_byte ([ESC, 0x5B] @ replicate 16 0x3B) con = Some con'"
    unfolding r foldM_append escape_begins [OF assms] c1_def [symmetric]
    using separators_counted [of c1 15, OF c1(1)] by (simp add: c1(2) con'_def)
  moreover have "foldM console_byte cs con' = Some con'" for cs
    by (induction cs) (simp_all add: console_byte_def con'_def c1_def arg_then_csi_def state_arg_def ARG_NR_def)
  ultimately show ?thesis by (auto simp: console_write_def con'_def c1_def)
qed

theorem console_sixteen_separators_witness:
  "\<exists>con con'. console_init blank_video (\<lambda>_. 0) = Some con
     \<and> foldM console_byte ([ESC, 0x5B] @ replicate 16 0x3B) con = Some con'
     \<and> console_write con' [0x68, 0x69] = Some (3, set_cursor con')"
proof -
  obtain con where con: "console_init blank_video (\<lambda>_. 0) = Some con" "con_state con = STATE_NOR"
    using console_init_ok [OF dom_blank_video] by blast
  from console_sixteen_separators [OF con(2)] obtain con'
    where "foldM console_byte ([ESC, 0x5B] @ replicate 16 0x3B) con = Some con'"
      "\<forall>cs. console_write con' cs = Some (int (length cs) + 1, set_cursor con')" by blast
  then show ?thesis using con(1) by (auto intro!: exI [of _ con] exI [of _ con'])
qed

end
