(* ===== verification/Arena.thy ===== *)
theory Arena
  imports Memory
begin

section \<open>The kernel heap: \<open>kernel/arena.c\<close>\<close>

text \<open>
  \<open>kmalloc\<close> cuts pages into blocks of 16 to 1024 bytes, one size a page; a page starts with its
  \<open>arena_t\<close>, the record at its address in \<open>h_arena\<close>. A larger request takes pages of its own. The free
  blocks of a size are linked in a list, which is the sequence of their addresses here (\<open>DList\<close>); an
  \<open>arena_t\<close> refers to its descriptor by the number of its size. A page that is given back keeps its
  \<open>arena_t\<close>, magic number included, as the code does not clear it: \<open>h_arena\<close> also has these stale
  records, and \<open>kfree\<close> reads them like any other. The contents of the blocks are left out.
\<close>

definition PHINIX_MAGIC :: u32 where [c_defs]: "PHINIX_MAGIC = 0x20231013"
definition DESC_COUNT :: nat where [c_defs]: "DESC_COUNT = 7"
definition BUF_COUNT :: int where [c_defs]: "BUF_COUNT = 4"
definition SIZEOF_ARENA :: u32 where [c_defs]: "SIZEOF_ARENA = 16"

record arena_desc =
  d_total_block :: u32
  d_block_size :: u32
  d_page_count :: int
  d_free_list :: "u32 list"

record arena =
  a_desc :: "nat option"
  a_count :: u32
  a_large :: u32
  a_magic :: u32

record heap =
  h_desc :: "arena_desc list"
  h_arena :: "u32 \<rightharpoonup> arena"
  h_mm :: mm

subsection \<open>The operations\<close>

definition arena_init :: "heap \<Rightarrow> heap" where
  "arena_init h = h\<lparr>h_desc := map (\<lambda>i. \<lparr>d_total_block = (PAGE_SIZE - SIZEOF_ARENA) div push_bit i 16,
     d_block_size = push_bit i 16, d_page_count = 0, d_free_list = []\<rparr>) [0..<DESC_COUNT]\<rparr>"

definition upd_desc :: "nat \<Rightarrow> (arena_desc \<Rightarrow> arena_desc) \<Rightarrow> heap \<Rightarrow> heap option" where
  "upd_desc i f h = do {
     d \<leftarrow> rd (h_desc h) i;
     ds \<leftarrow> wr (h_desc h) i (f d);
     Some (h\<lparr>h_desc := ds\<rparr>) }"

definition get_arena_block :: "u32 \<Rightarrow> u32 \<Rightarrow> heap \<Rightarrow> u32 option" where
  "get_arena_block a idx h = do {
     ar \<leftarrow> h_arena h a;
     i \<leftarrow> a_desc ar;
     d \<leftarrow> rd (h_desc h) i;
     c_assert (d_total_block d > idx);
     Some (a + SIZEOF_ARENA + idx * d_block_size d) }"

definition get_block_arena :: "u32 \<Rightarrow> u32" where
  "get_block_arena b = b AND 0xfffff000"

text \<open>\<open>list_push\<close> and \<open>list_search\<close> on the list of descriptor \<open>i\<close>.\<close>

definition push_block :: "nat \<Rightarrow> u32 \<Rightarrow> heap \<Rightarrow> heap option" where
  "push_block i b h = do {
     d \<leftarrow> rd (h_desc h) i;
     c_assert (b \<notin> set (d_free_list d));
     upd_desc i (\<lambda>d. d\<lparr>d_free_list := b # d_free_list d\<rparr>) h }"

definition block_free :: "nat \<Rightarrow> u32 \<Rightarrow> heap \<Rightarrow> bool option" where
  "block_free i b h = do { d \<leftarrow> rd (h_desc h) i; Some (b \<in> set (d_free_list d)) }"

definition pop_block :: "nat \<Rightarrow> heap \<Rightarrow> (u32 \<times> heap) option" where
  "pop_block i h = do {
     d \<leftarrow> rd (h_desc h) i;
     (case d_free_list d of
        [] \<Rightarrow> None
      | b # bs \<Rightarrow> do { h \<leftarrow> upd_desc i (\<lambda>d. d\<lparr>d_free_list := bs\<rparr>) h; Some (b, h) }) }"

text \<open>The loop bodies of \<open>kmalloc\<close> and \<open>kfree\<close> over the blocks of a page.\<close>

definition add_block :: "u32 \<Rightarrow> nat \<Rightarrow> u32 \<Rightarrow> heap \<Rightarrow> heap option" where
  "add_block a i idx h = do {
     b \<leftarrow> get_arena_block a idx h;
     found \<leftarrow> block_free i b h;
     c_assert (\<not> found);
     h \<leftarrow> push_block i b h;
     found \<leftarrow> block_free i b h;
     c_assert found;
     Some h }"

definition drop_block :: "u32 \<Rightarrow> nat \<Rightarrow> u32 \<Rightarrow> heap \<Rightarrow> heap option" where
  "drop_block a i idx h = do {
     b \<leftarrow> get_arena_block a idx h;
     found \<leftarrow> block_free i b h;
     c_assert found;
     h \<leftarrow> upd_desc i (\<lambda>d. d\<lparr>d_free_list := remove1 b (d_free_list d)\<rparr>) h;
     found \<leftarrow> block_free i b h;
     c_assert (\<not> found);
     Some h }"

definition new_arena :: "nat \<Rightarrow> heap \<Rightarrow> heap option" where
  "new_arena i h = do {
     (a, m) \<leftarrow> alloc_kpage 1 (h_mm h);
     h \<leftarrow> upd_desc i (\<lambda>d. d\<lparr>d_page_count := d_page_count d + 1\<rparr>) (h\<lparr>h_mm := m\<rparr>);
     d \<leftarrow> rd (h_desc h) i;
     let h = h\<lparr>h_arena := (h_arena h)(a \<mapsto> \<lparr>a_desc = Some i, a_count = d_total_block d, a_large = 0,
       a_magic = PHINIX_MAGIC\<rparr>)\<rparr>;
     foldM (\<lambda>k. add_block a i (of_nat k)) [0..<unat (d_total_block d)] h }"

text \<open>The first size that is large enough, or else the last.\<close>

fun desc_for :: "u32 \<Rightarrow> nat \<Rightarrow> arena_desc list \<Rightarrow> nat" where
  "desc_for sz i [] = i - 1"
| "desc_for sz i (d # ds) = (if d_block_size d \<ge> sz then i else desc_for sz (i + 1) ds)"

definition kmalloc_large :: "u32 \<Rightarrow> heap \<Rightarrow> (u32 \<times> heap) option" where
  "kmalloc_large sz h = do {
     n \<leftarrow> div_round_up (sz + SIZEOF_ARENA) PAGE_SIZE;
     (a, m) \<leftarrow> alloc_kpage n (h_mm h);
     Some (a + SIZEOF_ARENA, h\<lparr>h_mm := m, h_arena := (h_arena h)(a \<mapsto>
       \<lparr>a_desc = None, a_count = n, a_large = 1, a_magic = PHINIX_MAGIC\<rparr>)\<rparr>) }"

definition take_block :: "nat \<Rightarrow> heap \<Rightarrow> (u32 \<times> heap) option" where
  "take_block i h = do {
     (b, h) \<leftarrow> pop_block i h;
     let a = get_block_arena b;
     ar \<leftarrow> h_arena h a;
     c_assert (a_magic ar = PHINIX_MAGIC \<and> a_large ar = 0);
     Some (b, h\<lparr>h_arena := (h_arena h)(a \<mapsto> ar\<lparr>a_count := a_count ar - 1\<rparr>)\<rparr>) }"

definition kmalloc :: "u32 \<Rightarrow> heap \<Rightarrow> (u32 \<times> heap) option" where
  "kmalloc sz h =
    (if sz > 1024 then kmalloc_large sz h
     else do {
       let i = desc_for sz 0 (h_desc h);
       d \<leftarrow> rd (h_desc h) i;
       h \<leftarrow> (if d_free_list d = [] then new_arena i h else Some h);
       take_block i h })"

definition give_page :: "u32 \<Rightarrow> u32 \<Rightarrow> heap \<Rightarrow> heap option" where
  "give_page a n h = do {
     m \<leftarrow> free_kpage a n (h_mm h);
     Some (h\<lparr>h_mm := m\<rparr>) }"

definition reclaim :: "u32 \<Rightarrow> nat \<Rightarrow> heap \<Rightarrow> heap option" where
  "reclaim a i h = do {
     d \<leftarrow> rd (h_desc h) i;
     h \<leftarrow> foldM (\<lambda>k. drop_block a i (of_nat k)) [0..<unat (d_total_block d)] h;
     h \<leftarrow> give_page a 1 h;
     h \<leftarrow> upd_desc i (\<lambda>d. d\<lparr>d_page_count := d_page_count d - 1\<rparr>) h;
     d \<leftarrow> rd (h_desc h) i;
     c_assert (d_page_count d \<ge> BUF_COUNT);
     Some h }"

definition kfree :: "u32 \<Rightarrow> heap \<Rightarrow> heap option" where
  "kfree b h = do {
     c_assert (b \<noteq> 0);
     let a = get_block_arena b;
     ar \<leftarrow> h_arena h a;
     c_assert (a_large ar = 1 \<or> a_large ar = 0);
     c_assert (a_magic ar = PHINIX_MAGIC);
     if a_large ar \<noteq> 0 then give_page a (a_count ar) h
     else do {
       i \<leftarrow> a_desc ar;
       h \<leftarrow> push_block i b h;
       let h = h\<lparr>h_arena := (h_arena h)(a \<mapsto> ar\<lparr>a_count := a_count ar + 1\<rparr>)\<rparr>;
       d \<leftarrow> rd (h_desc h) i;
       if a_count ar + 1 = d_total_block d \<and> d_page_count d > BUF_COUNT then reclaim a i h
       else Some h } }"

subsection \<open>The supply of kernel pages\<close>

text \<open>
  What the heap needs of \<open>alloc_kpage\<close> and \<open>free_kpage\<close>: a run of pages that no one uses, and that
  is in use afterwards until it is given back. Pages are counted by their numbers.
\<close>

locale page_supply =
  fixes ok :: "'m \<Rightarrow> bool"
    and used :: "'m \<Rightarrow> nat set"
    and has_run :: "'m \<Rightarrow> nat \<Rightarrow> bool"
    and get :: "u32 \<Rightarrow> 'm \<Rightarrow> (u32 \<times> 'm) option"
    and give :: "u32 \<Rightarrow> u32 \<Rightarrow> 'm \<Rightarrow> 'm option"
  assumes get_run: "\<lbrakk>ok m; 0 < k; has_run m (unat k)\<rbrakk> \<Longrightarrow> \<exists>n m'. get k m = Some (PAGE (of_nat n), m')
      \<and> 0 < n \<and> n + unat k \<le> 1048576 \<and> {n..<n + unat k} \<inter> used m = {}
      \<and> used m' = used m \<union> {n..<n + unat k} \<and> ok m'"
    and give_run: "\<lbrakk>ok m; 0 < k; {n..<n + unat k} \<subseteq> used m\<rbrakk>
      \<Longrightarrow> \<exists>m'. give (PAGE (of_nat n)) k m = Some m' \<and> used m' = used m - {n..<n + unat k} \<and> ok m'"
    and used_range: "ok m \<Longrightarrow> n \<in> used m \<Longrightarrow> 0 < n \<and> n < 1048576"
begin

text \<open>Pages that are taken can be given back, which restores the set of used pages.\<close>

lemma get_give:
  assumes "ok m" "0 < k" "has_run m (unat k)"
  shows "\<exists>p m' m''. get k m = Some (p, m') \<and> give p k m' = Some m'' \<and> used m'' = used m"
proof -
  obtain n m' where g: "get k m = Some (PAGE (of_nat n), m')" "{n..<n + unat k} \<inter> used m = {}"
    "used m' = used m \<union> {n..<n + unat k}" "ok m'" using get_run [OF assms] by blast
  obtain m'' where "give (PAGE (of_nat n)) k m' = Some m''" "used m'' = used m' - {n..<n + unat k}"
    using give_run [OF g(4) assms(2), of n] g(3) by auto
  with g show ?thesis by fastforce
qed

end

definition kused :: "mm \<Rightarrow> nat set" where
  "kused m = {n. \<exists>i<bm_size (kernel_map m). n = unat (bm_offset (kernel_map m)) + i \<and> bm_view (kernel_map m) ! i}"

definition kmap_ok :: "mm \<Rightarrow> bool" where
  "kmap_ok m \<longleftrightarrow> bm_wf (kernel_map m) \<and> 0 < unat (bm_offset (kernel_map m))
     \<and> unat (bm_offset (kernel_map m)) + bm_size (kernel_map m) \<le> 1048576"

definition has_krun :: "mm \<Rightarrow> nat \<Rightarrow> bool" where
  "has_krun m k \<longleftrightarrow> (\<exists>j. free_run (bm_view (kernel_map m)) k j)"

lemma alloc_kpage_run:
  assumes "kmap_ok m" "0 < k" "has_krun m (unat k)"
  shows "\<exists>n m'. alloc_kpage k m = Some (PAGE (of_nat n), m')
      \<and> 0 < n \<and> n + unat k \<le> 1048576 \<and> {n..<n + unat k} \<inter> kused m = {}
      \<and> kused m' = kused m \<union> {n..<n + unat k} \<and> kmap_ok m'"
proof -
  let ?km = "kernel_map m"
  have wf: "bm_wf ?km" using assms(1) by (simp add: kmap_ok_def)
  obtain j bs where s: "bitmap_scan ?km k = Some (int (unat (bm_offset ?km) + j), ?km\<lparr>bm_bits := bs\<rparr>)"
    "free_run (bm_view ?km) (unat k) j" "bm_view (?km\<lparr>bm_bits := bs\<rparr>) = set_run j (unat k) (bm_view ?km)"
    "length bs = length (bm_bits ?km)"
    using bitmap_scan_cases [OF wf assms(2)] assms(3) by (auto simp: has_krun_def first_run_def)
  define n where "n = unat (bm_offset ?km) + j"
  have b: "j + unat k \<le> bm_size ?km" using s(2) by (simp add: free_run_def)
  have n: "0 < n" "n + unat k \<le> 1048576" using b assms(1) by (auto simp: n_def kmap_ok_def)
  have a: "alloc_kpage k m = Some (PAGE (of_nat n), m\<lparr>kernel_map := ?km\<lparr>bm_bits := bs\<rparr>\<rparr>)"
  proof -
    have "int n \<noteq> EOF" "word_of_int (int n) = (of_nat n :: u32)" by simp_all
    with s(1)[folded n_def] assms(2) show ?thesis by (simp add: alloc_kpage_def scan_page_def)
  qed
  have u: "kused (m\<lparr>kernel_map := ?km\<lparr>bm_bits := bs\<rparr>\<rparr>) = kused m \<union> {n..<n + unat k}"
  proof (rule set_eqI)
    fix x
    show "x \<in> kused (m\<lparr>kernel_map := ?km\<lparr>bm_bits := bs\<rparr>\<rparr>) \<longleftrightarrow> x \<in> kused m \<union> {n..<n + unat k}"
    proof (cases "unat (bm_offset ?km) \<le> x")
      case True
      define i where "i = x - unat (bm_offset ?km)"
      have "x = unat (bm_offset ?km) + i" using True by (simp add: i_def)
      then show ?thesis using s(3) b by (auto simp: kused_def n_def bm_size_def)
    qed (auto simp: kused_def n_def)
  qed
  have d: "{n..<n + unat k} \<inter> kused m = {}"
  proof (rule ccontr)
    assume "{n..<n + unat k} \<inter> kused m \<noteq> {}"
    then obtain i where i: "i < bm_size ?km" "bm_view ?km ! i" "j \<le> i" "i < j + unat k"
      by (auto simp: kused_def n_def)
    have "\<forall>l<unat k. \<not> bm_view ?km ! (j + l)" using s(2) by (simp add: free_run_def)
    moreover have "i - j < unat k" using i(3,4) by linarith
    ultimately have "\<not> bm_view ?km ! (j + (i - j))" by blast
    with i show False by simp
  qed
  have ok: "kmap_ok (m\<lparr>kernel_map := ?km\<lparr>bm_bits := bs\<rparr>\<rparr>)"
    using assms(1) s(4) by (auto simp: kmap_ok_def bm_wf_def bm_size_def)
  from a n u d ok show ?thesis by blast
qed

lemma reset_from_run:
  assumes "bm_wf bm" "j + k \<le> bm_size bm" "\<forall>i. j \<le> i \<and> i < j + k \<longrightarrow> bm_view bm ! i"
  shows "\<exists>bs. reset_from (bm_index bm j) k bm = Some (bm\<lparr>bm_bits := bs\<rparr>) \<and> length bs = length (bm_bits bm)
    \<and> (\<forall>i<bm_size bm. bm_view (bm\<lparr>bm_bits := bs\<rparr>) ! i = (bm_view bm ! i \<and> \<not> (j \<le> i \<and> i < j + k)))"
  using assms
proof (induction k arbitrary: j bm)
  case 0
  then show ?case by (intro exI [of _ "bm_bits bm"]) simp
next
  case (Suc k)
  define bm1 where "bm1 = bm\<lparr>bm_bits := put_bit j False (bm_bits bm)\<rparr>"
  have j: "j < bm_size bm" using Suc.prems(2) by simp
  have v: "bm_view bm1 = (bm_view bm)[j := False]" unfolding bm1_def by (rule bm_view_put [OF Suc.prems(1) j])
  have s: "bm_size bm1 = bm_size bm" "bm_offset bm1 = bm_offset bm" by (simp_all add: bm1_def bm_size_def)
  have wf: "bm_wf bm1" unfolding bm1_def by (rule bm_wf_put [OF Suc.prems(1)])
  have t: "bitmap_test bm (bm_index bm j) = Some True"
    using bitmap_test_view [OF Suc.prems(1) j] Suc.prems(3) by simp
  have "\<forall>i. Suc j \<le> i \<and> i < Suc j + k \<longrightarrow> bm_view bm1 ! i" using Suc.prems(3) unfolding v by simp
  then obtain bs where bs: "reset_from (bm_index bm1 (Suc j)) k bm1 = Some (bm1\<lparr>bm_bits := bs\<rparr>)"
    "length bs = length (bm_bits bm1)"
    "\<forall>i<bm_size bm1. bm_view (bm1\<lparr>bm_bits := bs\<rparr>) ! i = (bm_view bm1 ! i \<and> \<not> (Suc j \<le> i \<and> i < Suc j + k))"
    using Suc.IH [OF wf, of "Suc j"] Suc.prems(2) s by auto
  have "bm_index bm j + 1 = bm_index bm1 (Suc j)" by (simp add: bm_index_def s)
  then have "reset_from (bm_index bm j) (Suc k) bm = Some (bm\<lparr>bm_bits := bs\<rparr>)"
    using t bs(1) bitmap_set_eq [OF Suc.prems(1) j, of False] by (simp add: bm1_def)
  moreover have "length bs = length (bm_bits bm)" using bs(2) by (simp add: bm1_def put_bit_def)
  moreover have "bm_view (bm\<lparr>bm_bits := bs\<rparr>) ! i = (bm_view bm ! i \<and> \<not> (j \<le> i \<and> i < j + Suc k))"
    if "i < bm_size bm" for i
    using bs(3) that unfolding s v by (cases "i = j") (auto simp: bm1_def nth_list_update)
  ultimately show ?case by blast
qed

lemma free_kpage_run:
  assumes "kmap_ok m" "0 < k" "{n..<n + unat k} \<subseteq> kused m"
  shows "\<exists>m'. free_kpage (PAGE (of_nat n)) k m = Some m' \<and> kused m' = kused m - {n..<n + unat k} \<and> kmap_ok m'"
proof -
  let ?km = "kernel_map m"
  have wf: "bm_wf ?km" and off: "unat (bm_offset ?km) + bm_size ?km \<le> 1048576" using assms(1) by (simp_all add: kmap_ok_def)
  have k0: "0 < unat k" using assms(2) by (simp add: unat_gt_0)
  then have "n \<in> kused m" using assms(3) by auto
  then obtain j where j: "n = unat (bm_offset ?km) + j" "j < bm_size ?km" by (auto simp: kused_def)
  have used: "i < bm_size ?km \<and> bm_view ?km ! i" if "j \<le> i" "i < j + unat k" for i
    using subsetD [OF assms(3), of "unat (bm_offset ?km) + i"] that j(1) by (auto simp: kused_def)
  have fits: "j + unat k \<le> bm_size ?km" using used [of "j + unat k - 1"] k0 by linarith
  obtain bs where bs: "reset_from (bm_index ?km j) (unat k) ?km = Some (?km\<lparr>bm_bits := bs\<rparr>)"
    "length bs = length (bm_bits ?km)"
    "\<forall>i<bm_size ?km. bm_view (?km\<lparr>bm_bits := bs\<rparr>) ! i = (bm_view ?km ! i \<and> \<not> (j \<le> i \<and> i < j + unat k))"
    using reset_from_run [OF wf fits] used by blast
  have n: "n < 1048576" using j off by simp
  have ix: "bm_index ?km j = of_nat n" by (simp add: bm_index_def j(1))
  have f: "free_kpage (PAGE (of_nat n)) k m = Some (m\<lparr>kernel_map := ?km\<lparr>bm_bits := bs\<rparr>\<rparr>)"
    using n assms(2) bs(1) [unfolded ix] by (simp add: free_kpage_def reset_page_def)
  have u: "kused (m\<lparr>kernel_map := ?km\<lparr>bm_bits := bs\<rparr>\<rparr>) = kused m - {n..<n + unat k}"
  proof (rule set_eqI)
    fix x
    show "x \<in> kused (m\<lparr>kernel_map := ?km\<lparr>bm_bits := bs\<rparr>\<rparr>) \<longleftrightarrow> x \<in> kused m - {n..<n + unat k}"
      using bs(3) by (auto simp: kused_def j(1) bm_size_def)
  qed
  have "kmap_ok (m\<lparr>kernel_map := ?km\<lparr>bm_bits := bs\<rparr>\<rparr>)"
    using assms(1) bs(2) by (auto simp: kmap_ok_def bm_wf_def bm_size_def)
  with f u show ?thesis by blast
qed

interpretation kpages: page_supply kmap_ok kused has_krun alloc_kpage free_kpage
proof
  show "\<exists>n m'. alloc_kpage k m = Some (PAGE (of_nat n), m') \<and> 0 < n \<and> n + unat k \<le> 1048576
      \<and> {n..<n + unat k} \<inter> kused m = {} \<and> kused m' = kused m \<union> {n..<n + unat k} \<and> kmap_ok m'"
    if "kmap_ok m" "0 < k" "has_krun m (unat k)" for m k
    using alloc_kpage_run [OF that] .
  show "\<exists>m'. free_kpage (PAGE (of_nat n)) k m = Some m' \<and> kused m' = kused m - {n..<n + unat k} \<and> kmap_ok m'"
    if "kmap_ok m" "0 < k" "{n..<n + unat k} \<subseteq> kused m" for m k n
    using free_kpage_run [OF that] .
  show "0 < n \<and> n < 1048576" if "kmap_ok m" "n \<in> kused m" for m n
    using that by (auto simp: kmap_ok_def kused_def)
qed

subsection \<open>Blocks and their pages\<close>

text \<open>Block \<open>k\<close> of page \<open>n\<close>, when the page holds blocks of size \<open>i\<close>.\<close>

definition bsize :: "nat \<Rightarrow> nat" where
  "bsize i = 16 * 2 ^ i"

definition btotal :: "nat \<Rightarrow> nat" where
  "btotal i = 4080 div bsize i"

definition blk :: "nat \<Rightarrow> nat \<Rightarrow> nat \<Rightarrow> u32" where
  "blk n i k = PAGE (of_nat n) + 16 + of_nat k * of_nat (bsize i)"

definition slots :: "nat \<Rightarrow> nat \<Rightarrow> u32 set" where
  "slots n i = blk n i ` {..<btotal i}"

lemma size_cases: "i < 7 \<Longrightarrow> i = 0 \<or> i = 1 \<or> i = 2 \<or> i = 3 \<or> i = 4 \<or> i = 5 \<or> i = (6 :: nat)"
  by linarith

lemma btotal_fits: "k < btotal i \<Longrightarrow> 16 + k * bsize i + bsize i \<le> 4096"
proof -
  assume "k < btotal i"
  then have "Suc k * bsize i \<le> btotal i * bsize i" by (intro mult_le_mono1) simp
  also have "\<dots> \<le> 4080" by (simp add: btotal_def)
  finally show ?thesis by simp
qed

lemma bsize_pos: "0 < bsize i"
  by (simp add: bsize_def)

lemma btotal_pos: "i < 7 \<Longrightarrow> 0 < btotal i"
  by (auto dest!: size_cases simp: btotal_def bsize_def)

lemma unat_blk:
  assumes "n < 1048576" "k < btotal i"
  shows "unat (blk n i k) = 4096 * n + 16 + k * bsize i"
proof -
  have f: "16 + k * bsize i < 4096" using btotal_fits [OF assms(2)] bsize_pos [of i] by simp
  have "blk n i k = of_nat (4096 * n + 16 + k * bsize i)"
    using assms(1) by (simp add: blk_def PAGE_def push_bit_eq_mult)
  then show ?thesis using f assms(1) by (simp only: unat_of_nat32)
qed

lemma blk_page: "n < 1048576 \<Longrightarrow> b \<in> slots n i \<Longrightarrow> unat b div 4096 = n"
proof -
  assume n: "n < 1048576" and "b \<in> slots n i"
  then obtain k where k: "b = blk n i k" "k < btotal i" by (auto simp: slots_def)
  have "unat b = n * 4096 + (16 + k * bsize i)" using unat_blk [OF n k(2)] k(1) by simp
  moreover have "16 + k * bsize i < 4096" using btotal_fits [OF k(2)] bsize_pos [of i] by simp
  ultimately show ?thesis by simp
qed

lemma page_of_word: "get_block_arena b = PAGE (of_nat (unat b div 4096))"
proof -
  have "(0xfffff000 :: u32) = push_bit 12 (mask 20)"
    by (simp add: mask_eq_exp_minus_1 push_bit_eq_mult)
  moreover have "b AND push_bit 12 (mask 20) = push_bit 12 (drop_bit 12 b)"
    by (auto intro!: bit_word_eqI simp: bit_and_iff bit_push_bit_iff bit_drop_bit_eq bit_mask_iff)
  ultimately have "b AND 0xfffff000 = push_bit 12 (drop_bit 12 b)" by metis
  moreover have "unat b div 4096 < 4294967296" using unsigned_less [of b, where ?'a = nat] by simp
  then have "drop_bit 12 b = of_nat (unat b div 4096)"
    using drop_bit_word_div [of 12 b] unat_of_nat32 by (simp add: word_unat_eq_iff)
  ultimately show ?thesis by (simp add: get_block_arena_def PAGE_def)
qed

lemma blk_arena: "n < 1048576 \<Longrightarrow> b \<in> slots n i \<Longrightarrow> get_block_arena b = PAGE (of_nat n)"
  by (simp add: page_of_word blk_page)

lemma blk_inj:
  assumes "n < 1048576" "k < btotal i" "k' < btotal i" "blk n i k = blk n i k'"
  shows "k = k'"
proof -
  have "unat (blk n i k) = unat (blk n i k')" by (simp only: assms(4))
  then have "4096 * n + 16 + k * bsize i = 4096 * n + 16 + k' * bsize i"
    unfolding unat_blk [OF assms(1,2)] unat_blk [OF assms(1,3)] .
  then have "k * bsize i = k' * bsize i" by simp
  then show ?thesis using bsize_pos [of i] by (simp add: mult_cancel2)
qed

lemma slots_disjoint: "n < 1048576 \<Longrightarrow> n' < 1048576 \<Longrightarrow> n \<noteq> n' \<Longrightarrow> slots n i \<inter> slots n' i' = {}"
  using blk_page by blast

lemma page_inj: "n < 1048576 \<Longrightarrow> n' < 1048576 \<Longrightarrow> PAGE (of_nat n) = PAGE (of_nat n') \<longleftrightarrow> n = n'"
proof
  assume n: "n < 1048576" "n' < 1048576" and "PAGE (of_nat n) = PAGE (of_nat n')"
  then have "unat (PAGE (of_nat n)) = unat (PAGE (of_nat n'))" by (simp only:)
  then have "4096 * n = 4096 * n'" unfolding unat_PAGE [OF n(1)] unat_PAGE [OF n(2)] .
  then show "n = n'" by simp
qed simp

lemma finite_slots [simp]: "finite (slots n i)"
  by (simp add: slots_def)

lemma card_slots: "n < 1048576 \<Longrightarrow> card (slots n i) = btotal i"
  unfolding slots_def by (subst card_image) (auto intro: inj_onI blk_inj)

subsection \<open>The invariant\<close>

text \<open>
  A heap without stale records: the arenas are those of the pages in \<open>h_arena\<close>; a page of small blocks
  counts its free blocks, which are the ones in the list of its size. \<open>held n i\<close>: page \<open>n\<close> holds small
  blocks of size \<open>i\<close>. \<open>cur U h\<close> is the heap \<open>h\<close> with the records at \<open>U\<close>, those of the arenas in use, only.
\<close>

definition cur :: "u32 set \<Rightarrow> heap \<Rightarrow> heap" where
  "cur U h = h\<lparr>h_arena := h_arena h |` U\<rparr>"

definition fl :: "heap \<Rightarrow> nat \<Rightarrow> u32 list" where
  "fl h i = d_free_list (h_desc h ! i)"

definition held :: "heap \<Rightarrow> nat \<Rightarrow> nat \<Rightarrow> bool" where
  "held h n i \<longleftrightarrow> (\<exists>ar. h_arena h (PAGE (of_nat n)) = Some ar \<and> a_large ar = 0 \<and> a_desc ar = Some i)"

definition span :: "arena \<Rightarrow> nat" where
  "span ar = (if a_large ar = 0 then 1 else unat (a_count ar))"

definition descs_ok :: "heap \<Rightarrow> bool" where
  "descs_ok h \<longleftrightarrow> length (h_desc h) = 7
     \<and> (\<forall>i<7. d_block_size (h_desc h ! i) = of_nat (bsize i) \<and> d_total_block (h_desc h ! i) = of_nat (btotal i)
          \<and> distinct (fl h i) \<and> (\<forall>b\<in>set (fl h i). \<exists>n<1048576. held h n i \<and> b \<in> slots n i))"

definition arena_ok :: "heap \<Rightarrow> nat \<Rightarrow> arena \<Rightarrow> bool" where
  "arena_ok h n ar \<longleftrightarrow> a_magic ar = PHINIX_MAGIC \<and> {n..<n + span ar} \<subseteq> kused (h_mm h)
     \<and> (a_large ar = 1 \<and> a_desc ar = None \<and> a_count ar > 0
        \<or> a_large ar = 0 \<and> (\<exists>i<7. a_desc ar = Some i \<and> unat (a_count ar) = card (set (fl h i) \<inter> slots n i)))"

definition arenas_ok :: "heap \<Rightarrow> bool" where
  "arenas_ok h \<longleftrightarrow> (\<forall>p ar. h_arena h p = Some ar \<longrightarrow> (\<exists>n<1048576. p = PAGE (of_nat n)))
     \<and> (\<forall>n<1048576. \<forall>ar. h_arena h (PAGE (of_nat n)) = Some ar \<longrightarrow> arena_ok h n ar)
     \<and> (\<forall>n<1048576. \<forall>n'<1048576. \<forall>ar ar'. h_arena h (PAGE (of_nat n)) = Some ar
          \<longrightarrow> h_arena h (PAGE (of_nat n')) = Some ar' \<longrightarrow> n \<noteq> n' \<longrightarrow> {n..<n + span ar} \<inter> {n'..<n' + span ar'} = {})"

definition heap_ok :: "heap \<Rightarrow> bool" where
  "heap_ok h \<longleftrightarrow> descs_ok h \<and> arenas_ok h \<and> kmap_ok (h_mm h)"

text \<open>The blocks in use, and how long each is.\<close>

definition live :: "heap \<Rightarrow> u32 set" where
  "live h = {b. \<exists>n<1048576. \<exists>i<7. held h n i \<and> b \<in> slots n i \<and> b \<notin> set (fl h i)}
     \<union> {b. \<exists>n<1048576. \<exists>ar. h_arena h (PAGE (of_nat n)) = Some ar \<and> a_large ar \<noteq> 0 \<and> b = PAGE (of_nat n) + 16}"

definition room :: "heap \<Rightarrow> u32 \<Rightarrow> nat" where
  "room h b = (case h_arena h (get_block_arena b) of
       None \<Rightarrow> 0
     | Some ar \<Rightarrow> if a_large ar \<noteq> 0 then 4096 * unat (a_count ar) - 16
                  else (case a_desc ar of None \<Rightarrow> 0 | Some i \<Rightarrow> bsize i))"

lemma heap_okD:
  assumes "heap_ok h"
  shows "length (h_desc h) = 7" "kmap_ok (h_mm h)"
    "i < 7 \<Longrightarrow> d_block_size (h_desc h ! i) = of_nat (bsize i)"
    "i < 7 \<Longrightarrow> d_total_block (h_desc h ! i) = of_nat (btotal i)"
    "i < 7 \<Longrightarrow> distinct (fl h i)"
    "i < 7 \<Longrightarrow> b \<in> set (fl h i) \<Longrightarrow> \<exists>n<1048576. held h n i \<and> b \<in> slots n i"
    "h_arena h p = Some ar \<Longrightarrow> \<exists>n<1048576. p = PAGE (of_nat n)"
    "n < 1048576 \<Longrightarrow> h_arena h (PAGE (of_nat n)) = Some ar \<Longrightarrow> arena_ok h n ar"
    "n < 1048576 \<Longrightarrow> n' < 1048576 \<Longrightarrow> h_arena h (PAGE (of_nat n)) = Some ar
      \<Longrightarrow> h_arena h (PAGE (of_nat n')) = Some ar' \<Longrightarrow> n \<noteq> n' \<Longrightarrow> {n..<n + span ar} \<inter> {n'..<n' + span ar'} = {}"
  using assms unfolding heap_ok_def descs_ok_def arenas_ok_def by blast+

lemma heldD: "held h n i \<Longrightarrow> held h n i' \<Longrightarrow> i = i'"
  by (auto simp: held_def)

text \<open>Words that count the blocks of a page.\<close>

lemma btotal_bound: "i < 7 \<Longrightarrow> btotal i \<le> 255"
  by (auto dest!: size_cases simp: btotal_def bsize_def)

lemma unat_btotal: "i < 7 \<Longrightarrow> unat (of_nat (btotal i) :: u32) = btotal i"
  using btotal_bound [of i] by (simp add: unat_of_nat32)

text \<open>Linking the blocks of a new page.\<close>

lemma add_blocks:
  assumes "n < 1048576" "i < 7" "k \<le> btotal i" "length (h_desc h) = 7"
    and "h_arena h (PAGE (of_nat n)) = Some ar" "a_desc ar = Some i"
    and "d_block_size (h_desc h ! i) = of_nat (bsize i)" "d_total_block (h_desc h ! i) = of_nat (btotal i)"
    and "fl h i = []"
  shows "foldM (\<lambda>k. add_block (PAGE (of_nat n)) i (of_nat k)) [0..<k] h =
    Some (h\<lparr>h_desc := (h_desc h)[i := (h_desc h ! i)\<lparr>d_free_list := rev (map (blk n i) [0..<k])\<rparr>]\<rparr>)"
  using assms(3)
proof (induction k)
  case 0
  have "(h_desc h ! i)\<lparr>d_free_list := []\<rparr> = h_desc h ! i" using assms(9) by (simp add: fl_def)
  then show ?case by (simp add: list_update_same_conv assms(2,4))
next
  case (Suc k)
  define h' where "h' = h\<lparr>h_desc := (h_desc h)[i := (h_desc h ! i)\<lparr>d_free_list := rev (map (blk n i) [0..<k])\<rparr>]\<rparr>"
  have i: "i < length (h_desc h')" using assms(2,4) by (simp add: h'_def)
  have d: "h_desc h' ! i = (h_desc h ! i)\<lparr>d_free_list := rev (map (blk n i) [0..<k])\<rparr>"
    using assms(2,4) by (simp add: h'_def)
  have lt: "(of_nat k :: u32) < of_nat (btotal i)"
    using Suc.prems btotal_bound [OF assms(2)] unat_btotal [OF assms(2)]
    by (simp add: word_less_nat_alt unat_of_nat32)
  have b: "get_arena_block (PAGE (of_nat n)) (of_nat k) h' = Some (blk n i k)"
    using i assms(5-8) lt by (simp add: get_arena_block_def d blk_def SIZEOF_ARENA_def) (simp add: h'_def)
  have f: "blk n i k \<notin> blk n i ` {0..<k}"
  proof
    assume "blk n i k \<in> blk n i ` {0..<k}"
    then obtain k' where "k' < k" "blk n i k = blk n i k'" by auto
    then show False using blk_inj [OF assms(1), of k i k'] Suc.prems by simp
  qed
  have "add_block (PAGE (of_nat n)) i (of_nat k) h' = Some (h'\<lparr>h_desc := (h_desc h')[i := (h_desc h' ! i)\<lparr>d_free_list := blk n i k # d_free_list (h_desc h' ! i)\<rparr>]\<rparr>)"
    using i f by (simp add: add_block_def b block_free_def push_block_def upd_desc_def d)
  then show ?case using Suc assms(2,4) by (simp add: foldM_append h'_def)
qed

lemma slots_list: "set (rev (map (blk n i) [0..<btotal i])) = slots n i"
  by (auto simp: slots_def)

lemma distinct_blocks: "n < 1048576 \<Longrightarrow> distinct (rev (map (blk n i) [0..<btotal i]))"
  by (auto simp: distinct_map intro!: inj_onI blk_inj)

lemma arena_used: "heap_ok h \<Longrightarrow> n < 1048576 \<Longrightarrow> h_arena h (PAGE (of_nat n)) = Some ar \<Longrightarrow> {n..<n + span ar} \<subseteq> kused (h_mm h)"
  using heap_okD(8) by (simp add: arena_ok_def)

lemma span_pos: "arena_ok h n ar \<Longrightarrow> 0 < span ar"
  by (auto simp: arena_ok_def span_def unat_gt_0)

lemma arena_used_page: "heap_ok h \<Longrightarrow> n < 1048576 \<Longrightarrow> h_arena h (PAGE (of_nat n)) = Some ar \<Longrightarrow> n \<in> kused (h_mm h)"
  using arena_used [of h n ar] span_pos [OF heap_okD(8) [of h n ar]] by auto

lemma new_arena_eq:
  assumes "heap_ok h" "i < 7" "fl h i = []" "has_krun (h_mm h) 1"
  obtains n m ar d where "0 < n" "n < 1048576" "n \<notin> kused (h_mm h)" "kused m = insert n (kused (h_mm h))" "kmap_ok m"
    "a_large ar = 0" "a_desc ar = Some i" "a_count ar = of_nat (btotal i)" "a_magic ar = PHINIX_MAGIC"
    "d_block_size d = of_nat (bsize i)" "d_total_block d = of_nat (btotal i)" "d_free_list d = rev (map (blk n i) [0..<btotal i])"
    "new_arena i h = Some (h\<lparr>h_desc := (h_desc h)[i := d], h_arena := (h_arena h)(PAGE (of_nat n) \<mapsto> ar), h_mm := m\<rparr>)"
proof -
  note D = heap_okD [OF assms(1)]
  have "has_krun (h_mm h) (unat (1 :: u32))" using assms(4) by simp
  from kpages.get_run [OF D(2) _ this] obtain n m where n: "alloc_kpage 1 (h_mm h) = Some (PAGE (of_nat n), m)"
    "0 < n" "n < 1048576" "n \<notin> kused (h_mm h)" "kused m = insert n (kused (h_mm h))" "kmap_ok m"
    by auto
  define ar where "ar = \<lparr>a_desc = Some i, a_count = of_nat (btotal i), a_large = 0, a_magic = PHINIX_MAGIC\<rparr>"
  define d0 where "d0 = (h_desc h ! i)\<lparr>d_page_count := d_page_count (h_desc h ! i) + 1\<rparr>"
  define d where "d = d0\<lparr>d_free_list := rev (map (blk n i) [0..<btotal i])\<rparr>"
  define h1 where "h1 = h\<lparr>h_mm := m, h_desc := (h_desc h)[i := d0], h_arena := (h_arena h)(PAGE (of_nat n) \<mapsto> ar)\<rparr>"
  have d0: "d_block_size d0 = of_nat (bsize i)" "d_total_block d0 = of_nat (btotal i)" "d_free_list d0 = []"
    using D(3,4) [OF assms(2)] assms(3) by (simp_all add: d0_def fl_def)
  have "foldM (\<lambda>k. add_block (PAGE (of_nat n)) i (of_nat k)) [0..<btotal i] h1 =
      Some (h1\<lparr>h_desc := (h_desc h1)[i := (h_desc h1 ! i)\<lparr>d_free_list := rev (map (blk n i) [0..<btotal i])\<rparr>]\<rparr>)"
    by (rule add_blocks [OF n(3) assms(2) order_refl, where ar = ar]) (use assms(2) D(1) d0 in \<open>simp_all add: h1_def ar_def fl_def\<close>)
  then have "new_arena i h = Some (h1\<lparr>h_desc := (h_desc h)[i := d]\<rparr>)"
    using assms(2) D(1) n(1) d0 unat_btotal [OF assms(2)]
    by (simp add: new_arena_def upd_desc_def ar_def [symmetric] d0_def [symmetric] h1_def [symmetric] d_def)
      (simp add: h1_def ar_def)
  then have "new_arena i h = Some (h\<lparr>h_desc := (h_desc h)[i := d], h_arena := (h_arena h)(PAGE (of_nat n) \<mapsto> ar), h_mm := m\<rparr>)"
    by (simp add: h1_def)
  then show thesis by (intro that [OF n(2-6)]) (simp_all add: ar_def d_def d0)
qed

lemma live_arena:
  assumes "b \<in> live h"
  obtains n ar where "n < 1048576" "h_arena h (PAGE (of_nat n)) = Some ar" "get_block_arena b = PAGE (of_nat n)"
proof (rule assms [unfolded live_def Un_iff mem_Collect_eq, THEN disjE])
  assume "\<exists>n<1048576. \<exists>i<7. held h n i \<and> b \<in> slots n i \<and> b \<notin> set (fl h i)"
  then show thesis using that blk_arena by (auto simp: held_def)
next
  assume "\<exists>n<1048576. \<exists>ar. h_arena h (PAGE (of_nat n)) = Some ar \<and> a_large ar \<noteq> 0 \<and> b = PAGE (of_nat n) + 16"
  then obtain n ar where l: "n < 1048576" "h_arena h (PAGE (of_nat n)) = Some ar" "b = PAGE (of_nat n) + 16" by blast
  have "b \<in> slots n 0" unfolding l(3) slots_def by (rule image_eqI [of _ _ 0]) (simp_all add: blk_def btotal_pos)
  then show thesis using that [OF l(1,2)] blk_arena [OF l(1)] by blast
qed

lemma free_arena:
  assumes "heap_ok h" "i < 7" "b \<in> set (fl h i)"
  obtains n ar where "n < 1048576" "h_arena h (PAGE (of_nat n)) = Some ar" "get_block_arena b = PAGE (of_nat n)"
    "held h n i" "b \<in> slots n i"
  using heap_okD(6) [OF assms] blk_arena that by (auto simp: held_def)

text \<open>Whether a block is in use depends only on its arena and on the list of its size.\<close>

lemma live_iff:
  assumes "heap_ok h" "n < 1048576" "get_block_arena b = PAGE (of_nat n)"
  shows "b \<in> live h \<longleftrightarrow> (\<exists>i<7. held h n i \<and> b \<in> slots n i \<and> b \<notin> set (fl h i))
     \<or> (\<exists>ar. h_arena h (PAGE (of_nat n)) = Some ar \<and> a_large ar \<noteq> 0 \<and> b = PAGE (of_nat n) + 16)"
proof -
  have same: "n' = n" if "n' < 1048576" "b \<in> slots n' i" for n' i
    using blk_arena [OF that] assms(3) page_inj [OF that(1) assms(2)] by simp
  have "b \<in> slots n' 0" if "b = PAGE (of_nat n') + 16" for n'
    unfolding that slots_def by (rule image_eqI [of _ _ 0]) (simp_all add: blk_def btotal_pos)
  then have "n' = n" if "n' < 1048576" "b = PAGE (of_nat n') + 16" for n' using same that by blast
  with same assms(2) show ?thesis unfolding live_def by blast
qed

lemma add_arena:
  assumes "heap_ok h" "n < 1048576" "{n..<n + span ar} \<inter> kused (h_mm h) = {}"
    and "kused (h_mm h') = kused (h_mm h) \<union> {n..<n + span ar}" "kmap_ok (h_mm h')"
    and "h_arena h' = (h_arena h)(PAGE (of_nat n) \<mapsto> ar)" "arena_ok h' n ar"
    and "length (h_desc h') = 7"
    and desc: "\<And>j. j < 7 \<Longrightarrow> d_block_size (h_desc h' ! j) = of_nat (bsize j) \<and> d_total_block (h_desc h' ! j) = of_nat (btotal j)
      \<and> distinct (fl h' j) \<and> set (fl h j) \<subseteq> set (fl h' j)
      \<and> (\<forall>b\<in>set (fl h' j). b \<in> set (fl h j) \<or> b \<in> slots n j \<and> held h' n j)"
  shows "heap_ok h'" "b \<in> live h' \<longleftrightarrow> (if get_block_arena b = PAGE (of_nat n) then b \<in> live h' else b \<in> live h)"
    "b \<in> live h \<Longrightarrow> room h' b = room h b" "b \<in> live h \<Longrightarrow> get_block_arena b \<noteq> PAGE (of_nat n)"
proof -
  note D = heap_okD [OF assms(1)]
  have new: "{n..<n + span ar} \<inter> {n'..<n' + span a'} = {}" if "n' < 1048576" "h_arena h (PAGE (of_nat n')) = Some a'" for n' a'
    using arena_used [OF assms(1) that] assms(3) by blast
  have nn: "n \<in> {n..<n + span ar}" using span_pos [OF assms(7)] by simp
  have fresh: "h_arena h (PAGE (of_nat n)) = None"
  proof (rule ccontr)
    assume "h_arena h (PAGE (of_nat n)) \<noteq> None"
    then have "n \<in> kused (h_mm h)" using arena_used_page [OF assms(1,2)] by auto
    with nn assms(3) show False by blast
  qed
  have at: "h_arena h' (PAGE (of_nat n')) = (if n' = n then Some ar else h_arena h (PAGE (of_nat n')))" if "n' < 1048576" for n'
    using page_inj [OF that assms(2)] by (simp add: assms(6))
  have held: "held h' n' j \<longleftrightarrow> held h n' j" if "n' < 1048576" "n' \<noteq> n" for n' j
    using at [OF that(1)] that(2) by (simp add: held_def)
  have free: "b \<in> set (fl h' j) \<longleftrightarrow> b \<in> set (fl h j)" if "j < 7" "b \<notin> slots n j" for b j
    using desc [OF that(1)] that(2) by blast
  have old: "n' \<noteq> n" if "h_arena h (PAGE (of_nat n')) = Some ar'" for n' ar' using that fresh by auto
  have "descs_ok h'"
    unfolding descs_ok_def
  proof (intro conjI allI impI ballI)
    fix j :: nat assume j: "j < 7"
    fix b assume "b \<in> set (fl h' j)"
    then consider "b \<in> slots n j" "held h' n j" | "b \<in> set (fl h j)" using desc [OF j] by blast
    then show "\<exists>n<1048576. held h' n j \<and> b \<in> slots n j"
    proof cases
      case 1
      then show ?thesis using assms(2) by blast
    next
      case 2
      from D(6) [OF j this] obtain n' where n': "n' < 1048576" "held h n' j" "b \<in> slots n' j" by blast
      then have "n' \<noteq> n" using old by (auto simp: held_def)
      then show ?thesis using n' held by blast
    qed
  qed (use assms(8) desc in blast)+
  moreover have "arenas_ok h'"
    unfolding arenas_ok_def
  proof (intro conjI allI impI)
    show "\<exists>n<1048576. p = PAGE (of_nat n)" if "h_arena h' p = Some ar'" for p ar'
      using that D(7) [of p ar'] assms(2) by (auto simp: assms(6) split: if_splits)
    show "arena_ok h' n' ar'" if n': "n' < 1048576" and a: "h_arena h' (PAGE (of_nat n')) = Some ar'" for n' ar'
    proof (cases "n' = n")
      case True
      then show ?thesis using a at [OF n'] assms(7) by simp
    next
      case False
      then have a': "h_arena h (PAGE (of_nat n')) = Some ar'" using a at [OF n'] by simp
      have "set (fl h' j) \<inter> slots n' j = set (fl h j) \<inter> slots n' j" if "j < 7" for j
        using free [OF that] slots_disjoint [OF assms(2) n', of j j] False by blast
      then show ?thesis using D(8) [OF n' a'] assms(4) by (auto simp: arena_ok_def)
    qed
    show "{n1..<n1 + span a1} \<inter> {n2..<n2 + span a2} = {}"
      if n12: "n1 < 1048576" "n2 < 1048576" and a: "h_arena h' (PAGE (of_nat n1)) = Some a1" "h_arena h' (PAGE (of_nat n2)) = Some a2"
        and ne: "n1 \<noteq> n2" for n1 n2 a1 a2
    proof -
      consider "n1 = n" | "n2 = n" | "n1 \<noteq> n" "n2 \<noteq> n" by blast
      then show ?thesis
      proof cases
        case 1
        then have "a1 = ar" "h_arena h (PAGE (of_nat n2)) = Some a2" using a at n12 ne by auto
        then show ?thesis using 1 new [OF n12(2)] by auto
      next
        case 2
        then have "a2 = ar" "h_arena h (PAGE (of_nat n1)) = Some a1" using a at n12 ne by auto
        then show ?thesis using 2 new [OF n12(1), of a1] by auto
      next
        case 3
        then show ?thesis using D(9) [OF n12 _ _ ne] a at n12 by auto
      qed
    qed
  qed
  ultimately show ok: "heap_ok h'" using assms(5) by (simp add: heap_ok_def)
  show other: "get_block_arena b \<noteq> PAGE (of_nat n)" if "b \<in> live h" for b
  proof (rule live_arena [OF that])
    fix n' ar' assume n': "n' < 1048576" "h_arena h (PAGE (of_nat n')) = Some ar'" "get_block_arena b = PAGE (of_nat n')"
    then show ?thesis using page_inj [OF n'(1) assms(2)] old [OF n'(2)] by simp
  qed
  have keep: "b \<in> live h' \<longleftrightarrow> b \<in> live h" if ne: "get_block_arena b \<noteq> PAGE (of_nat n)" for b
  proof -
    have sl: "b \<notin> slots n j" for j using blk_arena [OF assms(2)] ne by blast
    define n' where "n' = unat b div 4096"
    have "n' < 1048576" using unsigned_less [of b, where ?'a = nat] by (simp add: n'_def)
    moreover have "get_block_arena b = PAGE (of_nat n')" by (simp add: page_of_word n'_def)
    moreover have "n' \<noteq> n" using ne calculation(2) by auto
    ultimately show ?thesis
      using live_iff [OF ok, of n' b] live_iff [OF assms(1), of n' b] at held free [OF _ sl] by auto
  qed
  show "b \<in> live h' \<longleftrightarrow> (if get_block_arena b = PAGE (of_nat n) then b \<in> live h' else b \<in> live h)"
    using keep by simp
  show "room h' b = room h b" if "b \<in> live h"
    by (rule live_arena [OF that]) (use at old in \<open>simp add: room_def\<close>)
qed

lemma new_arena_ok:
  assumes "heap_ok h" "i < 7" "fl h i = []" "has_krun (h_mm h) 1"
  shows "\<exists>h'. new_arena i h = Some h' \<and> heap_ok h' \<and> fl h' i \<noteq> [] \<and> live h' = live h \<and> (\<forall>b\<in>live h. room h' b = room h b)"
proof -
  note D = heap_okD [OF assms(1)]
  obtain n m ar d where n: "0 < n" "n < 1048576" "n \<notin> kused (h_mm h)" "kused m = insert n (kused (h_mm h))" "kmap_ok m"
    and ar: "a_large ar = 0" "a_desc ar = Some i" "a_count ar = of_nat (btotal i)" "a_magic ar = PHINIX_MAGIC"
    and d: "d_block_size d = of_nat (bsize i)" "d_total_block d = of_nat (btotal i)" "d_free_list d = rev (map (blk n i) [0..<btotal i])"
    and e: "new_arena i h = Some (h\<lparr>h_desc := (h_desc h)[i := d], h_arena := (h_arena h)(PAGE (of_nat n) \<mapsto> ar), h_mm := m\<rparr>)"
    by (rule new_arena_eq [OF assms])
  define h' where "h' = h\<lparr>h_desc := (h_desc h)[i := d], h_arena := (h_arena h)(PAGE (of_nat n) \<mapsto> ar), h_mm := m\<rparr>"
  have sp: "span ar = 1" using ar by (simp add: span_def)
  have free: "fl h' j = (if j = i then rev (map (blk n i) [0..<btotal i]) else fl h j)" if "j < 7" for j
    using that D(1) assms(2) d(3) by (simp add: h'_def fl_def)
  have free_i: "set (fl h' i) = slots n i" using free [OF assms(2)] slots_list by simp
  have held: "held h' n i" using ar by (simp add: held_def h'_def)
  have ok: "arena_ok h' n ar"
    using ar n(4) assms(2) free_i card_slots [OF n(2)] unat_btotal [OF assms(2)]
    by (simp add: arena_ok_def span_def h'_def)
  have desc: "d_block_size (h_desc h' ! j) = of_nat (bsize j) \<and> d_total_block (h_desc h' ! j) = of_nat (btotal j)
      \<and> distinct (fl h' j) \<and> set (fl h j) \<subseteq> set (fl h' j)
      \<and> (\<forall>b\<in>set (fl h' j). b \<in> set (fl h j) \<or> b \<in> slots n j \<and> held h' n j)" if j: "j < 7" for j
    using D(1) D(3,4,5) [OF j] j d free [OF j] free_i distinct_blocks [OF n(2), of i] assms(3) held
    by (cases "j = i") (simp_all add: h'_def)
  note A = add_arena [OF assms(1) n(2), of ar h', unfolded sp, OF _ _ _ _ ok _ desc]
  have A': "heap_ok h'" "\<And>b. b \<in> live h' \<longleftrightarrow> (if get_block_arena b = PAGE (of_nat n) then b \<in> live h' else b \<in> live h)"
    "\<And>b. b \<in> live h \<Longrightarrow> room h' b = room h b" "\<And>b. b \<in> live h \<Longrightarrow> get_block_arena b \<noteq> PAGE (of_nat n)"
    by (rule A; use n D(1) in \<open>simp add: h'_def\<close>)+
  have "b \<notin> live h'" if "get_block_arena b = PAGE (of_nat n)" for b
    using live_iff [OF A'(1) n(2) that] free_i held ar(1,2) by (auto simp: held_def h'_def)
  then have "c \<in> live h' \<longleftrightarrow> c \<in> live h" for c
    using A'(2) [of c] A'(4) [of c] by (cases "get_block_arena c = PAGE (of_nat n)") auto
  then have "live h' = live h" by blast
  moreover have "fl h' i \<noteq> []" using free [OF assms(2)] btotal_pos [OF assms(2)] by simp
  ultimately show ?thesis using e A'(1,3) unfolding h'_def by blast
qed

lemma kmalloc_large_ok:
  assumes "heap_ok h" "1024 < sz" "unat sz < 4294963184" "has_krun (h_mm h) ((unat sz + 4111) div 4096)"
  shows "\<exists>b h'. kmalloc_large sz h = Some (b, h') \<and> heap_ok h' \<and> b \<notin> live h \<and> live h' = insert b (live h)
    \<and> unat sz \<le> room h' b \<and> (\<forall>c\<in>live h. room h' c = room h c)"
proof -
  note D = heap_okD [OF assms(1)]
  have s: "unat (sz + 16) = unat sz + 16" using assms(3) unat_plus_bound [of sz 16] by simp
  obtain k where k: "div_round_up (sz + SIZEOF_ARENA) PAGE_SIZE = Some k" "unat k = (unat sz + 4111) div 4096"
    using div_round_up_ceiling [of PAGE_SIZE "sz + SIZEOF_ARENA"] assms(3) s by (auto simp: PAGE_SIZE_def SIZEOF_ARENA_def)
  have sz: "1024 < unat sz" using assms(2) by (simp add: word_less_nat_alt)
  then have k0: "0 < k" using k(2) by (simp add: word_less_nat_alt)
  have "has_krun (h_mm h) (unat k)" using assms(4) k(2) by simp
  from kpages.get_run [OF D(2) k0 this] obtain n m where n: "alloc_kpage k (h_mm h) = Some (PAGE (of_nat n), m)"
    "0 < n" "n + unat k \<le> 1048576" "{n..<n + unat k} \<inter> kused (h_mm h) = {}"
    "kused m = kused (h_mm h) \<union> {n..<n + unat k}" "kmap_ok m" by blast
  define ar where "ar = \<lparr>a_desc = None, a_count = k, a_large = 1, a_magic = PHINIX_MAGIC\<rparr>"
  define h' where "h' = h\<lparr>h_mm := m, h_arena := (h_arena h)(PAGE (of_nat n) \<mapsto> ar)\<rparr>"
  have e: "kmalloc_large sz h = Some (PAGE (of_nat n) + 16, h')"
    using k(1) n(1) by (simp add: kmalloc_large_def h'_def ar_def SIZEOF_ARENA_def)
  have sp: "span ar = unat k" by (simp add: span_def ar_def)
  have n': "n < 1048576" using n(3) k0 by (simp add: word_less_nat_alt)
  have ok: "arena_ok h' n ar" using n(5) k0 by (simp add: arena_ok_def sp h'_def) (simp add: ar_def)
  have desc: "d_block_size (h_desc h' ! j) = of_nat (bsize j) \<and> d_total_block (h_desc h' ! j) = of_nat (btotal j)
      \<and> distinct (fl h' j) \<and> set (fl h j) \<subseteq> set (fl h' j)
      \<and> (\<forall>b\<in>set (fl h' j). b \<in> set (fl h j) \<or> b \<in> slots n j \<and> held h' n j)" if j: "j < 7" for j
    using D(3,4,5) [OF j] by (simp add: h'_def fl_def)
  note A = add_arena [OF assms(1) n', of ar h', unfolded sp, OF _ _ _ _ ok _ desc]
  have A': "heap_ok h'" "\<And>b. b \<in> live h' \<longleftrightarrow> (if get_block_arena b = PAGE (of_nat n) then b \<in> live h' else b \<in> live h)"
    "\<And>b. b \<in> live h \<Longrightarrow> room h' b = room h b" "\<And>b. b \<in> live h \<Longrightarrow> get_block_arena b \<noteq> PAGE (of_nat n)"
    by (rule A; use n D(1) in \<open>simp add: h'_def\<close>)+
  let ?b = "PAGE (of_nat n) + 16"
  have "?b \<in> slots n 0" unfolding slots_def by (rule image_eqI [of _ _ 0]) (simp_all add: blk_def btotal_pos)
  then have b: "get_block_arena ?b = PAGE (of_nat n)" using blk_arena [OF n'] by blast
  have at: "h_arena h' (PAGE (of_nat n)) = Some ar" by (simp add: h'_def)
  have la: "a_large ar = 1" by (simp add: ar_def)
  have nh: "\<not> held h' n i" for i by (simp add: held_def at la)
  have "c \<in> live h' \<longleftrightarrow> c = ?b" if "get_block_arena c = PAGE (of_nat n)" for c
    unfolding live_iff [OF A'(1) n' that] using at la nh by simp
  then have "c \<in> live h' \<longleftrightarrow> c \<in> insert ?b (live h)" for c
    using A'(2) [of c] A'(4) [of c] b by (cases "get_block_arena c = PAGE (of_nat n)") auto
  then have l: "live h' = insert ?b (live h)" "?b \<notin> live h" using A'(4) [of ?b] b by blast+
  have "room h' ?b = 4096 * unat k - 16" by (simp add: room_def b at) (simp add: ar_def)
  moreover have "x + 16 \<le> 4096 * ((x + 4111) div 4096)" for x :: nat
    using div_mult_mod_eq [of "x + 4111" 4096] mod_less_divisor [of 4096 "x + 4111"] by linarith
  then have "unat sz + 16 \<le> 4096 * unat k" unfolding k(2) .
  ultimately have "unat sz \<le> room h' ?b" by linarith
  then show ?thesis using e A'(1,3) l by blast
qed

text \<open>A change of the free blocks of one page, with its count.\<close>

lemma relist:
  assumes "heap_ok h" "i < 7" "n < 1048576" "h_arena h (PAGE (of_nat n)) = Some ar" "a_large ar = 0" "a_desc ar = Some i"
    and "distinct L" "set L - slots n i = set (fl h i) - slots n i" "unat c = card (set L \<inter> slots n i)"
    and h': "h' = h\<lparr>h_desc := (h_desc h)[i := (h_desc h ! i)\<lparr>d_free_list := L\<rparr>],
      h_arena := (h_arena h)(PAGE (of_nat n) \<mapsto> ar\<lparr>a_count := c\<rparr>)\<rparr>"
  shows "heap_ok h'" "live h' = (live h - slots n i) \<union> (slots n i - set L)" "room h' b = room h b"
proof -
  note D = heap_okD [OF assms(1)]
  have at: "h_arena h' (PAGE (of_nat n')) = (if n' = n then Some (ar\<lparr>a_count := c\<rparr>) else h_arena h (PAGE (of_nat n')))" if "n' < 1048576" for n'
    using page_inj [OF that assms(3)] by (simp add: h')
  have free: "fl h' j = (if j = i then L else fl h j)" if "j < 7" for j
    using that D(1) assms(2) by (simp add: h' fl_def)
  have held: "held h' n' j \<longleftrightarrow> held h n' j" if "n' < 1048576" for n' j
    using at [OF that] assms(4-6) by (auto simp: held_def)
  have hn: "held h n j \<longleftrightarrow> j = i" for j using assms(4-6) by (auto simp: held_def)
  have free_other: "set (fl h' j) \<inter> slots n' j = set (fl h j) \<inter> slots n' j" if "j < 7" "n' < 1048576" "n' \<noteq> n" for n' j
    using free [OF that(1)] assms(8) slots_disjoint [OF assms(3) that(2), of i i] that(3) by (cases "j = i") auto
  have sp: "span (ar\<lparr>a_count := c\<rparr>) = span ar" using assms(5) by (simp add: span_def)
  have "descs_ok h'"
    unfolding descs_ok_def
  proof (intro conjI allI impI ballI)
    show "length (h_desc h') = 7" using D(1) by (simp add: h')
    fix j :: nat assume j: "j < 7"
    show "d_block_size (h_desc h' ! j) = of_nat (bsize j)" "d_total_block (h_desc h' ! j) = of_nat (btotal j)"
      using D(1) D(3,4) [OF j] j by (cases "j = i"; simp add: h')+
    show "distinct (fl h' j)" using free [OF j] D(5) [OF j] assms(7) by simp
    fix b assume b: "b \<in> set (fl h' j)"
    show "\<exists>n<1048576. held h' n j \<and> b \<in> slots n j"
    proof (cases "j = i \<and> b \<in> slots n i")
      case True
      then show ?thesis using hn held assms(3) by blast
    next
      case False
      then have "b \<in> set (fl h j)" using b free [OF j] assms(8) by (cases "j = i") auto
      then show ?thesis using D(6) [OF j] held by blast
    qed
  qed
  moreover have "arenas_ok h'"
    unfolding arenas_ok_def
  proof (intro conjI allI impI)
    show "\<exists>n<1048576. p = PAGE (of_nat n)" if "h_arena h' p = Some ar'" for p ar'
      using that D(7) [of p ar'] assms(3) by (auto simp: h' split: if_splits)
    show "arena_ok h' n' ar'" if n': "n' < 1048576" and a: "h_arena h' (PAGE (of_nat n')) = Some ar'" for n' ar'
    proof (cases "n' = n")
      case True
      then have "ar' = ar\<lparr>a_count := c\<rparr>" using a at [OF n'] by simp
      then show ?thesis
        using True D(8) [OF assms(3,4)] assms(2,5,6,9) free [OF assms(2)] sp by (simp add: arena_ok_def) (simp add: h')
    next
      case False
      then have "h_arena h (PAGE (of_nat n')) = Some ar'" using a at [OF n'] by simp
      then show ?thesis using D(8) [OF n'] free_other [OF _ n' False] by (auto simp: arena_ok_def h')
    qed
    show "{n1..<n1 + span a1} \<inter> {n2..<n2 + span a2} = {}"
      if n12: "n1 < 1048576" "n2 < 1048576" and a: "h_arena h' (PAGE (of_nat n1)) = Some a1" "h_arena h' (PAGE (of_nat n2)) = Some a2"
        and ne: "n1 \<noteq> n2" for n1 n2 a1 a2
    proof -
      have sp': "\<exists>a'. h_arena h (PAGE (of_nat n')) = Some a' \<and> span a' = span a" if "n' < 1048576" "h_arena h' (PAGE (of_nat n')) = Some a" for n' a
      proof (cases "n' = n")
        case True
        then show ?thesis using at [OF that(1)] that(2) assms(4) sp by auto
      next
        case False
        then show ?thesis using at [OF that(1)] that(2) by (intro exI [of _ a]) simp
      qed
      obtain b1 b2 where "h_arena h (PAGE (of_nat n1)) = Some b1" "span b1 = span a1"
        "h_arena h (PAGE (of_nat n2)) = Some b2" "span b2 = span a2"
        using sp' [OF n12(1) a(1)] sp' [OF n12(2) a(2)] by blast
      then show ?thesis using D(9) [OF n12 _ _ ne, of b1 b2] by simp
    qed
  qed
  moreover have "kmap_ok (h_mm h')" using D(2) by (simp add: h')
  ultimately show ok: "heap_ok h'" by (simp add: heap_ok_def)
  have "b \<in> live h' \<longleftrightarrow> b \<in> (live h - slots n i) \<union> (slots n i - set L)" for b
  proof -
    define n' where "n' = unat b div 4096"
    have n': "n' < 1048576" using unsigned_less [of b, where ?'a = nat] by (simp add: n'_def)
    have p: "get_block_arena b = PAGE (of_nat n')" by (simp add: page_of_word n'_def)
    show ?thesis
    proof (cases "n' = n")
      case True
      have p': "get_block_arena b = PAGE (of_nat n)" using p True by simp
      show ?thesis
        unfolding live_iff [OF ok assms(3) p'] Un_iff Diff_iff live_iff [OF assms(1,3) p']
        using held [OF assms(3)] hn free [OF assms(2)] assms(2,4,5) at [OF assms(3)] by auto
    next
      case False
      have s: "b \<notin> slots n i" using blk_arena [OF assms(3)] p page_inj [OF n' assms(3)] False by auto
      have "b \<in> set (fl h' j) \<longleftrightarrow> b \<in> set (fl h j)" if "j < 7" "b \<in> slots n' j" for j
        using free_other [OF that(1) n' False] that(2) by blast
      then show ?thesis
        unfolding live_iff [OF ok n' p] Un_iff Diff_iff live_iff [OF assms(1) n' p]
        using held [OF n'] at [OF n'] False s by auto
    qed
  qed
  then show "live h' = (live h - slots n i) \<union> (slots n i - set L)" by blast
  show "room h' b = room h b" using assms(4-6) by (simp add: room_def h')
qed

text \<open>A page that is given back takes its blocks out of the lists.\<close>

lemma drop_arena:
  assumes "heap_ok h" "n < 1048576" "h_arena h (PAGE (of_nat n)) = Some ar"
    and "h_arena h' = (h_arena h)(PAGE (of_nat n) := None)"
    and "kused (h_mm h') = kused (h_mm h) - {n..<n + span ar}" "kmap_ok (h_mm h')" "length (h_desc h') = 7"
    and desc: "\<And>j. j < 7 \<Longrightarrow> d_block_size (h_desc h' ! j) = of_nat (bsize j) \<and> d_total_block (h_desc h' ! j) = of_nat (btotal j)
      \<and> distinct (fl h' j) \<and> set (fl h' j) = {b \<in> set (fl h j). get_block_arena b \<noteq> PAGE (of_nat n)}"
  shows "heap_ok h'" "live h' = {b \<in> live h. get_block_arena b \<noteq> PAGE (of_nat n)}" "b \<in> live h' \<Longrightarrow> room h' b = room h b"
proof -
  note D = heap_okD [OF assms(1)]
  have at: "h_arena h' (PAGE (of_nat n')) = (if n' = n then None else h_arena h (PAGE (of_nat n')))" if "n' < 1048576" for n'
    using page_inj [OF that assms(2)] by (simp add: assms(4))
  have held: "held h' n' j \<longleftrightarrow> held h n' j \<and> n' \<noteq> n" if "n' < 1048576" for n' j
    using at [OF that] by (simp add: held_def)
  have free_other: "b \<in> set (fl h' j) \<longleftrightarrow> b \<in> set (fl h j)" if "j < 7" "n' < 1048576" "n' \<noteq> n" "b \<in> slots n' j" for n' j b
    using desc [OF that(1)] blk_arena [OF that(2,4)] page_inj [OF that(2) assms(2)] that(3) by auto
  have "descs_ok h'"
    unfolding descs_ok_def
  proof (intro conjI allI impI ballI)
    fix j :: nat assume j: "j < 7"
    fix b assume b: "b \<in> set (fl h' j)"
    then have "b \<in> set (fl h j)" "get_block_arena b \<noteq> PAGE (of_nat n)" using desc [OF j] by auto
    with D(6) [OF j] obtain n' where n': "n' < 1048576" "held h n' j" "b \<in> slots n' j" by blast
    then have "n' \<noteq> n" using \<open>get_block_arena b \<noteq> PAGE (of_nat n)\<close> blk_arena by blast
    then show "\<exists>n<1048576. held h' n j \<and> b \<in> slots n j" using n' held by blast
  qed (use assms(7) desc in blast)+
  moreover have "arenas_ok h'"
    unfolding arenas_ok_def
  proof (intro conjI allI impI)
    show "\<exists>n<1048576. p = PAGE (of_nat n)" if "h_arena h' p = Some ar'" for p ar'
      using that D(7) [of p ar'] by (auto simp: assms(4) split: if_splits)
    show "arena_ok h' n' ar'" if n': "n' < 1048576" and a: "h_arena h' (PAGE (of_nat n')) = Some ar'" for n' ar'
    proof -
      have ne: "n' \<noteq> n" and a': "h_arena h (PAGE (of_nat n')) = Some ar'" using a at [OF n'] by (auto split: if_splits)
      have "set (fl h' j) \<inter> slots n' j = set (fl h j) \<inter> slots n' j" if "j < 7" for j
        using free_other [OF that n' ne] by blast
      moreover have "{n'..<n' + span ar'} \<subseteq> kused (h_mm h')"
        using arena_used [OF assms(1) n' a'] D(9) [OF n' assms(2) a' assms(3) ne] assms(5) by blast
      ultimately show ?thesis using D(8) [OF n' a'] by (auto simp: arena_ok_def)
    qed
    show "{n1..<n1 + span a1} \<inter> {n2..<n2 + span a2} = {}"
      if n12: "n1 < 1048576" "n2 < 1048576" and a: "h_arena h' (PAGE (of_nat n1)) = Some a1" "h_arena h' (PAGE (of_nat n2)) = Some a2"
        and ne: "n1 \<noteq> n2" for n1 n2 a1 a2
      using D(9) [OF n12 _ _ ne] a at [OF n12(1)] at [OF n12(2)] by (simp split: if_splits)
  qed
  ultimately show ok: "heap_ok h'" using assms(6) by (simp add: heap_ok_def)
  have "b \<in> live h' \<longleftrightarrow> b \<in> {b \<in> live h. get_block_arena b \<noteq> PAGE (of_nat n)}" for b
  proof -
    define n' where "n' = unat b div 4096"
    have n': "n' < 1048576" using unsigned_less [of b, where ?'a = nat] by (simp add: n'_def)
    have p: "get_block_arena b = PAGE (of_nat n')" by (simp add: page_of_word n'_def)
    show ?thesis
    proof (cases "n' = n")
      case True
      then show ?thesis using live_iff [OF ok n' p] at [OF n'] held [OF n'] p by simp
    next
      case False
      then have "get_block_arena b \<noteq> PAGE (of_nat n)" using p page_inj [OF n' assms(2)] by simp
      moreover have "b \<in> live h' \<longleftrightarrow> b \<in> live h"
        unfolding live_iff [OF ok n' p] live_iff [OF assms(1) n' p]
        using at [OF n'] held [OF n'] free_other [OF _ n' False] False by auto
      ultimately show ?thesis by simp
    qed
  qed
  then show l: "live h' = {b \<in> live h. get_block_arena b \<noteq> PAGE (of_nat n)}" by blast
  show "room h' b = room h b" if "b \<in> live h'" using that unfolding l by (simp add: room_def assms(4))
qed

subsection \<open>\<open>kmalloc\<close> and \<open>kfree\<close>\<close>

lemma room_small:
  assumes "n < 1048576" "held h n i" "b \<in> slots n i"
  shows "room h b = bsize i"
  using assms blk_arena [OF assms(1,3)] by (auto simp: room_def held_def)

lemma take_block_ok:
  assumes "heap_ok h" "i < 7" "fl h i \<noteq> []"
  shows "\<exists>b h'. take_block i h = Some (b, h') \<and> heap_ok h' \<and> b \<notin> live h \<and> live h' = insert b (live h)
    \<and> room h' b = bsize i \<and> (\<forall>c. room h' c = room h c)"
proof -
  note D = heap_okD [OF assms(1)]
  obtain b bs where L: "fl h i = b # bs" using assms(3) by (cases "fl h i") auto
  then have "b \<in> set (fl h i)" by simp
  from free_arena [OF assms(1,2) this] obtain n ar0 where n: "n < 1048576" "get_block_arena b = PAGE (of_nat n)"
    "held h n i" "b \<in> slots n i" by metis
  obtain ar where ar: "h_arena h (PAGE (of_nat n)) = Some ar" "a_large ar = 0" "a_desc ar = Some i"
    using n(3) by (auto simp: held_def)
  have aok: "a_magic ar = PHINIX_MAGIC" "unat (a_count ar) = card (set (fl h i) \<inter> slots n i)"
    using D(8) [OF n(1) ar(1)] ar by (auto simp: arena_ok_def)
  define h' where "h' = h\<lparr>h_desc := (h_desc h)[i := (h_desc h ! i)\<lparr>d_free_list := bs\<rparr>],
      h_arena := (h_arena h)(PAGE (of_nat n) \<mapsto> ar\<lparr>a_count := a_count ar - 1\<rparr>)\<rparr>"
  have t: "take_block i h = Some (b, h')"
    using L assms(2) D(1) n(2) ar aok(1) by (simp add: take_block_def pop_block_def upd_desc_def fl_def h'_def)
  have d: "distinct bs" "b \<notin> set bs" using D(5) [OF assms(2)] L by auto
  have "set (fl h i) \<inter> slots n i = insert b (set bs \<inter> slots n i)" using L n(4) by auto
  then have "unat (a_count ar) = Suc (card (set bs \<inter> slots n i))" using aok(2) d(2) by simp
  then have c: "unat (a_count ar - 1) = card (set bs \<inter> slots n i)" by (subst unat_minus_one) auto
  have s: "set bs - slots n i = set (fl h i) - slots n i" using L n(4) by auto
  note R = relist [OF assms(1,2) n(1) ar d(1) s c h'_def]
  have nl: "b \<notin> live h" using live_iff [OF assms(1) n(1,2)] L ar n(3) by (auto simp: held_def)
  have slots: "c \<in> slots n i \<Longrightarrow> c \<in> live h \<longleftrightarrow> c \<notin> set (fl h i)" for c
    using live_iff [OF assms(1) n(1) blk_arena [OF n(1)], of c] ar n(3) assms(2) by (auto simp: held_def)
  have l: "live h' = insert b (live h)" unfolding R(2) using slots L d(2) n(4) by auto
  have "room h' b = bsize i" using R(3) [of b] room_small [OF n(1,3,4)] by simp
  then show ?thesis using t R(1,3) nl l by blast
qed

lemma desc_for_ok:
  assumes "descs_ok h" "sz \<le> 1024"
  shows "desc_for sz 0 (h_desc h) < 7" "unat sz \<le> bsize (desc_for sz 0 (h_desc h))"
proof -
  have len: "length (h_desc h) = 7" and bs: "\<And>i. i < 7 \<Longrightarrow> d_block_size (h_desc h ! i) = of_nat (bsize i)"
    using assms(1) by (auto simp: descs_ok_def)
  have small: "bsize i \<le> 1024" if "i < 7" for i using size_cases [OF that] by (auto simp: bsize_def)
  have g: "desc_for sz i ds < 7 \<and> unat sz \<le> bsize (desc_for sz i ds)"
    if "i + length ds = 7" "ds \<noteq> []" "\<forall>j<length ds. d_block_size (ds ! j) = of_nat (bsize (i + j))" for i ds
    using that
  proof (induction ds arbitrary: i)
    case (Cons d ds)
    have "i < 7" using Cons.prems(1) by simp
    then have u: "unat (of_nat (bsize i) :: u32) = bsize i" using small [of i] by (simp add: unat_of_nat32)
    have d: "d_block_size d = of_nat (bsize i)" using Cons.prems(3) by (auto dest: spec [of _ 0])
    show ?case
    proof (cases "d_block_size d \<ge> sz")
      case True
      then show ?thesis using d u \<open>i < 7\<close> by (simp add: word_le_nat_alt)
    next
      case False
      have "ds \<noteq> []"
      proof
        assume "ds = []"
        then have "bsize i = 1024" using Cons.prems(1) by (simp add: bsize_def)
        then show False using False d assms(2) by simp
      qed
      moreover have "\<forall>j<length ds. d_block_size (ds ! j) = of_nat (bsize (i + 1 + j))"
        using Cons.prems(3) by (auto dest: spec [of _ "Suc _"])
      ultimately show ?thesis using Cons.IH [of "i + 1"] Cons.prems(1) False by simp
    qed
  qed simp
  have "h_desc h \<noteq> []" using len by auto
  then show "desc_for sz 0 (h_desc h) < 7" "unat sz \<le> bsize (desc_for sz 0 (h_desc h))"
    using g [of 0 "h_desc h"] len bs by simp_all
qed

text \<open>The pages a request may need.\<close>

definition pages_for :: "u32 \<Rightarrow> heap \<Rightarrow> nat" where
  "pages_for sz h = (if sz > 1024 then (unat sz + 4111) div 4096
     else if fl h (desc_for sz 0 (h_desc h)) = [] then 1 else 0)"

lemma kmalloc_spec:
  assumes "heap_ok h" "unat sz < 4294963184" "has_krun (h_mm h) (pages_for sz h)"
  shows "\<exists>b h'. kmalloc sz h = Some (b, h') \<and> heap_ok h' \<and> b \<notin> live h \<and> live h' = insert b (live h)
    \<and> unat sz \<le> room h' b \<and> (\<forall>c\<in>live h. room h' c = room h c)"
proof (cases "sz > 1024")
  case True
  then show ?thesis using kmalloc_large_ok [OF assms(1) True assms(2)] assms(3) by (simp add: kmalloc_def pages_for_def)
next
  case False
  define i where "i = desc_for sz 0 (h_desc h)"
  have i: "i < 7" "unat sz \<le> bsize i"
    using desc_for_ok [of h sz] assms(1) False by (simp_all add: i_def heap_ok_def not_less)
  have l: "length (h_desc h) = 7" using heap_okD(1) [OF assms(1)] .
  obtain h1 where h1: "(if d_free_list (h_desc h ! i) = [] then new_arena i h else Some h) = Some h1"
    "heap_ok h1" "fl h1 i \<noteq> []" "live h1 = live h" "\<forall>c\<in>live h. room h1 c = room h c"
  proof (cases "fl h i = []")
    case True
    have "has_krun (h_mm h) 1" using assms(3) False True by (simp add: pages_for_def i_def)
    then show ?thesis using that new_arena_ok [OF assms(1) i(1) True] True by (auto simp: fl_def)
  next
    case False
    then show ?thesis using that [of h] assms(1) by (simp add: fl_def)
  qed
  obtain b h' where b: "take_block i h1 = Some (b, h')" "heap_ok h'" "b \<notin> live h1" "live h' = insert b (live h1)"
    "room h' b = bsize i" "\<forall>c. room h' c = room h1 c" using take_block_ok [OF h1(2) i(1) h1(3)] by blast
  have "kmalloc sz h = Some (b, h')"
    using False h1(1) b(1) i(1) l by (simp add: kmalloc_def i_def [symmetric])
  then show ?thesis using b h1(4,5) i(2) by auto
qed

lemma drop_blocks:
  assumes "n < 1048576" "i < 7" "k \<le> btotal i" "length (h_desc h) = 7"
    and "h_arena h (PAGE (of_nat n)) = Some ar" "a_desc ar = Some i"
    and "d_block_size (h_desc h ! i) = of_nat (bsize i)" "d_total_block (h_desc h ! i) = of_nat (btotal i)"
    and "distinct (fl h i)" "slots n i \<subseteq> set (fl h i)"
  shows "foldM (\<lambda>k. drop_block (PAGE (of_nat n)) i (of_nat k)) [0..<k] h =
    Some (h\<lparr>h_desc := (h_desc h)[i := (h_desc h ! i)\<lparr>d_free_list := filter (\<lambda>x. x \<notin> blk n i ` {0..<k}) (fl h i)\<rparr>]\<rparr>)"
  using assms(3)
proof (induction k)
  case 0
  then show ?case by (simp add: list_update_same_conv assms(2,4) fl_def)
next
  case (Suc k)
  define L where "L = filter (\<lambda>x. x \<notin> blk n i ` {0..<k}) (fl h i)"
  define h' where "h' = h\<lparr>h_desc := (h_desc h)[i := (h_desc h ! i)\<lparr>d_free_list := L\<rparr>]\<rparr>"
  have i: "i < length (h_desc h')" using assms(2,4) by (simp add: h'_def)
  have d: "h_desc h' ! i = (h_desc h ! i)\<lparr>d_free_list := L\<rparr>" using assms(2,4) by (simp add: h'_def)
  have lt: "(of_nat k :: u32) < of_nat (btotal i)"
    using Suc.prems btotal_bound [OF assms(2)] unat_btotal [OF assms(2)]
    by (simp add: word_less_nat_alt unat_of_nat32)
  have b: "get_arena_block (PAGE (of_nat n)) (of_nat k) h' = Some (blk n i k)"
    using i assms(5-8) lt by (simp add: get_arena_block_def d blk_def SIZEOF_ARENA_def) (simp add: h'_def)
  have f: "blk n i k \<notin> blk n i ` {0..<k}"
  proof
    assume "blk n i k \<in> blk n i ` {0..<k}"
    then obtain k' where "k' < k" "blk n i k = blk n i k'" by auto
    then show False using blk_inj [OF assms(1), of k i k'] Suc.prems by simp
  qed
  have "blk n i k \<in> set (fl h i)" using assms(10) Suc.prems by (auto simp: slots_def)
  then have m: "blk n i k \<in> set L" "distinct L" using f assms(9) by (simp_all add: L_def)
  have r: "remove1 (blk n i k) L = filter (\<lambda>x. x \<notin> blk n i ` {0..<Suc k}) (fl h i)"
    using m(2) by (auto simp: distinct_remove1_removeAll removeAll_filter_not_eq L_def atLeast0_lessThan_Suc intro!: filter_cong)
  have "blk n i k \<notin> set (remove1 (blk n i k) L)" using m(2) by simp
  then have "drop_block (PAGE (of_nat n)) i (of_nat k) h' = Some (h'\<lparr>h_desc := (h_desc h')[i := (h_desc h' ! i)\<lparr>d_free_list := remove1 (blk n i k) L\<rparr>]\<rparr>)"
    using i m(1) by (simp add: drop_block_def b block_free_def upd_desc_def d)
  then show ?case using Suc assms(2,4) unfolding r by (simp add: foldM_append h'_def L_def)
qed

lemma reclaim_ok:
  assumes "heap_ok h" "i < 7" "n < 1048576" "held h n i" "slots n i \<subseteq> set (fl h i)" "d_page_count (h_desc h ! i) > BUF_COUNT"
  shows "\<exists>r U. reclaim (PAGE (of_nat n)) i h = Some r \<and> heap_ok (cur U r) \<and> live (cur U r) = live h
    \<and> (\<forall>c\<in>live h. room (cur U r) c = room h c)"
proof -
  note D = heap_okD [OF assms(1)]
  obtain ar where ar: "h_arena h (PAGE (of_nat n)) = Some ar" "a_large ar = 0" "a_desc ar = Some i"
    using assms(4) by (auto simp: held_def)
  define L where "L = filter (\<lambda>x. x \<notin> slots n i) (fl h i)"
  define h1 where "h1 = h\<lparr>h_desc := (h_desc h)[i := (h_desc h ! i)\<lparr>d_free_list := L\<rparr>]\<rparr>"
  have im: "blk n i ` {0..<btotal i} = slots n i" by (auto simp: slots_def)
  have f: "foldM (\<lambda>k. drop_block (PAGE (of_nat n)) i (of_nat k)) [0..<btotal i] h = Some h1"
    using drop_blocks [OF assms(3,2) order_refl D(1) ar(1,3) D(3) [OF assms(2)] D(4) [OF assms(2)] D(5) [OF assms(2)] assms(5)]
    unfolding im by (simp add: h1_def L_def)
  have sp: "span ar = 1" using ar by (simp add: span_def)
  have one: "{n..<n + unat (1 :: u32)} \<subseteq> kused (h_mm h)" using arena_used [OF assms(1,3) ar(1)] sp by simp
  obtain m where m: "free_kpage (PAGE (of_nat n)) 1 (h_mm h) = Some m" "kused m = kused (h_mm h) - {n}" "kmap_ok m"
    using kpages.give_run [OF D(2) _ one] by auto
  define h2 where "h2 = h1\<lparr>h_mm := m, h_arena := (h_arena h)(PAGE (of_nat n) := None)\<rparr>"
  define h' where "h' = h2\<lparr>h_desc := (h_desc h)[i := (h_desc h ! i)\<lparr>d_free_list := L, d_page_count := d_page_count (h_desc h ! i) - 1\<rparr>]\<rparr>"
  define r where "r = h'\<lparr>h_arena := h_arena h\<rparr>"
  have cur: "cur (- {PAGE (of_nat n)}) r = h'"
    by (simp add: cur_def r_def h'_def h2_def h1_def restrict_complement_singleton_eq)
  have "reclaim (PAGE (of_nat n)) i h = Some r"
    using f m(1) D(1) D(4) [OF assms(2)] assms(2,6) unat_btotal [OF assms(2)]
    by (simp add: reclaim_def give_page_def h1_def h2_def h'_def r_def upd_desc_def BUF_COUNT_def)
  moreover have desc: "d_block_size (h_desc h' ! j) = of_nat (bsize j) \<and> d_total_block (h_desc h' ! j) = of_nat (btotal j)
      \<and> distinct (fl h' j) \<and> set (fl h' j) = {b \<in> set (fl h j). get_block_arena b \<noteq> PAGE (of_nat n)}" if j: "j < 7" for j
  proof -
    have home: "b \<in> slots n i \<and> j = i" if b: "b \<in> set (fl h j)" "get_block_arena b = PAGE (of_nat n)" for b
    proof -
      obtain n' where n': "n' < 1048576" "held h n' j" "b \<in> slots n' j" using D(6) [OF j b(1)] by blast
      then have "n' = n" using blk_arena [OF n'(1,3)] b(2) page_inj [OF n'(1) assms(3)] by simp
      then show ?thesis using n' heldD assms(4) by blast
    qed
    show ?thesis
    proof (cases "j = i")
      case True
      have "fl h' i = L" using D(1) assms(2) by (simp add: fl_def h'_def)
      moreover have "set L = {b \<in> set (fl h i). get_block_arena b \<noteq> PAGE (of_nat n)}"
        using home blk_arena [OF assms(3)] True by (auto simp: L_def)
      moreover have "distinct L" using D(5) [OF assms(2)] by (simp add: L_def)
      ultimately show ?thesis using D(1) D(3,4) [OF assms(2)] assms(2) True by (simp add: h'_def)
    next
      case False
      then have "fl h' j = fl h j" by (simp add: fl_def h'_def)
      moreover have "set (fl h j) = {b \<in> set (fl h j). get_block_arena b \<noteq> PAGE (of_nat n)}" using home False by blast
      ultimately show ?thesis using D(3,4,5) [OF j] False by (simp add: h'_def)
    qed
  qed
  note A = drop_arena [OF assms(1,3) ar(1), of h', unfolded sp, OF _ _ _ _ desc]
  have A': "heap_ok h'" "live h' = {b \<in> live h. get_block_arena b \<noteq> PAGE (of_nat n)}" "\<And>b. b \<in> live h' \<Longrightarrow> room h' b = room h b"
    by (rule A; use m D(1) in \<open>simp add: h'_def h2_def h1_def\<close>)+
  have "get_block_arena b \<noteq> PAGE (of_nat n)" if "b \<in> live h" for b
  proof
    assume g: "get_block_arena b = PAGE (of_nat n)"
    from live_iff [OF assms(1,3) g] that ar show False using assms(5) heldD [OF assms(4)] by auto
  qed
  then have "live h' = live h" using A'(2) by blast
  ultimately show ?thesis using A'(1,3) cur by auto
qed

lemma kfree_spec:
  assumes "heap_ok h" "b \<in> live h"
  shows "\<exists>r U. kfree b h = Some r \<and> heap_ok (cur U r) \<and> live (cur U r) = live h - {b}
    \<and> (\<forall>c\<in>live (cur U r). room (cur U r) c = room h c)"
proof -
  note D = heap_okD [OF assms(1)]
  obtain n ar where n: "n < 1048576" "h_arena h (PAGE (of_nat n)) = Some ar" "get_block_arena b = PAGE (of_nat n)"
    by (rule live_arena [OF assms(2)])
  have aok: "arena_ok h n ar" using D(8) [OF n(1,2)] .
  have "0 < n" using kpages.used_range [OF D(2) arena_used_page [OF assms(1) n(1,2)]] by simp
  have "b \<noteq> 0"
  proof
    assume "b = 0"
    then have "PAGE (of_nat n) = PAGE (of_nat 0)" using n(3) page_of_word [of b] by simp
    then show False using page_inj [OF n(1), of 0] \<open>0 < n\<close> by simp
  qed
  show ?thesis
  proof (cases "a_large ar = 0")
    case False
    then have la: "a_large ar = 1" "a_desc ar = None" "0 < a_count ar" "a_magic ar = PHINIX_MAGIC" using aok by (auto simp: arena_ok_def)
    have sp: "span ar = unat (a_count ar)" using la by (simp add: span_def)
    obtain m where m: "free_kpage (PAGE (of_nat n)) (a_count ar) (h_mm h) = Some m"
      "kused m = kused (h_mm h) - {n..<n + unat (a_count ar)}" "kmap_ok m"
      using kpages.give_run [OF D(2) la(3)] arena_used [OF assms(1) n(1,2)] sp by metis
    define h' where "h' = h\<lparr>h_mm := m, h_arena := (h_arena h)(PAGE (of_nat n) := None)\<rparr>"
    define r where "r = h\<lparr>h_mm := m\<rparr>"
    have cur: "cur (- {PAGE (of_nat n)}) r = h'"
      by (simp add: cur_def r_def h'_def restrict_complement_singleton_eq)
    have k: "kfree b h = Some r"
      using \<open>b \<noteq> 0\<close> n la m(1) by (simp add: kfree_def give_page_def r_def)
    have desc: "d_block_size (h_desc h' ! j) = of_nat (bsize j) \<and> d_total_block (h_desc h' ! j) = of_nat (btotal j)
      \<and> distinct (fl h' j) \<and> set (fl h' j) = {b \<in> set (fl h j). get_block_arena b \<noteq> PAGE (of_nat n)}" if j: "j < 7" for j
    proof -
      have "get_block_arena c \<noteq> PAGE (of_nat n)" if cj: "c \<in> set (fl h j)" for c
      proof -
        obtain n' where n': "n' < 1048576" "held h n' j" "c \<in> slots n' j" using D(6) [OF j cj] by blast
        then have "n' \<noteq> n" using n(2) la(1) by (auto simp: held_def)
        then show ?thesis using blk_arena [OF n'(1,3)] page_inj [OF n'(1) n(1)] by simp
      qed
      then show ?thesis using D(3,4,5) [OF j] by (auto simp: h'_def fl_def)
    qed
    note A = drop_arena [OF assms(1) n(1,2), of h', unfolded sp, OF _ _ _ _ desc]
    have A': "heap_ok h'" "live h' = {b \<in> live h. get_block_arena b \<noteq> PAGE (of_nat n)}" "\<And>b. b \<in> live h' \<Longrightarrow> room h' b = room h b"
      by (rule A; use m D(1) in \<open>simp add: h'_def\<close>)+
    have only: "c = PAGE (of_nat n) + 16" if "c \<in> live h" "get_block_arena c = PAGE (of_nat n)" for c
      using live_iff [OF assms(1) n(1) that(2)] that(1) n(2) la(1) by (auto simp: held_def)
    have "live h' = live h - {b}" unfolding A'(2) using only n(3) assms(2) by blast
    then show ?thesis using k A'(1,3) cur by metis
  next
    case True
    then obtain i where i: "i < 7" "a_desc ar = Some i" "unat (a_count ar) = card (set (fl h i) \<inter> slots n i)" "a_magic ar = PHINIX_MAGIC"
      using aok by (auto simp: arena_ok_def)
    have held: "held h n i" using n(2) True i(2) by (simp add: held_def)
    have b: "b \<in> slots n i" "b \<notin> set (fl h i)"
      using live_iff [OF assms(1) n(1,3)] assms(2) n(2) True heldD [OF held] by auto
    define h1 where "h1 = h\<lparr>h_desc := (h_desc h)[i := (h_desc h ! i)\<lparr>d_free_list := b # fl h i\<rparr>],
        h_arena := (h_arena h)(PAGE (of_nat n) \<mapsto> ar\<lparr>a_count := a_count ar + 1\<rparr>)\<rparr>"
    have card: "card (set (b # fl h i) \<inter> slots n i) = Suc (card (set (fl h i) \<inter> slots n i))" using b by simp
    have le: "card (set (b # fl h i) \<inter> slots n i) \<le> btotal i"
      unfolding card_slots [OF n(1), symmetric, of i] by (rule card_mono) auto
    have c: "unat (a_count ar + 1) = card (set (b # fl h i) \<inter> slots n i)"
      using i(3) card le btotal_bound [OF i(1)] unat_Suc_bound [of "a_count ar"] by simp
    have d: "distinct (b # fl h i)" using b D(5) [OF i(1)] by simp
    have s: "set (b # fl h i) - slots n i = set (fl h i) - slots n i" using b by auto
    note R = relist [OF assms(1) i(1) n(1,2) True i(2) d s c h1_def]
    have slots: "c \<in> slots n i \<Longrightarrow> c \<in> live h \<longleftrightarrow> c \<notin> set (fl h i)" for c
      using live_iff [OF assms(1) n(1) blk_arena [OF n(1)], of c] n(2) True held i(1) by (auto simp: held_def)
    have l: "live h1 = live h - {b}" unfolding R(2) using slots b by auto
    have push: "push_block i b h = Some (h\<lparr>h_desc := (h_desc h)[i := (h_desc h ! i)\<lparr>d_free_list := b # fl h i\<rparr>]\<rparr>)"
      using b(2) i(1) D(1) by (simp add: push_block_def upd_desc_def fl_def)
    have k: "kfree b h = (if a_count ar + 1 = d_total_block (h_desc h1 ! i) \<and> d_page_count (h_desc h1 ! i) > BUF_COUNT
        then reclaim (PAGE (of_nat n)) i h1 else Some h1)"
      using \<open>b \<noteq> 0\<close> n True i(1,2,4) D(1) by (simp add: kfree_def push h1_def Let_def)
    show ?thesis
    proof (cases "a_count ar + 1 = d_total_block (h_desc h1 ! i) \<and> d_page_count (h_desc h1 ! i) > BUF_COUNT")
      case False
      moreover have "cur UNIV h1 = h1" by (simp add: cur_def restrict_map_def)
      ultimately show ?thesis using k R(1,3) l by metis
    next
      case full: True
      have free1: "fl h1 i = b # fl h i" using i(1) D(1) by (simp add: fl_def h1_def)
      have held1: "held h1 n i" using True i(2) by (simp add: held_def h1_def)
      have "card (set (fl h1 i) \<inter> slots n i) = card (slots n i)"
        using full c heap_okD(4) [OF R(1) i(1)] unat_btotal [OF i(1)] card_slots [OF n(1), of i] free1 by simp
      then have "set (fl h1 i) \<inter> slots n i = slots n i" by (intro card_subset_eq) auto
      then have "slots n i \<subseteq> set (fl h1 i)" by blast
      from reclaim_ok [OF R(1) i(1) n(1) held1 this] full obtain r U where
        "reclaim (PAGE (of_nat n)) i h1 = Some r" "heap_ok (cur U r)" "live (cur U r) = live h1"
        "\<forall>c\<in>live h1. room (cur U r) c = room h1 c"
        by blast
      then show ?thesis using k full R(3) l by auto
    qed
  qed
qed

text \<open>Blocks in use do not overlap.\<close>

lemma live_cases:
  assumes "heap_ok h" "b \<in> live h" "n < 1048576" "h_arena h (PAGE (of_nat n)) = Some ar" "get_block_arena b = PAGE (of_nat n)"
  obtains (small) i k where "held h n i" "b = blk n i k" "k < btotal i" "a_large ar = 0"
    | (large) "a_large ar \<noteq> 0" "b = PAGE (of_nat n) + 16"
proof -
  have "(\<exists>i<7. held h n i \<and> b \<in> slots n i \<and> b \<notin> set (fl h i))
     \<or> (\<exists>ar. h_arena h (PAGE (of_nat n)) = Some ar \<and> a_large ar \<noteq> 0 \<and> b = PAGE (of_nat n) + 16)"
    using live_iff [OF assms(1,3,5)] assms(2) by blast
  then show thesis
  proof
    assume "\<exists>i<7. held h n i \<and> b \<in> slots n i \<and> b \<notin> set (fl h i)"
    then obtain i where i: "held h n i" "b \<in> slots n i" by blast
    then obtain k where "b = blk n i k" "k < btotal i" by (auto simp: slots_def)
    moreover have "a_large ar = 0" using i(1) assms(4) by (auto simp: held_def)
    ultimately show thesis using small [OF i(1)] by blast
  qed (use large assms(4) in auto)
qed

lemma extent:
  assumes "heap_ok h" "b \<in> live h" "n < 1048576" "h_arena h (PAGE (of_nat n)) = Some ar" "get_block_arena b = PAGE (of_nat n)"
  shows "4096 * n + 16 \<le> unat b \<and> unat b + room h b \<le> 4096 * (n + span ar)"
proof (rule live_cases [OF assms])
  fix i k assume i: "held h n i" "b = blk n i k" "k < btotal i" "a_large ar = 0"
  have "b \<in> slots n i" using i by (auto simp: slots_def)
  then have "room h b = bsize i" using room_small [OF assms(3) i(1)] by simp
  moreover have "span ar = 1" using i(4) by (simp add: span_def)
  moreover have "unat b = 4096 * n + 16 + k * bsize i" unfolding i(2) by (rule unat_blk [OF assms(3) i(3)])
  ultimately show ?thesis using btotal_fits [OF i(3)] by simp
next
  assume l: "a_large ar \<noteq> 0" "b = PAGE (of_nat n) + 16"
  have "0 < span ar" using span_pos [OF heap_okD(8) [OF assms(1,3,4)]] .
  moreover have "unat b = 4096 * n + 16"
    unfolding l(2) using unat_PAGE [OF assms(3)] assms(3) unat_plus_bound [of "PAGE (of_nat n)" 16] by simp
  moreover have "room h b = 4096 * span ar - 16" using l(1) assms(4,5) by (simp add: room_def span_def)
  ultimately show ?thesis by (simp add: algebra_simps)
qed

lemma same_page_disjoint:
  assumes "heap_ok h" "b \<in> live h" "c \<in> live h" "b \<noteq> c" "n < 1048576" "h_arena h (PAGE (of_nat n)) = Some ar"
    "get_block_arena b = PAGE (of_nat n)" "get_block_arena c = PAGE (of_nat n)"
  shows "unat b + room h b \<le> unat c \<or> unat c + room h c \<le> unat b"
proof (rule live_cases [OF assms(1,2,5,6,7)])
  fix i k assume b: "held h n i" "b = blk n i k" "k < btotal i" "a_large ar = 0"
  show ?thesis
  proof (rule live_cases [OF assms(1,3,5,6,8)])
    fix i' j assume c: "held h n i'" "c = blk n i' j" "j < btotal i'" "a_large ar = 0"
    have ii: "i' = i" using heldD [OF c(1) b(1)] .
    have "b \<in> slots n i" "c \<in> slots n i" using b c ii by (auto simp: slots_def)
    then have r: "room h b = bsize i" "room h c = bsize i" using room_small [OF assms(5) b(1)] by auto
    have u: "unat b = 4096 * n + 16 + k * bsize i" "unat c = 4096 * n + 16 + j * bsize i"
      using unat_blk [OF assms(5) b(3)] unat_blk [OF assms(5) c(3)] b(2) c(2) ii by simp_all
    have "k \<noteq> j" using b(2) c(2) ii assms(4) by auto
    then consider "Suc k \<le> j" | "Suc j \<le> k" by linarith
    then show ?thesis
    proof cases
      case 1
      then have "Suc k * bsize i \<le> j * bsize i" by (rule mult_le_mono1)
      then show ?thesis unfolding r u by simp
    next
      case 2
      then have "Suc j * bsize i \<le> k * bsize i" by (rule mult_le_mono1)
      then show ?thesis unfolding r u by simp
    qed
  qed (use b(4) in simp)
next
  assume l: "a_large ar \<noteq> 0" "b = PAGE (of_nat n) + 16"
  show ?thesis by (rule live_cases [OF assms(1,3,5,6,8)]) (use l assms(4) in simp_all)
qed

lemma live_disjoint:
  assumes "heap_ok h" "b \<in> live h" "c \<in> live h" "b \<noteq> c"
  shows "unat b + room h b \<le> unat c \<or> unat c + room h c \<le> unat b"
proof -
  obtain n ar where n: "n < 1048576" "h_arena h (PAGE (of_nat n)) = Some ar" "get_block_arena b = PAGE (of_nat n)"
    by (rule live_arena [OF assms(2)])
  obtain n' ar' where n': "n' < 1048576" "h_arena h (PAGE (of_nat n')) = Some ar'" "get_block_arena c = PAGE (of_nat n')"
    by (rule live_arena [OF assms(3)])
  show ?thesis
  proof (cases "n = n'")
    case True
    then show ?thesis using same_page_disjoint [OF assms n] n'(3) by simp
  next
    case False
    have d: "{n..<n + span ar} \<inter> {n'..<n' + span ar'} = {}" using heap_okD(9) [OF assms(1) n(1) n'(1) n(2) n'(2) False] .
    have p: "0 < span ar" "0 < span ar'"
      using span_pos [OF heap_okD(8) [OF assms(1) n(1,2)]] span_pos [OF heap_okD(8) [OF assms(1) n'(1,2)]] by auto
    have "n + span ar \<le> n' \<or> n' + span ar' \<le> n"
    proof (rule ccontr)
      assume "\<not> (n + span ar \<le> n' \<or> n' + span ar' \<le> n)"
      then have "max n n' \<in> {n..<n + span ar} \<inter> {n'..<n' + span ar'}" using p by auto
      then show False using d by blast
    qed
    then have "4096 * (n + span ar) \<le> 4096 * n' \<or> 4096 * (n' + span ar') \<le> 4096 * n"
      using mult_le_mono2 [of "n + span ar" n' 4096] mult_le_mono2 [of "n' + span ar'" n 4096] by blast
    then show ?thesis using extent [OF assms(1,2) n] extent [OF assms(1,3) n'] by linarith
  qed
qed

text \<open>The heap \<open>arena_init\<close> sets up.\<close>

lemma arena_init_ok:
  assumes "kmap_ok (h_mm h)" "h_arena h = Map.empty"
  shows "heap_ok (arena_init h)" "live (arena_init h) = {}" "h_mm (arena_init h) = h_mm h"
proof -
  have "push_bit i (16 :: u32) = of_nat (bsize i) \<and> (PAGE_SIZE - SIZEOF_ARENA) div push_bit i 16 = of_nat (btotal i)" if "i < 7" for i
    using size_cases [OF that] by (auto simp: bsize_def btotal_def PAGE_SIZE_def SIZEOF_ARENA_def push_bit_eq_mult)
  then have "push_bit i (16 :: u32) = of_nat (bsize i)" "(PAGE_SIZE - SIZEOF_ARENA) div of_nat (bsize i) = of_nat (btotal i)" if "i < 7" for i
    using that by metis+
  then show "heap_ok (arena_init h)"
    using assms by (simp add: heap_ok_def descs_ok_def arenas_ok_def arena_init_def DESC_COUNT_def fl_def)
  show "live (arena_init h) = {}" using assms by (simp add: live_def held_def arena_init_def)
  show "h_mm (arena_init h) = h_mm h" by (simp add: arena_init_def)
qed

subsection \<open>Stale records\<close>

text \<open>
  \<open>app X h\<close> is the heap \<open>h\<close> with the records of \<open>X\<close> wherever it has none of its own. An operation
  that succeeds without them does the same with them.
\<close>

definition app :: "(u32 \<rightharpoonup> arena) \<Rightarrow> heap \<Rightarrow> heap" where
  "app X h = h\<lparr>h_arena := X ++ h_arena h\<rparr>"

lemma app_simps [simp]: "h_desc (app X h) = h_desc h" "h_mm (app X h) = h_mm h" "fl (app X h) i = fl h i"
  "(app X h)\<lparr>h_desc := ds\<rparr> = app X (h\<lparr>h_desc := ds\<rparr>)" "(app X h)\<lparr>h_mm := m\<rparr> = app X (h\<lparr>h_mm := m\<rparr>)"
  "h_arena (app X h) = X ++ h_arena h" "(app X h)\<lparr>h_arena := (X ++ m')(a \<mapsto> ar)\<rparr> = app X (h\<lparr>h_arena := m'(a \<mapsto> ar)\<rparr>)"
  by (simp_all add: app_def fl_def)

lemma app_upd_desc [simp]: "upd_desc i f (app X h) = map_option (app X) (upd_desc i f h)"
  by (simp add: upd_desc_def rd_def wr_def)

lemma app_push_block [simp]: "push_block i b (app X h) = map_option (app X) (push_block i b h)"
  by (simp add: push_block_def rd_def)

lemma app_block_free [simp]: "block_free i b (app X h) = block_free i b h"
  by (simp add: block_free_def)

lemma app_pop_block [simp]: "pop_block i (app X h) = map_option (apsnd (app X)) (pop_block i h)"
  by (simp add: pop_block_def upd_desc_def rd_def wr_def split: list.splits)

text \<open>The steps of an operation that has succeeded.\<close>

lemma stepE:
  assumes "Option.bind m f = Some y"
  obtains x where "m = Some x" "f x = Some y"
  using assms by (cases m) auto

lemma testE:
  assumes "(if b then u else None) = Some y"
  obtains "b" "u = Some y"
  using assms by (cases b) auto

lemma app_get_arena_block: "get_arena_block a k h = Some b \<Longrightarrow> get_arena_block a k (app X h) = Some b"
  unfolding get_arena_block_def by (elim stepE) simp

lemma app_add_block: "add_block a i k h = Some h' \<Longrightarrow> add_block a i k (app X h) = Some (app X h')"
  unfolding add_block_def by (elim stepE) (simp add: app_get_arena_block)

lemma app_drop_block: "drop_block a i k h = Some h' \<Longrightarrow> drop_block a i k (app X h) = Some (app X h')"
  unfolding drop_block_def by (elim stepE) (simp add: app_get_arena_block)

lemma app_foldM:
  assumes "\<And>x s s'. f x s = Some s' \<Longrightarrow> f x (app X s) = Some (app X s')"
  shows "foldM f xs s = Some s' \<Longrightarrow> foldM f xs (app X s) = Some (app X s')"
  by (induction xs arbitrary: s) (auto elim!: stepE simp: assms)

lemma app_blocks:
  "foldM (\<lambda>k. add_block a i (of_nat k)) ks h = Some h' \<Longrightarrow> foldM (\<lambda>k. add_block a i (of_nat k)) ks (app X h) = Some (app X h')"
  "foldM (\<lambda>k. drop_block a i (of_nat k)) ks h = Some h' \<Longrightarrow> foldM (\<lambda>k. drop_block a i (of_nat k)) ks (app X h) = Some (app X h')"
  by (erule app_foldM [rotated], erule app_add_block app_drop_block)+

lemma app_new_arena: "new_arena i h = Some h' \<Longrightarrow> new_arena i (app X h) = Some (app X h')"
  unfolding new_arena_def Let_def by (elim stepE) (auto simp: app_blocks elim!: stepE)

lemma app_take_block: "take_block i h = Some (b, h') \<Longrightarrow> take_block i (app X h) = Some (b, app X h')"
  unfolding take_block_def Let_def by (elim stepE) (auto split: if_splits elim!: stepE)

lemma app_kmalloc: "kmalloc sz h = Some (b, h') \<Longrightarrow> kmalloc sz (app X h) = Some (b, app X h')"
  by (auto simp: kmalloc_def kmalloc_large_def Let_def app_take_block app_new_arena split: if_splits elim!: stepE)

lemma app_reclaim: "reclaim a i h = Some h' \<Longrightarrow> reclaim a i (app X h) = Some (app X h')"
  unfolding reclaim_def give_page_def by (elim stepE) (auto simp: app_blocks)

lemma app_kfree: "kfree b h = Some h' \<Longrightarrow> kfree b (app X h) = Some (app X h')"
  unfolding kfree_def give_page_def Let_def by (elim stepE) (auto simp: app_reclaim split: if_splits elim!: stepE)

text \<open>Any heap is the one of its arenas in use, with stale records added.\<close>

lemma app_cur: "app (h_arena h) (cur U h) = h"
proof -
  have "h_arena h ++ h_arena h |` U = h_arena h" by (auto simp: map_add_def restrict_map_def split: option.splits)
  then show ?thesis by (simp add: app_def cur_def)
qed

lemma cur_app: "cur (V \<inter> dom (h_arena h)) (app X h) = cur V h"
proof -
  have "(X ++ h_arena h) |` (V \<inter> dom (h_arena h)) = h_arena h |` V"
    by (rule ext) (auto simp: restrict_map_def)
  then show ?thesis by (simp add: app_def cur_def)
qed

lemma cur_simps [simp]: "h_mm (cur U h) = h_mm h" "h_desc (cur U h) = h_desc h" "fl (cur U h) i = fl h i"
  "pages_for sz (cur U h) = pages_for sz h"
  by (simp_all add: cur_def fl_def pages_for_def)

lemma kmalloc_any:
  assumes "heap_ok (cur U h)" "unat sz < 4294963184" "has_krun (h_mm h) (pages_for sz h)"
  obtains b h' V where "kmalloc sz h = Some (b, h')" "heap_ok (cur V h')" "b \<notin> live (cur U h)"
    "live (cur V h') = insert b (live (cur U h))" "unat sz \<le> room (cur V h') b"
    "\<forall>c\<in>live (cur U h). room (cur V h') c = room (cur U h) c"
proof -
  obtain b h' where k: "kmalloc sz (cur U h) = Some (b, h')" "heap_ok h'" "b \<notin> live (cur U h)"
    "live h' = insert b (live (cur U h))" "unat sz \<le> room h' b" "\<forall>c\<in>live (cur U h). room h' c = room (cur U h) c"
    using kmalloc_spec [of "cur U h" sz] assms by auto
  have "kmalloc sz h = Some (b, app (h_arena h) h')" using app_kmalloc [OF k(1), of "h_arena h"] by (simp add: app_cur)
  moreover have "cur (UNIV \<inter> dom (h_arena h')) (app (h_arena h) h') = h'" unfolding cur_app by (simp add: cur_def restrict_map_def)
  ultimately show thesis using that k by metis
qed

lemma kfree_any:
  assumes "heap_ok (cur U h)" "b \<in> live (cur U h)"
  obtains h' V where "kfree b h = Some h'" "heap_ok (cur V h')" "live (cur V h') = live (cur U h) - {b}"
    "\<forall>c\<in>live (cur V h'). room (cur V h') c = room (cur U h) c"
proof -
  obtain r V where k: "kfree b (cur U h) = Some r" "heap_ok (cur V r)" "live (cur V r) = live (cur U h) - {b}"
    "\<forall>c\<in>live (cur V r). room (cur V r) c = room (cur U h) c" using kfree_spec [OF assms] by blast
  have "kfree b h = Some (app (h_arena h) r)" using app_kfree [OF k(1), of "h_arena h"] by (simp add: app_cur)
  then show thesis using that k(2-4) cur_app by metis
qed

text \<open>
  The code does not see a second \<open>kfree\<close> of a block whose page went back in the meantime: the record
  in the page still has its magic number, and the block is linked as a free one although the page is
  not the heap's any more.
\<close>

lemma reclaim_arenas: "reclaim a i h = Some h' \<Longrightarrow> h_arena h' = h_arena h"
proof -
  have d: "h_arena u = h_arena s" if "drop_block a i k s = Some u" for k s u
    using that by (auto simp: drop_block_def upd_desc_def elim!: stepE split: if_splits)
  have "foldM (\<lambda>k. drop_block a i (of_nat k)) ks s = Some u \<Longrightarrow> h_arena u = h_arena s" for ks s u
    by (induction ks arbitrary: s) (auto elim!: stepE dest: d)
  then show "reclaim a i h = Some h' \<Longrightarrow> h_arena h' = h_arena h"
    by (auto simp: reclaim_def give_page_def upd_desc_def elim!: stepE split: if_splits)
qed

lemma reclaim_gives: "reclaim a i h = Some h' \<Longrightarrow> d_total_block (h_desc h' ! i) = d_total_block (h_desc h ! i)"
proof -
  have d: "d_total_block (h_desc u ! i) = d_total_block (h_desc s ! i)" if "drop_block a i k s = Some u" for k s u
    using that by (auto simp: drop_block_def upd_desc_def rd_eq_Some wr_eq_Some elim!: stepE split: if_splits)
  have "foldM (\<lambda>k. drop_block a i (of_nat k)) ks s = Some u \<Longrightarrow> d_total_block (h_desc u ! i) = d_total_block (h_desc s ! i)" for ks s u
    by (induction ks arbitrary: s) (auto elim!: stepE dest: d)
  then show "reclaim a i h = Some h' \<Longrightarrow> d_total_block (h_desc h' ! i) = d_total_block (h_desc h ! i)"
    by (auto simp: reclaim_def give_page_def upd_desc_def rd_eq_Some wr_eq_Some elim!: stepE split: if_splits)
qed

lemma kfree_stale:
  assumes "heap_ok (cur U h)" "b \<in> live (cur U h)" "kfree b h = Some h'" "n < 1048576" "held (cur U h) n i" "b \<in> slots n i"
    and gone: "n \<notin> kused (h_mm h')"
  shows "\<exists>h''. kfree b h' = Some h'' \<and> b \<in> set (fl h'' i) \<and> n \<notin> kused (h_mm h'')"
proof -
  note D = heap_okD [OF assms(1), simplified]
  obtain V where V: "heap_ok (cur V h')" using kfree_any [OF assms(1,2)] assms(3) by (metis option.inject)
  note E = heap_okD [OF V, simplified]
  have a: "get_block_arena b = PAGE (of_nat n)" by (rule blk_arena [OF assms(4,6)])
  obtain ar where ar: "h_arena (cur U h) (PAGE (of_nat n)) = Some ar" "a_large ar = 0" "a_desc ar = Some i"
    using assms(5) by (auto simp: held_def)
  then have ar': "h_arena h (PAGE (of_nat n)) = Some ar" by (simp add: cur_def restrict_map_def split: if_splits)
  have aok: "arena_ok (cur U h) n ar" using heap_okD(8) [OF assms(1,4) ar(1)] .
  then have i: "i < 7" "a_magic ar = PHINIX_MAGIC" using ar(2,3) by (auto simp: arena_ok_def)
  have used: "n \<in> kused (h_mm h)" using arena_used_page [OF assms(1,4) ar(1)] by simp
  have b0: "b \<noteq> 0" using assms(3) by (auto simp: kfree_def)
  have nf: "b \<notin> set (fl h' i)"
  proof
    assume "b \<in> set (fl h' i)"
    then obtain m where m: "m < 1048576" "held (cur V h') m i" "b \<in> slots m i" using E(6) [OF i(1)] by blast
    then have "m = n" using blk_page [OF m(1,3)] blk_page [OF assms(4,6)] by simp
    then show False using m(2) arena_used_page [OF V m(1)] gone by (auto simp: held_def)
  qed
  obtain h1 where h1: "push_block i b h = Some h1" using assms(3) a ar' ar(2,3) by (auto simp: kfree_def Let_def elim!: stepE split: if_splits)
  then have same: "h_mm h1 = h_mm h" "h_arena h1 = h_arena h" "length (h_desc h1) = 7"
    using i(1) D(1) by (auto simp: push_block_def upd_desc_def split: if_splits)
  let ?ar = "ar\<lparr>a_count := a_count ar + 1\<rparr>"
  have k: "kfree b h = (if a_count ar + 1 = d_total_block (h_desc h1 ! i) \<and> d_page_count (h_desc h1 ! i) > BUF_COUNT
      then reclaim (PAGE (of_nat n)) i (h1\<lparr>h_arena := (h_arena h1)(PAGE (of_nat n) \<mapsto> ?ar)\<rparr>)
      else Some (h1\<lparr>h_arena := (h_arena h1)(PAGE (of_nat n) \<mapsto> ?ar)\<rparr>))"
    using b0 a ar' ar(2,3) i h1 same(2,3) by (simp add: kfree_def Let_def)
  have full: "a_count ar + 1 = d_total_block (h_desc h1 ! i)"
    "reclaim (PAGE (of_nat n)) i (h1\<lparr>h_arena := (h_arena h1)(PAGE (of_nat n) \<mapsto> ?ar)\<rparr>) = Some h'"
    using k assms(3) gone used same(1) by (auto split: if_splits)
  have rec: "h_arena h' (PAGE (of_nat n)) = Some ?ar" "d_total_block (h_desc h' ! i) = a_count ?ar"
    using reclaim_arenas [OF full(2)] reclaim_gives [OF full(2)] full(1) by simp_all
  have "a_count ?ar + 1 \<noteq> a_count ?ar" by simp
  then have "kfree b h' = Some (h'\<lparr>h_desc := (h_desc h')[i := (h_desc h' ! i)\<lparr>d_free_list := b # fl h' i\<rparr>],
      h_arena := (h_arena h')(PAGE (of_nat n) \<mapsto> ?ar\<lparr>a_count := a_count ?ar + 1\<rparr>)\<rparr>)"
    using b0 a rec i ar(2,3) nf E(1) by (simp add: kfree_def Let_def push_block_def upd_desc_def fl_def)
  then show ?thesis using i(1) E(1) gone by (simp add: fl_def)
qed

text \<open>Near \<open>2 ^ 32\<close> the sum with the length of the \<open>arena_t\<close> wraps: such a request gets one page only.\<close>

lemma kmalloc_wraps: "0xfffffff0 < sz \<Longrightarrow> kmalloc sz h = kmalloc 1025 h"
proof -
  assume "0xfffffff0 < sz"
  then have u: "4294967280 < unat sz" by (simp add: word_less_nat_alt)
  have "unat (sz + 16) = unat sz + 16 - 4294967296" using u unsigned_less [of sz, where ?'a = nat]
    by (simp add: unat_word_ariths mod_if)
  moreover have "(unat sz - 4294963185) div 4096 = 1"
    using u unsigned_less [of sz, where ?'a = nat] by (intro div_nat_eqI) simp_all
  moreover have "unat sz - 4294963184 \<le> 4294967296" using unsigned_less [of sz, where ?'a = nat] by simp
  ultimately have "div_round_up (sz + SIZEOF_ARENA) PAGE_SIZE = Some 1"
    using div_round_up_ceiling [of PAGE_SIZE "sz + SIZEOF_ARENA"] u unsigned_less [of sz, where ?'a = nat]
    by (auto simp: PAGE_SIZE_def SIZEOF_ARENA_def word_unat_eq_iff)
  moreover have "div_round_up (1025 + SIZEOF_ARENA) PAGE_SIZE = Some 1"
    by (simp add: div_round_up_def PAGE_SIZE_def SIZEOF_ARENA_def)
  moreover have "1024 < sz" using u by (simp add: word_less_nat_alt)
  ultimately show ?thesis by (simp add: kmalloc_def kmalloc_large_def)
qed

text \<open>C8: A block from \<open>kmalloc\<close> is long enough and shares no byte with a block in use; every block in use
  stays in use with its length. It needs a free page only when the list of the size is empty, and a run of
  pages for a request of more than 1024 bytes; the request fails only when there is none. This is for
  requests of less than \<open>2 ^ 32 - 4112\<close> bytes; the largest of the others get a block that is too short
  (\<open>kmalloc_wraps\<close>). \<open>U\<close> says which of the records in memory are arenas in use.\<close>

theorem kmalloc_fresh:
  assumes "heap_ok (cur U h)" "unat sz < 4294963184" "has_krun (h_mm h) (pages_for sz h)"
  shows "\<exists>b h' V. kmalloc sz h = Some (b, h') \<and> heap_ok (cur V h') \<and> live (cur V h') = insert b (live (cur U h))
    \<and> b \<notin> live (cur U h) \<and> unat sz \<le> room (cur V h') b
    \<and> (\<forall>c\<in>live (cur U h). room (cur V h') c = room (cur U h) c
          \<and> (unat b + room (cur V h') b \<le> unat c \<or> unat c + room (cur V h') c \<le> unat b))"
proof -
  obtain b h' V where k: "kmalloc sz h = Some (b, h')" "heap_ok (cur V h')" "b \<notin> live (cur U h)"
    "live (cur V h') = insert b (live (cur U h))" "unat sz \<le> room (cur V h') b"
    "\<forall>c\<in>live (cur U h). room (cur V h') c = room (cur U h) c" by (rule kmalloc_any [OF assms])
  have "unat b + room (cur V h') b \<le> unat c \<or> unat c + room (cur V h') c \<le> unat b" if "c \<in> live (cur U h)" for c
    using live_disjoint [OF k(2), of b c] k(3,4) that by auto
  with k show ?thesis by blast
qed

definition sample_heap0 :: heap where
  "sample_heap0 = arena_init \<lparr>h_desc = [], h_arena = Map.empty,
     h_mm = sample_mm\<lparr>kernel_map := \<lparr>bm_bits = [3, 0], bm_length = 2, bm_offset = 256\<rparr>\<rparr>\<rparr>"

lemma sample_heap0: "heap_ok sample_heap0" "live sample_heap0 = {}" "has_krun (h_mm sample_heap0) 1" "has_krun (h_mm sample_heap0) 2"
proof -
  have k: "kmap_ok (sample_mm\<lparr>kernel_map := \<lparr>bm_bits = [3, 0], bm_length = 2, bm_offset = 256\<rparr>\<rparr>)"
    by (simp add: kmap_ok_def bm_wf_def bm_size_def)
  show "heap_ok sample_heap0" "live sample_heap0 = {}"
    unfolding sample_heap0_def using arena_init_ok k by simp_all
  have "free_run (bm_view \<lparr>bm_bits = [3, 0], bm_length = 2, bm_offset = 256\<rparr>) 2 8" by code_simp
  moreover have "free_run (bm_view \<lparr>bm_bits = [3, 0], bm_length = 2, bm_offset = 256\<rparr>) 1 8" by code_simp
  ultimately show "has_krun (h_mm sample_heap0) 1" "has_krun (h_mm sample_heap0) 2"
    unfolding has_krun_def by (intro exI [of _ 8], simp add: sample_heap0_def arena_init_def)+
qed

lemma sample_heap0_cur: "cur UNIV sample_heap0 = sample_heap0"
  "pages_for 1000 sample_heap0 = 1" "map_option (\<lambda>(b, h). pages_for 600 h) (kmalloc 1000 sample_heap0) = Some 0"
  "map_option (\<lambda>(b, h). map_option (\<lambda>h'. b \<in> set (fl h' 6)) (kfree b h)) (kmalloc 1000 sample_heap0) = Some (Some True)"
  by (simp add: cur_def restrict_map_def) code_simp+

text \<open>The first request makes a page of blocks; the second takes another of them, for which no page is needed.\<close>

theorem kmalloc_fresh_witness:
  "\<exists>b h' c h''. kmalloc 1000 sample_heap0 = Some (b, h') \<and> kmalloc 600 h' = Some (c, h'')
    \<and> (unat c + 600 \<le> unat b \<or> unat b + 1000 \<le> unat c)"
proof -
  have "heap_ok (cur UNIV sample_heap0)" "has_krun (h_mm sample_heap0) (pages_for 1000 sample_heap0)"
    using sample_heap0 sample_heap0_cur(1,2) by simp_all
  from kmalloc_fresh [OF this(1) _ this(2)] obtain b h' V where k: "kmalloc 1000 sample_heap0 = Some (b, h')"
    "heap_ok (cur V h')" "b \<in> live (cur V h')" "1000 \<le> room (cur V h') b" by auto
  have p: "has_krun (h_mm h') (pages_for 600 h')"
    using sample_heap0_cur(3) k(1) by (auto simp: has_krun_def free_run_def)
  from kmalloc_fresh [OF k(2) _ p] k(3) obtain c h'' W where c: "kmalloc 600 h' = Some (c, h'')" "600 \<le> room (cur W h'') c"
    "room (cur W h'') b = room (cur V h') b" "unat c + room (cur W h'') c \<le> unat b \<or> unat b + room (cur W h'') b \<le> unat c"
    by auto
  then have "unat c + 600 \<le> unat b \<or> unat b + 1000 \<le> unat c" using k(4) by linarith
  with k(1) c(1) show ?thesis by blast
qed

text \<open>C9: \<open>kfree\<close> of a block in use returns and releases exactly this block: all others stay in use with
  their lengths, also when pages are given back. Releasing a block that is in a free list fails. A second
  release after the page itself was given back is not noticed, which \<open>kfree_stale\<close> shows; the record in the
  page is still there.\<close>

theorem kfree_releases:
  assumes "heap_ok (cur U h)"
  shows "(\<forall>b\<in>live (cur U h). \<exists>h' V. kfree b h = Some h' \<and> heap_ok (cur V h') \<and> live (cur V h') = live (cur U h) - {b}
      \<and> (\<forall>c\<in>live (cur V h'). room (cur V h') c = room (cur U h) c))
    \<and> (\<forall>i b. i < 7 \<and> b \<in> set (fl h i) \<longrightarrow> kfree b h = None)"
proof (intro conjI ballI allI impI)
  show "\<exists>h' V. kfree b h = Some h' \<and> heap_ok (cur V h') \<and> live (cur V h') = live (cur U h) - {b}
      \<and> (\<forall>c\<in>live (cur V h'). room (cur V h') c = room (cur U h) c)"
    if "b \<in> live (cur U h)" for b by (rule kfree_any [OF assms that]) blast
next
  fix i b assume i: "i < 7 \<and> b \<in> set (fl h i)"
  obtain n ar where n: "n < 1048576" "h_arena (cur U h) (PAGE (of_nat n)) = Some ar" "get_block_arena b = PAGE (of_nat n)"
    "held (cur U h) n i" by (rule free_arena [OF assms, of i b]) (use i that in auto)
  then have "a_large ar = 0" "a_desc ar = Some i" "h_arena h (PAGE (of_nat n)) = Some ar"
    by (auto simp: held_def cur_def restrict_map_def split: if_splits)
  then show "kfree b h = None"
    using n i heap_okD(1) [OF assms] by (auto simp: kfree_def push_block_def fl_def Let_def)
qed

text \<open>A block is released once and not twice.\<close>

theorem kfree_releases_witness:
  "\<exists>b h h'. kmalloc 1000 sample_heap0 = Some (b, h) \<and> kfree b h = Some h' \<and> kfree b h' = None"
proof -
  have ok: "heap_ok (cur UNIV sample_heap0)" "has_krun (h_mm sample_heap0) (pages_for 1000 sample_heap0)"
    using sample_heap0 sample_heap0_cur(1,2) by simp_all
  obtain b h V where k: "kmalloc 1000 sample_heap0 = Some (b, h)"
    "heap_ok (cur V h)" "b \<in> live (cur V h)" by (rule kmalloc_any [OF ok(1) _ ok(2)]) (use that in auto)
  obtain h' W where h': "kfree b h = Some h'" "heap_ok (cur W h')" "live (cur W h') = live (cur V h) - {b}"
    using kfree_releases [OF k(2)] k(3) by blast
  have "b \<in> set (fl h' 6)" using k(1) h'(1) sample_heap0_cur(4) by auto
  then have "kfree b h' = None" using conjunct2 [OF kfree_releases [OF h'(2)], rule_format, of 6 b] by simp
  with k(1) h'(1) show ?thesis by blast
qed

end
