(* ===== verification/Syscall.thy ===== *)
theory Syscall
  imports Prelude
begin

section \<open>The system call gate: \<open>lib/syscall.c\<close>, \<open>kernel/gate.c\<close>\<close>

text \<open>
  A program enters the kernel with \<open>int 0x80\<close>: the number of the call is in \<open>eax\<close>, its arguments in the
  registers the functions \<open>_syscall0\<close> to \<open>_syscall6\<close> load. The entry code pushes six registers as the
  arguments of the function that \<open>syscall_table\<close> names; it reads as many as it declares (\<open>arity\<close>). A number
  outside the table, or without a function, is a panic. Each library function is the registers at
  its trap, starting from those of the caller.
\<close>

record call_regs =
  eax :: u32
  ebx :: u32
  ecx :: u32
  edx :: u32
  esi :: u32
  edi :: u32
  ebp :: u32

subsection \<open>The numbers\<close>

definition SYS_NR_TEST :: u32 where "SYS_NR_TEST = 0"
definition SYS_NR_EXIT :: u32 where "SYS_NR_EXIT = 1"
definition SYS_NR_FORK :: u32 where "SYS_NR_FORK = 2"
definition SYS_NR_READ :: u32 where "SYS_NR_READ = 3"
definition SYS_NR_WRITE :: u32 where "SYS_NR_WRITE = 4"
definition SYS_NR_OPEN :: u32 where "SYS_NR_OPEN = 5"
definition SYS_NR_CLOSE :: u32 where "SYS_NR_CLOSE = 6"
definition SYS_NR_WAITPID :: u32 where "SYS_NR_WAITPID = 7"
definition SYS_NR_CREAT :: u32 where "SYS_NR_CREAT = 8"
definition SYS_NR_LINK :: u32 where "SYS_NR_LINK = 9"
definition SYS_NR_UNLINK :: u32 where "SYS_NR_UNLINK = 10"
definition SYS_NR_EXECVE :: u32 where "SYS_NR_EXECVE = 11"
definition SYS_NR_CHDIR :: u32 where "SYS_NR_CHDIR = 12"
definition SYS_NR_TIME :: u32 where "SYS_NR_TIME = 13"
definition SYS_NR_MKNOD :: u32 where "SYS_NR_MKNOD = 14"
definition SYS_NR_STAT :: u32 where "SYS_NR_STAT = 18"
definition SYS_NR_LSEEK :: u32 where "SYS_NR_LSEEK = 19"
definition SYS_NR_GETPID :: u32 where "SYS_NR_GETPID = 20"
definition SYS_NR_MOUNT :: u32 where "SYS_NR_MOUNT = 21"
definition SYS_NR_UMOUNT :: u32 where "SYS_NR_UMOUNT = 22"
definition SYS_NR_ALARM :: u32 where "SYS_NR_ALARM = 27"
definition SYS_NR_FSTAT :: u32 where "SYS_NR_FSTAT = 28"
definition SYS_NR_STTY :: u32 where "SYS_NR_STTY = 31"
definition SYS_NR_GTTY :: u32 where "SYS_NR_GTTY = 32"
definition SYS_NR_KILL :: u32 where "SYS_NR_KILL = 37"
definition SYS_NR_MKDIR :: u32 where "SYS_NR_MKDIR = 39"
definition SYS_NR_RMDIR :: u32 where "SYS_NR_RMDIR = 40"
definition SYS_NR_DUP :: u32 where "SYS_NR_DUP = 41"
definition SYS_NR_PIPE :: u32 where "SYS_NR_PIPE = 42"
definition SYS_NR_BRK :: u32 where "SYS_NR_BRK = 45"
definition SYS_NR_SIGNAL :: u32 where "SYS_NR_SIGNAL = 48"
definition SYS_NR_IOCTL :: u32 where "SYS_NR_IOCTL = 54"
definition SYS_NR_SETPGID :: u32 where "SYS_NR_SETPGID = 57"
definition SYS_NR_UMASK :: u32 where "SYS_NR_UMASK = 60"
definition SYS_NR_CHROOT :: u32 where "SYS_NR_CHROOT = 61"
definition SYS_NR_DUP2 :: u32 where "SYS_NR_DUP2 = 63"
definition SYS_NR_GETPPID :: u32 where "SYS_NR_GETPPID = 64"
definition SYS_NR_GETPGRP :: u32 where "SYS_NR_GETPGRP = 65"
definition SYS_NR_SETSID :: u32 where "SYS_NR_SETSID = 66"
definition SYS_NR_SIGACTION :: u32 where "SYS_NR_SIGACTION = 67"
definition SYS_NR_SGETMASK :: u32 where "SYS_NR_SGETMASK = 68"
definition SYS_NR_SSETMASK :: u32 where "SYS_NR_SSETMASK = 69"
definition SYS_NR_READDIR :: u32 where "SYS_NR_READDIR = 89"
definition SYS_NR_MMAP :: u32 where "SYS_NR_MMAP = 90"
definition SYS_NR_MUNMAP :: u32 where "SYS_NR_MUNMAP = 91"
definition SYS_NR_SLEEP :: u32 where "SYS_NR_SLEEP = 158"
definition SYS_NR_YIELD :: u32 where "SYS_NR_YIELD = 162"
definition SYS_NR_GETCWD :: u32 where "SYS_NR_GETCWD = 183"
definition SYS_NR_MKFS :: u32 where "SYS_NR_MKFS = 200"

subsection \<open>The library\<close>

definition syscall0 :: "u32 \<Rightarrow> call_regs \<Rightarrow> call_regs" where
  [c_defs]: "syscall0 nr r = r\<lparr>eax := nr\<rparr>"

definition syscall1 :: "u32 \<Rightarrow> u32 \<Rightarrow> call_regs \<Rightarrow> call_regs" where
  [c_defs]: "syscall1 nr a r = r\<lparr>eax := nr, ebx := a\<rparr>"

definition syscall2 :: "u32 \<Rightarrow> u32 \<Rightarrow> u32 \<Rightarrow> call_regs \<Rightarrow> call_regs" where
  [c_defs]: "syscall2 nr a b r = r\<lparr>eax := nr, ebx := a, ecx := b\<rparr>"

definition syscall3 :: "u32 \<Rightarrow> u32 \<Rightarrow> u32 \<Rightarrow> u32 \<Rightarrow> call_regs \<Rightarrow> call_regs" where
  [c_defs]: "syscall3 nr a b c r = r\<lparr>eax := nr, ebx := a, ecx := b, edx := c\<rparr>"

definition syscall4 :: "u32 \<Rightarrow> u32 \<Rightarrow> u32 \<Rightarrow> u32 \<Rightarrow> u32 \<Rightarrow> call_regs \<Rightarrow> call_regs" where
  [c_defs]: "syscall4 nr a b c d r = r\<lparr>eax := nr, ebx := a, ecx := b, edx := c, esi := d\<rparr>"

definition syscall5 :: "u32 \<Rightarrow> u32 \<Rightarrow> u32 \<Rightarrow> u32 \<Rightarrow> u32 \<Rightarrow> u32 \<Rightarrow> call_regs \<Rightarrow> call_regs" where
  [c_defs]: "syscall5 nr a b c d e r = r\<lparr>eax := nr, ebx := a, ecx := b, edx := c, esi := d, edi := e\<rparr>"

definition syscall6 :: "u32 \<Rightarrow> u32 \<Rightarrow> u32 \<Rightarrow> u32 \<Rightarrow> u32 \<Rightarrow> u32 \<Rightarrow> u32 \<Rightarrow> call_regs \<Rightarrow> call_regs" where
  [c_defs]: "syscall6 nr a b c d e f r =
     r\<lparr>eax := nr, ebx := a, ecx := b, edx := c, esi := d, edi := e, ebp := f\<rparr>"

definition lib_test :: "call_regs \<Rightarrow> call_regs" where
  [c_defs]: "lib_test = syscall0 SYS_NR_TEST"

definition lib_exit :: "u32 \<Rightarrow> call_regs \<Rightarrow> call_regs" where
  [c_defs]: "lib_exit status = syscall1 SYS_NR_EXIT status"

definition lib_fork :: "call_regs \<Rightarrow> call_regs" where
  [c_defs]: "lib_fork = syscall0 SYS_NR_FORK"

definition lib_waitpid :: "u32 \<Rightarrow> u32 \<Rightarrow> call_regs \<Rightarrow> call_regs" where
  [c_defs]: "lib_waitpid pid status = syscall2 SYS_NR_WAITPID pid status"

definition lib_execve :: "u32 \<Rightarrow> u32 \<Rightarrow> u32 \<Rightarrow> call_regs \<Rightarrow> call_regs" where
  [c_defs]: "lib_execve filename argv envp = syscall3 SYS_NR_EXECVE filename argv envp"

definition lib_kill :: "u32 \<Rightarrow> u32 \<Rightarrow> call_regs \<Rightarrow> call_regs" where
  [c_defs]: "lib_kill pid sig = syscall2 SYS_NR_KILL pid sig"

definition lib_alarm :: "u32 \<Rightarrow> call_regs \<Rightarrow> call_regs" where
  [c_defs]: "lib_alarm sec = syscall1 SYS_NR_ALARM sec"

definition lib_yield :: "call_regs \<Rightarrow> call_regs" where
  [c_defs]: "lib_yield = syscall0 SYS_NR_YIELD"

definition lib_sleep :: "u32 \<Rightarrow> call_regs \<Rightarrow> call_regs" where
  [c_defs]: "lib_sleep ms = syscall1 SYS_NR_SLEEP ms"

definition lib_getpid :: "call_regs \<Rightarrow> call_regs" where
  [c_defs]: "lib_getpid = syscall0 SYS_NR_GETPID"

definition lib_getppid :: "call_regs \<Rightarrow> call_regs" where
  [c_defs]: "lib_getppid = syscall0 SYS_NR_GETPPID"

definition lib_setpgid :: "u32 \<Rightarrow> u32 \<Rightarrow> call_regs \<Rightarrow> call_regs" where
  [c_defs]: "lib_setpgid pid pgid = syscall2 SYS_NR_SETPGID pid pgid"

definition lib_getpgrp :: "call_regs \<Rightarrow> call_regs" where
  [c_defs]: "lib_getpgrp = syscall0 SYS_NR_GETPGRP"

definition lib_setsid :: "call_regs \<Rightarrow> call_regs" where
  [c_defs]: "lib_setsid = syscall0 SYS_NR_SETSID"

definition lib_stty :: "call_regs \<Rightarrow> call_regs" where
  [c_defs]: "lib_stty = syscall0 SYS_NR_STTY"

definition lib_gtty :: "call_regs \<Rightarrow> call_regs" where
  [c_defs]: "lib_gtty = syscall0 SYS_NR_GTTY"

definition lib_ioctl :: "u32 \<Rightarrow> u32 \<Rightarrow> u32 \<Rightarrow> call_regs \<Rightarrow> call_regs" where
  [c_defs]: "lib_ioctl fd cmd args = syscall3 SYS_NR_IOCTL fd cmd args"

definition lib_brk :: "u32 \<Rightarrow> call_regs \<Rightarrow> call_regs" where
  [c_defs]: "lib_brk addr = syscall1 SYS_NR_BRK addr"

definition lib_mmap :: "u32 \<Rightarrow> u32 \<Rightarrow> u32 \<Rightarrow> u32 \<Rightarrow> u32 \<Rightarrow> u32 \<Rightarrow> call_regs \<Rightarrow> call_regs" where
  [c_defs]: "lib_mmap addr len prot flags fd offset = syscall6 SYS_NR_MMAP addr len prot flags fd offset"

definition lib_munmap :: "u32 \<Rightarrow> u32 \<Rightarrow> call_regs \<Rightarrow> call_regs" where
  [c_defs]: "lib_munmap addr len = syscall2 SYS_NR_MUNMAP addr len"

definition lib_dup :: "u32 \<Rightarrow> call_regs \<Rightarrow> call_regs" where
  [c_defs]: "lib_dup oldfd = syscall1 SYS_NR_DUP oldfd"

definition lib_dup2 :: "u32 \<Rightarrow> u32 \<Rightarrow> call_regs \<Rightarrow> call_regs" where
  [c_defs]: "lib_dup2 oldfd newfd = syscall2 SYS_NR_DUP2 oldfd newfd"

definition lib_pipe :: "u32 \<Rightarrow> call_regs \<Rightarrow> call_regs" where
  [c_defs]: "lib_pipe pipefd = syscall1 SYS_NR_PIPE pipefd"

definition lib_open :: "u32 \<Rightarrow> u32 \<Rightarrow> u32 \<Rightarrow> call_regs \<Rightarrow> call_regs" where
  [c_defs]: "lib_open filename flags mode = syscall3 SYS_NR_OPEN filename flags mode"

definition lib_create :: "u32 \<Rightarrow> u32 \<Rightarrow> call_regs \<Rightarrow> call_regs" where
  [c_defs]: "lib_create filename mode = syscall2 SYS_NR_CREAT filename mode"

definition lib_close :: "u32 \<Rightarrow> call_regs \<Rightarrow> call_regs" where
  [c_defs]: "lib_close fd = syscall1 SYS_NR_CLOSE fd"

definition lib_read :: "u32 \<Rightarrow> u32 \<Rightarrow> u32 \<Rightarrow> call_regs \<Rightarrow> call_regs" where
  [c_defs]: "lib_read fd buf len = syscall3 SYS_NR_READ fd buf len"

definition lib_write :: "u32 \<Rightarrow> u32 \<Rightarrow> u32 \<Rightarrow> call_regs \<Rightarrow> call_regs" where
  [c_defs]: "lib_write fd buf len = syscall3 SYS_NR_WRITE fd buf len"

definition lib_readdir :: "u32 \<Rightarrow> u32 \<Rightarrow> u32 \<Rightarrow> call_regs \<Rightarrow> call_regs" where
  [c_defs]: "lib_readdir fd dir count = syscall3 SYS_NR_READDIR fd dir count"

definition lib_lseek :: "u32 \<Rightarrow> u32 \<Rightarrow> u32 \<Rightarrow> call_regs \<Rightarrow> call_regs" where
  [c_defs]: "lib_lseek fd offset whence = syscall3 SYS_NR_LSEEK fd offset whence"

definition lib_getcwd :: "u32 \<Rightarrow> u32 \<Rightarrow> call_regs \<Rightarrow> call_regs" where
  [c_defs]: "lib_getcwd buf sz = syscall2 SYS_NR_GETCWD buf sz"

definition lib_chdir :: "u32 \<Rightarrow> call_regs \<Rightarrow> call_regs" where
  [c_defs]: "lib_chdir pathname = syscall1 SYS_NR_CHDIR pathname"

definition lib_chroot :: "u32 \<Rightarrow> call_regs \<Rightarrow> call_regs" where
  [c_defs]: "lib_chroot pathname = syscall1 SYS_NR_CHROOT pathname"

definition lib_mkdir :: "u32 \<Rightarrow> u32 \<Rightarrow> call_regs \<Rightarrow> call_regs" where
  [c_defs]: "lib_mkdir pathname mode = syscall2 SYS_NR_MKDIR pathname mode"

definition lib_rmdir :: "u32 \<Rightarrow> call_regs \<Rightarrow> call_regs" where
  [c_defs]: "lib_rmdir pathname = syscall1 SYS_NR_RMDIR pathname"

definition lib_link :: "u32 \<Rightarrow> u32 \<Rightarrow> call_regs \<Rightarrow> call_regs" where
  [c_defs]: "lib_link oldname newname = syscall2 SYS_NR_LINK oldname newname"

definition lib_unlink :: "u32 \<Rightarrow> call_regs \<Rightarrow> call_regs" where
  [c_defs]: "lib_unlink filename = syscall1 SYS_NR_UNLINK filename"

definition lib_mount :: "u32 \<Rightarrow> u32 \<Rightarrow> u32 \<Rightarrow> call_regs \<Rightarrow> call_regs" where
  [c_defs]: "lib_mount devname dirname flags = syscall3 SYS_NR_MOUNT devname dirname flags"

definition lib_umount :: "u32 \<Rightarrow> call_regs \<Rightarrow> call_regs" where
  [c_defs]: "lib_umount target = syscall1 SYS_NR_UMOUNT target"

definition lib_mknod :: "u32 \<Rightarrow> u32 \<Rightarrow> u32 \<Rightarrow> call_regs \<Rightarrow> call_regs" where
  [c_defs]: "lib_mknod filename mode dev = syscall3 SYS_NR_MKNOD filename mode dev"

definition lib_time :: "call_regs \<Rightarrow> call_regs" where
  [c_defs]: "lib_time = syscall0 SYS_NR_TIME"

definition lib_umask :: "u32 \<Rightarrow> call_regs \<Rightarrow> call_regs" where
  [c_defs]: "lib_umask msk = syscall1 SYS_NR_UMASK msk"

definition lib_stat :: "u32 \<Rightarrow> u32 \<Rightarrow> call_regs \<Rightarrow> call_regs" where
  [c_defs]: "lib_stat filename statbuf = syscall2 SYS_NR_STAT filename statbuf"

definition lib_fstat :: "u32 \<Rightarrow> u32 \<Rightarrow> call_regs \<Rightarrow> call_regs" where
  [c_defs]: "lib_fstat fd statbuf = syscall2 SYS_NR_FSTAT fd statbuf"

definition lib_mkfs :: "u32 \<Rightarrow> u32 \<Rightarrow> call_regs \<Rightarrow> call_regs" where
  [c_defs]: "lib_mkfs devname icount = syscall2 SYS_NR_MKFS devname icount"

definition lib_sgetmask :: "call_regs \<Rightarrow> call_regs" where
  [c_defs]: "lib_sgetmask = syscall0 SYS_NR_SGETMASK"

definition lib_ssetmask :: "u32 \<Rightarrow> call_regs \<Rightarrow> call_regs" where
  [c_defs]: "lib_ssetmask newmask = syscall1 SYS_NR_SSETMASK newmask"

definition lib_signal :: "u32 \<Rightarrow> u32 \<Rightarrow> u32 \<Rightarrow> call_regs \<Rightarrow> call_regs" where
  [c_defs]: "lib_signal sig hdl restorer = syscall3 SYS_NR_SIGNAL sig hdl restorer"

definition lib_sigaction :: "u32 \<Rightarrow> u32 \<Rightarrow> u32 \<Rightarrow> call_regs \<Rightarrow> call_regs" where
  [c_defs]: "lib_sigaction sig action oldaction = syscall3 SYS_NR_SIGACTION sig action oldaction"

definition lib_setpgrp :: "call_regs \<Rightarrow> call_regs" where
  [c_defs]: "lib_setpgrp = lib_setpgid 0 0"

subsection \<open>The kernel's side\<close>

datatype (plugins only: code) sys_handler =
    H_default | H_sys_test | H_task_exit | H_task_fork | H_sys_read | H_sys_write | H_sys_open
    | H_sys_close | H_task_waitpid | H_sys_create | H_sys_link | H_sys_unlink | H_sys_execve
    | H_sys_chdir | H_sys_time | H_sys_mknod | H_sys_stat | H_sys_lseek | H_sys_getpid
    | H_sys_mount | H_sys_umount | H_sys_alarm | H_sys_fstat | H_sys_stty | H_sys_gtty
    | H_sys_kill | H_sys_mkdir | H_sys_rmdir | H_sys_dup | H_sys_pipe | H_sys_brk
    | H_sys_signal | H_sys_ioctl | H_sys_setpgid | H_sys_umask | H_sys_chroot | H_sys_dup2
    | H_sys_getppid | H_sys_getpgrp | H_sys_setsid | H_sys_sigaction | H_sys_sgetmask
    | H_sys_ssetmask | H_sys_readdir | H_sys_mmap | H_sys_munmap | H_task_sleep | H_task_yield
    | H_sys_getcwd | H_sys_mkfs

text \<open>The number of parameters of each function.\<close>

primrec arity :: "sys_handler \<Rightarrow> nat" where
  "arity H_default = 0"
| "arity H_sys_test = 0"
| "arity H_task_exit = 1"
| "arity H_task_fork = 0"
| "arity H_sys_read = 3"
| "arity H_sys_write = 3"
| "arity H_sys_open = 3"
| "arity H_sys_close = 1"
| "arity H_task_waitpid = 2"
| "arity H_sys_create = 2"
| "arity H_sys_link = 2"
| "arity H_sys_unlink = 1"
| "arity H_sys_execve = 3"
| "arity H_sys_chdir = 1"
| "arity H_sys_time = 0"
| "arity H_sys_mknod = 3"
| "arity H_sys_stat = 2"
| "arity H_sys_lseek = 3"
| "arity H_sys_getpid = 0"
| "arity H_sys_mount = 3"
| "arity H_sys_umount = 1"
| "arity H_sys_alarm = 1"
| "arity H_sys_fstat = 2"
| "arity H_sys_stty = 0"
| "arity H_sys_gtty = 0"
| "arity H_sys_kill = 2"
| "arity H_sys_mkdir = 2"
| "arity H_sys_rmdir = 1"
| "arity H_sys_dup = 1"
| "arity H_sys_pipe = 1"
| "arity H_sys_brk = 1"
| "arity H_sys_signal = 3"
| "arity H_sys_ioctl = 3"
| "arity H_sys_setpgid = 2"
| "arity H_sys_umask = 1"
| "arity H_sys_chroot = 1"
| "arity H_sys_dup2 = 2"
| "arity H_sys_getppid = 0"
| "arity H_sys_getpgrp = 0"
| "arity H_sys_setsid = 0"
| "arity H_sys_sigaction = 3"
| "arity H_sys_sgetmask = 0"
| "arity H_sys_ssetmask = 1"
| "arity H_sys_readdir = 3"
| "arity H_sys_mmap = 6"
| "arity H_sys_munmap = 2"
| "arity H_task_sleep = 1"
| "arity H_task_yield = 0"
| "arity H_sys_getcwd = 2"
| "arity H_sys_mkfs = 2"

definition SYSCALL_SIZE :: u32 where [c_defs]: "SYSCALL_SIZE = 256"

definition syscall_check :: "u32 \<Rightarrow> unit option" where
  "syscall_check func_code = (if func_code \<ge> SYSCALL_SIZE then None else Some ())"

definition syscall_default :: "unit option" where
  "syscall_default = None"

definition syscall_init :: "(u32 \<times> sys_handler) list" where
  "syscall_init =
    [(SYS_NR_TEST, H_sys_test),
     (SYS_NR_EXIT, H_task_exit),
     (SYS_NR_FORK, H_task_fork),
     (SYS_NR_WAITPID, H_task_waitpid),
     (SYS_NR_KILL, H_sys_kill),
     (SYS_NR_SLEEP, H_task_sleep),
     (SYS_NR_YIELD, H_task_yield),
     (SYS_NR_EXECVE, H_sys_execve),
     (SYS_NR_GETPID, H_sys_getpid),
     (SYS_NR_GETPPID, H_sys_getppid),
     (SYS_NR_SETPGID, H_sys_setpgid),
     (SYS_NR_GETPGRP, H_sys_getpgrp),
     (SYS_NR_SETSID, H_sys_setsid),
     (SYS_NR_STTY, H_sys_stty),
     (SYS_NR_GTTY, H_sys_gtty),
     (SYS_NR_IOCTL, H_sys_ioctl),
     (SYS_NR_BRK, H_sys_brk),
     (SYS_NR_MMAP, H_sys_mmap),
     (SYS_NR_MUNMAP, H_sys_munmap),
     (SYS_NR_DUP, H_sys_dup),
     (SYS_NR_DUP2, H_sys_dup2),
     (SYS_NR_PIPE, H_sys_pipe),
     (SYS_NR_READ, H_sys_read),
     (SYS_NR_WRITE, H_sys_write),
     (SYS_NR_LSEEK, H_sys_lseek),
     (SYS_NR_READDIR, H_sys_readdir),
     (SYS_NR_GETCWD, H_sys_getcwd),
     (SYS_NR_CHDIR, H_sys_chdir),
     (SYS_NR_CHROOT, H_sys_chroot),
     (SYS_NR_MKDIR, H_sys_mkdir),
     (SYS_NR_RMDIR, H_sys_rmdir),
     (SYS_NR_OPEN, H_sys_open),
     (SYS_NR_CLOSE, H_sys_close),
     (SYS_NR_CREAT, H_sys_create),
     (SYS_NR_LINK, H_sys_link),
     (SYS_NR_UNLINK, H_sys_unlink),
     (SYS_NR_TIME, H_sys_time),
     (SYS_NR_UMASK, H_sys_umask),
     (SYS_NR_STAT, H_sys_stat),
     (SYS_NR_FSTAT, H_sys_fstat),
     (SYS_NR_MKNOD, H_sys_mknod),
     (SYS_NR_MOUNT, H_sys_mount),
     (SYS_NR_UMOUNT, H_sys_umount),
     (SYS_NR_MKFS, H_sys_mkfs),
     (SYS_NR_SIGNAL, H_sys_signal),
     (SYS_NR_SGETMASK, H_sys_sgetmask),
     (SYS_NR_SSETMASK, H_sys_ssetmask),
     (SYS_NR_SIGACTION, H_sys_sigaction),
     (SYS_NR_ALARM, H_sys_alarm)]"

definition syscall_table :: "u32 \<Rightarrow> sys_handler" where
  "syscall_table nr = (case map_of (rev syscall_init) nr of None \<Rightarrow> H_default | Some h \<Rightarrow> h)"

text \<open>The function that is called, with its arguments.\<close>

definition gate :: "call_regs \<Rightarrow> (sys_handler \<times> u32 list) option" where
  "gate r = do {
     syscall_check (eax r);
     let h = syscall_table (eax r);
     if h = H_default then do { syscall_default; None }
     else Some (h, take (arity h) [ebx r, ecx r, edx r, esi r, edi r, ebp r]) }"

subsection \<open>Every library call reaches its function\<close>

text \<open>A call of the library, the function of the kernel it is for, and the arguments that function is to get.
  \<open>restorer\<close> is the address of the return code the library passes for \<open>signal\<close>.\<close>

datatype (plugins only:) libcall =
    L_test
  | L_exit u32
  | L_fork
  | L_waitpid u32 u32
  | L_execve u32 u32 u32
  | L_kill u32 u32
  | L_alarm u32
  | L_yield
  | L_sleep u32
  | L_getpid
  | L_getppid
  | L_setpgid u32 u32
  | L_getpgrp
  | L_setsid
  | L_stty
  | L_gtty
  | L_ioctl u32 u32 u32
  | L_brk u32
  | L_mmap u32 u32 u32 u32 u32 u32
  | L_munmap u32 u32
  | L_dup u32
  | L_dup2 u32 u32
  | L_pipe u32
  | L_open u32 u32 u32
  | L_create u32 u32
  | L_close u32
  | L_read u32 u32 u32
  | L_write u32 u32 u32
  | L_readdir u32 u32 u32
  | L_lseek u32 u32 u32
  | L_getcwd u32 u32
  | L_chdir u32
  | L_chroot u32
  | L_mkdir u32 u32
  | L_rmdir u32
  | L_link u32 u32
  | L_unlink u32
  | L_mount u32 u32 u32
  | L_umount u32
  | L_mknod u32 u32 u32
  | L_time
  | L_umask u32
  | L_stat u32 u32
  | L_fstat u32 u32
  | L_mkfs u32 u32
  | L_sgetmask
  | L_ssetmask u32
  | L_signal u32 u32
  | L_sigaction u32 u32 u32
  | L_setpgrp

primrec invoke :: "u32 \<Rightarrow> libcall \<Rightarrow> call_regs \<Rightarrow> call_regs" where
  "invoke restorer L_test = lib_test"
| "invoke restorer (L_exit a) = lib_exit a"
| "invoke restorer L_fork = lib_fork"
| "invoke restorer (L_waitpid a b) = lib_waitpid a b"
| "invoke restorer (L_execve a b c) = lib_execve a b c"
| "invoke restorer (L_kill a b) = lib_kill a b"
| "invoke restorer (L_alarm a) = lib_alarm a"
| "invoke restorer L_yield = lib_yield"
| "invoke restorer (L_sleep a) = lib_sleep a"
| "invoke restorer L_getpid = lib_getpid"
| "invoke restorer L_getppid = lib_getppid"
| "invoke restorer (L_setpgid a b) = lib_setpgid a b"
| "invoke restorer L_getpgrp = lib_getpgrp"
| "invoke restorer L_setsid = lib_setsid"
| "invoke restorer L_stty = lib_stty"
| "invoke restorer L_gtty = lib_gtty"
| "invoke restorer (L_ioctl a b c) = lib_ioctl a b c"
| "invoke restorer (L_brk a) = lib_brk a"
| "invoke restorer (L_mmap a b c d e f) = lib_mmap a b c d e f"
| "invoke restorer (L_munmap a b) = lib_munmap a b"
| "invoke restorer (L_dup a) = lib_dup a"
| "invoke restorer (L_dup2 a b) = lib_dup2 a b"
| "invoke restorer (L_pipe a) = lib_pipe a"
| "invoke restorer (L_open a b c) = lib_open a b c"
| "invoke restorer (L_create a b) = lib_create a b"
| "invoke restorer (L_close a) = lib_close a"
| "invoke restorer (L_read a b c) = lib_read a b c"
| "invoke restorer (L_write a b c) = lib_write a b c"
| "invoke restorer (L_readdir a b c) = lib_readdir a b c"
| "invoke restorer (L_lseek a b c) = lib_lseek a b c"
| "invoke restorer (L_getcwd a b) = lib_getcwd a b"
| "invoke restorer (L_chdir a) = lib_chdir a"
| "invoke restorer (L_chroot a) = lib_chroot a"
| "invoke restorer (L_mkdir a b) = lib_mkdir a b"
| "invoke restorer (L_rmdir a) = lib_rmdir a"
| "invoke restorer (L_link a b) = lib_link a b"
| "invoke restorer (L_unlink a) = lib_unlink a"
| "invoke restorer (L_mount a b c) = lib_mount a b c"
| "invoke restorer (L_umount a) = lib_umount a"
| "invoke restorer (L_mknod a b c) = lib_mknod a b c"
| "invoke restorer L_time = lib_time"
| "invoke restorer (L_umask a) = lib_umask a"
| "invoke restorer (L_stat a b) = lib_stat a b"
| "invoke restorer (L_fstat a b) = lib_fstat a b"
| "invoke restorer (L_mkfs a b) = lib_mkfs a b"
| "invoke restorer L_sgetmask = lib_sgetmask"
| "invoke restorer (L_ssetmask a) = lib_ssetmask a"
| "invoke restorer (L_signal a b) = lib_signal a b restorer"
| "invoke restorer (L_sigaction a b c) = lib_sigaction a b c"
| "invoke restorer L_setpgrp = lib_setpgrp"

primrec meant :: "libcall \<Rightarrow> sys_handler" where
  "meant L_test = H_sys_test"
| "meant (L_exit a) = H_task_exit"
| "meant L_fork = H_task_fork"
| "meant (L_waitpid a b) = H_task_waitpid"
| "meant (L_execve a b c) = H_sys_execve"
| "meant (L_kill a b) = H_sys_kill"
| "meant (L_alarm a) = H_sys_alarm"
| "meant L_yield = H_task_yield"
| "meant (L_sleep a) = H_task_sleep"
| "meant L_getpid = H_sys_getpid"
| "meant L_getppid = H_sys_getppid"
| "meant (L_setpgid a b) = H_sys_setpgid"
| "meant L_getpgrp = H_sys_getpgrp"
| "meant L_setsid = H_sys_setsid"
| "meant L_stty = H_sys_stty"
| "meant L_gtty = H_sys_gtty"
| "meant (L_ioctl a b c) = H_sys_ioctl"
| "meant (L_brk a) = H_sys_brk"
| "meant (L_mmap a b c d e f) = H_sys_mmap"
| "meant (L_munmap a b) = H_sys_munmap"
| "meant (L_dup a) = H_sys_dup"
| "meant (L_dup2 a b) = H_sys_dup2"
| "meant (L_pipe a) = H_sys_pipe"
| "meant (L_open a b c) = H_sys_open"
| "meant (L_create a b) = H_sys_create"
| "meant (L_close a) = H_sys_close"
| "meant (L_read a b c) = H_sys_read"
| "meant (L_write a b c) = H_sys_write"
| "meant (L_readdir a b c) = H_sys_readdir"
| "meant (L_lseek a b c) = H_sys_lseek"
| "meant (L_getcwd a b) = H_sys_getcwd"
| "meant (L_chdir a) = H_sys_chdir"
| "meant (L_chroot a) = H_sys_chroot"
| "meant (L_mkdir a b) = H_sys_mkdir"
| "meant (L_rmdir a) = H_sys_rmdir"
| "meant (L_link a b) = H_sys_link"
| "meant (L_unlink a) = H_sys_unlink"
| "meant (L_mount a b c) = H_sys_mount"
| "meant (L_umount a) = H_sys_umount"
| "meant (L_mknod a b c) = H_sys_mknod"
| "meant L_time = H_sys_time"
| "meant (L_umask a) = H_sys_umask"
| "meant (L_stat a b) = H_sys_stat"
| "meant (L_fstat a b) = H_sys_fstat"
| "meant (L_mkfs a b) = H_sys_mkfs"
| "meant L_sgetmask = H_sys_sgetmask"
| "meant (L_ssetmask a) = H_sys_ssetmask"
| "meant (L_signal a b) = H_sys_signal"
| "meant (L_sigaction a b c) = H_sys_sigaction"
| "meant L_setpgrp = H_sys_setpgid"

primrec passed :: "u32 \<Rightarrow> libcall \<Rightarrow> u32 list" where
  "passed restorer L_test = []"
| "passed restorer (L_exit a) = [a]"
| "passed restorer L_fork = []"
| "passed restorer (L_waitpid a b) = [a, b]"
| "passed restorer (L_execve a b c) = [a, b, c]"
| "passed restorer (L_kill a b) = [a, b]"
| "passed restorer (L_alarm a) = [a]"
| "passed restorer L_yield = []"
| "passed restorer (L_sleep a) = [a]"
| "passed restorer L_getpid = []"
| "passed restorer L_getppid = []"
| "passed restorer (L_setpgid a b) = [a, b]"
| "passed restorer L_getpgrp = []"
| "passed restorer L_setsid = []"
| "passed restorer L_stty = []"
| "passed restorer L_gtty = []"
| "passed restorer (L_ioctl a b c) = [a, b, c]"
| "passed restorer (L_brk a) = [a]"
| "passed restorer (L_mmap a b c d e f) = [a, b, c, d, e, f]"
| "passed restorer (L_munmap a b) = [a, b]"
| "passed restorer (L_dup a) = [a]"
| "passed restorer (L_dup2 a b) = [a, b]"
| "passed restorer (L_pipe a) = [a]"
| "passed restorer (L_open a b c) = [a, b, c]"
| "passed restorer (L_create a b) = [a, b]"
| "passed restorer (L_close a) = [a]"
| "passed restorer (L_read a b c) = [a, b, c]"
| "passed restorer (L_write a b c) = [a, b, c]"
| "passed restorer (L_readdir a b c) = [a, b, c]"
| "passed restorer (L_lseek a b c) = [a, b, c]"
| "passed restorer (L_getcwd a b) = [a, b]"
| "passed restorer (L_chdir a) = [a]"
| "passed restorer (L_chroot a) = [a]"
| "passed restorer (L_mkdir a b) = [a, b]"
| "passed restorer (L_rmdir a) = [a]"
| "passed restorer (L_link a b) = [a, b]"
| "passed restorer (L_unlink a) = [a]"
| "passed restorer (L_mount a b c) = [a, b, c]"
| "passed restorer (L_umount a) = [a]"
| "passed restorer (L_mknod a b c) = [a, b, c]"
| "passed restorer L_time = []"
| "passed restorer (L_umask a) = [a]"
| "passed restorer (L_stat a b) = [a, b]"
| "passed restorer (L_fstat a b) = [a, b]"
| "passed restorer (L_mkfs a b) = [a, b]"
| "passed restorer L_sgetmask = []"
| "passed restorer (L_ssetmask a) = [a]"
| "passed restorer (L_signal a b) = [a, b, restorer]"
| "passed restorer (L_sigaction a b c) = [a, b, c]"
| "passed restorer L_setpgrp = [0, 0]"

lemma numbers_distinct: "distinct (map fst (rev syscall_init))"
  by code_simp

lemma table_entry: "(nr, h) \<in> set syscall_init \<Longrightarrow> syscall_table nr = h"
  using map_of_is_SomeI [OF numbers_distinct, of nr h] by (simp add: syscall_table_def)

lemma entries_valid: "list_all (\<lambda>(nr, h). nr < 256 \<and> h \<noteq> H_default) syscall_init"
  by code_simp

lemma gate_hit:
  assumes "(eax r, h) \<in> set syscall_init"
  shows "gate r = Some (h, take (arity h) [ebx r, ecx r, edx r, esi r, edi r, ebp r])"
  using table_entry [OF assms] entries_valid assms
  by (auto simp: gate_def syscall_check_def SYSCALL_SIZE_def Let_def list_all_iff)

text \<open>C20: Each function of the system call library leads to the kernel function of its name, with its
  arguments in their order and exactly as many as that function reads.\<close>

theorem library_calls_reach_kernel:
  "gate (invoke restorer c r) = Some (meant c, passed restorer c)"
proof -
  let ?r = "invoke restorer c r"
  have "(eax ?r, meant c) \<in> set syscall_init"
    by (cases c; simp add: c_defs syscall_init_def)
  moreover have "take (arity (meant c)) [ebx ?r, ecx ?r, edx ?r, esi ?r, edi ?r, ebp ?r] = passed restorer c"
    by (cases c; simp add: c_defs)
  ultimately show ?thesis by (simp add: gate_hit)
qed

text \<open>A number without a function stops the kernel, whoever calls it.\<close>

lemma unknown_call_stops:
  "eax r \<notin> fst ` set syscall_init \<Longrightarrow> gate r = None"
  by (cases "map_of (rev syscall_init) (eax r)")
    (force simp: gate_def syscall_table_def syscall_default_def Let_def dest!: map_of_SomeD split: Option.bind_split)+

end
