(* ===== verification/Keyboard.thy ===== *)
theory Keyboard
  imports Fifo Task
begin

section \<open>Keyboard and terminal: \<open>kernel/keyboard.c\<close>, \<open>kernel/tty.c\<close>\<close>

text \<open>
  \<open>kbd\<close> holds the static variables of \<open>keyboard.c\<close>; the states of a key, columns 2 and 3 of \<open>keymap\<close>, are
  the pair in \<open>keys\<close>, its characters, which never change, the constant \<open>keymap\<close>. The byte the chip gives for
  an interrupt is an argument of the handler, and \<open>leds\<close> what was last sent to the chip; the loops that
  wait for the chip are left out. The state of the scheduler is that of \<open>Task\<close>. \<open>dwr\<close> and \<open>rdv\<close> are
  \<open>device_write\<close> and \<open>device_read\<close>. A reader that finds the ring empty blocks; when it runs again it tests
  the ring again, so a pass of that loop is one step.
\<close>

subsection \<open>The terminal\<close>

record tty =
  tty_rdev :: int
  tty_wdev :: int
  tty_pgid :: int

definition TIOCSPGRP :: int where [c_defs]: "TIOCSPGRP = 0x5410"
definition SIGINT :: int where [c_defs]: "SIGINT = 2"

text \<open>\<open>kill\<close> is the system call of this name, made from within the kernel.\<close>

definition intr_one :: "tty \<Rightarrow> nat \<Rightarrow> 'r ks \<Rightarrow> 'r ks option" where
  "intr_one tt i s = (case task_of i s of
       None \<Rightarrow> Some s
     | Some t \<Rightarrow> if pgid t \<noteq> tty_pgid tt then Some s
         else do { (_, s) \<leftarrow> sys_kill (int (pid t)) SIGINT s; Some s })"

definition tty_intr :: "tty \<Rightarrow> 'r ks \<Rightarrow> 'r ks option" where
  "tty_intr tt s = (if tty_pgid tt = 0 then Some s else foldM (intr_one tt) [0..<TASK_NR] s)"

text \<open>\<open>"\x1b[2J\x1b[0;0H\r"\<close>, of which 12 bytes are written.\<close>

definition clear_seq :: bytes where
  "clear_seq = [0x1B, 0x5B, 0x32, 0x4A, 0x1B, 0x5B, 0x30, 0x3B, 0x30, 0x48, 0x0D, 0]"

definition tty_rx_notify :: "(int \<Rightarrow> bytes \<Rightarrow> 'r ks \<Rightarrow> 'r ks option) \<Rightarrow> tty \<Rightarrow> u8 \<Rightarrow> bool \<Rightarrow> 'r ks \<Rightarrow> (int \<times> u8 \<times> 'r ks) option" where
  "tty_rx_notify dwr tt ch ctrl s = (
     let ch = (if ch = 0x0D then 0x0A else ch) in
     if \<not> ctrl then Some (0, ch, s)
     else if ch = 0x63 \<or> ch = 0x43 then do { s \<leftarrow> tty_intr tt s; Some (1, 0x0A, s) }
     else if ch = 0x6C \<or> ch = 0x4C then do { s \<leftarrow> dwr (tty_wdev tt) clear_seq s; Some (0, 0x0D, s) }
     else Some (1, ch, s))"

definition tty_read :: "(int \<Rightarrow> u32 \<Rightarrow> 's \<Rightarrow> (bytes \<times> 's) option) \<Rightarrow> tty \<Rightarrow> u32 \<Rightarrow> 's \<Rightarrow> (bytes \<times> 's) option" where
  "tty_read rdv tt n s = rdv (tty_rdev tt) n s"

definition tty_write :: "(int \<Rightarrow> bytes \<Rightarrow> 's \<Rightarrow> 's option) \<Rightarrow> tty \<Rightarrow> bytes \<Rightarrow> 's \<Rightarrow> 's option" where
  "tty_write dwr tt buf s = dwr (tty_wdev tt) buf s"

definition tty_ioctl :: "tty \<Rightarrow> int \<Rightarrow> int \<Rightarrow> int \<times> tty" where
  "tty_ioctl tt cmd args =
     (neg_errno EINVAL, if cmd = TIOCSPGRP then tt\<lparr>tty_pgid := args\<rparr> else tt)"

definition sys_stty :: int where "sys_stty = neg_errno ENOSYS"
definition sys_gtty :: int where "sys_gtty = neg_errno ENOSYS"

text \<open>The numbers of the keyboard and of the console, as \<open>device_find\<close> gives them.\<close>

definition tty_init :: "int \<Rightarrow> int \<Rightarrow> tty \<Rightarrow> tty" where
  "tty_init kbd_dev con_dev tt = tt\<lparr>tty_rdev := kbd_dev, tty_wdev := con_dev\<rparr>"

subsection \<open>The keyboard\<close>

definition KEY_CTRL_L :: nat where [c_defs]: "KEY_CTRL_L = 0x1D"
definition KEY_SHIFT_L :: nat where [c_defs]: "KEY_SHIFT_L = 0x2A"
definition KEY_SLASH :: nat where [c_defs]: "KEY_SLASH = 0x35"
definition KEY_SHIFT_R :: nat where [c_defs]: "KEY_SHIFT_R = 0x36"
definition KEY_ALT_L :: nat where [c_defs]: "KEY_ALT_L = 0x38"
definition KEY_CAPSLOCK :: nat where [c_defs]: "KEY_CAPSLOCK = 0x3A"
definition KEY_NUMLOCK :: nat where [c_defs]: "KEY_NUMLOCK = 0x45"
definition KEY_SCRLOCK :: nat where [c_defs]: "KEY_SCRLOCK = 0x46"
definition KEY_PRINT_SCREEN :: nat where [c_defs]: "KEY_PRINT_SCREEN = 0x5F"
definition CODE_PRINT_SCREEN_DOWN :: nat where [c_defs]: "CODE_PRINT_SCREEN_DOWN = 0xB7"
definition INV :: u8 where [c_defs]: "INV = 0"
definition KBD_BUFFER_SIZE :: u32 where [c_defs]: "KBD_BUFFER_SIZE = 64"

text \<open>The characters of a key without and with shift.\<close>

definition keymap :: "(u8 \<times> u8) list" where
  "keymap = [
     (0, 0), (27, 27), (49, 33), (50, 64), (51, 35), (52, 36), (53, 37), (54, 94),
     (55, 38), (56, 42), (57, 40), (48, 41), (45, 95), (61, 43), (8, 8), (9, 9),
     (113, 81), (119, 87), (101, 69), (114, 82), (116, 84), (121, 89), (117, 85), (105, 73),
     (111, 79), (112, 80), (91, 123), (93, 125), (10, 10), (0, 0), (97, 65), (115, 83),
     (100, 68), (102, 70), (103, 71), (104, 72), (106, 74), (107, 75), (108, 76), (59, 58),
     (39, 34), (96, 126), (0, 0), (92, 124), (122, 90), (120, 88), (99, 67), (118, 86),
     (98, 66), (110, 78), (109, 77), (44, 60), (46, 62), (47, 63), (0, 0), (42, 42),
     (0, 0), (32, 32), (0, 0), (0, 0), (0, 0), (0, 0), (0, 0), (0, 0),
     (0, 0), (0, 0), (0, 0), (0, 0), (0, 0), (0, 0), (0, 0), (55, 0),
     (56, 0), (57, 0), (45, 45), (52, 0), (53, 0), (54, 0), (43, 43), (49, 0),
     (50, 0), (51, 0), (48, 0), (46, 127), (0, 0), (0, 0), (0, 0), (0, 0),
     (0, 0), (0, 0), (0, 0), (0, 0), (0, 0), (0, 0), (0, 0), (0, 0)]"

record kbd =
  keys :: "(bool \<times> bool) list"
  capslock_state :: bool
  scrlock_state :: bool
  numlock_state :: bool
  extcode_state :: bool
  kbd_fifo :: fifo
  kbd_waiter :: "nat option"
  leds :: u8

definition ctrl_state :: "kbd \<Rightarrow> bool option" where
  "ctrl_state k = do { (a, b) \<leftarrow> rd (keys k) KEY_CTRL_L; Some (a \<or> b) }"

definition alt_state :: "kbd \<Rightarrow> bool option" where
  "alt_state k = do { (a, b) \<leftarrow> rd (keys k) KEY_ALT_L; Some (a \<or> b) }"

definition shift_state :: "kbd \<Rightarrow> bool option" where
  "shift_state k = do {
     (a, _) \<leftarrow> rd (keys k) KEY_SHIFT_L;
     (b, _) \<leftarrow> rd (keys k) KEY_SHIFT_R;
     Some (a \<or> b) }"

definition set_leds :: "kbd \<Rightarrow> kbd" where
  "set_leds k = k\<lparr>leds := (if capslock_state k then 4 else 0) OR (if numlock_state k then 2 else 0)
     OR (if scrlock_state k then 1 else 0)\<rparr>"

text \<open>\<open>keymap[makecode][ext] = v\<close>: column 3 for an extended code.\<close>

definition set_key :: "nat \<Rightarrow> bool \<Rightarrow> bool \<Rightarrow> kbd \<Rightarrow> kbd option" where
  "set_key mk ext v k = do {
     (a, b) \<leftarrow> rd (keys k) mk;
     ks \<leftarrow> wr (keys k) mk (if ext then (a, v) else (v, b));
     Some (k\<lparr>keys := ks\<rparr>) }"

definition toggle_locks :: "nat \<Rightarrow> kbd \<Rightarrow> kbd" where
  "toggle_locks mk k =
    (if mk = KEY_NUMLOCK then set_leds (k\<lparr>numlock_state := \<not> numlock_state k\<rparr>)
     else if mk = KEY_CAPSLOCK then set_leds (k\<lparr>capslock_state := \<not> capslock_state k\<rparr>)
     else if mk = KEY_SCRLOCK then set_leds (k\<lparr>scrlock_state := \<not> scrlock_state k\<rparr>)
     else k)"

definition key_char :: "nat \<Rightarrow> bool \<Rightarrow> kbd \<Rightarrow> u8 option" where
  "key_char mk ext k = do {
     (lower, upper) \<leftarrow> rd keymap mk;
     held \<leftarrow> shift_state k;
     let shift = (capslock_state k \<and> 0x61 \<le> lower \<and> lower \<le> 0x7A);
     let shift = (if held then \<not> shift else shift);
     Some (if ext \<and> mk \<noteq> KEY_SLASH then upper else if shift then upper else lower) }"

text \<open>Handing a character to the reader that waits, if there is one.\<close>

definition key_arrived :: "u8 \<Rightarrow> kbd \<times> 'r ks \<Rightarrow> (kbd \<times> 'r ks) option" where
  "key_arrived ch ks = (case ks of (k, s) \<Rightarrow> do {
     f \<leftarrow> fifo_put (kbd_fifo k) ch;
     let k = k\<lparr>kbd_fifo := f\<rparr>;
     (case kbd_waiter k of
        None \<Rightarrow> Some (k, s)
      | Some w \<Rightarrow> do { s \<leftarrow> task_unblock w (errno_val EOK) s; Some (k\<lparr>kbd_waiter := None\<rparr>, s) }) })"

definition keyboard_handler :: "(int \<Rightarrow> bytes \<Rightarrow> 'r ks \<Rightarrow> 'r ks option) \<Rightarrow> tty \<Rightarrow> u8 \<Rightarrow> kbd \<times> 'r ks \<Rightarrow> (kbd \<times> 'r ks) option" where
  "keyboard_handler dwr tt code ks = (case ks of (k, s) \<Rightarrow>
     if code = 0xE0 then Some (k\<lparr>extcode_state := True\<rparr>, s)
     else
       let ext = extcode_state k;
           k = (if ext then k\<lparr>extcode_state := False\<rparr> else k);
           mk = unat (code AND 0x7F);
           mk = (if mk = CODE_PRINT_SCREEN_DOWN then KEY_PRINT_SCREEN else mk) in
       if mk > KEY_PRINT_SCREEN then Some (k, s)
       else if code AND 0x80 \<noteq> 0 then do { k \<leftarrow> set_key mk ext False k; Some (k, s) }
       else do {
         k \<leftarrow> set_key mk ext True k;
         let k = toggle_locks mk k;
         ch \<leftarrow> key_char mk ext k;
         if ch = INV then Some (k, s)
         else do {
           ctrl \<leftarrow> ctrl_state k;
           (r, ch, s) \<leftarrow> tty_rx_notify dwr tt ch ctrl s;
           if r > 0 then Some (k, s) else key_arrived ch (k, s) } })"

text \<open>One pass of the loop of \<open>keyboard_read\<close>: a byte, or none and the reader blocked.\<close>

definition keyboard_read_pass :: "kbd \<times> 'r ks \<Rightarrow> (u8 option \<times> kbd \<times> 'r ks) option" where
  "keyboard_read_pass ks = (case ks of (k, s) \<Rightarrow>
     if fifo_empty (kbd_fifo k) then do {
       s' \<leftarrow> task_block (running s) block_list TASK_BLOCKED TIMELESS s;
       Some (None, k\<lparr>kbd_waiter := Some (running s)\<rparr>, s') }
     else do {
       (b, f) \<leftarrow> fifo_get (kbd_fifo k);
       Some (Some b, k\<lparr>kbd_fifo := f\<rparr>, s) })"

definition keyboard_init :: "bytes \<Rightarrow> kbd" where
  "keyboard_init buf = set_leds
     \<lparr>keys = replicate (length keymap) (False, False), capslock_state = False, scrlock_state = False,
      numlock_state = False, extcode_state = False, kbd_fifo = fifo_init buf KBD_BUFFER_SIZE,
      kbd_waiter = None, leds = 0\<rparr>"

subsection \<open>What a key gives\<close>

lemma plain_codes: "\<forall>n\<in>set [0..<96]. (word_of_nat n :: u8) AND 0x7F = word_of_nat n \<and> (word_of_nat n :: u8) AND 0x80 = 0
    \<and> (word_of_nat n :: u8) \<noteq> 0xE0 \<and> unat (word_of_nat n :: u8) = n"
  by code_simp

lemma plain_code:
  assumes "code < (0x60 :: u8)"
  shows "code AND 0x7F = code" "code AND 0x80 = 0" "code \<noteq> 0xE0" "unat code < 96"
proof -
  have u: "unat code < 96" using assms by (simp add: word_less_nat_alt)
  then have "unat code \<in> set [0..<96]" by simp
  from bspec [OF plain_codes this] show "code AND 0x7F = code" "code AND 0x80 = 0" "code \<noteq> 0xE0" by simp_all
  show "unat code < 96" by (rule u)
qed

lemma length_keymap [simp]: "length keymap = 96"
  by (simp add: keymap_def)

lemma keymap_no_return: "list_all (\<lambda>(lo, up). lo \<noteq> 0x0D \<and> up \<noteq> 0x0D) keymap"
  by (simp add: keymap_def)

lemma keymap_modifiers: "\<forall>i\<in>{KEY_CTRL_L, KEY_SHIFT_L, KEY_SHIFT_R, KEY_CAPSLOCK, KEY_NUMLOCK, KEY_SCRLOCK}. keymap ! i = (0, 0)"
  by (simp add: keymap_def c_defs)

lemma set_key_ok:
  assumes "length (keys k) = 96" "i < 96"
  shows "set_key i False v k = Some (k\<lparr>keys := (keys k)[i := (v, snd (keys k ! i))]\<rparr>)"
  using assms by (simp add: set_key_def rd_def wr_def split: prod.split)

lemma key_states_other:
  assumes "i \<notin> {KEY_CTRL_L, KEY_SHIFT_L, KEY_SHIFT_R}"
  shows "shift_state (k\<lparr>keys := (keys k)[i := p]\<rparr>) = shift_state k"
    "ctrl_state (k\<lparr>keys := (keys k)[i := p]\<rparr>) = ctrl_state k"
  using assms by (simp_all add: shift_state_def ctrl_state_def rd_def)

lemma toggle_locks_other:
  "i \<notin> {KEY_CAPSLOCK, KEY_NUMLOCK, KEY_SCRLOCK} \<Longrightarrow> toggle_locks i k = k"
  by (simp add: toggle_locks_def)

text \<open>The reader that waits for a key, and its waking.\<close>

definition waits_for_key :: "nat \<Rightarrow> 'r ks \<Rightarrow> bool" where
  "waits_for_key w s \<longleftrightarrow> switch_inv s
     \<and> (\<exists>t. task_of w s = Some t \<and> state t \<noteq> TASK_RUNNING \<and> timeout_ok s t)"

definition wake_reader :: "nat option \<Rightarrow> 'r ks \<Rightarrow> 'r ks" where
  "wake_reader rdr s = (case rdr of None \<Rightarrow> s | Some w \<Rightarrow>
     (case task_of w s of None \<Rightarrow> s | Some t \<Rightarrow> woken w t (errno_val EOK) s))"

lemma key_arrived_ok:
  assumes "fifo_wf (kbd_fifo k)" "\<And>w. kbd_waiter k = Some w \<Longrightarrow> waits_for_key w s"
  shows "\<exists>f'. key_arrived ch (k, s) = Some (k\<lparr>kbd_fifo := f', kbd_waiter := None\<rparr>, wake_reader (kbd_waiter k) s) \<and> fifo_wf f'
    \<and> fifo_contents f' = (if length (fifo_contents (kbd_fifo k)) = fifo_cap (kbd_fifo k)
         then tl (fifo_contents (kbd_fifo k)) else fifo_contents (kbd_fifo k)) @ [ch]"
proof -
  obtain f' where f': "fifo_put (kbd_fifo k) ch = Some f'" "fifo_wf f'"
    "fifo_contents f' = (if length (fifo_contents (kbd_fifo k)) = fifo_cap (kbd_fifo k)
         then tl (fifo_contents (kbd_fifo k)) else fifo_contents (kbd_fifo k)) @ [ch]"
    using fifo_put_contents [OF assms(1), of ch] by auto
  have "key_arrived ch (k, s) = Some (k\<lparr>kbd_fifo := f', kbd_waiter := None\<rparr>, wake_reader (kbd_waiter k) s)"
  proof (cases "kbd_waiter k")
    case None
    then have "k\<lparr>kbd_fifo := f', kbd_waiter := None\<rparr> = k\<lparr>kbd_fifo := f'\<rparr>" by (cases k) simp
    then show ?thesis using None f'(1) by (simp add: key_arrived_def wake_reader_def)
  next
    case (Some w)
    then obtain t where t: "switch_inv s" "task_of w s = Some t" "state t \<noteq> TASK_RUNNING" "timeout_ok s t"
      using assms(2) by (auto simp: waits_for_key_def)
    show ?thesis using Some f'(1) task_unblock_spec [OF t] t(2) by (simp add: key_arrived_def wake_reader_def)
  qed
  then show ?thesis using f' by blast
qed

text \<open>C21: A key that has a character, pressed without Ctrl and not as an extended code: the handler puts exactly one
  character into the ring, the upper one when either shift is held or the capital lock is on for a letter, but not
  both, and notes that the key is down. A full ring loses its oldest character. The locks and the LEDs stay as they
  are; the reader that waits for a key, if there is one, is made ready, and nothing else of the tasks changes.\<close>

theorem typed_character:
  assumes k: "length (keys k) = 96" "fifo_wf (kbd_fifo k)" "\<not> extcode_state k"
    and r: "\<And>w. kbd_waiter k = Some w \<Longrightarrow> waits_for_key w s"
    and m: "ctrl_state k = Some False" "shift_state k = Some held"
    and c: "code < 0x60" "keymap ! unat code = (lo, up)"
      "ch = (if held \<noteq> (capslock_state k \<and> 0x61 \<le> lo \<and> lo \<le> 0x7A) then up else lo)" "ch \<noteq> INV"
  shows "\<exists>f'. keyboard_handler dwr tt code (k, s) = Some
      (k\<lparr>keys := (keys k)[unat code := (True, snd (keys k ! unat code))], kbd_fifo := f', kbd_waiter := None\<rparr>,
       wake_reader (kbd_waiter k) s)
    \<and> fifo_contents f' = (if length (fifo_contents (kbd_fifo k)) = fifo_cap (kbd_fifo k)
         then tl (fifo_contents (kbd_fifo k)) else fifo_contents (kbd_fifo k)) @ [ch]
    \<and> fifo_wf f'"
proof -
  note w = plain_code [OF c(1)]
  let ?i = "unat code"
  let ?k = "k\<lparr>keys := (keys k)[?i := (True, snd (keys k ! ?i))]\<rparr>"
  have nomod: "?i \<notin> {KEY_CTRL_L, KEY_SHIFT_L, KEY_SHIFT_R, KEY_CAPSLOCK, KEY_NUMLOCK, KEY_SCRLOCK}"
    using keymap_modifiers c by (auto simp: INV_def)
  have "(lo, up) \<in> set keymap" using w(4) c(2) by (metis length_keymap nth_mem)
  then have cr: "ch \<noteq> 0x0D" using keymap_no_return c(3) by (auto simp: list_all_iff)
  have st: "shift_state ?k = Some held" "ctrl_state ?k = Some False"
    using key_states_other [of ?i k] nomod m by auto
  have kc: "key_char ?i False ?k = Some ch"
    using w(4) c st(1) by (auto simp: key_char_def rd_def Let_def)
  obtain f' where f': "key_arrived ch (?k, s) = Some (?k\<lparr>kbd_fifo := f', kbd_waiter := None\<rparr>, wake_reader (kbd_waiter k) s)"
    "fifo_wf f'" "fifo_contents f' = (if length (fifo_contents (kbd_fifo k)) = fifo_cap (kbd_fifo k)
         then tl (fifo_contents (kbd_fifo k)) else fifo_contents (kbd_fifo k)) @ [ch]"
    using key_arrived_ok [of ?k s ch] k r by auto
  have "keyboard_handler dwr tt code (k, s) = Some (?k\<lparr>kbd_fifo := f', kbd_waiter := None\<rparr>, wake_reader (kbd_waiter k) s)"
    using w k(3) nomod st(2) kc c(4) cr f'(1)
    by (simp add: keyboard_handler_def set_key_ok [OF k(1) w(4)] toggle_locks_other tty_rx_notify_def c_defs Let_def)
  then show ?thesis using f' by auto
qed

text \<open>With the capital lock on, and task 2 waiting: the key of the letter a gives A, and the key 1 still gives 1;
  the reader is ready then.\<close>

definition caps_kbd :: kbd where
  "caps_kbd = (keyboard_init (replicate 64 0))\<lparr>capslock_state := True, kbd_waiter := Some 2\<rparr>"

lemma caps_kbd_facts: "length (keys caps_kbd) = 96" "kbd_waiter caps_kbd = Some 2"
  "\<not> extcode_state caps_kbd" "ctrl_state caps_kbd = Some False" "shift_state caps_kbd = Some False" "capslock_state caps_kbd"
  by (simp_all add: caps_kbd_def keyboard_init_def set_leds_def ctrl_state_def shift_state_def rd_def c_defs)

lemma caps_kbd_ring: "fifo_wf (kbd_fifo caps_kbd)" "fifo_contents (kbd_fifo caps_kbd) = []"
  "\<not> 0 = fifo_cap (kbd_fifo caps_kbd)"
proof -
  have f: "kbd_fifo caps_kbd = fifo_init (replicate 64 0) 64"
    by (simp add: caps_kbd_def keyboard_init_def set_leds_def KBD_BUFFER_SIZE_def)
  show "fifo_wf (kbd_fifo caps_kbd)" "fifo_contents (kbd_fifo caps_kbd) = []"
    using fifo_init_wf [of 64 "replicate 64 0"] by (simp_all add: f)
  show "\<not> 0 = fifo_cap (kbd_fifo caps_kbd)" by (simp add: f fifo_cap_def fifo_init_def)
qed

lemma keymap_a_1: "keymap ! unat (0x1E :: u8) = (0x61, 0x41)" "keymap ! unat (0x02 :: u8) = (0x31, 0x21)"
  "(0x1E :: u8) < 0x60" "(0x02 :: u8) < 0x60" "(0x41 :: u8) \<noteq> INV" "(0x31 :: u8) \<noteq> INV"
  by code_simp+

lemma sample_reader: "waits_for_key 2 sample_ks"
  "\<exists>t. task_of 2 (wake_reader (Some 2) sample_ks) = Some t \<and> state t = TASK_READY"
proof -
  show "waits_for_key 2 sample_ks"
    using sample_sched_inv by (auto simp: waits_for_key_def sched_inv_def sample_tasks timeout_ok_def)
  show "\<exists>t. task_of 2 (wake_reader (Some 2) sample_ks) = Some t \<and> state t = TASK_READY"
    by (simp add: wake_reader_def sample_tasks task_of_woken)
qed

theorem typed_character_witness:
  "\<exists>dwr tt. (\<exists>k' s' t. keyboard_handler dwr tt 0x1E (caps_kbd, sample_ks) = Some (k', s')
      \<and> fifo_contents (kbd_fifo k') = [0x41] \<and> task_of 2 s' = Some t \<and> state t = TASK_READY)
   \<and> (\<exists>k' s'. keyboard_handler dwr tt 0x02 (caps_kbd, sample_ks) = Some (k', s') \<and> fifo_contents (kbd_fifo k') = [0x31])"
proof -
  have a: "(0x41 :: u8) = (if False \<noteq> (capslock_state caps_kbd \<and> 0x61 \<le> (0x61 :: u8) \<and> (0x61 :: u8) \<le> 0x7A) then 0x41 else 0x61)"
    "(0x31 :: u8) = (if False \<noteq> (capslock_state caps_kbd \<and> 0x61 \<le> (0x31 :: u8) \<and> (0x31 :: u8) \<le> 0x7A) then 0x21 else 0x31)"
    using caps_kbd_facts(6) by simp_all
  have w: "\<And>w. kbd_waiter caps_kbd = Some w \<Longrightarrow> waits_for_key w sample_ks" using sample_reader(1) caps_kbd_facts(2) by simp
  note one = typed_character [OF caps_kbd_facts(1) caps_kbd_ring(1) caps_kbd_facts(3) w caps_kbd_facts(4,5) keymap_a_1(3) keymap_a_1(1) a(1) keymap_a_1(5),
      of "\<lambda>_ _. Some" undefined, unfolded caps_kbd_facts(2)]
  note two = typed_character [OF caps_kbd_facts(1) caps_kbd_ring(1) caps_kbd_facts(3) w caps_kbd_facts(4,5) keymap_a_1(4) keymap_a_1(2) a(2) keymap_a_1(6),
      of "\<lambda>_ _. Some" undefined, unfolded caps_kbd_facts(2)]
  obtain k1 :: kbd where 1: "keyboard_handler (\<lambda>_ _. Some) undefined 0x1E (caps_kbd, sample_ks) = Some (k1, wake_reader (Some 2) sample_ks)"
    "fifo_contents (kbd_fifo k1) = [0x41]" using one by (auto simp: caps_kbd_ring(2,3))
  obtain k2 :: kbd where 2: "keyboard_handler (\<lambda>_ _. Some) undefined 0x02 (caps_kbd, sample_ks) = Some (k2, wake_reader (Some 2) sample_ks)"
    "fifo_contents (kbd_fifo k2) = [0x31]" using two by (auto simp: caps_kbd_ring(2,3))
  show ?thesis using 1 2 sample_reader(2) by blast
qed

end
