(* ===== verification/Execve.thy ===== *)
theory Execve
  imports Namei Memory CString
begin

section \<open>Loading a program: \<open>kernel/execve.c\<close>\<close>

text \<open>
  The state joins the file system, the page tables and the bytes of the address space as the running
  task sees them, \<open>um\<close>, where a page that is not linked has no bytes. What a page holds when it has just
  been linked is the argument \<open>junk\<close>. The kernel writes with the write protection of the processor off
  (nothing sets \<open>WP\<close> in \<open>cr0\<close>), so a write of the kernel only faults where no page is linked. Pointers
  are 32-bit words and their arithmetic wraps around.
\<close>

subsection \<open>The format of programs\<close>

definition ET_EXEC :: u16 where [c_defs]: "ET_EXEC = 2"
definition EM_386 :: u16 where [c_defs]: "EM_386 = 3"
definition EV_CURRENT :: u32 where [c_defs]: "EV_CURRENT = 1"
definition PT_LOAD :: u32 where [c_defs]: "PT_LOAD = 1"
definition PF_X :: u32 where [c_defs]: "PF_X = 1"
definition PF_W :: u32 where [c_defs]: "PF_W = 2"
definition PF_R :: u32 where [c_defs]: "PF_R = 4"
definition TASK_NAME_LEN :: nat where [c_defs]: "TASK_NAME_LEN = 16"

text \<open>The fields of the headers that the code reads.\<close>

record elf_ehdr =
  e_ident :: bytes
  e_type :: u16
  e_machine :: u16
  e_version :: u32
  e_entry :: u32
  e_phoff :: u32
  e_phentsize :: u16
  e_phnum :: u16

record elf_phdr =
  p_type :: u32
  p_offset :: u32
  p_vaddr :: u32
  p_filesz :: u32
  p_memsz :: u32
  p_flags :: u32
  p_align :: u32

definition SIZEOF_EHDR :: nat where [c_defs]: "SIZEOF_EHDR = 52"
definition SIZEOF_PHDR :: nat where [c_defs]: "SIZEOF_PHDR = 32"

text \<open>Numbers in memory, the lowest byte first.\<close>

definition ld16 :: "mem \<Rightarrow> u32 \<Rightarrow> u16 option" where
  "ld16 m a = do { x \<leftarrow> m (unat a); y \<leftarrow> m (unat a + 1); Some (ucast x OR push_bit 8 (ucast y)) }"

definition bytes_of :: "u32 \<Rightarrow> bytes" where
  "bytes_of v = [ucast v, ucast (drop_bit 8 v), ucast (drop_bit 16 v), ucast (drop_bit 24 v)]"

definition word_of :: "u8 \<Rightarrow> u8 \<Rightarrow> u8 \<Rightarrow> u8 \<Rightarrow> u32" where
  "word_of a b c d = ucast a OR push_bit 8 (ucast b) OR push_bit 16 (ucast c) OR push_bit 24 (ucast d)"

definition ld32 :: "mem \<Rightarrow> u32 \<Rightarrow> u32 option" where
  "ld32 m p = do {
     a \<leftarrow> m (unat p); b \<leftarrow> m (unat p + 1); c \<leftarrow> m (unat p + 2); d \<leftarrow> m (unat p + 3);
     Some (word_of a b c d) }"

fun put_mem :: "nat \<Rightarrow> bytes \<Rightarrow> mem \<Rightarrow> mem option" where
  "put_mem p [] m = Some m"
| "put_mem p (b # bs) m = do { m \<leftarrow> store m p b; put_mem (p + 1) bs m }"

definition st32 :: "u32 \<Rightarrow> u32 \<Rightarrow> mem \<Rightarrow> mem option" where
  "st32 p v m = put_mem (unat p) (bytes_of v) m"

fun get_mem :: "mem \<Rightarrow> nat \<Rightarrow> nat \<Rightarrow> bytes option" where
  "get_mem m p 0 = Some []"
| "get_mem m p (Suc n) = do { b \<leftarrow> m p; bs \<leftarrow> get_mem m (p + 1) n; Some (b # bs) }"

definition ehdr_at :: "mem \<Rightarrow> u32 \<Rightarrow> elf_ehdr option" where
  "ehdr_at m a = do {
     ident \<leftarrow> get_mem m (unat a) 16;
     ty \<leftarrow> ld16 m (a + 16);
     mach \<leftarrow> ld16 m (a + 18);
     ver \<leftarrow> ld32 m (a + 20);
     ent \<leftarrow> ld32 m (a + 24);
     off \<leftarrow> ld32 m (a + 28);
     psz \<leftarrow> ld16 m (a + 42);
     pnr \<leftarrow> ld16 m (a + 44);
     Some \<lparr>e_ident = ident, e_type = ty, e_machine = mach, e_version = ver, e_entry = ent, e_phoff = off,
           e_phentsize = psz, e_phnum = pnr\<rparr> }"

definition phdr_at :: "mem \<Rightarrow> u32 \<Rightarrow> elf_phdr option" where
  "phdr_at m a = do {
     ty \<leftarrow> ld32 m a;
     off \<leftarrow> ld32 m (a + 4);
     va \<leftarrow> ld32 m (a + 8);
     fsz \<leftarrow> ld32 m (a + 16);
     msz \<leftarrow> ld32 m (a + 20);
     fl \<leftarrow> ld32 m (a + 24);
     al \<leftarrow> ld32 m (a + 28);
     Some \<lparr>p_type = ty, p_offset = off, p_vaddr = va, p_filesz = fsz, p_memsz = msz, p_flags = fl, p_align = al\<rparr> }"

definition elf_validate :: "elf_ehdr \<Rightarrow> bool" where
  "elf_validate h \<longleftrightarrow> take 7 (e_ident h) = [0x7F, 0x45, 0x4C, 0x46, 1, 1, 1]
     \<and> e_type h = ET_EXEC \<and> e_machine h = EM_386 \<and> e_version h = EV_CURRENT
     \<and> unat (e_phentsize h) = SIZEOF_PHDR"

subsection \<open>The state\<close>

record 'd exec_st = "'d fstate" +
  vm :: mm
  um :: mem
  x_name :: bytes
  x_text :: u32
  x_data :: u32
  x_iexec :: "nat option"

definition fill_page :: "(nat \<Rightarrow> u8) \<Rightarrow> nat \<Rightarrow> mem \<Rightarrow> mem" where
  "fill_page junk p m = (\<lambda>a. if m a = None \<and> p \<le> a \<and> a < p + 4096 then Some (junk a) else m a)"

definition link_user :: "(nat \<Rightarrow> u8) \<Rightarrow> u32 \<Rightarrow> 'd exec_st \<Rightarrow> 'd exec_st option" where
  "link_user junk a s = do {
     m \<leftarrow> link_page a (vm s);
     Some (s\<lparr>vm := m, um := fill_page junk (unat a) (um s)\<rparr>) }"

text \<open>The kernel's access to an address no page is linked at.\<close>

definition fault_in :: "(nat \<Rightarrow> u8) \<Rightarrow> bool \<Rightarrow> nat \<Rightarrow> 'd exec_st \<Rightarrow> 'd exec_st option" where
  "fault_in junk w a s = do {
     f \<leftarrow> page_fault (word_of_nat a) False w (vm s);
     case f of
       Handled m \<Rightarrow> Some (s\<lparr>vm := m, um := fill_page junk (a div 4096 * 4096) (um s)\<rparr>)
     | Killed \<Rightarrow> None }"

fun put_user :: "(nat \<Rightarrow> u8) \<Rightarrow> nat \<Rightarrow> bytes \<Rightarrow> 'd exec_st \<Rightarrow> 'd exec_st option" where
  "put_user junk a [] s = Some s"
| "put_user junk a (b # bs) s = do {
     s \<leftarrow> (if um s a = None then fault_in junk True a s else Some s);
     m \<leftarrow> store (um s) a b;
     put_user junk (a + 1) bs (s\<lparr>um := m\<rparr>) }"

text \<open>\<open>sys_brk\<close>; the pages it unlinks lose their bytes.\<close>

definition set_brk :: "u32 \<Rightarrow> 'd exec_st \<Rightarrow> 'd exec_st option" where
  "set_brk brk s = do {
     (_, m) \<leftarrow> sys_brk brk (vm s);
     let old = unat (t_brk (running (vm s)));
     Some (s\<lparr>vm := m, um := (\<lambda>a. if unat brk \<le> a \<and> a < unat brk + (old - unat brk + 4095) div 4096 * 4096
                            then None else um s a)\<rparr>) }"

definition set_end :: "u32 \<Rightarrow> 'd exec_st \<Rightarrow> 'd exec_st" where
  "set_end e s = s\<lparr>vm := (vm s)\<lparr>running := (running (vm s))\<lparr>t_end := e\<rparr>\<rparr>\<rparr>"

subsection \<open>Segments\<close>

text \<open>\<open>inode_read\<close> into memory of the program.\<close>

definition read_user :: "(nat \<Rightarrow> u8) \<Rightarrow> nat \<Rightarrow> u32 \<Rightarrow> u32 \<Rightarrow> u32 \<Rightarrow> 'd exec_st \<Rightarrow> (int \<times> 'd exec_st) option" where
  "read_user junk i a len offset s = do {
     (n, bs, s) \<leftarrow> inode_read i len offset s;
     s \<leftarrow> put_user junk (unat a) bs s;
     Some (n, s) }"

definition seg_pages :: "elf_phdr \<Rightarrow> u32 option" where
  "seg_pages p = div_round_up (max (p_memsz p) (p_filesz p)) PAGE_SIZE"

definition link_one :: "(nat \<Rightarrow> u8) \<Rightarrow> u32 \<Rightarrow> nat \<Rightarrow> 'd exec_st \<Rightarrow> 'd exec_st option" where
  "link_one junk vaddr i s = do {
     let addr = vaddr + of_nat i * PAGE_SIZE;
     c_assert (addr \<ge> USER_EXEC_ADDR \<and> addr < USER_MMAP_ADDR);
     link_user junk addr s }"

definition protect_one :: "u32 \<Rightarrow> nat \<Rightarrow> 'd exec_st \<Rightarrow> 'd exec_st option" where
  "protect_one vaddr i s = do {
     let addr = vaddr + of_nat i * PAGE_SIZE;
     (a, m) \<leftarrow> get_entry addr False (vm s);
     m \<leftarrow> upd_at a (\<lambda>e. e\<lparr>writable := False, readonly := True\<rparr>) m;
     Some (s\<lparr>vm := m\<rparr>) }"

definition note_segment :: "elf_phdr \<Rightarrow> u32 \<Rightarrow> 'd exec_st \<Rightarrow> 'd exec_st" where
  "note_segment p cnt s =
     (let s = (if p_flags p = PF_R OR PF_X then s\<lparr>x_text := p_vaddr p\<rparr>
               else if p_flags p = PF_R OR PF_W then s\<lparr>x_data := p_vaddr p\<rparr> else s)
      in set_end (max (t_end (running (vm s))) (p_vaddr p + cnt * PAGE_SIZE)) s)"

definition load_segment :: "(nat \<Rightarrow> u8) \<Rightarrow> nat \<Rightarrow> elf_phdr \<Rightarrow> 'd exec_st \<Rightarrow> 'd exec_st option" where
  "load_segment junk i p s = do {
     c_assert (p_align p = 0x1000);
     c_assert (p_vaddr p AND 0xfff = 0);
     cnt \<leftarrow> seg_pages p;
     s \<leftarrow> foldM (link_one junk (p_vaddr p)) [0..<unat cnt] s;
     (_, s) \<leftarrow> read_user junk i (p_vaddr p) (p_filesz p) (p_offset p) s;
     s \<leftarrow> (if p_filesz p < p_memsz p
           then put_user junk (unat (p_vaddr p + p_filesz p)) (replicate (unat (p_memsz p - p_filesz p)) 0) s
           else Some s);
     s \<leftarrow> (if p_flags p AND PF_W = 0 then foldM (protect_one (p_vaddr p)) [0..<unat cnt] s else Some s);
     Some (note_segment p cnt s) }"

text \<open>
  The loop reads the headers where they were put, at the start of the program's own memory: a segment
  loaded there replaces them. The pointer only advances over segments that are loaded. The result is
  \<open>None\<close> when the given number of passes is used up, \<open>Some None\<close> when an assertion or an access to memory
  fails, and \<open>Some (Some s)\<close> when the loop is left. There are at most 65535 passes; \<open>load_elf\<close> gives 65536.
\<close>

fun elf_loop :: "nat \<Rightarrow> (nat \<Rightarrow> u8) \<Rightarrow> nat \<Rightarrow> nat \<Rightarrow> u32 \<Rightarrow> 'd exec_st \<Rightarrow> 'd exec_st option option" where
  "elf_loop 0 junk i k ptr s = None"
| "elf_loop (Suc fuel) junk i k ptr s =
    (case ehdr_at (um s) USER_EXEC_ADDR of None \<Rightarrow> Some None
     | Some h \<Rightarrow>
       if k \<ge> unat (e_phnum h) then Some (Some s)
       else (case ld32 (um s) ptr of None \<Rightarrow> Some None
         | Some ty \<Rightarrow>
           if ty \<noteq> PT_LOAD then elf_loop fuel junk i (k + 1) ptr s
           else (case do { p \<leftarrow> phdr_at (um s) ptr; load_segment junk i p s } of None \<Rightarrow> Some None
             | Some s \<Rightarrow> elf_loop fuel junk i (k + 1) (ptr + of_nat SIZEOF_PHDR) s)))"

definition load_elf :: "(nat \<Rightarrow> u8) \<Rightarrow> nat \<Rightarrow> 'd exec_st \<Rightarrow> (u32 \<times> 'd exec_st) option" where
  "load_elf junk i s = do {
     s \<leftarrow> link_user junk USER_EXEC_ADDR s;
     (n, s) \<leftarrow> read_user junk i USER_EXEC_ADDR (of_nat SIZEOF_EHDR) 0 s;
     c_assert (n = int SIZEOF_EHDR);
     h \<leftarrow> ehdr_at (um s) USER_EXEC_ADDR;
     if \<not> elf_validate h then Some (EOF32, s)
     else do {
       let phdr = USER_EXEC_ADDR + of_nat SIZEOF_EHDR;
       (n, s) \<leftarrow> read_user junk i phdr (ucast (e_phnum h) * ucast (e_phentsize h)) (e_phoff h) s;
       r \<leftarrow> elf_loop 65536 junk i 0 phdr s;
       s \<leftarrow> r;
       h \<leftarrow> ehdr_at (um s) USER_EXEC_ADDR;
       Some (e_entry h, s) } }"

subsection \<open>Arguments and environment\<close>

partial_function (option) count_from :: "mem \<Rightarrow> u32 \<Rightarrow> nat \<Rightarrow> nat option" where
  "count_from m argv i = do {
     p \<leftarrow> ld32 m (argv + 4 * of_nat i);
     if p \<noteq> 0 then count_from m argv (i + 1) else Some i }"

definition count_argv :: "mem \<Rightarrow> u32 \<Rightarrow> nat option" where
  "count_argv m argv = (if argv = 0 then Some 0 else count_from m argv 0)"

text \<open>A string goes on top of the kernel's stack; its address on the user's stack into a slot of the array.\<close>

definition push_string :: "u32 \<Rightarrow> u32 \<Rightarrow> u32 \<times> u32 \<times> mem \<Rightarrow> (u32 \<times> u32 \<times> mem) option" where
  "push_string src slot st = (case st of (ktop, utop, m) \<Rightarrow> do {
     n \<leftarrow> strlen m (unat src);
     let len = of_nat (n + 1);
     let ktop = ktop - len;
     let utop = utop - len;
     m \<leftarrow> memcpy m (unat ktop) (unat src) (n + 1);
     m \<leftarrow> st32 slot utop m;
     Some (ktop, utop, m) })"

definition push_env :: "u32 \<Rightarrow> u32 \<Rightarrow> nat \<Rightarrow> u32 \<times> u32 \<times> mem \<Rightarrow> (u32 \<times> u32 \<times> mem) option" where
  "push_env envp envpk i st = do {
     src \<leftarrow> ld32 (snd (snd st)) (envp + 4 * of_nat i);
     push_string src (envpk + 4 * of_nat i) st }"

text \<open>The loop over the arguments goes down to zero, where it reads the word before the array.\<close>

definition push_arg :: "u32 \<Rightarrow> u32 \<Rightarrow> nat \<Rightarrow> u32 \<times> u32 \<times> mem \<Rightarrow> (u32 \<times> u32 \<times> mem) option" where
  "push_arg argv argvk i st = do {
     src \<leftarrow> ld32 (snd (snd st)) (argv + 4 * (of_nat i - 1));
     push_string src (argvk + 4 * of_nat i) st }"

definition build_stack :: "u32 \<Rightarrow> u32 \<Rightarrow> u32 \<Rightarrow> nat \<Rightarrow> nat \<Rightarrow> u32 \<Rightarrow> u32 \<Rightarrow> mem \<Rightarrow> (u32 \<times> mem) option" where
  "build_stack filename argv envp argc envc pages_end argvk m = do {
     m \<leftarrow> st32 (argvk + 4 * of_nat argc) 0 m;
     let envpk = argvk + 4 * of_nat argc + 4;
     m \<leftarrow> st32 (envpk + 4 * of_nat envc) 0 m;
     st \<leftarrow> foldM (push_env envp envpk) (rev [0..<envc]) (pages_end, USER_STACK_TOP, m);
     st \<leftarrow> foldM (push_arg argv argvk) (rev [0..<argc]) st;
     (ktop, utop, m) \<leftarrow> push_string filename argvk st;
     let ktop = ktop - of_nat ((envc + 1) * 4);
     m \<leftarrow> memcpy m (unat ktop) (unat envpk) ((envc + 1) * 4);
     let ktop = ktop - of_nat ((argc + 1) * 4);
     m \<leftarrow> memcpy m (unat ktop) (unat argvk) ((argc + 1) * 4);
     let ktop = ktop - 4;
     m \<leftarrow> st32 ktop (of_nat argc) m;
     Some (ktop, m) }"

definition copy_argv_envp :: "(nat \<Rightarrow> u8) \<Rightarrow> u32 \<Rightarrow> u32 \<Rightarrow> u32 \<Rightarrow> 'd exec_st \<Rightarrow> (u32 \<times> 'd exec_st) option" where
  "copy_argv_envp junk filename argv envp s = do {
     n \<leftarrow> count_argv (um s) argv;
     let argc = n + 1;
     envc \<leftarrow> count_argv (um s) envp;
     (pages, m) \<leftarrow> alloc_kpage 4 (vm s);
     let pages_end = pages + PAGE_SIZE * 4;
     (argvk, m) \<leftarrow> alloc_kpage 1 m;
     (ktop, mem) \<leftarrow> build_stack filename argv envp argc envc pages_end argvk (um s);
     c_assert (ktop > pages);
     let len = pages_end - ktop;
     let utop = USER_STACK_TOP - len;
     bs \<leftarrow> get_mem mem (unat ktop) (unat len);
     s \<leftarrow> put_user junk (unat utop) bs (s\<lparr>vm := m, um := mem\<rparr>);
     m \<leftarrow> free_kpage argvk 1 (vm s);
     m \<leftarrow> free_kpage pages 4 m;
     Some (utop, s\<lparr>vm := m\<rparr>) }"

subsection \<open>The system call\<close>

text \<open>It returns only when it fails; else the program starts at an address with a stack.\<close>

datatype exec_result = Exec_error int | Exec_start u32 u32

definition string_at :: "mem \<Rightarrow> u32 \<Rightarrow> bytes option" where
  "string_at m p = do { n \<leftarrow> strlen m (unat p); get_mem m (unat p) n }"

definition task_name :: "bytes \<Rightarrow> bytes" where
  "task_name f = take (TASK_NAME_LEN - 1) f"

definition roll_back :: "nat option \<Rightarrow> 'd exec_st \<Rightarrow> (exec_result \<times> 'd exec_st) option" where
  "roll_back io s = do { s \<leftarrow> iput io s; Some (Exec_error EOF, s) }"

definition start_program :: "(nat \<Rightarrow> u8) \<Rightarrow> nat \<Rightarrow> u32 \<Rightarrow> u32 \<Rightarrow> u32 \<Rightarrow> bytes \<Rightarrow> 'd exec_st \<Rightarrow> (exec_result \<times> 'd exec_st) option" where
  "start_program junk i filename argv envp f s = do {
     let s = s\<lparr>x_name := task_name f\<rparr>;
     (tos, s) \<leftarrow> copy_argv_envp junk filename argv envp s;
     s \<leftarrow> set_brk USER_EXEC_ADDR (set_end USER_EXEC_ADDR s);
     (entry, s) \<leftarrow> load_elf junk i s;
     if entry = EOF32 then roll_back (Some i) s
     else do {
       s \<leftarrow> set_brk (t_end (running (vm s))) s;
       s \<leftarrow> iput (x_iexec s) s;
       Some (Exec_start entry tos, s\<lparr>x_iexec := Some i\<rparr>) } }"

definition sys_execve :: "(nat \<Rightarrow> u8) \<Rightarrow> u32 \<Rightarrow> u32 \<Rightarrow> u32 \<Rightarrow> 'd exec_st \<Rightarrow> (exec_result \<times> 'd exec_st) option" where
  "sys_execve junk filename argv envp s = do {
     f \<leftarrow> string_at (um s) filename;
     (io, s) \<leftarrow> namei f s;
     case io of
       None \<Rightarrow> roll_back None s
     | Some i \<Rightarrow> do {
         mode \<leftarrow> desc16 i ID_MODE s;
         if \<not> ISREG mode then roll_back io s
         else do {
           ok \<leftarrow> permission i P_EXEC s;
           if \<not> ok then roll_back io s
           else start_program junk i filename argv envp f s } } }"

subsection \<open>Words and bytes in memory\<close>

lemma word_of_bytes_of: "word_of (ucast v) (ucast (drop_bit 8 v)) (ucast (drop_bit 16 v)) (ucast (drop_bit 24 v)) = (v :: u32)"
proof (rule bit_word_eqI)
  fix n assume n: "n < LENGTH(32)"
  consider "n < 8" | "8 \<le> n" "n < 16" | "16 \<le> n" "n < 24" | "24 \<le> n" by linarith
  then show "bit (word_of (ucast v) (ucast (drop_bit 8 v)) (ucast (drop_bit 16 v)) (ucast (drop_bit 24 v))) n = bit v n"
    by cases (use n in \<open>auto simp: word_of_def bit_simps\<close>)
qed

lemma length_bytes_of [simp]: "length (bytes_of v) = 4"
  by (simp add: bytes_of_def)

lemma ld32_region: "region m (unat p) (bytes_of v) \<Longrightarrow> ld32 m p = Some v"
proof -
  assume "region m (unat p) (bytes_of v)"
  then have r: "m (unat p + i) = Some (bytes_of v ! i)" if "i < 4" for i using that by (simp add: region_def)
  have b: "word_of (bytes_of v ! 0) (bytes_of v ! 1) (bytes_of v ! 2) (bytes_of v ! 3) = v"
    by (simp add: bytes_of_def word_of_bytes_of)
  show ?thesis using r [of 0] r [of 1] r [of 2] r [of 3] b by (simp add: ld32_def)
qed

lemma ld32_cong: "(\<And>i. i < 4 \<Longrightarrow> m' (unat p + i) = m (unat p + i)) \<Longrightarrow> ld32 m' p = ld32 m p"
proof -
  assume a: "\<And>i. i < 4 \<Longrightarrow> m' (unat p + i) = m (unat p + i)"
  show ?thesis using a [of 0] a [of 1] a [of 2] a [of 3] by (simp add: ld32_def)
qed

lemma put_mem_overwrite: "mapped m p (length bs) \<Longrightarrow> put_mem p bs m = Some (overwrite m p bs)"
  by (induction bs arbitrary: p m) (simp_all add: mapped_Suc mapped_upd overwrite_Cons)

lemma st32_overwrite: "mapped m (unat p) 4 \<Longrightarrow> st32 p v m = Some (overwrite m (unat p) (bytes_of v))"
  by (simp add: st32_def put_mem_overwrite)

lemma get_mem_region: "region m p bs \<Longrightarrow> get_mem m p (length bs) = Some bs"
  by (induction bs arbitrary: p) auto

lemma region_the: "mapped m p n \<Longrightarrow> region m p (map (\<lambda>i. the (m (p + i))) [0..<n])"
  by (auto simp: region_def mapped_def)

lemma put_user_mapped:
  "mapped (um s) a (length bs) \<Longrightarrow> put_user junk a bs s = Some (s\<lparr>um := overwrite (um s) a bs\<rparr>)"
proof (induction bs arbitrary: a s)
  case (Cons b bs)
  from Cons.prems have c: "um s a \<noteq> None \<and> mapped (um s) (Suc a) (length bs)"
    unfolding list.size add_Suc_right add_0_right mapped_Suc .
  then have m: "um s a \<noteq> None" "mapped ((um s)(a \<mapsto> b)) (Suc a) (length bs)"
    by (simp_all add: mapped_upd)
  have "put_user junk (Suc a) bs (s\<lparr>um := (um s)(a \<mapsto> b)\<rparr>)
      = Some ((s\<lparr>um := (um s)(a \<mapsto> b)\<rparr>)\<lparr>um := overwrite ((um s)(a \<mapsto> b)) (Suc a) bs\<rparr>)"
    using Cons.IH [of "s\<lparr>um := (um s)(a \<mapsto> b)\<rparr>" "Suc a"] m(2) by (simp del: fun_upd_apply)
  then show ?case using m(1) by (simp only: overwrite_Cons) (simp del: not_None_eq)
qed simp

lemma region_le: "m0 \<subseteq>\<^sub>m m \<Longrightarrow> region m0 p bs \<Longrightarrow> region m p bs"
  unfolding region_def map_le_def by (metis domI)

lemma cstr_le: "m0 \<subseteq>\<^sub>m m \<Longrightarrow> cstr m0 p s \<Longrightarrow> cstr m p s"
  unfolding cstr_def using region_le by blast

lemma ld32_Some: "ld32 m p = Some v \<Longrightarrow> mapped m (unat p) 4"
proof -
  assume "ld32 m p = Some v"
  then have "m (unat p) \<noteq> None \<and> m (unat p + 1) \<noteq> None \<and> m (unat p + 2) \<noteq> None \<and> m (unat p + 3) \<noteq> None"
    by (auto simp: ld32_def split: Option.bind_splits)
  then show ?thesis by (simp add: mapped_def eval_nat_numeral All_less_Suc2)
qed

lemma ld32_le:
  assumes "m0 \<subseteq>\<^sub>m m" "ld32 m0 p = Some v"
  shows "ld32 m p = Some v"
proof -
  have "ld32 m p = ld32 m0 p"
    using ld32_Some [OF assms(2)] assms(1) by (intro ld32_cong) (auto simp: map_le_def mapped_def dom_def)
  then show ?thesis using assms(2) by simp
qed

lemma dom_overwrite: "mapped m p (length bs) \<Longrightarrow> dom (overwrite m p bs) = dom m"
proof (rule set_eqI)
  fix x assume "mapped m p (length bs)"
  then have "\<forall>i<length bs. p + i \<in> dom m" by (auto simp: mapped_def)
  then have "p \<le> x \<and> x < p + length bs \<longrightarrow> x \<in> dom m"
    by (metis add_diff_inverse_nat nat_add_left_cancel_less not_less)
  then show "x \<in> dom (overwrite m p bs) \<longleftrightarrow> x \<in> dom m" by (auto simp: overwrite_def dom_def)
qed

subsection \<open>Stacking strings\<close>

text \<open>An item is a source, a slot and the string there. \<open>stacked\<close>: every string stands below the one before, and
  its slot holds its address.\<close>

type_synonym item = "u32 \<times> u32 \<times> bytes"

fun stacked :: "mem \<Rightarrow> nat \<Rightarrow> nat \<Rightarrow> item list \<Rightarrow> bool" where
  "stacked m k u [] \<longleftrightarrow> True"
| "stacked m k u ((_, slot, s) # its) \<longleftrightarrow>
     cstr m (k - (length s + 1)) s \<and> ld32 m slot = Some (of_nat (u - (length s + 1)))
     \<and> stacked m (k - (length s + 1)) (u - (length s + 1)) its"

definition room_of :: "item list \<Rightarrow> nat" where
  "room_of its = sum_list (map (\<lambda>(_, _, s). length s + 1) its)"

definition slots_of :: "item list \<Rightarrow> nat set" where
  "slots_of its = (\<Union>(_, slot, _)\<in>set its. {unat slot..<unat slot + 4})"

lemma room_of_simps [simp]: "room_of [] = 0" "room_of ((p, sl, s) # its) = length s + 1 + room_of its"
  by (simp_all add: room_of_def)

lemma slots_of_simps [simp]: "slots_of [] = {}" "slots_of ((p, sl, s) # its) = {unat sl..<unat sl + 4} \<union> slots_of its"
  by (auto simp: slots_of_def)

lemma push_string_ok:
  assumes "cstr m (unat p) s" "unat k \<ge> length s + 1" "mapped m (unat k - (length s + 1)) (length s + 1)"
    and "apart (unat k - (length s + 1)) (length s + 1) (unat p) (length s + 1)"
    and "mapped m (unat sl) 4" "unat u \<ge> length s + 1"
  shows "\<exists>k' u'. unat k' = unat k - (length s + 1) \<and> unat u' = unat u - (length s + 1) \<and>
    push_string p sl (k, u, m)
     = Some (k', u', overwrite (overwrite m (unat k - (length s + 1)) (s @ [EOS])) (unat sl) (bytes_of u'))"
proof -
  let ?n = "length s + 1"
  let ?l = "of_nat ?n :: u32"
  have n: "unat ?l = ?n" using assms(2) unsigned_less [of k, where ?'a = nat] by (simp add: unat_of_nat take_bit_nat_eq_self del: of_nat_Suc of_nat_add)
  have k: "unat (k - ?l) = unat k - ?n" and u: "unat (u - ?l) = unat u - ?n"
    using assms(2,6) n by (simp_all only: unat_sub word_le_nat_alt)
  have c: "memcpy m (unat k - ?n) (unat p) ?n = Some (overwrite m (unat k - ?n) (s @ [EOS]))"
    using memcpy_copies [of m "unat p" "s @ [EOS]" "unat k - ?n"] assms by (simp add: cstr_def)
  have "push_string p sl (k, u, m) = Some (k - ?l, u - ?l,
      overwrite (overwrite m (unat k - ?n) (s @ [EOS])) (unat sl) (bytes_of (u - ?l)))"
    using c assms(5) k by (simp add: push_string_def strlen_cstr [OF assms(1)] Let_def st32_overwrite mapped_overwrite
      del: of_nat_Suc of_nat_add memcpy.simps)
  with k u show ?thesis by blast
qed

lemma cstr_cong: "(\<And>a. p \<le> a \<Longrightarrow> a < p + length s + 1 \<Longrightarrow> m' a = m a) \<Longrightarrow> cstr m' p s = cstr m p s"
  by (simp add: cstr_def region_def)

lemma stacked_cong:
  assumes "stacked m k u its" "room_of its \<le> k" "\<And>a. a \<in> {k - room_of its..<k} \<union> slots_of its \<Longrightarrow> m' a = m a"
  shows "stacked m' k u its"
  using assms
proof (induction its arbitrary: k u)
  case (Cons it its)
  obtain p sl s where it: "it = (p, sl, s)" by (metis prod_cases3)
  let ?k = "k - (length s + 1)"
  have c: "cstr m ?k s" "ld32 m sl = Some (of_nat (u - (length s + 1)))" "stacked m ?k (u - (length s + 1)) its"
    using Cons.prems(1) by (simp_all add: it)
  have a: "m' a = m a" if "?k \<le> a" "a < k" for a
    using that by (intro Cons.prems(3)) (auto simp: it)
  have "cstr m' ?k s"
    using c(1) Cons.prems(2) a by (subst cstr_cong [of _ _ m' m]) (simp_all add: it)
  moreover have "ld32 m' sl = Some (of_nat (u - (length s + 1)))"
    using c(2) Cons.prems(3) by (subst ld32_cong [of m' _ m]) (auto simp: it)
  moreover have "stacked m' ?k (u - (length s + 1)) its"
  proof (intro Cons.IH c(3))
    show "room_of its \<le> ?k" using Cons.prems(2) by (simp add: it)
    fix a assume "a \<in> {?k - room_of its..<?k} \<union> slots_of its"
    then show "m' a = m a" by (intro Cons.prems(3)) (auto simp: it)
  qed
  ultimately show ?case by (simp add: it)
qed simp

fun slots_apart :: "item list \<Rightarrow> bool" where
  "slots_apart [] \<longleftrightarrow> True"
| "slots_apart ((_, sl, _) # its) \<longleftrightarrow> {unat sl..<unat sl + 4} \<inter> slots_of its = {} \<and> slots_apart its"

definition push_item :: "item \<Rightarrow> u32 \<times> u32 \<times> mem \<Rightarrow> (u32 \<times> u32 \<times> mem) option" where
  "push_item it st = (case it of (p, sl, _) \<Rightarrow> push_string p sl st)"

text \<open>Strings outside the kernel's pages \<open>K\<close> stay, whatever is stacked in \<open>K\<close>.\<close>

definition stack_room :: "mem \<Rightarrow> nat set \<Rightarrow> mem \<Rightarrow> nat \<Rightarrow> nat \<Rightarrow> item list \<Rightarrow> bool" where
  "stack_room m0 K m k u its \<longleftrightarrow> m0 \<subseteq>\<^sub>m m \<and> dom m0 \<inter> K = {} \<and> K \<subseteq> dom m
     \<and> (\<forall>it\<in>set its. cstr m0 (unat (fst it)) (snd (snd it))) \<and> room_of its \<le> k \<and> room_of its \<le> u
     \<and> {k - room_of its..<k} \<subseteq> K \<and> slots_of its \<subseteq> K \<and> slots_of its \<inter> {k - room_of its..<k} = {} \<and> slots_apart its"

lemma map_le_overwrite:
  assumes "m0 \<subseteq>\<^sub>m m" "dom m0 \<inter> K = {}" "{p..<p + length bs} \<subseteq> K"
  shows "m0 \<subseteq>\<^sub>m overwrite m p bs"
  unfolding map_le_def
proof
  fix a assume a: "a \<in> dom m0"
  then have "a \<notin> {p..<p + length bs}" using assms(2,3) by blast
  then have "overwrite m p bs a = m a" by (intro overwrite_outside) auto
  then show "m0 a = overwrite m p bs a" using assms(1) a by (simp add: map_le_def)
qed

lemma cstr_dom: "cstr m p s \<Longrightarrow> i \<le> length s \<Longrightarrow> p + i \<in> dom m"
  by (auto simp: cstr_def region_def)

lemma apart_dom:
  assumes "cstr m0 p s" "dom m0 \<inter> K = {}" "{q..<q + (length s + 1)} \<subseteq> K"
  shows "apart q (length s + 1) p (length s + 1)"
proof (rule ccontr)
  assume "\<not> ?thesis"
  then have n: "\<not> q + (length s + 1) \<le> p" "\<not> p + (length s + 1) \<le> q" by (simp_all add: apart_def)
  define a where "a = max p q"
  have "a - p \<le> length s" "a = p + (a - p)" using n by (auto simp: a_def)
  then have "a \<in> dom m0" using cstr_dom [OF assms(1), of "a - p"] by simp
  moreover have "a \<in> K" using n assms(3) by (auto simp: a_def)
  ultimately show False using assms(2) by blast
qed

lemma mapped_sub: "{p..<p + n} \<subseteq> K \<Longrightarrow> K \<subseteq> dom m \<Longrightarrow> mapped m p n"
  unfolding mapped_def by (metis atLeastLessThan_iff domIff le_add1 nat_add_left_cancel_less subsetD)

lemma push_one_room:
  assumes "stack_room m0 K m (unat k) (unat u) ((p, sl, s) # its)"
  shows "\<exists>k' u' m'. push_string p sl (k, u, m) = Some (k', u', m') \<and> unat k' = unat k - (length s + 1)
    \<and> unat u' = unat u - (length s + 1) \<and> stack_room m0 K m' (unat k') (unat u') its \<and> dom m' = dom m
    \<and> (\<forall>a. a \<notin> {unat k'..<unat k} \<union> {unat sl..<unat sl + 4} \<longrightarrow> m' a = m a)
    \<and> cstr m' (unat k') s \<and> ld32 m' sl = Some u'"
proof -
  let ?n = "length s + 1"
  let ?b = "unat k - ?n"
  have r: "m0 \<subseteq>\<^sub>m m" "dom m0 \<inter> K = {}" "K \<subseteq> dom m" "cstr m0 (unat p) s" "?n + room_of its \<le> unat k" "?n + room_of its \<le> unat u"
    "{?b - room_of its..<unat k} \<subseteq> K" "{unat sl..<unat sl + 4} \<subseteq> K" "slots_of its \<subseteq> K"
    "{unat sl..<unat sl + 4} \<inter> {?b - room_of its..<unat k} = {}" "slots_of its \<inter> {?b - room_of its..<unat k} = {}"
    "{unat sl..<unat sl + 4} \<inter> slots_of its = {}" "slots_apart its" "\<forall>it\<in>set its. cstr m0 (unat (fst it)) (snd (snd it))"
    using assms by (auto simp: stack_room_def Int_Un_distrib2)
  have bK: "{?b..<?b + ?n} \<subseteq> K" using r(5) by (intro subset_trans [OF _ r(7)]) auto
  have mb: "mapped m ?b ?n" by (rule mapped_sub [OF bK r(3)])
  have ms: "mapped m (unat sl) 4" by (rule mapped_sub [OF r(8,3)])
  have ap: "apart ?b ?n (unat p) ?n" using apart_dom [OF r(4,2) bK] .
  obtain k' u' where k': "unat k' = ?b" "unat u' = unat u - ?n"
    "push_string p sl (k, u, m) = Some (k', u', overwrite (overwrite m ?b (s @ [EOS])) (unat sl) (bytes_of u'))"
    using push_string_ok [OF cstr_le [OF r(1,4)] add_leD1 [OF r(5)] mb ap ms add_leD1 [OF r(6)]] by blast
  define m1 where "m1 = overwrite m ?b (s @ [EOS])"
  define m' where "m' = overwrite m1 (unat sl) (bytes_of u')"
  have d: "dom m' = dom m" using mb ms by (simp add: m'_def m1_def dom_overwrite mapped_overwrite)
  have le: "m0 \<subseteq>\<^sub>m m'" unfolding m'_def m1_def
    using r(8) bK by (intro map_le_overwrite [OF map_le_overwrite [OF r(1,2)] r(2)]) simp_all
  have out: "m' a = m a" if "a \<notin> {?b..<unat k} \<union> {unat sl..<unat sl + 4}" for a
  proof -
    have "m' a = m1 a" unfolding m'_def using that by (intro overwrite_outside) auto
    also have "\<dots> = m a" unfolding m1_def using that r(5) by (intro overwrite_outside) auto
    finally show ?thesis .
  qed
  have "cstr m1 ?b s" using cstr_nonzero [OF r(4)] by (simp add: m1_def cstr_def)
  moreover have "m' a = m1 a" if "?b \<le> a" "a < ?b + length s + 1" for a
    unfolding m'_def using that r(5,10) by (intro overwrite_outside) (auto simp: disjoint_iff)
  ultimately have cs: "cstr m' ?b s" using cstr_cong [of ?b s m' m1] by simp
  have ld: "ld32 m' sl = Some u'" unfolding m'_def by (intro ld32_region) simp
  have sub: "{?b - room_of its..<?b} \<subseteq> {?b - room_of its..<unat k}" by auto
  have "stack_room m0 K m' (unat k') (unat u') its"
    unfolding stack_room_def k'(1,2)
  proof (intro conjI)
    show "{?b - room_of its..<?b} \<subseteq> K" using sub r(7) by (rule subset_trans)
    show "slots_of its \<inter> {?b - room_of its..<?b} = {}" using sub r(11) by blast
  qed (use le r d in auto)
  then show ?thesis using k' d out cs ld unfolding m'_def m1_def by auto
qed

lemma push_items:
  assumes "stack_room m0 K m (unat k) (unat u) its"
  shows "\<exists>k' u' m'. foldM push_item its (k, u, m) = Some (k', u', m') \<and> unat k' = unat k - room_of its
    \<and> unat u' = unat u - room_of its \<and> m0 \<subseteq>\<^sub>m m' \<and> dom m' = dom m
    \<and> (\<forall>a. a \<notin> {unat k'..<unat k} \<union> slots_of its \<longrightarrow> m' a = m a) \<and> stacked m' (unat k) (unat u) its"
  using assms
proof (induction its arbitrary: k u m)
  case Nil
  then show ?case by (simp add: stack_room_def)
next
  case (Cons it its)
  obtain p sl s where it: "it = (p, sl, s)" by (metis prod_cases3)
  let ?n = "length s + 1"
  have total: "?n + room_of its \<le> unat k" "?n + room_of its \<le> unat u" "slots_of its \<inter> {unat sl..<unat sl + 4} = {}"
      "({unat sl..<unat sl + 4} \<union> slots_of its) \<inter> {unat k - (?n + room_of its)..<unat k} = {}"
    using Cons.prems by (auto simp: it stack_room_def)
  obtain k1 u1 m1 where 1: "push_string p sl (k, u, m) = Some (k1, u1, m1)" "unat k1 = unat k - ?n" "unat u1 = unat u - ?n"
      "stack_room m0 K m1 (unat k1) (unat u1) its" "dom m1 = dom m"
      "\<And>a. a \<notin> {unat k1..<unat k} \<union> {unat sl..<unat sl + 4} \<Longrightarrow> m1 a = m a"
      "cstr m1 (unat k1) s" "ld32 m1 sl = Some u1"
    using push_one_room [OF Cons.prems [unfolded it]] by blast
  obtain k2 u2 m2 where 2: "foldM push_item its (k1, u1, m1) = Some (k2, u2, m2)" "unat k2 = unat k1 - room_of its"
      "unat u2 = unat u1 - room_of its" "m0 \<subseteq>\<^sub>m m2" "dom m2 = dom m1"
      "\<And>a. a \<notin> {unat k2..<unat k1} \<union> slots_of its \<Longrightarrow> m2 a = m1 a" "stacked m2 (unat k1) (unat u1) its"
    using Cons.IH [OF 1(4)] by blast
  have "cstr m2 (unat k1) s"
    using 1(2,7) total by (subst cstr_cong [of _ _ m2 m1]) (auto intro!: 2(6) simp: disjoint_iff)
  moreover have "m2 (unat sl + i) = m1 (unat sl + i)" if "i < 4" for i
  proof (rule 2(6))
    have "unat sl + i \<in> {unat sl..<unat sl + 4}" using that by simp
    then have "unat sl + i \<notin> slots_of its" "unat sl + i \<notin> {unat k - (?n + room_of its)..<unat k}"
      using total(3,4) by blast+
    then show "unat sl + i \<notin> {unat k2..<unat k1} \<union> slots_of its" using 1(2) 2(2) by auto
  qed
  then have "ld32 m2 sl = Some u1" using 1(8) by (simp add: ld32_cong [of m2 sl m1])
  ultimately have st: "stacked m2 (unat k) (unat u) (it # its)"
  proof -
    have "unat u - ?n = unat u1" "unat k - ?n = unat k1" using 1(2,3) by simp_all
    then show ?thesis using 2(7) \<open>cstr m2 (unat k1) s\<close> \<open>ld32 m2 sl = Some u1\<close> by (simp only: it stacked.simps) simp
  qed
  have out: "m2 a = m a" if "a \<notin> {unat k2..<unat k} \<union> slots_of (it # its)" for a
    using that 1(2) 2(2) by (subst 2(6)) (auto intro!: 1(6) simp: it)
  have "foldM push_item (it # its) (k, u, m) = Some (k2, u2, m2)"
    using 1(1) 2(1) by (simp add: it push_item_def)
  moreover have "unat k2 = unat k - room_of (it # its)" "unat u2 = unat u - room_of (it # its)"
    using 1(2,3) 2(2,3) by (simp_all add: it)
  moreover have "dom m2 = dom m" using 1(5) 2(5) by simp
  ultimately show ?case using 2(4) out st by blast
qed

lemma stacked_item:
  assumes "stacked m k u its" "room_of its \<le> k" "room_of its \<le> u" "(p, sl, s) \<in> set its"
  shows "\<exists>q v. k - room_of its \<le> q \<and> q + (length s + 1) \<le> k \<and> q + u = v + k \<and> cstr m q s \<and> ld32 m sl = Some (of_nat v)"
  using assms
proof (induction its arbitrary: k u)
  case (Cons it its)
  obtain p1 sl1 s1 where it: "it = (p1, sl1, s1)" by (metis prod_cases3)
  let ?n = "length s1 + 1"
  have r: "?n + room_of its \<le> k" "?n + room_of its \<le> u" using Cons.prems by (simp_all add: it)
  show ?case
  proof (cases "(p, sl, s) = it")
    case True
    then show ?thesis using Cons.prems(1) r by (intro exI [of _ "k - ?n"] exI [of _ "u - ?n"]) (auto simp: it)
  next
    case False
    have "\<exists>q v. k - ?n - room_of its \<le> q \<and> q + (length s + 1) \<le> k - ?n \<and> q + (u - ?n) = v + (k - ?n)
        \<and> cstr m q s \<and> ld32 m sl = Some (of_nat v)"
      using Cons.prems False r by (intro Cons.IH) (auto simp: it)
    then obtain q v where q: "k - ?n - room_of its \<le> q" "q + (length s + 1) \<le> k - ?n"
        "q + (u - ?n) = v + (k - ?n)" "cstr m q s" "ld32 m sl = Some (of_nat v)" by blast
    have "room_of (it # its) = ?n + room_of its" by (simp add: it)
    then have "k - room_of (it # its) \<le> q \<and> q + (length s + 1) \<le> k \<and> q + u = v + k" using q(1-3) r by linarith
    with q(4,5) show ?thesis by blast
  qed
qed simp

lemma foldM_items:
  assumes "\<And>i k u m. i \<in> set ixs \<Longrightarrow> m0 \<subseteq>\<^sub>m m \<Longrightarrow> f i (k, u, m) = push_item (g i) (k, u, m)"
    and "stack_room m0 K m (unat k) (unat u) (map g ixs)"
  shows "foldM f ixs (k, u, m) = foldM push_item (map g ixs) (k, u, m)"
  using assms
proof (induction ixs arbitrary: k u m)
  case (Cons i ixs)
  obtain p sl s where it: "g i = (p, sl, s)" by (metis prod_cases3)
  obtain k1 u1 m1 where 1: "push_string p sl (k, u, m) = Some (k1, u1, m1)" "stack_room m0 K m1 (unat k1) (unat u1) (map g ixs)"
    using push_one_room [of m0 K m k u p sl s "map g ixs"] Cons.prems(2) by (auto simp: it)
  have "f i (k, u, m) = Some (k1, u1, m1)"
    using Cons.prems 1(1) by (simp add: it push_item_def stack_room_def)
  then show ?case using Cons.IH [OF _ 1(2)] Cons.prems(1) 1(1) by (simp add: it push_item_def)
qed simp

lemma unat_minus_nat: "n \<le> unat k \<Longrightarrow> unat (k - of_nat n) = unat k - n" for k :: u32
proof -
  assume n: "n \<le> unat k"
  have "n < 4294967296" using n unsigned_less [of k, where ?'a = nat] by simp
  then have "unat (of_nat n :: u32) = n" by (simp add: unat_of_nat take_bit_nat_eq_self)
  then show ?thesis using n by (simp add: unat_sub word_le_nat_alt)
qed

lemma unat_plus_nat: "unat k + n < 4294967296 \<Longrightarrow> unat (k + of_nat n) = unat k + n" for k :: u32
  by (simp add: unat_plus_if_size word_size unat_of_nat take_bit_nat_eq_self)

lemma bind_eq_SomeE: "Option.bind x f = Some y \<Longrightarrow> (\<And>z. x = Some z \<Longrightarrow> f z = Some y \<Longrightarrow> P) \<Longrightarrow> P"
  by (cases x) auto

lemma stack_room_step:
  assumes "m0 \<subseteq>\<^sub>m m" "dom m0 \<inter> K = {}" "K \<subseteq> dom m" "\<forall>it\<in>set its. cstr m0 (unat (fst it)) (snd (snd it))"
    and "room_of its \<le> k" "room_of its \<le> u" "{k - room_of its..<k} \<subseteq> P" "slots_of its \<subseteq> A" "P \<inter> A = {}" "P \<union> A \<subseteq> K" "slots_apart its"
  shows "stack_room m0 K m k u its"
  using assms unfolding stack_room_def by blast

subsection \<open>The image of the stack\<close>

definition strings_at :: "mem \<Rightarrow> u32 \<Rightarrow> bytes list \<Rightarrow> bool" where
  "strings_at m a ss \<longleftrightarrow> (\<forall>j<length ss. \<exists>p. ld32 m (a + 4 * of_nat j) = Some p \<and> cstr m (unat p) (ss ! j))
     \<and> ld32 m (a + 4 * of_nat (length ss)) = Some 0"

lemma count_from_strings:
  assumes "strings_at m0 a ss" "0 \<notin> dom m0" "m0 \<subseteq>\<^sub>m m" "i \<le> length ss"
  shows "count_from m a i = Some (length ss)"
  using assms(4)
proof (induction "length ss - i" arbitrary: i)
  case 0
  then have "ld32 m (a + 4 * of_nat i) = Some 0"
    using assms(1) ld32_le [OF assms(3)] by (simp add: strings_at_def)
  then show ?case using 0 by (subst count_from.simps) simp
next
  case (Suc n)
  then obtain p where p: "ld32 m0 (a + 4 * of_nat i) = Some p" "cstr m0 (unat p) (ss ! i)"
    using assms(1) unfolding strings_at_def by (metis diff_is_0_eq' le_eq_less_or_eq nat.distinct(1))
  have "unat p \<in> dom m0" using cstr_dom [OF p(2), of 0] by simp
  then have "p \<noteq> 0" using assms(2) by auto
  then show ?case using ld32_le [OF assms(3) p(1)] Suc by (subst count_from.simps) simp
qed

text \<open>An array of strings: none for the null pointer.\<close>

definition array_of :: "mem \<Rightarrow> u32 \<Rightarrow> bytes list \<Rightarrow> bool" where
  "array_of m a ss \<longleftrightarrow> (if a = 0 then ss = [] else strings_at m a ss)"

lemma count_argv_strings:
  "array_of m0 a ss \<Longrightarrow> 0 \<notin> dom m0 \<Longrightarrow> m0 \<subseteq>\<^sub>m m \<Longrightarrow> count_argv m a = Some (length ss)"
  using count_from_strings [of m0 a ss m 0] by (auto simp: array_of_def count_argv_def)

lemma array_of_at:
  "array_of m a ss \<Longrightarrow> j < length ss \<Longrightarrow> \<exists>p. ld32 m (a + 4 * of_nat j) = Some p \<and> cstr m (unat p) (ss ! j)"
  by (auto simp: array_of_def strings_at_def split: if_splits)

definition exec_layout :: "u32 \<Rightarrow> u32 \<Rightarrow> bool" where
  "exec_layout pages argvk \<longleftrightarrow> (unat pages + 16384 \<le> unat argvk \<or> unat argvk + 4096 \<le> unat pages)
     \<and> unat pages + 16384 \<le> 0x1000000 \<and> unat argvk + 4096 \<le> 0x1000000"

definition exec_pages :: "u32 \<Rightarrow> u32 \<Rightarrow> nat set" where
  "exec_pages pages argvk = {unat pages..<unat pages + 16384} \<union> {unat argvk..<unat argvk + 4096}"

text \<open>The bytes of the image; \<open>x\<close> is the string that is stacked for the word before the array.\<close>

definition room_for :: "bytes list \<Rightarrow> nat" where
  "room_for ss = sum_list (map (\<lambda>s. length s + 1) ss)"

definition image_size :: "bytes \<Rightarrow> bytes list \<Rightarrow> bytes \<Rightarrow> bytes list \<Rightarrow> nat" where
  "image_size f as x es = room_for es + room_for as + (length x + 1) + (length f + 1)
     + 4 * (length es + 1) + 4 * (length as + 2) + 4"

lemma slot_addr: "unat (argvk :: u32) + 4096 \<le> 0x1000000 \<Longrightarrow> t < 1024 \<Longrightarrow> unat (argvk + 4 * of_nat t) = unat argvk + 4 * t"
proof -
  assume a: "unat argvk + 4096 \<le> 0x1000000" "t < 1024"
  have "unat (of_nat (4 * t) :: u32) = 4 * t" using a(2) by (simp add: unat_of_nat take_bit_nat_eq_self del: of_nat_mult)
  moreover have "argvk + 4 * of_nat t = argvk + of_nat (4 * t)" by simp
  ultimately show ?thesis using a by (simp add: unat_plus_if_size word_size del: of_nat_mult)
qed

lemma slots_of_map: 
  assumes "\<And>t. t \<in> set ts \<Longrightarrow> unat (fst (snd (g t))) = b + 4 * t"
  shows "slots_of (map g ts) = (\<Union>t\<in>set ts. {b + 4 * t..<b + 4 * t + 4})"
  using assms by (force simp: slots_of_def split_beta)

lemma slots_apart_map:
  assumes "\<And>t. t \<in> set ts \<Longrightarrow> unat (fst (snd (g t))) = b + 4 * t" "distinct ts"
  shows "slots_apart (map g ts)"
  using assms
proof (induction ts)
  case (Cons t ts)
  obtain p sl s where g: "g t = (p, sl, s)" by (metis prod_cases3)
  have "slots_of (map g ts) = (\<Union>t\<in>set ts. {b + 4 * t..<b + 4 * t + 4})"
    using Cons.prems by (intro slots_of_map) auto
  moreover have "unat sl = b + 4 * t" using Cons.prems(1) [of t] by (simp add: g)
  moreover have "{b + 4 * t..<b + 4 * t + 4} \<inter> {b + 4 * u..<b + 4 * u + 4} = {}" if "u \<in> set ts" for u
  proof -
    have "u \<noteq> t" using that Cons.prems(2) by auto
    then show ?thesis by (cases "u < t") (auto simp: disjoint_iff)
  qed
  ultimately show ?case using Cons by (simp add: g Int_UN_distrib)
qed simp

lemma room_of_map: "room_of (map g ts) = room_for (map (\<lambda>t. snd (snd (g t))) ts)"
  by (simp add: room_of_def room_for_def comp_def split_beta)

lemma foldM_map: "foldM f (map h xs) s = foldM (\<lambda>x. f (h x)) xs s"
  by (induction xs arbitrary: s) (simp_all cong: bind_option_cong)

lemma foldM_cong_set: "(\<And>x s. x \<in> set xs \<Longrightarrow> f x s = g x s) \<Longrightarrow> foldM f xs s = foldM g xs s"
  by (induction xs arbitrary: s) (simp_all cong: bind_option_cong)

text \<open>Slot \<open>t\<close> of the kernel's array is for an argument up to \<open>n\<close> and for a string of the environment after \<open>n + 1\<close>.\<close>

definition slot_src :: "mem \<Rightarrow> u32 \<Rightarrow> u32 \<Rightarrow> nat \<Rightarrow> nat \<Rightarrow> u32" where
  "slot_src m0 argv envp n t = the (if t \<le> n then ld32 m0 (argv + 4 * (of_nat t - 1)) else ld32 m0 (envp + 4 * of_nat (t - n - 2)))"

definition slot_str :: "bytes list \<Rightarrow> bytes list \<Rightarrow> nat \<Rightarrow> bytes" where
  "slot_str as es t = (if t \<le> length as then as ! (t - 1) else es ! (t - length as - 2))"

definition slot_item :: "mem \<Rightarrow> u32 \<Rightarrow> u32 \<Rightarrow> u32 \<Rightarrow> bytes list \<Rightarrow> bytes list \<Rightarrow> nat \<Rightarrow> item" where
  "slot_item m0 argv envp argvk as es t = (slot_src m0 argv envp (length as) t, argvk + 4 * of_nat t, slot_str as es t)"

definition slot_list :: "nat \<Rightarrow> nat \<Rightarrow> nat list" where
  "slot_list argc envc = map (\<lambda>i. argc + 1 + i) (rev [0..<envc]) @ rev [1..<argc]"

definition push_slot :: "u32 \<Rightarrow> u32 \<Rightarrow> u32 \<Rightarrow> nat \<Rightarrow> nat \<Rightarrow> u32 \<times> u32 \<times> mem \<Rightarrow> (u32 \<times> u32 \<times> mem) option" where
  "push_slot argv envp argvk argc t st =
     (if t < argc then push_arg argv argvk t st else push_env envp (argvk + 4 * of_nat argc + 4) (t - argc - 1) st)"

lemma pushes_as_slots:
  assumes "0 < argc"
  shows "do { st \<leftarrow> foldM (push_env envp (argvk + 4 * of_nat argc + 4)) (rev [0..<envc]) st;
              foldM (push_arg argv argvk) (rev [0..<argc]) st }
       = do { st \<leftarrow> foldM (push_slot argv envp argvk argc) (slot_list argc envc) st; push_arg argv argvk 0 st }"
proof -
  have e: "foldM (push_env envp (argvk + 4 * of_nat argc + 4)) (rev [0..<envc]) st
      = foldM (push_slot argv envp argvk argc) (map (\<lambda>i. argc + 1 + i) (rev [0..<envc])) st" for st
    unfolding foldM_map by (intro foldM_cong_set) (simp add: push_slot_def)
  have a: "foldM (push_arg argv argvk) (rev [1..<argc]) st = foldM (push_slot argv envp argvk argc) (rev [1..<argc]) st" for st
    by (intro foldM_cong_set) (simp add: push_slot_def)
  have one: "foldM (push_arg argv argvk) [0] = push_arg argv argvk 0"
    by (rule ext) (simp split: Option.bind_split)
  have r: "rev [0..<argc] = rev [1..<argc] @ [0]" using assms by (simp add: upt_conv_Cons)
  show ?thesis unfolding r slot_list_def foldM_append e a one bind_assoc by (rule refl)
qed

lemma slot_list_set: "t \<in> set (slot_list argc envc) \<longleftrightarrow> (1 \<le> t \<and> t < argc) \<or> (argc + 1 \<le> t \<and> t < argc + 1 + envc)"
proof -
  have "t \<in> (\<lambda>i. argc + 1 + i) ` {0..<envc} \<longleftrightarrow> argc + 1 \<le> t \<and> t < argc + 1 + envc"
    by (auto intro!: image_eqI [of _ _ "t - (argc + 1)"])
  then show ?thesis by (auto simp: slot_list_def)
qed

lemma distinct_slot_list: "distinct (slot_list argc envc)"
  by (auto simp: slot_list_def distinct_map inj_on_def)

lemma room_for_append: "room_for (xs @ ys) = room_for xs + room_for ys"
  by (simp add: room_for_def)

lemma room_for_rev: "room_for (rev xs) = room_for xs"
  by (simp add: room_for_def rev_map [symmetric] sum_list_rev)

lemma slot_list_strings:
  "map (slot_str as es) (slot_list (length as + 1) (length es)) = rev es @ rev as"
proof -
  have "map (slot_str as es) (map (\<lambda>i. length as + 1 + 1 + i) [0..<length es]) = es"
    by (intro nth_equalityI) (simp_all add: slot_str_def)
  moreover have "map (slot_str as es) [1..<length as + 1] = as"
    by (intro nth_equalityI) (simp_all add: slot_str_def del: upt_Suc)
  ultimately show ?thesis unfolding slot_list_def map_append by (simp only: rev_map [symmetric])
qed

lemma slot_room: "room_of (map (slot_item m0 argv envp argvk as es) (slot_list (length as + 1) (length es))) = room_for es + room_for as"
proof -
  have "(\<lambda>t. snd (snd (slot_item m0 argv envp argvk as es t))) = slot_str as es" by (simp add: slot_item_def)
  then show ?thesis by (simp only: room_of_map slot_list_strings room_for_append room_for_rev)
qed

text \<open>What the arrays and strings of the caller look like: outside the kernel's pages \<open>K\<close>, and the word before the
  arguments is the address of a string as well.\<close>

definition exec_input :: "mem \<Rightarrow> nat set \<Rightarrow> u32 \<Rightarrow> u32 \<Rightarrow> u32 \<Rightarrow> bytes \<Rightarrow> bytes list \<Rightarrow> bytes \<Rightarrow> bytes list \<Rightarrow> bool" where
  "exec_input m0 K filename argv envp f as x es \<longleftrightarrow> dom m0 \<inter> K = {} \<and> 0 \<notin> dom m0
     \<and> array_of m0 argv as \<and> array_of m0 envp es \<and> cstr m0 (unat filename) f
     \<and> (\<exists>q. ld32 m0 (argv - 4) = Some q \<and> cstr m0 (unat q) x)"

lemma exec_input_slot:
  assumes i: "exec_input m0 K filename argv envp f as x es" and t: "t \<in> set (slot_list (length as + 1) (length es))"
    and le: "m0 \<subseteq>\<^sub>m m"
  shows "cstr m0 (unat (slot_src m0 argv envp (length as) t)) (slot_str as es t)"
    and "push_slot argv envp argvk (length as + 1) t (k, u, m) = push_item (slot_item m0 argv envp argvk as es t) (k, u, m)"
proof -
  have "(\<exists>j. t = j + 1 \<and> j < length as) \<or> (\<exists>j. t = length as + 2 + j \<and> j < length es)"
    using t unfolding slot_list_set by presburger
  then consider (arg) j where "t = j + 1" "j < length as" | (env) j where "t = length as + 2 + j" "j < length es"
    by blast
  then have "cstr m0 (unat (slot_src m0 argv envp (length as) t)) (slot_str as es t) \<and>
    push_slot argv envp argvk (length as + 1) t (k, u, m) = push_item (slot_item m0 argv envp argvk as es t) (k, u, m)"
  proof cases
    case arg
    obtain p where p: "ld32 m0 (argv + 4 * of_nat j) = Some p" "cstr m0 (unat p) (as ! j)"
      using i arg(2) array_of_at [of m0 argv as j] by (auto simp: exec_input_def)
    moreover have "ld32 m (argv + 4 * of_nat j) = Some p" by (rule ld32_le [OF le p(1)])
    ultimately show ?thesis using arg
      by (simp add: slot_src_def slot_str_def push_slot_def push_arg_def push_item_def slot_item_def)
  next
    case env
    obtain p where p: "ld32 m0 (envp + 4 * of_nat j) = Some p" "cstr m0 (unat p) (es ! j)"
      using i env(2) array_of_at [of m0 envp es j] by (auto simp: exec_input_def)
    moreover have "ld32 m (envp + 4 * of_nat j) = Some p" by (rule ld32_le [OF le p(1)])
    ultimately show ?thesis using env
      by (simp add: slot_src_def slot_str_def push_slot_def push_env_def push_item_def slot_item_def algebra_simps)
  qed
  then show "cstr m0 (unat (slot_src m0 argv envp (length as) t)) (slot_str as es t)"
    "push_slot argv envp argvk (length as + 1) t (k, u, m) = push_item (slot_item m0 argv envp argvk as es t) (k, u, m)"
    by blast+
qed

text \<open>The string for slot \<open>t\<close> stands in the image and its slot has its address on the user's stack, which is \<open>d\<close> bytes higher.\<close>

definition placed :: "mem \<Rightarrow> nat \<Rightarrow> nat \<Rightarrow> nat \<Rightarrow> u32 \<Rightarrow> bytes \<Rightarrow> bool" where
  "placed m lo hi d slot s \<longleftrightarrow> (\<exists>q. lo \<le> q \<and> q + (length s + 1) \<le> hi \<and> cstr m q s \<and> ld32 m slot = Some (of_nat (q + d)))"

lemma placed_cong:
  assumes "placed m lo hi d slot s" "\<And>a. lo \<le> a \<Longrightarrow> a < hi \<Longrightarrow> m' a = m a" "\<And>i. i < 4 \<Longrightarrow> m' (unat slot + i) = m (unat slot + i)" "lo' \<le> lo"
  shows "placed m' lo' hi d slot s"
proof -
  obtain q where q: "lo \<le> q" "q + (length s + 1) \<le> hi" "cstr m q s" "ld32 m slot = Some (of_nat (q + d))"
    using assms(1) by (auto simp: placed_def)
  have "cstr m' q s" using q assms(2) by (subst cstr_cong [of _ _ m' m]) auto
  moreover have "ld32 m' slot = Some (of_nat (q + d))" using q(4) assms(3) by (subst ld32_cong [of m' _ m]) auto
  ultimately show ?thesis using q(1,2) assms(4) unfolding placed_def by (intro exI [of _ q]) auto
qed

lemma placed_higher: "placed m lo hi d slot s \<Longrightarrow> hi \<le> hi' \<Longrightarrow> placed m lo hi' d slot s"
  unfolding placed_def by (meson order_trans)

lemma stacked_placed:
  assumes "stacked m k u its" "room_of its \<le> k" "room_of its \<le> u" "(p, sl, s) \<in> set its" "u = k + d"
  shows "placed m (k - room_of its) k d sl s"
proof -
  obtain q v where q: "k - room_of its \<le> q" "q + (length s + 1) \<le> k" "q + u = v + k" "cstr m q s" "ld32 m sl = Some (of_nat v)"
    using stacked_item [OF assms(1-4)] by blast
  have "v = q + d" using q(3) assms(5) by simp
  then show ?thesis using q unfolding placed_def by blast
qed

text \<open>One list of items on top of what is there.\<close>

lemma push_more:
  assumes a: "exec_layout pages argvk" "K = exec_pages pages argvk" "K \<subseteq> dom m" "m0 \<subseteq>\<^sub>m m" "dom m0 \<inter> K = {}"
    and its: "\<forall>it\<in>set its. cstr m0 (unat (fst it)) (snd (snd it))" "slots_of its \<subseteq> {unat argvk..<unat argvk + 4096}" "slots_apart its"
    and k: "unat pages + room_of its \<le> unat k" "unat k \<le> unat pages + 16384" "unat u = unat k + d"
  shows "\<exists>k' u' m'. foldM push_item its (k, u, m) = Some (k', u', m') \<and> unat k' = unat k - room_of its
    \<and> unat u' = unat k' + d \<and> m0 \<subseteq>\<^sub>m m' \<and> dom m' = dom m
    \<and> (\<forall>a. a \<notin> {unat k'..<unat k} \<union> slots_of its \<longrightarrow> m' a = m a)
    \<and> (\<forall>it\<in>set its. placed m' (unat k') (unat k) d (fst (snd it)) (snd (snd it)))"
proof -
  have "stack_room m0 K m (unat k) (unat u) its"
  proof (rule stack_room_step [where P = "{unat pages..<unat pages + 16384}" and A = "{unat argvk..<unat argvk + 4096}"])
    show "{unat k - room_of its..<unat k} \<subseteq> {unat pages..<unat pages + 16384}" using k by auto
    show "{unat pages..<unat pages + 16384} \<inter> {unat argvk..<unat argvk + 4096} = {}"
      using a(1) by (auto simp: exec_layout_def)
    show "{unat pages..<unat pages + 16384} \<union> {unat argvk..<unat argvk + 4096} \<subseteq> K" by (simp add: a(2) exec_pages_def)
  qed (use a its k in auto)
  then obtain k' u' m' where p: "foldM push_item its (k, u, m) = Some (k', u', m')" "unat k' = unat k - room_of its"
     "unat u' = unat u - room_of its" "m0 \<subseteq>\<^sub>m m'" "dom m' = dom m"
     "\<forall>a. a \<notin> {unat k'..<unat k} \<union> slots_of its \<longrightarrow> m' a = m a" "stacked m' (unat k) (unat u) its"
    using push_items by blast
  have "placed m' (unat k') (unat k) d (fst (snd it)) (snd (snd it))" if "it \<in> set its" for it
    using stacked_placed [OF p(7) _ _ _ k(3), of "fst it" "fst (snd it)" "snd (snd it)"] that k p(2) by simp
  moreover have "unat u' = unat k' + d" using p(2,3) k by simp
  ultimately show ?thesis using p by blast
qed

lemma push_one_more:
  assumes a: "exec_layout pages argvk" "K = exec_pages pages argvk" "K \<subseteq> dom m" "m0 \<subseteq>\<^sub>m m" "dom m0 \<inter> K = {}"
    and s: "cstr m0 (unat p) s"
    and k: "unat pages + (length s + 1) \<le> unat k" "unat k \<le> unat pages + 16384" "unat u = unat k + d"
  shows "\<exists>k' u' m'. push_string p argvk (k, u, m) = Some (k', u', m') \<and> unat k' = unat k - (length s + 1)
    \<and> unat u' = unat k' + d \<and> m0 \<subseteq>\<^sub>m m' \<and> dom m' = dom m
    \<and> (\<forall>a. a \<notin> {unat k'..<unat k} \<union> {unat argvk..<unat argvk + 4} \<longrightarrow> m' a = m a)
    \<and> placed m' (unat k') (unat k) d argvk s"
proof -
  have "foldM push_item [(p, argvk, s)] (k, u, m) = push_string p argvk (k, u, m)"
    by (simp add: push_item_def split: Option.bind_split)
  moreover have "slots_of [(p, argvk, s)] = {unat argvk..<unat argvk + 4}" by simp
  moreover have "room_of [(p, argvk, s)] = length s + 1" by simp
  ultimately show ?thesis using push_more [OF a, of "[(p, argvk, s)]" k u d] s k by simp
qed

definition string_room :: "bytes \<Rightarrow> bytes list \<Rightarrow> bytes \<Rightarrow> bytes list \<Rightarrow> nat" where
  "string_room f as x es = room_for es + room_for as + (length x + 1) + (length f + 1)"

definition the_string :: "bytes \<Rightarrow> bytes list \<Rightarrow> bytes list \<Rightarrow> nat \<Rightarrow> bytes" where
  "the_string f as es t = (if t = 0 then f else slot_str as es t)"

text \<open>The slots of the kernel's array and their bytes.\<close>

definition slot_set :: "bytes list \<Rightarrow> bytes list \<Rightarrow> nat set" where
  "slot_set as es = set (slot_list (length as + 1) (length es))"

lemma slot_set: "t \<in> slot_set as es \<longleftrightarrow> (1 \<le> t \<and> t \<le> length as) \<or> (length as + 2 \<le> t \<and> t < length as + 2 + length es)"
  unfolding slot_set_def slot_list_set by auto

lemma slot_items:
  assumes "exec_layout pages argvk" "length as + length es + 3 \<le> 1024"
    and L: "L = map (slot_item m0 argv envp argvk as es) (slot_list (length as + 1) (length es))"
  shows "slots_of L = (\<Union>t\<in>slot_set as es. {unat argvk + 4 * t..<unat argvk + 4 * t + 4})" "slots_apart L"
    "slots_of L \<subseteq> {unat argvk + 4..<unat argvk + 4096}"
proof -
  have g: "unat (fst (snd (slot_item m0 argv envp argvk as es t))) = unat argvk + 4 * t"
    if "t \<in> set (slot_list (length as + 1) (length es))" for t
    using that assms(1,2) by (auto simp: slot_item_def slot_list_set exec_layout_def intro!: slot_addr)
  show s: "slots_of L = (\<Union>t\<in>slot_set as es. {unat argvk + 4 * t..<unat argvk + 4 * t + 4})"
    unfolding L slot_set_def by (rule slots_of_map) (rule g)
  show "slots_apart L" unfolding L by (rule slots_apart_map [OF g distinct_slot_list])
  show "slots_of L \<subseteq> {unat argvk + 4..<unat argvk + 4096}"
    unfolding s using assms(2) by (auto simp: slot_set)
qed

lemma slots_pushed:
  assumes i: "exec_input m0 K filename argv envp f as x es"
    and a: "exec_layout pages argvk" "K = exec_pages pages argvk" "K \<subseteq> dom m" "m0 \<subseteq>\<^sub>m m"
    and sz: "length as + length es + 3 \<le> 1024" "room_for es + room_for as \<le> 16384"
    and PE: "PE = unat pages + 16384" and d: "d = 0x10000000 - PE"
  shows "\<exists>k u m'. foldM (push_slot argv envp argvk (length as + 1)) (slot_list (length as + 1) (length es)) (pages + 0x4000, USER_STACK_TOP, m)
      = Some (k, u, m') \<and> unat k = PE - (room_for es + room_for as) \<and> unat u = unat k + d \<and> m0 \<subseteq>\<^sub>m m' \<and> dom m' = dom m
    \<and> (\<forall>a. a \<notin> {unat k..<PE} \<union> (\<Union>t\<in>slot_set as es. {unat argvk + 4 * t..<unat argvk + 4 * t + 4}) \<longrightarrow> m' a = m a)
    \<and> (\<forall>t\<in>slot_set as es. placed m' (unat k) PE d (argvk + 4 * of_nat t) (slot_str as es t))"
proof -
  let ?L = "map (slot_item m0 argv envp argvk as es) (slot_list (length as + 1) (length es))"
  have lay: "unat pages + 16384 \<le> 0x1000000" using a(1) by (simp add: exec_layout_def)
  have pe: "unat (pages + 0x4000) = PE" using lay by (simp add: PE unat_plus_if_size word_size)
  have ut: "unat USER_STACK_TOP = unat (pages + 0x4000) + d" using lay pe by (simp add: USER_STACK_TOP_def PE d)
  have dis: "dom m0 \<inter> K = {}" using i by (simp add: exec_input_def)
  note si = slot_items [OF a(1) sz(1) refl, of m0 argv envp]
  have c: "\<forall>it\<in>set ?L. cstr m0 (unat (fst it)) (snd (snd it))"
    using exec_input_slot(1) [OF i _ map_le_refl] by (simp add: slot_item_def)
  have sA: "slots_of ?L \<subseteq> {unat argvk..<unat argvk + 4096}" using si(3) by (rule order_trans) auto
  have rm: "room_of ?L = room_for es + room_for as" by (rule slot_room)
  have r: "stack_room m0 K m PE (PE + d) ?L"
  proof (rule stack_room_step [where P = "{unat pages..<PE}" and A = "{unat argvk..<unat argvk + 4096}"])
    show "{PE - room_of ?L..<PE} \<subseteq> {unat pages..<PE}" using sz(2) rm PE by auto
    show "{unat pages..<PE} \<inter> {unat argvk..<unat argvk + 4096} = {}" using a(1) PE by (auto simp: exec_layout_def)
    show "{unat pages..<PE} \<union> {unat argvk..<unat argvk + 4096} \<subseteq> K" by (simp add: a(2) exec_pages_def PE)
    show "room_of ?L \<le> PE" "room_of ?L \<le> PE + d" using rm sz(2) PE by simp_all
  qed (fact a dis c sA si(2))+
  have "foldM (push_slot argv envp argvk (length as + 1)) (slot_list (length as + 1) (length es)) (pages + 0x4000, USER_STACK_TOP, m)
      = foldM push_item ?L (pages + 0x4000, USER_STACK_TOP, m)"
    using r by (intro foldM_items [OF exec_input_slot(2) [OF i]]) (simp_all only: pe ut)
  note eq = this
  obtain k u m' where p: "foldM push_item ?L (pages + 0x4000, USER_STACK_TOP, m) = Some (k, u, m')"
      "unat k = PE - room_of ?L" "unat u = unat k + d" "m0 \<subseteq>\<^sub>m m'" "dom m' = dom m"
      "\<forall>a. a \<notin> {unat k..<PE} \<union> slots_of ?L \<longrightarrow> m' a = m a"
      "\<forall>it\<in>set ?L. placed m' (unat k) PE d (fst (snd it)) (snd (snd it))"
    using push_more [OF a dis c sA si(2) _ _ ut] pe rm sz(2) PE by auto
  have "\<forall>t\<in>slot_set as es. placed m' (unat k) PE d (argvk + 4 * of_nat t) (slot_str as es t)"
    using p(7) by (simp add: slot_item_def slot_set_def)
  then show ?thesis using eq [unfolded p(1)] p(2) [unfolded rm] p(3-5) p(6) [unfolded si(1)] by blast
qed

lemma all_pushes:
  assumes i: "exec_input m0 K filename argv envp f as x es"
    and a: "exec_layout pages argvk" "K = exec_pages pages argvk" "K \<subseteq> dom m" "m0 \<subseteq>\<^sub>m m"
    and sz: "length as + length es + 3 \<le> 1024" "string_room f as x es \<le> 16384"
    and PE: "PE = unat pages + 16384" and d: "d = 0x10000000 - PE"
  shows "\<exists>k u m'. do { st \<leftarrow> foldM (push_env envp (argvk + 4 * of_nat (length as + 1) + 4)) (rev [0..<length es]) (pages + 0x4000, USER_STACK_TOP, m);
        st \<leftarrow> foldM (push_arg argv argvk) (rev [0..<length as + 1]) st;
        push_string filename argvk st } = Some (k, u, m')
    \<and> unat k = PE - string_room f as x es \<and> dom m' = dom m
    \<and> (\<forall>a. a \<notin> {unat k..<PE} \<union> (\<Union>t\<in>insert 0 (slot_set as es). {unat argvk + 4 * t..<unat argvk + 4 * t + 4}) \<longrightarrow> m' a = m a)
    \<and> (\<forall>t\<in>insert 0 (slot_set as es). placed m' (unat k) PE d (argvk + 4 * of_nat t) (the_string f as es t))"
proof -
  let ?A = "unat argvk" and ?S = "slot_set as es"
  obtain q where q: "ld32 m0 (argv - 4) = Some q" "cstr m0 (unat q) x" using i by (auto simp: exec_input_def)
  have dis: "dom m0 \<inter> K = {}" and fn: "cstr m0 (unat filename) f" using i by (simp_all add: exec_input_def)
  have r: "room_for es + room_for as + (length x + 1) + (length f + 1) \<le> 16384" using sz(2) by (simp add: string_room_def)
  have r1: "room_for es + room_for as \<le> 16384" using r by simp
  obtain k1 u1 m1 where 1: "foldM (push_slot argv envp argvk (length as + 1)) (slot_list (length as + 1) (length es)) (pages + 0x4000, USER_STACK_TOP, m)
      = Some (k1, u1, m1)" "unat k1 = PE - (room_for es + room_for as)" "unat u1 = unat k1 + d" "m0 \<subseteq>\<^sub>m m1" "dom m1 = dom m"
      "\<And>a. a \<notin> {unat k1..<PE} \<union> (\<Union>t\<in>?S. {?A + 4 * t..<?A + 4 * t + 4}) \<Longrightarrow> m1 a = m a"
      "\<And>t. t \<in> ?S \<Longrightarrow> placed m1 (unat k1) PE d (argvk + 4 * of_nat t) (slot_str as es t)"
    using slots_pushed [OF i a sz(1) r1 PE d] by blast
  have k1: "unat pages + (length x + 1) \<le> unat k1" "unat k1 \<le> unat pages + 16384" "unat pages + ((length x + 1) + (length f + 1)) \<le> unat k1"
    using 1(2) r PE by simp_all
  obtain k2 u2 m2 where 2: "push_string q argvk (k1, u1, m1) = Some (k2, u2, m2)" "unat k2 = unat k1 - (length x + 1)"
      "unat u2 = unat k2 + d" "m0 \<subseteq>\<^sub>m m2" "dom m2 = dom m1" "\<And>a. a \<notin> {unat k2..<unat k1} \<union> {?A..<?A + 4} \<Longrightarrow> m2 a = m1 a"
    using push_one_more [OF a(1,2) _ 1(4) dis q(2) k1(1,2) 1(3)] a(3) 1(5) by auto
  have k2: "unat pages + (length f + 1) \<le> unat k2" "unat k2 \<le> unat pages + 16384" using 2(2) k1 by simp_all
  obtain k3 u3 m3 where 3: "push_string filename argvk (k2, u2, m2) = Some (k3, u3, m3)" "unat k3 = unat k2 - (length f + 1)"
      "dom m3 = dom m2" "\<And>a. a \<notin> {unat k3..<unat k2} \<union> {?A..<?A + 4} \<Longrightarrow> m3 a = m2 a" "placed m3 (unat k3) (unat k2) d argvk f"
    using push_one_more [OF a(1,2) _ 2(4) dis fn k2 2(3)] a(3) 1(5) 2(5) by auto
  have run: "do { st \<leftarrow> foldM (push_env envp (argvk + 4 * of_nat (length as + 1) + 4)) (rev [0..<length es]) (pages + 0x4000, USER_STACK_TOP, m);
        st \<leftarrow> foldM (push_arg argv argvk) (rev [0..<length as + 1]) st;
        push_string filename argvk st } = Some (k3, u3, m3)"
  proof -
    have p0: "push_arg argv argvk 0 (k1, u1, m1) = Some (k2, u2, m2)"
      using ld32_le [OF 1(4) q(1)] 2(1) by (simp add: push_arg_def)
    have "do { st \<leftarrow> foldM (push_env envp (argvk + 4 * of_nat (length as + 1) + 4)) (rev [0..<length es]) (pages + 0x4000, USER_STACK_TOP, m);
        foldM (push_arg argv argvk) (rev [0..<length as + 1]) st } = Some (k2, u2, m2)"
      by (subst pushes_as_slots, simp, simp only: 1(1) Option.bind.simps p0)
    then show ?thesis by (simp only: 3(1) Option.bind.simps flip: bind_assoc)
  qed
  have dom: "dom m3 = dom m" using 1(5) 2(5) 3(3) by simp
  have k3: "unat k3 = PE - string_room f as x es" "unat k3 \<le> unat k2" "unat k2 \<le> unat k1" "unat k1 \<le> PE"
    using 1(2) 2(2) 3(2) by (simp_all add: string_room_def)
  have out: "m3 a = m a" if "a \<notin> {unat k3..<PE} \<union> (\<Union>t\<in>insert 0 ?S. {?A + 4 * t..<?A + 4 * t + 4})" for a
  proof -
    have n: "a \<notin> {unat k3..<PE}" "a \<notin> {?A..<?A + 4}" "a \<notin> (\<Union>t\<in>?S. {?A + 4 * t..<?A + 4 * t + 4})" using that by auto
    have "m3 a = m2 a" using n k3 by (intro 3(4)) auto
    also have "\<dots> = m1 a" using n k3 by (intro 2(6)) auto
    also have "\<dots> = m a" using n k3 by (intro 1(6)) auto
    finally show ?thesis .
  qed
  have same: "m3 a = m1 a" if "unat k1 \<le> a" "a < PE" "a \<notin> {?A..<?A + 4}" for a
  proof -
    have "m3 a = m2 a" using that k3 by (intro 3(4)) auto
    also have "\<dots> = m1 a" using that k3 by (intro 2(6)) auto
    finally show ?thesis .
  qed
  have "placed m3 (unat k3) PE d (argvk + 4 * of_nat t) (the_string f as es t)" if t: "t \<in> insert 0 ?S" for t
  proof (cases "t = 0")
    case True
    have "placed m3 (unat k3) PE d argvk f" by (rule placed_higher [OF 3(5)]) (use k3 in simp)
    then show ?thesis by (simp add: True the_string_def)
  next
    case False
    then have t: "t \<in> ?S" "1 \<le> t" "t < 1024" using t sz(1) by (auto simp: slot_set)
    have sl: "unat (argvk + 4 * of_nat t) = ?A + 4 * t"
      using a(1) t(3) by (intro slot_addr) (simp_all add: exec_layout_def)
    have far: "{?A..<?A + 4096} \<inter> {unat pages..<PE} = {}" using a(1) PE by (auto simp: exec_layout_def)
    have lo: "unat pages \<le> unat k3" using k3(1) sz(2) PE by simp
    have "placed m3 (unat k3) PE d (argvk + 4 * of_nat t) (slot_str as es t)"
    proof (rule placed_cong [OF 1(7) [OF t(1)]])
      fix a assume b: "unat k1 \<le> a" "a < PE"
      then have "a \<in> {unat pages..<PE}" using lo k3 by simp
      then have "a \<notin> {?A..<?A + 4}" using far by auto
      then show "m3 a = m1 a" using b same by blast
    next
      fix i :: nat assume b: "i < 4"
      let ?a = "?A + 4 * t + i"
      have "?a \<in> {?A..<?A + 4096}" "?a \<notin> {?A..<?A + 4}" using t b by simp_all
      then have n: "?a \<notin> {unat pages..<PE}" "?a \<notin> {?A..<?A + 4}" using far by blast+
      have "m3 ?a = m2 ?a" using n k3 lo by (intro 3(4)) auto
      also have "\<dots> = m1 ?a" using n k3 lo by (intro 2(6)) auto
      finally show "m3 (unat (argvk + 4 * of_nat t) + i) = m1 (unat (argvk + 4 * of_nat t) + i)" by (simp only: sl)
    qed (use k3 in simp)
    then show ?thesis using False by (simp add: the_string_def)
  qed
  then show ?thesis using run dom k3(1) out by blast
qed

text \<open>The two arrays go below the strings; together they are the kernel's array.\<close>

lemma memcpy_any:
  assumes "mapped m src n" "mapped m dest n" "apart dest n src n"
  shows "memcpy m dest src n = Some (overwrite m dest (map (\<lambda>i. the (m (src + i))) [0..<n]))"
  using memcpy_copies [of m src "map (\<lambda>i. the (m (src + i))) [0..<n]" dest] region_the [OF assms(1)] assms(2,3) by simp

lemma overwrite_at: "i < length bs \<Longrightarrow> overwrite m p bs (p + i) = Some (bs ! i)"
  by (simp add: overwrite_def)

lemma overwrite_other: "q < p \<or> p + length bs \<le> q \<Longrightarrow> overwrite m p bs q = m q"
  by (rule overwrite_outside)

lemma overwrite_notin: "q \<notin> {p..<p + 4} \<Longrightarrow> overwrite m p (bytes_of v) q = m q"
  by (intro overwrite_other) auto

lemma interval_sub: "{x..<y} \<subseteq> K \<Longrightarrow> x \<le> a \<Longrightarrow> b \<le> y \<Longrightarrow> {a..<b} \<subseteq> K" for a b :: nat
  by (rule subset_trans [of _ "{x..<y}"]) auto

lemma copy_arrays:
  assumes K: "K \<subseteq> dom m" "{lo..<lo + (n1 + n2)} \<subseteq> K" "{a..<a + (n1 + n2)} \<subseteq> K" "apart lo (n1 + n2) a (n1 + n2)"
  shows "\<exists>m1 m2. memcpy m (lo + n1) (a + n1) n2 = Some m1 \<and> memcpy m1 lo a n1 = Some m2 \<and> dom m2 = dom m
    \<and> (\<forall>i<n1 + n2. m2 (lo + i) = m (a + i)) \<and> (\<forall>q. q \<notin> {lo..<lo + (n1 + n2)} \<longrightarrow> m2 q = m q)"
proof -
  have sub1: "{lo + n1..<lo + n1 + n2} \<subseteq> K" by (rule interval_sub [OF K(2)]) simp_all
  have sub2: "{a + n1..<a + n1 + n2} \<subseteq> K" by (rule interval_sub [OF K(3)]) simp_all
  have sub3: "{lo..<lo + n1} \<subseteq> K" by (rule interval_sub [OF K(2)]) simp_all
  have sub4: "{a..<a + n1} \<subseteq> K" by (rule interval_sub [OF K(3)]) simp_all
  note sub = sub1 sub2 sub3 sub4
  define m1 where "m1 = overwrite m (lo + n1) (map (\<lambda>i. the (m (a + n1 + i))) [0..<n2])"
  define m2 where "m2 = overwrite m1 lo (map (\<lambda>i. the (m1 (a + i))) [0..<n1])"
  have md: "mapped m (lo + n1) n2" by (rule mapped_sub [OF sub(1) K(1)])
  have d1: "dom m1 = dom m" unfolding m1_def using md by (intro dom_overwrite) simp
  have md1: "mapped m1 lo n1" "mapped m1 a n1" using sub(3,4) K(1) d1 by (auto intro!: mapped_sub [where K = K])
  have c1: "memcpy m (lo + n1) (a + n1) n2 = Some m1"
    unfolding m1_def by (rule memcpy_any [OF mapped_sub [OF sub(2) K(1)] md]) (use K(4) in \<open>auto simp: apart_def\<close>)
  have c2: "memcpy m1 lo a n1 = Some m2"
    unfolding m2_def using K(4) md1 by (intro memcpy_any) (auto simp: apart_def)
  have d2: "dom m2 = dom m" unfolding m2_def d1 [symmetric] using md1(1) by (intro dom_overwrite) simp
  have src: "m1 (a + i) = m (a + i)" if "i < n1 + n2" for i
    unfolding m1_def using K(4) that by (intro overwrite_other) (auto simp: apart_def)
  have some: "m (a + i) = Some (the (m (a + i)))" if "i < n1 + n2" for i
  proof -
    have "a + i \<in> {a..<a + (n1 + n2)}" using that by simp
    then have "a + i \<in> dom m" using K(1,3) by blast
    then show ?thesis by auto
  qed
  have cp: "m2 (lo + i) = m (a + i)" if i: "i < n1 + n2" for i
  proof (cases "i < n1")
    case True
    have "m2 (lo + i) = Some (the (m1 (a + i)))" unfolding m2_def using True by (simp add: overwrite_at)
    then show ?thesis using src [OF i] some [OF i] by simp
  next
    case False
    then obtain j where j: "i = n1 + j" using le_Suc_ex not_less by blast
    have "m2 (lo + i) = m1 (lo + i)" unfolding m2_def using False by (intro overwrite_other) simp
    also have "\<dots> = Some (the (m (a + n1 + j)))"
      unfolding m1_def using i j overwrite_at [of j "map (\<lambda>i. the (m (a + n1 + i))) [0..<n2]" m "lo + n1"] by (simp add: add.assoc)
    finally show ?thesis using some [OF i] j by (simp add: add.assoc)
  qed
  have out: "m2 q = m q" if "q \<notin> {lo..<lo + (n1 + n2)}" for q
  proof -
    have "m2 q = m1 q" unfolding m2_def using that by (intro overwrite_other) auto
    also have "\<dots> = m q" unfolding m1_def using that by (intro overwrite_other) auto
    finally show ?thesis .
  qed
  show ?thesis using c1 c2 d2 cp out by blast
qed

lemma ld32_shift:
  assumes "\<And>i. i < 4 \<Longrightarrow> m' (unat p' + i) = m (unat p + i)"
  shows "ld32 m' p' = ld32 m p"
  using assms [of 0] assms [of 1] assms [of 2] assms [of 3] by (simp add: ld32_def)

text \<open>What \<open>build_stack\<close> leaves in the kernel's pages: the count, the array with its two null pointers, the strings.\<close>

definition stack_image :: "mem \<Rightarrow> nat \<Rightarrow> nat \<Rightarrow> u32 \<Rightarrow> bytes \<Rightarrow> bytes list \<Rightarrow> bytes list \<Rightarrow> bool" where
  "stack_image m hi d tos f as es \<longleftrightarrow> ld32 m tos = Some (of_nat (length as + 1))
     \<and> (\<forall>t\<in>insert 0 (slot_set as es). placed m (unat tos) hi d (tos + 4 + 4 * of_nat t) (the_string f as es t))
     \<and> ld32 m (tos + 4 + 4 * of_nat (length as + 1)) = Some 0
     \<and> ld32 m (tos + 4 + 4 * of_nat (length as + 2 + length es)) = Some 0"

lemma build_stack_image:
  assumes i: "exec_input m0 K filename argv envp f as x es"
    and a: "exec_layout pages argvk" "K = exec_pages pages argvk" "K \<subseteq> dom m" "m0 \<subseteq>\<^sub>m m"
    and sz: "length as + length es + 3 \<le> 1024" "image_size f as x es \<le> 16384"
    and PE: "PE = unat pages + 16384" and d: "d = 0x10000000 - PE"
  shows "\<exists>tos m'. build_stack filename argv envp (length as + 1) (length es) (pages + 0x4000) argvk m = Some (tos, m')
    \<and> unat tos = PE - image_size f as x es \<and> dom m' = dom m \<and> (\<forall>a. a \<notin> K \<longrightarrow> m' a = m a)
    \<and> stack_image m' PE d tos f as es"
proof -
  let ?A = "unat argvk" and ?n = "length as" and ?e = "length es" and ?S = "insert 0 (slot_set as es)"
  let ?z1 = "argvk + 4 * of_nat (?n + 1)" and ?z2 = "argvk + 4 * of_nat (?n + 1) + 4 + 4 * of_nat ?e"
  have lay: "?A + 4096 \<le> 0x1000000" "unat pages + 16384 \<le> 0x1000000" using a(1) by (simp_all add: exec_layout_def)
  have sl: "unat (argvk + 4 * of_nat t) = ?A + 4 * t" if "t < 1024" for t using slot_addr [OF lay(1) that] .
  have z2: "?z2 = argvk + 4 * of_nat (?n + 2 + ?e)" by (simp add: algebra_simps)
  have z: "unat ?z1 = ?A + 4 * (?n + 1)" "unat ?z2 = ?A + 4 * (?n + 2 + ?e)" unfolding z2 using sz(1) by (intro sl; simp)+
  have AK: "{?A..<?A + 4096} \<subseteq> K" "{unat pages..<PE} \<subseteq> K" by (simp_all add: a(2) exec_pages_def PE)
  have far: "{?A..<?A + 4096} \<inter> {unat pages..<PE} = {}" using a(1) PE by (auto simp: exec_layout_def)
  define m1 where "m1 = overwrite m (unat ?z1) (bytes_of 0)"
  define m2 where "m2 = overwrite m1 (unat ?z2) (bytes_of 0)"
  have zK1: "{unat ?z1..<unat ?z1 + 4} \<subseteq> K" unfolding z using sz(1) by (intro interval_sub [OF AK(1)]) simp_all
  have zK2: "{unat ?z2..<unat ?z2 + 4} \<subseteq> K" unfolding z using sz(1) by (intro interval_sub [OF AK(1)]) simp_all
  note zK = zK1 zK2
  have mz: "mapped m (unat ?z1) 4" "mapped m (unat ?z2) 4" by (rule mapped_sub [OF zK(1) a(3)], rule mapped_sub [OF zK(2) a(3)])
  have st: "st32 ?z1 0 m = Some m1" "st32 ?z2 0 m1 = Some m2"
    unfolding m1_def m2_def by (simp_all only: st32_overwrite mapped_overwrite mz)
  have d2: "dom m2 = dom m" unfolding m2_def m1_def using mz by (simp add: dom_overwrite mapped_overwrite)
  have le2: "m0 \<subseteq>\<^sub>m m2" unfolding m2_def m1_def
    using i zK by (intro map_le_overwrite [OF map_le_overwrite [OF a(4)]]) (simp_all add: exec_input_def)
  have ld2: "ld32 m2 ?z1 = Some 0" "ld32 m2 ?z2 = Some 0"
  proof -
    show "ld32 m2 ?z2 = Some 0" unfolding m2_def by (intro ld32_region) simp
    have "ld32 m2 ?z1 = ld32 m1 ?z1" unfolding m2_def using z by (intro ld32_cong overwrite_other) simp
    also have "\<dots> = Some 0" unfolding m1_def by (intro ld32_region) simp
    finally show "ld32 m2 ?z1 = Some 0" .
  qed
  have sr: "string_room f as x es + 4 * (?e + 1) + 4 * (?n + 2) + 4 = image_size f as x es"
    by (simp add: string_room_def image_size_def)
  have sr2: "string_room f as x es \<le> 16384" using sr sz(2) by linarith
  have K2: "K \<subseteq> dom m2" using a(3) d2 by simp
  obtain k u m3 where 3: "do { st \<leftarrow> foldM (push_env envp (argvk + 4 * of_nat (?n + 1) + 4)) (rev [0..<?e]) (pages + 0x4000, USER_STACK_TOP, m2);
        st \<leftarrow> foldM (push_arg argv argvk) (rev [0..<?n + 1]) st;
        push_string filename argvk st } = Some (k, u, m3)"
      "unat k = PE - string_room f as x es" "dom m3 = dom m2"
      "\<And>a. a \<notin> {unat k..<PE} \<union> (\<Union>t\<in>?S. {?A + 4 * t..<?A + 4 * t + 4}) \<Longrightarrow> m3 a = m2 a"
      "\<And>t. t \<in> ?S \<Longrightarrow> placed m3 (unat k) PE d (argvk + 4 * of_nat t) (the_string f as es t)"
    using all_pushes [OF i a(1,2) K2 le2 sz(1) sr2 PE d] by blast
  define lo where "lo = unat k - 4 * (?e + 1) - 4 * (?n + 2)"
  define w :: nat where "w = 4 * (?n + 2) + 4 * (?e + 1)"
  have kk: "unat pages + (w + 4) \<le> unat k" "unat k \<le> PE" "lo + w = unat k" "w \<le> 4096"
    using 3(2) sr sz PE by (simp_all add: lo_def w_def)
  have K3: "K \<subseteq> dom m3" using K2 3(3) by simp
  have loK: "{lo..<lo + w} \<subseteq> K" by (rule interval_sub [OF AK(2)]) (use kk in simp_all)
  have aK: "{?A..<?A + w} \<subseteq> K" by (rule interval_sub [OF AK(1)]) (use kk in simp_all)
  have ap: "apart lo w ?A w"
  proof -
    have "lo + w \<le> PE" "unat pages \<le> lo" using kk by simp_all
    then show ?thesis using a(1) kk(4) PE by (auto simp: apart_def exec_layout_def)
  qed
  obtain m4 m5 where 4: "memcpy m3 (lo + 4 * (?n + 2)) (?A + 4 * (?n + 2)) (4 * (?e + 1)) = Some m4"
      "memcpy m4 lo ?A (4 * (?n + 2)) = Some m5" "dom m5 = dom m3" "\<And>i. i < w \<Longrightarrow> m5 (lo + i) = m3 (?A + i)"
      "\<And>q. q \<notin> {lo..<lo + w} \<Longrightarrow> m5 q = m3 q"
    using copy_arrays [OF K3, of lo "4 * (?n + 2)" "4 * (?e + 1)" ?A] loK aK ap unfolding w_def by blast
  obtain st1 st2 where run: "foldM (push_env envp (argvk + 4 * of_nat (?n + 1) + 4)) (rev [0..<?e]) (pages + 0x4000, USER_STACK_TOP, m2) = Some st1"
      "foldM (push_arg argv argvk) (rev [0..<?n + 1]) st1 = Some st2" "push_string filename argvk st2 = Some (k, u, m3)"
    using 3(1) by (elim bind_eq_SomeE)
  have ev: "argvk + 4 * of_nat (?n + 1) + 4 = argvk + 4 * of_nat (?n + 2)" by (simp add: algebra_simps)
  have uev: "unat (argvk + 4 * of_nat (?n + 1) + 4) = ?A + 4 * (?n + 2)" unfolding ev using sz(1) by (intro sl) simp
  define k1 where "k1 = k - of_nat ((?e + 1) * 4)"
  define k2 where "k2 = k1 - of_nat ((?n + 1 + 1) * 4)"
  define tos where "tos = k2 - 4"
  have uk1: "unat k1 = lo + 4 * (?n + 2)" unfolding k1_def
    by (subst unat_minus_nat) (use kk in \<open>simp_all add: w_def del: of_nat_Suc of_nat_add of_nat_mult\<close>)
  have uk2: "unat k2 = lo" unfolding k2_def
    by (subst unat_minus_nat) (use kk uk1 in \<open>simp_all add: w_def del: of_nat_Suc of_nat_add of_nat_mult\<close>)
  have lo4: "unat pages + 4 \<le> lo + 4" "4 \<le> lo" "unat pages \<le> lo - 4"
    using kk by simp_all
  have ut: "unat tos = lo - 4" unfolding tos_def using lo4 uk2 unat_sub [of 4 k2] by (simp add: word_le_nat_alt)
  define m6 where "m6 = overwrite m5 (lo - 4) (bytes_of (of_nat (?n + 1)))"
  have tK: "{lo - 4..<lo - 4 + 4} \<subseteq> K" by (rule interval_sub [OF AK(2)]) (use kk lo4 in simp_all)
  have mt: "mapped m5 (lo - 4) 4" using tK K3 4(3) by (intro mapped_sub [where K = K]) auto
  have st6: "st32 tos (of_nat (?n + 1)) m5 = Some m6"
    unfolding m6_def ut [symmetric] using mt by (intro st32_overwrite) (simp only: ut)
  have b: "build_stack filename argv envp (?n + 1) ?e (pages + 0x4000) argvk m = Some (tos, m6)"
  proof -
    have c1: "memcpy m3 (unat k1) (unat (argvk + 4 * of_nat (?n + 1) + 4)) ((?e + 1) * 4) = Some m4"
      using 4(1) by (simp only: uk1 uev mult.commute)
    have c2: "memcpy m4 (unat k2) ?A ((?n + 1 + 1) * 4) = Some m5"
      using 4(2) by (simp only: uk2 mult.commute add.assoc one_add_one)
    show ?thesis unfolding build_stack_def Let_def st Option.bind.simps run prod.case c1 [unfolded k1_def] c2 [unfolded k2_def k1_def]
        st6 [unfolded tos_def k2_def k1_def] unfolding tos_def k2_def k1_def by (rule refl)
  qed
  have m6: "m6 q = m5 q" if "q \<notin> {lo - 4..<lo}" for q
    unfolding m6_def using that lo4 by (intro overwrite_other) auto
  have word: "ld32 m6 (tos + 4 + 4 * of_nat t) = ld32 m3 (argvk + 4 * of_nat t)" if t: "t < ?n + 3 + ?e" for t
  proof (rule ld32_shift)
    fix i :: nat assume b: "i < 4"
    have b2: "4 * t + i < w" using t b by (simp add: w_def)
    have "tos + 4 + 4 * of_nat t = k2 + of_nat (4 * t)" by (simp add: tos_def)
    moreover have "unat (k2 + of_nat (4 * t)) = lo + 4 * t"
      using uk2 b2 kk PE lay by (subst unat_plus_nat) simp_all
    ultimately have u: "unat (tos + 4 + 4 * of_nat t) = lo + 4 * t" by simp
    have "m6 (lo + (4 * t + i)) = m5 (lo + (4 * t + i))" by (rule m6) simp
    also have "\<dots> = m3 (?A + (4 * t + i))" by (rule 4(4) [OF b2])
    moreover have "unat (argvk + 4 * of_nat t) = ?A + 4 * t" using t sz(1) by (intro sl) simp
    ultimately show "m6 (unat (tos + 4 + 4 * of_nat t) + i) = m3 (unat (argvk + 4 * of_nat t) + i)"
      unfolding u by (simp only: add.assoc)
  qed
  have high: "m6 q = m3 q" if "unat k \<le> q" for q
  proof -
    have "m6 q = m5 q" using that kk by (intro m6) auto
    also have "\<dots> = m3 q" using that kk by (intro 4(5)) auto
    finally show ?thesis .
  qed
  have pl: "placed m6 (unat tos) PE d (tos + 4 + 4 * of_nat t) (the_string f as es t)" if t: "t \<in> ?S" for t
  proof -
    obtain q where q: "unat k \<le> q" "q + (length (the_string f as es t) + 1) \<le> PE" "cstr m3 q (the_string f as es t)"
        "ld32 m3 (argvk + 4 * of_nat t) = Some (of_nat (q + d))"
      using 3(5) [OF t] unfolding placed_def by blast
    have "t < ?n + 3 + ?e" using t by (auto simp: slot_set)
    then have "ld32 m6 (tos + 4 + 4 * of_nat t) = Some (of_nat (q + d))" using word q(4) by simp
    moreover have "cstr m6 q (the_string f as es t)"
      using q(1,3) high by (subst cstr_cong [of _ _ m6 m3]) auto
    moreover have "unat tos \<le> q" using q(1) ut kk by simp
    ultimately show ?thesis using q(2) unfolding placed_def by blast
  qed
  have zero: "ld32 m3 (argvk + 4 * of_nat t) = Some 0" if t: "t \<notin> ?S" "t < ?n + 3 + ?e" "ld32 m2 (argvk + 4 * of_nat t) = Some 0" for t
  proof -
    have tb: "t < 1024" using t(2) sz(1) by simp
    have "m3 (unat (argvk + 4 * of_nat t) + i) = m2 (unat (argvk + 4 * of_nat t) + i)" if b: "i < 4" for i
    proof (rule 3(4))
      have "?A + 4 * t + i \<in> {?A..<?A + 4096}" using tb b by simp
      then have "?A + 4 * t + i \<notin> {unat pages..<PE}" using far by blast
      moreover have "?A + 4 * t + i \<notin> {?A + 4 * v..<?A + 4 * v + 4}" if "v \<in> ?S" for v
      proof -
        have "v \<noteq> t" using that t(1) by auto
        then show ?thesis using b by (cases "v < t") auto
      qed
      moreover have "{unat k..<PE} \<subseteq> {unat pages..<PE}" using kk(1) by auto
      ultimately show "unat (argvk + 4 * of_nat t) + i \<notin> {unat k..<PE} \<union> (\<Union>t\<in>?S. {?A + 4 * t..<?A + 4 * t + 4})"
        unfolding sl [OF tb] by blast
    qed
    then show ?thesis using t(3) by (simp only: ld32_cong [of m3 _ m2])
  qed
  have zs: "ld32 m6 (tos + 4 + 4 * of_nat (?n + 1)) = Some 0" "ld32 m6 (tos + 4 + 4 * of_nat (?n + 2 + ?e)) = Some 0"
    using word [of "?n + 1"] word [of "?n + 2 + ?e"] zero [of "?n + 1"] zero [of "?n + 2 + ?e"] ld2(1) ld2(2) [unfolded z2]
    by (simp_all add: slot_set del: of_nat_Suc of_nat_add)
  have cnt: "ld32 m6 tos = Some (of_nat (?n + 1))" unfolding m6_def ut [symmetric] by (rule ld32_region) simp
  have im: "stack_image m6 PE d tos f as es" unfolding stack_image_def using cnt pl zs by blast
  have out: "m6 q = m q" if q: "q \<notin> K" for q
  proof -
    have n: "q \<notin> {?A..<?A + 4096}" "q \<notin> {unat pages..<PE}" using q AK by blast+
    have sv: "{?A + 4 * v..<?A + 4 * v + 4} \<subseteq> {?A..<?A + 4096}" if "v \<in> ?S" for v
      using that sz(1) by (auto simp: slot_set)
    have "m6 q = m5 q" using q tK lo4 by (intro m6) auto
    also have "\<dots> = m3 q" using q loK by (intro 4(5)) auto
    also have "\<dots> = m2 q"
    proof (rule 3(4))
      have "{unat k..<PE} \<subseteq> {unat pages..<PE}" using kk(1) by auto
      then show "q \<notin> {unat k..<PE} \<union> (\<Union>t\<in>?S. {?A + 4 * t..<?A + 4 * t + 4})" using n sv by blast
    qed
    also have "\<dots> = m1 q" unfolding m2_def by (rule overwrite_notin) (use q zK2 in blast)
    also have "\<dots> = m q" unfolding m1_def by (rule overwrite_notin) (use q zK1 in blast)
    finally show ?thesis .
  qed
  have "unat tos = PE - image_size f as x es" using ut 3(2) sr kk(3) sz(2) PE unfolding w_def by linarith
  moreover have "dom m6 = dom m" unfolding m6_def using mt 4(3) 3(3) d2 by (simp add: dom_overwrite)
  ultimately show ?thesis using b out im by blast
qed

subsection \<open>The image on the user's stack\<close>

lemma cstr_moved:
  assumes "cstr m q s" "\<And>a. q \<le> a \<Longrightarrow> a < q + length s + 1 \<Longrightarrow> m' (a + d) = m a"
  shows "cstr m' (q + d) s"
proof -
  have "m' (q + d + i) = Some ((s @ [EOS]) ! i)" if "i < length s + 1" for i
    using assms(1) assms(2) [of "q + i"] that by (simp add: cstr_def region_def algebra_simps)
  then show ?thesis using cstr_nonzero [OF assms(1)] by (simp add: cstr_def region_def)
qed

lemma image_moved:
  assumes im: "stack_image m hi d tos f as es" and mv: "\<And>a. unat tos \<le> a \<Longrightarrow> a < hi \<Longrightarrow> m' (a + d) = m a"
    and u: "unat utos = unat tos + d" and hi: "hi + d \<le> 0x10000000" "unat tos + 4 * (length as + length es + 3) + 4 \<le> hi"
  shows "ld32 m' utos = Some (of_nat (length as + 1))" "strings_at m' (utos + 4) (f # as)"
    "strings_at m' (utos + 4 + 4 * of_nat (length as + 2)) es"
proof -
  have at: "unat (b + 4 + 4 * of_nat t) = unat b + 4 + 4 * t" if "unat b + 4 * t + 4 < 4294967296" for b :: u32 and t
  proof -
    have "b + 4 + 4 * of_nat t = b + of_nat (4 + 4 * t)" by simp
    moreover have "unat (b + of_nat (4 + 4 * t)) = unat b + (4 + 4 * t)" by (rule unat_plus_nat) (use that in simp)
    ultimately show ?thesis by (simp only: add.assoc)
  qed
  have word: "ld32 m' (utos + 4 + 4 * of_nat t) = ld32 m (tos + 4 + 4 * of_nat t)" if t: "t < length as + length es + 3" for t
  proof (rule ld32_shift)
    fix i :: nat assume i: "i < 4"
    have r: "unat tos + 4 * t + 4 + i < hi" using t hi(2) i by simp
    then have "unat (utos + 4 + 4 * of_nat t) = unat (tos + 4 + 4 * of_nat t) + d"
      "unat (tos + 4 + 4 * of_nat t) = unat tos + 4 + 4 * t"
      using hi(1) u by (simp_all add: at)
    then show "m' (unat (utos + 4 + 4 * of_nat t) + i) = m (unat (tos + 4 + 4 * of_nat t) + i)"
      using mv [of "unat tos + 4 + 4 * t + i"] r by (simp add: algebra_simps)
  qed
  have str: "\<exists>p. ld32 m' (utos + 4 + 4 * of_nat t) = Some p \<and> cstr m' (unat p) (the_string f as es t)"
    if t: "t \<in> insert 0 (slot_set as es)" for t
  proof -
    obtain q where q: "unat tos \<le> q" "q + (length (the_string f as es t) + 1) \<le> hi" "cstr m q (the_string f as es t)"
        "ld32 m (tos + 4 + 4 * of_nat t) = Some (of_nat (q + d))"
      using im t unfolding stack_image_def placed_def by blast
    have "cstr m' (q + d) (the_string f as es t)" using q(1,2) by (intro cstr_moved [OF q(3)] mv) auto
    moreover have "unat (of_nat (q + d) :: u32) = q + d"
      using q(2) hi(1) by (simp add: unat_of_nat take_bit_nat_eq_self del: of_nat_add)
    moreover have "t < length as + length es + 3" using t by (auto simp: slot_set)
    ultimately show ?thesis using word q(4) by (metis)
  qed
  show "ld32 m' utos = Some (of_nat (length as + 1))"
  proof -
    have "ld32 m' utos = ld32 m tos"
    proof (rule ld32_shift)
      fix i :: nat assume "i < 4"
      then have "m' (unat tos + i + d) = m (unat tos + i)" using hi(2) by (intro mv) simp_all
      then show "m' (unat utos + i) = m (unat tos + i)" by (simp add: u add.assoc add.commute [of d])
    qed
    then show ?thesis using im by (simp add: stack_image_def)
  qed
  show "strings_at m' (utos + 4) (f # as)"
    unfolding strings_at_def
  proof (intro conjI allI impI)
    fix j assume j: "j < length (f # as)"
    then have "j \<in> insert 0 (slot_set as es)" "the_string f as es j = (f # as) ! j"
      by (auto simp: slot_set the_string_def slot_str_def nth_Cons')
    then show "\<exists>p. ld32 m' (utos + 4 + 4 * of_nat j) = Some p \<and> cstr m' (unat p) ((f # as) ! j)" using str by metis
  next
    show "ld32 m' (utos + 4 + 4 * of_nat (length (f # as))) = Some 0"
      using word [of "length as + 1"] im by (simp add: stack_image_def)
  qed
  have sh: "utos + 4 + 4 * of_nat (length as + 2) + 4 * of_nat j = utos + 4 + 4 * of_nat (length as + 2 + j)" for j
    by (simp add: algebra_simps)
  show "strings_at m' (utos + 4 + 4 * of_nat (length as + 2)) es"
    unfolding strings_at_def sh
  proof (intro conjI allI impI)
    fix j assume j: "j < length es"
    then have "length as + 2 + j \<in> insert 0 (slot_set as es)" "the_string f as es (length as + 2 + j) = es ! j"
      by (auto simp: slot_set the_string_def slot_str_def)
    then show "\<exists>p. ld32 m' (utos + 4 + 4 * of_nat (length as + 2 + j)) = Some p \<and> cstr m' (unat p) (es ! j)" using str by metis
  next
    show "ld32 m' (utos + 4 + 4 * of_nat (length as + 2 + length es)) = Some 0"
      using word [of "length as + 2 + length es"] im by (simp add: stack_image_def)
  qed
qed

text \<open>C6: A program gets the arguments and the environment it was started with. The pointers the caller passes may lie
  anywhere outside the two allocations of the kernel, also on the stack that is overwritten. Afterwards the stack
  starts with the number of arguments, an array of the file name and the arguments and an array of the environment,
  each ended by a null pointer and pointing to copies of the strings. It needs a readable string at the word before the
  arguments, which the code pushes as well, an image of less than four pages, and the pages of the stack it covers linked
  already; what \<open>load_elf\<close> does to the memory before is not part of it.\<close>

theorem program_gets_arguments:
  assumes i: "exec_input (um s |` (- exec_pages pages argvk)) (exec_pages pages argvk) filename argv envp f as x es"
    and al: "alloc_kpage 4 (vm s) = Some (pages, v1)" "alloc_kpage 1 v1 = Some (argvk, v2)"
    and fr: "free_kpage argvk 1 v2 = Some v3" "free_kpage pages 4 v3 = Some v4"
    and lay: "exec_layout pages argvk" "exec_pages pages argvk \<subseteq> dom (um s)"
    and sz: "length as + length es + 3 \<le> 1024" "image_size f as x es < 16384"
    and stk: "mapped (um s) (0x10000000 - image_size f as x es) (image_size f as x es)"
  shows "\<exists>sp s'. copy_argv_envp junk filename argv envp s = Some (sp, s')
    \<and> unat sp = 0x10000000 - image_size f as x es
    \<and> ld32 (um s') sp = Some (of_nat (length as + 1))
    \<and> strings_at (um s') (sp + 4) (f # as)
    \<and> strings_at (um s') (sp + 4 + 4 * of_nat (length as + 2)) es"
proof -
  let ?K = "exec_pages pages argvk" and ?N = "image_size f as x es"
  let ?m0 = "um s |` (- ?K)"
  define PE where "PE = unat pages + 16384"
  define d where "d = 0x10000000 - PE"
  have le: "?m0 \<subseteq>\<^sub>m um s" by (auto simp: map_le_def)
  have c: "count_argv (um s) argv = Some (length as)" "count_argv (um s) envp = Some (length es)"
    using i count_argv_strings [OF _ _ le] by (auto simp: exec_input_def)
  have l: "unat pages + 16384 \<le> 0x1000000" using lay(1) by (simp add: exec_layout_def)
  have Nle: "?N \<le> 16384" using sz(2) by simp
  obtain tos m' where b: "build_stack filename argv envp (length as + 1) (length es) (pages + 0x4000) argvk (um s) = Some (tos, m')"
      "unat tos = PE - ?N" "dom m' = dom (um s)" "\<forall>a. a \<notin> ?K \<longrightarrow> m' a = um s a" "stack_image m' PE d tos f as es"
    using build_stack_image [OF i lay(1) refl lay(2) le sz(1) Nle PE_def d_def] by blast
  have pe: "pages + PAGE_SIZE * 4 = pages + 0x4000" "unat (pages + 0x4000) = PE"
    using l by (simp_all add: PAGE_SIZE_def PE_def unat_plus_if_size word_size)
  define len where "len = pages + 0x4000 - tos"
  have ul: "unat len = ?N" unfolding len_def using b(2) pe(2) Nle PE_def by (subst unat_sub) (simp_all add: word_le_nat_alt)
  define sp where "sp = USER_STACK_TOP - len"
  have us: "unat sp = 0x10000000 - ?N" unfolding sp_def using ul Nle
    by (subst unat_sub) (simp_all add: word_le_nat_alt USER_STACK_TOP_def)
  have gt: "tos > pages" using b(2) sz(2) by (simp add: word_less_nat_alt PE_def)
  have rK: "{unat tos..<unat tos + ?N} \<subseteq> ?K" using b(2) Nle PE_def by (auto simp: exec_pages_def)
  have mp: "mapped m' (unat tos) ?N" by (rule mapped_sub [OF rK]) (use lay(2) b(3) in simp)
  define bs where "bs = map (\<lambda>i. the (m' (unat tos + i))) [0..<?N]"
  have bs: "get_mem m' (unat tos) ?N = Some bs"
    using get_mem_region [OF region_the [OF mp]] by (simp add: bs_def)
  have ms: "mapped m' (unat sp) (length bs)" using stk b(3) us by (auto simp: bs_def mapped_def dom_def)
  define u where "u = overwrite m' (unat sp) bs"
  have put: "put_user junk (unat sp) bs (s\<lparr>vm := v2, um := m'\<rparr>) = Some (s\<lparr>vm := v2, um := u\<rparr>)"
    using put_user_mapped [of "s\<lparr>vm := v2, um := m'\<rparr>" "unat sp" bs junk] ms by (simp add: u_def)
  have run: "copy_argv_envp junk filename argv envp s = Some (sp, s\<lparr>vm := v4, um := u\<rparr>)"
    unfolding copy_argv_envp_def c al Let_def Option.bind.simps prod.case pe(1) b(1) len_def [symmetric] sp_def [symmetric] ul bs
    using gt bs put fr by simp
  have mv: "u (a + d) = m' a" if a: "unat tos \<le> a" "a < PE" for a
  proof -
    obtain j where j: "a = unat tos + j" using a(1) le_Suc_ex by blast
    have jN: "j < ?N" using a(2) j b(2) by simp
    have "a + d = unat sp + j" using j us b(2) l Nle PE_def by (simp add: d_def)
    moreover have "overwrite m' (unat sp) bs (unat sp + j) = Some (bs ! j)" by (rule overwrite_at) (simp add: bs_def jN)
    moreover have "bs ! j = the (m' a)" using jN j by (simp add: bs_def)
    ultimately have "u (a + d) = Some (the (m' a))" by (simp only: u_def)
    also have "\<dots> = m' a" using mp jN j by (auto simp: mapped_def)
    finally show ?thesis .
  qed
  have ud: "unat sp = unat tos + d" using us b(2) l Nle by (simp add: d_def PE_def)
  have hi: "PE + d \<le> 0x10000000" "unat tos + 4 * (length as + length es + 3) + 4 \<le> PE"
    using l b(2) Nle by (simp_all add: d_def PE_def image_size_def)
  show ?thesis using run us image_moved [OF b(5) mv ud hi] by auto
qed

text \<open>A caller with one argument and one variable, and the word before the arguments the address of a string.\<close>

definition sample_user :: bytes where
  "sample_user = [0x14, 0, 0, 1,  0x17, 0, 0, 1,  0, 0, 0, 0,  0x19, 0, 0, 1,  0, 0, 0, 0,
     0x73, 0x68, 0,  0x61, 0,  0x50, 0x3D, 0x31, 0,  0x2F, 0x6C, 0x73, 0]"

definition sample_um :: mem where
  "sample_um = (\<lambda>a. if 0x102000 \<le> a \<and> a < 0x107000 \<or> 0xFFFC000 \<le> a \<and> a < 0x10000000 then Some 0
     else if 0x1000000 \<le> a \<and> a < 0x1000000 + length sample_user then Some (sample_user ! (a - 0x1000000)) else None)"

definition sample_vm :: "u8 \<Rightarrow> mm" where
  "sample_vm b = sample_mm\<lparr>kernel_map := \<lparr>bm_bits = [b, 0], bm_length = 2, bm_offset = 256\<rparr>\<rparr>"

definition sample_kmap :: "u8 \<Rightarrow> bitmap" where
  "sample_kmap b = \<lparr>bm_bits = [b, 0], bm_length = 2, bm_offset = 256\<rparr>"

lemma sample_kmap_pages:
  "scan_page (sample_kmap 3) 4 = Some (0x102000, sample_kmap 63)" "scan_page (sample_kmap 63) 1 = Some (0x106000, sample_kmap 127)"
  "reset_page (sample_kmap 127) 0x106000 1 = Some (sample_kmap 63)" "reset_page (sample_kmap 63) 0x102000 4 = Some (sample_kmap 3)"
  by code_simp+

lemma sample_vm_pages:
  "alloc_kpage 4 (sample_vm 3) = Some (0x102000, sample_vm 63)" "alloc_kpage 1 (sample_vm 63) = Some (0x106000, sample_vm 127)"
  "free_kpage 0x106000 1 (sample_vm 127) = Some (sample_vm 63)" "free_kpage 0x102000 4 (sample_vm 63) = Some (sample_vm 3)"
  using sample_kmap_pages by (simp_all add: alloc_kpage_def free_kpage_def sample_vm_def sample_kmap_def ASSERT_PAGE_def)

lemma sample_user_at:
  assumes "p = 0x1000000 + i" "i + length bs \<le> length sample_user" "take (length bs) (drop i sample_user) = bs"
  shows "region (sample_um |` (- exec_pages 0x102000 0x106000)) p bs"
  unfolding region_def
proof (intro allI impI)
  fix j assume j: "j < length bs"
  have "bs ! j = sample_user ! (i + j)" using j assms(2) arg_cong [OF assms(3), of "\<lambda>l. l ! j"] by simp
  moreover have "i + j < 33" using j assms(2) by (simp add: sample_user_def)
  ultimately show "(sample_um |` (- exec_pages 0x102000 0x106000)) (p + j) = Some (bs ! j)"
    using j assms(1,2) by (simp add: sample_um_def exec_pages_def restrict_map_def add.assoc)
qed

lemma sample_exec_input:
  "exec_input (sample_um |` (- exec_pages 0x102000 0x106000)) (exec_pages 0x102000 0x106000) 0x100001D 0x1000004 0x100000C
     [0x2F, 0x6C, 0x73] [[0x61]] [0x73, 0x68] [[0x50, 0x3D, 0x31]]"
proof -
  let ?m = "sample_um |` (- exec_pages 0x102000 0x106000)"
  note at = sample_user_at [unfolded sample_user_def, simplified list.size, folded sample_user_def]
  have w: "ld32 ?m p = Some v" if "unat p = 0x1000000 + i" "i + 4 \<le> 33" "take 4 (drop i sample_user) = bytes_of v" for p v i
    by (rule ld32_region, rule sample_user_at) (use that in \<open>simp_all add: sample_user_def\<close>)
  have c: "cstr ?m p s" if "p = 0x1000000 + i" "i + length s + 1 \<le> 33" "take (length s + 1) (drop i sample_user) = s @ [0]" "0 \<notin> set s" for p s i
    unfolding cstr_def EOS_def by (intro conjI sample_user_at) (use that in \<open>simp_all add: sample_user_def\<close>)
  have words: "ld32 ?m 0x1000000 = Some 0x1000014" "ld32 ?m 0x1000004 = Some 0x1000017" "ld32 ?m 0x1000008 = Some 0"
    "ld32 ?m 0x100000C = Some 0x1000019" "ld32 ?m 0x1000010 = Some 0"
    by (rule w [of _ 0] w [of _ 4] w [of _ 8] w [of _ 12] w [of _ 16]; simp add: sample_user_def bytes_of_def; fail)+
  have strs: "cstr ?m 0x1000014 [0x73, 0x68]" "cstr ?m 0x1000017 [0x61]" "cstr ?m 0x1000019 [0x50, 0x3D, 0x31]" "cstr ?m 0x100001D [0x2F, 0x6C, 0x73]"
    by (rule c [of _ 20] c [of _ 23] c [of _ 25] c [of _ 29]; simp add: sample_user_def; fail)+
  show ?thesis
    using words strs by (auto simp: exec_input_def array_of_def strings_at_def sample_um_def sample_user_def exec_pages_def dom_def)
qed

lemma sample_um_mapped: "exec_pages 0x102000 0x106000 \<subseteq> dom sample_um" "n \<le> 16384 \<Longrightarrow> mapped sample_um (0x10000000 - n) n"
  by (auto simp: exec_pages_def sample_um_def mapped_def)

theorem program_gets_arguments_witness:
  "\<exists>(s :: unit exec_st) sp s'. um s = sample_um \<and> vm s = sample_vm 3
     \<and> copy_argv_envp (\<lambda>_. 0) 0x100001D 0x1000004 0x100000C s = Some (sp, s') \<and> ld32 (um s') sp = Some 2
     \<and> strings_at (um s') (sp + 4) [[0x2F, 0x6C, 0x73], [0x61]] \<and> strings_at (um s') (sp + 16) [[0x50, 0x3D, 0x31]]"
proof -
  define s where "s = (undefined :: unit exec_st)\<lparr>vm := sample_vm 3, um := sample_um\<rparr>"
  have v: "vm s = sample_vm 3" "um s = sample_um" by (simp_all add: s_def)
  have n: "image_size [0x2F, 0x6C, 0x73] [[0x61]] [0x73, 0x68] [[0x50, 0x3D, 0x31]] = 37"
    by (simp add: image_size_def room_for_def)
  obtain sp s' where "copy_argv_envp (\<lambda>_. 0) 0x100001D 0x1000004 0x100000C s = Some (sp, s')" "ld32 (um s') sp = Some (of_nat (length [[0x61 :: u8]] + 1))"
     "strings_at (um s') (sp + 4) ([0x2F, 0x6C, 0x73] # [[0x61]])" "strings_at (um s') (sp + 4 + 4 * of_nat (length [[0x61 :: u8]] + 2)) [[0x50, 0x3D, 0x31]]"
    using program_gets_arguments [where s = s and pages = "0x102000" and argvk = "0x106000" and filename = "0x100001D" and argv = "0x1000004"
        and envp = "0x100000C" and f = "[0x2F, 0x6C, 0x73]" and as = "[[0x61]]" and x = "[0x73, 0x68]" and es = "[[0x50, 0x3D, 0x31]]"
        and ?v1.0 = "sample_vm 63" and ?v2.0 = "sample_vm 127" and ?v3.0 = "sample_vm 63" and ?v4.0 = "sample_vm 3" and junk = "\<lambda>_. 0"]
      sample_exec_input sample_vm_pages sample_um_mapped(1) sample_um_mapped(2) [of 37]
    unfolding v n by (auto simp: exec_layout_def)
  then show ?thesis using v by (intro exI [of _ s] exI [of _ sp] exI [of _ s']) (simp add: algebra_simps)
qed

subsection \<open>The headers\<close>

text \<open>The number of headers has 16 bits, whatever the segments make of it.\<close>

lemma elf_loop_ends:
  "65535 \<le> k + n \<Longrightarrow> \<exists>r. \<forall>fuel>n. elf_loop fuel junk i k ptr (s :: 'd exec_st) = Some r"
proof (induction n arbitrary: k ptr s)
  case 0
  have "unat (e_phnum h) \<le> k" for h :: elf_ehdr
    using 0 unsigned_less [of "e_phnum h", where ?'a = nat] by simp
  then have "\<exists>r. \<forall>fuel. elf_loop (Suc fuel) junk i k ptr s = Some r"
    by (cases "ehdr_at (um s) USER_EXEC_ADDR") auto
  then show ?case by (metis gr0_implies_Suc)
next
  case (Suc n)
  have IH: "\<exists>r. \<forall>fuel>n. elf_loop fuel junk i (k + 1) ptr s = Some r" for ptr and s :: "'d exec_st"
    by (rule Suc.IH) (use Suc.prems in simp)
  have "\<exists>r. \<forall>fuel>n. elf_loop (Suc fuel) junk i k ptr s = Some r"
  proof (cases "ehdr_at (um s) USER_EXEC_ADDR")
    case h: (Some h)
    show ?thesis
    proof (cases "ld32 (um s) ptr")
      case ty: (Some ty)
      show ?thesis
      proof (cases "Option.bind (phdr_at (um s) ptr) (\<lambda>p. load_segment junk i p s)")
        case (Some s')
        then show ?thesis using h ty IH [of ptr s] IH [of "ptr + of_nat SIZEOF_PHDR" s']
          by (cases "unat (e_phnum h) \<le> k"; cases "ty = PT_LOAD"; simp)
      next
        case None
        then show ?thesis using h ty IH [of ptr s]
          by (cases "unat (e_phnum h) \<le> k"; cases "ty = PT_LOAD"; simp)
      qed
    next
      case None
      then show ?thesis using h by (cases "unat (e_phnum h) \<le> k"; simp)
    qed
  qed simp
  then show ?case by (metis Suc_less_eq Suc_lessE)
qed

text \<open>C38: Loading the segments of a program ends: the loop over the program headers, whose number is read again in
  every pass from memory that the segments may overwrite, is left, or stopped by an assertion or an access to memory,
  within 65536 passes. The result is the same however many more passes are allowed.\<close>

theorem elf_loop_terminates:
  "\<exists>r. elf_loop 65536 junk i 0 ptr s = Some r \<and> (\<forall>m. elf_loop (65536 + m) junk i 0 ptr s = Some r)"
proof -
  obtain r where r: "\<forall>fuel>65535. elf_loop fuel junk i 0 ptr s = Some r" using elf_loop_ends [of 0 65535 junk i ptr s] by auto
  have "(65535 :: nat) < 65536" "65535 < 65536 + m" for m :: nat by simp_all
  then show ?thesis using r by blast
qed

text \<open>A header that is not for loading stops the loop at itself: nothing behind it is loaded.\<close>

lemma elf_loop_stuck:
  assumes "ehdr_at (um s) USER_EXEC_ADDR = Some h" "ld32 (um s) ptr = Some ty" "ty \<noteq> PT_LOAD"
  shows "k \<le> unat (e_phnum h) \<Longrightarrow> unat (e_phnum h) < k + fuel \<Longrightarrow> elf_loop fuel junk i k ptr s = Some (Some s)"
  by (induction fuel arbitrary: k) (use assms in \<open>auto simp: not_le Suc_le_eq\<close>)

text \<open>The loop over the arguments needs the word before the array.\<close>

lemma push_arg_before: "ld32 m (argv - 4) = None \<Longrightarrow> push_arg argv argvk 0 (k, u, m) = None"
  by (simp add: push_arg_def)

end
