(* ===== verification/Ide.thy ===== *)
theory Ide
  imports Device
begin

section \<open>IDE disks: \<open>kernel/ide.c\<close>\<close>

text \<open>
  The controller's registers and the passing of time are the hardware: a state \<open>'h\<close> with the accesses
  of \<open>bus\<close>, which are arguments of everything here. \<open>nap\<close> is \<open>task_sleep(25)\<close> and \<open>irq\<close> the call of
  \<open>task_block\<close> that ends with the interrupt or after the timeout, with its result. A function works on a
  controller with its hardware. The lock of the controller, taken around each transfer, is that of
  \<open>Mutex\<close> and left out, and so are the messages. Buffers are lists of 16-bit words.
\<close>

record 'h bus =
  inb :: "u16 \<Rightarrow> 'h \<Rightarrow> u8 \<times> 'h"
  inw :: "u16 \<Rightarrow> 'h \<Rightarrow> u16 \<times> 'h"
  outb :: "u16 \<Rightarrow> u8 \<Rightarrow> 'h \<Rightarrow> 'h"
  outw :: "u16 \<Rightarrow> u16 \<Rightarrow> 'h \<Rightarrow> 'h"
  outd :: "u16 \<Rightarrow> u32 \<Rightarrow> 'h \<Rightarrow> 'h"
  nap :: "'h \<Rightarrow> 'h"
  irq :: "'h \<Rightarrow> int \<times> 'h"
  expire_at :: "int \<Rightarrow> 'h \<Rightarrow> u32"
  expired :: "u32 \<Rightarrow> 'h \<Rightarrow> bool"

definition IDE_TIMEOUT :: int where [c_defs]: "IDE_TIMEOUT = 60000"
definition IDE_IOBASE_PRIMARY :: u16 where [c_defs]: "IDE_IOBASE_PRIMARY = 0x1F0"
definition IDE_IOBASE_SECONDARY :: u16 where [c_defs]: "IDE_IOBASE_SECONDARY = 0x170"
definition IDE_DATA :: u16 where [c_defs]: "IDE_DATA = 0"
definition IDE_ERROR :: u16 where [c_defs]: "IDE_ERROR = 1"
definition IDE_FEATURE :: u16 where [c_defs]: "IDE_FEATURE = 1"
definition IDE_SECTOR :: u16 where [c_defs]: "IDE_SECTOR = 2"
definition IDE_LBA_LOW :: u16 where [c_defs]: "IDE_LBA_LOW = 3"
definition IDE_CHS_SECTOR :: u16 where [c_defs]: "IDE_CHS_SECTOR = 3"
definition IDE_LBA_MID :: u16 where [c_defs]: "IDE_LBA_MID = 4"
definition IDE_CHS_CYL :: u16 where [c_defs]: "IDE_CHS_CYL = 4"
definition IDE_LBA_HIGH :: u16 where [c_defs]: "IDE_LBA_HIGH = 5"
definition IDE_CHS_CYH :: u16 where [c_defs]: "IDE_CHS_CYH = 5"
definition IDE_HDDEVSEL :: u16 where [c_defs]: "IDE_HDDEVSEL = 6"
definition IDE_STATUS :: u16 where [c_defs]: "IDE_STATUS = 7"
definition IDE_COMMAND :: u16 where [c_defs]: "IDE_COMMAND = 7"
definition IDE_ALT_STATUS :: u16 where [c_defs]: "IDE_ALT_STATUS = 0x206"
definition IDE_CONTROL :: u16 where [c_defs]: "IDE_CONTROL = 0x206"
definition IDE_CMD_READ :: u8 where [c_defs]: "IDE_CMD_READ = 0x20"
definition IDE_CMD_WRITE :: u8 where [c_defs]: "IDE_CMD_WRITE = 0x30"
definition IDE_CMD_IDENTIFY :: u8 where [c_defs]: "IDE_CMD_IDENTIFY = 0xEC"
definition IDE_CMD_DIAGNOSTIC :: u8 where [c_defs]: "IDE_CMD_DIAGNOSTIC = 0x90"
definition IDE_CMD_READ_UDMA :: u8 where [c_defs]: "IDE_CMD_READ_UDMA = 0xC8"
definition IDE_CMD_WRITE_UDMA :: u8 where [c_defs]: "IDE_CMD_WRITE_UDMA = 0xCA"
definition IDE_SR_NULL :: u8 where [c_defs]: "IDE_SR_NULL = 0"
definition IDE_SR_ERR :: u8 where [c_defs]: "IDE_SR_ERR = 1"
definition IDE_SR_DRQ :: u8 where [c_defs]: "IDE_SR_DRQ = 8"
definition IDE_SR_DRDY :: u8 where [c_defs]: "IDE_SR_DRDY = 0x40"
definition IDE_SR_BSY :: u8 where [c_defs]: "IDE_SR_BSY = 0x80"
definition IDE_CTRL_SRST :: u8 where [c_defs]: "IDE_CTRL_SRST = 4"
definition IDE_LBA_MASTER :: u8 where [c_defs]: "IDE_LBA_MASTER = 0xE0"
definition IDE_LBA_SLAVE :: u8 where [c_defs]: "IDE_LBA_SLAVE = 0xF0"
definition IDE_SEL_MASK :: u8 where [c_defs]: "IDE_SEL_MASK = 0xB0"
definition IDE_INTERFACE_UNKNOWN :: u32 where [c_defs]: "IDE_INTERFACE_UNKNOWN = 0"
definition IDE_INTERFACE_ATA :: u32 where [c_defs]: "IDE_INTERFACE_ATA = 1"
definition IDE_INTERFACE_ATAPI :: u32 where [c_defs]: "IDE_INTERFACE_ATAPI = 2"
definition BM_COMMAND_REG :: u16 where [c_defs]: "BM_COMMAND_REG = 0"
definition BM_STATUS_REG :: u16 where [c_defs]: "BM_STATUS_REG = 2"
definition BM_PRD_ADDR :: u16 where [c_defs]: "BM_PRD_ADDR = 4"
definition BM_CR_STOP :: u8 where [c_defs]: "BM_CR_STOP = 0"
definition BM_CR_START :: u8 where [c_defs]: "BM_CR_START = 1"
definition BM_CR_WRITE :: u8 where [c_defs]: "BM_CR_WRITE = 0"
definition BM_CR_READ :: u8 where [c_defs]: "BM_CR_READ = 8"
definition BM_SR_ERR :: u8 where [c_defs]: "BM_SR_ERR = 2"
definition BM_SR_INT :: u8 where [c_defs]: "BM_SR_INT = 4"
definition IDE_LAST_PRD :: u32 where [c_defs]: "IDE_LAST_PRD = 0x80000000"
definition PART_FS_EXTENDED :: u32 where [c_defs]: "PART_FS_EXTENDED = 5"
definition IDE_CTRL_NR :: nat where [c_defs]: "IDE_CTRL_NR = 2"
definition IDE_DISK_NR :: nat where [c_defs]: "IDE_DISK_NR = 2"
definition IDE_PART_NR :: nat where [c_defs]: "IDE_PART_NR = 4"
definition IDE_TYPE_PIO :: int where [c_defs]: "IDE_TYPE_PIO = 0"
definition IDE_TYPE_UDMA :: int where [c_defs]: "IDE_TYPE_UDMA = 1"

subsection \<open>Controllers, disks and partitions\<close>

record ide_part =
  ip_name :: bytes
  ip_system :: u32
  ip_start :: u32
  ip_count :: u32

record ide_disk =
  id_name :: bytes
  id_selector :: u8
  id_master :: bool
  id_total_lba :: u32
  id_cylinders :: u32
  id_heads :: u32
  id_sectors :: u32
  id_interface :: u32
  id_parts :: "ide_part list"

record ide_ctrl =
  ic_name :: bytes
  ic_iotype :: int
  ic_iobase :: u16
  ic_bmbase :: u16
  ic_disks :: "ide_disk list"
  ic_active :: "nat option"
  ic_control :: u8
  ic_waiting :: bool
  ic_prd :: "u32 \<times> u32"

type_synonym 'h cs = "ide_ctrl \<times> 'h"

definition out_io :: "'h bus \<Rightarrow> u16 \<Rightarrow> u8 \<Rightarrow> 'h cs \<Rightarrow> 'h cs" where
  "out_io p reg v st = (case st of (c, h) \<Rightarrow> (c, outb p (ic_iobase c + reg) v h))"

definition in_io :: "'h bus \<Rightarrow> u16 \<Rightarrow> 'h cs \<Rightarrow> u8 \<times> 'h cs" where
  "in_io p reg st = (case st of (c, h) \<Rightarrow> case inb p (ic_iobase c + reg) h of (v, h) \<Rightarrow> (v, c, h))"

definition out_bm :: "'h bus \<Rightarrow> u16 \<Rightarrow> u8 \<Rightarrow> 'h cs \<Rightarrow> 'h cs" where
  "out_bm p reg v st = (case st of (c, h) \<Rightarrow> (c, outb p (ic_bmbase c + reg) v h))"

definition in_bm :: "'h bus \<Rightarrow> u16 \<Rightarrow> 'h cs \<Rightarrow> u8 \<times> 'h cs" where
  "in_bm p reg st = (case st of (c, h) \<Rightarrow> case inb p (ic_bmbase c + reg) h of (v, h) \<Rightarrow> (v, c, h))"

definition ide_delay :: "'h bus \<Rightarrow> 'h cs \<Rightarrow> 'h cs" where
  "ide_delay p st = (case st of (c, h) \<Rightarrow> (c, nap p h))"

definition ide_error :: "'h bus \<Rightarrow> 'h cs \<Rightarrow> 'h cs" where
  "ide_error p st = snd (in_io p IDE_ERROR st)"

text \<open>The interrupt: whether a waiting task was woken.\<close>

definition ide_handler :: "'h bus \<Rightarrow> 'h cs \<Rightarrow> bool \<times> 'h cs" where
  "ide_handler p st = (case in_io p IDE_STATUS st of (_, c, h) \<Rightarrow>
     if ic_waiting c then (True, c\<lparr>ic_waiting := False\<rparr>, h) else (False, c, h))"

subsection \<open>Waiting\<close>

definition soft_reset :: "'h bus \<Rightarrow> 'h cs \<Rightarrow> 'h cs" where
  "soft_reset p st = (let st = ide_delay p (out_io p IDE_CONTROL IDE_CTRL_SRST st)
     in out_io p IDE_CONTROL (ic_control (fst st)) st)"

definition deadline :: "'h bus \<Rightarrow> int \<Rightarrow> 'h cs \<Rightarrow> u32" where
  "deadline p timeout_ms st = expire_at p timeout_ms (snd st)"

text \<open>On an error the controller is reset, and the reset waits in turn: its call of \<open>ide_busy_wait\<close> is the
  recursive call in the error branch.\<close>

partial_function (option) wait_loop :: "'h bus \<Rightarrow> u8 \<Rightarrow> int \<Rightarrow> u32 \<Rightarrow> 'h cs \<Rightarrow> (int \<times> 'h cs) option" where
  "wait_loop p msk timeout_ms expires st =
    (if timeout_ms > 0 \<and> expired p expires (snd st) then Some (neg_errno ETIME, st)
     else case in_io p IDE_ALT_STATUS st of (status, st) \<Rightarrow>
       if status AND IDE_SR_ERR \<noteq> 0 then do {
         let st = soft_reset p (ide_error p st);
         (_, st) \<leftarrow> wait_loop p IDE_SR_NULL IDE_TIMEOUT (deadline p IDE_TIMEOUT st) st;
         Some (neg_errno EIO, st) }
       else if status AND IDE_SR_BSY \<noteq> 0 then wait_loop p msk timeout_ms expires (ide_delay p st)
       else if status AND msk = msk then Some (errno_val EOK, st)
       else wait_loop p msk timeout_ms expires st)"

definition ide_busy_wait :: "'h bus \<Rightarrow> u8 \<Rightarrow> int \<Rightarrow> 'h cs \<Rightarrow> (int \<times> 'h cs) option" where
  "ide_busy_wait p msk timeout_ms st = wait_loop p msk timeout_ms (deadline p timeout_ms st) st"

definition ide_reset_controller :: "'h bus \<Rightarrow> 'h cs \<Rightarrow> (int \<times> 'h cs) option" where
  "ide_reset_controller p st = ide_busy_wait p IDE_SR_NULL IDE_TIMEOUT (soft_reset p st)"

text \<open>The task waits; the interrupt takes it out of the controller again, a timeout leaves it there.\<close>

definition block_for_irq :: "'h bus \<Rightarrow> 'h cs \<Rightarrow> int \<times> 'h cs" where
  "block_for_irq p st = (case st of (c, h) \<Rightarrow> case irq p h of (r, h) \<Rightarrow> (r, c\<lparr>ic_waiting := r < 0\<rparr>, h))"

subsection \<open>Transfers by the processor\<close>

definition ide_select_drive :: "'h bus \<Rightarrow> nat \<Rightarrow> ide_disk \<Rightarrow> 'h cs \<Rightarrow> 'h cs" where
  "ide_select_drive p di d st = (case out_io p IDE_HDDEVSEL (id_selector d) st of (c, h) \<Rightarrow> (c\<lparr>ic_active := Some di\<rparr>, h))"

definition ide_select_sector :: "'h bus \<Rightarrow> nat \<Rightarrow> ide_disk \<Rightarrow> u32 \<Rightarrow> u8 \<Rightarrow> 'h cs \<Rightarrow> 'h cs" where
  "ide_select_sector p di d lba n st = (
     let st = out_io p IDE_FEATURE 0 st;
         st = out_io p IDE_SECTOR n st;
         st = out_io p IDE_LBA_LOW (ucast (lba AND 0xff)) st;
         st = out_io p IDE_LBA_MID (ucast (drop_bit 8 lba AND 0xff)) st;
         st = out_io p IDE_LBA_HIGH (ucast (drop_bit 16 lba AND 0xff)) st
     in case out_io p IDE_HDDEVSEL (ucast (drop_bit 24 lba AND 0xf) OR id_selector d) st of
          (c, h) \<Rightarrow> (c\<lparr>ic_active := Some di\<rparr>, h))"

fun read_words :: "'h bus \<Rightarrow> nat \<Rightarrow> 'h cs \<Rightarrow> u16 list \<times> 'h cs" where
  "read_words p 0 st = ([], st)"
| "read_words p (Suc n) st = (case st of (c, h) \<Rightarrow> case inw p (ic_iobase c + IDE_DATA) h of (w, h) \<Rightarrow>
     case read_words p n (c, h) of (ws, st) \<Rightarrow> (w # ws, st))"

fun write_words :: "'h bus \<Rightarrow> u16 list \<Rightarrow> 'h cs \<Rightarrow> 'h cs" where
  "write_words p [] st = st"
| "write_words p (w # ws) st = (case st of (c, h) \<Rightarrow> write_words p ws (c, outw p (ic_iobase c + IDE_DATA) w h))"

definition ide_pio_read_sector :: "'h bus \<Rightarrow> 'h cs \<Rightarrow> u16 list \<times> 'h cs" where
  "ide_pio_read_sector p st = read_words p 256 st"

definition ide_pio_write_sector :: "'h bus \<Rightarrow> u16 list \<Rightarrow> 'h cs \<Rightarrow> 'h cs option" where
  "ide_pio_write_sector p buf st = do { c_assert (length buf = 256); Some (write_words p buf st) }"

definition ide_pio_ioctl :: "ide_disk \<Rightarrow> int \<Rightarrow> int option" where
  "ide_pio_ioctl d cmd =
    (if cmd = DEV_CMD_SECTOR_START then Some 0
     else if cmd = DEV_CMD_SECTOR_COUNT then Some (sint (id_total_lba d)) else None)"

text \<open>The result, the words that came into the buffer, and the state.\<close>

fun read_sectors :: "'h bus \<Rightarrow> nat \<Rightarrow> 'h cs \<Rightarrow> (int \<times> u16 list \<times> 'h cs) option" where
  "read_sectors p 0 st = Some (errno_val EOK, [], st)"
| "read_sectors p (Suc n) st = (case block_for_irq p st of (r, st) \<Rightarrow>
     if r < errno_val EOK then Some (r, [], st)
     else do {
       (r, st) \<leftarrow> ide_busy_wait p IDE_SR_DRQ IDE_TIMEOUT st;
       if r < errno_val EOK then Some (r, [], st)
       else case ide_pio_read_sector p st of (ws, st) \<Rightarrow> do {
         (r, more_ws, st) \<leftarrow> read_sectors p n st;
         Some (r, ws @ more_ws, st) } })"

definition ide_pio_read :: "'h bus \<Rightarrow> nat \<Rightarrow> ide_disk \<Rightarrow> u8 \<Rightarrow> u32 \<Rightarrow> 'h cs \<Rightarrow> (int \<times> u16 list \<times> 'h cs) option" where
  "ide_pio_read p di d n lba st = do {
     c_assert (n > 0);
     (r, st) \<leftarrow> ide_busy_wait p IDE_SR_DRDY IDE_TIMEOUT (ide_select_drive p di d st);
     if r < errno_val EOK then Some (r, [], st)
     else read_sectors p (unat n) (out_io p IDE_COMMAND IDE_CMD_READ (ide_select_sector p di d lba n st)) }"

definition as_int :: "bool \<Rightarrow> int" where "as_int b = (if b then 1 else 0)"

text \<open>Behind a sector that was written, \<open>ret\<close> becomes the truth value of the comparison, not the result of the wait.\<close>

fun write_sectors :: "'h bus \<Rightarrow> nat \<Rightarrow> u16 list \<Rightarrow> 'h cs \<Rightarrow> (int \<times> 'h cs) option" where
  "write_sectors p 0 buf st = Some (errno_val EOK, st)"
| "write_sectors p (Suc n) buf st = do {
     st \<leftarrow> ide_pio_write_sector p (take 256 buf) st;
     case block_for_irq p st of (r, st) \<Rightarrow>
       if r < errno_val EOK then Some (r, st)
       else do {
         (r, st) \<leftarrow> ide_busy_wait p IDE_SR_NULL IDE_TIMEOUT st;
         let ret = as_int (r < errno_val EOK);
         if ret \<noteq> 0 then Some (ret, st) else write_sectors p n (drop 256 buf) st } }"

definition ide_pio_write :: "'h bus \<Rightarrow> nat \<Rightarrow> ide_disk \<Rightarrow> u16 list \<Rightarrow> u8 \<Rightarrow> u32 \<Rightarrow> 'h cs \<Rightarrow> (int \<times> 'h cs) option" where
  "ide_pio_write p di d buf n lba st = do {
     c_assert (n > 0);
     (r, st) \<leftarrow> ide_busy_wait p IDE_SR_DRDY IDE_TIMEOUT (ide_select_drive p di d st);
     if r < errno_val EOK then Some (r, st)
     else write_sectors p (unat n) buf (out_io p IDE_COMMAND IDE_CMD_WRITE (ide_select_sector p di d lba n st)) }"

subsection \<open>Partitions\<close>

definition ide_pio_part_ioctl :: "ide_part \<Rightarrow> int \<Rightarrow> int option" where
  "ide_pio_part_ioctl pt cmd =
    (if cmd = DEV_CMD_SECTOR_START then Some (sint (ip_start pt))
     else if cmd = DEV_CMD_SECTOR_COUNT then Some (sint (ip_count pt)) else None)"

definition ide_pio_part_read :: "'h bus \<Rightarrow> nat \<Rightarrow> ide_disk \<Rightarrow> ide_part \<Rightarrow> u8 \<Rightarrow> u32 \<Rightarrow> 'h cs \<Rightarrow> (int \<times> u16 list \<times> 'h cs) option" where
  "ide_pio_part_read p di d pt n lba st = ide_pio_read p di d n (ip_start pt + lba) st"

definition ide_pio_part_write :: "'h bus \<Rightarrow> nat \<Rightarrow> ide_disk \<Rightarrow> ide_part \<Rightarrow> u16 list \<Rightarrow> u8 \<Rightarrow> u32 \<Rightarrow> 'h cs \<Rightarrow> (int \<times> 'h cs) option" where
  "ide_pio_part_write p di d pt buf n lba st = ide_pio_write p di d buf n (ip_start pt + lba) st"

subsection \<open>Transfers by the bus master\<close>

text \<open>\<open>pa\<close> is the physical address of the buffer, \<open>prdt\<close> the address of the descriptor of the controller.\<close>

definition ide_setup_dma :: "'h bus \<Rightarrow> u32 \<Rightarrow> u32 \<Rightarrow> u8 \<Rightarrow> u32 \<Rightarrow> u32 \<Rightarrow> 'h cs \<Rightarrow> 'h cs option" where
  "ide_setup_dma p pa prdt cmd buf len st = do {
     c_assert (buf + len \<le> (buf AND 0xfffff000) + 0x1000);
     let st = (case st of (c, h) \<Rightarrow> (c\<lparr>ic_prd := (pa, len OR IDE_LAST_PRD)\<rparr>, outd p (ic_bmbase c + BM_PRD_ADDR) prdt h));
     let st = out_bm p BM_COMMAND_REG (cmd OR BM_CR_STOP) st;
     case in_bm p BM_STATUS_REG st of (v, st) \<Rightarrow> Some (out_bm p BM_STATUS_REG (v OR BM_SR_INT OR BM_SR_ERR) st) }"

definition ide_start_dma :: "'h bus \<Rightarrow> 'h cs \<Rightarrow> 'h cs" where
  "ide_start_dma p st = (case in_bm p BM_COMMAND_REG st of (v, st) \<Rightarrow> out_bm p BM_COMMAND_REG (v OR BM_CR_START) st)"

definition ide_stop_dma :: "'h bus \<Rightarrow> 'h cs \<Rightarrow> int \<times> 'h cs" where
  "ide_stop_dma p st = (
     case in_bm p BM_COMMAND_REG st of (v, st) \<Rightarrow>
     case in_bm p BM_STATUS_REG (out_bm p BM_COMMAND_REG (v AND NOT BM_CR_START) st) of (status, st) \<Rightarrow>
       (if status AND BM_SR_ERR \<noteq> 0 then neg_errno EIO else errno_val EOK,
        out_bm p BM_STATUS_REG (status OR BM_SR_INT OR BM_SR_ERR) st))"

definition ide_udma :: "'h bus \<Rightarrow> u8 \<Rightarrow> u8 \<Rightarrow> u32 \<Rightarrow> u32 \<Rightarrow> nat \<Rightarrow> ide_disk \<Rightarrow> u32 \<Rightarrow> u8 \<Rightarrow> u32 \<Rightarrow> 'h cs \<Rightarrow> (int \<times> 'h cs) option" where
  "ide_udma p dir cmd pa prdt di d buf n lba st = do {
     st \<leftarrow> ide_setup_dma p pa prdt dir buf (ucast n * SECTOR_SIZE) st;
     let st = out_io p IDE_COMMAND cmd (ide_select_sector p di d lba n st);
     case block_for_irq p (ide_start_dma p st) of (r, st) \<Rightarrow> do {
       let ret = as_int (r < errno_val EOK);
       case ide_stop_dma p st of (e, st) \<Rightarrow> do {
         c_assert (e = errno_val EOK);
         Some (ret, st) } } }"

definition ide_udma_read :: "'h bus \<Rightarrow> u32 \<Rightarrow> u32 \<Rightarrow> nat \<Rightarrow> ide_disk \<Rightarrow> u32 \<Rightarrow> u8 \<Rightarrow> u32 \<Rightarrow> 'h cs \<Rightarrow> (int \<times> 'h cs) option" where
  "ide_udma_read p = ide_udma p BM_CR_READ IDE_CMD_READ_UDMA"

definition ide_udma_write :: "'h bus \<Rightarrow> u32 \<Rightarrow> u32 \<Rightarrow> nat \<Rightarrow> ide_disk \<Rightarrow> u32 \<Rightarrow> u8 \<Rightarrow> u32 \<Rightarrow> 'h cs \<Rightarrow> (int \<times> 'h cs) option" where
  "ide_udma_write p = ide_udma p BM_CR_WRITE IDE_CMD_WRITE_UDMA"

subsection \<open>Finding the disks\<close>

definition ide_probe_device :: "'h bus \<Rightarrow> ide_disk \<Rightarrow> 'h cs \<Rightarrow> int \<times> 'h cs" where
  "ide_probe_device p d st = (
     let st = ide_delay p (out_io p IDE_HDDEVSEL (id_selector d AND IDE_SEL_MASK) st);
         st = out_io p IDE_CHS_SECTOR 0xAA (out_io p IDE_SECTOR 0x55 st);
         st = out_io p IDE_CHS_SECTOR 0x55 (out_io p IDE_SECTOR 0xAA st);
         st = out_io p IDE_CHS_SECTOR 0xAA (out_io p IDE_SECTOR 0x55 st)
     in case in_io p IDE_SECTOR st of (sector_count, st) \<Rightarrow>
        case in_io p IDE_CHS_SECTOR st of (sector_index, st) \<Rightarrow>
          (if sector_count = 0x55 \<and> sector_index = 0xAA then errno_val EOK else errno_val EIO, st))"

definition ide_interface_type :: "'h bus \<Rightarrow> ide_disk \<Rightarrow> 'h cs \<Rightarrow> (u32 \<times> 'h cs) option" where
  "ide_interface_type p d st = do {
     (r, st) \<leftarrow> ide_busy_wait p IDE_SR_NULL IDE_TIMEOUT (out_io p IDE_COMMAND IDE_CMD_DIAGNOSTIC st);
     if r < errno_val EOK then Some (IDE_INTERFACE_UNKNOWN, st)
     else
       case in_io p IDE_SECTOR (ide_delay p (out_io p IDE_HDDEVSEL (id_selector d AND IDE_SEL_MASK) st)) of (sector_count, st) \<Rightarrow>
       case in_io p IDE_LBA_LOW st of (sector_index, st) \<Rightarrow>
       if sector_count \<noteq> 1 \<or> sector_index \<noteq> 1 then Some (IDE_INTERFACE_UNKNOWN, st)
       else
         case in_io p IDE_CHS_CYL st of (cylinder_low, st) \<Rightarrow>
         case in_io p IDE_CHS_CYH st of (cylinder_high, st) \<Rightarrow>
         case in_io p IDE_STATUS st of (status, st) \<Rightarrow>
           if cylinder_low = 0x14 \<and> cylinder_high = 0xEB then Some (IDE_INTERFACE_ATAPI, st)
           else if cylinder_low = 0 \<and> cylinder_high = 0 \<and> status \<noteq> 0 then Some (IDE_INTERFACE_ATA, st)
           else Some (IDE_INTERFACE_UNKNOWN, st) }"

text \<open>The bytes of words, and 16- and 32-bit numbers in them.\<close>

definition word_bytes :: "u16 list \<Rightarrow> bytes" where
  "word_bytes ws = concat (map (\<lambda>w. [ucast w, ucast (drop_bit 8 w)]) ws)"

definition num32 :: "bytes \<Rightarrow> nat \<Rightarrow> u32 option" where
  "num32 bs i = do {
     a \<leftarrow> rd bs i; b \<leftarrow> rd bs (i + 1); c \<leftarrow> rd bs (i + 2); d \<leftarrow> rd bs (i + 3);
     Some (ucast a OR push_bit 8 (ucast b) OR push_bit 16 (ucast c) OR push_bit 24 (ucast d)) }"

definition num16 :: "bytes \<Rightarrow> nat \<Rightarrow> u32 option" where
  "num16 bs i = do { a \<leftarrow> rd bs i; b \<leftarrow> rd bs (i + 1); Some (ucast a OR push_bit 8 (ucast b)) }"

fun swap_pairs :: "bytes \<Rightarrow> bytes" where
  "swap_pairs (a # b # bs) = b # a # swap_pairs bs"
| "swap_pairs bs = bs"

text \<open>The strings of the disk have even lengths.\<close>

definition ide_fixstrings :: "bytes \<Rightarrow> bytes option" where
  "ide_fixstrings bs = do { c_assert (bs \<noteq> [] \<and> even (length bs)); Some (butlast (swap_pairs bs) @ [0]) }"

definition fix_at :: "nat \<Rightarrow> nat \<Rightarrow> bytes \<Rightarrow> bytes option" where
  "fix_at i n bs = do {
     c_assert (i + n \<le> length bs);
     f \<leftarrow> ide_fixstrings (take n (drop i bs));
     Some (take i bs @ f @ drop (i + n) bs) }"

definition ide_identify :: "'h bus \<Rightarrow> nat \<Rightarrow> ide_disk \<Rightarrow> bytes \<Rightarrow> 'h cs \<Rightarrow> (int \<times> ide_disk \<times> bytes \<times> 'h cs) option" where
  "ide_identify p di d buf st = do {
     (r, st) \<leftarrow> ide_busy_wait p IDE_SR_NULL IDE_TIMEOUT (out_io p IDE_COMMAND IDE_CMD_IDENTIFY (ide_select_drive p di d st));
     if r < errno_val EOK then Some (r, d, buf, st)
     else case ide_pio_read_sector p st of (ws, st) \<Rightarrow> do {
       bs \<leftarrow> fix_at 20 20 (word_bytes ws);
       bs \<leftarrow> fix_at 46 8 bs;
       bs \<leftarrow> fix_at 54 40 bs;
       let buf = bs @ drop 512 buf;
       lba \<leftarrow> num32 bs 120;
       if lba = 0 then Some (neg_errno EIO, d, buf, st)
       else do {
         cyl \<leftarrow> num16 bs 2;
         hds \<leftarrow> num16 bs 6;
         sec \<leftarrow> num16 bs 12;
         Some (errno_val EOK, d\<lparr>id_total_lba := lba, id_cylinders := cyl, id_heads := hds, id_sectors := sec\<rparr>, buf, st) } } }"

text \<open>Entry \<open>i\<close> of the partition table in the first bytes of the buffer: type, start and count.\<close>

definition part_entry :: "bytes \<Rightarrow> nat \<Rightarrow> (u8 \<times> u32 \<times> u32) option" where
  "part_entry buf i = do {
     sys \<leftarrow> rd buf (446 + 16 * i + 4);
     start \<leftarrow> num32 buf (446 + 16 * i + 8);
     n \<leftarrow> num32 buf (446 + 16 * i + 12);
     Some (sys, start, n) }"

definition set_part :: "nat \<Rightarrow> u8 \<Rightarrow> u32 \<Rightarrow> u32 \<Rightarrow> ide_disk \<Rightarrow> ide_disk option" where
  "set_part i sys start n d = do {
     ps \<leftarrow> wr (id_parts d) i \<lparr>ip_name = id_name d @ [0x31 + of_nat i], ip_system = ucast sys, ip_start = start, ip_count = n\<rparr>;
     Some (d\<lparr>id_parts := ps\<rparr>) }"

text \<open>A sector goes into the buffer as far as it could be read; the result of the read is not looked at.\<close>

definition read_into :: "'h bus \<Rightarrow> nat \<Rightarrow> ide_disk \<Rightarrow> nat \<Rightarrow> u32 \<Rightarrow> bytes \<times> 'h cs \<Rightarrow> (bytes \<times> 'h cs) option" where
  "read_into p di d off lba bst = do {
     (_, ws, st) \<leftarrow> ide_pio_read p di d 1 lba (snd bst);
     let bs = word_bytes ws;
     Some (take off (fst bst) @ bs @ drop (off + length bs) (fst bst), st) }"

definition part_one :: "'h bus \<Rightarrow> nat \<Rightarrow> nat \<Rightarrow> ide_disk \<times> bytes \<times> 'h cs \<Rightarrow> (ide_disk \<times> bytes \<times> 'h cs) option" where
  "part_one p di i s = (case s of (d, buf, st) \<Rightarrow> do {
     (sys, start, n) \<leftarrow> part_entry buf i;
     if n = 0 then Some (d, buf, st)
     else do {
       d \<leftarrow> set_part i sys start n d;
       if ucast sys = PART_FS_EXTENDED then do {
         (buf, st) \<leftarrow> read_into p di d 1024 start (buf, st);
         Some (d, buf, st) }
       else Some (d, buf, st) } })"

definition ide_part_init :: "'h bus \<Rightarrow> nat \<Rightarrow> ide_disk \<Rightarrow> bytes \<Rightarrow> 'h cs \<Rightarrow> (ide_disk \<times> bytes \<times> 'h cs) option" where
  "ide_part_init p di d buf st =
    (if id_total_lba d = 0 then Some (d, buf, st)
     else do {
       (buf, st) \<leftarrow> read_into p di d 0 0 (buf, st);
       foldM (part_one p di) [0..<IDE_PART_NR] (d, buf, st) })"

definition put_disk :: "nat \<Rightarrow> ide_disk \<Rightarrow> 'h cs \<Rightarrow> 'h cs" where
  "put_disk di d st = (case st of (c, h) \<Rightarrow> (c\<lparr>ic_disks := (ic_disks c)[di := d]\<rparr>, h))"

text \<open>The driver tests for a negative result of the probe, which gives \<open>EIO\<close>, a positive number.\<close>

definition ide_disk_init :: "'h bus \<Rightarrow> nat \<Rightarrow> nat \<Rightarrow> bytes \<times> 'h cs \<Rightarrow> (bytes \<times> 'h cs) option" where
  "ide_disk_init p ci di bst = (case bst of (buf, st) \<Rightarrow> do {
     d \<leftarrow> rd (ic_disks (fst st)) di;
     let d = d\<lparr>id_name := [0x68, 0x64, 0x61 + of_nat (ci * 2 + di)], id_master := di = 0,
               id_selector := (if di = 0 then IDE_LBA_MASTER else IDE_LBA_SLAVE)\<rparr>;
     case ide_probe_device p d st of (r, st) \<Rightarrow>
       if r < 0 then Some (buf, put_disk di d st)
       else do {
         (ty, st) \<leftarrow> ide_interface_type p d st;
         let d = d\<lparr>id_interface := ty\<rparr>;
         if ty = IDE_INTERFACE_ATA then do {
           (_, d, buf, st) \<leftarrow> ide_identify p di d buf st;
           (d, buf, st) \<leftarrow> ide_part_init p di d buf st;
           Some (buf, put_disk di d st) }
         else Some (buf, put_disk di d st) } })"

text \<open>\<open>pci\<close> is the port of the bus master, when the PCI bus has such a controller.\<close>

definition ide_one_ctrl :: "'h bus \<Rightarrow> u16 option \<Rightarrow> nat \<Rightarrow> ide_ctrl list \<times> bytes \<times> 'h \<Rightarrow> (ide_ctrl list \<times> bytes \<times> 'h) option" where
  "ide_one_ctrl p pci ci s = (case s of (cs, buf, h) \<Rightarrow> do {
     c \<leftarrow> rd cs ci;
     let c = c\<lparr>ic_name := [0x69, 0x64, 0x65, 0x30 + of_nat ci], ic_active := None, ic_waiting := False,
               ic_iotype := (if pci = None then IDE_TYPE_PIO else IDE_TYPE_UDMA),
               ic_bmbase := (case pci of None \<Rightarrow> 0 | Some b \<Rightarrow> b) + of_nat (ci * 8),
               ic_iobase := (if ci = 0 then IDE_IOBASE_PRIMARY else IDE_IOBASE_SECONDARY)\<rparr>;
     case in_io p IDE_CONTROL (c, h) of (v, c, h) \<Rightarrow> do {
       (buf, c, h) \<leftarrow> foldM (ide_disk_init p ci) [0..<IDE_DISK_NR] (buf, c\<lparr>ic_control := v\<rparr>, h);
       cs \<leftarrow> wr cs ci c;
       Some (cs, buf, h) } })"

definition ide_ctrl_init :: "'h bus \<Rightarrow> u16 option \<Rightarrow> ide_ctrl list \<times> bytes \<times> 'h \<Rightarrow> (ide_ctrl list \<times> bytes \<times> 'h) option" where
  "ide_ctrl_init p pci s = foldM (ide_one_ctrl p pci) [0..<IDE_CTRL_NR] s"

text \<open>The calls of \<open>device_install\<close>: a disk with its functions, and its partitions below it.\<close>

datatype ide_device = Ide_disk nat nat bool | Ide_part nat nat nat

definition install_disk :: "nat \<Rightarrow> bool \<Rightarrow> nat \<Rightarrow> ide_disk \<Rightarrow> ide_device list" where
  "install_disk ci udma di d =
    (if id_total_lba d = 0 \<or> id_interface d \<noteq> IDE_INTERFACE_ATA then []
     else Ide_disk ci di udma # map (Ide_part ci di) (filter (\<lambda>i. ip_count (id_parts d ! i) \<noteq> 0) [0..<length (id_parts d)]))"

fun install_from :: "bool \<Rightarrow> nat \<Rightarrow> ide_ctrl list \<Rightarrow> ide_device list" where
  "install_from udma ci [] = []"
| "install_from udma ci (c # cs) = (let udma = (udma \<or> ic_iotype c = IDE_TYPE_UDMA) in
     concat (map (\<lambda>(di, d). install_disk ci udma di d) (enumerate 0 (ic_disks c))) @ install_from udma (ci + 1) cs)"

definition ide_install :: "ide_ctrl list \<Rightarrow> ide_device list" where
  "ide_install cs = install_from False 0 cs"

subsection \<open>A disk that answers\<close>

text \<open>
  What a read relies on, after the ATA standard: \<open>at_regs\<close> are the registers 2 to 6 of the controller,
  \<open>at_dat\<close> the words the data port will give, \<open>at_sec\<close> and \<open>at_total\<close> the sectors and the size of the master
  and of the slave. Writing 0x20 to the command register makes the words of the sectors available that the
  registers select, in LBA mode and within the disk; any other command makes none available. The disk is never
  busy, requests data as long as there are some, and interrupts when there are some.
\<close>

record 'h ata =
  at_regs :: "'h \<Rightarrow> nat \<Rightarrow> u8"
  at_dat :: "'h \<Rightarrow> u16 list"
  at_sec :: "bool \<Rightarrow> nat \<Rightarrow> u16 list"
  at_total :: "bool \<Rightarrow> nat"

definition ata_lba :: "(nat \<Rightarrow> u8) \<Rightarrow> nat" where
  "ata_lba r = unat (r 3) + 256 * unat (r 4) + 65536 * unat (r 5) + 16777216 * unat (r 6 AND 0xF)"

definition ata_count :: "(nat \<Rightarrow> u8) \<Rightarrow> nat" where
  "ata_count r = (if r 2 = 0 then 256 else unat (r 2))"

definition ata_words :: "'h ata \<Rightarrow> bool \<Rightarrow> nat \<Rightarrow> nat \<Rightarrow> u16 list" where
  "ata_words A sl lba n = concat (map (at_sec A sl) [lba..<lba + n])"

definition ata_read :: "'h ata \<Rightarrow> (nat \<Rightarrow> u8) \<Rightarrow> u16 list" where
  "ata_read A r = (let sl = r 6 AND 0x10 \<noteq> 0 in
     if r 6 AND 0x40 \<noteq> 0 \<and> ata_lba r + ata_count r \<le> at_total A sl then ata_words A sl (ata_lba r) (ata_count r) else [])"

definition ata_disk :: "'h bus \<Rightarrow> u16 \<Rightarrow> 'h ata \<Rightarrow> bool" where
  "ata_disk p io A \<longleftrightarrow> (\<forall>sl k. length (at_sec A sl k) = 256) \<and> (\<forall>sl. at_total A sl \<le> 0x10000000)
   \<and> (\<forall>h. case inb p (io + 0x206) h of (v, h') \<Rightarrow> v AND 1 = 0 \<and> v AND 0x80 = 0 \<and> v AND 0x40 = 0x40
        \<and> (v AND 8 = 8 \<longleftrightarrow> at_dat A h \<noteq> []) \<and> at_dat A h' = at_dat A h)
   \<and> (\<forall>k v h. 2 \<le> k \<and> k \<le> 6 \<longrightarrow> at_regs A (outb p (io + of_nat k) v h) = (at_regs A h)(k := v))
   \<and> (\<forall>v h. at_dat A (outb p (io + 7) v h) = (if v = 0x20 then ata_read A (at_regs A h) else []))
   \<and> (\<forall>h. at_dat A h \<noteq> [] \<longrightarrow> fst (irq p h) = 0 \<and> at_dat A (snd (irq p h)) = at_dat A h)
   \<and> (\<forall>w ws h. at_dat A h = w # ws \<longrightarrow> fst (inw p io h) = w \<and> at_dat A (snd (inw p io h)) = ws)
   \<and> (\<forall>t h. \<not> expired p (expire_at p t h) h)"

lemma ata_diskD:
  assumes "ata_disk p io A"
  shows "length (at_sec A sl k) = 256" "at_total A sl \<le> 0x10000000"
    "inb p (io + 0x206) h = (v, h') \<Longrightarrow> v AND 1 = 0 \<and> v AND 0x80 = 0 \<and> v AND 0x40 = 0x40
        \<and> (v AND 8 = 8 \<longleftrightarrow> at_dat A h \<noteq> []) \<and> at_dat A h' = at_dat A h"
    "2 \<le> k \<Longrightarrow> k \<le> 6 \<Longrightarrow> at_regs A (outb p (io + of_nat k) b h) = (at_regs A h)(k := b)"
    "at_dat A (outb p (io + 7) b h) = (if b = 0x20 then ata_read A (at_regs A h) else [])"
    "at_dat A h \<noteq> [] \<Longrightarrow> fst (irq p h) = 0 \<and> at_dat A (snd (irq p h)) = at_dat A h"
    "at_dat A h = w # ws \<Longrightarrow> fst (inw p io h) = w \<and> at_dat A (snd (inw p io h)) = ws"
    "\<not> expired p (expire_at p t h) h"
proof -
  note c1 = assms [unfolded ata_disk_def]
  note c2 = conjunct2 [OF c1] note c3 = conjunct2 [OF c2] note c4 = conjunct2 [OF c3] note c5 = conjunct2 [OF c4]
  note c6 = conjunct2 [OF c5] note c7 = conjunct2 [OF c6]
  show "length (at_sec A sl k) = 256" by (rule conjunct1 [OF c1, rule_format])
  show "at_total A sl \<le> 0x10000000" by (rule conjunct1 [OF c2, rule_format])
  show "inb p (io + 0x206) h = (v, h') \<Longrightarrow> v AND 1 = 0 \<and> v AND 0x80 = 0 \<and> v AND 0x40 = 0x40
        \<and> (v AND 8 = 8 \<longleftrightarrow> at_dat A h \<noteq> []) \<and> at_dat A h' = at_dat A h"
    using spec [OF conjunct1 [OF c3], of h] by simp
  show "2 \<le> k \<Longrightarrow> k \<le> 6 \<Longrightarrow> at_regs A (outb p (io + of_nat k) b h) = (at_regs A h)(k := b)"
    using conjunct1 [OF c4] by blast
  show "at_dat A (outb p (io + 7) b h) = (if b = 0x20 then ata_read A (at_regs A h) else [])"
    by (rule conjunct1 [OF c5, rule_format])
  show "at_dat A h \<noteq> [] \<Longrightarrow> fst (irq p h) = 0 \<and> at_dat A (snd (irq p h)) = at_dat A h"
    by (rule conjunct1 [OF c6, rule_format])
  show "at_dat A h = w # ws \<Longrightarrow> fst (inw p io h) = w \<and> at_dat A (snd (inw p io h)) = ws"
    using conjunct1 [OF c7] by blast
  show "\<not> expired p (expire_at p t h) h" using conjunct2 [OF c7] by blast
qed

lemma out_io_iobase [simp]: "ic_iobase (fst (out_io p r v st)) = ic_iobase (fst st)"
  by (simp add: out_io_def split: prod.split)

lemma select_iobase [simp]:
  "ic_iobase (fst (ide_select_drive p di d st)) = ic_iobase (fst st)"
  "ic_iobase (fst (ide_select_sector p di d lba n st)) = ic_iobase (fst st)"
proof -
  have "ic_iobase (fst (case st of (c, h) \<Rightarrow> (c\<lparr>ic_active := Some di\<rparr>, h))) = ic_iobase (fst st)" for st :: "'a cs"
    by (simp split: prod.split)
  then show "ic_iobase (fst (ide_select_drive p di d st)) = ic_iobase (fst st)"
    "ic_iobase (fst (ide_select_sector p di d lba n st)) = ic_iobase (fst st)"
    by (simp_all add: ide_select_drive_def ide_select_sector_def Let_def)
qed

lemma good_wait:
  assumes g: "ata_disk p (ic_iobase (fst st)) A" and m: "msk = IDE_SR_DRDY \<or> msk = IDE_SR_DRQ \<and> at_dat A (snd st) \<noteq> []"
  shows "\<exists>st'. ide_busy_wait p msk t st = Some (errno_val EOK, st') \<and> ic_iobase (fst st') = ic_iobase (fst st)
    \<and> at_dat A (snd st') = at_dat A (snd st)"
proof -
  obtain v h' where i: "inb p (ic_iobase (fst st) + 0x206) (snd st) = (v, h')" by (metis prod.exhaust)
  note v = ata_diskD(3) [OF g i]
  have e: "\<not> expired p (expire_at p t (snd st)) (snd st)" by (rule ata_diskD(8) [OF g])
  have "v AND msk = msk" using m v by (auto simp: c_defs)
  then have "ide_busy_wait p msk t st = Some (errno_val EOK, fst st, h')"
    using v e i by (cases st) (simp add: ide_busy_wait_def deadline_def in_io_def wait_loop.simps [of p msk] IDE_ALT_STATUS_def
        IDE_SR_ERR_def IDE_SR_BSY_def)
  then show ?thesis using v by auto
qed

lemma good_words:
  assumes "ata_disk p (ic_iobase (fst st)) A" "at_dat A (snd st) = ws @ left"
  shows "\<exists>st'. read_words p (length ws) st = (ws, st') \<and> ic_iobase (fst st') = ic_iobase (fst st) \<and> at_dat A (snd st') = left"
  using assms
proof (induction ws arbitrary: st)
  case (Cons w ws)
  obtain c h where st: "st = (c, h)" by (cases st)
  obtain w' h' where i: "inw p (ic_iobase c) h = (w', h')" by (metis prod.exhaust)
  have "w' = w" "at_dat A h' = ws @ left"
    using ata_diskD(7) [OF Cons.prems(1), of h w "ws @ left"] Cons.prems(2) i by (simp_all add: st)
  then show ?case using Cons.IH [of "(c, h')"] Cons.prems(1) i by (auto simp: st IDE_DATA_def)
qed auto

lemma good_sectors:
  assumes "ata_disk p (ic_iobase (fst st)) A" "at_dat A (snd st) = ata_words A sl lba n"
  shows "\<exists>st'. read_sectors p n st = Some (errno_val EOK, ata_words A sl lba n, st') \<and> at_dat A (snd st') = []"
  using assms
proof (induction n arbitrary: st lba)
  case (Suc n)
  let ?a = "at_sec A sl lba" and ?b = "ata_words A sl (Suc lba) n"
  have w: "ata_words A sl lba (Suc n) = ?a @ ?b" by (simp add: ata_words_def upt_conv_Cons del: upt_Suc)
  have l: "length ?a = 256" by (rule ata_diskD(1) [OF Suc.prems(1)])
  then have ne: "at_dat A (snd st) \<noteq> []" using Suc.prems(2) w by auto
  obtain r st1 where 1: "block_for_irq p st = (r, st1)" by (metis prod.exhaust)
  have s1: "r = 0" "ic_iobase (fst st1) = ic_iobase (fst st)" "at_dat A (snd st1) = at_dat A (snd st)"
    using 1 ata_diskD(6) [OF Suc.prems(1) ne] by (auto simp: block_for_irq_def split: prod.splits)
  obtain st2 where 2: "ide_busy_wait p IDE_SR_DRQ IDE_TIMEOUT st1 = Some (errno_val EOK, st2)"
    "ic_iobase (fst st2) = ic_iobase (fst st)" "at_dat A (snd st2) = ?a @ ?b"
    using good_wait [of p st1 A IDE_SR_DRQ IDE_TIMEOUT] Suc.prems s1 ne w by auto
  obtain st3 where 3: "read_words p 256 st2 = (?a, st3)" "ic_iobase (fst st3) = ic_iobase (fst st)" "at_dat A (snd st3) = ?b"
    using good_words [of p st2 A ?a ?b] Suc.prems(1) 2(2,3) unfolding l by auto
  obtain st4 where 4: "read_sectors p n st3 = Some (errno_val EOK, ?b, st4)" "at_dat A (snd st4) = []"
    using Suc.IH [OF _ 3(3)] Suc.prems(1) 3(2) by auto
  have "read_sectors p (Suc n) st = Some (errno_val EOK, ?a @ ?b, st4)"
    using 1 s1(1) 2(1) 3(1) 4(1) by (simp add: ide_pio_read_sector_def)
  then show ?case using 4(2) w by auto
qed (simp add: ata_words_def)

text \<open>What the registers hold once the sectors are selected.\<close>

lemma select_regs:
  assumes "ata_disk p (ic_iobase (fst st)) A"
  shows "\<exists>f. at_regs A (snd (ide_select_sector p di d lba n st)) = f(2 := n, 3 := ucast (lba AND 0xff),
    4 := ucast (drop_bit 8 lba AND 0xff), 5 := ucast (drop_bit 16 lba AND 0xff),
    6 := ucast (drop_bit 24 lba AND 0xf) OR id_selector d)"
proof -
  obtain c h where st: "st = (c, h)" by (cases st)
  note w = ata_diskD(4) [OF assms]
  have r: "at_regs A (outb p (ic_iobase c + 2) v h) = (at_regs A h)(2 := v)" "at_regs A (outb p (ic_iobase c + 3) v h) = (at_regs A h)(3 := v)"
    "at_regs A (outb p (ic_iobase c + 4) v h) = (at_regs A h)(4 := v)" "at_regs A (outb p (ic_iobase c + 5) v h) = (at_regs A h)(5 := v)"
    "at_regs A (outb p (ic_iobase c + 6) v h) = (at_regs A h)(6 := v)" for v h
    using w [of 2 v h] w [of 3 v h] w [of 4 v h] w [of 5 v h] w [of 6 v h] by (simp_all add: st)
  show ?thesis unfolding st
    by (simp add: ide_select_sector_def out_io_def Let_def IDE_SECTOR_def IDE_LBA_LOW_def IDE_LBA_MID_def IDE_LBA_HIGH_def
        IDE_HDDEVSEL_def r) blast
qed

lemma select_gives:
  fixes lba :: u32
  assumes "ata_disk p (ic_iobase (fst st)) A" "0 < n" "id_selector d = (if sl then IDE_LBA_SLAVE else IDE_LBA_MASTER)"
    "unat lba + unat n \<le> at_total A sl"
  shows "ata_read A (at_regs A (snd (ide_select_sector p di d lba n st))) = ata_words A sl (unat lba) (unat n)"
proof -
  have lt: "unat lba < 268435456"
    using assms(2,4) ata_diskD(2) [OF assms(1), of sl] by (simp add: word_less_nat_alt)
  obtain f where f: "at_regs A (snd (ide_select_sector p di d lba n st)) = f(2 := n, 3 := ucast (lba AND 0xff),
    4 := ucast (drop_bit 8 lba AND 0xff), 5 := ucast (drop_bit 16 lba AND 0xff),
    6 := ucast (drop_bit 24 lba AND 0xf) OR id_selector d)" using select_regs [OF assms(1)] by blast
  have m: "(0xff :: u32) = mask 8" "(0xf :: u32) = mask 4" by (simp_all add: mask_eq_exp_minus_1)
  have b8: "unat (ucast (x AND 0xff) :: u8) = unat x mod 256" for x :: u32
    unfolding m(1) take_bit_eq_mask [symmetric] by (simp add: unsigned_ucast_eq unsigned_take_bit_eq) (simp add: take_bit_eq_mod)
  have d: "unat (drop_bit k lba) = unat lba div 2 ^ k" for k unfolding unsigned_drop_bit_eq using unsigned_less [of lba, where ?'a = nat] by (simp add: drop_bit_eq_div take_bit_nat_eq_self)
  let ?top = "ucast (drop_bit 24 lba AND 0xf) :: u8"
  have top: "unat ?top = unat lba div 16777216"
    unfolding m(2) take_bit_eq_mask [symmetric] using lt by (simp add: unsigned_ucast_eq unsigned_take_bit_eq d) (simp add: take_bit_eq_mod)
  have bits: "(x OR 0xE0) AND 0xF = x \<and> (x OR 0xF0) AND 0xF = x \<and> (x OR 0xE0) AND 0x40 \<noteq> 0 \<and> (x OR 0xF0) AND 0x40 \<noteq> 0
      \<and> (x OR 0xE0) AND 0x10 = 0 \<and> (x OR 0xF0) AND 0x10 \<noteq> 0" if "unat x < 16" for x :: u8
  proof -
    have "\<forall>k\<in>set [0..<16]. (of_nat k OR 0xE0) AND 0xF = (of_nat k :: u8) \<and> (of_nat k OR 0xF0) AND 0xF = (of_nat k :: u8)
        \<and> (of_nat k OR 0xE0) AND 0x40 \<noteq> (0 :: u8) \<and> (of_nat k OR 0xF0) AND 0x40 \<noteq> (0 :: u8)
        \<and> (of_nat k OR 0xE0) AND 0x10 = (0 :: u8) \<and> (of_nat k OR 0xF0) AND 0x10 \<noteq> (0 :: u8)" by code_simp
    moreover have "unat x \<in> set [0..<16]" "of_nat (unat x) = x" using that by simp_all
    ultimately show ?thesis by metis
  qed
  have "unat ?top < 16" using lt unfolding top by simp
  note e = bits [OF this]
  let ?r = "at_regs A (snd (ide_select_sector p di d lba n st))"
  have sl: "?r 6 AND 0xF = ?top" "?r 6 AND 0x40 \<noteq> 0" "(?r 6 AND 0x10 \<noteq> 0) = sl"
    using e assms(3) by (auto simp: f IDE_LBA_SLAVE_def IDE_LBA_MASTER_def)
  have r: "?r 2 = n" "unat (?r 3) = unat lba mod 256" "unat (?r 4) = unat lba div 256 mod 256" "unat (?r 5) = unat lba div 65536 mod 256"
    by (simp_all add: f b8 d)
  have "x mod 256 + 256 * (x div 256 mod 256) + 65536 * (x div 65536 mod 256) + 16777216 * (x div 16777216) = x" for x :: nat
  proof -
    have e: "x div 65536 = x div 256 div 256" "x div 16777216 = x div 256 div 256 div 256" by (simp_all add: div_mult2_eq [symmetric])
    show ?thesis unfolding e using div_mult_mod_eq [of x 256] div_mult_mod_eq [of "x div 256" 256] div_mult_mod_eq [of "x div 256 div 256" 256]
      by linarith
  qed
  then have "ata_lba ?r = unat lba" unfolding ata_lba_def r(2-4) sl(1) top by simp
  moreover have "ata_count ?r = unat n" using assms(2) r(1) by (auto simp: ata_count_def)
  ultimately show ?thesis using sl assms(4) by (simp add: ata_read_def)
qed

text \<open>C39: Reading from a disk that answers, master or slave, gives the caller exactly the words of the sectors asked
  for, from \<open>lba\<close> on and \<open>n\<close> of them, in order, and leaves none at the data port. The disk gives what the registers
  and the command ask for, so this includes that the driver selects these sectors.\<close>

theorem pio_read_delivers:
  assumes "ata_disk p (ic_iobase c) A" "0 < n" "id_selector d = (if sl then IDE_LBA_SLAVE else IDE_LBA_MASTER)"
    and "unat lba + unat n \<le> at_total A sl"
  shows "\<exists>c' h'. ide_pio_read p di d n lba (c, h) = Some (errno_val EOK, ata_words A sl (unat lba) (unat n), c', h') \<and> at_dat A h' = []"
proof -
  let ?s = "ide_select_drive p di d (c, h)"
  obtain st1 where 1: "ide_busy_wait p IDE_SR_DRDY IDE_TIMEOUT ?s = Some (errno_val EOK, st1)" "ic_iobase (fst st1) = ic_iobase c"
    using good_wait [of p ?s A IDE_SR_DRDY IDE_TIMEOUT] assms(1) by auto
  let ?t = "ide_select_sector p di d lba n st1"
  let ?r = "out_io p IDE_COMMAND IDE_CMD_READ ?t"
  have g: "ata_disk p (ic_iobase (fst ?r)) A" "ata_disk p (ic_iobase (fst ?t)) A" "ata_disk p (ic_iobase (fst st1)) A"
    using assms(1) 1(2) by simp_all
  have "at_dat A (snd ?r) = ata_read A (at_regs A (snd ?t))"
    using ata_diskD(5) [OF g(2), where b = "0x20" and h = "snd ?t"] by (cases ?t) (simp add: out_io_def IDE_COMMAND_def IDE_CMD_READ_def)
  then have "at_dat A (snd ?r) = ata_words A sl (unat lba) (unat n)"
    using select_gives [OF g(3) assms(2-4)] by simp
  then obtain st' where "read_sectors p (unat n) ?r = Some (errno_val EOK, ata_words A sl (unat lba) (unat n), st')" "at_dat A (snd st') = []"
    using good_sectors [OF g(1)] by blast
  then show ?thesis using 1(1) assms(2) by (cases st') (simp add: ide_pio_read_def)
qed

text \<open>A disk whose state is that of its registers and the words it will give; sector \<open>k\<close> of the slave holds the
  number \<open>k\<close> in all its words, that of the master zeros.\<close>

type_synonym disk_state = "(nat \<Rightarrow> u8) \<times> u16 list"

definition sample_ata :: "disk_state ata" where
  "sample_ata = \<lparr>at_regs = fst, at_dat = snd, at_sec = (\<lambda>sl k. replicate 256 (if sl then of_nat k else 0)), at_total = (\<lambda>_. 1000)\<rparr>"

definition sample_bus :: "disk_state bus" where
  "sample_bus = \<lparr>inb = (\<lambda>_ h. (if snd h = [] then 0x40 else 0x48, h)),
     inw = (\<lambda>_ h. (case snd h of [] \<Rightarrow> (0, h) | w # ws \<Rightarrow> (w, fst h, ws))),
     outb = (\<lambda>port v h. if port = 0x1F7 then (fst h, if v = 0x20 then ata_read sample_ata (fst h) else [])
       else ((fst h)(unat port - 0x1F0 := v), snd h)),
     outw = (\<lambda>_ _ h. h), outd = (\<lambda>_ _ h. h), nap = (\<lambda>h. h), irq = (\<lambda>h. (0, h)), expire_at = (\<lambda>_ _. 0), expired = (\<lambda>_ _. False)\<rparr>"

lemma sample_bus_disk: "ata_disk sample_bus 0x1F0 sample_ata"
proof -
  have port: "(0x1F0 :: u16) + of_nat k \<noteq> 0x1F7 \<and> unat ((0x1F0 :: u16) + of_nat k) - 0x1F0 = k" if "2 \<le> k \<and> k \<le> 6" for k
  proof -
    have "k = 2 \<or> k = 3 \<or> k = 4 \<or> k = 5 \<or> k = 6" using that by linarith
    then show ?thesis by auto
  qed
  have "at_regs sample_ata (outb sample_bus (0x1F0 + of_nat k) v h) = (at_regs sample_ata h)(k := v)" if "2 \<le> k \<and> k \<le> 6" for k v h
    using port [OF that] by (simp add: sample_ata_def sample_bus_def)
  then show ?thesis unfolding ata_disk_def by (auto simp: sample_ata_def sample_bus_def)
qed

theorem pio_read_delivers_witness:
  "\<exists>(c :: ide_ctrl) (d :: ide_disk) c' h'. ide_pio_read sample_bus 1 d 2 5 (c, \<lambda>_. 0, []) = Some (errno_val EOK, replicate 256 5 @ replicate 256 6, c', h')
     \<and> ic_iobase c = 0x1F0 \<and> id_selector d = IDE_LBA_SLAVE"
proof -
  define c where "c = (undefined :: ide_ctrl)\<lparr>ic_iobase := 0x1F0\<rparr>"
  define d where "d = (undefined :: ide_disk)\<lparr>id_selector := IDE_LBA_SLAVE\<rparr>"
  have cd: "ic_iobase c = 0x1F0" "id_selector d = (if True then IDE_LBA_SLAVE else IDE_LBA_MASTER)" by (simp_all add: c_def d_def)
  have w: "ata_words sample_ata True (unat (5 :: u32)) (unat (2 :: u8)) = replicate 256 5 @ replicate 256 6"
    by (simp add: ata_words_def sample_ata_def upt_conv_Cons del: upt_Suc)
  have "ata_disk sample_bus (ic_iobase c) sample_ata" using sample_bus_disk cd(1) by simp
  from pio_read_delivers [OF this _ cd(2), of 2 5 1 "(\<lambda>_. 0, [])"] obtain c' h' where
    "ide_pio_read sample_bus 1 d 2 5 (c, \<lambda>_. 0, []) = Some (errno_val EOK, replicate 256 5 @ replicate 256 6, c', h')"
    unfolding w by (auto simp: sample_ata_def)
  then show ?thesis using cd by fastforce
qed

subsection \<open>Disks that fail\<close>

text \<open>A controller whose status keeps the error bit: a deadline that was just set has not passed.\<close>

definition error_stays :: "'h bus \<Rightarrow> u16 \<Rightarrow> bool" where
  "error_stays p io \<longleftrightarrow> (\<forall>h. fst (inb p (io + IDE_ALT_STATUS) h) AND IDE_SR_ERR \<noteq> 0) \<and> (\<forall>t h. \<not> expired p (expire_at p t h) h)"

lemma iobase_reset:
  "ic_iobase (fst (soft_reset p (ide_error p st))) = ic_iobase (fst st)"
  by (simp add: soft_reset_def ide_error_def ide_delay_def out_io_def in_io_def Let_def split: prod.splits)

lemma wait_loop_error:
  "wait_loop p msk t e st = Some y \<Longrightarrow> error_stays p (ic_iobase (fst st)) \<Longrightarrow> expired p e (snd st) \<and> t > 0"
proof (induction p msk t e st y rule: wait_loop.raw_induct [rotated 1, consumes 1, case_names step])
  case (step f p msk t e st y)
  show ?case
  proof (rule ccontr)
    assume n: "\<not> (expired p e (snd st) \<and> t > 0)"
    obtain v st1 where i: "in_io p IDE_ALT_STATUS st = (v, st1)" by (metis prod.exhaust)
    have b: "ic_iobase (fst st1) = ic_iobase (fst st)" using i by (auto simp: in_io_def split: prod.splits)
    have v: "v AND IDE_SR_ERR \<noteq> 0"
      using i step.prems unfolding error_stays_def in_io_def by (auto split: prod.splits) (metis fst_conv)
    let ?st = "soft_reset p (ide_error p st1)"
    obtain z where z: "f p IDE_SR_NULL IDE_TIMEOUT (deadline p IDE_TIMEOUT ?st) ?st = Some z"
      using step.hyps n v i by (auto simp: Let_def split: Option.bind_splits)
    have "error_stays p (ic_iobase (fst ?st))" using step.prems b by (simp add: iobase_reset)
    from step.IH [OF z this] have "expired p (deadline p IDE_TIMEOUT ?st) (snd ?st)" by blast
    then show False using step.prems by (simp add: error_stays_def deadline_def)
  qed
qed

text \<open>C40: Waiting for a disk that keeps reporting an error never returns. \<open>ide_busy_wait\<close> resets the controller and
  the reset waits with \<open>ide_busy_wait\<close> again, which resets again, and the timeout of each starts anew; on the machine
  the calls use up the stack.\<close>

theorem ide_wait_never_returns:
  assumes "error_stays p (ic_iobase (fst st))"
  shows "ide_busy_wait p msk t st = None"
proof (cases "ide_busy_wait p msk t st")
  case (Some y)
  then have "expired p (deadline p t st) (snd st)"
    using wait_loop_error assms by (fastforce simp: ide_busy_wait_def)
  then show ?thesis using assms by (simp add: error_stays_def deadline_def)
qed

definition failing_bus :: "unit bus" where
  "failing_bus = \<lparr>inb = (\<lambda>_ h. (0x41, h)), inw = (\<lambda>_ h. (0, h)), outb = (\<lambda>_ _ h. h), outw = (\<lambda>_ _ h. h),
     outd = (\<lambda>_ _ h. h), nap = (\<lambda>h. h), irq = (\<lambda>h. (0, h)), expire_at = (\<lambda>_ _. 0), expired = (\<lambda>_ _. False)\<rparr>"

lemma failing_bus_error: "error_stays failing_bus io"
  by (simp add: error_stays_def failing_bus_def c_defs)

theorem ide_wait_never_returns_witness:
  "\<exists>c :: ide_ctrl. ide_busy_wait failing_bus IDE_SR_DRDY IDE_TIMEOUT (c, ()) = None"
  using ide_wait_never_returns [of failing_bus "(undefined, ())" IDE_SR_DRDY IDE_TIMEOUT] failing_bus_error by blast

text \<open>A write that times out after a sector gives 1, which callers take for success; the next sectors are not written.\<close>

lemma write_failure_positive:
  assumes "ide_pio_write_sector p (take 256 buf) st = Some st1" "block_for_irq p st1 = (0, st2)"
    and "ide_busy_wait p IDE_SR_NULL IDE_TIMEOUT st2 = Some (neg_errno ETIME, st3)"
  shows "write_sectors p (Suc n) buf st = Some (1, st3)"
  using assms by (simp add: as_int_def c_defs)

text \<open>The probe never gives a negative result, so a disk that is missing is asked for its type.\<close>

lemma probe_not_negative: "0 \<le> fst (ide_probe_device p d st)"
  by (simp add: ide_probe_device_def Let_def split: prod.split)

text \<open>A sector number has 28 bits in the registers: the four above are lost.\<close>

lemma select_sector_28_bits:
  assumes "take_bit 28 lba = take_bit 28 lba'"
  shows "ide_select_sector p di d lba n st = ide_select_sector p di d lba' n st"
proof -
  have b: "bit lba i = bit lba' i" if "i < 28" for i
    using arg_cong [OF assms, of "\<lambda>w. bit w i"] that by (simp add: bit_take_bit_iff)
  have e: "drop_bit k lba AND m = drop_bit k lba' AND m" if "\<And>i. bit m i \<Longrightarrow> i + k < 28" for k and m :: u32
    by (rule bit_word_eqI) (use b that in \<open>auto simp: bit_simps add.commute\<close>)
  have m: "bit (0xff :: u32) i \<Longrightarrow> i < 8" "bit (0xf :: u32) i \<Longrightarrow> i < 4" for i
  proof -
    have "(0xff :: u32) = mask 8" "(0xf :: u32) = mask 4" by (simp_all add: mask_eq_exp_minus_1)
    then show "bit (0xff :: u32) i \<Longrightarrow> i < 8" "bit (0xf :: u32) i \<Longrightarrow> i < 4" by (simp_all add: bit_mask_iff)
  qed
  have "drop_bit 0 lba AND 0xff = drop_bit 0 lba' AND 0xff" "drop_bit 8 lba AND 0xff = drop_bit 8 lba' AND 0xff"
    "drop_bit 16 lba AND 0xff = drop_bit 16 lba' AND 0xff" "drop_bit 24 lba AND 0xf = drop_bit 24 lba' AND 0xf"
    by (rule e; use m in fastforce)+
  then show ?thesis unfolding ide_select_sector_def by simp
qed

end
