(* ===== verification/Osh.thy ===== *)
theory Osh
  imports CString Stdlib
begin

section \<open>The shell: \<open>builtin/osh.c\<close>\<close>

text \<open>
  How the shell reads a line and splits it into arguments, in memory as in \<open>CString\<close>, and the name it shows in
  the prompt. The characters of the keyboard come from a list. Running the commands is left out.
\<close>

definition MAX_CMD_LEN :: nat where [c_defs]: "MAX_CMD_LEN = 256"
definition MAX_ARG_NR :: nat where [c_defs]: "MAX_ARG_NR = 16"
definition BLANK :: u8 where [c_defs]: "BLANK = 32"
definition QUOTE :: u8 where [c_defs]: "QUOTE = 34"

subsection \<open>Reading a line\<close>

text \<open>One character that was read at \<open>idx\<close>: the new index, what is echoed, and whether the line has ended. The
  buffer is written at the index before the character is looked at.\<close>

datatype line_step = Line_end "bytes" | Line_more nat "bytes" "bytes"

definition readline_char :: "u8 \<Rightarrow> bytes \<Rightarrow> nat \<Rightarrow> line_step option" where
  "readline_char ch buf idx = do {
     buf \<leftarrow> wr buf idx ch;
     if ch = 10 \<or> ch = 13 then do { buf \<leftarrow> wr buf idx 0; Some (Line_end buf) }
     else if ch = 8 then do {
       b0 \<leftarrow> rd buf 0;
       if b0 \<noteq> 8 then do { c_assert (0 < idx); Some (Line_more (idx - 1) buf [8]) }
       else Some (Line_more idx buf []) }
     else if ch = 9 then Some (Line_more idx buf [])
     else Some (Line_more (idx + 1) buf [ch]) }"

text \<open>The characters come from a list; at its end \<open>read\<close> gives -1. The result is the buffer and what was echoed.
  A line of \<open>count\<close> characters stores its terminator behind them.\<close>

fun readline :: "bytes \<Rightarrow> nat \<Rightarrow> bytes \<Rightarrow> nat \<Rightarrow> bytes \<Rightarrow> (bytes \<times> bytes) option" where
  "readline inp cnt buf idx echo =
    (if idx < cnt then
       (case inp of
          [] \<Rightarrow> do { buf \<leftarrow> wr buf idx 0; Some (buf, echo) }
        | ch # inp \<Rightarrow> do {
            r \<leftarrow> readline_char ch buf idx;
            case r of
              Line_end buf \<Rightarrow> Some (buf, echo @ [ch])
            | Line_more idx buf out \<Rightarrow> readline inp cnt buf idx (echo @ out) })
     else do { buf \<leftarrow> wr buf idx 0; Some (buf, echo) })"

subsection \<open>Splitting it\<close>

partial_function (option) skip_blanks :: "mem \<Rightarrow> nat \<Rightarrow> bool \<Rightarrow> nat option" where
  "skip_blanks m p quot = do {
     c \<leftarrow> m p;
     if c = BLANK \<or> quot \<and> c \<noteq> QUOTE then skip_blanks m (p + 1) quot else Some p }"

partial_function (option) skip_word :: "mem \<Rightarrow> nat \<Rightarrow> nat option" where
  "skip_word m p = do { c \<leftarrow> m p; if c \<noteq> 0 \<and> c \<noteq> BLANK then skip_word m (p + 1) else Some p }"

partial_function (option) parse_loop :: "mem \<Rightarrow> nat \<Rightarrow> bool \<Rightarrow> nat list \<Rightarrow> (mem \<times> nat list) option" where
  "parse_loop m p quot argv = do {
     c \<leftarrow> m p;
     if c = 0 \<or> \<not> length argv < MAX_ARG_NR then Some (m, argv)
     else do {
       p \<leftarrow> skip_blanks m p quot;
       c \<leftarrow> m p;
       if c = 0 then Some (m, argv)
       else if c = QUOTE then
         (if \<not> quot then parse_loop m (p + 1) True (argv @ [p + 1])
          else do { m \<leftarrow> store m p 0; parse_loop m (p + 1) False argv })
       else do {
         q \<leftarrow> skip_word m p;
         e \<leftarrow> m q;
         if e \<noteq> 0 then do { m \<leftarrow> store m q 0; parse_loop m (q + 1) quot (argv @ [p]) }
         else parse_loop m q quot (argv @ [p]) } } }"

text \<open>The null pointer behind the arguments goes into the same array of \<open>MAX_ARG_NR\<close> pointers.\<close>

definition cmd_parse :: "mem \<Rightarrow> nat \<Rightarrow> (mem \<times> nat list) option" where
  "cmd_parse m cmd = do {
     (m, argv) \<leftarrow> parse_loop m cmd False [];
     c_assert (length argv < MAX_ARG_NR);
     Some (m, argv) }"

declare skip_blanks.simps [code] skip_word.simps [code] parse_loop.simps [code]

subsection \<open>The prompt\<close>

definition basename :: "mem \<Rightarrow> nat \<Rightarrow> nat option" where
  "basename m name = do {
     r \<leftarrow> strrsep m name;
     ptr \<leftarrow> r;
     c \<leftarrow> m (ptr + 1);
     Some (if c = 0 then ptr else ptr + 1) }"

text \<open>The name the prompt shows, for the path of the current directory at \<open>cwd\<close>.\<close>

definition print_prompt :: "mem \<Rightarrow> nat \<Rightarrow> (nat \<times> mem) option" where
  "print_prompt m cwd = do {
     r \<leftarrow> strrsep m cwd;
     ptr \<leftarrow> r;
     m \<leftarrow> (if ptr \<noteq> cwd then store m ptr 0 else Some m);
     b \<leftarrow> basename m cwd;
     Some (b, m) }"

subsection \<open>The buffer of a line\<close>

text \<open>A character that goes into the line as it is.\<close>

definition plain_char :: "u8 \<Rightarrow> bool" where
  "plain_char c \<longleftrightarrow> c \<noteq> 8 \<and> c \<noteq> 9 \<and> c \<noteq> 10 \<and> c \<noteq> 13"

lemma readline_char_plain:
  "plain_char c \<Longrightarrow> idx < length buf \<Longrightarrow> readline_char c buf idx = Some (Line_more (idx + 1) (buf[idx := c]) [c])"
  by (simp add: readline_char_def plain_char_def)

text \<open>The shell passes the length of its buffer, and a line that fills it is ended behind the buffer.\<close>

lemma readline_overruns:
  assumes "list_all plain_char inp" "idx \<le> cnt" "cnt \<le> idx + length inp" "length buf = cnt"
  shows "readline inp cnt buf idx echo = None"
  using assms
proof (induction inp arbitrary: idx buf echo)
  case (Cons c cs)
  show ?case
  proof (cases "idx < cnt")
    case True
    then show ?thesis using Cons.prems Cons.IH [of "idx + 1" "buf[idx := c]"] by (simp add: readline_char_plain)
  qed (use Cons.prems in simp)
qed simp

lemma readline_plain:
  assumes "list_all plain_char cs" "e = 10 \<or> e = 13" "idx + length cs < cnt" "cnt \<le> length buf"
  shows "\<exists>buf'. readline (cs @ e # more_inp) cnt buf idx echo = Some (buf', echo @ cs @ [e]) \<and> length buf' = length buf
    \<and> take (idx + length cs + 1) buf' = take idx buf @ cs @ [0]"
  using assms
proof (induction cs arbitrary: idx buf echo)
  case Nil
  then have "readline (e # more_inp) cnt buf idx echo = Some (buf[idx := 0], echo @ [e])"
    by (auto simp: readline_char_def)
  then show ?case using Nil.prems by (auto simp: take_Suc_conv_app_nth)
next
  case (Cons c cs)
  have i: "idx < length buf" "idx < cnt" using Cons.prems by simp_all
  obtain buf' where b: "readline (cs @ e # more_inp) cnt (buf[idx := c]) (idx + 1) (echo @ [c]) = Some (buf', (echo @ [c]) @ cs @ [e])"
    "length buf' = length (buf[idx := c])" "take (idx + 1 + length cs + 1) buf' = take (idx + 1) (buf[idx := c]) @ cs @ [0]"
    using Cons.IH [of "idx + 1" "buf[idx := c]" "echo @ [c]"] Cons.prems by auto
  have "readline ((c # cs) @ e # more_inp) cnt buf idx echo = Some (buf', echo @ (c # cs) @ [e])"
    using b(1) i Cons.prems(1) by (simp add: readline_char_plain)
  moreover have "take (idx + 1) (buf[idx := c]) = take idx buf @ [c]" using i(1) by (simp add: take_Suc_conv_app_nth)
  ultimately show ?case using b(2,3) by simp
qed

subsection \<open>What a line is split into\<close>

text \<open>The words of a line without quotes.\<close>

function line_words :: "bytes \<Rightarrow> bytes list" where
  "line_words s = (case dropWhile (\<lambda>c. c = BLANK) s of
     [] \<Rightarrow> []
   | c # cs \<Rightarrow> takeWhile (\<lambda>c. c \<noteq> BLANK) (c # cs) # line_words (dropWhile (\<lambda>c. c \<noteq> BLANK) (c # cs)))"
  by auto

termination
proof (relation "measure length")
  fix s :: bytes and c cs assume d: "dropWhile (\<lambda>c. c = BLANK) s = c # cs"
  then have "c \<noteq> BLANK" using hd_dropWhile [of "\<lambda>c. c = BLANK" s] by simp
  then have "length (dropWhile (\<lambda>c. c \<noteq> BLANK) (c # cs)) \<le> length cs" by (simp add: length_dropWhile_le)
  also have "length (c # cs) \<le> length s" unfolding d [symmetric] by (rule length_dropWhile_le)
  then have "length cs < length s" by simp
  finally show "(dropWhile (\<lambda>c. c \<noteq> BLANK) (c # cs), s) \<in> measure length" by simp
qed simp

declare line_words.simps [simp del]

lemma line_words_Nil [simp]: "line_words [] = []"
  by (simp add: line_words.simps)

lemma line_words_blank: "line_words (BLANK # s) = line_words s"
  by (simp add: line_words.simps [of "BLANK # s"] line_words.simps [of s])

lemma line_words_word:
  assumes "c \<noteq> BLANK"
  shows "line_words (c # cs) = takeWhile (\<lambda>c. c \<noteq> BLANK) (c # cs) # line_words (dropWhile (\<lambda>c. c \<noteq> BLANK) (c # cs))"
  using assms by (simp add: line_words.simps [of "c # cs"])

text \<open>The loops over blanks and over the characters of a word.\<close>

lemma skip_blanks_line:
  assumes "region m p (s @ [0])"
  shows "skip_blanks m p False = Some (p + length (takeWhile (\<lambda>c. c = BLANK) s))"
  using assms
proof (induction s arbitrary: p)
  case Nil
  then show ?case by (simp add: skip_blanks.simps [of m p] BLANK_def)
next
  case (Cons c s)
  then show ?case using Cons.IH [of "Suc p"] by (auto simp: skip_blanks.simps [of m p])
qed

lemma skip_word_line:
  assumes "region m p (s @ [0])" "0 \<notin> set s"
  shows "skip_word m p = Some (p + length (takeWhile (\<lambda>c. c \<noteq> BLANK) s))"
  using assms
proof (induction s arbitrary: p)
  case Nil
  then show ?case by (simp add: skip_word.simps [of m p])
next
  case (Cons c s)
  then show ?case using Cons.IH [of "Suc p"] by (auto simp: skip_word.simps [of m p])
qed

lemma line_words_chars: "w \<in> set (line_words s) \<Longrightarrow> set w \<subseteq> set s"
proof (induction s rule: line_words.induct)
  case (1 s)
  show ?case
  proof (cases "dropWhile (\<lambda>c. c = BLANK) s")
    case Nil
    then have "line_words s = []" by (simp only: line_words.simps [of s] list.case)
    then show ?thesis using "1.prems" by simp
  next
    case (Cons c cs)
    have sub: "set (c # cs) \<subseteq> set s" unfolding Cons [symmetric] by (meson subsetI set_dropWhileD)
    have "w = takeWhile (\<lambda>c. c \<noteq> BLANK) (c # cs) \<or> w \<in> set (line_words (dropWhile (\<lambda>c. c \<noteq> BLANK) (c # cs)))"
      using "1.prems" Cons by (simp add: line_words.simps [of s])
    then show ?thesis
    proof
      assume "w = takeWhile (\<lambda>c. c \<noteq> BLANK) (c # cs)"
      then have "set w \<subseteq> set (c # cs)" by (metis subsetI set_takeWhileD)
      then show ?thesis using sub by blast
    next
      assume "w \<in> set (line_words (dropWhile (\<lambda>c. c \<noteq> BLANK) (c # cs)))"
      from "1.IH" [OF Cons this] have "set w \<subseteq> set (dropWhile (\<lambda>c. c \<noteq> BLANK) (c # cs))" .
      also have "\<dots> \<subseteq> set (c # cs)" by (meson subsetI set_dropWhileD)
      finally show ?thesis using sub by blast
    qed
  qed
qed

text \<open>The pointers of an argument list point to its words.\<close>

definition points_to :: "mem \<Rightarrow> nat list \<Rightarrow> bytes list \<Rightarrow> bool" where
  "points_to m ps ws \<longleftrightarrow> list_all2 (\<lambda>q w. region m q (w @ [0])) ps ws"

lemma region_frame: "region m p bs \<Longrightarrow> (\<And>a. p \<le> a \<Longrightarrow> a < p + length bs \<Longrightarrow> m' a = m a) \<Longrightarrow> region m' p bs"
  by (simp add: region_def)

lemma parse_loop_end: "m p = Some 0 \<Longrightarrow> parse_loop m p quot argv = Some (m, argv)"
  by (subst parse_loop.simps) simp

text \<open>One pass of the loop: the blanks, then a word and its end.\<close>

lemma parse_loop_words:
  assumes "region m p (s @ [0])" "0 \<notin> set s" "QUOTE \<notin> set s" "length argv \<le> MAX_ARG_NR"
  shows "\<exists>m' ps. parse_loop m p False argv = Some (m', argv @ ps)
    \<and> points_to m' ps (take (MAX_ARG_NR - length argv) (line_words s))
    \<and> (\<forall>a. a < p \<or> p + length s \<le> a \<longrightarrow> m' a = m a)"
  using assms
proof (induction "length s" arbitrary: m p s argv rule: less_induct)
  case less
  let ?k = "length (takeWhile (\<lambda>c. c = BLANK) s)" and ?r = "dropWhile (\<lambda>c. c = BLANK) s"
  have s: "s = takeWhile (\<lambda>c. c = BLANK) s @ ?r" by simp
  have len: "length s = ?k + length ?r" by (metis length_append takeWhile_dropWhile_id)
  have sk: "skip_blanks m p False = Some (p + ?k)" by (rule skip_blanks_line [OF less.prems(1)])
  have rr: "region m (p + ?k) (?r @ [0])"
    using less.prems(1) region_append [of m p "takeWhile (\<lambda>c. c = BLANK) s" "?r @ [0]"]
    by (metis append_assoc takeWhile_dropWhile_id)
  consider "s = []" | "length argv = MAX_ARG_NR" "s \<noteq> []" | x xs where "s = x # xs" "length argv < MAX_ARG_NR"
    using less.prems(4) by (cases s) fastforce+
  then show ?case
  proof cases
    case 1
    then show ?thesis using less.prems(1) by (simp add: parse_loop.simps [of m p] points_to_def)
  next
    case 2
    then obtain x where "m p = Some x" using less.prems(1) by (cases s) auto
    then show ?thesis using 2 by (simp add: parse_loop.simps [of m p] points_to_def)
  next
    case 3
    then have n: "length argv < MAX_ARG_NR" by simp
    have x: "m p = Some x" "x \<noteq> 0" using less.prems(1,2) 3 by auto
    show ?thesis
    proof (cases ?r)
      case Nil
      have "m (p + ?k) = Some 0" using rr unfolding Nil by simp
      moreover have "line_words s = []" using Nil by (simp only: line_words.simps [of s] list.case)
      ultimately show ?thesis using x n sk by (simp add: parse_loop.simps [of m p] points_to_def)
    next
      case r: (Cons c cs)
      let ?w = "takeWhile (\<lambda>c. c \<noteq> BLANK) ?r" and ?t = "dropWhile (\<lambda>c. c \<noteq> BLANK) ?r" and ?q = "p + ?k"
      have sub: "set ?r \<subseteq> set s" by (auto dest: set_dropWhileD)
      have c: "c \<noteq> BLANK" "c \<noteq> 0" "c \<noteq> QUOTE" "m ?q = Some c"
        using hd_dropWhile [of "\<lambda>c. c = BLANK" s] r sub less.prems(2,3) rr by auto
      have lw: "line_words s = ?w # line_words ?t" using r by (simp add: line_words.simps [of s])
      have lt: "length ?r = length ?w + length ?t" by (metis length_append takeWhile_dropWhile_id)
      have wd: "skip_word m ?q = Some (?q + length ?w)" by (rule skip_word_line [OF rr]) (use sub less.prems(2) in auto)
      have rr': "region m ?q (?w @ (?t @ [0]))" using rr by (metis append_assoc takeWhile_dropWhile_id)
      have rw: "region m ?q ?w" "region m (?q + length ?w) (?t @ [0])"
        using iffD1 [OF region_append rr'] by blast+
      have step: "parse_loop m p False argv = (do { e \<leftarrow> m (?q + length ?w);
          if e \<noteq> 0 then do { m \<leftarrow> store m (?q + length ?w) 0; parse_loop m (?q + length ?w + 1) False (argv @ [?q]) }
          else parse_loop m (?q + length ?w) False (argv @ [?q]) })"
        using x n sk c wd by (subst parse_loop.simps) simp
      show ?thesis
      proof (cases ?t)
        case Nil
        have e: "m (?q + length ?w) = Some 0" using rw(2) unfolding Nil by simp
        have "parse_loop m p False argv = Some (m, argv @ [?q])"
          unfolding step e Option.bind.simps using parse_loop_end [of m, OF e] by simp
        moreover have "region m ?q (?w @ [0])" using rw(1) e by (simp add: region_append)
        moreover have "line_words ?t = []" unfolding Nil by simp
        moreover have "take (MAX_ARG_NR - length argv) [?w] = [?w]" using n by simp
        ultimately have "parse_loop m p False argv = Some (m, argv @ [?q])
            \<and> points_to m [?q] (take (MAX_ARG_NR - length argv) (line_words s))"
          unfolding lw points_to_def by simp
        then show ?thesis by blast
      next
        case t: (Cons y ys)
        have y: "y = BLANK" using hd_dropWhile [of "\<lambda>c. c \<noteq> BLANK" ?r] t by simp
        let ?z = "?q + length ?w"
        let ?m = "m(?z \<mapsto> 0)"
        have e: "m ?z = Some BLANK" using rw(2) t y by simp
        have p1: "parse_loop m p False argv = parse_loop ?m (?z + 1) False (argv @ [?q])"
          unfolding step using e by (simp add: BLANK_def)
        have ys: "line_words ?t = line_words ys" unfolding t y by (rule line_words_blank)
        have "set ?t \<subseteq> set ?r" by (meson subsetI set_dropWhileD)
        then have sub2: "set ys \<subseteq> set s" using sub unfolding t by auto
        have rys: "region ?m (?z + 1) (ys @ [0])" using rw(2) t by (simp add: region_upd)
        have ls: "length ys < length s" using len lt t by simp
        obtain m' ps where m': "parse_loop ?m (?z + 1) False (argv @ [?q]) = Some (m', (argv @ [?q]) @ ps)"
          "points_to m' ps (take (MAX_ARG_NR - length (argv @ [?q])) (line_words ys))" "\<forall>a. a < ?z + 1 \<or> ?z + 1 + length ys \<le> a \<longrightarrow> m' a = ?m a"
          using less.hyps [OF ls rys, of "argv @ [?q]"] less.prems(2,3) n sub2 by fastforce
        have "region ?m ?q (?w @ [0])" using rw(1) by (simp add: region_append region_upd)
        then have "region m' ?q (?w @ [0])" by (rule region_frame) (use m'(3) in simp)
        moreover have "m' a = m a" if "a < p \<or> p + length s \<le> a" for a
          using that m'(3) len lt t by auto
        moreover have "take (MAX_ARG_NR - length argv) (?w # line_words ys)
            = ?w # take (MAX_ARG_NR - length (argv @ [?q])) (line_words ys)"
          using n by (simp add: take_Cons')
        ultimately show ?thesis using p1 m'(1,2) unfolding lw ys points_to_def by auto
      qed
    qed
  qed
qed

text \<open>C34: A line without quotes is split into its words: for less than 16 words, \<open>cmd_parse\<close> gives as many arguments,
  and each points to the text of its word in the buffer of the line, ended by a zero; nothing outside the line is
  changed. With 16 words or more the null pointer behind the arguments is stored outside their array.\<close>

theorem cmd_parse_words:
  assumes "cstr m p s" "QUOTE \<notin> set s"
  shows "if length (line_words s) < MAX_ARG_NR
    then \<exists>m' argv. cmd_parse m p = Some (m', argv) \<and> list_all2 (cstr m') argv (line_words s)
      \<and> (\<forall>a. a < p \<or> p + length s \<le> a \<longrightarrow> m' a = m a)
    else cmd_parse m p = None"
proof -
  have s: "region m p (s @ [0])" "0 \<notin> set s" using assms(1) by (simp_all add: cstr_def EOS_def)
  obtain m' argv where r: "parse_loop m p False [] = Some (m', argv)" "points_to m' argv (take MAX_ARG_NR (line_words s))"
    "\<forall>a. a < p \<or> p + length s \<le> a \<longrightarrow> m' a = m a"
    using parse_loop_words [OF s assms(2), of "[]"] by auto
  have w: "0 \<notin> set w" if "w \<in> set (line_words s)" for w
    using line_words_chars [OF that] s(2) by blast
  have l: "length argv = min MAX_ARG_NR (length (line_words s))"
    using r(2) by (auto simp: points_to_def dest: list_all2_lengthD)
  show ?thesis
  proof (cases "length (line_words s) < MAX_ARG_NR")
    case True
    then have "points_to m' argv (line_words s)" "length argv < MAX_ARG_NR" using r(2) l by simp_all
    then show ?thesis using True r(1,3) w
      by (auto simp: cmd_parse_def points_to_def cstr_def EOS_def list_all2_conv_all_nth)
  qed (use r(1) l in \<open>simp add: cmd_parse_def\<close>)
qed

definition sample_line :: mem where
  "sample_line a = (if a < 7 then Some ([32, 108, 115, 32, 32, 47, 0] ! a) else None)"

theorem cmd_parse_words_witness:
  "\<exists>m' argv. cmd_parse sample_line 0 = Some (m', argv) \<and> list_all2 (cstr m') argv [[108, 115], [47]]"
proof -
  have w: "line_words [32, 108, 115, 32, 32, 47] = [[108, 115], [47]]" by code_simp
  have c: "cstr sample_line 0 [32, 108, 115, 32, 32, 47]" by (simp add: cstr_def sample_line_def EOS_def)
  show ?thesis using cmd_parse_words [OF c] unfolding w by (auto simp: c_defs)
qed

text \<open>A quote that is not closed: the loop over the blanks does not stop at the end of the line.\<close>

lemma open_quote_runs_on:
  assumes "\<forall>a\<ge>p. \<forall>c. m a = Some c \<longrightarrow> c \<noteq> QUOTE"
  shows "skip_blanks m p True = None"
proof -
  have "False" if "skip_blanks m p q = Some y" "q" "\<forall>a\<ge>p. \<forall>c. m a = Some c \<longrightarrow> c \<noteq> QUOTE" for m p q y
    using that
  proof (induction m p q y rule: skip_blanks.raw_induct [rotated 1, consumes 1, case_names step])
    case (step f m p q y)
    then obtain c where c: "m p = Some c" "c \<noteq> QUOTE" by (cases "m p") auto
    then have f: "f m (p + 1) q = Some y" using step.hyps step.prems(1) by simp
    show ?case by (rule step.IH [OF f step.prems(1)]) (use step.prems(2) Suc_leD in \<open>simp, blast\<close>)
  qed
  then show ?thesis using assms by (cases "skip_blanks m p True") auto
qed

end
