(* ===== verification/Spec2Isabelle.thy ===== *)
theory Spec2Isabelle
  imports Bitmap DList Fifo Pipe CString Stdlib Time Vsprintf Addr Packet Protocols Memory Task Process Signal Mutex Device Buffer Ramcache Fs Namei File Mount Fsview Console Arena Syscall Keyboard Execve Ide Osh
begin

text \<open>
  Phinix is a small 32-bit kernel for one x86 processor, with a library that the kernel and its
  programs share. This development models the kernel's own logic, file by file, and proves what
  makes it correct. File names below are relative to \<open>src/src\<close>.

  \<^bold>\<open>How C is read.\<close> Machine integers are words of their width. A function that may stop the
  kernel is a function into \<open>option\<close>: \<open>None\<close> is a failed \<open>assert\<close>, a \<open>panic\<close>, or an access outside
  the object the code was given. Error codes are ordinary results. Interrupts are off in system
  calls, so a task loses the processor only where the code calls \<open>task_block\<close>, \<open>task_yield\<close> or
  \<open>task_sleep\<close>; what a function does up to such a place, and from there on, are separate steps, and
  the systems of several tasks are step relations over them (\<open>pipe_reach\<close>, \<open>lock_step\<close>,
  \<open>proc_step\<close>). An exception is \<open>task_exit\<close>, which is one step: what it releases is taken to be released
  without waiting for a disk, and \<open>close\<close>, a system call there too, looks for signals when it returns
  (\<open>exit_signal\<close>). Pointers into tables are indices, other pointers addresses in an explicit store.

  \<^bold>\<open>The parts and their theories.\<close>
  \<^item> \<open>Prelude\<close>: words, error numbers, assertions, checked access to bytes.
  \<^item> \<open>Bitmap\<close>, \<open>DList\<close>, \<open>Fifo\<close>, \<open>CString\<close>, \<open>Stdlib\<close>, \<open>Vsprintf\<close>: \<open>lib/bitmap.c\<close>, \<open>list.c\<close>,
    \<open>fifo.c\<close>, \<open>string.c\<close>, \<open>stdlib.c\<close>, \<open>vsprintf.c\<close>. \<open>Time\<close>: \<open>kernel/time.c\<close>, \<open>rtc.c\<close>, \<open>sys_time\<close>.
  \<^item> \<open>Memory\<close>: \<open>kernel/memory.c\<close>, pages, page tables, copy on write, \<open>brk\<close>, \<open>mmap\<close>.
  \<^item> \<open>Task\<close>, \<open>Process\<close>, \<open>Signal\<close>, \<open>Mutex\<close>: \<open>kernel/task.c\<close>, \<open>timer.c\<close>, \<open>clock.c\<close>, \<open>alarm.c\<close>,
    \<open>system.c\<close>, \<open>signal.c\<close>, \<open>mutex.c\<close>. The state \<open>ks\<close> is the table of tasks with its lists.
  \<^item> \<open>Device\<close>, \<open>Buffer\<close>, \<open>Ramcache\<close>: \<open>kernel/device.c\<close>, \<open>buffer.c\<close>, \<open>ramdisk.c\<close>. \<open>Ide\<close>: \<open>kernel/ide.c\<close>
    over an abstract bus, whose accesses to ports are arguments.
  \<^item> \<open>Fs\<close>, \<open>Namei\<close>, \<open>File\<close>, \<open>Mount\<close>, \<open>Pipe\<close>: \<open>fs/bmap.c\<close>, \<open>inode.c\<close>, \<open>super.c\<close>, \<open>namei.c\<close>, \<open>file.c\<close>,
    \<open>stat.c\<close>, \<open>ioctl.c\<close>, \<open>dev.c\<close>, \<open>pipe.c\<close>. \<open>Fsview\<close> holds the theorems on them.
  \<^item> \<open>Addr\<close>, \<open>Packet\<close>, \<open>Protocols\<close>: \<open>net/*.c\<close>.
  \<^item> \<open>Console\<close>: \<open>kernel/console.c\<close>, the bytes of the video memory and the escape sequences.
    \<open>Keyboard\<close>: \<open>kernel/keyboard.c\<close> and \<open>tty.c\<close>. \<open>Arena\<close>: \<open>kernel/arena.c\<close>, the kernel's heap.
  \<^item> \<open>Execve\<close>: \<open>kernel/execve.c\<close>, over the files, the page tables and the bytes of the address space.
  \<^item> \<open>Syscall\<close>: \<open>lib/syscall.c\<close>, \<open>kernel/gate.c\<close> and the entry in \<open>handler.asm\<close>.
  \<^item> \<open>Osh\<close>: of \<open>builtin/osh.c\<close>, how the shell reads a line and splits it.

  \<^bold>\<open>How they interact.\<close> The state records extend each other as the files call each other:
  \<open>Device\<close>'s state is extended by \<open>Buffer\<close>'s, that by the tables of \<open>Fs\<close>. A read of a file is
  \<open>sys_read\<close>, \<open>inode_read\<close>, \<open>bmap\<close>, \<open>bread\<close>, \<open>device_request\<close>, \<open>ramdisk_read\<close>, and the theorems follow
  this chain: the locale \<open>disk\<close> is what the cache needs of a driver, interpreted on the RAM disks; the
  locale \<open>fs_disk\<close> extends it by what the file system needs of the cache. \<open>bit_set\<close>, \<open>push_queue\<close> and
  \<open>byte_queue\<close> are the contracts of the bitmap, the list and the ring with their clients, \<open>page_supply\<close>
  that of the kernel's pages with the heap.

  \<^bold>\<open>What the lemmas show.\<close>
  \<^item> Library: each routine refines an operation on lists (of bits, nodes, bytes), on every branch.
  \<^item> Time: \<open>mktime\<close> equals the Gregorian calendar in its range; the dates \<open>localtime\<close> gets wrong.
  \<^item> Memory: the lowest free page is taken, mapping and unmapping under a page table that exists are inverse, a write after a fork is
    not seen by the other process.
  \<^item> Tasks: the scheduler picks the ready task with most ticks, timers wake at their tick, every
    process has a living father, a signal handler returns to the registers saved, a lock has one
    holder, who leaves with the last of his nested releases.
  \<^item> Disks and files: the elevator serves every request, the cache shows the disk, a file reads as it
    was written.
  \<^item> Network: a message with its checksum sums to zero, packet buffers are never in two places, requests
    for the own address are answered.
  \<^item> Console and keyboard: output stays on the screen and in its memory, plain text appears where the
    cursor is, a key gives the character its modifiers select.
  \<^item> Programs: a started program finds its arguments and environment on its stack; loading its segments
    ends.
  \<^item> IDE: a disk that follows the ATA registers and the read command gives the sectors the driver was asked
    for; waiting for one that fails never ends.
  \<^item> Heap: a block is fresh and long enough, \<open>kfree\<close> releases exactly its block. The records of pages given
    back stay in memory; the theorems name the set of those in use.
  \<^item> System calls: every stub of the library reaches its function in the kernel with its arguments.
  \<^item> Shell: a line without quotes is split into its words.
  \<^item> Errors: inputs on which the code stops or is wrong.

  \<^bold>\<open>Bounds and fuel.\<close> Loops that count are recursions on what is left. A loop over a C string takes
  fuel from the memory that is there; \<open>read_loop\<close> and \<open>write_loop\<close> take as many passes as bytes are
  left, since each pass moves at least one; \<open>elf_loop\<close> gets 65536 passes, which
  are enough for any number of program headers, and tells the end of its passes (\<open>None\<close>) from a failure
  (\<open>Some None\<close>); searches in tables are bounded by the tables. Where fuel
  could end, the theorem that it does not is part of the result (\<open>Some\<close>).

  \<^bold>\<open>Not modelled.\<close> Switches of stacks and the other assembler files; the set-up of the processor
  (\<open>gdt.c\<close>, \<open>interrupt.c\<close>, \<open>fpu.c\<close>, \<open>cpu.c\<close>) and the drivers (\<open>floppy.c\<close>, \<open>e1000.c\<close>,
  \<open>pci.c\<close>, \<open>serial.c\<close>, \<open>sb16.c\<close>, \<open>isa.c\<close>), which are sequences of port accesses whose meaning is in
  the hardware; the programs under \<open>builtin\<close>
  but for the lines of the shell.
\<close>

end
